(* ===== verification/Prelude.thy ===== *)
theory Prelude
  imports Main "HOL-Library.Word" "HOL-Library.Product_Lexorder" "HOL-Library.List_Lexorder"
    "HOL-Library.Char_ord"
begin

text \<open>
  The vocabulary the components share: Go strings as byte lists with the functions of the
  standard library's \<^verbatim>\<open>strings\<close> and \<^verbatim>\<open>strconv\<close> packages that the sources call, instants and
  durations of the \<^verbatim>\<open>time\<close> package, 64-bit wrap-around, and reachability over a step relation
  with the locale that carries an invariant to every reachable state.
\<close>

named_theorems go_str \<open>facts that evaluate or simplify the string functions\<close>
named_theorems go_time \<open>definitions of the clock arithmetic\<close>

section \<open>Bytes and strings\<close>

text \<open>
  A Go string is a sequence of bytes; an Isabelle \<^typ>\<open>char\<close> is a byte. \<open>length\<close> is Go's
  \<^verbatim>\<open>len\<close>.
\<close>

abbreviation byte :: "char \<Rightarrow> nat" where
  "byte c \<equiv> of_char c"

definition is_digit :: "char \<Rightarrow> bool" where
  "is_digit c \<longleftrightarrow> 48 \<le> byte c \<and> byte c \<le> 57"

definition is_lower :: "char \<Rightarrow> bool" where
  "is_lower c \<longleftrightarrow> 97 \<le> byte c \<and> byte c \<le> 122"

definition is_upper :: "char \<Rightarrow> bool" where
  "is_upper c \<longleftrightarrow> 65 \<le> byte c \<and> byte c \<le> 90"

definition lower_byte :: "char \<Rightarrow> char" where
  "lower_byte c = (if is_upper c then char_of (byte c + 32) else c)"

definition upper_byte :: "char \<Rightarrow> char" where
  "upper_byte c = (if is_lower c then char_of (byte c - 32) else c)"

definition ascii :: "string \<Rightarrow> bool" where
  "ascii s \<longleftrightarrow> list_all (\<lambda>c. byte c < 128) s"

text \<open>
  Case mapping outside ASCII is decided by Go's Unicode tables. They are a parameter of the
  definitions that can see such bytes; on ASCII input the parameter is not consulted.
\<close>

record unicode =
  uc_ToLower :: "string \<Rightarrow> string"
  uc_ToUpper :: "string \<Rightarrow> string"
  uc_EqualFold :: "string \<Rightarrow> string \<Rightarrow> bool"

definition ToLower :: "unicode \<Rightarrow> string \<Rightarrow> string" where
  "ToLower U s = (if ascii s then map lower_byte s else uc_ToLower U s)"

definition ToUpper :: "unicode \<Rightarrow> string \<Rightarrow> string" where
  "ToUpper U s = (if ascii s then map upper_byte s else uc_ToUpper U s)"

text \<open>The parameter's simplest instance: no case outside ASCII.\<close>

definition plain_unicode :: unicode where
  "plain_unicode = \<lparr>uc_ToLower = id, uc_ToUpper = id, uc_EqualFold = (=)\<rparr>"

definition EqualFold :: "unicode \<Rightarrow> string \<Rightarrow> string \<Rightarrow> bool" where
  "EqualFold U s t =
     (if ascii s \<and> ascii t then map lower_byte s = map lower_byte t else uc_EqualFold U s t)"

definition HasPrefix :: "string \<Rightarrow> string \<Rightarrow> bool" where
  "HasPrefix s p \<longleftrightarrow> take (length p) s = p"

definition HasSuffix :: "string \<Rightarrow> string \<Rightarrow> bool" where
  "HasSuffix s p \<longleftrightarrow> length p \<le> length s \<and> drop (length s - length p) s = p"

definition TrimSuffix :: "string \<Rightarrow> string \<Rightarrow> string" where
  "TrimSuffix s p = (if HasSuffix s p then take (length s - length p) s else s)"

definition ContainsAny :: "string \<Rightarrow> string \<Rightarrow> bool" where
  "ContainsAny s chars \<longleftrightarrow> list_ex (\<lambda>c. c \<in> set chars) s"

fun IndexByte :: "string \<Rightarrow> char \<Rightarrow> nat option" where
  "IndexByte [] b = None"
| "IndexByte (c # s) b = (if c = b then Some 0 else map_option Suc (IndexByte s b))"

fun LastIndexByte :: "string \<Rightarrow> char \<Rightarrow> nat option" where
  "LastIndexByte [] b = None"
| "LastIndexByte (c # s) b =
     (case LastIndexByte s b of
        Some i \<Rightarrow> Some (Suc i)
      | None \<Rightarrow> (if c = b then Some 0 else None))"

text \<open>\<^verbatim>\<open>strings.Split(s, sep)\<close> for a one-byte separator: never the empty list.\<close>

fun split_byte :: "char \<Rightarrow> string \<Rightarrow> string list" where
  "split_byte b [] = [[]]"
| "split_byte b (c # s) =
     (if c = b then [] # split_byte b s
      else (case split_byte b s of
              w # ws \<Rightarrow> (c # w) # ws
            | [] \<Rightarrow> [[c]]))"

fun join_with :: "string \<Rightarrow> string list \<Rightarrow> string" where
  "join_with sep [] = []"
| "join_with sep [w] = w"
| "join_with sep (w # ws) = w @ sep @ join_with sep ws"

text \<open>
  \<^verbatim>\<open>strings.TrimSpace\<close> strips the white space of Unicode: the six ASCII spaces, and the runes
  U+0085, U+00A0 (two bytes) and U+1680, U+2000 to U+200A, U+2028, U+2029, U+202F, U+205F,
  U+3000 (three bytes) in their UTF-8 encoding.
\<close>

definition ascii_space :: "char \<Rightarrow> bool" where
  "ascii_space c \<longleftrightarrow> (9 \<le> byte c \<and> byte c \<le> 13) \<or> byte c = 32"

definition space2 :: "char \<Rightarrow> char \<Rightarrow> bool" where
  "space2 a b \<longleftrightarrow> byte a = 0xC2 \<and> (byte b = 0x85 \<or> byte b = 0xA0)"

definition space3 :: "char \<Rightarrow> char \<Rightarrow> char \<Rightarrow> bool" where
  "space3 a b c \<longleftrightarrow>
     (byte a = 0xE1 \<and> byte b = 0x9A \<and> byte c = 0x80) \<or>
     (byte a = 0xE2 \<and> byte b = 0x80 \<and>
        ((0x80 \<le> byte c \<and> byte c \<le> 0x8A) \<or> byte c \<in> {0xA8, 0xA9, 0xAF})) \<or>
     (byte a = 0xE2 \<and> byte b = 0x81 \<and> byte c = 0x9F) \<or>
     (byte a = 0xE3 \<and> byte b = 0x80 \<and> byte c = 0x80)"

fun trim_left :: "string \<Rightarrow> string" where
  "trim_left [] = []"
| "trim_left [a] = (if ascii_space a then [] else [a])"
| "trim_left [a, b] =
     (if ascii_space a then trim_left [b]
      else if space2 a b then [] else [a, b])"
| "trim_left (a # b # c # s) =
     (if ascii_space a then trim_left (b # c # s)
      else if space2 a b then trim_left (c # s)
      else if space3 a b c then trim_left s
      else a # b # c # s)"

text \<open>The same from the right, on the reversed string.\<close>

fun trim_left_rev :: "string \<Rightarrow> string" where
  "trim_left_rev [] = []"
| "trim_left_rev [a] = (if ascii_space a then [] else [a])"
| "trim_left_rev [a, b] =
     (if ascii_space a then trim_left_rev [b]
      else if space2 b a then [] else [a, b])"
| "trim_left_rev (a # b # c # s) =
     (if ascii_space a then trim_left_rev (b # c # s)
      else if space2 b a then trim_left_rev (c # s)
      else if space3 c b a then trim_left_rev s
      else a # b # c # s)"

definition trim_right :: "string \<Rightarrow> string" where
  "trim_right s = rev (trim_left_rev (rev s))"

definition TrimSpace :: "string \<Rightarrow> string" where
  "TrimSpace s = trim_right (trim_left s)"

text \<open>
  \<^verbatim>\<open>strings.Fields\<close>: the maximal runs of bytes that are not white space. \<open>space_width\<close> is the
  length of the white-space rune at the head of a string, 0 if there is none.
\<close>

definition space_width :: "string \<Rightarrow> nat" where
  "space_width s =
     (if s \<noteq> [] \<and> ascii_space (s ! 0) then 1
      else if length s \<ge> 2 \<and> space2 (s ! 0) (s ! 1) then 2
      else if length s \<ge> 3 \<and> space3 (s ! 0) (s ! 1) (s ! 2) then 3
      else 0)"

function fields_from :: "string \<Rightarrow> string \<Rightarrow> string list" where
  "fields_from w s =
     (if s = [] then (if w = [] then [] else [w])
      else if space_width s = 0 then fields_from (w @ [hd s]) (tl s)
      else (if w = [] then [] else [w]) @ fields_from [] (drop (space_width s) s))"
  by pat_completeness auto
termination
  by (relation "measure (\<lambda>(w, s). length s)") auto

declare fields_from.simps [simp del]

definition Fields :: "string \<Rightarrow> string list" where
  "Fields s = fields_from [] s"

lemmas [go_str] = is_digit_def is_lower_def is_upper_def lower_byte_def upper_byte_def ascii_def
  HasPrefix_def HasSuffix_def TrimSuffix_def ContainsAny_def ascii_space_def space2_def space3_def
  trim_right_def TrimSpace_def

subsection \<open>Decimal numerals\<close>

fun nat_dec :: "nat \<Rightarrow> string" where
  "nat_dec n =
     (if n < 10 then [char_of (48 + n)] else nat_dec (n div 10) @ [char_of (48 + n mod 10)])"

declare nat_dec.simps [simp del]

definition int_dec :: "int \<Rightarrow> string" where
  "int_dec i = (if i < 0 then ''-'' @ nat_dec (nat (- i)) else nat_dec (nat i))"

definition dec_val :: "string \<Rightarrow> nat" where
  "dec_val s = foldl (\<lambda>a c. 10 * a + (byte c - 48)) 0 s"

section \<open>Clock arithmetic\<close>

text \<open>
  An instant is a number of nanoseconds since the Unix epoch (in UTC, so \<^verbatim>\<open>t.UTC()\<close> is the
  identity), a duration a number of nanoseconds. Go's zero time is the first of January of
  year 1. Durations are 64-bit: subtraction of instants saturates, and products of durations
  wrap around, written out with \<open>wrap64\<close>.
\<close>

type_synonym gotime = int
type_synonym duration = int

definition zero_time :: gotime where
  "zero_time = - 62135596800 * 1000000000"

abbreviation nanosecond :: duration where "nanosecond \<equiv> 1"
abbreviation millisecond :: duration where "millisecond \<equiv> 1000000"
abbreviation second :: duration where "second \<equiv> 1000000000"
abbreviation minute :: duration where "minute \<equiv> 60 * second"
abbreviation hour :: duration where "hour \<equiv> 60 * minute"

definition wrap64 :: "int \<Rightarrow> int" where
  "wrap64 x = (x + 2 ^ 63) mod 2 ^ 64 - 2 ^ 63"

definition saturate64 :: "int \<Rightarrow> int" where
  "saturate64 x = max (- (2 ^ 63)) (min (2 ^ 63 - 1) x)"

definition time_Sub :: "gotime \<Rightarrow> gotime \<Rightarrow> duration" where
  "time_Sub t u = saturate64 (t - u)"

definition UnixNano :: "gotime \<Rightarrow> int" where
  "UnixNano t = wrap64 t"

definition UnixMilli :: "gotime \<Rightarrow> int" where
  "UnixMilli t = t div 1000000"

text \<open>Go's integer division truncates towards zero.\<close>

definition quot_trunc :: "int \<Rightarrow> int \<Rightarrow> int" where
  "quot_trunc a b = sgn a * sgn b * (\<bar>a\<bar> div \<bar>b\<bar>)"

lemmas [go_time] = zero_time_def wrap64_def saturate64_def time_Sub_def UnixNano_def UnixMilli_def

lemma wrap64_id: "- (2 ^ 63) \<le> x \<Longrightarrow> x < 2 ^ 63 \<Longrightarrow> wrap64 x = x"
  by (simp add: wrap64_def)

lemma wrap64_bounds: "- (2 ^ 63) \<le> wrap64 x \<and> wrap64 x < 2 ^ 63"
  unfolding wrap64_def by simp

lemma quot_trunc_nonneg: "0 \<le> a \<Longrightarrow> 0 < b \<Longrightarrow> quot_trunc a b = a div b"
  by (auto simp: quot_trunc_def sgn_if)

lemma quot_trunc_abs: "0 < b \<Longrightarrow> \<bar>quot_trunc a b\<bar> = \<bar>a\<bar> div b"
  by (auto simp: quot_trunc_def sgn_if abs_mult pos_imp_zdiv_nonneg_iff)

lemma quot_trunc_abs_le:
  assumes "0 < b"
  shows "\<bar>quot_trunc a b\<bar> * b \<le> \<bar>a\<bar>"
proof -
  have "\<bar>a\<bar> div b * b + \<bar>a\<bar> mod b = \<bar>a\<bar>" by simp
  moreover have "0 \<le> \<bar>a\<bar> mod b" using assms by simp
  ultimately have "\<bar>a\<bar> div b * b \<le> \<bar>a\<bar>" by linarith
  then show ?thesis by (simp add: quot_trunc_abs assms)
qed

text \<open>A 64-bit counter that is not at its end grows by one.\<close>

lemma word_less_succ: "x \<noteq> - 1 \<Longrightarrow> x < x + 1" for x :: "'a::len word"
proof -
  assume "x \<noteq> - 1"
  then have "1 + x \<noteq> 0" by (metis add_eq_0_iff)
  then have "unat (1 + x) = Suc (unat x)" by (rule unatSuc)
  then show ?thesis by (simp add: word_less_nat_alt add.commute)
qed

section \<open>Facts about the string functions\<close>

lemma length_trim_left: "length (trim_left s) \<le> length s"
  by (induction s rule: trim_left.induct) auto

lemma length_trim_left_rev: "length (trim_left_rev s) \<le> length s"
  by (induction s rule: trim_left_rev.induct) auto

lemma length_TrimSpace: "length (TrimSpace s) \<le> length s"
  using length_trim_left [of s] length_trim_left_rev [of "rev (trim_left s)"]
  by (simp add: TrimSpace_def trim_right_def)

lemma set_trim_left: "set (trim_left s) \<subseteq> set s"
  by (induction s rule: trim_left.induct) auto

lemma set_trim_left_rev: "set (trim_left_rev s) \<subseteq> set s"
  by (induction s rule: trim_left_rev.induct) auto

lemma set_TrimSpace: "set (TrimSpace s) \<subseteq> set s"
  using set_trim_left [of s] set_trim_left_rev [of "rev (trim_left s)"]
  by (auto simp: TrimSpace_def trim_right_def)

lemma split_byte_not_Nil [simp]: "split_byte b s \<noteq> []"
  by (induction s) (auto split: list.splits)

lemma split_byte_no_sep: "w \<in> set (split_byte b s) \<Longrightarrow> b \<notin> set w"
  by (induction s arbitrary: w) (auto split: list.splits if_splits)

lemma split_byte_free: "b \<notin> set w \<Longrightarrow> split_byte b w = [w]"
  by (induction w) auto

lemma split_byte_append:
  "b \<notin> set w \<Longrightarrow> split_byte b (w @ b # s) = w # split_byte b s"
  by (induction w) auto

lemma join_split_byte: "join_with [b] (split_byte b s) = s"
proof (induction s)
  case Nil
  then show ?case by simp
next
  case (Cons c s)
  obtain w ws where "split_byte b s = w # ws"
    by (cases "split_byte b s") auto
  with Cons show ?case by (cases ws) auto
qed

lemma nat_dec_small: "n < 10 \<Longrightarrow> nat_dec n = [char_of (48 + n)]"
  by (subst nat_dec.simps) simp

lemma nat_dec_step:
  "\<not> n < 10 \<Longrightarrow> nat_dec n = nat_dec (n div 10) @ [char_of (48 + n mod 10)]"
  by (subst nat_dec.simps) simp

lemma dec_val_snoc: "dec_val (s @ [c]) = 10 * dec_val s + (byte c - 48)"
  by (simp add: dec_val_def)

lemma nat_dec_not_Nil [simp]: "nat_dec n \<noteq> []"
  by (subst nat_dec.simps) simp

lemma nat_dec_digits: "list_all is_digit (nat_dec n)"
proof (induction n rule: nat_dec.induct)
  case (1 n)
  show ?case
  proof (cases "n < 10")
    case True
    then show ?thesis by (simp add: nat_dec_small is_digit_def)
  next
    case False
    moreover have "n mod 10 < 10" by simp
    ultimately show ?thesis
      using 1 by (simp add: nat_dec_step is_digit_def)
  qed
qed

lemma dec_val_nat_dec [simp]: "dec_val (nat_dec n) = n"
proof (induction n rule: nat_dec.induct)
  case (1 n)
  show ?case
  proof (cases "n < 10")
    case True
    then show ?thesis by (simp add: nat_dec_small dec_val_def)
  next
    case False
    with 1 show ?thesis by (simp add: nat_dec_step dec_val_snoc)
  qed
qed

lemma nat_dec_inject [simp]: "nat_dec m = nat_dec n \<longleftrightarrow> m = n"
  by (metis dec_val_nat_dec)

subsection \<open>Letter case and white space\<close>

lemma lower_byte_idem [simp]: "lower_byte (lower_byte c) = lower_byte c"
  by (simp add: lower_byte_def is_upper_def)

lemma lower_byte_printable:
  "0x21 \<le> byte c \<Longrightarrow> byte c < 0x7f \<Longrightarrow> 0x21 \<le> byte (lower_byte c) \<and> byte (lower_byte c) < 0x7f"
  by (auto simp: lower_byte_def is_upper_def)

lemma lower_byte_at: "lower_byte c = CHR ''@'' \<longleftrightarrow> c = CHR ''@''"
  by (auto simp: lower_byte_def is_upper_def dest: arg_cong [where f = byte])

lemma trim_left_printable: "list_all (\<lambda>c. 0x21 \<le> byte c \<and> byte c < 0x7f) s \<Longrightarrow> trim_left s = s"
  by (induction s rule: trim_left.induct) (auto simp: go_str)

lemma trim_left_rev_printable: "list_all (\<lambda>c. 0x21 \<le> byte c \<and> byte c < 0x7f) s \<Longrightarrow> trim_left_rev s = s"
  by (induction s rule: trim_left_rev.induct) (auto simp: go_str)

lemma TrimSpace_printable: "list_all (\<lambda>c. 0x21 \<le> byte c \<and> byte c < 0x7f) s \<Longrightarrow> TrimSpace s = s"
  by (simp add: TrimSpace_def trim_right_def trim_left_printable trim_left_rev_printable list_all_rev)

lemma lower_byte_cases: "lower_byte c = c \<or> (is_upper c \<and> is_lower (lower_byte c))"
  by (auto simp: lower_byte_def is_upper_def is_lower_def)

lemma lower_byte_fixed: "\<not> is_upper d \<Longrightarrow> \<not> is_lower d \<Longrightarrow> lower_byte c = d \<longleftrightarrow> c = d"
  using lower_byte_cases [of c] by auto

lemma lower_byte_range:
  "byte (lower_byte c) \<le> 32 \<longleftrightarrow> byte c \<le> 32" "127 \<le> byte (lower_byte c) \<longleftrightarrow> 127 \<le> byte c"
  "ascii_space (lower_byte c) = ascii_space c" "is_digit (lower_byte c) = is_digit c"
  by (auto simp: lower_byte_def is_upper_def ascii_space_def is_digit_def)

lemma lower_byte_high: "128 \<le> n \<Longrightarrow> byte (lower_byte c) = n \<longleftrightarrow> byte c = n"
  by (auto simp: lower_byte_def is_upper_def)

lemma lower_byte_low:
  "128 \<le> n \<Longrightarrow> n \<le> byte (lower_byte c) \<longleftrightarrow> n \<le> byte c" "128 \<le> n \<Longrightarrow> 128 \<le> byte c \<Longrightarrow> lower_byte c = c"
  by (auto simp: lower_byte_def is_upper_def)

lemma split_byte_snoc: "split_byte b (s @ [b]) = split_byte b s @ [[]]"
  by (induction s) (auto split: list.splits)

lemma split_byte_suffix: "HasSuffix s [b] \<Longrightarrow> [] \<in> set (split_byte b s)"
proof -
  assume suf: "HasSuffix s [b]"
  obtain u where "s = u @ [b]"
    using suf by (cases s rule: rev_cases) (auto simp: HasSuffix_def)
  then show ?thesis by (simp add: split_byte_snoc)
qed

section \<open>Reachable states\<close>

inductive reachable :: "('s \<Rightarrow> bool) \<Rightarrow> ('s \<Rightarrow> 's \<Rightarrow> bool) \<Rightarrow> 's \<Rightarrow> bool"
  for init :: "'s \<Rightarrow> bool" and step :: "'s \<Rightarrow> 's \<Rightarrow> bool" where
  reach_init: "init s \<Longrightarrow> reachable init step s"
| reach_step: "reachable init step s \<Longrightarrow> step s t \<Longrightarrow> reachable init step t"

text \<open>
  A component with an inductive invariant: what holds initially and is kept by every step
  holds in every reachable state.
\<close>

locale invariant_system =
  fixes init :: "'s \<Rightarrow> bool" and step :: "'s \<Rightarrow> 's \<Rightarrow> bool" and inv :: "'s \<Rightarrow> bool"
  assumes inv_init: "init s \<Longrightarrow> inv s"
    and inv_step: "inv s \<Longrightarrow> step s t \<Longrightarrow> inv t"
begin

lemma inv_reachable: "reachable init step s \<Longrightarrow> inv s"
  by (induction rule: reachable.induct) (auto intro: inv_init inv_step)

end

end
