(* ===== verification/Queue_Contract.thy ===== *)
theory Queue_Contract
  imports Prelude
begin

text \<open>
  The work-scheduling boundary of \<^verbatim>\<open>internal/queue\<close>: jobs and claims, the errors of the package,
  the job validation both queues share, and the ownership contract of the \<^verbatim>\<open>Queue\<close> interface as
  a locale. The in-memory and the Redis queue interpret the locale; the worker relies on it.
\<close>

record job =
  job_ID :: string
  job_MessageID :: string
  job_EnqueuedAt :: gotime
  job_AvailableAt :: gotime

type_synonym token = "64 word"

record claim =
  cl_Job :: job
  cl_Token :: token

datatype queue_error =
    ErrQueueClosed
  | ErrUnknownJob
  | ErrJobNotClaimed
  | ErrInvalidCapacity
  | ErrEmptyJobID
  | ErrEmptyMessageID
  | ErrJobIDControlChar
  | ErrContext \<comment> \<open>the error of a canceled or expired context\<close>
  | ErrRedisConfig string
  | ErrRedis string

text \<open>\<^verbatim>\<open>"\r\n\x00"\<close>: the bytes a header or an identifier must not contain.\<close>

definition crlf_nul :: string where
  "crlf_nul = [CHR 0x0D, CHR 0x0A, CHR 0x00]"

definition job_validate :: "job \<Rightarrow> queue_error option" where
  "job_validate j =
     (if TrimSpace (job_ID j) = [] then Some ErrEmptyJobID
      else if ContainsAny (job_ID j) crlf_nul then Some ErrJobIDControlChar
      else if TrimSpace (job_MessageID j) = [] then Some ErrEmptyMessageID
      else None)"

text \<open>
  The time stamps a queue fills in: a job without an enqueue time gets the clock's, a job
  without an availability time becomes available when it was enqueued.
\<close>

definition normalize_times :: "gotime \<Rightarrow> job \<Rightarrow> job" where
  "normalize_times now j =
     (let j1 = (if job_EnqueuedAt j = zero_time then j\<lparr>job_EnqueuedAt := now\<rparr> else j)
      in if job_AvailableAt j1 = zero_time then j1\<lparr>job_AvailableAt := job_EnqueuedAt j1\<rparr> else j1)"

lemma normalize_times_ID [simp]: "job_ID (normalize_times now j) = job_ID j"
  by (simp add: normalize_times_def Let_def)

lemma normalize_times_MessageID [simp]:
  "job_MessageID (normalize_times now j) = job_MessageID j"
  by (simp add: normalize_times_def Let_def)

text \<open>
  One pass through a blocking operation's loop: it returned (a nil error is \<open>Inr\<close>), or it must
  wait and run the loop body again. A wait ends with the context's error or with another pass.
\<close>

datatype 'a pass = Done "queue_error + 'a" | Block

section \<open>The ownership contract\<close>

text \<open>
  What a client of \<^verbatim>\<open>Queue\<close> relies on: a claim hands out a token nobody else holds; only the
  holder of the current token can renew, release or acknowledge; each of these either succeeds
  for the owner or fails without any effect. \<open>tokens_left\<close> says that the 64-bit token counter
  has not reached its end.
\<close>

locale claim_ownership =
  fixes inv :: "'q \<Rightarrow> bool"
    and tokens_left :: "'q \<Rightarrow> bool"
    and active :: "'q \<Rightarrow> string set"
    and owns :: "'q \<Rightarrow> string \<Rightarrow> token \<Rightarrow> bool"
    and claim :: "gotime \<Rightarrow> 'q \<Rightarrow> claim pass \<times> 'q"
    and ack :: "string \<Rightarrow> token \<Rightarrow> 'q \<Rightarrow> queue_error option \<times> 'q"
    and renew :: "gotime \<Rightarrow> string \<Rightarrow> token \<Rightarrow> 'q \<Rightarrow> queue_error option \<times> 'q"
    and release :: "string \<Rightarrow> token \<Rightarrow> gotime \<Rightarrow> 'q \<Rightarrow> queue_error option \<times> 'q"
  assumes owns_active: "inv q \<Longrightarrow> owns q i t \<Longrightarrow> i \<in> active q"
    and owns_unique: "inv q \<Longrightarrow> owns q i t \<Longrightarrow> owns q i t' \<Longrightarrow> t = t'"
    and claim_owns: "inv q \<Longrightarrow> tokens_left q \<Longrightarrow> claim now q = (Done (Inr c), q') \<Longrightarrow>
          inv q' \<and> active q' = active q \<and> owns q' (job_ID (cl_Job c)) (cl_Token c)"
    and claim_fresh: "inv q \<Longrightarrow> tokens_left q \<Longrightarrow> claim now q = (Done (Inr c), q') \<Longrightarrow>
          \<not> owns q i (cl_Token c)"
    and ack_owner: "inv q \<Longrightarrow> owns q i t \<Longrightarrow>
          \<exists>q'. ack i t q = (None, q') \<and> inv q' \<and> active q' = active q - {i} \<and>
               (\<forall>k u. owns q' k u \<longleftrightarrow> owns q k u \<and> k \<noteq> i)"
    and ack_stranger: "inv q \<Longrightarrow> i \<in> active q \<Longrightarrow> \<not> owns q i t \<Longrightarrow>
          ack i t q = (Some ErrJobNotClaimed, q)"
    and ack_unknown: "inv q \<Longrightarrow> i \<notin> active q \<Longrightarrow> ack i t q = (Some ErrUnknownJob, q)"
    and renew_owner: "inv q \<Longrightarrow> owns q i t \<Longrightarrow>
          \<exists>q'. renew now i t q = (None, q') \<and> inv q' \<and> active q' = active q \<and>
               (\<forall>k u. owns q' k u \<longleftrightarrow> owns q k u)"
    and renew_stranger: "inv q \<Longrightarrow> i \<in> active q \<Longrightarrow> \<not> owns q i t \<Longrightarrow>
          renew now i t q = (Some ErrJobNotClaimed, q)"
    and renew_unknown: "inv q \<Longrightarrow> i \<notin> active q \<Longrightarrow> renew now i t q = (Some ErrUnknownJob, q)"
    and release_owner: "inv q \<Longrightarrow> owns q i t \<Longrightarrow>
          \<exists>q'. release i t av q = (None, q') \<and> inv q' \<and> active q' = active q \<and>
               (\<forall>k u. owns q' k u \<longleftrightarrow> owns q k u \<and> k \<noteq> i)"
    and release_stranger: "inv q \<Longrightarrow> i \<in> active q \<Longrightarrow> \<not> owns q i t \<Longrightarrow>
          release i t av q = (Some ErrJobNotClaimed, q)"
    and release_unknown: "inv q \<Longrightarrow> i \<notin> active q \<Longrightarrow> release i t av q = (Some ErrUnknownJob, q)"
begin

text \<open>A fresh claim can be finished by its owner, once.\<close>

lemma claim_then_ack:
  assumes "inv q" "tokens_left q" "claim now q = (Done (Inr c), q1)"
  shows "\<exists>q2. ack (job_ID (cl_Job c)) (cl_Token c) q1 = (None, q2) \<and>
              ack (job_ID (cl_Job c)) (cl_Token c) q2 = (Some ErrUnknownJob, q2) \<and>
              active q2 = active q - {job_ID (cl_Job c)}"
proof -
  have q1: "inv q1" "active q1 = active q" "owns q1 (job_ID (cl_Job c)) (cl_Token c)"
    using claim_owns [OF assms] by auto
  from ack_owner [OF q1(1,3)] obtain q2 where
    q2: "ack (job_ID (cl_Job c)) (cl_Token c) q1 = (None, q2)" "inv q2"
      "active q2 = active q1 - {job_ID (cl_Job c)}" by blast
  then show ?thesis using ack_unknown [of q2] q1(2) by auto
qed

text \<open>
  Whoever held the job before, the holder's token is worthless once the job is claimed anew:
  every operation with it fails and changes nothing.
\<close>

lemma claim_revokes:
  assumes "inv q" "tokens_left q" "claim now q = (Done (Inr c), q1)" "owns q i t"
    and i: "i = job_ID (cl_Job c)"
  shows "ack i t q1 = (Some ErrJobNotClaimed, q1)"
    and "renew now' i t q1 = (Some ErrJobNotClaimed, q1)"
    and "release i t av q1 = (Some ErrJobNotClaimed, q1)"
proof -
  have q1: "inv q1" "active q1 = active q" "owns q1 i (cl_Token c)"
    using claim_owns [OF assms(1-3)] i by auto
  have "cl_Token c \<noteq> t" using claim_fresh [OF assms(1-3)] assms(4) by metis
  then have "\<not> owns q1 i t" using owns_unique [OF q1(1,3)] by metis
  moreover have "i \<in> active q1" using owns_active [OF q1(1,3)] .
  ultimately show "ack i t q1 = (Some ErrJobNotClaimed, q1)"
    and "renew now' i t q1 = (Some ErrJobNotClaimed, q1)"
    and "release i t av q1 = (Some ErrJobNotClaimed, q1)"
    using q1(1) ack_stranger renew_stranger release_stranger by blast+
qed

text \<open>After a release the old token is stale, but the job stays active: nothing is lost.\<close>

lemma release_then_stale:
  assumes "inv q" "owns q i t"
  shows "\<exists>q1. release i t av q = (None, q1) \<and> i \<in> active q1 \<and>
              ack i t q1 = (Some ErrJobNotClaimed, q1)"
proof -
  from release_owner [OF assms] obtain q1 where
    q1: "release i t av q = (None, q1)" "inv q1" "active q1 = active q" "\<not> owns q1 i t" by blast
  moreover have "i \<in> active q1" using owns_active [OF assms] q1(3) by simp
  ultimately show ?thesis using ack_stranger by blast
qed

text \<open>A job leaves the queue only through an acknowledgement by its owner.\<close>

lemma ack_removes_only_owned:
  assumes "inv q" "ack i t q = (e, q')" "k \<in> active q" "k \<notin> active q'"
  shows "e = None \<and> k = i \<and> owns q i t"
proof (cases "owns q i t")
  case True
  from ack_owner [OF assms(1) True] assms True show ?thesis by auto
next
  case False
  then show ?thesis
    using ack_stranger [OF assms(1) _ False] ack_unknown [OF assms(1)] assms by (cases "i \<in> active q") auto
qed

end

end
