(* ===== verification/Binary_Heap.thy ===== *)
theory Binary_Heap
  imports Prelude "HOL-Library.Multiset"
begin

text \<open>
  The array heap of Go's \<^verbatim>\<open>container/heap\<close>, which the in-memory queue drives through
  \<^verbatim>\<open>entryHeap\<close>: sifting up and down, push and pop on a list, and the locale that proves them
  correct for any order given by a key.
\<close>

definition swap_at :: "nat \<Rightarrow> nat \<Rightarrow> 'a list \<Rightarrow> 'a list" where
  "swap_at i j h = h[i := h ! j, j := h ! i]"

function heap_up :: "('a \<Rightarrow> 'a \<Rightarrow> bool) \<Rightarrow> 'a list \<Rightarrow> nat \<Rightarrow> 'a list" where
  "heap_up lt h j =
     (let i = (j - 1) div 2
      in if i = j \<or> \<not> lt (h ! j) (h ! i) then h else heap_up lt (swap_at i j h) i)"
  by pat_completeness auto
termination
  by (relation "measure (\<lambda>(lt, h, j). j)") auto

function heap_down :: "('a \<Rightarrow> 'a \<Rightarrow> bool) \<Rightarrow> 'a list \<Rightarrow> nat \<Rightarrow> nat \<Rightarrow> 'a list" where
  "heap_down lt h i n =
     (let j1 = 2 * i + 1
      in if n \<le> j1 then h
         else let j = (if j1 + 1 < n \<and> lt (h ! (j1 + 1)) (h ! j1) then j1 + 1 else j1)
              in if \<not> lt (h ! j) (h ! i) then h else heap_down lt (swap_at i j h) j n)"
  by pat_completeness auto
termination
  by (relation "measure (\<lambda>(lt, h, i, n). n - i)") (auto split: if_splits)

declare heap_up.simps [simp del] heap_down.simps [simp del]

definition heap_push :: "('a \<Rightarrow> 'a \<Rightarrow> bool) \<Rightarrow> 'a list \<Rightarrow> 'a \<Rightarrow> 'a list" where
  "heap_push lt h x = heap_up lt (h @ [x]) (length h)"

text \<open>Popping an empty heap panics in Go; the queue never does it, and here it returns nothing.\<close>

definition heap_pop :: "('a \<Rightarrow> 'a \<Rightarrow> bool) \<Rightarrow> 'a list \<Rightarrow> ('a \<times> 'a list) option" where
  "heap_pop lt h =
     (if h = [] then None
      else let n = length h - 1;
               h' = heap_down lt (swap_at 0 n h) 0 n
           in Some (h' ! n, take n h'))"

lemma length_swap_at [simp]: "length (swap_at i j h) = length h"
  by (simp add: swap_at_def)

lemma mset_swap_at [simp]: "i < length h \<Longrightarrow> j < length h \<Longrightarrow> mset (swap_at i j h) = mset h"
  by (simp add: swap_at_def mset_swap)

lemma nth_swap_at:
  "i < length h \<Longrightarrow> j < length h \<Longrightarrow>
     swap_at i j h ! k = (if k = j then h ! i else if k = i then h ! j else h ! k)"
  by (simp add: swap_at_def nth_list_update)

lemma length_heap_up [simp]: "length (heap_up lt h j) = length h"
  by (induction lt h j rule: heap_up.induct) (subst heap_up.simps, auto simp: Let_def)

lemma length_heap_down [simp]: "length (heap_down lt h i n) = length h"
  by (induction lt h i n rule: heap_down.induct) (subst heap_down.simps, auto simp: Let_def)

lemma mset_heap_up: "j < length h \<Longrightarrow> mset (heap_up lt h j) = mset h"
proof (induction lt h j rule: heap_up.induct)
  case (1 lt h j)
  then show ?case
    by (subst heap_up.simps) (auto simp: Let_def less_imp_diff_less)
qed

lemma mset_heap_down: "i < n \<Longrightarrow> n \<le> length h \<Longrightarrow> mset (heap_down lt h i n) = mset h"
proof (induction lt h i n rule: heap_down.induct)
  case (1 lt h i n)
  then show ?case by (subst heap_down.simps) (auto simp: Let_def)
qed

text \<open>Sifting down within the first \<open>n\<close> slots leaves the others alone.\<close>

lemma nth_heap_down_ge:
  "i < n \<Longrightarrow> n \<le> length h \<Longrightarrow> n \<le> k \<Longrightarrow> heap_down lt h i n ! k = h ! k"
proof (induction lt h i n rule: heap_down.induct)
  case (1 lt h i n)
  then show ?case by (subst heap_down.simps) (auto simp: Let_def nth_swap_at)
qed

section \<open>Correctness for an order given by a key\<close>

definition parent :: "nat \<Rightarrow> nat" where
  "parent k = (k - 1) div 2"

lemma parent_less: "0 < k \<Longrightarrow> parent k < k"
  by (simp add: parent_def)

lemma parent_0 [simp]: "parent 0 = 0"
  by (simp add: parent_def)

lemma parent_fixed [simp]: "parent k = k \<longleftrightarrow> k = 0"
  using parent_less [of k] by (cases k) auto

lemma parent_child: "0 < k \<and> parent k = i \<longleftrightarrow> k = 2 * i + 1 \<or> k = 2 * i + 2"
  by (auto simp: parent_def)

lemmas heap_up_parent = heap_up.simps [folded parent_def]

text \<open>The heap property of the first \<open>n\<close> slots: no slot is smaller than its parent.\<close>

definition heap_on :: "('a \<Rightarrow> 'k::linorder) \<Rightarrow> nat \<Rightarrow> 'a list \<Rightarrow> bool" where
  "heap_on key n h \<longleftrightarrow> (\<forall>k. 0 < k \<and> k < n \<longrightarrow> key (h ! parent k) \<le> key (h ! k))"

lemma heap_on_cong:
  assumes "\<And>x. x \<in> set h \<Longrightarrow> key x = key' x" and "n \<le> length h" and "heap_on key n h"
  shows "heap_on key' n h"
  unfolding heap_on_def
proof (intro allI impI)
  fix k assume k: "0 < k \<and> k < n"
  then have "parent k < n" using parent_less [of k] by simp
  with k assms(2) have "h ! k \<in> set h" "h ! parent k \<in> set h" by auto
  then show "key' (h ! parent k) \<le> key' (h ! k)"
    using assms(1,3) k by (auto simp: heap_on_def)
qed

locale heap_key =
  fixes lt :: "'a \<Rightarrow> 'a \<Rightarrow> bool" and key :: "'a \<Rightarrow> 'k::linorder"
  assumes lt_key: "lt a b \<longleftrightarrow> key a < key b"
begin

definition up_inv :: "nat \<Rightarrow> 'a list \<Rightarrow> bool" where
  "up_inv j h \<longleftrightarrow>
     (\<forall>k. 0 < k \<and> k < length h \<and> k \<noteq> j \<longrightarrow> key (h ! parent k) \<le> key (h ! k)) \<and>
     (\<forall>k. 0 < k \<and> k < length h \<and> parent k = j \<and> 0 < j \<longrightarrow> key (h ! parent j) \<le> key (h ! k))"

definition down_inv :: "nat \<Rightarrow> nat \<Rightarrow> 'a list \<Rightarrow> bool" where
  "down_inv i n h \<longleftrightarrow>
     (\<forall>k. 0 < k \<and> k < n \<and> parent k \<noteq> i \<longrightarrow> key (h ! parent k) \<le> key (h ! k)) \<and>
     (\<forall>k. 0 < k \<and> k < n \<and> parent k = i \<and> 0 < i \<longrightarrow> key (h ! parent i) \<le> key (h ! k))"

lemma up_inv_step:
  assumes inv: "up_inv j h" and j: "j < length h" and small: "key (h ! j) < key (h ! parent j)"
  shows "up_inv (parent j) (swap_at (parent j) j h)"
proof -
  let ?i = "parent j"
  have j0: "0 < j" using small by (cases j) auto
  have i: "?i < j" using j0 by (rule parent_less)
  have ij: "?i \<noteq> j" using i by simp
  have nth: "swap_at ?i j h ! k = (if k = j then h ! ?i else if k = ?i then h ! j else h ! k)" for k
    using i j by (simp add: nth_swap_at)
  have A: "key (h ! parent k) \<le> key (h ! k)" if "0 < k" "k < length h" "k \<noteq> j" for k
    using inv that by (auto simp: up_inv_def)
  have B: "key (h ! ?i) \<le> key (h ! k)" if "0 < k" "k < length h" "parent k = j" for k
    using inv that j0 by (auto simp: up_inv_def)
  have "key (swap_at ?i j h ! parent k) \<le> key (swap_at ?i j h ! k)"
    if k: "0 < k" "k < length h" "k \<noteq> ?i" for k
  proof -
    consider "k = j" | "k \<noteq> j" "parent k = j" | "k \<noteq> j" "parent k = ?i" "parent k \<noteq> j"
      | "k \<noteq> j" "parent k \<noteq> ?i" "parent k \<noteq> j" by blast
    then show ?thesis
    proof cases
      case 1
      then show ?thesis using small ij by (simp add: nth)
    next
      case 2
      then show ?thesis using B k by (simp add: nth)
    next
      case 3
      then have "key (h ! ?i) \<le> key (h ! k)" using A [of k] k by simp
      then show ?thesis using small 3 k by (simp add: nth)
    next
      case 4
      then show ?thesis using A [of k] k by (simp add: nth)
    qed
  qed
  moreover have "key (swap_at ?i j h ! parent ?i) \<le> key (swap_at ?i j h ! k)"
    if k: "0 < k" "k < length h" "parent k = ?i" and i0: "0 < ?i" for k
  proof -
    have pi: "parent ?i \<noteq> ?i" "parent ?i \<noteq> j" using i0 i parent_less [of ?i] by auto
    have top: "key (h ! parent ?i) \<le> key (h ! ?i)" using A [of ?i] i0 i j by simp
    have kk: "k \<noteq> ?i" using k(3) i0 by auto
    show ?thesis
    proof (cases "k = j")
      case True
      then show ?thesis using top pi by (simp add: nth)
    next
      case False
      then have "key (h ! ?i) \<le> key (h ! k)" using A [of k] k by simp
      then show ?thesis using top pi False kk by (simp add: nth)
    qed
  qed
  ultimately show ?thesis by (simp add: up_inv_def)
qed

lemma heap_up_heap: "up_inv j h \<Longrightarrow> j < length h \<Longrightarrow> heap_on key (length h) (heap_up lt h j)"
proof (induction j arbitrary: h rule: less_induct)
  case (less j)
  show ?case
  proof (cases "parent j = j \<or> \<not> lt (h ! j) (h ! parent j)")
    case True
    then have "j = 0 \<or> key (h ! parent j) \<le> key (h ! j)" by (auto simp: lt_key)
    then have "heap_on key (length h) h" using less.prems(1) by (auto simp: up_inv_def heap_on_def)
    then show ?thesis using True by (subst heap_up_parent) (auto simp: Let_def)
  next
    case False
    then have "up_inv (parent j) (swap_at (parent j) j h)"
      using up_inv_step less.prems by (auto simp: lt_key)
    then have "heap_on key (length h) (heap_up lt (swap_at (parent j) j h) (parent j))"
      using less.IH [of "parent j" "swap_at (parent j) j h"] parent_less [of j] False less.prems by auto
    then show ?thesis using False by (subst heap_up_parent) (auto simp: Let_def)
  qed
qed

lemma heap_push_heap:
  assumes "heap_on key (length h) h"
  shows "heap_on key (Suc (length h)) (heap_push lt h x)"
proof -
  have "up_inv (length h) (h @ [x])"
    unfolding up_inv_def
  proof (intro conjI allI impI)
    fix k assume k: "0 < k \<and> k < length (h @ [x]) \<and> k \<noteq> length h"
    then have "parent k < length h" using parent_less [of k] by auto
    with k show "key ((h @ [x]) ! parent k) \<le> key ((h @ [x]) ! k)"
      using assms by (auto simp: heap_on_def nth_append)
  next
    fix k assume "0 < k \<and> k < length (h @ [x]) \<and> parent k = length h \<and> 0 < length h"
    then show "key ((h @ [x]) ! parent (length h)) \<le> key ((h @ [x]) ! k)"
      using parent_less [of k] by simp
  qed
  then show ?thesis using heap_up_heap by (fastforce simp: heap_push_def)
qed

lemma down_inv_step:
  assumes inv: "down_inv i n h" and j: "0 < j" "j < n" "parent j = i" and n: "n \<le> length h"
    and small: "key (h ! j) < key (h ! i)"
    and least: "\<And>k. 0 < k \<Longrightarrow> k < n \<Longrightarrow> parent k = i \<Longrightarrow> key (h ! j) \<le> key (h ! k)"
  shows "down_inv j n (swap_at i j h)"
proof -
  have ij: "i < j" using j parent_less [of j] by auto
  have nth: "swap_at i j h ! k = (if k = j then h ! i else if k = i then h ! j else h ! k)" for k
    using ij j n by (simp add: nth_swap_at)
  have A: "key (h ! parent k) \<le> key (h ! k)" if "0 < k" "k < n" "parent k \<noteq> i" for k
    using inv that by (auto simp: down_inv_def)
  have B: "key (h ! parent i) \<le> key (h ! k)" if "0 < k" "k < n" "parent k = i" "0 < i" for k
    using inv that by (auto simp: down_inv_def)
  have "key (swap_at i j h ! parent k) \<le> key (swap_at i j h ! k)"
    if k: "0 < k" "k < n" "parent k \<noteq> j" for k
  proof -
    consider "k = j" | "k = i" | "k \<noteq> j" "k \<noteq> i" "parent k = i"
      | "k \<noteq> j" "k \<noteq> i" "parent k \<noteq> i" by blast
    then show ?thesis
    proof cases
      case 1
      then show ?thesis using small j ij by (simp add: nth)
    next
      case 2
      then have "parent i \<noteq> i" "parent i \<noteq> j" using k(1) ij parent_less [of i] by auto
      then show ?thesis using B [of j] j k 2 ij by (simp add: nth)
    next
      case 3
      then show ?thesis using least [of k] k by (simp add: nth)
    next
      case 4
      then show ?thesis using A [of k] k by (simp add: nth)
    qed
  qed
  moreover have "key (swap_at i j h ! parent j) \<le> key (swap_at i j h ! k)"
    if k: "0 < k" "k < n" "parent k = j" for k
  proof -
    have "k \<noteq> j" "k \<noteq> i" using k ij parent_less [of k] by auto
    moreover have "key (h ! j) \<le> key (h ! k)" using A [of k] k ij by auto
    ultimately show ?thesis using j(3) ij by (simp add: nth)
  qed
  ultimately show ?thesis by (simp add: down_inv_def)
qed

lemma heap_down_heap: "down_inv i n h \<Longrightarrow> i < n \<Longrightarrow> n \<le> length h \<Longrightarrow> heap_on key n (heap_down lt h i n)"
proof (induction "n - i" arbitrary: h i rule: less_induct)
  case less
  let ?j = "if 2 * i + 1 + 1 < n \<and> lt (h ! (2 * i + 1 + 1)) (h ! (2 * i + 1)) then 2 * i + 1 + 1
            else 2 * i + 1"
  have kids: "0 < k \<Longrightarrow> parent k = i \<Longrightarrow> k = 2 * i + 1 \<or> k = 2 * i + 2" for k
    using parent_child by blast
  show ?case
  proof (cases "n \<le> 2 * i + 1 \<or> \<not> lt (h ! ?j) (h ! i)")
    case True
    have "key (h ! i) \<le> key (h ! k)" if "0 < k" "k < n" "parent k = i" for k
      using True kids [of k] that by (auto simp: lt_key split: if_splits)
    then have "heap_on key n h" using less.prems(1) by (auto simp: down_inv_def heap_on_def)
    then show ?thesis using True by (subst heap_down.simps) (auto simp: Let_def)
  next
    case False
    have j: "0 < ?j" "?j < n" "parent ?j = i" "i < ?j" using False by (auto simp: parent_def)
    have least: "key (h ! ?j) \<le> key (h ! k)" if "0 < k" "k < n" "parent k = i" for k
      using kids [of k] that by (auto simp: lt_key split: if_splits)
    have "down_inv ?j n (swap_at i ?j h)"
      by (rule down_inv_step [OF less.prems(1) j(1,2,3) less.prems(3) _ least])
         (use False in \<open>auto simp: lt_key split: if_splits\<close>)
    then have "heap_on key n (heap_down lt (swap_at i ?j h) ?j n)"
      using less.hyps [of ?j "swap_at i ?j h"] j less.prems by simp
    then show ?thesis using False by (subst heap_down.simps) (auto simp: Let_def)
  qed
qed

lemma heap_on_root: "heap_on key n h \<Longrightarrow> k < n \<Longrightarrow> key (h ! 0) \<le> key (h ! k)"
proof (induction k rule: less_induct)
  case (less k)
  show ?case
  proof (cases "k = 0")
    case False
    then have "key (h ! 0) \<le> key (h ! parent k)" using less parent_less [of k] by auto
    also have "\<dots> \<le> key (h ! k)" using less.prems False by (auto simp: heap_on_def)
    finally show ?thesis .
  qed simp
qed

lemma heap_down_root:
  assumes "length h = Suc n" and "heap_on key (length h) h"
  shows "heap_down lt (swap_at 0 n h) 0 n ! n = h ! 0 \<and>
         heap_on key n (heap_down lt (swap_at 0 n h) 0 n) \<and>
         mset (heap_down lt (swap_at 0 n h) 0 n) = mset h"
proof (cases "n = 0")
  case True
  then show ?thesis using assms(1)
    by (subst (1 2 3) heap_down.simps) (auto simp: heap_on_def swap_at_def)
next
  case False
  let ?g = "swap_at 0 n h"
  have nth: "?g ! k = (if k = n then h ! 0 else if k = 0 then h ! n else h ! k)" for k
    by (rule nth_swap_at) (use assms(1) in auto)
  have "down_inv 0 n ?g"
    unfolding down_inv_def
  proof (intro conjI allI impI)
    fix k assume k: "0 < k \<and> k < n \<and> parent k \<noteq> 0"
    then have "parent k < n" using parent_less [of k] by simp
    with k show "key (?g ! parent k) \<le> key (?g ! k)"
      using assms by (auto simp: heap_on_def nth)
  qed simp
  then show ?thesis
    using heap_down_heap [of 0 n ?g] nth_heap_down_ge [of 0 n ?g n lt] mset_heap_down [of 0 n ?g lt]
      False assms(1) by (simp add: nth)
qed

lemma heap_pop_root:
  assumes "h \<noteq> []" and "heap_on key (length h) h"
  shows "\<exists>h'. heap_pop lt h = Some (h ! 0, h') \<and> mset h = add_mset (h ! 0) (mset h') \<and>
           heap_on key (length h') h' \<and> (\<forall>x\<in>set h. key (h ! 0) \<le> key x)"
proof -
  obtain n where n: "length h = Suc n" using assms(1) by (cases h) auto
  let ?d = "heap_down lt (swap_at 0 n h) 0 n"
  have d: "?d ! n = h ! 0" "heap_on key n ?d" "mset ?d = mset h" "length ?d = Suc n"
    using heap_down_root [OF n assms(2)] n by auto
  have "?d = take n ?d @ [?d ! n]"
    using take_Suc_conv_app_nth [of n ?d] d(4) by simp
  then have "mset ?d = add_mset (?d ! n) (mset (take n ?d))"
    by (metis mset_append mset.simps union_mset_add_mset_right add_0_right)
  moreover have "heap_on key (length (take n ?d)) (take n ?d)"
    unfolding heap_on_def
  proof (intro allI impI)
    fix k assume k: "0 < k \<and> k < length (take n ?d)"
    then have "parent k < n" using parent_less [of k] d(4) by simp
    with k show "key (take n ?d ! parent k) \<le> key (take n ?d ! k)"
      using d(2,4) by (auto simp: heap_on_def)
  qed
  moreover have "\<forall>x\<in>set h. key (h ! 0) \<le> key x"
    using heap_on_root [OF assms(2)] by (auto simp: in_set_conv_nth)
  ultimately show ?thesis using d n assms(1) by (auto simp: heap_pop_def Let_def)
qed

lemma mset_heap_push: "mset (heap_push lt h x) = add_mset x (mset h)"
  by (simp add: heap_push_def mset_heap_up)

end

end
