(* ===== verification/Memory_Queue.thy ===== *)
theory Memory_Queue
  imports Queue_Contract Binary_Heap
begin

text \<open>
  The in-memory queue of \<^verbatim>\<open>internal/queue/memory.go\<close>. Every operation takes the mutex, so each
  is one atomic step on the record \<open>memq\<close>; a blocking operation is modelled by one pass of its
  loop. The heap \<^verbatim>\<open>avail\<close> holds pointers to entries; an entry is named here by its job ID, and
  the invariant shows that the name is unambiguous: the map has one entry per ID, and an entry
  can only be deleted after it left the heap.
\<close>

section \<open>State and operations\<close>

record entry =
  en_job :: job
  en_seq :: "64 word"
  en_claimed :: bool
  en_token :: token

record memq =
  mq_capacity :: int
  mq_closed :: bool
  mq_entries :: "string \<Rightarrow> entry option"
  mq_avail :: "string list"
  mq_seq :: "64 word"
  mq_nextToken :: token

text \<open>\<^verbatim>\<open>entryHeap.Less\<close>: by availability, then by sequence number.\<close>

definition entry_less :: "entry \<Rightarrow> entry \<Rightarrow> bool" where
  "entry_less a b =
     (if job_AvailableAt (en_job a) \<noteq> job_AvailableAt (en_job b)
      then job_AvailableAt (en_job a) < job_AvailableAt (en_job b)
      else en_seq a < en_seq b)"

definition mq_less :: "(string \<Rightarrow> entry option) \<Rightarrow> string \<Rightarrow> string \<Rightarrow> bool" where
  "mq_less es i j = entry_less (the (es i)) (the (es j))"

definition NewMemoryQueue :: "int \<Rightarrow> queue_error + memq" where
  "NewMemoryQueue cap =
     (if cap \<le> 0 then Inl ErrInvalidCapacity
      else Inr \<lparr>mq_capacity = cap, mq_closed = False, mq_entries = Map.empty, mq_avail = [],
                mq_seq = 0, mq_nextToken = 0\<rparr>)"

definition mq_Len :: "memq \<Rightarrow> int" where
  "mq_Len q = int (card (dom (mq_entries q)))"

definition mq_Enqueue :: "gotime \<Rightarrow> job \<Rightarrow> memq \<Rightarrow> unit pass \<times> memq" where
  "mq_Enqueue now j q =
     (case job_validate j of
        Some e \<Rightarrow> (Done (Inl e), q)
      | None \<Rightarrow>
          if mq_closed q then (Done (Inl ErrQueueClosed), q)
          else if job_ID j \<in> dom (mq_entries q) then (Done (Inr ()), q)
          else if mq_Len q < mq_capacity q then
            let s = mq_seq q + 1;
                e = \<lparr>en_job = normalize_times now j, en_seq = s, en_claimed = False, en_token = 0\<rparr>;
                es = (mq_entries q)(job_ID j \<mapsto> e)
            in (Done (Inr ()),
                q\<lparr>mq_seq := s, mq_entries := es,
                  mq_avail := heap_push (mq_less es) (mq_avail q) (job_ID j)\<rparr>)
          else (Block, q))"

definition mq_Claim :: "gotime \<Rightarrow> memq \<Rightarrow> claim pass \<times> memq" where
  "mq_Claim now q =
     (if mq_closed q then (Done (Inl ErrQueueClosed), q)
      else case heap_pop (mq_less (mq_entries q)) (mq_avail q) of
        None \<Rightarrow> (Block, q)
      | Some (_, rest) \<Rightarrow>
          let i = mq_avail q ! 0;
              top = the (mq_entries q i)
          in if \<not> job_AvailableAt (en_job top) > now then
               let tok = mq_nextToken q + 1;
                   top' = top\<lparr>en_claimed := True, en_token := tok\<rparr>
               in (Done (Inr \<lparr>cl_Job = en_job top, cl_Token = tok\<rparr>),
                   q\<lparr>mq_avail := rest, mq_nextToken := tok,
                     mq_entries := (mq_entries q)(i \<mapsto> top')\<rparr>)
             else (Block, q))"

text \<open>\<open>ctx_done\<close>: the caller's context already carries an error.\<close>

definition mq_Ack :: "bool \<Rightarrow> string \<Rightarrow> token \<Rightarrow> memq \<Rightarrow> queue_error option \<times> memq" where
  "mq_Ack ctx_done i t q =
     (if ctx_done then (Some ErrContext, q)
      else case mq_entries q i of
        None \<Rightarrow> (Some ErrUnknownJob, q)
      | Some e \<Rightarrow>
          if \<not> en_claimed e \<or> en_token e \<noteq> t then (Some ErrJobNotClaimed, q)
          else (None, q\<lparr>mq_entries := (mq_entries q)(i := None)\<rparr>))"

definition mq_Renew :: "bool \<Rightarrow> string \<Rightarrow> token \<Rightarrow> memq \<Rightarrow> queue_error option \<times> memq" where
  "mq_Renew ctx_done i t q =
     (if ctx_done then (Some ErrContext, q)
      else case mq_entries q i of
        None \<Rightarrow> (Some ErrUnknownJob, q)
      | Some e \<Rightarrow>
          if \<not> en_claimed e \<or> en_token e \<noteq> t then (Some ErrJobNotClaimed, q) else (None, q))"

definition mq_Release ::
  "bool \<Rightarrow> string \<Rightarrow> token \<Rightarrow> gotime \<Rightarrow> memq \<Rightarrow> queue_error option \<times> memq" where
  "mq_Release ctx_done i t availableAt q =
     (if ctx_done then (Some ErrContext, q)
      else case mq_entries q i of
        None \<Rightarrow> (Some ErrUnknownJob, q)
      | Some e \<Rightarrow>
          if \<not> en_claimed e \<or> en_token e \<noteq> t then (Some ErrJobNotClaimed, q)
          else
            let s = mq_seq q + 1;
                e' = e\<lparr>en_claimed := False, en_job := (en_job e)\<lparr>job_AvailableAt := availableAt\<rparr>,
                       en_seq := s\<rparr>;
                es = (mq_entries q)(i \<mapsto> e')
            in (None, q\<lparr>mq_seq := s, mq_entries := es,
                        mq_avail := heap_push (mq_less es) (mq_avail q) i\<rparr>))"

definition mq_Close :: "memq \<Rightarrow> memq" where
  "mq_Close q = (if mq_closed q then q else q\<lparr>mq_closed := True\<rparr>)"

section \<open>The representation invariant\<close>

definition entry_key :: "entry \<Rightarrow> gotime \<times> 64 word" where
  "entry_key e = (job_AvailableAt (en_job e), en_seq e)"

definition mq_key :: "(string \<Rightarrow> entry option) \<Rightarrow> string \<Rightarrow> gotime \<times> 64 word" where
  "mq_key es i = entry_key (the (es i))"

lemma entry_less_key: "entry_less a b \<longleftrightarrow> entry_key a < entry_key b"
  by (auto simp: entry_less_def entry_key_def)

interpretation mq_heap: heap_key "mq_less es" "mq_key es" for es
  by unfold_locales (simp add: mq_less_def mq_key_def entry_less_key)

text \<open>Capacity and naming; which entries are on the heap; the heap order; the tokens in use.\<close>

definition mq_shape :: "memq \<Rightarrow> bool" where
  "mq_shape q \<longleftrightarrow>
     0 < mq_capacity q \<and> finite (dom (mq_entries q)) \<and> mq_Len q \<le> mq_capacity q \<and>
     (\<forall>i e. mq_entries q i = Some e \<longrightarrow> job_ID (en_job e) = i)"

definition mq_listed :: "memq \<Rightarrow> bool" where
  "mq_listed q \<longleftrightarrow>
     distinct (mq_avail q) \<and>
     (\<forall>i. i \<in> set (mq_avail q) \<longleftrightarrow> (\<exists>e. mq_entries q i = Some e \<and> \<not> en_claimed e))"

definition mq_ordered :: "memq \<Rightarrow> bool" where
  "mq_ordered q \<longleftrightarrow> heap_on (mq_key (mq_entries q)) (length (mq_avail q)) (mq_avail q)"

definition mq_tokens :: "memq \<Rightarrow> bool" where
  "mq_tokens q \<longleftrightarrow>
     (\<forall>i e. mq_entries q i = Some e \<and> en_claimed e \<longrightarrow> en_token e \<le> mq_nextToken q) \<and>
     (\<forall>i j e f. mq_entries q i = Some e \<and> mq_entries q j = Some f \<and> en_claimed e \<and>
        en_claimed f \<and> en_token e = en_token f \<longrightarrow> i = j)"

definition mq_inv :: "memq \<Rightarrow> bool" where
  "mq_inv q \<longleftrightarrow> mq_shape q \<and> mq_listed q \<and> mq_ordered q \<and> mq_tokens q"

definition mq_tokens_left :: "memq \<Rightarrow> bool" where
  "mq_tokens_left q \<longleftrightarrow> mq_nextToken q \<noteq> - 1"

lemma mq_new_inv: "NewMemoryQueue cap = Inr q \<Longrightarrow> mq_inv q"
  by (auto simp: NewMemoryQueue_def mq_inv_def mq_shape_def mq_listed_def mq_ordered_def mq_tokens_def
      mq_Len_def heap_on_def split: if_splits)

lemma mq_key_upd [simp]: "i \<noteq> k \<Longrightarrow> mq_key (es(k := e)) i = mq_key es i"
  by (simp add: mq_key_def)

lemma set_heap_push: "set (heap_push lt h x) = insert x (set h)"
  by (metis heap_push_def length_append_singleton lessI list.set_map mset_heap_up set_append
      set_mset_mset list.simps(15) empty_set Un_insert_right sup_bot_right)

lemma distinct_heap_push: "distinct h \<Longrightarrow> x \<notin> set h \<Longrightarrow> distinct (heap_push lt h x)"
proof -
  assume "distinct h" "x \<notin> set h"
  then have "distinct (h @ [x])" by simp
  moreover have "mset (heap_push lt h x) = mset (h @ [x])"
    by (simp add: heap_push_def mset_heap_up)
  ultimately show ?thesis using mset_eq_imp_distinct_iff by blast
qed

lemma length_heap_push [simp]: "length (heap_push lt h x) = Suc (length h)"
  by (simp add: heap_push_def)

lemma ordered_upd:
  "heap_on (mq_key es) (length h) h \<Longrightarrow> i \<notin> set h \<Longrightarrow> heap_on (mq_key (es(i := x))) (length h) h"
  by (rule heap_on_cong [where key = "mq_key es"]) (auto simp: mq_key_def)

text \<open>Pushing a job whose entry was just (re)written keeps the heap ordered.\<close>

lemma push_ordered:
  assumes "heap_on (mq_key es) (length h) h" and "i \<notin> set h"
  shows "heap_on (mq_key (es(i \<mapsto> e))) (Suc (length h)) (heap_push (mq_less (es(i \<mapsto> e))) h i)"
  by (rule mq_heap.heap_push_heap, rule ordered_upd [OF assms])

lemma mq_inv_Enqueue:
  assumes inv: "mq_inv q" and run: "mq_Enqueue now j q = (r, q')"
  shows "mq_inv q'"
proof (cases "q' = q")
  case False
  let ?i = "job_ID j"
  let ?e = "\<lparr>en_job = normalize_times now j, en_seq = mq_seq q + 1, en_claimed = False, en_token = 0\<rparr>"
  let ?es = "(mq_entries q)(?i \<mapsto> ?e)"
  have new: "?i \<notin> dom (mq_entries q)" "mq_Len q < mq_capacity q"
    and q': "q' = q\<lparr>mq_seq := mq_seq q + 1, mq_entries := ?es,
                 mq_avail := heap_push (mq_less ?es) (mq_avail q) ?i\<rparr>"
    using run False by (auto simp: mq_Enqueue_def Let_def split: option.splits if_splits)
  have fresh: "?i \<notin> set (mq_avail q)" using inv new(1) by (auto simp: mq_inv_def mq_listed_def)
  have "mq_shape q'"
    using inv new by (auto simp: q' mq_inv_def mq_shape_def mq_Len_def)
  moreover have "mq_listed q'"
    using inv fresh new(1)
    by (auto simp: q' mq_inv_def mq_listed_def set_heap_push distinct_heap_push)
  moreover have "mq_ordered q'"
    using inv push_ordered [OF _ fresh] by (simp add: q' mq_inv_def mq_ordered_def)
  moreover have "mq_tokens q'"
    using inv unfolding q' mq_inv_def mq_tokens_def by (simp, blast)
  ultimately show ?thesis by (simp add: mq_inv_def)
qed (use inv in simp)

text \<open>What a successful claim does: the root of the heap, due, marked with the next token.\<close>

lemma mq_Claim_elim:
  assumes inv: "mq_inv q" and run: "mq_Claim now q = (Done (Inr c), q')"
  obtains i e rest where
    "mq_entries q i = Some e" "\<not> en_claimed e" "i \<in> set (mq_avail q)" "\<not> mq_closed q"
    "job_AvailableAt (en_job e) \<le> now"
    "\<And>k. k \<in> set (mq_avail q) \<Longrightarrow> mq_key (mq_entries q) i \<le> mq_key (mq_entries q) k"
    "c = \<lparr>cl_Job = en_job e, cl_Token = mq_nextToken q + 1\<rparr>"
    "mset (mq_avail q) = add_mset i (mset rest)"
    "heap_on (mq_key (mq_entries q)) (length rest) rest"
    "q' = q\<lparr>mq_avail := rest, mq_nextToken := mq_nextToken q + 1,
       mq_entries := (mq_entries q)(i \<mapsto> e\<lparr>en_claimed := True, en_token := mq_nextToken q + 1\<rparr>)\<rparr>"
proof -
  let ?i = "mq_avail q ! 0"
  have ne: "mq_avail q \<noteq> []"
    using run by (auto simp: mq_Claim_def heap_pop_def Let_def split: if_splits)
  then have mem: "?i \<in> set (mq_avail q)" by simp
  then obtain e where e: "mq_entries q ?i = Some e" "\<not> en_claimed e"
    using inv by (auto simp: mq_inv_def mq_listed_def)
  have "heap_on (mq_key (mq_entries q)) (length (mq_avail q)) (mq_avail q)"
    using inv by (simp add: mq_inv_def mq_ordered_def)
  from mq_heap.heap_pop_root [OF ne this] obtain rest where
    rest: "heap_pop (mq_less (mq_entries q)) (mq_avail q) = Some (?i, rest)"
      "mset (mq_avail q) = add_mset ?i (mset rest)"
      "heap_on (mq_key (mq_entries q)) (length rest) rest"
      "\<forall>x\<in>set (mq_avail q). mq_key (mq_entries q) ?i \<le> mq_key (mq_entries q) x" by blast
  show ?thesis
    by (rule that [of ?i e rest])
      (use run e rest mem in \<open>auto simp: mq_Claim_def Let_def split: if_splits\<close>)
qed

lemma mq_Claim_effect:
  assumes "mq_Claim now q = (r, q')" and "\<nexists>c. r = Done (Inr c)"
  shows "q' = q"
  using assms by (auto simp: mq_Claim_def Let_def split: if_splits option.splits prod.splits)

lemma mq_inv_Claim:
  assumes inv: "mq_inv q" and left: "mq_tokens_left q" and run: "mq_Claim now q = (r, q')"
  shows "mq_inv q'"
proof (cases "\<exists>c. r = Done (Inr c)")
  case True
  then obtain c where c: "r = Done (Inr c)" by blast
  from mq_Claim_elim [OF inv run [unfolded c]] obtain i e rest where
    e: "mq_entries q i = Some e" "\<not> en_claimed e" and
    ms: "mset (mq_avail q) = add_mset i (mset rest)" and
    hp: "heap_on (mq_key (mq_entries q)) (length rest) rest" and
    q': "q' = q\<lparr>mq_avail := rest, mq_nextToken := mq_nextToken q + 1,
       mq_entries := (mq_entries q)(i \<mapsto> e\<lparr>en_claimed := True, en_token := mq_nextToken q + 1\<rparr>)\<rparr>"
    by metis
  have sets: "set (mq_avail q) = insert i (set rest)" using ms by (metis set_mset_add_mset_insert set_mset_mset)
  have "distinct (i # rest)"
    using ms inv mset_eq_imp_distinct_iff [of "mq_avail q" "i # rest"]
    by (simp add: mq_inv_def mq_listed_def)
  then have rest: "i \<notin> set rest" "distinct rest" by auto
  have tok: "mq_nextToken q < mq_nextToken q + 1"
    using left by (simp add: mq_tokens_left_def word_less_succ)
  have "mq_shape q'"
    using inv e by (auto simp: q' mq_inv_def mq_shape_def mq_Len_def insert_absorb domI)
  moreover have "mq_listed q'"
    using inv e rest sets by (auto simp: q' mq_inv_def mq_listed_def)
  moreover have "mq_ordered q'"
    using ordered_upd [OF hp rest(1)] by (simp add: q' mq_ordered_def)
  moreover have "mq_tokens q'"
    using inv tok by (fastforce simp: q' mq_inv_def mq_tokens_def)
  ultimately show ?thesis by (simp add: mq_inv_def)
next
  case False
  then show ?thesis using mq_Claim_effect [OF run] inv by blast
qed

lemma mq_Ack_elim:
  assumes "mq_Ack False i t q = (None, q')"
  obtains e where "mq_entries q i = Some e" "en_claimed e" "en_token e = t"
    "q' = q\<lparr>mq_entries := (mq_entries q)(i := None)\<rparr>"
  using assms by (auto simp: mq_Ack_def split: option.splits if_splits)

lemma mq_inv_Ack:
  assumes inv: "mq_inv q" and run: "mq_Ack b i t q = (r, q')"
  shows "mq_inv q'"
proof (cases "r = None")
  case True
  then obtain e where e: "mq_entries q i = Some e" "en_claimed e"
    and q': "q' = q\<lparr>mq_entries := (mq_entries q)(i := None)\<rparr>"
    using run mq_Ack_elim by (cases b) (auto simp: mq_Ack_def split: option.splits if_splits)
  have out: "i \<notin> set (mq_avail q)" using inv e by (auto simp: mq_inv_def mq_listed_def)
  have "card (dom (mq_entries q) - {i}) \<le> card (dom (mq_entries q))"
    using inv by (intro card_mono) (auto simp: mq_inv_def mq_shape_def)
  then have "mq_shape q'"
    using inv by (auto simp: q' mq_inv_def mq_shape_def mq_Len_def)
  moreover have "mq_listed q'"
    using inv out by (auto simp: q' mq_inv_def mq_listed_def)
  moreover have "mq_ordered q'"
    using ordered_upd [OF _ out] inv by (simp add: q' mq_inv_def mq_ordered_def)
  moreover have "mq_tokens q'"
    using inv unfolding q' mq_inv_def mq_tokens_def by (simp, blast)
  ultimately show ?thesis by (simp add: mq_inv_def)
next
  case False
  then have "q' = q" using run by (auto simp: mq_Ack_def split: option.splits if_splits)
  then show ?thesis using inv by simp
qed

lemma mq_inv_Release:
  assumes inv: "mq_inv q" and run: "mq_Release b i t av q = (r, q')"
  shows "mq_inv q'"
proof (cases "r = None")
  case True
  then obtain e where e: "mq_entries q i = Some e" "en_claimed e"
    and q': "q' = q\<lparr>mq_seq := mq_seq q + 1,
      mq_entries := (mq_entries q)(i \<mapsto> e\<lparr>en_claimed := False,
        en_job := (en_job e)\<lparr>job_AvailableAt := av\<rparr>, en_seq := mq_seq q + 1\<rparr>),
      mq_avail := heap_push (mq_less ((mq_entries q)(i \<mapsto> e\<lparr>en_claimed := False,
        en_job := (en_job e)\<lparr>job_AvailableAt := av\<rparr>, en_seq := mq_seq q + 1\<rparr>))) (mq_avail q) i\<rparr>"
    using run by (auto simp: mq_Release_def Let_def split: option.splits if_splits)
  have out: "i \<notin> set (mq_avail q)" using inv e by (auto simp: mq_inv_def mq_listed_def)
  have "mq_shape q'"
    using inv e by (auto simp: q' mq_inv_def mq_shape_def mq_Len_def insert_absorb domI)
  moreover have "mq_listed q'"
    using inv out e by (auto simp: q' mq_inv_def mq_listed_def set_heap_push distinct_heap_push)
  moreover have "mq_ordered q'"
    using inv push_ordered [OF _ out] by (simp add: q' mq_inv_def mq_ordered_def)
  moreover have "mq_tokens q'"
    using inv unfolding q' mq_inv_def mq_tokens_def by (simp, blast)
  ultimately show ?thesis by (simp add: mq_inv_def)
next
  case False
  then have "q' = q" using run by (auto simp: mq_Release_def Let_def split: option.splits if_splits)
  then show ?thesis using inv by simp
qed

lemma mq_Renew_same: "snd (mq_Renew b i t q) = q"
  by (auto simp: mq_Renew_def split: option.splits)

lemma mq_inv_Renew: "mq_inv q \<Longrightarrow> mq_Renew b i t q = (r, q') \<Longrightarrow> mq_inv q'"
  using mq_Renew_same [of b i t q] by simp

lemma mq_inv_Close: "mq_inv q \<Longrightarrow> mq_inv (mq_Close q)"
  unfolding mq_Close_def mq_inv_def mq_shape_def mq_listed_def mq_ordered_def mq_tokens_def mq_Len_def
  by (simp, blast)

section \<open>The ownership contract\<close>

definition mq_owns :: "memq \<Rightarrow> string \<Rightarrow> token \<Rightarrow> bool" where
  "mq_owns q i t \<longleftrightarrow> (\<exists>e. mq_entries q i = Some e \<and> en_claimed e \<and> en_token e = t)"

definition mq_active :: "memq \<Rightarrow> string set" where
  "mq_active q = dom (mq_entries q)"

lemma mq_claim_contract:
  assumes "mq_inv q" "mq_tokens_left q" "mq_Claim now q = (Done (Inr c), q')"
  shows "mq_inv q' \<and> mq_active q' = mq_active q \<and> mq_owns q' (job_ID (cl_Job c)) (cl_Token c)"
proof -
  from mq_Claim_elim [OF assms(1,3)] obtain i e rest where
    e: "mq_entries q i = Some e" "c = \<lparr>cl_Job = en_job e, cl_Token = mq_nextToken q + 1\<rparr>" and
    q': "q' = q\<lparr>mq_avail := rest, mq_nextToken := mq_nextToken q + 1,
       mq_entries := (mq_entries q)(i \<mapsto> e\<lparr>en_claimed := True, en_token := mq_nextToken q + 1\<rparr>)\<rparr>"
    by metis
  have "job_ID (en_job e) = i" using assms(1) e by (auto simp: mq_inv_def mq_shape_def)
  then show ?thesis
    using mq_inv_Claim [OF assms] e by (auto simp: q' mq_active_def mq_owns_def)
qed

lemma mq_claim_token_fresh:
  assumes "mq_inv q" "mq_tokens_left q" "mq_Claim now q = (Done (Inr c), q')"
  shows "\<not> mq_owns q i (cl_Token c)"
proof -
  have "cl_Token c = mq_nextToken q + 1"
    using mq_Claim_elim [OF assms(1,3)] by (metis claim.select_convs(2))
  then have "mq_nextToken q < cl_Token c"
    using assms(2) by (simp add: mq_tokens_left_def word_less_succ)
  then show ?thesis
    using assms(1) by (force simp: mq_owns_def mq_inv_def mq_tokens_def)
qed

interpretation mq: claim_ownership mq_inv mq_tokens_left mq_active mq_owns mq_Claim
  "mq_Ack False" "\<lambda>_. mq_Renew False" "mq_Release False"
proof (unfold_locales, goal_cases)
  case (3 q now c q')
  then show ?case by (rule mq_claim_contract)
next
  case (4 q now c q' i)
  then show ?case by (rule mq_claim_token_fresh)
next
  case (5 q i t)
  then show "\<exists>q'. mq_Ack False i t q = (None, q') \<and> mq_inv q' \<and> mq_active q' = mq_active q - {i} \<and>
      (\<forall>k u. mq_owns q' k u \<longleftrightarrow> mq_owns q k u \<and> k \<noteq> i)"
    using mq_inv_Ack [of q False i t None]
    by (auto simp: mq_owns_def mq_active_def mq_Ack_def)
next
  case (11 q i t av)
  then show "\<exists>q'. mq_Release False i t av q = (None, q') \<and> mq_inv q' \<and> mq_active q' = mq_active q \<and>
      (\<forall>k u. mq_owns q' k u \<longleftrightarrow> mq_owns q k u \<and> k \<noteq> i)"
    using mq_inv_Release [of q False i t av None]
    by (auto simp: mq_owns_def mq_active_def mq_Release_def Let_def insert_absorb)
qed (auto simp: mq_owns_def mq_active_def mq_Ack_def mq_Renew_def mq_Release_def split: option.splits)

section \<open>All interleavings\<close>

text \<open>
  Any number of producers and workers call the operations in any order; the mutex makes each
  call (each pass of a blocking call) one step. The claim rule stops a run before the 64-bit
  token counter would start over, which takes \<open>2^64 - 1\<close> claims.
\<close>

inductive mq_step :: "memq \<Rightarrow> memq \<Rightarrow> bool" where
  enqueue: "mq_Enqueue now j q = (r, q') \<Longrightarrow> mq_step q q'"
| claim: "mq_tokens_left q \<Longrightarrow> mq_Claim now q = (r, q') \<Longrightarrow> mq_step q q'"
| ack: "mq_Ack b i t q = (r, q') \<Longrightarrow> mq_step q q'"
| renew: "mq_Renew b i t q = (r, q') \<Longrightarrow> mq_step q q'"
| release: "mq_Release b i t av q = (r, q') \<Longrightarrow> mq_step q q'"
| close: "mq_step q (mq_Close q)"

inductive_cases mq_stepE: "mq_step q q'"

definition mq_init :: "memq \<Rightarrow> bool" where
  "mq_init q \<longleftrightarrow> (\<exists>cap. NewMemoryQueue cap = Inr q)"

interpretation mq_sys: invariant_system mq_init mq_step mq_inv
proof
  show "mq_init q \<Longrightarrow> mq_inv q" for q by (auto simp: mq_init_def mq_new_inv)
  show "mq_inv q \<Longrightarrow> mq_step q q' \<Longrightarrow> mq_inv q'" for q q'
    by (elim mq_stepE) (auto intro: mq_inv_Enqueue mq_inv_Claim mq_inv_Ack mq_inv_Renew
        mq_inv_Release mq_inv_Close)
qed

text \<open>
  Claim's decision, in terms of the entries: closed, or the least due entry, or wait.
\<close>

lemma mq_Claim_succeeds:
  assumes inv: "mq_inv q" and "\<not> mq_closed q"
    and e: "mq_entries q i = Some e" "\<not> en_claimed e" "job_AvailableAt (en_job e) \<le> now"
  shows "\<exists>c q'. mq_Claim now q = (Done (Inr c), q')"
proof -
  let ?t = "mq_avail q ! 0"
  have i: "i \<in> set (mq_avail q)" using inv e by (auto simp: mq_inv_def mq_listed_def)
  then have ne: "mq_avail q \<noteq> []" by auto
  from mq_heap.heap_pop_root [OF this] inv obtain rest where
    rest: "heap_pop (mq_less (mq_entries q)) (mq_avail q) = Some (?t, rest)"
      and least: "mq_key (mq_entries q) ?t \<le> mq_key (mq_entries q) i"
    using i unfolding mq_inv_def mq_ordered_def by blast
  then have "job_AvailableAt (en_job (the (mq_entries q ?t))) \<le> now"
    using e by (auto simp: mq_key_def entry_key_def)
  then show ?thesis using rest assms(2) by (simp add: mq_Claim_def Let_def)
qed

lemma mq_Claim_due:
  assumes "mq_inv q" "mq_Claim now q = (Done (Inr c), q')"
  shows "\<not> mq_closed q \<and> (\<exists>i e. mq_entries q i = Some e \<and> \<not> en_claimed e \<and> job_AvailableAt (en_job e) \<le> now)"
  using mq_Claim_elim [OF assms] by metis

lemma mq_step_drops:
  assumes "mq_inv q" "mq_step q q'" "i \<in> mq_active q" "i \<notin> mq_active q'"
  shows "\<exists>t. mq_owns q i t \<and> mq_Ack False i t q = (None, q')"
  using assms(2)
proof (cases rule: mq_step.cases)
  case (enqueue now j r)
  then show ?thesis using assms(3,4)
    by (auto simp: mq_Enqueue_def mq_active_def Let_def split: option.splits if_splits)
next
  case (claim now r)
  then show ?thesis using assms mq_Claim_effect [OF claim(2)] mq_claim_contract [OF assms(1) claim(1)]
    by (cases "\<exists>c. r = Done (Inr c)") auto
next
  case (ack b k t r)
  then show ?thesis using assms(1,3,4) mq.ack_removes_only_owned [of q k t r q' i]
    by (cases b) (auto simp: mq_Ack_def)
next
  case (renew b k t r)
  then show ?thesis using assms(3,4) mq_Renew_same [of b k t q] by auto
next
  case (release b k t av r)
  then show ?thesis using assms(3,4)
    by (auto simp: mq_Release_def mq_active_def Let_def split: option.splits if_splits)
next
  case close
  then show ?thesis using assms(3,4) by (auto simp: mq_Close_def mq_active_def split: if_splits)
qed


section \<open>What the queue guarantees\<close>

lemma mq_reachable_inv: "reachable mq_init mq_step q \<Longrightarrow> mq_inv q"
  by (rule mq_sys.inv_reachable)

text \<open>
  (C1) In every state that any interleaving of producers and workers can reach, the queue holds
  at most \<open>capacity\<close> jobs; the heap lists each job that is waiting exactly once and no claimed
  job; its first element is the earliest; and no two claimed jobs share a token.
\<close>

theorem mq_reachable_safe:
  assumes "reachable mq_init mq_step q"
  shows "mq_Len q \<le> mq_capacity q \<and> distinct (mq_avail q) \<and>
    set (mq_avail q) = {i. \<exists>e. mq_entries q i = Some e \<and> \<not> en_claimed e} \<and>
    (\<forall>n < length (mq_avail q). \<not> mq_less (mq_entries q) (mq_avail q ! n) (mq_avail q ! 0)) \<and>
    (\<forall>i j e f. mq_entries q i = Some e \<longrightarrow> mq_entries q j = Some f \<longrightarrow> en_claimed e \<longrightarrow> en_claimed f \<longrightarrow>
       en_token e = en_token f \<longrightarrow> i = j)"
proof -
  have inv: "mq_inv q" using assms by (rule mq_reachable_inv)
  have "\<not> mq_less (mq_entries q) (mq_avail q ! n) (mq_avail q ! 0)" if n: "n < length (mq_avail q)" for n
  proof -
    have "mq_avail q \<noteq> []" using n by auto
    from mq_heap.heap_pop_root [OF this] inv
    have "mq_key (mq_entries q) (mq_avail q ! 0) \<le> mq_key (mq_entries q) (mq_avail q ! n)"
      using n nth_mem unfolding mq_inv_def mq_ordered_def by blast
    then show ?thesis by (simp add: mq_heap.lt_key)
  qed
  moreover have "set (mq_avail q) = {i. \<exists>e. mq_entries q i = Some e \<and> \<not> en_claimed e}" "distinct (mq_avail q)"
    using inv by (auto simp: mq_inv_def mq_listed_def)
  moreover have "mq_Len q \<le> mq_capacity q" using inv by (simp add: mq_inv_def mq_shape_def)
  moreover have "\<forall>i j e f. mq_entries q i = Some e \<longrightarrow> mq_entries q j = Some f \<longrightarrow> en_claimed e \<longrightarrow>
      en_claimed f \<longrightarrow> en_token e = en_token f \<longrightarrow> i = j"
    using inv unfolding mq_inv_def mq_tokens_def by blast
  ultimately show ?thesis by blast
qed

text \<open>A queue of capacity two in which the worker holds the first of two jobs.\<close>

definition mq_demo_job :: "string \<Rightarrow> job" where
  "mq_demo_job i = \<lparr>job_ID = i, job_MessageID = ''m'', job_EnqueuedAt = 5, job_AvailableAt = 7\<rparr>"

definition mq_demo0 :: memq where
  "mq_demo0 = \<lparr>mq_capacity = 2, mq_closed = False, mq_entries = Map.empty, mq_avail = [],
     mq_seq = 0, mq_nextToken = 0\<rparr>"

definition mq_demo1 :: memq where "mq_demo1 = snd (mq_Enqueue 5 (mq_demo_job ''a'') mq_demo0)"
definition mq_demo2 :: memq where "mq_demo2 = snd (mq_Enqueue 5 (mq_demo_job ''b'') mq_demo1)"
definition mq_demo3 :: memq where "mq_demo3 = snd (mq_Claim 9 mq_demo2)"

lemma mq_demo_values:
  "mq_demo1 = mq_demo0\<lparr>mq_seq := 1, mq_avail := [''a''],
     mq_entries := [''a'' \<mapsto> \<lparr>en_job = mq_demo_job ''a'', en_seq = 1, en_claimed = False, en_token = 0\<rparr>]\<rparr>"
  "mq_demo2 = mq_demo0\<lparr>mq_seq := 2, mq_avail := [''a'', ''b''],
     mq_entries := [''a'' \<mapsto> \<lparr>en_job = mq_demo_job ''a'', en_seq = 1, en_claimed = False, en_token = 0\<rparr>,
       ''b'' \<mapsto> \<lparr>en_job = mq_demo_job ''b'', en_seq = 2, en_claimed = False, en_token = 0\<rparr>]\<rparr>"
  "mq_Claim 9 mq_demo2 = (Done (Inr \<lparr>cl_Job = mq_demo_job ''a'', cl_Token = 1\<rparr>), mq_demo3)"
  "mq_demo3 = mq_demo0\<lparr>mq_seq := 2, mq_nextToken := 1, mq_avail := [''b''],
     mq_entries := [''a'' \<mapsto> \<lparr>en_job = mq_demo_job ''a'', en_seq = 1, en_claimed = True, en_token = 1\<rparr>,
       ''b'' \<mapsto> \<lparr>en_job = mq_demo_job ''b'', en_seq = 2, en_claimed = False, en_token = 0\<rparr>]\<rparr>"
proof -
  have "job_validate (mq_demo_job ''a'') = None" by code_simp
  moreover have "job_validate (mq_demo_job ''b'') = None" by code_simp
  moreover have "normalize_times 5 (mq_demo_job i) = mq_demo_job i" "job_ID (mq_demo_job i) = i"
    "job_AvailableAt (mq_demo_job i) = 7" for i
    by (simp_all add: mq_demo_job_def normalize_times_def zero_time_def)
  ultimately have valid: "job_validate (mq_demo_job ''a'') = None" "job_validate (mq_demo_job ''b'') = None"
    "normalize_times 5 (mq_demo_job i) = mq_demo_job i" "job_ID (mq_demo_job i) = i"
    "job_AvailableAt (mq_demo_job i) = 7" for i by auto
  have heap: "heap_push lt [] x = [x]" "heap_push lt [x] y = (if lt y x then [y, x] else [x, y])"
    "heap_pop lt [x, y] = Some (x, [y])" for lt :: "string \<Rightarrow> string \<Rightarrow> bool" and x y
    by (subst heap_push_def, subst heap_up.simps, simp)
       (subst heap_push_def, subst heap_up.simps, subst heap_up.simps, simp add: swap_at_def,
        simp add: heap_pop_def swap_at_def, subst heap_down.simps, simp)
  show d1: "mq_demo1 = mq_demo0\<lparr>mq_seq := 1, mq_avail := [''a''],
     mq_entries := [''a'' \<mapsto> \<lparr>en_job = mq_demo_job ''a'', en_seq = 1, en_claimed = False, en_token = 0\<rparr>]\<rparr>"
    by (simp add: mq_demo1_def mq_Enqueue_def valid mq_demo0_def mq_Len_def heap)
  show d2: "mq_demo2 = mq_demo0\<lparr>mq_seq := 2, mq_avail := [''a'', ''b''],
     mq_entries := [''a'' \<mapsto> \<lparr>en_job = mq_demo_job ''a'', en_seq = 1, en_claimed = False, en_token = 0\<rparr>,
       ''b'' \<mapsto> \<lparr>en_job = mq_demo_job ''b'', en_seq = 2, en_claimed = False, en_token = 0\<rparr>]\<rparr>"
    by (simp add: mq_demo2_def d1 mq_Enqueue_def valid mq_demo0_def mq_Len_def heap
        mq_less_def entry_less_def)
  have claim: "mq_Claim 9 mq_demo2 = (Done (Inr \<lparr>cl_Job = mq_demo_job ''a'', cl_Token = 1\<rparr>),
     mq_demo0\<lparr>mq_seq := 2, mq_nextToken := 1, mq_avail := [''b''],
     mq_entries := [''a'' \<mapsto> \<lparr>en_job = mq_demo_job ''a'', en_seq = 1, en_claimed = True, en_token = 1\<rparr>,
       ''b'' \<mapsto> \<lparr>en_job = mq_demo_job ''b'', en_seq = 2, en_claimed = False, en_token = 0\<rparr>]\<rparr>)"
    by (simp add: d2 mq_Claim_def mq_demo0_def heap valid Let_def fun_upd_twist)
  show "mq_Claim 9 mq_demo2 = (Done (Inr \<lparr>cl_Job = mq_demo_job ''a'', cl_Token = 1\<rparr>), mq_demo3)"
    by (simp add: claim mq_demo3_def)
  show "mq_demo3 = mq_demo0\<lparr>mq_seq := 2, mq_nextToken := 1, mq_avail := [''b''],
     mq_entries := [''a'' \<mapsto> \<lparr>en_job = mq_demo_job ''a'', en_seq = 1, en_claimed = True, en_token = 1\<rparr>,
       ''b'' \<mapsto> \<lparr>en_job = mq_demo_job ''b'', en_seq = 2, en_claimed = False, en_token = 0\<rparr>]\<rparr>"
    by (simp add: claim mq_demo3_def)
qed

lemma mq_demo_reachable:
  "reachable mq_init mq_step mq_demo0" "reachable mq_init mq_step mq_demo1"
  "reachable mq_init mq_step mq_demo2" "reachable mq_init mq_step mq_demo3"
proof -
  show r0: "reachable mq_init mq_step mq_demo0"
    by (rule reachable.reach_init) (auto simp: mq_init_def NewMemoryQueue_def mq_demo0_def intro!: exI [of _ 2])
  have s: "mq_step q (snd (mq_Enqueue now j q))" for q now j
    by (rule mq_step.enqueue [of now j q "fst (mq_Enqueue now j q)"]) simp
  show r1: "reachable mq_init mq_step mq_demo1" unfolding mq_demo1_def by (rule reachable.reach_step [OF r0 s])
  show r2: "reachable mq_init mq_step mq_demo2" unfolding mq_demo2_def by (rule reachable.reach_step [OF r1 s])
  have "mq_tokens_left mq_demo2"
    by (simp add: mq_demo2_def mq_demo1_def mq_demo0_def mq_Enqueue_def mq_tokens_left_def Let_def
        split: option.splits)
  then have "mq_step mq_demo2 mq_demo3" unfolding mq_demo3_def
    by (intro mq_step.claim [of _ 9 "fst (mq_Claim 9 mq_demo2)"]) simp_all
  then show "reachable mq_init mq_step mq_demo3" by (rule reachable.reach_step [OF r2])
qed

theorem mq_reachable_safe_witness:
  "mq_Len mq_demo3 \<le> 2 \<and> {i. \<exists>e. mq_entries mq_demo3 i = Some e \<and> \<not> en_claimed e} = {''b''}"
proof -
  have "set (mq_avail mq_demo3) = {''b''}" "mq_capacity mq_demo3 = 2"
    by (simp_all add: mq_demo_values(4) mq_demo0_def)
  then show ?thesis using mq_reachable_safe [OF mq_demo_reachable(4)] by argo
qed

text \<open>
  A successful \<^verbatim>\<open>Claim\<close> hands out a job that was waiting and due, unchanged, with a fresh
  token, and no waiting job precedes it in the order by availability and then arrival.
\<close>

theorem mq_claim_earliest:
  assumes "reachable mq_init mq_step q" and "mq_Claim now q = (Done (Inr c), q')"
  shows "\<exists>e. mq_entries q (job_ID (cl_Job c)) = Some e \<and> \<not> en_claimed e \<and> cl_Job c = en_job e \<and>
    job_AvailableAt (en_job e) \<le> now \<and> cl_Token c = mq_nextToken q + 1 \<and>
    (\<forall>k f. mq_entries q k = Some f \<and> \<not> en_claimed f \<longrightarrow> \<not> entry_less f e)"
proof -
  have inv: "mq_inv q" using assms(1) by (rule mq_reachable_inv)
  from mq_Claim_elim [OF inv assms(2)] obtain i e rest where
    e: "mq_entries q i = Some e" "\<not> en_claimed e" "job_AvailableAt (en_job e) \<le> now"
      "c = \<lparr>cl_Job = en_job e, cl_Token = mq_nextToken q + 1\<rparr>" and
    least: "\<And>k. k \<in> set (mq_avail q) \<Longrightarrow> mq_key (mq_entries q) i \<le> mq_key (mq_entries q) k"
    by metis
  have "job_ID (en_job e) = i" using inv e by (auto simp: mq_inv_def mq_shape_def)
  moreover have "\<not> entry_less f e" if "mq_entries q k = Some f" "\<not> en_claimed f" for k f
  proof -
    have "k \<in> set (mq_avail q)" using inv that by (auto simp: mq_inv_def mq_listed_def)
    from least [OF this] show ?thesis using e that by (simp add: mq_key_def entry_less_key)
  qed
  ultimately show ?thesis using e by auto
qed

theorem mq_claim_earliest_witness:
  "\<exists>e. mq_entries mq_demo2 ''a'' = Some e \<and> \<not> en_claimed e \<and> job_AvailableAt (en_job e) \<le> 9"
  using mq_claim_earliest [OF mq_demo_reachable(3) mq_demo_values(3)] by (auto simp: mq_demo_job_def)

text \<open>
  \<^verbatim>\<open>Claim\<close> returns a job exactly when the queue is open and some waiting job is due: no due
  job is passed over, and no job is handed out early.
\<close>

theorem mq_claim_iff_due:
  assumes "reachable mq_init mq_step q"
  shows "(\<exists>c q'. mq_Claim now q = (Done (Inr c), q')) \<longleftrightarrow>
    \<not> mq_closed q \<and>
    (\<exists>i e. mq_entries q i = Some e \<and> \<not> en_claimed e \<and> job_AvailableAt (en_job e) \<le> now)"
  using mq_reachable_inv [OF assms] mq_Claim_succeeds mq_Claim_due by blast

theorem mq_claim_iff_due_witness:
  "\<not> (\<exists>c q'. mq_Claim 6 mq_demo0 = (Done (Inr c), q'))"
  using mq_claim_iff_due [OF mq_demo_reachable(1), of 6] by (simp add: mq_demo0_def)

text \<open>
  (C2) No job is lost: a job leaves the queue only in a step in which the worker that holds its
  current claim acknowledges it.
\<close>

theorem mq_no_job_lost:
  assumes "reachable mq_init mq_step q" "mq_step q q'" "i \<in> dom (mq_entries q)" "i \<notin> dom (mq_entries q')"
  shows "\<exists>e. mq_entries q i = Some e \<and> en_claimed e \<and> mq_Ack False i (en_token e) q = (None, q')"
  using mq_step_drops [OF mq_reachable_inv [OF assms(1)] assms(2)] assms(3,4)
  by (auto simp: mq_active_def mq_owns_def)

definition mq_demo4 :: memq where "mq_demo4 = snd (mq_Ack False ''a'' 1 mq_demo3)"

lemma mq_demo_ack: "''a'' \<in> dom (mq_entries mq_demo3)" "''a'' \<notin> dom (mq_entries mq_demo4)"
  by (simp_all add: mq_demo4_def mq_Ack_def mq_demo_values(4))

theorem mq_no_job_lost_witness:
  "\<exists>e. mq_entries mq_demo3 ''a'' = Some e \<and> en_claimed e \<and>
       mq_Ack False ''a'' (en_token e) mq_demo3 = (None, mq_demo4)"
proof -
  have "mq_step mq_demo3 mq_demo4" unfolding mq_demo4_def
    by (rule mq_step.ack [of False "''a''" 1 _ "fst (mq_Ack False ''a'' 1 mq_demo3)"]) simp
  from mq_no_job_lost [OF mq_demo_reachable(4) this mq_demo_ack] show ?thesis .
qed

end
