(* ===== verification/Redis_Queue.thy ===== *)
theory Redis_Queue
  imports Queue_Contract "HOL-Library.Multiset"
begin

text \<open>
  The Redis queue of \<^verbatim>\<open>internal/queue/redis.go\<close>, \<^verbatim>\<open>redis_scripts.go\<close> and \<^verbatim>\<open>redis_keys.go\<close>.
  The keyspace of one namespace is the record \<open>redisq\<close>: two sorted sets, one hash per job and
  the token counter. Each Lua script runs atomically on the server and is one function on that
  record; the Go methods call the scripts and interpret their results.
\<close>

section \<open>Keys and configuration\<close>

record redisKeys =
  rk_available :: string
  rk_claimed :: string
  rk_tokenSeq :: string
  rk_jobPrefix :: string

definition newRedisKeys :: "string \<Rightarrow> redisKeys" where
  "newRedisKeys ns =
     (let base = ''mailx:queue:'' @ ns @ '':''
      in \<lparr>rk_available = base @ ''available'', rk_claimed = base @ ''claimed'',
          rk_tokenSeq = base @ ''tokenseq'', rk_jobPrefix = base @ ''job:''\<rparr>)"

definition rk_job :: "redisKeys \<Rightarrow> string \<Rightarrow> string" where
  "rk_job k i = rk_jobPrefix k @ i"

definition ns_char :: "char \<Rightarrow> bool" where
  "ns_char r \<longleftrightarrow> is_lower r \<or> is_upper r \<or> is_digit r \<or> r \<in> set ''-_.''"

text \<open>
  Go ranges over the runes of the namespace; every byte of a rune outside ASCII is outside the
  accepted set, so testing the bytes accepts the same strings.
\<close>

definition validNamespace :: "string \<Rightarrow> bool" where
  "validNamespace ns \<longleftrightarrow> ns \<noteq> [] \<and> list_all ns_char ns \<and> \<not> ContainsAny ns crlf_nul"

record redisConfig =
  rc_Addr :: string
  rc_Namespace :: string
  rc_Capacity :: int
  rc_ClaimLease :: duration
  rc_PollInterval :: duration

definition defaultClaimLease :: duration where "defaultClaimLease = 2 * minute"
definition defaultPollInterval :: duration where "defaultPollInterval = 200 * millisecond"
definition maxPollInterval :: duration where "maxPollInterval = 2 * second"
definition reclaimBatchLimit :: nat where "reclaimBatchLimit = 50"

definition rc_normalized :: "redisConfig \<Rightarrow> queue_error + redisConfig" where
  "rc_normalized c =
     (if rc_Addr c = [] then Inl (ErrRedisConfig ''queue: redis addr is empty'')
      else if \<not> validNamespace (rc_Namespace c) then
        Inl (ErrRedisConfig ''queue: redis namespace must be non-empty and contain only [A-Za-z0-9-_.]'')
      else if rc_Capacity c \<le> 0 then Inl ErrInvalidCapacity
      else if rc_ClaimLease c < 0 then Inl (ErrRedisConfig ''queue: claim lease must not be negative'')
      else
        let c1 = (if rc_ClaimLease c = 0 then c\<lparr>rc_ClaimLease := defaultClaimLease\<rparr> else c);
            c2 = (if rc_PollInterval c1 \<le> 0 then c1\<lparr>rc_PollInterval := defaultPollInterval\<rparr> else c1)
        in Inr c2)"

section \<open>The server's data\<close>

text \<open>
  A sorted set is a list of members with their scores, one per member. Scores are Unix
  milliseconds, far inside the range where Redis' doubles are exact. A hash maps field names to
  strings.
\<close>

type_synonym zset = "(string \<times> int) list"
type_synonym hash = "string \<Rightarrow> string option"

definition zrem :: "string \<Rightarrow> zset \<Rightarrow> zset" where
  "zrem m z = filter (\<lambda>(k, s). k \<noteq> m) z"

definition zadd :: "string \<Rightarrow> int \<Rightarrow> zset \<Rightarrow> zset" where
  "zadd m s z = (m, s) # zrem m z"

text \<open>Members in order of score, ties by member bytes.\<close>

definition zrange :: "zset \<Rightarrow> (string \<times> int) list" where
  "zrange z = sort_key (\<lambda>(k, s). (s, k)) z"

definition zrange_by_score :: "int \<Rightarrow> nat \<Rightarrow> zset \<Rightarrow> string list" where
  "zrange_by_score hi limit z = take limit (map fst (filter (\<lambda>(k, s). s \<le> hi) (zrange z)))"

definition hset :: "(string \<times> string) list \<Rightarrow> hash option \<Rightarrow> hash option" where
  "hset fs h = Some (foldl (\<lambda>m (k, v). m(k \<mapsto> v)) (case h of None \<Rightarrow> Map.empty | Some m \<Rightarrow> m) fs)"

definition hget :: "string \<Rightarrow> hash option \<Rightarrow> string option" where
  "hget f h = (case h of None \<Rightarrow> None | Some m \<Rightarrow> m f)"

record redisq =
  rq_available :: zset
  rq_claimed :: zset
  rq_jobs :: "string \<Rightarrow> hash option"
  rq_tokenSeq :: nat

abbreviation rq_empty :: redisq where
  "rq_empty \<equiv> \<lparr>rq_available = [], rq_claimed = [], rq_jobs = (\<lambda>_. None), rq_tokenSeq = 0\<rparr>"

section \<open>The scripts\<close>

definition enqueueScript :: "string \<Rightarrow> string \<Rightarrow> int \<Rightarrow> int \<Rightarrow> int \<Rightarrow> redisq \<Rightarrow> int \<times> redisq" where
  "enqueueScript i msg enq av cap r =
     (if rq_jobs r i \<noteq> None then (0, r)
      else if int (length (rq_available r)) + int (length (rq_claimed r)) \<ge> cap then (- 1, r)
      else (1, r\<lparr>rq_jobs := (rq_jobs r)(i := hset [(''id'', i), (''message_id'', msg),
                   (''enqueued_at'', int_dec enq), (''available_at'', int_dec av), (''token'', ''0'')] None),
                 rq_available := zadd i av (rq_available r)\<rparr>))"

text \<open>One turn of the claim script's reclaim loop.\<close>

definition reclaim_one :: "int \<Rightarrow> string \<Rightarrow> redisq \<Rightarrow> redisq" where
  "reclaim_one now i r =
     r\<lparr>rq_claimed := zrem i (rq_claimed r),
       rq_available := zadd i now (rq_available r),
       rq_jobs := (rq_jobs r)(i := hset [(''available_at'', int_dec now), (''token'', ''0'')] (rq_jobs r i))\<rparr>"

text \<open>
  The reply's five fields: the identifier, the token, and what \<^verbatim>\<open>HMGET\<close> finds (a missing field
  is nil, which Go reads as the empty string). Lua prints the token with fourteen significant
  digits, so from \<open>10^14\<close> on it is no longer a decimal integer; \<open>None\<close> stands for such a text.
\<close>

record claimReply =
  cr_id :: string
  cr_token :: "string option"
  cr_messageID :: string
  cr_enqueuedAt :: string
  cr_availableAt :: string

definition field_or_empty :: "string option \<Rightarrow> string" where
  "field_or_empty v = (case v of None \<Rightarrow> [] | Some s \<Rightarrow> s)"

definition lua_tostring :: "nat \<Rightarrow> string option" where
  "lua_tostring n = (if n < 10 ^ 14 then Some (nat_dec n) else None)"

definition claimScript :: "int \<Rightarrow> int \<Rightarrow> nat \<Rightarrow> redisq \<Rightarrow> claimReply option \<times> redisq" where
  "claimScript now leaseMs limit r =
     (let r1 = fold (reclaim_one now) (zrange_by_score now limit (rq_claimed r)) r
      in case zrange_by_score now 1 (rq_available r1) of
           [] \<Rightarrow> (None, r1)
         | i # _ \<Rightarrow>
             let tok = Suc (rq_tokenSeq r1);
                 h = hset [(''token'', nat_dec tok)] (rq_jobs r1 i);
                 r2 = r1\<lparr>rq_available := zrem i (rq_available r1), rq_tokenSeq := tok,
                         rq_claimed := zadd i (now + leaseMs) (rq_claimed r1),
                         rq_jobs := (rq_jobs r1)(i := h)\<rparr>
             in (Some \<lparr>cr_id = i, cr_token = lua_tostring tok,
                       cr_messageID = field_or_empty (hget ''message_id'' h),
                       cr_enqueuedAt = field_or_empty (hget ''enqueued_at'' h),
                       cr_availableAt = field_or_empty (hget ''available_at'' h)\<rparr>, r2))"

text \<open>The guard the three finishing scripts share: -1 unknown job, -2 stale or wrong token.\<close>

definition token_guard :: "string \<Rightarrow> string \<Rightarrow> redisq \<Rightarrow> int option" where
  "token_guard i tok r =
     (if rq_jobs r i = None then Some (- 1)
      else let cur = hget ''token'' (rq_jobs r i)
           in if cur = None \<or> cur = Some ''0'' \<or> cur \<noteq> Some tok then Some (- 2) else None)"

definition ackScript :: "string \<Rightarrow> string \<Rightarrow> redisq \<Rightarrow> int \<times> redisq" where
  "ackScript i tok r =
     (case token_guard i tok r of
        Some n \<Rightarrow> (n, r)
      | None \<Rightarrow> (1, r\<lparr>rq_claimed := zrem i (rq_claimed r), rq_jobs := (rq_jobs r)(i := None)\<rparr>))"

definition renewScript :: "string \<Rightarrow> string \<Rightarrow> int \<Rightarrow> redisq \<Rightarrow> int \<times> redisq" where
  "renewScript i tok expiry r =
     (case token_guard i tok r of
        Some n \<Rightarrow> (n, r)
      | None \<Rightarrow> (1, r\<lparr>rq_claimed := zadd i expiry (rq_claimed r)\<rparr>))"

definition releaseScript :: "string \<Rightarrow> string \<Rightarrow> int \<Rightarrow> redisq \<Rightarrow> int \<times> redisq" where
  "releaseScript i tok av r =
     (case token_guard i tok r of
        Some n \<Rightarrow> (n, r)
      | None \<Rightarrow> (1, r\<lparr>rq_claimed := zrem i (rq_claimed r),
                     rq_jobs := (rq_jobs r)(i := hset [(''token'', ''0''), (''available_at'', int_dec av)] (rq_jobs r i)),
                     rq_available := zadd i av (rq_available r)\<rparr>))"

section \<open>The Go methods\<close>

text \<open>\<^verbatim>\<open>strconv.ParseUint\<close> and \<^verbatim>\<open>strconv.ParseInt\<close> in base 10 with 64 bits.\<close>

definition ParseUint64 :: "string \<Rightarrow> nat option" where
  "ParseUint64 s =
     (if s = [] \<or> \<not> list_all is_digit s \<or> dec_val s \<ge> 2 ^ 64 then None else Some (dec_val s))"

definition ParseInt64 :: "string \<Rightarrow> int option" where
  "ParseInt64 s =
     (let neg = HasPrefix s ''-'';
          ds = (if HasPrefix s ''-'' \<or> HasPrefix s ''+'' then tl s else s)
      in if ds = [] \<or> \<not> list_all is_digit ds then None
         else if \<not> neg \<and> dec_val ds \<ge> 2 ^ 63 then None
         else if neg \<and> dec_val ds > 2 ^ 63 then None
         else Some (if neg then - int (dec_val ds) else int (dec_val ds)))"

definition fromMillis :: "int \<Rightarrow> gotime" where
  "fromMillis ms = ms * 1000000"

definition parseClaim :: "claimReply \<Rightarrow> queue_error + claim" where
  "parseClaim f =
     (case Option.bind (cr_token f) ParseUint64 of
        None \<Rightarrow> Inl (ErrRedis ''parse token'')
      | Some tok \<Rightarrow>
          (case ParseInt64 (cr_enqueuedAt f) of
             None \<Rightarrow> Inl (ErrRedis ''parse enqueued_at'')
           | Some enq \<Rightarrow>
               (case ParseInt64 (cr_availableAt f) of
                  None \<Rightarrow> Inl (ErrRedis ''parse available_at'')
                | Some av \<Rightarrow>
                    Inr \<lparr>cl_Job = \<lparr>job_ID = cr_id f, job_MessageID = cr_messageID f,
                                   job_EnqueuedAt = fromMillis enq, job_AvailableAt = fromMillis av\<rparr>,
                         cl_Token = of_nat tok\<rparr>)))"

text \<open>
  \<open>closed\<close> is this process's client; \<open>up\<close> says that Redis answers. When it does not, the call
  fails and the script did not run (a reply lost after the script ran is a step whose result
  nobody reads).
\<close>

definition rq_Enqueue ::
  "redisConfig \<Rightarrow> bool \<Rightarrow> bool \<Rightarrow> gotime \<Rightarrow> job \<Rightarrow> redisq \<Rightarrow> unit pass \<times> redisq" where
  "rq_Enqueue cfg closed up now j r =
     (case job_validate j of
        Some e \<Rightarrow> (Done (Inl e), r)
      | None \<Rightarrow>
          let n = normalize_times now j
          in if closed then (Done (Inl ErrQueueClosed), r)
             else if \<not> up then (Done (Inl (ErrRedis ''enqueue'')), r)
             else case enqueueScript (job_ID n) (job_MessageID n) (UnixMilli (job_EnqueuedAt n))
                         (UnixMilli (job_AvailableAt n)) (rc_Capacity cfg) r of
                    (code, r') \<Rightarrow>
                      if code = 1 \<or> code = 0 then (Done (Inr ()), r')
                      else if code = - 1 then (Block, r')
                      else (Done (Inl (ErrRedis ''unexpected script result'')), r'))"

definition rq_Claim :: "redisConfig \<Rightarrow> bool \<Rightarrow> bool \<Rightarrow> gotime \<Rightarrow> redisq \<Rightarrow> claim pass \<times> redisq" where
  "rq_Claim cfg closed up now r =
     (if closed then (Done (Inl ErrQueueClosed), r)
      else if \<not> up then (Done (Inl (ErrRedis ''claim'')), r)
      else case claimScript (UnixMilli now) (quot_trunc (rc_ClaimLease cfg) 1000000) reclaimBatchLimit r of
             (None, r') \<Rightarrow> (Block, r')
           | (Some f, r') \<Rightarrow> (Done (parseClaim f), r'))"

definition script_error :: "int \<Rightarrow> queue_error option" where
  "script_error code =
     (if code = 1 then None
      else if code = - 1 then Some ErrUnknownJob
      else if code = - 2 then Some ErrJobNotClaimed
      else Some (ErrRedis ''unexpected script result''))"

definition rq_Ack ::
  "bool \<Rightarrow> bool \<Rightarrow> string \<Rightarrow> token \<Rightarrow> redisq \<Rightarrow> queue_error option \<times> redisq" where
  "rq_Ack ctx_done up i t r =
     (if ctx_done then (Some ErrContext, r)
      else if \<not> up then (Some (ErrRedis ''ack''), r)
      else case ackScript i (nat_dec (unat t)) r of (code, r') \<Rightarrow> (script_error code, r'))"

definition rq_Renew ::
  "redisConfig \<Rightarrow> bool \<Rightarrow> bool \<Rightarrow> gotime \<Rightarrow> string \<Rightarrow> token \<Rightarrow> redisq \<Rightarrow> queue_error option \<times> redisq" where
  "rq_Renew cfg ctx_done up now i t r =
     (if ctx_done then (Some ErrContext, r)
      else if \<not> up then (Some (ErrRedis ''renew''), r)
      else case renewScript i (nat_dec (unat t)) (UnixMilli (now + rc_ClaimLease cfg)) r of
             (code, r') \<Rightarrow> (script_error code, r'))"

definition rq_Release ::
  "bool \<Rightarrow> bool \<Rightarrow> string \<Rightarrow> token \<Rightarrow> gotime \<Rightarrow> redisq \<Rightarrow> queue_error option \<times> redisq" where
  "rq_Release ctx_done up i t availableAt r =
     (if ctx_done then (Some ErrContext, r)
      else if \<not> up then (Some (ErrRedis ''release''), r)
      else case releaseScript i (nat_dec (unat t)) (UnixMilli availableAt) r of
             (code, r') \<Rightarrow> (script_error code, r'))"

text \<open>How long \<^verbatim>\<open>Claim\<close> sleeps before it polls again.\<close>

definition rq_waitHint :: "redisConfig \<Rightarrow> gotime \<Rightarrow> redisq \<Rightarrow> duration" where
  "rq_waitHint cfg now r =
     (case zrange (rq_available r) of
        [] \<Rightarrow> rc_PollInterval cfg
      | (_, score) # _ \<Rightarrow>
          let wait = time_Sub (fromMillis score) now
          in if wait \<le> 0 then 0 else if wait > maxPollInterval then maxPollInterval else wait)"

definition rq_Depth :: "redisq \<Rightarrow> int" where
  "rq_Depth r = int (length (rq_available r)) + int (length (rq_claimed r))"

section \<open>The representation invariant\<close>

definition zkeys :: "zset \<Rightarrow> string set" where
  "zkeys z = set (map fst z)"

lemma zkeys_Nil [simp]: "zkeys [] = {}"
  by (simp add: zkeys_def)

lemma zkeys_zrem [simp]: "zkeys (zrem m z) = zkeys z - {m}"
  by (auto simp: zrem_def zkeys_def image_iff)

lemma zkeys_zadd [simp]: "zkeys (zadd m v z) = insert m (zkeys z)"
proof -
  have "zkeys (zadd m v z) = insert m (zkeys (zrem m z))" by (simp add: zadd_def zkeys_def)
  then show ?thesis by simp
qed

lemma distinct_zrem [simp]: "distinct (map fst z) \<Longrightarrow> distinct (map fst (zrem m z))"
  by (induction z) (auto simp: zrem_def image_iff)

lemma distinct_zadd [simp]: "distinct (map fst z) \<Longrightarrow> distinct (map fst (zadd m v z))"
  using zkeys_zrem [of m z] by (simp add: zadd_def zkeys_def)

lemma zrem_absent: "m \<notin> zkeys z \<Longrightarrow> zrem m z = z"
  by (induction z) (auto simp: zrem_def zkeys_def)

lemma length_zrem: "distinct (map fst z) \<Longrightarrow> m \<in> zkeys z \<Longrightarrow> Suc (length (zrem m z)) = length z"
proof (induction z)
  case (Cons a z)
  show ?case
  proof (cases "fst a = m")
    case True
    then have "m \<notin> zkeys z" using Cons.prems(1) by (auto simp: zkeys_def)
    then have "zrem m z = z" by (rule zrem_absent)
    then show ?thesis using True by (cases a) (simp add: zrem_def)
  next
    case False
    then have "Suc (length (zrem m z)) = length z" using Cons by (auto simp: zkeys_def)
    then show ?thesis using False by (cases a) (simp add: zrem_def)
  qed
qed (simp add: zkeys_def)

lemma zrange_by_score_sub: "i \<in> set (zrange_by_score hi n z) \<Longrightarrow> i \<in> zkeys z"
  by (auto simp: zrange_by_score_def zrange_def zkeys_def dest!: in_set_takeD)

lemma zrange_by_score_distinct: "distinct (map fst z) \<Longrightarrow> distinct (zrange_by_score hi n z)"
proof -
  assume d: "distinct (map fst z)"
  have "mset (map fst (zrange z)) = mset (map fst z)"
    by (simp add: zrange_def mset_map)
  then have "distinct (map fst (zrange z))" using d mset_eq_imp_distinct_iff by blast
  then show ?thesis by (simp add: zrange_by_score_def distinct_map_filter)
qed

lemma nat_dec_0: "nat_dec 0 = ''0''"
  by code_simp

text \<open>Every job hash is complete: what \<^verbatim>\<open>Claim\<close> reads was written by \<^verbatim>\<open>Enqueue\<close>.\<close>

definition hash_ok :: "string \<Rightarrow> hash \<Rightarrow> bool" where
  "hash_ok i h \<longleftrightarrow>
     h ''id'' = Some i \<and> h ''message_id'' \<noteq> None \<and>
     (\<exists>e. h ''enqueued_at'' = Some (int_dec e)) \<and> (\<exists>a. h ''available_at'' = Some (int_dec a))"

text \<open>
  A job is a hash and a member of exactly one of the two sorted sets; an available job carries
  the token 0, a claimed one a positive token that the counter has issued, and no two claimed
  jobs carry the same.
\<close>

definition rq_sets :: "redisq \<Rightarrow> bool" where
  "rq_sets r \<longleftrightarrow>
     distinct (map fst (rq_available r)) \<and> distinct (map fst (rq_claimed r)) \<and>
     zkeys (rq_available r) \<inter> zkeys (rq_claimed r) = {} \<and>
     dom (rq_jobs r) = zkeys (rq_available r) \<union> zkeys (rq_claimed r)"

abbreviation tok_of :: "redisq \<Rightarrow> string \<Rightarrow> string option" where
  "tok_of r i \<equiv> hget ''token'' (rq_jobs r i)"

definition issued :: "redisq \<Rightarrow> string option \<Rightarrow> bool" where
  "issued r t \<longleftrightarrow> (\<exists>n. t = Some (nat_dec n) \<and> 0 < n \<and> n \<le> rq_tokenSeq r)"

definition rq_tokens :: "redisq \<Rightarrow> bool" where
  "rq_tokens r \<longleftrightarrow>
     (\<forall>i\<in>zkeys (rq_available r). tok_of r i = Some ''0'') \<and>
     (\<forall>i\<in>zkeys (rq_claimed r). issued r (tok_of r i)) \<and>
     inj_on (tok_of r) (zkeys (rq_claimed r))"

definition rq_hashes :: "redisq \<Rightarrow> bool" where
  "rq_hashes r \<longleftrightarrow> (\<forall>i h. rq_jobs r i = Some h \<longrightarrow> hash_ok i h)"

definition rq_inv :: "redisq \<Rightarrow> bool" where
  "rq_inv r \<longleftrightarrow> rq_sets r \<and> rq_tokens r \<and> rq_hashes r"

lemmas rq_parts = rq_inv_def rq_sets_def rq_tokens_def rq_hashes_def

lemma rq_empty_inv: "rq_inv rq_empty"
  by (simp add: rq_parts)

lemma hget_hset_token [simp]:
  "hget ''token'' (hset [(''available_at'', a), (''token'', t)] h) = Some t"
  "hget ''token'' (hset [(''token'', t), (''available_at'', a)] h) = Some t"
  "hget ''token'' (hset [(''token'', t)] h) = Some t"
  by (simp_all add: hget_def hset_def)

lemma hset_ok:
  "hash_ok i h \<Longrightarrow> hash_ok i (the (hset [(''available_at'', int_dec a), (''token'', t)] (Some h)))"
  "hash_ok i h \<Longrightarrow> hash_ok i (the (hset [(''token'', t), (''available_at'', int_dec a)] (Some h)))"
  "hash_ok i h \<Longrightarrow> hash_ok i (the (hset [(''token'', t)] (Some h)))"
  by (auto simp: hset_def hash_ok_def)

lemma hset_not_None [simp]: "hset fs h \<noteq> None" "\<exists>m. hset fs h = Some m"
  by (auto simp: hset_def)

lemma rq_tokensI:
  assumes "rq_tokens r"
    and "\<And>i. i \<in> zkeys (rq_available r') \<Longrightarrow>
           tok_of r' i = Some ''0'' \<or> (i \<in> zkeys (rq_available r) \<and> tok_of r' i = tok_of r i)"
    and "zkeys (rq_claimed r') \<subseteq> zkeys (rq_claimed r)"
    and "\<And>i. i \<in> zkeys (rq_claimed r') \<Longrightarrow> tok_of r' i = tok_of r i"
    and "rq_tokenSeq r' = rq_tokenSeq r"
  shows "rq_tokens r'"
  unfolding rq_tokens_def
proof (intro conjI ballI)
  show "tok_of r' i = Some ''0''" if "i \<in> zkeys (rq_available r')" for i
    using assms(1) assms(2) [OF that] by (auto simp: rq_tokens_def)
  show "issued r' (tok_of r' i)" if "i \<in> zkeys (rq_claimed r')" for i
    using assms(1,3,5) assms(4) [OF that] that by (auto simp: rq_tokens_def issued_def)
  have "inj_on (tok_of r) (zkeys (rq_claimed r'))"
    using assms(1,3) by (auto simp: rq_tokens_def intro: inj_on_subset)
  then show "inj_on (tok_of r') (zkeys (rq_claimed r'))"
    using assms(4) by (auto simp: inj_on_def)
qed

lemma rq_inv_enqueue:
  assumes inv: "rq_inv r" and run: "enqueueScript i msg enq av cap r = (c, r')"
  shows "rq_inv r'"
proof (cases "r' = r")
  case False
  let ?h = "hset [(''id'', i), (''message_id'', msg), (''enqueued_at'', int_dec enq),
              (''available_at'', int_dec av), (''token'', ''0'')] None"
  have new: "rq_jobs r i = None"
    and r': "r' = r\<lparr>rq_jobs := (rq_jobs r)(i := ?h), rq_available := zadd i av (rq_available r)\<rparr>"
    using run False by (auto simp: enqueueScript_def split: if_splits)
  have out: "i \<notin> zkeys (rq_available r)" "i \<notin> zkeys (rq_claimed r)"
    using inv new by (auto simp: rq_inv_def rq_sets_def)
  have "rq_sets r'" using inv out by (auto simp: r' rq_inv_def rq_sets_def hset_def)
  moreover have "rq_tokens r'"
    by (rule rq_tokensI [of r]) (use inv out in \<open>auto simp: r' rq_inv_def hget_def hset_def\<close>)
  moreover have "rq_hashes r'"
    using inv by (auto simp: r' rq_inv_def rq_hashes_def hset_def hash_ok_def)
  ultimately show ?thesis by (simp add: rq_inv_def)
qed (use inv in simp)

lemma rq_claimed_hash:
  assumes "rq_inv r" "i \<in> zkeys (rq_claimed r)"
  obtains h where "rq_jobs r i = Some h" "hash_ok i h" "i \<notin> zkeys (rq_available r)"
proof -
  have "i \<in> dom (rq_jobs r)" "i \<notin> zkeys (rq_available r)"
    using assms by (auto simp: rq_inv_def rq_sets_def)
  then show ?thesis using assms(1) that by (auto simp: rq_inv_def rq_hashes_def)
qed

lemma rq_hashesI:
  assumes "rq_hashes r" and "rq_jobs r' = (rq_jobs r)(i := h')" and "h' \<noteq> None \<Longrightarrow> hash_ok i (the h')"
  shows "rq_hashes r'"
  using assms by (auto simp: rq_hashes_def)

lemma rq_inv_reclaim_one:
  assumes inv: "rq_inv r" and i: "i \<in> zkeys (rq_claimed r)"
  shows "rq_inv (reclaim_one now i r)"
proof -
  obtain h where h: "rq_jobs r i = Some h" "hash_ok i h" "i \<notin> zkeys (rq_available r)"
    using rq_claimed_hash [OF inv i] by blast
  have "rq_sets (reclaim_one now i r)"
    using inv i by (auto simp: reclaim_one_def rq_inv_def rq_sets_def hset_def)
  moreover have "rq_tokens (reclaim_one now i r)"
    by (rule rq_tokensI [of r]) (use inv i h in \<open>auto simp: reclaim_one_def rq_inv_def\<close>)
  moreover have "rq_hashes (reclaim_one now i r)"
    by (rule rq_hashesI [where r = r and i = i])
       (use inv h hset_ok(1) [OF h(2)] in \<open>auto simp: reclaim_one_def rq_inv_def\<close>)
  ultimately show ?thesis by (simp add: rq_inv_def)
qed

lemma reclaim_all:
  assumes "rq_inv r" "distinct is" "set is \<subseteq> zkeys (rq_claimed r)"
  shows "rq_inv (fold (reclaim_one now) is r) \<and>
         rq_tokenSeq (fold (reclaim_one now) is r) = rq_tokenSeq r \<and>
         dom (rq_jobs (fold (reclaim_one now) is r)) = dom (rq_jobs r)"
  using assms
proof (induction "is" arbitrary: r)
  case (Cons i "is")
  obtain h where "rq_jobs r i = Some h"
    using rq_claimed_hash [OF Cons.prems(1), of i] Cons.prems(3) by auto
  then have "dom (rq_jobs (reclaim_one now i r)) = dom (rq_jobs r)"
    by (auto simp: reclaim_one_def hset_def)
  moreover have "rq_tokenSeq (reclaim_one now i r) = rq_tokenSeq r"
    by (simp add: reclaim_one_def)
  moreover have "set is \<subseteq> zkeys (rq_claimed (reclaim_one now i r))"
    using Cons.prems by (auto simp: reclaim_one_def)
  ultimately show ?case
    using Cons.IH [of "reclaim_one now i r"] rq_inv_reclaim_one [of r i now] Cons.prems by simp
qed simp

text \<open>The claim script: first the reclaimed state, then the earliest due job in it.\<close>

definition reclaimed :: "int \<Rightarrow> nat \<Rightarrow> redisq \<Rightarrow> redisq" where
  "reclaimed now limit r = fold (reclaim_one now) (zrange_by_score now limit (rq_claimed r)) r"

lemma reclaimed_facts:
  assumes "rq_inv r"
  shows "rq_inv (reclaimed now limit r)" "rq_tokenSeq (reclaimed now limit r) = rq_tokenSeq r"
    "dom (rq_jobs (reclaimed now limit r)) = dom (rq_jobs r)"
proof -
  have "distinct (zrange_by_score now limit (rq_claimed r))"
    using assms by (intro zrange_by_score_distinct) (simp add: rq_inv_def rq_sets_def)
  moreover have "set (zrange_by_score now limit (rq_claimed r)) \<subseteq> zkeys (rq_claimed r)"
    using zrange_by_score_sub by blast
  ultimately show "rq_inv (reclaimed now limit r)"
    "rq_tokenSeq (reclaimed now limit r) = rq_tokenSeq r"
    "dom (rq_jobs (reclaimed now limit r)) = dom (rq_jobs r)"
    using reclaim_all [OF assms] by (auto simp: reclaimed_def)
qed

definition stamp :: "int \<Rightarrow> string \<Rightarrow> redisq \<Rightarrow> redisq" where
  "stamp expiry i r =
     r\<lparr>rq_available := zrem i (rq_available r), rq_tokenSeq := Suc (rq_tokenSeq r),
       rq_claimed := zadd i expiry (rq_claimed r),
       rq_jobs := (rq_jobs r)(i := hset [(''token'', nat_dec (Suc (rq_tokenSeq r)))] (rq_jobs r i))\<rparr>"

lemma rq_inv_stamp:
  assumes inv: "rq_inv r" and i: "i \<in> zkeys (rq_available r)"
  shows "rq_inv (stamp expiry i r)"
proof -
  let ?n = "Suc (rq_tokenSeq r)"
  have "i \<in> dom (rq_jobs r)" and out: "i \<notin> zkeys (rq_claimed r)"
    using inv i by (auto simp: rq_inv_def rq_sets_def)
  then obtain h where h: "rq_jobs r i = Some h" "hash_ok i h"
    using inv by (auto simp: rq_inv_def rq_hashes_def)
  have other: "issued r (tok_of r k)" "tok_of r k \<noteq> Some (nat_dec ?n)" if "k \<in> zkeys (rq_claimed r)" for k
    using inv that by (auto simp: rq_inv_def rq_tokens_def issued_def)
  have tok: "tok_of (stamp expiry i r) k = (if k = i then Some (nat_dec ?n) else tok_of r k)" for k
    by (simp add: stamp_def)
  have "rq_sets (stamp expiry i r)"
    using inv i by (auto simp: stamp_def rq_inv_def rq_sets_def hset_def)
  moreover have "rq_tokens (stamp expiry i r)"
    unfolding rq_tokens_def
  proof (intro conjI ballI)
    fix k assume "k \<in> zkeys (rq_available (stamp expiry i r))"
    then show "tok_of (stamp expiry i r) k = Some ''0''"
      using inv unfolding tok by (auto simp: stamp_def rq_inv_def rq_tokens_def)
  next
    fix k assume "k \<in> zkeys (rq_claimed (stamp expiry i r))"
    then have "k = i \<or> k \<in> zkeys (rq_claimed r)" by (auto simp: stamp_def)
    then show "issued (stamp expiry i r) (tok_of (stamp expiry i r) k)"
      using other(1) [of k] out unfolding tok by (fastforce simp: issued_def stamp_def)
  next
    have "inj_on (tok_of r) (zkeys (rq_claimed r))" using inv by (simp add: rq_inv_def rq_tokens_def)
    then show "inj_on (tok_of (stamp expiry i r)) (zkeys (rq_claimed (stamp expiry i r)))"
      using other(2) out unfolding tok inj_on_def by (simp add: stamp_def) metis
  qed
  moreover have "rq_hashes (stamp expiry i r)"
    by (rule rq_hashesI [where r = r and i = i])
       (use inv h hset_ok(3) [OF h(2)] in \<open>auto simp: stamp_def rq_inv_def\<close>)
  ultimately show ?thesis by (simp add: rq_inv_def)
qed

lemma claimScript_cases:
  "claimScript now lease limit r =
     (case zrange_by_score now 1 (rq_available (reclaimed now limit r)) of
        [] \<Rightarrow> (None, reclaimed now limit r)
      | i # _ \<Rightarrow>
          (Some \<lparr>cr_id = i, cr_token = lua_tostring (Suc (rq_tokenSeq (reclaimed now limit r))),
             cr_messageID = field_or_empty (hget ''message_id'' (rq_jobs (stamp (now + lease) i (reclaimed now limit r)) i)),
             cr_enqueuedAt = field_or_empty (hget ''enqueued_at'' (rq_jobs (stamp (now + lease) i (reclaimed now limit r)) i)),
             cr_availableAt = field_or_empty (hget ''available_at'' (rq_jobs (stamp (now + lease) i (reclaimed now limit r)) i))\<rparr>,
           stamp (now + lease) i (reclaimed now limit r)))"
  by (simp add: claimScript_def reclaimed_def [symmetric] stamp_def Let_def split: list.splits)

lemma rq_inv_claim:
  assumes inv: "rq_inv r" and run: "claimScript now lease limit r = (f, r')"
  shows "rq_inv r'" "dom (rq_jobs r') = dom (rq_jobs r)"
proof -
  let ?m = "reclaimed now limit r"
  consider "r' = ?m" | i where "i \<in> zkeys (rq_available ?m)" "r' = stamp (now + lease) i ?m"
  proof (cases "zrange_by_score now 1 (rq_available ?m)")
    case Nil
    then show thesis using run that(1) by (simp add: claimScript_cases)
  next
    case (Cons i rest)
    then have "i \<in> zkeys (rq_available ?m)"
      using zrange_by_score_sub [of i now 1 "rq_available ?m"] by simp
    then show thesis using run that(2) Cons by (simp add: claimScript_cases)
  qed
  then have "rq_inv r' \<and> dom (rq_jobs r') = dom (rq_jobs r)"
  proof cases
    case 1
    then show ?thesis using reclaimed_facts [OF inv] by simp
  next
    case 2
    then have "i \<in> dom (rq_jobs ?m)"
      using reclaimed_facts(1) [OF inv, of now limit] by (auto simp: rq_inv_def rq_sets_def)
    then have "dom (rq_jobs r') = dom (rq_jobs ?m)" using 2 by (auto simp: stamp_def hset_def)
    then show ?thesis using 2 rq_inv_stamp reclaimed_facts [OF inv] by simp
  qed
  then show "rq_inv r'" "dom (rq_jobs r') = dom (rq_jobs r)" by auto
qed

lemma token_guard_owner:
  assumes "rq_inv r" "token_guard i (nat_dec n) r = None"
  shows "i \<in> zkeys (rq_claimed r) \<and> tok_of r i = Some (nat_dec n)"
proof -
  have t: "rq_jobs r i \<noteq> None" "tok_of r i = Some (nat_dec n)" "tok_of r i \<noteq> Some ''0''"
    using assms(2) by (auto simp: token_guard_def Let_def split: if_splits)
  then have "i \<in> dom (rq_jobs r)" by auto
  then show ?thesis using assms(1) t by (auto simp: rq_inv_def rq_sets_def rq_tokens_def)
qed

lemma rq_inv_ack: "rq_inv r \<Longrightarrow> ackScript i (nat_dec n) r = (c, r') \<Longrightarrow> rq_inv r'"
proof (cases "token_guard i (nat_dec n) r")
  case None
  assume inv: "rq_inv r" and run: "ackScript i (nat_dec n) r = (c, r')"
  have i: "i \<in> zkeys (rq_claimed r)" "i \<notin> zkeys (rq_available r)"
    using token_guard_owner [OF inv None] inv by (auto simp: rq_inv_def rq_sets_def)
  have r': "r' = r\<lparr>rq_claimed := zrem i (rq_claimed r), rq_jobs := (rq_jobs r)(i := None)\<rparr>"
    using run None by (simp add: ackScript_def)
  have "rq_sets r'" using inv i by (auto simp: r' rq_inv_def rq_sets_def)
  moreover have "rq_tokens r'"
    by (rule rq_tokensI [of r]) (use inv i in \<open>auto simp: r' rq_inv_def\<close>)
  moreover have "rq_hashes r'"
    by (rule rq_hashesI [where r = r and i = i and h' = None]) (use inv in \<open>auto simp: r' rq_inv_def\<close>)
  ultimately show ?thesis by (simp add: rq_inv_def)
qed (simp add: ackScript_def)

lemma rq_inv_renew: "rq_inv r \<Longrightarrow> renewScript i (nat_dec n) x r = (c, r') \<Longrightarrow> rq_inv r'"
proof (cases "token_guard i (nat_dec n) r")
  case None
  assume inv: "rq_inv r" and run: "renewScript i (nat_dec n) x r = (c, r')"
  have i: "i \<in> zkeys (rq_claimed r)" using token_guard_owner [OF inv None] by simp
  have r': "r' = r\<lparr>rq_claimed := zadd i x (rq_claimed r)\<rparr>"
    using run None by (simp add: renewScript_def)
  have "rq_sets r'" using inv i by (auto simp: r' rq_inv_def rq_sets_def insert_absorb)
  moreover have "rq_tokens r'"
    by (rule rq_tokensI [of r]) (use inv i in \<open>auto simp: r' rq_inv_def insert_absorb\<close>)
  moreover have "rq_hashes r'" using inv by (simp add: r' rq_inv_def rq_hashes_def)
  ultimately show ?thesis by (simp add: rq_inv_def)
qed (simp add: renewScript_def)

lemma rq_inv_release: "rq_inv r \<Longrightarrow> releaseScript i (nat_dec n) x r = (c, r') \<Longrightarrow> rq_inv r'"
proof (cases "token_guard i (nat_dec n) r")
  case None
  assume inv: "rq_inv r" and run: "releaseScript i (nat_dec n) x r = (c, r')"
  have i: "i \<in> zkeys (rq_claimed r)" using token_guard_owner [OF inv None] by simp
  obtain h where h: "rq_jobs r i = Some h" "hash_ok i h" "i \<notin> zkeys (rq_available r)"
    using rq_claimed_hash [OF inv i] by blast
  have r': "r' = r\<lparr>rq_claimed := zrem i (rq_claimed r),
       rq_jobs := (rq_jobs r)(i := hset [(''token'', ''0''), (''available_at'', int_dec x)] (rq_jobs r i)),
       rq_available := zadd i x (rq_available r)\<rparr>"
    using run None by (simp add: releaseScript_def)
  have "rq_sets r'" using inv i by (auto simp: r' rq_inv_def rq_sets_def hset_def)
  moreover have "rq_tokens r'"
    by (rule rq_tokensI [of r]) (use inv i in \<open>auto simp: r' rq_inv_def\<close>)
  moreover have "rq_hashes r'"
    by (rule rq_hashesI [where r = r and i = i])
       (use inv h hset_ok(2) [OF h(2)] in \<open>auto simp: r' rq_inv_def\<close>)
  ultimately show ?thesis by (simp add: rq_inv_def)
qed (simp add: releaseScript_def)

section \<open>The ownership contract\<close>

definition rq_owns :: "redisq \<Rightarrow> string \<Rightarrow> token \<Rightarrow> bool" where
  "rq_owns r i t \<longleftrightarrow> t \<noteq> 0 \<and> tok_of r i = Some (nat_dec (unat t))"

definition rq_active :: "redisq \<Rightarrow> string set" where
  "rq_active r = dom (rq_jobs r)"

definition rq_tokens_left :: "redisq \<Rightarrow> bool" where
  "rq_tokens_left r \<longleftrightarrow> Suc (rq_tokenSeq r) < 10 ^ 14"

lemma token_guard_iff:
  assumes "rq_inv r"
  shows "token_guard i (nat_dec (unat t)) r =
     (if i \<notin> rq_active r then Some (- 1) else if rq_owns r i t then None else Some (- 2))"
proof (cases "i \<in> rq_active r")
  case True
  have "unat t = 0 \<longleftrightarrow> t = 0" by (simp add: unat_eq_zero)
  then have "nat_dec (unat t) = ''0'' \<longleftrightarrow> t = 0" using nat_dec_0 nat_dec_inject by metis
  then show ?thesis
    using True by (auto simp: token_guard_def rq_active_def rq_owns_def Let_def)
next
  case False
  then show ?thesis by (auto simp: token_guard_def rq_active_def)
qed

lemma rq_ack_cases:
  assumes "rq_inv r"
  shows "rq_Ack False True i t r =
     (if i \<notin> rq_active r then (Some ErrUnknownJob, r)
      else if rq_owns r i t then
        (None, r\<lparr>rq_claimed := zrem i (rq_claimed r), rq_jobs := (rq_jobs r)(i := None)\<rparr>)
      else (Some ErrJobNotClaimed, r))"
  by (simp add: rq_Ack_def ackScript_def script_error_def token_guard_iff [OF assms])

lemma rq_renew_cases:
  assumes "rq_inv r"
  shows "rq_Renew cfg False True now i t r =
     (if i \<notin> rq_active r then (Some ErrUnknownJob, r)
      else if rq_owns r i t then
        (None, r\<lparr>rq_claimed := zadd i (UnixMilli (now + rc_ClaimLease cfg)) (rq_claimed r)\<rparr>)
      else (Some ErrJobNotClaimed, r))"
  by (simp add: rq_Renew_def renewScript_def script_error_def token_guard_iff [OF assms])

lemma rq_release_cases:
  assumes "rq_inv r"
  shows "rq_Release False True i t av r =
     (if i \<notin> rq_active r then (Some ErrUnknownJob, r)
      else if rq_owns r i t then
        (None, r\<lparr>rq_claimed := zrem i (rq_claimed r),
          rq_jobs := (rq_jobs r)(i := hset [(''token'', ''0''), (''available_at'', int_dec (UnixMilli av))] (rq_jobs r i)),
          rq_available := zadd i (UnixMilli av) (rq_available r)\<rparr>)
      else (Some ErrJobNotClaimed, r))"
  by (simp add: rq_Release_def releaseScript_def script_error_def token_guard_iff [OF assms])

lemma ParseUint64_nat_dec: "n < 2 ^ 64 \<Longrightarrow> ParseUint64 (nat_dec n) = Some n"
  by (simp add: ParseUint64_def nat_dec_digits)

lemma rq_Claim_elim:
  assumes "rq_inv r" "rq_tokens_left r" "rq_Claim cfg False True now r = (Done (Inr c), r')"
  obtains i where "i \<in> zkeys (rq_available (reclaimed (UnixMilli now) reclaimBatchLimit r))"
    "r' = stamp (UnixMilli now + quot_trunc (rc_ClaimLease cfg) 1000000) i
            (reclaimed (UnixMilli now) reclaimBatchLimit r)"
    "job_ID (cl_Job c) = i" "unat (cl_Token c) = Suc (rq_tokenSeq r)"
proof -
  let ?m = "reclaimed (UnixMilli now) reclaimBatchLimit r"
  have seq: "rq_tokenSeq ?m = rq_tokenSeq r" using reclaimed_facts [OF assms(1)] by simp
  have small: "Suc (rq_tokenSeq r) < 2 ^ 64" using assms(2) by (simp add: rq_tokens_left_def)
  then have "unat (of_nat (Suc (rq_tokenSeq r)) :: token) = Suc (rq_tokenSeq r)"
    by (simp add: unat_of_nat del: of_nat_Suc)
  then show ?thesis
    using assms(2,3) zrange_by_score_sub [of _ "UnixMilli now" 1 "rq_available ?m"]
    by (cases "zrange_by_score (UnixMilli now) 1 (rq_available ?m)")
       (auto simp: rq_Claim_def claimScript_cases seq parseClaim_def lua_tostring_def rq_tokens_left_def
          ParseUint64_nat_dec [OF small] split: option.splits intro!: that)
qed

lemma rq_claim_contract:
  assumes "rq_inv r" "rq_tokens_left r" "rq_Claim cfg False True now r = (Done (Inr c), r')"
  shows "rq_inv r' \<and> rq_active r' = rq_active r \<and> rq_owns r' (job_ID (cl_Job c)) (cl_Token c)"
proof -
  let ?m = "reclaimed (UnixMilli now) reclaimBatchLimit r"
  from rq_Claim_elim [OF assms] obtain i where
    i: "i \<in> zkeys (rq_available ?m)" "r' = stamp (UnixMilli now + quot_trunc (rc_ClaimLease cfg) 1000000) i ?m"
      "job_ID (cl_Job c) = i" "unat (cl_Token c) = Suc (rq_tokenSeq r)" .
  have "rq_inv r'" using i rq_inv_stamp reclaimed_facts(1) [OF assms(1)] by simp
  moreover have "i \<in> dom (rq_jobs ?m)"
    using i(1) reclaimed_facts(1) [OF assms(1), of "UnixMilli now" reclaimBatchLimit]
    by (auto simp: rq_inv_def rq_sets_def)
  then have "rq_active r' = rq_active r"
    using i(2) reclaimed_facts(3) [OF assms(1)] by (auto simp: rq_active_def stamp_def hset_def)
  moreover have "cl_Token c \<noteq> 0" using i(4) by (metis nat.distinct(1) unat_0)
  then have "rq_owns r' (job_ID (cl_Job c)) (cl_Token c)"
    using i reclaimed_facts(2) [OF assms(1)] by (simp add: rq_owns_def stamp_def)
  ultimately show ?thesis by simp
qed

lemma rq_owns_claimed:
  assumes "rq_inv r" "rq_owns r i t"
  shows "i \<in> zkeys (rq_claimed r) \<and> unat t \<le> rq_tokenSeq r"
proof -
  have "i \<in> rq_active r" using assms(2) by (auto simp: rq_owns_def rq_active_def hget_def split: option.splits)
  then have "token_guard i (nat_dec (unat t)) r = None" using token_guard_iff [OF assms(1)] assms(2) by simp
  then have "i \<in> zkeys (rq_claimed r)" "tok_of r i = Some (nat_dec (unat t))"
    using token_guard_owner [OF assms(1)] by auto
  then show ?thesis using assms(1) by (fastforce simp: rq_inv_def rq_tokens_def issued_def)
qed

lemma rq_claim_token_fresh:
  assumes "rq_inv r" "rq_tokens_left r" "rq_Claim cfg False True now r = (Done (Inr c), r')"
  shows "\<not> rq_owns r i (cl_Token c)"
  using rq_Claim_elim [OF assms] rq_owns_claimed [OF assms(1), of i "cl_Token c"] by (metis Suc_n_not_le_n)

interpretation rq: claim_ownership rq_inv rq_tokens_left rq_active rq_owns "rq_Claim cfg False True"
  "rq_Ack False True" "rq_Renew cfg False True" "rq_Release False True" for cfg
proof (unfold_locales, goal_cases)
  case (1 q i t)
  then show ?case by (auto simp: rq_owns_def rq_active_def hget_def split: option.splits)
next
  case (2 q i t t')
  then show ?case by (auto simp: rq_owns_def word_unat_eq_iff)
next
  case (3 q now c q')
  then show ?case by (rule rq_claim_contract)
next
  case (4 q now c q' i)
  then show ?case by (rule rq_claim_token_fresh)
next
  case (5 q i t)
  then have "i \<in> rq_active q" by (auto simp: rq_owns_def rq_active_def hget_def split: option.splits)
  then show ?case using 5 rq_inv_ack [of q i "unat t"] rq_ack_cases [OF 5(1), of i t]
    by (auto simp: rq_active_def rq_owns_def hget_def ackScript_def token_guard_iff [OF 5(1)])
next
  case (8 q i t now)
  then have i: "i \<in> rq_active q" by (auto simp: rq_owns_def rq_active_def hget_def split: option.splits)
  then show ?case using 8 rq_inv_renew [of q i "unat t"] rq_renew_cases [OF 8(1), of cfg now i t]
    by (auto simp: rq_active_def rq_owns_def hget_def renewScript_def token_guard_iff [OF 8(1)])
next
  case (11 q i t av)
  then have i: "i \<in> rq_active q" by (auto simp: rq_owns_def rq_active_def hget_def split: option.splits)
  have "rq_inv (snd (releaseScript i (nat_dec (unat t)) (UnixMilli av) q))"
    using rq_inv_release [OF 11(1)] by (metis prod.collapse)
  then show ?case using 11 i rq_release_cases [OF 11(1), of i t av] nat_dec_0 nat_dec_inject
    by (auto simp: rq_active_def rq_owns_def releaseScript_def token_guard_iff [OF 11(1)] unat_eq_zero)
qed (auto simp: rq_ack_cases rq_renew_cases rq_release_cases)

section \<open>Depth, order and recovery\<close>

lemma rq_Depth_active:
  assumes "rq_inv r"
  shows "rq_Depth r = int (card (rq_active r))" "finite (rq_active r)"
proof -
  have "card (zkeys (rq_available r)) = length (rq_available r)"
    and "card (zkeys (rq_claimed r)) = length (rq_claimed r)"
    using assms distinct_card [of "map fst (rq_available r)"] distinct_card [of "map fst (rq_claimed r)"]
    by (simp_all add: zkeys_def rq_inv_def rq_sets_def)
  moreover have "rq_active r = zkeys (rq_available r) \<union> zkeys (rq_claimed r)"
    and "zkeys (rq_available r) \<inter> zkeys (rq_claimed r) = {}"
    and "finite (zkeys (rq_available r))" "finite (zkeys (rq_claimed r))"
    using assms by (auto simp: rq_active_def rq_inv_def rq_sets_def zkeys_def)
  ultimately show "rq_Depth r = int (card (rq_active r))" "finite (rq_active r)"
    by (simp_all add: rq_Depth_def card_Un_disjoint)
qed

lemma sort_key_take1:
  assumes "take 1 (filter P (sort_key f xs)) = [x]"
  shows "x \<in> set xs \<and> P x \<and> (\<forall>y\<in>set xs. P y \<longrightarrow> f x \<le> f y)"
proof -
  have "filter P (sort_key f xs) \<noteq> []" using assms by auto
  then obtain ys where ys: "filter P (sort_key f xs) = x # ys"
    using assms by (cases "filter P (sort_key f xs)") auto
  have "sorted (map f (filter P (sort_key f xs)))"
    by (metis sorted_sort_key sorted_filter)
  then have "\<forall>y\<in>set ys. f x \<le> f y" unfolding ys by auto
  moreover have "set (x # ys) = {y \<in> set xs. P y}" unfolding ys [symmetric] by auto
  ultimately show ?thesis by auto
qed

lemma zrange_first:
  assumes "zrange_by_score hi 1 z = i # rest"
  shows "\<exists>v. (i, v) \<in> set z \<and> v \<le> hi \<and> (\<forall>(k, u)\<in>set z. u \<le> hi \<longrightarrow> (v, i) \<le> (u, k))"
proof -
  let ?f = "\<lambda>(k, s). (s, k)" and ?P = "\<lambda>(k, s). s \<le> hi"
  have "map fst (take 1 (filter ?P (sort_key ?f z))) = i # rest"
    using assms by (simp add: zrange_by_score_def zrange_def take_map)
  then obtain v where "take 1 (filter ?P (sort_key ?f z)) = [(i, v)]"
    by (cases "filter ?P (sort_key ?f z)") auto
  then have m: "(i, v) \<in> set z" "v \<le> hi" "\<forall>y\<in>set z. ?P y \<longrightarrow> ?f (i, v) \<le> ?f y"
    using sort_key_take1 [of ?P ?f z "(i, v)"] by auto
  show ?thesis by (intro exI [of _ v]) (use m in fastforce)
qed

text \<open>A score at or below \<open>hi\<close> is among the reported ones when the limit does not cut it off.\<close>

lemma zrange_by_score_complete:
  assumes "(i, v) \<in> set z" "v \<le> hi" "length (filter (\<lambda>(k, s). s \<le> hi) z) \<le> limit"
  shows "i \<in> set (zrange_by_score hi limit z)"
proof -
  let ?P = "\<lambda>(k, s). s \<le> hi"
  have "length (filter ?P (zrange z)) = length (filter ?P z)"
    unfolding zrange_def by (metis mset_filter mset_sort size_mset)
  then have "zrange_by_score hi limit z = map fst (filter ?P (zrange z))"
    using assms(3) by (simp add: zrange_by_score_def)
  moreover have "(i, v) \<in> set (filter ?P (zrange z))" using assms(1,2) by (simp add: zrange_def)
  ultimately show ?thesis by force
qed

lemma reclaim_fold_available:
  "i \<in> set is \<or> i \<in> zkeys (rq_available r) \<Longrightarrow>
     i \<in> zkeys (rq_available (fold (reclaim_one now) is r))"
  by (induction "is" arbitrary: r) (auto simp: reclaim_one_def)

text \<open>Every expired lease is recovered by the next claim, up to the batch limit.\<close>

lemma reclaimed_available:
  assumes "(i, v) \<in> set (rq_claimed r)" "v \<le> now"
    and "length (filter (\<lambda>(k, s). s \<le> now) (rq_claimed r)) \<le> limit"
  shows "i \<in> zkeys (rq_available (reclaimed now limit r))"
  using reclaim_fold_available [of i] zrange_by_score_complete [OF assms] by (simp add: reclaimed_def)

section \<open>All interleavings\<close>

text \<open>
  Any number of processes with the same capacity share the keyspace; each script is atomic, so
  a step is one Go call, with any context, connection state and result.
\<close>

inductive rq_step :: "redisConfig \<Rightarrow> redisq \<Rightarrow> redisq \<Rightarrow> bool" for cfg where
  enqueue: "rq_Enqueue cfg cl up now j r = (x, r') \<Longrightarrow> rq_step cfg r r'"
| claim: "rq_Claim cfg cl up now r = (y, r') \<Longrightarrow> rq_step cfg r r'"
| ack: "rq_Ack b up i t r = (e, r') \<Longrightarrow> rq_step cfg r r'"
| renew: "rq_Renew cfg b up now i t r = (e, r') \<Longrightarrow> rq_step cfg r r'"
| release: "rq_Release b up i t av r = (e, r') \<Longrightarrow> rq_step cfg r r'"

inductive_cases rq_stepE: "rq_step cfg r r'"

text \<open>What each call does to the invariant and to the set of active jobs.\<close>

lemma rq_Enqueue_effect:
  assumes inv: "rq_inv r" and run: "rq_Enqueue cfg cl up now j r = (x, r')"
  shows "rq_inv r' \<and> (r' = r \<or> rq_active r' = insert (job_ID j) (rq_active r) \<and>
           job_ID j \<notin> rq_active r \<and> rq_Depth r < rc_Capacity cfg)"
proof (cases "r' = r")
  case False
  let ?n = "normalize_times now j"
  let ?run = "enqueueScript (job_ID j) (job_MessageID j) (UnixMilli (job_EnqueuedAt ?n))
      (UnixMilli (job_AvailableAt ?n)) (rc_Capacity cfg) r"
  obtain c where c: "?run = (c, r')"
    using run False by (auto simp: rq_Enqueue_def Let_def split: option.splits if_splits prod.splits)
  then show ?thesis
    using rq_inv_enqueue [OF inv c] False
    by (auto simp: enqueueScript_def rq_active_def rq_Depth_def hset_def split: if_splits)
qed (use inv in simp)

lemma rq_Claim_effect:
  assumes inv: "rq_inv r" and run: "rq_Claim cfg cl up now r = (y, r')"
  shows "rq_inv r' \<and> rq_active r' = rq_active r"
proof (cases "r' = r")
  case False
  then obtain f where "claimScript (UnixMilli now) (quot_trunc (rc_ClaimLease cfg) 1000000) reclaimBatchLimit r = (f, r')"
    using run by (auto simp: rq_Claim_def split: if_splits prod.splits option.splits)
  then show ?thesis using rq_inv_claim [OF inv] by (simp add: rq_active_def)
qed (use inv in simp)

lemma rq_Ack_effect:
  assumes inv: "rq_inv r" and run: "rq_Ack b up i t r = (e, r')"
  shows "rq_inv r' \<and> (r' = r \<or> rq_active r' = rq_active r - {i} \<and> rq_owns r i t)"
proof (cases "b \<or> \<not> up \<or> \<not> rq_owns r i t")
  case True
  then have "r' = r"
    using run rq_ack_cases [OF inv, of i t] by (auto simp: rq_Ack_def split: if_splits)
  then show ?thesis using inv by simp
next
  case False
  then show ?thesis using rq.ack_owner [OF inv, of i t] run by auto
qed

lemma rq_Renew_effect:
  assumes inv: "rq_inv r" and run: "rq_Renew cfg b up now i t r = (e, r')"
  shows "rq_inv r' \<and> rq_active r' = rq_active r"
proof (cases "b \<or> \<not> up \<or> \<not> rq_owns r i t")
  case True
  then have "r' = r"
    using run rq_renew_cases [OF inv, of cfg now i t] by (auto simp: rq_Renew_def split: if_splits)
  then show ?thesis using inv by simp
next
  case False
  then show ?thesis using rq.renew_owner [OF inv, of i t cfg now] run by auto
qed

lemma rq_Release_effect:
  assumes inv: "rq_inv r" and run: "rq_Release b up i t av r = (e, r')"
  shows "rq_inv r' \<and> rq_active r' = rq_active r"
proof (cases "b \<or> \<not> up \<or> \<not> rq_owns r i t")
  case True
  then have "r' = r"
    using run rq_release_cases [OF inv, of i t av] by (auto simp: rq_Release_def split: if_splits)
  then show ?thesis using inv by simp
next
  case False
  then show ?thesis using rq.release_owner [OF inv, of i t av] run by auto
qed

definition rq_bounded :: "redisConfig \<Rightarrow> redisq \<Rightarrow> bool" where
  "rq_bounded cfg r \<longleftrightarrow> rq_inv r \<and> rq_Depth r \<le> rc_Capacity cfg"

lemma rq_bounded_active:
  assumes "rq_bounded cfg r" "rq_inv r'" "rq_active r' \<subseteq> rq_active r"
  shows "rq_bounded cfg r'"
proof -
  have r: "rq_inv r" using assms(1) by (simp add: rq_bounded_def)
  have "card (rq_active r') \<le> card (rq_active r)"
    using rq_Depth_active(2) [OF r] assms(3) by (intro card_mono)
  then show ?thesis
    using assms(1,2) rq_Depth_active(1) [OF r] rq_Depth_active(1) [OF assms(2)]
    by (simp add: rq_bounded_def)
qed

lemma rq_step_bounded:
  assumes "rq_bounded cfg r" "rq_step cfg r r'"
  shows "rq_bounded cfg r'"
proof -
  have inv: "rq_inv r" using assms(1) by (simp add: rq_bounded_def)
  show ?thesis
    using assms(2)
  proof (cases rule: rq_step.cases)
    case (enqueue cl up now j x)
    from rq_Enqueue_effect [OF inv enqueue] show ?thesis
    proof (elim conjE disjE)
      assume e: "rq_inv r'" "rq_active r' = insert (job_ID j) (rq_active r)" "job_ID j \<notin> rq_active r"
        "rq_Depth r < rc_Capacity cfg"
      then have "card (rq_active r') = Suc (card (rq_active r))" using rq_Depth_active(2) [OF inv] by simp
      then show ?thesis
        using e rq_Depth_active(1) [OF inv] rq_Depth_active(1) [OF e(1)] by (simp add: rq_bounded_def)
    qed (use assms(1) in simp)
  next
    case (claim cl up now y)
    then show ?thesis using rq_Claim_effect [OF inv claim] rq_bounded_active [OF assms(1)] by auto
  next
    case (ack b up i t e)
    then show ?thesis using rq_Ack_effect [OF inv ack] rq_bounded_active [OF assms(1)] by auto
  next
    case (renew b up now i t e)
    then show ?thesis using rq_Renew_effect [OF inv renew] rq_bounded_active [OF assms(1)] by auto
  next
    case (release b up i t av e)
    then show ?thesis using rq_Release_effect [OF inv release] rq_bounded_active [OF assms(1)] by auto
  qed
qed

interpretation rq_sys: invariant_system "\<lambda>r. r = rq_empty \<and> 0 < rc_Capacity cfg" "rq_step cfg" "rq_bounded cfg" for cfg
proof
  show "rq_bounded cfg r" if "r = rq_empty \<and> 0 < rc_Capacity cfg" for r
    using that rq_empty_inv by (simp add: rq_bounded_def rq_Depth_def)
qed (rule rq_step_bounded)


section \<open>What the queue guarantees\<close>

abbreviation rq_reach :: "redisConfig \<Rightarrow> redisq \<Rightarrow> bool" where
  "rq_reach cfg \<equiv> reachable (\<lambda>r. r = rq_empty \<and> 0 < rc_Capacity cfg) (rq_step cfg)"

lemma rq_reach_inv: "rq_reach cfg r \<Longrightarrow> rq_inv r" and rq_reach_depth: "rq_reach cfg r \<Longrightarrow> rq_Depth r \<le> rc_Capacity cfg"
  using rq_sys.inv_reachable [of cfg r] by (auto simp: rq_bounded_def)

text \<open>
  (C3) Whatever the processes that share the keyspace do, the depth stays within the capacity,
  every job hash is a member of exactly one of the two sorted sets and no set has a member
  without a hash, a waiting job carries the token 0, and claimed jobs carry distinct tokens.
\<close>

theorem rq_reachable_safe:
  assumes "rq_reach cfg r"
  shows "rq_Depth r \<le> rc_Capacity cfg \<and>
    zkeys (rq_available r) \<inter> zkeys (rq_claimed r) = {} \<and>
    dom (rq_jobs r) = zkeys (rq_available r) \<union> zkeys (rq_claimed r) \<and>
    (\<forall>i\<in>zkeys (rq_available r). tok_of r i = Some ''0'') \<and>
    (\<forall>i\<in>zkeys (rq_claimed r). \<exists>n. tok_of r i = Some (nat_dec n) \<and> 0 < n \<and> n \<le> rq_tokenSeq r) \<and>
    inj_on (tok_of r) (zkeys (rq_claimed r))"
  using rq_reach_inv [OF assms] rq_reach_depth [OF assms]
  unfolding rq_inv_def rq_sets_def rq_tokens_def issued_def by blast

definition rq_demo_cfg :: redisConfig where
  "rq_demo_cfg = \<lparr>rc_Addr = ''redis:6379'', rc_Namespace = ''prod'', rc_Capacity = 2,
     rc_ClaimLease = 10 * millisecond, rc_PollInterval = 200 * millisecond\<rparr>"

definition rq_demo_job :: "string \<Rightarrow> job" where
  "rq_demo_job i = \<lparr>job_ID = i, job_MessageID = ''m'', job_EnqueuedAt = 5000000, job_AvailableAt = 7000000\<rparr>"

text \<open>Enqueued, claimed at 9 ms, and claimed again after the lease of ten milliseconds ran out.\<close>

definition rq_demo1 :: redisq where
  "rq_demo1 = snd (rq_Enqueue rq_demo_cfg False True 5000000 (rq_demo_job ''a'') rq_empty)"

definition rq_demo2 :: redisq where
  "rq_demo2 = snd (rq_Claim rq_demo_cfg False True 9000000 rq_demo1)"

lemma rq_demo_reach: "rq_reach rq_demo_cfg rq_demo1" "rq_reach rq_demo_cfg rq_demo2"
proof -
  have "rq_reach rq_demo_cfg rq_empty" by (rule reachable.reach_init) (simp add: rq_demo_cfg_def)
  moreover have "rq_step rq_demo_cfg rq_empty rq_demo1" unfolding rq_demo1_def
    by (rule rq_step.enqueue [OF prod.collapse [symmetric]])
  ultimately show r1: "rq_reach rq_demo_cfg rq_demo1" by (rule reachable.reach_step)
  have "rq_step rq_demo_cfg rq_demo1 rq_demo2" unfolding rq_demo2_def
    by (rule rq_step.claim [OF prod.collapse [symmetric]])
  with r1 show "rq_reach rq_demo_cfg rq_demo2" by (rule reachable.reach_step)
qed

theorem rq_reachable_safe_witness:
  "rq_Depth rq_demo2 \<le> 2 \<and> zkeys (rq_available rq_demo2) \<inter> zkeys (rq_claimed rq_demo2) = {}"
  using rq_reachable_safe [OF rq_demo_reach(2)] by (simp add: rq_demo_cfg_def)

text \<open>
  (C4) A worker whose lease expired cannot interfere with the worker that took the job over:
  once the job is claimed again, acknowledging, renewing and releasing with the old token all
  fail with \<^verbatim>\<open>ErrJobNotClaimed\<close> and leave the queue as it is, while the new owner's Ack
  succeeds and removes just that job.
\<close>

theorem rq_stale_owner_fenced:
  assumes "rq_reach cfg r" "rq_tokens_left r" "rq_owns r i t"
    and "rq_Claim cfg False True now r = (Done (Inr c), r1)" and "job_ID (cl_Job c) = i"
  shows "rq_Ack False True i t r1 = (Some ErrJobNotClaimed, r1) \<and>
    rq_Renew cfg False True now' i t r1 = (Some ErrJobNotClaimed, r1) \<and>
    rq_Release False True i t av r1 = (Some ErrJobNotClaimed, r1) \<and>
    (\<exists>r2. rq_Ack False True i (cl_Token c) r1 = (None, r2) \<and> rq_active r2 = rq_active r - {i})"
proof -
  have inv: "rq_inv r" using assms(1) by (rule rq_reach_inv)
  note revoke = rq.claim_revokes [OF inv assms(2,4,3) assms(5) [symmetric]]
  from rq.claim_then_ack [OF inv assms(2,4)] assms(5) revoke show ?thesis by auto
qed

definition rq_demo3 :: redisq where
  "rq_demo3 = snd (rq_Claim rq_demo_cfg False True 19000000 rq_demo2)"

definition rq_demo_claim :: claim where
  "rq_demo_claim = \<lparr>cl_Job = (rq_demo_job ''a'')\<lparr>job_AvailableAt := 19000000\<rparr>, cl_Token = 2\<rparr>"

definition rq_demo_hash :: "string \<Rightarrow> string \<Rightarrow> hash" where
  "rq_demo_hash tok av = [''id'' \<mapsto> ''a'', ''message_id'' \<mapsto> ''m'', ''enqueued_at'' \<mapsto> ''5'',
     ''available_at'' \<mapsto> av, ''token'' \<mapsto> tok]"

lemma rq_demo_dec:
  "int_dec 5 = ''5''" "int_dec 7 = ''7''" "int_dec 19 = ''19''" "nat_dec 1 = ''1''" "nat_dec 2 = ''2''"
  "nat_dec (Suc 0) = ''1''" "dec_val ''5'' = 5" "dec_val ''2'' = 2" "dec_val ''1'' = 1" "dec_val ''7'' = 7"
  "dec_val ''19'' = 19"
  by code_simp+

lemma rq_demo1_val:
  "rq_demo1 = \<lparr>rq_available = [(''a'', 7)], rq_claimed = [],
     rq_jobs = [''a'' \<mapsto> rq_demo_hash ''0'' ''7''], rq_tokenSeq = 0\<rparr>"
proof -
  have "job_validate (rq_demo_job ''a'') = None" by code_simp
  moreover have "normalize_times 5000000 (rq_demo_job ''a'') = rq_demo_job ''a''"
    by (simp add: rq_demo_job_def normalize_times_def zero_time_def)
  ultimately show ?thesis
    by (simp add: rq_demo1_def rq_Enqueue_def enqueueScript_def rq_demo_cfg_def rq_demo_job_def hset_def
        UnixMilli_def rq_demo_dec zadd_def zrem_def rq_demo_hash_def)
qed

lemma rq_demo2_val:
  "rq_demo2 = \<lparr>rq_available = [], rq_claimed = [(''a'', 19)],
     rq_jobs = [''a'' \<mapsto> rq_demo_hash ''1'' ''7''], rq_tokenSeq = 1\<rparr>"
  by (simp add: rq_demo2_def rq_Claim_def claimScript_def rq_demo1_val zrange_by_score_def zrange_def
      UnixMilli_def quot_trunc_def rq_demo_cfg_def hset_def rq_demo_dec zadd_def zrem_def rq_demo_hash_def
      reclaimBatchLimit_def Let_def)

lemma rq_demo_owner: "rq_owns rq_demo2 ''a'' 1" "rq_tokens_left rq_demo2"
  by (simp_all add: rq_owns_def rq_tokens_left_def rq_demo2_val hget_def rq_demo_dec rq_demo_hash_def)

lemma rq_demo_reclaim:
  "rq_Claim rq_demo_cfg False True 19000000 rq_demo2 = (Done (Inr rq_demo_claim), rq_demo3)"
proof -
  have "fst (rq_Claim rq_demo_cfg False True 19000000 rq_demo2) = Done (Inr rq_demo_claim)"
    by (simp add: rq_Claim_def claimScript_def rq_demo2_val zrange_by_score_def zrange_def reclaim_one_def
      UnixMilli_def quot_trunc_def rq_demo_cfg_def hset_def rq_demo_dec zadd_def zrem_def rq_demo_hash_def
      reclaimBatchLimit_def parseClaim_def lua_tostring_def ParseUint64_def ParseInt64_def hget_def
      field_or_empty_def rq_demo_claim_def rq_demo_job_def fromMillis_def HasPrefix_def is_digit_def numeral_2_eq_2 [symmetric] Let_def)
  then show ?thesis by (metis prod.collapse rq_demo3_def)
qed

theorem rq_stale_owner_fenced_witness:
  "rq_Ack False True ''a'' 1 rq_demo3 = (Some ErrJobNotClaimed, rq_demo3) \<and>
   (\<exists>r2. rq_Ack False True ''a'' 2 rq_demo3 = (None, r2))"
proof -
  have "job_ID (cl_Job rq_demo_claim) = ''a''" "cl_Token rq_demo_claim = 2"
    by (simp_all add: rq_demo_claim_def rq_demo_job_def)
  then show ?thesis
    using rq_stale_owner_fenced [OF rq_demo_reach(2) rq_demo_owner(2,1) rq_demo_reclaim, of 0 0] by auto
qed

lemma rq_Claim_cases:
  assumes "rq_Claim cfg False True now r = (y, r')"
  shows "y = Block \<and> r' = reclaimed (UnixMilli now) reclaimBatchLimit r \<or>
    (\<exists>i f. r' = stamp (UnixMilli now + quot_trunc (rc_ClaimLease cfg) 1000000) i
              (reclaimed (UnixMilli now) reclaimBatchLimit r) \<and>
           zrange_by_score (UnixMilli now) 1 (rq_available (reclaimed (UnixMilli now) reclaimBatchLimit r)) = [i] \<and>
           y = Done (parseClaim f) \<and> cr_id f = i)"
proof -
  have one: "xs = a # ys \<Longrightarrow> length xs \<le> 1 \<Longrightarrow> ys = []" for a :: string and xs ys by auto
  have "length (zrange_by_score hi 1 z) \<le> 1" for hi z by (simp add: zrange_by_score_def)
  then show ?thesis
    using assms one by (fastforce simp: rq_Claim_def claimScript_cases split: list.splits)
qed



text \<open>
  After expired leases were taken back, \<^verbatim>\<open>Claim\<close> hands out the job with the least
  availability time (ties by identifier) among the due ones, never one that is not due, and
  gives it a lease that ends a lease duration later.
\<close>

theorem rq_claim_earliest:
  assumes "rq_reach cfg r" "rq_tokens_left r" and run: "rq_Claim cfg False True now r = (Done (Inr c), r')"
  shows "\<exists>v. (job_ID (cl_Job c), v) \<in> set (rq_available (reclaimed (UnixMilli now) reclaimBatchLimit r)) \<and>
    v \<le> UnixMilli now \<and>
    (\<forall>(k, u)\<in>set (rq_available (reclaimed (UnixMilli now) reclaimBatchLimit r)).
       u \<le> UnixMilli now \<longrightarrow> (v, job_ID (cl_Job c)) \<le> (u, k)) \<and>
    (job_ID (cl_Job c), UnixMilli now + quot_trunc (rc_ClaimLease cfg) 1000000) \<in> set (rq_claimed r') \<and>
    job_ID (cl_Job c) \<notin> zkeys (rq_available r')"
proof -
  from rq_Claim_cases [OF run] obtain i f where
    r': "r' = stamp (UnixMilli now + quot_trunc (rc_ClaimLease cfg) 1000000) i
           (reclaimed (UnixMilli now) reclaimBatchLimit r)" and
    first: "zrange_by_score (UnixMilli now) 1 (rq_available (reclaimed (UnixMilli now) reclaimBatchLimit r)) = [i]" and
    f: "parseClaim f = Inr c" "cr_id f = i" by auto
  have "job_ID (cl_Job c) = i" using f by (auto simp: parseClaim_def split: option.splits)
  then show ?thesis using zrange_first [OF first] by (auto simp: r' stamp_def zadd_def)
qed

theorem rq_claim_earliest_witness: "(''a'', 29) \<in> set (rq_claimed rq_demo3)"
  using rq_claim_earliest [OF rq_demo_reach(2) rq_demo_owner(2) rq_demo_reclaim]
  by (auto simp: rq_demo_claim_def rq_demo_job_def rq_demo_cfg_def UnixMilli_def quot_trunc_def)

definition rk_all :: "redisKeys \<Rightarrow> string set" where
  "rk_all k = {rk_available k, rk_claimed k, rk_tokenSeq k} \<union> range (rk_job k)"

lemma ns_no_colon: "validNamespace ns \<Longrightarrow> CHR '':'' \<notin> set ns"
  by (auto simp: validNamespace_def ns_char_def list_all_iff go_str)

lemma split_at_colon:
  assumes "a @ CHR '':'' # x = b @ CHR '':'' # y" "CHR '':'' \<notin> set a" "CHR '':'' \<notin> set b"
  shows "a = b"
  using assms by (induction a arbitrary: b) (auto simp: append_eq_Cons_conv Cons_eq_append_conv)

text \<open>
  Queues of different namespaces share no key: two valid namespaces that differ give keys
  that all differ, whatever the job identifiers are.
\<close>

theorem namespaces_disjoint:
  assumes "validNamespace ns" "validNamespace ns'" "ns \<noteq> ns'"
  shows "rk_all (newRedisKeys ns) \<inter> rk_all (newRedisKeys ns') = {}"
proof -
  have shape: "k \<in> rk_all (newRedisKeys n) \<Longrightarrow> \<exists>x. k = ''mailx:queue:'' @ n @ CHR '':'' # x" for k n
    by (auto simp: rk_all_def newRedisKeys_def rk_job_def Let_def)
  show ?thesis
  proof (rule ccontr)
    assume "rk_all (newRedisKeys ns) \<inter> rk_all (newRedisKeys ns') \<noteq> {}"
    then obtain x y where "''mailx:queue:'' @ ns @ CHR '':'' # x = ''mailx:queue:'' @ ns' @ CHR '':'' # y"
      using shape by blast
    then show False using split_at_colon ns_no_colon assms by (metis same_append_eq)
  qed
qed

theorem namespaces_disjoint_witness: "rk_all (newRedisKeys ''prod'') \<inter> rk_all (newRedisKeys ''dev'') = {}"
  by (rule namespaces_disjoint; code_simp)

end
