(* ===== verification/DNS.thy ===== *)
theory DNS
  imports Prelude
begin

text \<open>
  MX discovery of \<^verbatim>\<open>internal/dns\<close> (\<^verbatim>\<open>mx.go\<close>, \<^verbatim>\<open>errors.go\<close>, \<^verbatim>\<open>resolver.go\<close>): domain
  normalization, Null MX, the implicit-MX fallback, and the ordered, duplicate-free, bounded
  candidate list. The system resolver is not part of the repository: it is the record
  \<open>dns_lookup\<close> of two functions.
\<close>

record mx =
  mx_Host :: string
  mx_Preference :: "16 word"

text \<open>A record as the resolver returns it (\<^verbatim>\<open>net.MX\<close>).\<close>

record netmx =
  nm_Host :: string
  nm_Pref :: "16 word"

text \<open>
  An error of the resolver, by what the code asks of it: whether a \<^verbatim>\<open>net.DNSError\<close> is in its
  chain, with which flags, and whether it is a cancellation or an expired deadline.
\<close>

record neterr =
  ne_isDNS :: bool
  ne_IsNotFound :: bool
  ne_IsTimeout :: bool
  ne_IsTemporary :: bool
  ne_isCtx :: bool

record dns_lookup =
  lk_MX :: "string \<Rightarrow> netmx list \<times> neterr option"
  lk_Host :: "string \<Rightarrow> string list \<times> neterr option"

datatype dns_kind =
  DNSInvalidDomain | DNSNotFound | DNSNullMX | DNSTemporary | DNSResolverFailure

record lookup_error =
  le_Domain :: string
  le_Kind :: dns_kind

section \<open>Records\<close>

definition canonicalHost :: "unicode \<Rightarrow> string \<Rightarrow> string" where
  "canonicalHost U host = ToLower U (TrimSuffix (TrimSpace host) ''.'')"

definition isNullMXRecord :: "netmx \<Rightarrow> bool" where
  "isNullMXRecord r \<longleftrightarrow>
     nm_Pref r = 0 \<and> (TrimSpace (nm_Host r) = ''.'' \<or> TrimSpace (nm_Host r) = '''')"

definition hostSafe :: "string \<Rightarrow> bool" where
  "hostSafe host \<longleftrightarrow>
     host \<noteq> [] \<and> \<not> ContainsAny host [CHR 0x0D, CHR 0x0A, CHR 0x00, CHR 0x20, CHR 0x09]"

fun dedup_seen :: "mx set \<Rightarrow> mx list \<Rightarrow> mx list" where
  "dedup_seen seen [] = []"
| "dedup_seen seen (r # rs) =
     (if r \<in> seen then dedup_seen seen rs else r # dedup_seen (insert r seen) rs)"

definition sortAndDedup :: "mx list \<Rightarrow> mx list" where
  "sortAndDedup records = dedup_seen {} (sort_key mx_Preference records)"

section \<open>Domains\<close>

datatype domain_error =
    DomainEmpty | DomainForbiddenByte | DomainHasAt | DomainOnlyDot
  | DomainEmptyLabel | DomainLabelTooLong | DomainTooLong

fun check_labels :: "string list \<Rightarrow> domain_error option" where
  "check_labels [] = None"
| "check_labels (l # ls) =
     (if l = [] then Some DomainEmptyLabel
      else if length l > 63 then Some DomainLabelTooLong
      else check_labels ls)"

text \<open>Every byte is printable ASCII when the domain is lower-cased, so no Unicode table is needed.\<close>

definition normalizeDomain :: "string \<Rightarrow> domain_error + string" where
  "normalizeDomain domain =
     (let trimmed = TrimSpace domain
      in if trimmed = [] then Inl DomainEmpty
         else if list_ex (\<lambda>b. byte b < 0x21 \<or> byte b \<ge> 0x7f) trimmed then Inl DomainForbiddenByte
         else if CHR ''@'' \<in> set trimmed then Inl DomainHasAt
         else let t = TrimSuffix trimmed ''.''
              in if t = [] then Inl DomainOnlyDot
                 else let lowered = map lower_byte t
                      in case check_labels (split_byte (CHR ''.'') lowered) of
                           Some e \<Rightarrow> Inl e
                         | None \<Rightarrow> if length lowered > 253 then Inl DomainTooLong else Inr lowered)"

section \<open>Lookup\<close>

definition MaxCandidates :: nat where "MaxCandidates = 32"

definition fail :: "string \<Rightarrow> dns_kind \<Rightarrow> lookup_error + mx list" where
  "fail d k = Inl \<lparr>le_Domain = d, le_Kind = k\<rparr>"

definition classifyDNSError :: "neterr \<Rightarrow> dns_kind" where
  "classifyDNSError e =
     (if ne_isDNS e \<and> ne_IsNotFound e then DNSNotFound
      else if ne_isDNS e \<and> (ne_IsTimeout e \<or> ne_IsTemporary e) then DNSTemporary
      else if ne_isCtx e then DNSTemporary
      else DNSResolverFailure)"

definition implicitFallback :: "unicode \<Rightarrow> dns_lookup \<Rightarrow> string \<Rightarrow> lookup_error + mx list" where
  "implicitFallback U lk domain =
     (case lk_Host lk domain of
        (addrs, Some e) \<Rightarrow>
          (if ne_isDNS e \<and> ne_IsNotFound e then fail domain DNSNotFound
           else if ne_isDNS e \<and> (ne_IsTimeout e \<or> ne_IsTemporary e) then fail domain DNSTemporary
           else if ne_isCtx e then fail domain DNSTemporary
           else fail domain DNSResolverFailure)
      | (addrs, None) \<Rightarrow>
          (if addrs = [] then fail domain DNSNotFound
           else let host = canonicalHost U domain
                in if \<not> hostSafe host then fail domain DNSResolverFailure
                   else Inr [\<lparr>mx_Host = host, mx_Preference = 0\<rparr>]))"

fun usable_hosts :: "unicode \<Rightarrow> netmx list \<Rightarrow> mx list" where
  "usable_hosts U [] = []"
| "usable_hosts U (r # rs) =
     (let host = canonicalHost U (nm_Host r)
      in if \<not> hostSafe host then usable_hosts U rs
         else \<lparr>mx_Host = host, mx_Preference = nm_Pref r\<rparr> # usable_hosts U rs)"

text \<open>\<open>ctx_done\<close>: the context carries an error when the MX query has returned.\<close>

definition LookupMX :: "unicode \<Rightarrow> dns_lookup \<Rightarrow> bool \<Rightarrow> string \<Rightarrow> lookup_error + mx list" where
  "LookupMX U lk ctx_done domain =
     (case normalizeDomain domain of
        Inl _ \<Rightarrow> fail domain DNSInvalidDomain
      | Inr n \<Rightarrow>
          let (records, err) = lk_MX lk n
          in if err \<noteq> None \<and> records = [] then
               if ctx_done then fail n DNSTemporary
               else if ne_isDNS (the err) \<and> ne_IsNotFound (the err) then implicitFallback U lk n
               else fail n (classifyDNSError (the err))
             else if length records = 1 \<and> isNullMXRecord (hd records) then fail n DNSNullMX
             else if list_ex (\<lambda>r. isNullMXRecord r \<and> length records > 1) records then
               fail n DNSResolverFailure
             else if records = [] then implicitFallback U lk n
             else let candidates = usable_hosts U records
                  in if candidates = [] then fail n DNSResolverFailure
                     else Inr (take MaxCandidates (sortAndDedup candidates)))"

section \<open>What a lookup returns\<close>

lemma dedup_seen_set: "set (dedup_seen S rs) = set rs - S"
  by (induction S rs rule: dedup_seen.induct) auto

lemma dedup_seen_distinct: "distinct (dedup_seen S rs)"
  by (induction S rs rule: dedup_seen.induct) (auto simp: dedup_seen_set)

lemma dedup_seen_sorted: "sorted (map f rs) \<Longrightarrow> sorted (map f (dedup_seen S rs))"
  by (induction S rs rule: dedup_seen.induct) (auto simp: dedup_seen_set)

lemma sortAndDedup_facts:
  "set (sortAndDedup rs) = set rs" "distinct (sortAndDedup rs)"
  "sorted (map mx_Preference (sortAndDedup rs))"
  by (simp_all add: sortAndDedup_def dedup_seen_set dedup_seen_distinct dedup_seen_sorted)

text \<open>What every successful lookup promises the delivery engine.\<close>

definition candidates_ok :: "mx list \<Rightarrow> bool" where
  "candidates_ok ms \<longleftrightarrow>
     ms \<noteq> [] \<and> length ms \<le> MaxCandidates \<and> distinct ms \<and> sorted (map mx_Preference ms) \<and>
     (\<forall>m\<in>set ms. hostSafe (mx_Host m))"

lemma implicitFallback_ok: "implicitFallback U lk d = Inr ms \<Longrightarrow> candidates_ok ms"
  by (auto simp: implicitFallback_def fail_def candidates_ok_def MaxCandidates_def Let_def
      split: prod.splits option.splits if_splits)

lemma take_sortAndDedup_ok:
  assumes "cs \<noteq> []" "\<forall>m\<in>set cs. hostSafe (mx_Host m)"
  shows "candidates_ok (take MaxCandidates (sortAndDedup cs))"
proof -
  have "sortAndDedup cs \<noteq> []" using assms(1) sortAndDedup_facts(1) [of cs] by (metis set_empty)
  moreover have "sorted (map mx_Preference (take MaxCandidates (sortAndDedup cs)))"
    using sortAndDedup_facts(3) [of cs] by (simp add: sorted_wrt_take take_map [symmetric])
  ultimately show ?thesis
    using sortAndDedup_facts [of cs] assms(2)
    by (auto simp: candidates_ok_def MaxCandidates_def dest: in_set_takeD)
qed

lemma usable_hosts_safe: "m \<in> set (usable_hosts U rs) \<Longrightarrow> hostSafe (mx_Host m)"
  by (induction rs) (auto simp: Let_def split: if_splits)

lemma LookupMX_candidates_ok:
  assumes "LookupMX U lk ctx_done d = Inr ms"
  shows "candidates_ok ms"
proof -
  obtain n where n: "normalizeDomain d = Inr n"
    using assms by (auto simp: LookupMX_def fail_def split: sum.splits)
  obtain records err where lk: "lk_MX lk n = (records, err)" by fastforce
  have "implicitFallback U lk n = Inr ms \<or>
      (usable_hosts U records \<noteq> [] \<and> ms = take MaxCandidates (sortAndDedup (usable_hosts U records)))"
    using assms by (simp add: LookupMX_def n lk fail_def Let_def split: if_splits)
  then show ?thesis
    using implicitFallback_ok take_sortAndDedup_ok usable_hosts_safe by blast
qed

text \<open>A domain that declares Null MX never yields a destination.\<close>

lemma LookupMX_null:
  assumes "normalizeDomain d = Inr n" "lk_MX lk n = ([r], err)" "isNullMXRecord r"
  shows "LookupMX U lk ctx_done d = Inl \<lparr>le_Domain = n, le_Kind = DNSNullMX\<rparr>"
  using assms by (simp add: LookupMX_def fail_def)

section \<open>Normal forms of domains\<close>

lemma check_labels_None:
  "check_labels ls = None \<longleftrightarrow> (\<forall>l\<in>set ls. l \<noteq> [] \<and> length l \<le> 63)"
  by (induction ls) auto

lemma normalizeDomain_elim:
  assumes "normalizeDomain d = Inr n"
  obtains t where "n = map lower_byte t" "t \<noteq> []"
    "list_all (\<lambda>c. 0x21 \<le> byte c \<and> byte c < 0x7f) t" "CHR ''@'' \<notin> set t"
    "\<forall>l\<in>set (split_byte (CHR ''.'') n). l \<noteq> [] \<and> length l \<le> 63" "length n \<le> 253"
proof -
  let ?t = "TrimSuffix (TrimSpace d) ''.''"
  have sub: "set ?t \<subseteq> set (TrimSpace d)" by (auto simp: TrimSuffix_def dest: in_set_takeD)
  show ?thesis
    by (rule that [of ?t])
      (use assms sub in \<open>auto simp: normalizeDomain_def Let_def list_ex_iff list_all_iff check_labels_None
          not_less not_le split: if_splits option.splits\<close>)
qed

lemma normalizeDomain_idem:
  assumes "normalizeDomain d = Inr n"
  shows "normalizeDomain n = Inr n"
proof -
  from normalizeDomain_elim [OF assms] obtain t where
    t: "n = map lower_byte t" "t \<noteq> []" "list_all (\<lambda>c. 0x21 \<le> byte c \<and> byte c < 0x7f) t"
      "CHR ''@'' \<notin> set t" "\<forall>l\<in>set (split_byte (CHR ''.'') n). l \<noteq> [] \<and> length l \<le> 63" "length n \<le> 253" .
  have pr: "list_all (\<lambda>c. 0x21 \<le> byte c \<and> byte c < 0x7f) n"
    using t(1,3) lower_byte_printable by (auto simp: list_all_iff)
  have "[] \<notin> set (split_byte (CHR ''.'') n)" using t(5) by blast
  then have "\<not> HasSuffix n ''.''" using split_byte_suffix by blast
  then have suf: "TrimSuffix n ''.'' = n" by (simp add: TrimSuffix_def)
  have at: "CHR ''@'' \<notin> set n" unfolding t(1) set_map using t(4) lower_byte_at by (metis imageE)
  have low: "map lower_byte n = n" using t(1) by simp
  have labels: "check_labels (split_byte (CHR ''.'') n) = None"
    using t(5) by (simp add: check_labels_None)
  have ok: "\<not> list_ex (\<lambda>b. byte b < 0x21 \<or> byte b \<ge> 0x7f) n"
    using pr by (auto simp: list_ex_iff list_all_iff)
  have "n \<noteq> []" using t(1,2) by simp
  with ok show ?thesis
    unfolding normalizeDomain_def Let_def TrimSpace_printable [OF pr] suf low labels
    using at t(6) by simp
qed


section \<open>What the resolver guarantees\<close>

text \<open>
  (C6) A successful lookup hands the delivery engine a non-empty list of at most 32 distinct
  candidates in order of preference, each a host name that is safe to dial, and only for a domain
  of which no record is the Null MX of RFC 7505.
\<close>

theorem LookupMX_contract:
  assumes "LookupMX U lk ctx_done d = Inr ms"
  shows "\<exists>n. normalizeDomain d = Inr n \<and>
    (\<forall>r\<in>set (fst (lk_MX lk n)). \<not> isNullMXRecord r) \<and>
    ms \<noteq> [] \<and> length ms \<le> 32 \<and> distinct ms \<and> sorted (map mx_Preference ms) \<and>
    (\<forall>m\<in>set ms. hostSafe (mx_Host m))"
proof -
  obtain n where n: "normalizeDomain d = Inr n"
    using assms by (auto simp: LookupMX_def fail_def split: sum.splits)
  obtain records err where lk: "lk_MX lk n = (records, err)" by fastforce
  have "\<not> isNullMXRecord r" if "r \<in> set records" for r
    using assms that
    by (cases records rule: remdups_adj.cases)
       (auto simp: LookupMX_def n lk fail_def Let_def list_ex_iff split: if_splits)
  then show ?thesis using LookupMX_candidates_ok [OF assms] n lk
    by (auto simp: candidates_ok_def MaxCandidates_def)
qed

definition dns_demo_lookup :: dns_lookup where
  "dns_demo_lookup = \<lparr>lk_MX = (\<lambda>_. ([\<lparr>nm_Host = ''MX2.example.com.'', nm_Pref = 20\<rparr>,
       \<lparr>nm_Host = ''mx1.example.com.'', nm_Pref = 10\<rparr>], None)), lk_Host = (\<lambda>_. ([], None))\<rparr>"

definition dns_demo_mxs :: "mx list" where
  "dns_demo_mxs = [\<lparr>mx_Host = ''mx1.example.com'', mx_Preference = 10\<rparr>,
     \<lparr>mx_Host = ''mx2.example.com'', mx_Preference = 20\<rparr>]"

theorem LookupMX_contract_witness:
  "LookupMX plain_unicode dns_demo_lookup False ''Example.com'' = Inr dns_demo_mxs \<and>
   distinct dns_demo_mxs"
proof -
  have run: "LookupMX plain_unicode dns_demo_lookup False ''Example.com'' = Inr dns_demo_mxs"
    by code_simp
  then show ?thesis using LookupMX_contract [OF run] by blast
qed

text \<open>
  The normal form of a domain is its own normal form, so that a domain that was normalised
  once is looked up and compared under the same name by every later stage.
\<close>

theorem normalizeDomain_idempotent:
  assumes "normalizeDomain d = Inr n"
  shows "normalizeDomain n = Inr n \<and> n \<noteq> [] \<and> length n \<le> 253 \<and>
    (\<forall>l\<in>set (split_byte (CHR ''.'') n). l \<noteq> [] \<and> length l \<le> 63)"
proof -
  from normalizeDomain_elim [OF assms] obtain t where "n = map lower_byte t" "t \<noteq> []" "length n \<le> 253"
    "\<forall>l\<in>set (split_byte (CHR ''.'') n). l \<noteq> [] \<and> length l \<le> 63" .
  then show ?thesis using normalizeDomain_idem [OF assms] by simp
qed

theorem normalizeDomain_idempotent_witness: "normalizeDomain ''example.com'' = Inr ''example.com''"
proof -
  have "normalizeDomain '' Example.COM. '' = Inr ''example.com''" by code_simp
  then show ?thesis using normalizeDomain_idempotent by blast
qed

end
