(* ===== verification/SMTP_Data.thy ===== *)
theory SMTP_Data
  imports Prelude
begin

text \<open>
  Message data on the wire: the client's serialization for DATA (\<^verbatim>\<open>internal/smtp/client_data.go\<close>)
  and the server's reading of it (\<^verbatim>\<open>readData\<close> in \<^verbatim>\<open>internal/smtp/server.go\<close>), with the round trip
  between them and the framing guarantees of the reader.
\<close>

definition CR :: char where "CR = CHR 0x0D"
definition LF :: char where "LF = CHR 0x0A"
definition crlf :: string where "crlf = [CR, LF]"

lemma CR_LF [simp]: "CR \<noteq> LF" "LF \<noteq> CR"
  by (simp_all add: CR_def LF_def)

record envelope =
  env_MailFrom :: string
  env_Recipients :: "string list"

section \<open>The client's serialization\<close>

text \<open>The two passes of \<^verbatim>\<open>serializeForDATA\<close>: line endings, then dots at line starts.\<close>

fun to_crlf :: "string \<Rightarrow> string" where
  "to_crlf [] = []"
| "to_crlf [c] = (if c = CR \<or> c = LF then crlf else [c])"
| "to_crlf (c # d # s) =
     (if c = CR then crlf @ (if d = LF then to_crlf s else to_crlf (d # s))
      else if c = LF then crlf @ to_crlf (d # s)
      else c # to_crlf (d # s))"

fun dot_stuff :: "bool \<Rightarrow> string \<Rightarrow> string" where
  "dot_stuff lineStart [] = []"
| "dot_stuff lineStart (c # s) =
     (if lineStart \<and> c = CHR ''.'' then ''.'' else []) @ c # dot_stuff (c = LF) s"

definition canonical_data :: "string \<Rightarrow> string" where
  "canonical_data raw =
     (let n = to_crlf raw in if n \<noteq> [] \<and> \<not> HasSuffix n crlf then n @ crlf else n)"

definition serializeForDATA :: "string \<Rightarrow> string" where
  "serializeForDATA raw = dot_stuff True (canonical_data raw) @ CHR ''.'' # crlf"

section \<open>The server's reader\<close>

text \<open>
  \<^verbatim>\<open>bufio.Reader.ReadSlice('\n')\<close> on the bytes that are still to arrive: up to and including the
  first newline, or a full buffer without one, or the end of the stream. A buffer has at least
  sixteen bytes.
\<close>

datatype slice = Slice string string | BufferFull string string | Ended

definition ReadSlice :: "nat \<Rightarrow> string \<Rightarrow> slice" where
  "ReadSlice bufsize s =
     (let n = max 16 bufsize
      in case IndexByte (take n s) LF of
           Some k \<Rightarrow> Slice (take (Suc k) s) (drop (Suc k) s)
         | None \<Rightarrow> if n \<le> length s then BufferFull (take n s) (drop n s) else Ended)"

definition isDataTerminator :: "string \<Rightarrow> bool" where
  "isDataTerminator line \<longleftrightarrow> line = CHR ''.'' # crlf"

definition hasValidCRLF :: "string \<Rightarrow> bool" where
  "hasValidCRLF line \<longleftrightarrow> length line \<ge> 2 \<and> line ! (length line - 2) = CR \<and> line ! (length line - 1) = LF"

record dataReadResult =
  dr_raw :: string
  dr_oversized :: bool
  dr_malformed :: bool

record data_state =
  ds_body :: string
  ds_line :: string
  ds_size :: int
  ds_oversized :: bool
  ds_malformed :: bool
  ds_atLineStart :: bool

text \<open>The end of \<^verbatim>\<open>readData\<close>'s loop body, for a complete line with its line end.\<close>

definition data_line :: "int \<Rightarrow> string \<Rightarrow> data_state \<Rightarrow> data_state" where
  "data_line remaining line d =
     (if \<not> hasValidCRLF line \<or> CR \<in> set (take (length line - 2) line) then
        d\<lparr>ds_malformed := True, ds_line := [], ds_atLineStart := True\<rparr>
      else
        let l1 = take (length line - 2) line;
            l2 = (if l1 \<noteq> [] \<and> hd l1 = CHR ''.'' then tl l1 else l1);
            lineSize = int (length l2) + 2
        in if lineSize > remaining then d\<lparr>ds_oversized := True, ds_line := [], ds_atLineStart := True\<rparr>
           else d\<lparr>ds_size := ds_size d + lineSize, ds_body := ds_body d @ l2 @ crlf,
                  ds_line := [], ds_atLineStart := True\<rparr>)"

text \<open>One turn of \<^verbatim>\<open>readData\<close>'s loop, for the fragment just read.\<close>

definition data_turn :: "int \<Rightarrow> string \<Rightarrow> bool \<Rightarrow> data_state \<Rightarrow> dataReadResult + data_state" where
  "data_turn maxSize fragment completeLine d =
     (if ds_atLineStart d \<and> completeLine \<and> isDataTerminator fragment then
        Inl \<lparr>dr_raw = ds_body d, dr_oversized = ds_oversized d, dr_malformed = ds_malformed d\<rparr>
      else if ds_oversized d \<or> ds_malformed d then Inr (d\<lparr>ds_atLineStart := completeLine\<rparr>)
      else
        let remaining = maxSize - ds_size d;
            maxRawLine = (if remaining < 2 ^ 63 - 1 then remaining + 1 else remaining);
            fragmentSize = int (length fragment)
        in if fragmentSize > maxRawLine \<or> int (length (ds_line d)) > maxRawLine - fragmentSize then
             Inr (d\<lparr>ds_oversized := True, ds_line := [], ds_atLineStart := completeLine\<rparr>)
           else if \<not> completeLine then
             Inr (d\<lparr>ds_line := ds_line d @ fragment, ds_atLineStart := False\<rparr>)
           else Inr (data_line remaining (ds_line d @ fragment) d))"

lemma ReadSlice_shorter:
  "ReadSlice n s = Slice f r \<Longrightarrow> length r < length s" "ReadSlice n s = BufferFull f r \<Longrightarrow> length r < length s"
proof -
  have "IndexByte t c = Some k \<Longrightarrow> k < length t" for t c k
    by (induction t arbitrary: k) (auto split: if_splits option.splits)
  then show "ReadSlice n s = Slice f r \<Longrightarrow> length r < length s"
    by (fastforce simp: ReadSlice_def Let_def split: option.splits if_splits)
  show "ReadSlice n s = BufferFull f r \<Longrightarrow> length r < length s"
    by (auto simp: ReadSlice_def Let_def split: option.splits if_splits)
qed

text \<open>\<open>None\<close>: the stream ended, or a deadline passed, before the terminator.\<close>

function readData_loop :: "nat \<Rightarrow> int \<Rightarrow> data_state \<Rightarrow> string \<Rightarrow> (dataReadResult \<times> string) option" where
  "readData_loop n maxSize d input =
     (case ReadSlice n input of
        Ended \<Rightarrow> None
      | Slice f r \<Rightarrow>
          (case data_turn maxSize f True d of Inl res \<Rightarrow> Some (res, r) | Inr d' \<Rightarrow> readData_loop n maxSize d' r)
      | BufferFull f r \<Rightarrow>
          (case data_turn maxSize f False d of Inl res \<Rightarrow> Some (res, r) | Inr d' \<Rightarrow> readData_loop n maxSize d' r))"
  by pat_completeness auto
termination
  by (relation "measure (\<lambda>(n, m, d, input). length input)") (auto dest: ReadSlice_shorter)

declare readData_loop.simps [simp del]

definition data_start :: data_state where
  "data_start = \<lparr>ds_body = [], ds_line = [], ds_size = 0, ds_oversized = False, ds_malformed = False,
     ds_atLineStart = True\<rparr>"

definition readData :: "nat \<Rightarrow> int \<Rightarrow> string \<Rightarrow> (dataReadResult \<times> string) option" where
  "readData n maxSize input = readData_loop n maxSize data_start input"


section \<open>Canonical data as lines\<close>

definition clean_line :: "string \<Rightarrow> bool" where
  "clean_line l \<longleftrightarrow> CR \<notin> set l \<and> LF \<notin> set l"

definition wire_lines :: "string list \<Rightarrow> string" where
  "wire_lines ls = concat (map (\<lambda>l. l @ crlf) ls)"

lemma length_crlf [simp]: "length crlf = 2"
  by (simp add: crlf_def)

lemma wire_lines_simps [simp]:
  "wire_lines [] = []" "wire_lines (l # ls) = l @ crlf @ wire_lines ls"
  "wire_lines (ls @ ls') = wire_lines ls @ wire_lines ls'"
  by (simp_all add: wire_lines_def)

lemma to_crlf_lines: "\<exists>ls l. (\<forall>x\<in>set ls. clean_line x) \<and> clean_line l \<and> to_crlf s = wire_lines ls @ l"
proof (induction s rule: to_crlf.induct)
  case 1
  show ?case by (intro exI [of _ "[]"] exI [of _ "[]"]) (simp add: clean_line_def)
next
  case (2 c)
  show ?case
  proof (cases "c = CR \<or> c = LF")
    case True
    then show ?thesis by (intro exI [of _ "[[]]"] exI [of _ "[]"]) (auto simp: clean_line_def)
  next
    case False
    then show ?thesis by (intro exI [of _ "[]"] exI [of _ "[c]"]) (auto simp: clean_line_def)
  qed
next
  case (3 c d s)
  have brk: "\<exists>ls l. (\<forall>x\<in>set ls. clean_line x) \<and> clean_line l \<and> crlf @ t = wire_lines ls @ l"
    if "\<exists>ls l. (\<forall>x\<in>set ls. clean_line x) \<and> clean_line l \<and> t = wire_lines ls @ l" for t
  proof -
    from that obtain ls l where "\<forall>x\<in>set ls. clean_line x" "clean_line l" "t = wire_lines ls @ l" by blast
    then show ?thesis by (intro exI [of _ "[] # ls"] exI [of _ l]) (auto simp: clean_line_def)
  qed
  show ?case
  proof (cases "c = CR \<or> c = LF")
    case True
    then show ?thesis using 3 brk by auto
  next
    case False
    with 3(4) obtain ls l where t: "\<forall>x\<in>set ls. clean_line x" "clean_line l" "to_crlf (d # s) = wire_lines ls @ l"
      by auto
    show ?thesis
    proof (cases ls)
      case Nil
      then show ?thesis using t False by (intro exI [of _ "[]"] exI [of _ "c # l"]) (auto simp: clean_line_def)
    next
      case (Cons a as)
      then show ?thesis using t False
        by (intro exI [of _ "(c # a) # as"] exI [of _ l]) (auto simp: clean_line_def)
    qed
  qed
qed

lemma wire_lines_suffix: "ls \<noteq> [] \<Longrightarrow> HasSuffix (wire_lines ls) crlf"
  by (cases ls rule: rev_cases) (auto simp: HasSuffix_def)

text \<open>Canonical data is a sequence of lines, each ended by CRLF and free of CR and LF inside.\<close>

lemma canonical_data_lines: "\<exists>ls. (\<forall>x\<in>set ls. clean_line x) \<and> canonical_data s = wire_lines ls"
proof -
  obtain ls l where t: "\<forall>x\<in>set ls. clean_line x" "clean_line l" "to_crlf s = wire_lines ls @ l"
    using to_crlf_lines by blast
  show ?thesis
  proof (cases "l = []")
    case True
    then have "canonical_data s = wire_lines ls"
      using t(3) wire_lines_suffix [of ls] by (cases "ls = []") (auto simp: canonical_data_def Let_def)
    then show ?thesis using t(1) by blast
  next
    case False
    have "last l \<noteq> LF" using t(2) False last_in_set unfolding clean_line_def by metis
    then have "last (to_crlf s) \<noteq> LF" using t(3) False by simp
    then have "\<not> HasSuffix (to_crlf s) crlf"
      by (auto simp: HasSuffix_def crlf_def dest!: arg_cong [where f = last] split: if_splits)
    then have "canonical_data s = wire_lines (ls @ [l])"
      using t(3) False by (simp add: canonical_data_def Let_def)
    then show ?thesis using t(1,2) by (intro exI [of _ "ls @ [l]"]) auto
  qed
qed

definition stuff_line :: "string \<Rightarrow> string" where
  "stuff_line l = (if l \<noteq> [] \<and> hd l = CHR ''.'' then CHR ''.'' # l else l)"

lemma dot_stuff_inside: "LF \<notin> set l \<Longrightarrow> dot_stuff False (l @ s) = l @ dot_stuff False s"
  by (induction l) auto

lemma dot_stuff_line:
  assumes "clean_line l"
  shows "dot_stuff True (l @ crlf @ s) = stuff_line l @ crlf @ dot_stuff True s"
proof (cases l)
  case Nil
  then show ?thesis by (simp add: crlf_def stuff_line_def CR_def LF_def)
next
  case (Cons c t)
  then have "dot_stuff (c = LF) (t @ crlf @ s) = t @ dot_stuff False (crlf @ s)"
    using assms dot_stuff_inside [of t "crlf @ s"] by (auto simp: clean_line_def)
  then show ?thesis using Cons by (simp add: stuff_line_def crlf_def CR_def LF_def)
qed

lemma dot_stuff_lines:
  "\<forall>l\<in>set ls. clean_line l \<Longrightarrow> dot_stuff True (wire_lines ls) = wire_lines (map stuff_line ls)"
  by (induction ls) (auto simp: dot_stuff_line)

section \<open>Reading lines\<close>

lemma IndexByte_append:
  "b \<notin> set w \<Longrightarrow> IndexByte (w @ b # r) b = Some (length w)" "b \<notin> set w \<Longrightarrow> IndexByte w b = None"
  by (induction w) auto

lemma ReadSlice_line:
  assumes "LF \<notin> set w"
  shows "ReadSlice n (w @ LF # r) =
    (if length w < max 16 n then Slice (w @ [LF]) r
     else BufferFull (take (max 16 n) w) (drop (max 16 n) w @ LF # r))"
proof (cases "length w < max 16 n")
  case True
  then obtain k where k: "max 16 n = length w + Suc k" using less_imp_Suc_add by fastforce
  then have "take (max 16 n) (w @ LF # r) = w @ LF # take k r" by simp
  then show ?thesis using True IndexByte_append(1) [OF assms] by (simp add: ReadSlice_def Let_def)
next
  case False
  then have le: "max 16 n \<le> length w" by (rule leI)
  have "LF \<notin> set (take (max 16 n) w)" using assms by (meson in_set_takeD)
  then show ?thesis using False le IndexByte_append(2) by (simp add: ReadSlice_def Let_def less_max_iff_disj)
qed

text \<open>
  Reading one stuffed line that fits, whatever the buffer size cuts it into, appends the line
  to the body and leaves the reader at the start of the next one.
\<close>

lemma readData_line:
  assumes "clean_line l" and base: "\<not> ds_oversized d" "\<not> ds_malformed d"
    and fits: "int (length l) + 2 \<le> maxSize - ds_size d" and bound: "maxSize - ds_size d < 2 ^ 63 - 1"
  shows "acc @ w = stuff_line l @ [CR] \<Longrightarrow>
    readData_loop n maxSize (d\<lparr>ds_line := acc, ds_atLineStart := (acc = [])\<rparr>) (w @ LF # r) =
    readData_loop n maxSize (d\<lparr>ds_size := ds_size d + int (length l) + 2, ds_body := ds_body d @ l @ crlf,
        ds_line := [], ds_atLineStart := True\<rparr>) r"
proof (induction "length w" arbitrary: acc w rule: less_induct)
  case less
  let ?s = "stuff_line l" and ?d = "d\<lparr>ds_line := acc, ds_atLineStart := (acc = [])\<rparr>"
  have clean: "CR \<notin> set ?s" "LF \<notin> set ?s" "length ?s \<le> Suc (length l)"
    using assms(1) by (auto simp: clean_line_def stuff_line_def CR_def LF_def)
  have wLF: "LF \<notin> set w"
    using clean(2) arg_cong [OF less(2), of set] by (auto simp: CR_def LF_def)
  have len: "length acc + length w = Suc (length ?s)" using arg_cong [OF less(2), of length] by simp
  show ?case
  proof (cases "length w < max 16 n")
    case True
    have line: "acc @ w @ [LF] = ?s @ crlf" using less(2) by (metis append.assoc crlf_def append_Cons append_Nil)
    have "?s \<noteq> ''.''" by (auto simp: stuff_line_def split: if_splits)
    then have noterm: "\<not> (acc = [] \<and> isDataTerminator (w @ [LF]))"
      using less(2) by (auto simp: isDataTerminator_def crlf_def)
    have small: "\<not> int (length w) + 1 > maxSize - ds_size d + 1"
      "\<not> int (length acc) > maxSize - ds_size d + 1 - (int (length w) + 1)"
      using len clean(3) fits by linarith+
    have tk: "hasValidCRLF (?s @ crlf)"
      by (simp add: crlf_def hasValidCRLF_def nth_append)
    have un: "(if ?s \<noteq> [] \<and> hd ?s = CHR ''.'' then tl ?s else ?s) = l"
      by (auto simp: stuff_line_def)
    have "data_turn maxSize (w @ [LF]) True ?d =
        Inr (d\<lparr>ds_size := ds_size d + (int (length l) + 2), ds_body := ds_body d @ l @ crlf,
          ds_line := [], ds_atLineStart := True\<rparr>)"
      using noterm base small bound fits clean(1)
      by (simp add: data_turn_def data_line_def Let_def line tk un)
    then show ?thesis
      using True wLF by (subst readData_loop.simps) (simp add: ReadSlice_line add.assoc)
  next
    case False
    let ?m = "max 16 n"
    have m: "?m \<le> length w" using False by (rule leI)
    have m0: "0 < ?m" by simp
    have wne: "w \<noteq> []" using m by auto
    have small: "\<not> int ?m > maxSize - ds_size d + 1" "\<not> int (length acc) > maxSize - ds_size d + 1 - int ?m"
      using len clean(3) fits m by linarith+
    have "data_turn maxSize (take ?m w) False ?d =
        Inr (d\<lparr>ds_line := acc @ take ?m w, ds_atLineStart := (acc @ take ?m w = [])\<rparr>)"
      using base small bound m m0 wne by (auto simp: data_turn_def Let_def min_def)
    moreover have "readData_loop n maxSize (d\<lparr>ds_line := acc @ take ?m w, ds_atLineStart := (acc @ take ?m w = [])\<rparr>)
        (drop ?m w @ LF # r) = readData_loop n maxSize (d\<lparr>ds_size := ds_size d + int (length l) + 2,
          ds_body := ds_body d @ l @ crlf, ds_line := [], ds_atLineStart := True\<rparr>) r"
      by (rule less(1)) (use m m0 less(2) in auto)
    ultimately show ?thesis
      using False wLF by (subst readData_loop.simps) (simp add: ReadSlice_line)
  qed
qed

section \<open>The round trip\<close>

lemma readData_terminator:
  "ds_atLineStart d \<Longrightarrow>
     readData_loop n maxSize d (CHR ''.'' # crlf @ r) =
     Some (\<lparr>dr_raw = ds_body d, dr_oversized = ds_oversized d, dr_malformed = ds_malformed d\<rparr>, r)"
proof -
  assume start: "ds_atLineStart d"
  have "LF \<notin> set [CHR ''.'', CR]" by (simp add: CR_def LF_def)
  from ReadSlice_line [OF this, of n r] have "ReadSlice n (CHR ''.'' # crlf @ r) = Slice (CHR ''.'' # crlf) r"
    by (simp add: crlf_def less_max_iff_disj)
  then show ?thesis using start
    by (subst readData_loop.simps) (simp add: data_turn_def isDataTerminator_def)
qed

lemma readData_lines:
  assumes "\<forall>l\<in>set ls. clean_line l" "\<not> ds_oversized d" "\<not> ds_malformed d" "ds_atLineStart d" "ds_line d = []"
    and "0 \<le> ds_size d" "ds_size d + int (length (wire_lines ls)) \<le> maxSize" "maxSize < 2 ^ 63 - 1"
  shows "readData_loop n maxSize d (wire_lines (map stuff_line ls) @ CHR ''.'' # crlf @ r) =
    Some (\<lparr>dr_raw = ds_body d @ wire_lines ls, dr_oversized = False, dr_malformed = False\<rparr>, r)"
  using assms
proof (induction ls arbitrary: d)
  case Nil
  then show ?case by (simp add: readData_terminator)
next
  case (Cons l ls)
  let ?d = "d\<lparr>ds_size := ds_size d + int (length l) + 2, ds_body := ds_body d @ l @ crlf,
        ds_line := [], ds_atLineStart := True\<rparr>"
  let ?rest = "wire_lines (map stuff_line ls) @ CHR ''.'' # crlf @ r"
  have self: "d\<lparr>ds_line := [], ds_atLineStart := ([] = ([] :: string))\<rparr> = d" using Cons.prems(4,5) by simp
  have "readData_loop n maxSize (d\<lparr>ds_line := [], ds_atLineStart := ([] = ([] :: string))\<rparr>)
      ((stuff_line l @ [CR]) @ LF # ?rest) = readData_loop n maxSize ?d ?rest"
    by (rule readData_line) (use Cons.prems in auto)
  then have "readData_loop n maxSize d (wire_lines (map stuff_line (l # ls)) @ CHR ''.'' # crlf @ r) =
      readData_loop n maxSize ?d ?rest"
    unfolding self by (simp add: crlf_def)
  also have "\<dots> = Some (\<lparr>dr_raw = ds_body ?d @ wire_lines ls, dr_oversized = False, dr_malformed = False\<rparr>, r)"
    by (rule Cons.IH) (use Cons.prems in auto)
  finally show ?case by simp
qed

text \<open>
  (C7) What the client sends for a message is read back by the server as exactly the message
  in canonical form, with every line end a CRLF, and the server stops precisely behind the
  terminator, for every message that fits and every buffer size: dot stuffing and unstuffing
  cancel out, and no message content can end the data early.
\<close>

theorem data_roundtrip:
  assumes "int (length (canonical_data raw)) \<le> maxSize" "maxSize < 2 ^ 63 - 1"
  shows "readData n maxSize (serializeForDATA raw @ r) =
    Some (\<lparr>dr_raw = canonical_data raw, dr_oversized = False, dr_malformed = False\<rparr>, r)"
proof -
  obtain ls where ls: "\<forall>l\<in>set ls. clean_line l" "canonical_data raw = wire_lines ls"
    using canonical_data_lines by blast
  have "serializeForDATA raw @ r = wire_lines (map stuff_line ls) @ CHR ''.'' # crlf @ r"
    using ls by (simp add: serializeForDATA_def dot_stuff_lines)
  then show ?thesis
    using readData_lines [OF ls(1), of data_start maxSize n r] ls(2) assms
    by (simp add: readData_def data_start_def)
qed

theorem data_roundtrip_witness:
  "readData 512 100 (serializeForDATA [CHR ''.'', LF, CHR ''a''] @ ''QUIT'') =
   Some (\<lparr>dr_raw = [CHR ''.'', CR, LF, CHR ''a'', CR, LF], dr_oversized = False, dr_malformed = False\<rparr>, ''QUIT'')"
proof -
  have "canonical_data [CHR ''.'', LF, CHR ''a''] = [CHR ''.'', CR, LF, CHR ''a'', CR, LF]" by code_simp
  then show ?thesis using data_roundtrip [of "[CHR ''.'', LF, CHR ''a'']" 100 512 "''QUIT''"] by simp
qed


section \<open>What the reader accepts from anyone\<close>

definition data_inv :: "int \<Rightarrow> data_state \<Rightarrow> bool" where
  "data_inv maxSize d \<longleftrightarrow>
     (\<exists>ls. (\<forall>l\<in>set ls. clean_line l) \<and> ds_body d = wire_lines ls) \<and>
     int (length (ds_body d)) = ds_size d \<and> ds_size d \<le> maxSize \<and> LF \<notin> set (ds_line d)"

lemma IndexByte_Some:
  "IndexByte s b = Some k \<Longrightarrow> k < length s \<and> s ! k = b \<and> b \<notin> set (take k s)"
  by (induction s arbitrary: k) (auto split: if_splits option.splits)

lemma IndexByte_None: "IndexByte s b = None \<longleftrightarrow> b \<notin> set s"
  by (induction s) auto

lemma ReadSlice_fragment:
  "ReadSlice n s = Slice f r \<Longrightarrow> \<exists>u. f = u @ [LF] \<and> LF \<notin> set u"
  "ReadSlice n s = BufferFull f r \<Longrightarrow> LF \<notin> set f"
proof -
  assume "ReadSlice n s = Slice f r"
  then obtain k where k: "IndexByte (take (max 16 n) s) LF = Some k" and f: "f = take (Suc k) s"
    by (auto simp: ReadSlice_def Let_def split: option.splits if_splits)
  from IndexByte_Some [OF k] have "k < length s" "k < max 16 n" by auto
  moreover from this IndexByte_Some [OF k] have "s ! k = LF" "LF \<notin> set (take k s)" by (auto simp: min_absorb1)
  ultimately show "\<exists>u. f = u @ [LF] \<and> LF \<notin> set u" using f by (auto simp: take_Suc_conv_app_nth)
next
  assume "ReadSlice n s = BufferFull f r"
  then show "LF \<notin> set f"
    by (auto simp: ReadSlice_def Let_def IndexByte_None split: option.splits if_splits)
qed

lemma data_line_inv:
  assumes inv: "data_inv maxSize d" and f: "f = u @ [LF]" "LF \<notin> set u"
  shows "data_inv maxSize (data_line (maxSize - ds_size d) (ds_line d @ f) d)"
proof -
  define l1 where "l1 = take (length (ds_line d @ f) - 2) (ds_line d @ f)"
  define l2 where "l2 = (if l1 \<noteq> [] \<and> hd l1 = CHR ''.'' then tl l1 else l1)"
  have "l1 = take (length (ds_line d @ u) - 1) (ds_line d @ u)" by (simp add: l1_def f)
  then have "set l1 \<subseteq> set (ds_line d @ u)" using set_take_subset by metis
  then have LFl: "LF \<notin> set l1" using inv f(2) by (auto simp: data_inv_def)
  have step: "data_line (maxSize - ds_size d) (ds_line d @ f) d =
      (if \<not> hasValidCRLF (ds_line d @ f) \<or> CR \<in> set l1 then d\<lparr>ds_malformed := True, ds_line := [], ds_atLineStart := True\<rparr>
       else if int (length l2) + 2 > maxSize - ds_size d then d\<lparr>ds_oversized := True, ds_line := [], ds_atLineStart := True\<rparr>
       else d\<lparr>ds_size := ds_size d + (int (length l2) + 2), ds_body := ds_body d @ l2 @ crlf,
              ds_line := [], ds_atLineStart := True\<rparr>)"
    unfolding data_line_def Let_def l1_def [symmetric] l2_def [symmetric] ..
  obtain ls where ls: "\<forall>l\<in>set ls. clean_line l" "ds_body d = wire_lines ls" using inv by (auto simp: data_inv_def)
  have "clean_line l2" if "CR \<notin> set l1"
    using that LFl by (auto simp: clean_line_def l2_def dest: list.set_sel(2))
  then have "\<exists>ls. (\<forall>l\<in>set ls. clean_line l) \<and> ds_body d @ l2 @ crlf = wire_lines ls" if "CR \<notin> set l1"
    using ls that by (intro exI [of _ "ls @ [l2]"]) auto
  then show ?thesis using inv unfolding step data_inv_def by auto
qed

lemma data_turn_inv:
  assumes inv: "data_inv maxSize d" and turn: "data_turn maxSize f complete d = Inr d'"
    and f: "if complete then \<exists>u. f = u @ [LF] \<and> LF \<notin> set u else LF \<notin> set f"
  shows "data_inv maxSize d'"
proof -
  have "data_inv maxSize (data_line (maxSize - ds_size d) (ds_line d @ f) d)" if complete
    using data_line_inv [OF inv] f that by auto
  then show ?thesis
    using inv turn f unfolding data_turn_def Let_def by (auto simp: data_inv_def split: if_splits)
qed

lemma readData_loop_safe:
  "data_inv maxSize d \<Longrightarrow> readData_loop n maxSize d s = Some (res, r) \<Longrightarrow>
     \<exists>ls. (\<forall>l\<in>set ls. clean_line l) \<and> dr_raw res = wire_lines ls \<and> int (length (dr_raw res)) \<le> maxSize"
proof (induction n maxSize d s rule: readData_loop.induct)
  case (1 n maxSize d s)
  have inl: "data_turn maxSize f b d = Inl res \<Longrightarrow> dr_raw res = ds_body d" for f b
    by (auto simp: data_turn_def Let_def split: if_splits)
  have now: "\<exists>ls. (\<forall>l\<in>set ls. clean_line l) \<and> dr_raw res = wire_lines ls \<and> int (length (dr_raw res)) \<le> maxSize"
    if "dr_raw res = ds_body d" using 1(3) that by (auto simp: data_inv_def)
  show ?case
  proof (cases "ReadSlice n s")
    case (Slice f t)
    then show ?thesis
      using 1(1) [OF Slice] 1(3,4) inl [of f True] now data_turn_inv [OF 1(3), of f True] ReadSlice_fragment(1) [OF Slice]
      by (subst (asm) readData_loop.simps) (auto split: sum.splits)
  next
    case (BufferFull f t)
    then show ?thesis
      using 1(2) [OF BufferFull] 1(3,4) inl [of f False] now data_turn_inv [OF 1(3), of f False] ReadSlice_fragment(2) [OF BufferFull]
      by (subst (asm) readData_loop.simps) (auto split: sum.splits)
  next
    case Ended
    then show ?thesis using 1(4) by (subst (asm) readData_loop.simps) simp
  qed
qed

text \<open>
  (C8) Whatever bytes a client sends, the content the reader hands on consists of lines that
  end in CRLF and contain no other CR or LF, so that no later component can see a line boundary
  (or an end of data) the server did not, and it never exceeds the configured maximum size.
\<close>

theorem readData_no_smuggling:
  assumes "readData n maxSize input = Some (res, rest)" "0 \<le> maxSize"
  shows "\<exists>ls. (\<forall>l\<in>set ls. CR \<notin> set l \<and> LF \<notin> set l) \<and>
    dr_raw res = concat (map (\<lambda>l. l @ crlf) ls) \<and> int (length (dr_raw res)) \<le> maxSize"
proof -
  have "data_inv maxSize data_start" using assms(2)
    by (simp add: data_inv_def data_start_def exI [of _ "[]"])
  from readData_loop_safe [OF this] assms(1) show ?thesis
    by (auto simp: readData_def clean_line_def wire_lines_def)
qed

theorem readData_no_smuggling_witness:
  "\<exists>res rest. readData 512 100 (serializeForDATA [CHR ''a'', LF]) = Some (res, rest) \<and> int (length (dr_raw res)) \<le> 100"
proof -
  have "readData 512 100 (serializeForDATA [CHR ''a'', LF]) =
      Some (\<lparr>dr_raw = [CHR ''a'', CR, LF], dr_oversized = False, dr_malformed = False\<rparr>, [])" by code_simp
  from this readData_no_smuggling [OF this] show ?thesis by force
qed

end
