(* ===== verification/Base64.thy ===== *)
theory Base64
  imports Prelude
begin

text \<open>
  The standard base64 alphabet with padding (\<^verbatim>\<open>encoding/base64.StdEncoding\<close>), which the SMTP
  client uses to encode AUTH responses and the SMTP server to decode them, on byte strings.
\<close>

definition b64_char :: "nat \<Rightarrow> char" where
  "b64_char n =
     (if n < 26 then char_of (65 + n)
      else if n < 52 then char_of (71 + n)
      else if n < 62 then char_of (n - 4)
      else if n = 62 then CHR ''+'' else CHR ''/'')"

definition b64_val :: "char \<Rightarrow> nat option" where
  "b64_val c =
     (if is_upper c then Some (byte c - 65)
      else if is_lower c then Some (byte c - 71)
      else if is_digit c then Some (byte c + 4)
      else if c = CHR ''+'' then Some 62
      else if c = CHR ''/'' then Some 63
      else None)"

fun b64 :: "string \<Rightarrow> string" where
  "b64 [] = []"
| "b64 [a] =
     [b64_char (byte a div 4), b64_char (byte a mod 4 * 16), CHR ''='', CHR ''='']"
| "b64 [a, b] =
     [b64_char (byte a div 4), b64_char (byte a mod 4 * 16 + byte b div 16),
      b64_char (byte b mod 16 * 4), CHR ''='']"
| "b64 (a # b # c # s) =
     b64_char (byte a div 4) # b64_char (byte a mod 4 * 16 + byte b div 16) #
     b64_char (byte b mod 16 * 4 + byte c div 64) # b64_char (byte c mod 64) # b64 s"

text \<open>
  \<^verbatim>\<open>DecodeString\<close>: groups of four, padding only in the last group, unused trailing bits ignored.
  (The decoder also skips CR and LF; the commands it is used on contain neither.)
\<close>

fun b64_decode :: "string \<Rightarrow> string option" where
  "b64_decode [] = Some []"
| "b64_decode (p # q # r # t # s) =
     (case (b64_val p, b64_val q) of
        (Some w, Some x) \<Rightarrow>
          if r = CHR ''='' then (if t = CHR ''='' \<and> s = [] then Some [char_of (w * 4 + x div 16)] else None)
          else (case b64_val r of
                  None \<Rightarrow> None
                | Some y \<Rightarrow>
                    if t = CHR ''='' then
                      (if s = [] then Some [char_of (w * 4 + x div 16), char_of (x mod 16 * 16 + y div 4)] else None)
                    else (case (b64_val t, b64_decode s) of
                            (Some z, Some u) \<Rightarrow>
                              Some (char_of (w * 4 + x div 16) # char_of (x mod 16 * 16 + y div 4) #
                                    char_of (y mod 4 * 64 + z) # u)
                          | _ \<Rightarrow> None))
      | _ \<Rightarrow> None)"
| "b64_decode _ = None"

lemma byte_less [simp]: "byte c < 256"
  by (metis of_char_of nat_of_char_less_256)

lemma b64_val_char: "n < 64 \<Longrightarrow> b64_val (b64_char n) = Some n"
  by (auto simp: b64_char_def b64_val_def go_str)

lemma b64_char_printable: "n < 64 \<Longrightarrow> 0x2B \<le> byte (b64_char n) \<and> byte (b64_char n) \<le> 0x7A \<and> byte (b64_char n) \<noteq> 61"
  by (auto simp: b64_char_def)

lemma b64_char_pad: "n < 64 \<Longrightarrow> b64_char n \<noteq> CHR ''=''"
  using b64_char_printable by fastforce

lemma b64_groups:
  "byte a div 4 < 64" "byte a mod 4 * 16 + byte b div 16 < 64" "byte a mod 4 * 16 < 64"
  "byte b mod 16 * 4 + byte c div 64 < 64" "byte b mod 16 * 4 < 64" "byte c mod 64 < 64"
  using byte_less [of a] byte_less [of b] byte_less [of c] by linarith+

lemma b64_ungroups:
  "byte b div 16 div 16 = 0" "byte b div 16 mod 16 * 16 + byte b mod 16 = byte b"
  "byte b div 64 div 4 = 0" "byte b div 64 mod 4 * 64 + byte b mod 64 = byte b"
proof -
  have "byte b div 16 < 16" "byte b div 64 < 4" using byte_less [of b] by (simp_all add: less_mult_imp_div_less)
  then show "byte b div 16 div 16 = 0" "byte b div 16 mod 16 * 16 + byte b mod 16 = byte b"
    "byte b div 64 div 4 = 0" "byte b div 64 mod 4 * 64 + byte b mod 64 = byte b"
    by (simp_all add: div_mult_mod_eq)
qed

lemma b64_roundtrip: "b64_decode (b64 s) = Some s"
  by (induction s rule: b64.induct)
     (simp_all add: b64_val_char b64_char_pad b64_groups b64_ungroups)

lemma b64_length: "length (b64 s) = 4 * ((length s + 2) div 3)"
proof (induction s rule: b64.induct)
  case (4 a b c s)
  have "(length (a # b # c # s) + 2) div 3 = Suc ((length s + 2) div 3)" by (simp add: div_add_self1 [symmetric])
  then show ?case using 4 by simp
qed auto

text \<open>Encoded text is printable: letters, digits, \<open>+\<close>, \<open>/\<close> and \<open>=\<close> only.\<close>

lemma b64_printable: "list_all (\<lambda>c. 0x2B \<le> byte c \<and> byte c \<le> 0x7A) (b64 s)"
  by (induction s rule: b64.induct) (auto simp: b64_groups b64_char_printable)

end
