(* ===== verification/SMTP_Server.thy ===== *)
theory SMTP_Server
  imports SMTP_Data Base64
begin

text \<open>
  The SMTP server session of \<^verbatim>\<open>internal/smtp/server.go\<close>, with its replies (\<^verbatim>\<open>reply.go\<close>), its
  configuration (\<^verbatim>\<open>config.go\<close>) and the admission of connections (\<^verbatim>\<open>listener.go\<close>). A session runs
  on the bytes the client sends; the message parser, the authenticator, the sink that takes
  accepted messages and the success of each write are its environment.
\<close>

section \<open>Replies\<close>

record reply =
  rp_code :: nat
  rp_enhanced :: string
  rp_lines :: "string list"

definition statusOtherSuccess :: string where "statusOtherSuccess = ''2.0.0''"
definition statusSenderAccepted :: string where "statusSenderAccepted = ''2.1.0''"
definition statusRecipientAccepted :: string where "statusRecipientAccepted = ''2.1.5''"
definition statusMessageAccepted :: string where "statusMessageAccepted = ''2.6.0''"
definition statusTemporarySystem :: string where "statusTemporarySystem = ''4.3.0''"
definition statusTooManyRecipients :: string where "statusTooManyRecipients = ''4.5.3''"
definition statusInvalidCommand :: string where "statusInvalidCommand = ''5.5.1''"
definition statusSyntaxError :: string where "statusSyntaxError = ''5.5.2''"
definition statusInvalidArguments :: string where "statusInvalidArguments = ''5.5.4''"
definition statusMessageTooLarge :: string where "statusMessageTooLarge = ''5.3.4''"
definition statusMessageContentError :: string where "statusMessageContentError = ''5.6.0''"

definition standardReply :: "nat \<Rightarrow> string \<Rightarrow> reply" where
  "standardReply code message = \<lparr>rp_code = code, rp_enhanced = [], rp_lines = [message]\<rparr>"

definition multilineReply :: "nat \<Rightarrow> string list \<Rightarrow> reply" where
  "multilineReply code ls = \<lparr>rp_code = code, rp_enhanced = [], rp_lines = ls\<rparr>"

definition enhancedReply :: "nat \<Rightarrow> string \<Rightarrow> string \<Rightarrow> reply" where
  "enhancedReply code status message = \<lparr>rp_code = code, rp_enhanced = status, rp_lines = [message]\<rparr>"

definition status_part_ok :: "string \<Rightarrow> bool" where
  "status_part_ok p \<longleftrightarrow>
     \<not> (length p = 0 \<or> length p > 3 \<or> (length p > 1 \<and> hd p = CHR ''0'')) \<and> list_all is_digit p"

definition validateEnhancedStatus :: "nat \<Rightarrow> string \<Rightarrow> bool" where
  "validateEnhancedStatus code status \<longleftrightarrow>
     (if status = [] then True
      else let parts = split_byte (CHR ''.'') status
           in length parts = 3 \<and> length (parts ! 0) = 1 \<and> list_all status_part_ok parts \<and>
              byte (hd (parts ! 0)) - 48 = code div 100 \<and> hd (parts ! 0) \<in> set ''245'')"

text \<open>The text of a reply on the wire; \<open>None\<close> for the errors of \<^verbatim>\<open>reply.wire\<close>.\<close>

fun wire_text :: "nat \<Rightarrow> string \<Rightarrow> string list \<Rightarrow> string option" where
  "wire_text code enh [] = Some []"
| "wire_text code enh (l # ls) =
     (if l = [] \<or> ContainsAny l crlf then None
      else map_option
             (\<lambda>rest. nat_dec code @ [if ls = [] then CHR '' '' else CHR ''-''] @
                (if enh \<noteq> [] then enh @ '' '' else []) @ l @ crlf @ rest)
             (wire_text code enh ls))"

definition reply_wire :: "reply \<Rightarrow> string option" where
  "reply_wire r =
     (if rp_code r < 200 \<or> rp_code r > 599 then None
      else if rp_lines r = [] then None
      else if \<not> validateEnhancedStatus (rp_code r) (rp_enhanced r) then None
      else wire_text (rp_code r) (rp_enhanced r) (rp_lines r))"

section \<open>Configuration\<close>

record smtpConfig =
  sc_CommandLineLimit :: int
  sc_ReadTimeout :: duration
  sc_WriteTimeout :: duration
  sc_MaxMessageSize :: int
  sc_MaxConnections :: int
  sc_MaxRecipients :: int
  sc_RequireAuth :: bool
  sc_Authenticator :: "(string \<Rightarrow> string \<Rightarrow> string option) option"

definition DefaultCommandLineLimit :: int where "DefaultCommandLineLimit = 512"
definition DefaultMaxMessageSize :: int where "DefaultMaxMessageSize = 10 * 1024 * 1024"
definition DefaultMaxConnections :: int where "DefaultMaxConnections = 100"
definition DefaultMaxRecipients :: int where "DefaultMaxRecipients = 100"

definition DefaultConfig :: smtpConfig where
  "DefaultConfig = \<lparr>sc_CommandLineLimit = DefaultCommandLineLimit, sc_ReadTimeout = 5 * minute,
     sc_WriteTimeout = 5 * minute, sc_MaxMessageSize = DefaultMaxMessageSize,
     sc_MaxConnections = DefaultMaxConnections, sc_MaxRecipients = DefaultMaxRecipients,
     sc_RequireAuth = False, sc_Authenticator = None\<rparr>"

definition sc_normalized :: "smtpConfig \<Rightarrow> smtpConfig option" where
  "sc_normalized c0 =
     (let c1 = (if sc_MaxMessageSize c0 = 0 then c0\<lparr>sc_MaxMessageSize := DefaultMaxMessageSize\<rparr> else c0);
          c2 = (if sc_MaxConnections c1 = 0 then c1\<lparr>sc_MaxConnections := DefaultMaxConnections\<rparr> else c1);
          c3 = (if sc_MaxRecipients c2 = 0 then c2\<lparr>sc_MaxRecipients := DefaultMaxRecipients\<rparr> else c2)
      in if sc_CommandLineLimit c3 < DefaultCommandLineLimit then None
         else if sc_ReadTimeout c3 < 0 \<or> sc_WriteTimeout c3 < 0 then None
         else if sc_MaxMessageSize c3 < 0 then None
         else if sc_MaxConnections c3 < 0 then None
         else if sc_MaxRecipients c3 < 0 then None
         else Some c3)"

section \<open>Command lines\<close>

datatype command_read = CommandLine string string | TooLong | BadFraming string | Closed

definition readCommand :: "nat \<Rightarrow> string \<Rightarrow> command_read" where
  "readCommand limit input =
     (case ReadSlice limit input of
        BufferFull _ _ \<Rightarrow> TooLong
      | Ended \<Rightarrow> Closed
      | Slice line rest \<Rightarrow>
          if length line > limit then TooLong
          else if \<not> hasValidCRLF line \<or> CR \<in> set (take (length line - 2) line) then BadFraming rest
          else CommandLine (take (length line - 2) line) rest)"

definition isASCIICommandText :: "string \<Rightarrow> bool" where
  "isASCIICommandText v \<longleftrightarrow> list_all (\<lambda>c. 0x20 \<le> byte c \<and> byte c \<le> 0x7e) v"

text \<open>
  \<^verbatim>\<open>command\<close> splits a line into verb and argument. Every text it upper-cases is printable ASCII.
\<close>

definition cmd_split :: "string \<Rightarrow> string \<times> string \<times> bool \<times> bool" where
  "cmd_split line =
     (if line = [] \<or> hd line = CHR '' '' \<or> hd line = CHR 0x09 then ([], [], False, False)
      else
        let word = takeWhile (\<lambda>c. c \<noteq> CHR '' '') line;
            good = takeWhile (\<lambda>c. 0x20 \<le> byte c \<and> byte c \<le> 0x7e) word
        in if good \<noteq> word then (map upper_byte good, [], True, False)
           else case IndexByte line (CHR '' '') of
             None \<Rightarrow> (map upper_byte line, [], False, isASCIICommandText line)
           | Some sep \<Rightarrow>
               let verb = map upper_byte (take sep line)
               in if sep + 1 \<ge> length line \<or> line ! (sep + 1) = CHR '' '' then (verb, [], True, False)
                  else (verb, drop (sep + 1) line, True, isASCIICommandText line))"

definition isKnownCommand :: "string \<Rightarrow> bool" where
  "isKnownCommand c \<longleftrightarrow>
     c \<in> set [''EHLO'', ''HELO'', ''MAIL'', ''RCPT'', ''DATA'', ''RSET'', ''NOOP'', ''QUIT'', ''AUTH'']"

definition validGreetingArgument :: "string \<Rightarrow> bool" where
  "validGreetingArgument a \<longleftrightarrow> a \<noteq> [] \<and> \<not> ContainsAny a [CHR '' '', CHR 0x09]"

definition parsePathArgument :: "unicode \<Rightarrow> string \<Rightarrow> bool \<Rightarrow> string \<Rightarrow> bool \<Rightarrow> string option" where
  "parsePathArgument U argument hasArgument keyword allowEmpty =
     (let prefix = keyword @ '':<''
      in if \<not> hasArgument \<or> length argument < length prefix + 1 \<or>
            \<not> EqualFold U (take (length prefix) argument) prefix \<or> last argument \<noteq> CHR ''>'' then None
         else
           let path = drop (length prefix - 1) argument;
               mailbox = take (length path - 2) (drop 1 path)
           in if (\<not> allowEmpty \<and> mailbox = []) \<or> ContainsAny mailbox [CHR '' '', CHR ''<'', CHR ''>'', CHR 0x09] \<or>
                 \<not> isASCIICommandText mailbox then None
              else Some path)"

section \<open>The session\<close>

datatype sess_state = Connected | Greeted | MailReceived

record session =
  se_ID :: string
  se_state :: sess_state
  se_Envelope :: envelope
  se_Authenticated :: bool
  se_TenantID :: string

definition empty_envelope :: envelope where
  "empty_envelope = \<lparr>env_MailFrom = [], env_Recipients = []\<rparr>"

definition resetTransaction :: "session \<Rightarrow> session" where
  "resetTransaction s =
     (let s1 = s\<lparr>se_Envelope := empty_envelope\<rparr>
      in if se_state s1 = MailReceived then s1\<lparr>se_state := Greeted\<rparr> else s1)"

text \<open>\<^verbatim>\<open>strings.Cut(arg, " ")\<close>, the first two results.\<close>

definition cut_space :: "string \<Rightarrow> string \<times> string" where
  "cut_space s = (case IndexByte s (CHR '' '') of None \<Rightarrow> (s, []) | Some k \<Rightarrow> (take k s, drop (Suc k) s))"

text \<open>\<^verbatim>\<open>bytes.SplitN(raw, {0}, 3)\<close> when it gives three parts.\<close>

definition split_nul3 :: "string \<Rightarrow> (string \<times> string \<times> string) option" where
  "split_nul3 s =
     (case IndexByte s (CHR 0x00) of
        None \<Rightarrow> None
      | Some i \<Rightarrow>
          (case IndexByte (drop (Suc i) s) (CHR 0x00) of
             None \<Rightarrow> None
           | Some j \<Rightarrow> Some (take i s, take j (drop (Suc i) s), drop (Suc j) (drop (Suc i) s))))"

definition auth_reply :: "unicode \<Rightarrow> smtpConfig \<Rightarrow> string \<Rightarrow> session \<Rightarrow> session \<times> reply" where
  "auth_reply U cfg arg s =
     (let (mech, resp) = cut_space arg
      in if \<not> EqualFold U mech ''PLAIN'' \<or> resp = [] then
           (s, enhancedReply 504 statusInvalidCommand ''Unrecognized authentication mechanism'')
         else case Option.bind (b64_decode resp) split_nul3 of
             None \<Rightarrow> (s, enhancedReply 501 statusInvalidArguments ''Invalid AUTH PLAIN response'')
           | Some (_, user, pass) \<Rightarrow>
               (case sc_Authenticator cfg of
                  None \<Rightarrow> (s, enhancedReply 535 statusInvalidCommand ''Authentication not available'')
                | Some check \<Rightarrow>
                    (case check user pass of
                       None \<Rightarrow> (s, enhancedReply 535 statusInvalidCommand ''Authentication credentials invalid'')
                     | Some tenant \<Rightarrow>
                         (s\<lparr>se_Authenticated := True, se_TenantID := tenant\<rparr>,
                          enhancedReply 235 statusOtherSuccess ''Authentication successful''))))"

text \<open>What the big switch of \<^verbatim>\<open>serve\<close> does for a well-formed command, up to reading message data.\<close>

datatype cmd_result = Answer reply | AnswerAndClose reply | AskForData

definition mail_command :: "unicode \<Rightarrow> smtpConfig \<Rightarrow> string \<Rightarrow> bool \<Rightarrow> session \<Rightarrow> session \<times> reply" where
  "mail_command U cfg arg hasArg s =
     (if sc_RequireAuth cfg \<and> \<not> se_Authenticated s then
        (s, enhancedReply 530 statusInvalidCommand ''Authentication required'')
      else case parsePathArgument U arg hasArg ''FROM'' True of
          None \<Rightarrow> (s, enhancedReply 501 statusInvalidArguments ''Syntax: MAIL FROM:<address>'')
        | Some path \<Rightarrow>
            if se_state s \<noteq> Greeted then (s, enhancedReply 503 statusInvalidCommand ''Bad sequence of commands'')
            else (s\<lparr>se_Envelope := (se_Envelope s)\<lparr>env_MailFrom := path\<rparr>, se_state := MailReceived\<rparr>,
                  enhancedReply 250 statusSenderAccepted ''Sender OK''))"

definition rcpt_command :: "unicode \<Rightarrow> smtpConfig \<Rightarrow> string \<Rightarrow> bool \<Rightarrow> session \<Rightarrow> session \<times> reply" where
  "rcpt_command U cfg arg hasArg s =
     (case parsePathArgument U arg hasArg ''TO'' False of
        None \<Rightarrow> (s, enhancedReply 501 statusInvalidArguments ''Syntax: RCPT TO:<address>'')
      | Some path \<Rightarrow>
          if se_state s \<noteq> MailReceived then
            (s, enhancedReply 503 statusInvalidCommand ''Bad sequence of commands'')
          else if int (length (env_Recipients (se_Envelope s))) \<ge> sc_MaxRecipients cfg then
            (s, enhancedReply 452 statusTooManyRecipients ''Too many recipients'')
          else (s\<lparr>se_Envelope := (se_Envelope s)\<lparr>env_Recipients := env_Recipients (se_Envelope s) @ [path]\<rparr>\<rparr>,
                enhancedReply 250 statusRecipientAccepted ''Recipient OK''))"

definition do_command ::
  "unicode \<Rightarrow> smtpConfig \<Rightarrow> string \<Rightarrow> string \<Rightarrow> bool \<Rightarrow> session \<Rightarrow> session \<times> cmd_result" where
  "do_command U cfg cmd arg hasArg s =
     (if cmd = ''EHLO'' \<or> cmd = ''HELO'' then
        (if \<not> hasArg \<or> \<not> validGreetingArgument arg then
           (s, Answer (standardReply 501 (''Syntax: '' @ cmd @ '' hostname'')))
         else
           let s1 = (resetTransaction s)\<lparr>se_state := Greeted\<rparr>
           in (s1, Answer (if cmd = ''EHLO'' then
                 (if sc_RequireAuth cfg then multilineReply 250 [''localhost'', ''ENHANCEDSTATUSCODES'', ''AUTH PLAIN'']
                  else multilineReply 250 [''localhost'', ''ENHANCEDSTATUSCODES''])
               else standardReply 250 ''localhost'')))
      else if cmd = ''NOOP'' then
        (s, Answer (if hasArg \<and> TrimSpace arg = [] then
                      enhancedReply 501 statusInvalidArguments ''Syntax: NOOP [string]''
                    else enhancedReply 250 statusOtherSuccess ''OK''))
      else if cmd = ''RSET'' then
        (if hasArg then (s, Answer (enhancedReply 501 statusInvalidArguments ''Syntax: RSET''))
         else (resetTransaction s, Answer (enhancedReply 250 statusOtherSuccess ''OK'')))
      else if cmd = ''AUTH'' then
        (if \<not> hasArg then (s, Answer (enhancedReply 501 statusInvalidArguments ''Syntax: AUTH PLAIN <response>''))
         else map_prod id Answer (auth_reply U cfg arg s))
      else if cmd = ''MAIL'' then map_prod id Answer (mail_command U cfg arg hasArg s)
      else if cmd = ''RCPT'' then map_prod id Answer (rcpt_command U cfg arg hasArg s)
      else if cmd = ''DATA'' then
        (if hasArg then (s, Answer (enhancedReply 501 statusInvalidArguments ''Syntax: DATA''))
         else if se_state s \<noteq> MailReceived \<or> env_Recipients (se_Envelope s) = [] then
           (s, Answer (enhancedReply 503 statusInvalidCommand ''Bad sequence of commands''))
         else (s, AskForData))
      else if cmd = ''QUIT'' then
        (if hasArg then (s, Answer (enhancedReply 501 statusInvalidArguments ''Syntax: QUIT''))
         else (s, AnswerAndClose (enhancedReply 221 statusOtherSuccess ''Bye'')))
      else (s, Answer (enhancedReply 500 statusSyntaxError ''Command unrecognized'')))"


section \<open>Serving a connection\<close>

text \<open>
  The environment: the parser of \<^verbatim>\<open>internal/mail\<close>, the sink (absent, or whether its n-th call
  succeeds for a session and message), and which of the writes to the connection fail.
\<close>

record 'm smtp_env =
  ev_unicode :: unicode
  ev_config :: smtpConfig
  ev_parse :: "string \<Rightarrow> 'm option"
  ev_sink :: "(nat \<Rightarrow> session \<Rightarrow> 'm \<Rightarrow> bool) option"
  ev_writeFails :: "nat \<Rightarrow> bool"

datatype 'm srv_event = Sent reply | SendFailed reply | SinkCall session 'm bool

definition send :: "'m smtp_env \<Rightarrow> 'm srv_event list \<Rightarrow> reply \<Rightarrow> 'm srv_event" where
  "send E evs r = (if reply_wire r = None \<or> ev_writeFails E (length evs) then SendFailed r else Sent r)"

definition send_ok :: "'m srv_event \<Rightarrow> bool" where
  "send_ok e = (case e of Sent _ \<Rightarrow> True | _ \<Rightarrow> False)"

text \<open>What follows a complete DATA transfer: the sink call, if any, and the reply.\<close>

definition finish_data ::
  "'m smtp_env \<Rightarrow> 'm srv_event list \<Rightarrow> session \<Rightarrow> dataReadResult \<Rightarrow> 'm srv_event list \<times> reply" where
  "finish_data E evs s res =
     (if dr_oversized res then ([], enhancedReply 552 statusMessageTooLarge ''Message size exceeds fixed limit'')
      else if dr_malformed res then ([], enhancedReply 554 statusMessageContentError ''Malformed mail data'')
      else case ev_parse E (dr_raw res) of
          None \<Rightarrow> ([], enhancedReply 554 statusMessageContentError ''Message content rejected'')
        | Some m \<Rightarrow>
            (case ev_sink E of
               None \<Rightarrow> ([], enhancedReply 250 statusMessageAccepted ''Message accepted by MailX'')
             | Some sink \<Rightarrow>
                 if sink (length evs) s m then
                   ([SinkCall s m True], enhancedReply 250 statusMessageAccepted ''Message accepted by MailX'')
                 else ([SinkCall s m False], enhancedReply 451 statusTemporarySystem ''Temporary internal failure'')))"

definition cmd_limit :: "'m smtp_env \<Rightarrow> nat" where
  "cmd_limit E = nat (sc_CommandLineLimit (ev_config E))"

lemma readData_shorter: "readData_loop n maxSize d s = Some (res, r) \<Longrightarrow> length r < length s"
proof (induction n maxSize d s rule: readData_loop.induct)
  case (1 n maxSize d s)
  have less: "a < b \<Longrightarrow> b < c \<Longrightarrow> a < (c :: nat)" for a b c by simp
  show ?case
  proof (cases "ReadSlice n s")
    case (Slice f t)
    then show ?thesis
      using 1(1) [OF Slice] 1(3) ReadSlice_shorter(1) [OF Slice]
      by (subst (asm) readData_loop.simps) (auto split: sum.splits dest: less)
  next
    case (BufferFull f t)
    then show ?thesis
      using 1(2) [OF BufferFull] 1(3) ReadSlice_shorter(2) [OF BufferFull]
      by (subst (asm) readData_loop.simps) (auto split: sum.splits dest: less)
  next
    case Ended
    then show ?thesis using 1(3) by (subst (asm) readData_loop.simps) simp
  qed
qed

lemma readCommand_shorter:
  "readCommand n s = CommandLine l r \<Longrightarrow> length r < length s" "readCommand n s = BadFraming r \<Longrightarrow> length r < length s"
  by (auto simp: readCommand_def split: slice.splits if_splits dest: ReadSlice_shorter)

text \<open>
  \<^verbatim>\<open>serve\<close> after the greeting: the events of the rest of the session. Every turn reads at least
  one byte, so the loop ends with the input.
\<close>

function serve_loop :: "'m smtp_env \<Rightarrow> session \<Rightarrow> 'm srv_event list \<Rightarrow> string \<Rightarrow> 'm srv_event list" where
  "serve_loop E s evs input =
     (case readCommand (cmd_limit E) input of
        Closed \<Rightarrow> evs
      | TooLong \<Rightarrow> evs @ [send E evs (enhancedReply 500 statusSyntaxError ''Line too long'')]
      | BadFraming rest \<Rightarrow>
          let e = send E evs (enhancedReply 500 statusSyntaxError ''Syntax error, command unrecognized'')
          in if send_ok e then serve_loop E s (evs @ [e]) rest else evs @ [e]
      | CommandLine line rest \<Rightarrow>
          (case cmd_split line of (cmd, arg, hasArg, valid) \<Rightarrow>
             if \<not> valid then
               let e = send E evs (if cmd = [] \<or> \<not> isKnownCommand cmd
                         then enhancedReply 500 statusSyntaxError ''Syntax error, command unrecognized''
                         else enhancedReply 501 statusInvalidArguments ''Syntax error in parameters or arguments'')
               in if send_ok e then serve_loop E s (evs @ [e]) rest else evs @ [e]
             else case do_command (ev_unicode E) (ev_config E) cmd arg hasArg s of
               (s1, Answer r) \<Rightarrow>
                 let e = send E evs r in if send_ok e then serve_loop E s1 (evs @ [e]) rest else evs @ [e]
             | (s1, AnswerAndClose r) \<Rightarrow> evs @ [send E evs r]
             | (s1, AskForData) \<Rightarrow>
                 let e = send E evs (standardReply 354 ''End data with <CR><LF>.<CR><LF>'')
                 in if \<not> send_ok e then evs @ [e]
                    else case readData (cmd_limit E) (sc_MaxMessageSize (ev_config E)) rest of
                        None \<Rightarrow> evs @ [e]
                      | Some (res, rest') \<Rightarrow>
                          let (calls, r) = finish_data E (evs @ [e]) s1 res;
                              evs1 = evs @ [e] @ calls;
                              e1 = send E evs1 r
                          in if send_ok e1 then serve_loop E (resetTransaction s1) (evs1 @ [e1]) rest'
                             else evs1 @ [e1]))"
  by pat_completeness auto
termination
proof (relation "measure (\<lambda>(E, s, evs, input). length input)", goal_cases)
  case 1
  show ?case by simp
qed (auto dest!: readCommand_shorter readData_shorter simp: readData_def)

declare serve_loop.simps [simp del]

definition serve :: "'m smtp_env \<Rightarrow> string \<Rightarrow> string \<Rightarrow> 'm srv_event list" where
  "serve E sid input =
     (let e = send E [] (standardReply 220 ''localhost MailX SMTP Server'');
          s = \<lparr>se_ID = sid, se_state = Connected, se_Envelope = empty_envelope, se_Authenticated = False,
               se_TenantID = []\<rparr>
      in if send_ok e then serve_loop E s [e] input else [e])"


section \<open>Reasoning about sessions\<close>

abbreviation accepted_reply :: reply where
  "accepted_reply \<equiv> enhancedReply 250 statusMessageAccepted ''Message accepted by MailX''"

lemmas reply_defs = enhancedReply_def standardReply_def multilineReply_def
  statusOtherSuccess_def statusSenderAccepted_def statusRecipientAccepted_def statusMessageAccepted_def
  statusTemporarySystem_def statusTooManyRecipients_def statusInvalidCommand_def statusSyntaxError_def
  statusInvalidArguments_def statusMessageTooLarge_def statusMessageContentError_def

lemma cmd_split_ascii:
  "cmd_split line = (cmd, arg, hasArg, True) \<Longrightarrow> isASCIICommandText arg \<and> (\<not> hasArg \<longrightarrow> arg = [])"
  by (auto simp: cmd_split_def Let_def isASCIICommandText_def list_all_iff dest: in_set_dropD
      split: if_splits option.splits)

lemma auth_reply_not_accepted: "snd (auth_reply U cfg arg s) \<noteq> accepted_reply"
  by (auto simp: auth_reply_def reply_defs split: prod.splits option.splits)

lemma mail_command_not_accepted: "snd (mail_command U cfg arg h s) \<noteq> accepted_reply"
  by (auto simp: mail_command_def reply_defs split: option.splits)

lemma rcpt_command_not_accepted: "snd (rcpt_command U cfg arg h s) \<noteq> accepted_reply"
  by (auto simp: rcpt_command_def reply_defs split: option.splits)

lemma if_ne: "(c \<Longrightarrow> a \<noteq> x) \<Longrightarrow> (\<not> c \<Longrightarrow> b \<noteq> x) \<Longrightarrow> (if c then a else b) \<noteq> x"
  by simp

lemma do_command_not_accepted:
  "do_command U cfg cmd arg h s = (s', Answer r) \<Longrightarrow> r \<noteq> accepted_reply"
  "do_command U cfg cmd arg h s = (s', AnswerAndClose r) \<Longrightarrow> r \<noteq> accepted_reply"
proof -
  have m: "snd x \<noteq> accepted_reply \<Longrightarrow> map_prod id Answer x \<noteq> (s', Answer accepted_reply)" "map_prod id Answer x \<noteq> (s', AnswerAndClose accepted_reply)"
    for x :: "session \<times> reply" by (cases x, simp)+
  have "do_command U cfg cmd arg h s \<noteq> (s', Answer accepted_reply)" "do_command U cfg cmd arg h s \<noteq> (s', AnswerAndClose accepted_reply)"
    unfolding do_command_def Let_def
    by (intro if_ne m auth_reply_not_accepted mail_command_not_accepted rcpt_command_not_accepted; simp add: reply_defs)+
  then show "do_command U cfg cmd arg h s = (s', Answer r) \<Longrightarrow> r \<noteq> accepted_reply" "do_command U cfg cmd arg h s = (s', AnswerAndClose r) \<Longrightarrow> r \<noteq> accepted_reply"
    by blast+
qed

lemma do_command_data:
  "do_command U cfg cmd arg h s = (s', AskForData) \<Longrightarrow>
     s' = s \<and> se_state s = MailReceived \<and> env_Recipients (se_Envelope s) \<noteq> []"
  by (auto simp: do_command_def Let_def map_prod_def split: if_splits prod.splits)

text \<open>
  A property of the events so far that ordinary replies and the end of a DATA transfer keep, and
  a property of the session that commands and resets keep, hold throughout.
\<close>

lemma serve_loop_inv:
  assumes cmd: "\<And>cmd arg h s. I s \<Longrightarrow> isASCIICommandText arg \<Longrightarrow> I (fst (do_command (ev_unicode E) (ev_config E) cmd arg h s))"
    and reset: "\<And>s. I s \<Longrightarrow> I (resetTransaction s)"
    and answer: "\<And>evs r. Q evs \<Longrightarrow> r \<noteq> accepted_reply \<Longrightarrow> Q (evs @ [send E evs r])"
    and data: "\<And>evs s res input rest calls r. Q evs \<Longrightarrow> I s \<Longrightarrow> se_state s = MailReceived \<Longrightarrow>
        env_Recipients (se_Envelope s) \<noteq> [] \<Longrightarrow>
        readData (cmd_limit E) (sc_MaxMessageSize (ev_config E)) input = Some (res, rest) \<Longrightarrow>
        finish_data E evs s res = (calls, r) \<Longrightarrow> Q (evs @ calls @ [send E (evs @ calls) r])"
  shows "I s \<Longrightarrow> Q evs \<Longrightarrow> Q (serve_loop E s evs input)"
proof (induction "length input" arbitrary: s evs input rule: less_induct)
  case less
  have cont: "Q (let e = send E evs r in if send_ok e then serve_loop E s1 (evs @ [e]) rest else evs @ [e])"
    if "r \<noteq> accepted_reply" "I s1" "length rest < length input" for r s1 rest
    using answer [OF less(3) that(1)] less(1) [OF that(3) that(2)] by (simp add: Let_def)
  have plain: "enhancedReply 500 statusSyntaxError t \<noteq> accepted_reply"
    "enhancedReply 501 statusInvalidArguments t \<noteq> accepted_reply" "standardReply 354 t \<noteq> accepted_reply" for t
    by (simp_all add: reply_defs)
  show ?case
  proof (cases "readCommand (cmd_limit E) input")
    case (CommandLine line rest)
    obtain c arg h valid where split: "cmd_split line = (c, arg, h, valid)" by (metis prod_cases4)
    have short: "length rest < length input" using readCommand_shorter(1) [OF CommandLine] .
    show ?thesis
    proof (cases valid)
      case False
      then show ?thesis
        using CommandLine split cont [OF plain(1) less(2) short] cont [OF plain(2) less(2) short]
        by (subst serve_loop.simps) simp
    next
      case True
      then have ascii: "isASCIICommandText arg" using cmd_split_ascii [of line c arg h] split by simp
      obtain s1 act where act: "do_command (ev_unicode E) (ev_config E) c arg h s = (s1, act)" by fastforce
      have I1: "I s1" using cmd [OF less(2) ascii, of c h] act by simp
      show ?thesis
      proof (cases act)
        case (Answer r)
        then show ?thesis
          using CommandLine split True act cont [OF _ I1 short] do_command_not_accepted(1)
          by (subst serve_loop.simps) auto
      next
        case (AnswerAndClose r)
        then show ?thesis
          using CommandLine split True act answer [OF less(3)] do_command_not_accepted(2)
          by (subst serve_loop.simps) auto
      next
        case AskForData
        let ?e = "send E evs (standardReply 354 ''End data with <CR><LF>.<CR><LF>'')"
        have s1: "s1 = s" "se_state s = MailReceived" "env_Recipients (se_Envelope s) \<noteq> []"
          using do_command_data act AskForData by auto
        have Qe: "Q (evs @ [?e])" using answer [OF less(3) plain(3)] .
        have step: "Q (evs @ [?e] @ calls @ [send E (evs @ [?e] @ calls) r])" "length rest' < length input"
          if "readData (cmd_limit E) (sc_MaxMessageSize (ev_config E)) rest = Some (res, rest')"
            "finish_data E (evs @ [?e]) s res = (calls, r)" for res rest' calls r
          using data [OF Qe less(2) s1(2,3) that]
            less_trans [OF readData_shorter [OF that(1) [unfolded readData_def]] short] by auto
        show ?thesis
          using CommandLine split True act AskForData s1(1) Qe step less(1) reset [OF less(2)]
          by (subst serve_loop.simps) (auto simp: Let_def split: option.splits prod.splits)
      qed
    qed
  next
    case TooLong
    then show ?thesis using answer [OF less(3) plain(1)] by (subst serve_loop.simps) simp
  next
    case (BadFraming rest)
    then show ?thesis
      using cont [OF plain(1) less(2)] readCommand_shorter(2) [OF BadFraming] by (subst serve_loop.simps) simp
  next
    case Closed
    then show ?thesis using less(3) by (subst serve_loop.simps) simp
  qed
qed

section \<open>What a session guarantees\<close>

text \<open>A path as \<^verbatim>\<open>parsePathArgument\<close> accepts it.\<close>

definition path_ok :: "string \<Rightarrow> bool" where
  "path_ok p \<longleftrightarrow>
     (\<exists>mbox. p = CHR ''<'' # mbox @ ''>'' \<and> isASCIICommandText mbox \<and>
        \<not> ContainsAny mbox [CHR '' '', CHR ''<'', CHR ''>'', CHR 0x09])"

lemma isASCIICommandText_ascii: "isASCIICommandText s \<Longrightarrow> ascii s"
  by (auto simp: isASCIICommandText_def ascii_def list_all_iff)

lemma lower_byte_lt: "lower_byte c = CHR ''<'' \<longleftrightarrow> c = CHR ''<''"
  by (auto simp: lower_byte_def is_upper_def dest: arg_cong [where f = byte])

lemma parsePathArgument_ok:
  assumes run: "parsePathArgument U arg h kw allow = Some p" and arg: "isASCIICommandText arg" and kw: "ascii kw"
  shows "path_ok p" and "\<not> allow \<Longrightarrow> p \<noteq> ''<>''"
proof -
  let ?pre = "kw @ '':<''" and ?n = "Suc (length kw)"
  have len: "length arg \<ge> length kw + 3" and fold: "EqualFold U (take (length kw + 2) arg) ?pre" and
    gt: "last arg = CHR ''>''" and p: "p = drop ?n arg" and
    mb: "isASCIICommandText (take (length p - 2) (drop 1 p))"
      "\<not> ContainsAny (take (length p - 2) (drop 1 p)) [CHR '' '', CHR ''<'', CHR ''>'', CHR 0x09]"
    using run by (auto simp: parsePathArgument_def Let_def split: if_splits)
  have "ascii (take (length kw + 2) arg)" using isASCIICommandText_ascii [OF arg]
    by (auto simp: ascii_def list_all_iff dest: in_set_takeD)
  moreover have "ascii ?pre" using kw by (simp add: ascii_def)
  ultimately have "map lower_byte (take (length kw + 2) arg) = map lower_byte ?pre"
    using fold by (simp add: EqualFold_def)
  from arg_cong [OF this, of "\<lambda>xs. xs ! ?n"] have "lower_byte (arg ! ?n) = lower_byte (CHR ''<'')"
    using len by (simp add: nth_append)
  then have lt: "arg ! ?n = CHR ''<''" using lower_byte_lt [of "arg ! ?n"] lower_byte_lt [of "CHR ''<''"] by simp
  have p2: "length p \<ge> 2" "p ! 0 = CHR ''<''" "last p = CHR ''>''"
    using len lt gt by (simp_all add: p last_drop)
  then obtain x q where q: "p = x # q" "q \<noteq> []" by (cases p) (auto simp: Suc_le_length_iff)
  then have "q = butlast q @ ''>''" using p2(3) by (metis append_butlast_last_id last_ConsR)
  moreover have "take (length p - 2) (drop 1 p) = butlast q" by (simp add: q(1) butlast_conv_take)
  ultimately show "path_ok p" unfolding path_ok_def using mb p2(2) q(1) by (metis nth_Cons_0)
  have "\<not> allow \<Longrightarrow> length p \<noteq> 2" using run by (auto simp: parsePathArgument_def Let_def split: if_splits)
  then show "\<not> allow \<Longrightarrow> p \<noteq> ''<>''" by auto
qed

text \<open>The session between two commands.\<close>

definition srv_inv :: "smtpConfig \<Rightarrow> session \<Rightarrow> bool" where
  "srv_inv cfg s \<longleftrightarrow>
     (se_state s = MailReceived \<longrightarrow> (sc_RequireAuth cfg \<longrightarrow> se_Authenticated s) \<and>
        path_ok (env_MailFrom (se_Envelope s))) \<and>
     list_all (\<lambda>p. path_ok p \<and> p \<noteq> ''<>'') (env_Recipients (se_Envelope s)) \<and>
     (se_state s \<noteq> MailReceived \<longrightarrow> env_Recipients (se_Envelope s) = []) \<and>
     int (length (env_Recipients (se_Envelope s))) \<le> sc_MaxRecipients cfg"

lemma srv_inv_reset: "0 \<le> sc_MaxRecipients cfg \<Longrightarrow> srv_inv cfg (resetTransaction s)"
  by (simp add: srv_inv_def resetTransaction_def empty_envelope_def Let_def)

lemma srv_inv_auth: "srv_inv cfg s \<Longrightarrow> srv_inv cfg (fst (auth_reply U cfg arg s))"
  by (auto simp: auth_reply_def srv_inv_def split: prod.splits option.splits)

lemma srv_inv_mail:
  "srv_inv cfg s \<Longrightarrow> isASCIICommandText arg \<Longrightarrow> srv_inv cfg (fst (mail_command U cfg arg h s))"
  using parsePathArgument_ok(1) [of U arg h "''FROM''" True]
  by (auto simp: mail_command_def srv_inv_def ascii_def split: option.splits)

lemma srv_inv_rcpt:
  "srv_inv cfg s \<Longrightarrow> isASCIICommandText arg \<Longrightarrow> srv_inv cfg (fst (rcpt_command U cfg arg h s))"
  using parsePathArgument_ok [of U arg h "''TO''" False]
  by (auto simp: rcpt_command_def srv_inv_def ascii_def split: option.splits)

lemma srv_inv_command:
  assumes "srv_inv cfg s" "isASCIICommandText arg" "0 \<le> sc_MaxRecipients cfg"
  shows "srv_inv cfg (fst (do_command U cfg cmd arg h s))"
proof -
  have "srv_inv cfg ((resetTransaction s)\<lparr>se_state := Greeted\<rparr>)"
    using assms(3) by (simp add: srv_inv_def resetTransaction_def empty_envelope_def Let_def)
  then show ?thesis
    using srv_inv_auth [OF assms(1)] srv_inv_mail [OF assms(1,2)] srv_inv_rcpt [OF assms(1,2)]
      srv_inv_reset [OF assms(3)] assms(1)
    by (simp add: do_command_def Let_def)
qed


text \<open>What may be handed to the sink.\<close>

definition sink_ok :: "'m smtp_env \<Rightarrow> 'm srv_event \<Rightarrow> bool" where
  "sink_ok E e =
     (case e of SinkCall s m b \<Rightarrow>
        srv_inv (ev_config E) s \<and> se_state s = MailReceived \<and> env_Recipients (se_Envelope s) \<noteq> [] \<and>
        (\<exists>ls. (\<forall>l\<in>set ls. clean_line l) \<and> ev_parse E (wire_lines ls) = Some m \<and>
           int (length (wire_lines ls)) \<le> sc_MaxMessageSize (ev_config E))
      | _ \<Rightarrow> True)"

lemma send_sink_ok [simp]: "sink_ok E (send E' evs r)"
  by (simp add: sink_ok_def send_def)

lemma finish_data_sink_ok:
  assumes "finish_data E evs s res = (calls, r)" "readData n (sc_MaxMessageSize (ev_config E)) input = Some (res, rest)"
    and "0 \<le> sc_MaxMessageSize (ev_config E)" "srv_inv (ev_config E) s" "se_state s = MailReceived"
    and "env_Recipients (se_Envelope s) \<noteq> []"
  shows "list_all (sink_ok E) calls"
proof -
  have "data_inv (sc_MaxMessageSize (ev_config E)) data_start" using assms(3)
    by (simp add: data_inv_def data_start_def exI [of _ "[]"])
  from readData_loop_safe [OF this assms(2) [unfolded readData_def]] show ?thesis
    using assms(1,4-6)
    by (fastforce simp: finish_data_def sink_ok_def split: if_splits option.splits)
qed

lemma serve_sink_ok:
  assumes "0 \<le> sc_MaxRecipients (ev_config E)" "0 \<le> sc_MaxMessageSize (ev_config E)"
    and "SinkCall s m ok \<in> set (serve E sid input)"
  shows "sink_ok E (SinkCall s m ok)"
proof -
  let ?s0 = "\<lparr>se_ID = sid, se_state = Connected, se_Envelope = empty_envelope, se_Authenticated = False,
      se_TenantID = []\<rparr>"
  have "list_all (sink_ok E) (serve_loop E ?s0 [e] input)" if "sink_ok E e" for e
  proof (rule serve_loop_inv [where I = "srv_inv (ev_config E)" and Q = "list_all (sink_ok E)"])
    show "srv_inv (ev_config E) ?s0" using assms(1) by (simp add: srv_inv_def empty_envelope_def)
    show "list_all (sink_ok E) [e]" using that by simp
  qed (use assms(1,2) in \<open>auto intro!: srv_inv_command srv_inv_reset finish_data_sink_ok\<close>)
  then have "list_all (sink_ok E) (serve E sid input)" by (simp add: serve_def Let_def)
  then show ?thesis using assms(3) by (metis list_all_iff)
qed

text \<open>
  Whatever a client sends, the server hands a message to the sink only for a complete
  transaction: with a syntactically valid sender and between one and \<open>MaxRecipients\<close> valid
  recipients that are not the null path, authenticated when authentication is required, and with content that consists of
  clean CRLF lines within \<open>MaxMessageSize\<close>.
\<close>

theorem serve_sink_guard:
  assumes "0 \<le> sc_MaxRecipients (ev_config E)" "0 \<le> sc_MaxMessageSize (ev_config E)"
    and "SinkCall s m ok \<in> set (serve E sid input)"
  shows "env_Recipients (se_Envelope s) \<noteq> [] \<and>
    int (length (env_Recipients (se_Envelope s))) \<le> sc_MaxRecipients (ev_config E) \<and>
    path_ok (env_MailFrom (se_Envelope s)) \<and>
    (\<forall>p\<in>set (env_Recipients (se_Envelope s)). path_ok p \<and> p \<noteq> ''<>'') \<and>
    (sc_RequireAuth (ev_config E) \<longrightarrow> se_Authenticated s) \<and>
    (\<exists>ls. (\<forall>l\<in>set ls. clean_line l) \<and> ev_parse E (wire_lines ls) = Some m \<and>
       int (length (wire_lines ls)) \<le> sc_MaxMessageSize (ev_config E))"
  using serve_sink_ok [OF assms] by (auto simp: sink_ok_def srv_inv_def list_all_iff)

definition srv_demo_env :: "string smtp_env" where
  "srv_demo_env = \<lparr>ev_unicode = plain_unicode, ev_config = DefaultConfig, ev_parse = Some,
     ev_sink = Some (\<lambda>_ _ _. True), ev_writeFails = (\<lambda>_. False)\<rparr>"

definition srv_demo_input :: string where
  "srv_demo_input = ''HELO c'' @ crlf @ ''MAIL FROM:<a@b>'' @ crlf @ ''RCPT TO:<c@d>'' @ crlf @
     ''DATA'' @ crlf @ ''hi'' @ crlf @ ''.'' @ crlf"

definition srv_demo_session :: session where
  "srv_demo_session = \<lparr>se_ID = ''id'', se_state = MailReceived,
     se_Envelope = \<lparr>env_MailFrom = ''<a@b>'', env_Recipients = [''<c@d>'']\<rparr>, se_Authenticated = False, se_TenantID = []\<rparr>"

lemma srv_demo_run:
  "serve srv_demo_env ''id'' srv_demo_input =
     [Sent (standardReply 220 ''localhost MailX SMTP Server''), Sent (standardReply 250 ''localhost''),
      Sent (enhancedReply 250 statusSenderAccepted ''Sender OK''),
      Sent (enhancedReply 250 statusRecipientAccepted ''Recipient OK''),
      Sent (standardReply 354 ''End data with <CR><LF>.<CR><LF>''),
      SinkCall srv_demo_session (''hi'' @ crlf) True, Sent accepted_reply]"
  by code_simp

theorem serve_sink_guard_witness:
  "path_ok ''<a@b>'' \<and> path_ok ''<c@d>''"
proof -
  have "SinkCall srv_demo_session (''hi'' @ crlf) True \<in> set (serve srv_demo_env ''id'' srv_demo_input)"
    unfolding srv_demo_run by simp
  then show ?thesis
    using serve_sink_guard [of srv_demo_env srv_demo_session "''hi'' @ crlf" True "''id''" srv_demo_input]
    by (simp add: srv_demo_env_def srv_demo_session_def DefaultConfig_def DefaultMaxRecipients_def
        DefaultMaxMessageSize_def)
qed

definition sink_first :: "'m srv_event list \<Rightarrow> bool" where
  "sink_first evs \<longleftrightarrow>
     (\<forall>k < length evs. evs ! k = Sent accepted_reply \<longrightarrow> 0 < k \<and> (\<exists>s m. evs ! (k - 1) = SinkCall s m True))"

lemma sink_first_snoc:
  "sink_first evs \<Longrightarrow> (e = Sent accepted_reply \<Longrightarrow> evs \<noteq> [] \<and> (\<exists>s m. last evs = SinkCall s m True)) \<Longrightarrow>
     sink_first (evs @ [e])"
  by (auto simp: sink_first_def nth_append last_conv_nth less_Suc_eq)

lemma sink_first_single: "sink_first [e] \<longleftrightarrow> e \<noteq> Sent accepted_reply"
  by (auto simp: sink_first_def)

lemma send_Sent: "send E evs r = Sent r' \<Longrightarrow> r' = r"
  by (auto simp: send_def split: if_splits)

lemma sink_first_answer: "sink_first evs \<Longrightarrow> r \<noteq> accepted_reply \<Longrightarrow> sink_first (evs @ [send E evs' r])"
  by (rule sink_first_snoc) (auto dest: send_Sent)

lemma sink_first_data:
  assumes "sink_first evs" "finish_data E evs s res = (calls, r)" "ev_sink E \<noteq> None"
  shows "sink_first (evs @ calls @ [send E (evs @ calls) r])"
proof -
  consider "calls = []" "r \<noteq> accepted_reply" | m b where "calls = [SinkCall s m b]" "r = accepted_reply \<longrightarrow> b"
    using assms(2,3) by (auto simp: finish_data_def reply_defs split: if_splits option.splits)
  then show ?thesis
  proof cases
    case 1
    then show ?thesis using sink_first_answer [OF assms(1)] by simp
  next
    case (2 m b)
    have "sink_first (evs @ [SinkCall s m b])" by (rule sink_first_snoc [OF assms(1)]) simp
    from sink_first_snoc [OF this, of "send E (evs @ calls) r"] show ?thesis using 2 by (auto dest: send_Sent)
  qed
qed

text \<open>
  (C9) The server promises delivery only when the sink has taken the message: the 250 reply
  that accepts message data is sent directly after a sink call that succeeded.
\<close>

theorem serve_accepts_after_sink:
  assumes "ev_sink E \<noteq> None" and "k < length (serve E sid input)" "serve E sid input ! k = Sent accepted_reply"
  shows "0 < k \<and> (\<exists>s m. serve E sid input ! (k - 1) = SinkCall s m True)"
proof -
  have "sink_first (serve_loop E s0 [e] input)" if "e \<noteq> Sent accepted_reply" for e s0
    by (rule serve_loop_inv [where I = "\<lambda>_. True" and Q = sink_first])
       (use that assms(1) sink_first_answer sink_first_data sink_first_single in blast)+
  moreover have "send E [] (standardReply 220 t) \<noteq> Sent accepted_reply" for t
    by (auto simp: reply_defs dest: send_Sent)
  ultimately have "sink_first (serve E sid input)" by (simp add: serve_def Let_def sink_first_single)
  then show ?thesis using assms(2,3) by (simp add: sink_first_def)
qed

theorem serve_accepts_after_sink_witness:
  "\<exists>s m. serve srv_demo_env ''id'' srv_demo_input ! 5 = SinkCall s m True"
proof -
  have "ev_sink srv_demo_env \<noteq> None" by (simp add: srv_demo_env_def)
  from serve_accepts_after_sink [OF this, of 6 "''id''" srv_demo_input] show ?thesis by (simp add: srv_demo_run)
qed

end
