(* ===== verification/SMTP_Client.thy ===== *)
theory SMTP_Client
  imports SMTP_Data Base64
begin

text \<open>
  The outbound SMTP client of \<^verbatim>\<open>internal/smtp\<close> (\<^verbatim>\<open>client.go\<close>, \<^verbatim>\<open>client_config.go\<close>,
  \<^verbatim>\<open>client_reply.go\<close>, \<^verbatim>\<open>client_tls.go\<close>, \<^verbatim>\<open>client_auth.go\<close>, \<^verbatim>\<open>client_error.go\<close>): one transaction over
  one connection. The peer is a parameter: the bytes it sends before and after the TLS
  handshake, how each stream ends, how the handshake ends, and which writes fail. The model
  records every write with the state of TLS at that moment.
\<close>

section \<open>Stages and errors\<close>

datatype stage =
    StageDial | StageGreeting | StageEHLO | StageHELO | StageStartTLS | StageTLS | StageAuth
  | StageEHLOTLS | StageMailFrom | StageRcptTo | StageData | StageMessage | StageDataResponse
  | StageQuit | StageInvalidInput | StageUnknown

text \<open>An I/O error by what the code can tell of it.\<close>

datatype io_error = IO_EOF | IO_Timeout | IO_Lost | IO_Protocol

definition isTimeout :: "io_error \<Rightarrow> bool" where
  "isTimeout e \<longleftrightarrow> e = IO_Timeout"

definition isConnLost :: "io_error \<Rightarrow> bool" where
  "isConnLost e \<longleftrightarrow> e = IO_EOF \<or> e = IO_Lost"

record deliveryError =
  de_Stage :: stage
  de_Code :: nat
  de_Enhanced :: string
  de_Remote :: string
  de_Recipient :: string
  de_Temporary :: bool

definition stageError :: "stage \<Rightarrow> deliveryError" where
  "stageError st = \<lparr>de_Stage = st, de_Code = 0, de_Enhanced = [], de_Remote = [], de_Recipient = [],
     de_Temporary = False\<rparr>"

definition replyError :: "stage \<Rightarrow> nat \<Rightarrow> string \<Rightarrow> string \<Rightarrow> deliveryError" where
  "replyError st code enh msg = \<lparr>de_Stage = st, de_Code = code, de_Enhanced = enh, de_Remote = msg,
     de_Recipient = [], de_Temporary = (code \<ge> 400 \<and> code < 500)\<rparr>"

definition deliveryErrorFromRead :: "stage \<Rightarrow> deliveryError" where
  "deliveryErrorFromRead st = stageError st"

section \<open>Configuration\<close>

datatype tls_policy = TLSOpportunistic | TLSRequired

definition ParseTLSPolicy :: "unicode \<Rightarrow> string \<Rightarrow> tls_policy option" where
  "ParseTLSPolicy U s =
     (let t = ToLower U (TrimSpace s)
      in if t = [] \<or> t = ''opportunistic'' then Some TLSOpportunistic
         else if t = ''required'' then Some TLSRequired
         else None)"

record clientConfig =
  cc_Identity :: string
  cc_DialTimeout :: duration
  cc_ReadTimeout :: duration
  cc_WriteTimeout :: duration
  cc_MaxReplyLineBytes :: int
  cc_MaxReplyLines :: int
  cc_TLSPolicy :: tls_policy
  cc_HandshakeTimeout :: duration

definition DefaultReplyLineLimit :: int where "DefaultReplyLineLimit = 512"
definition DefaultReplyLineCount :: int where "DefaultReplyLineCount = 128"

definition or_default :: "int \<Rightarrow> int \<Rightarrow> int" where
  "or_default v d = (if v = 0 then d else v)"

definition cc_defaults :: "clientConfig \<Rightarrow> clientConfig" where
  "cc_defaults c = c\<lparr>cc_DialTimeout := or_default (cc_DialTimeout c) (30 * second),
     cc_ReadTimeout := or_default (cc_ReadTimeout c) (5 * minute),
     cc_WriteTimeout := or_default (cc_WriteTimeout c) (5 * minute),
     cc_MaxReplyLineBytes := or_default (cc_MaxReplyLineBytes c) DefaultReplyLineLimit,
     cc_MaxReplyLines := or_default (cc_MaxReplyLines c) DefaultReplyLineCount,
     cc_HandshakeTimeout := or_default (cc_HandshakeTimeout c) (30 * second)\<rparr>"

definition cc_normalized :: "clientConfig \<Rightarrow> clientConfig option" where
  "cc_normalized c0 =
     (let c1 = (if cc_Identity c0 = [] then c0\<lparr>cc_Identity := ''localhost''\<rparr> else c0)
      in if ContainsAny (cc_Identity c1) [CHR 0x0D, CHR 0x0A, CHR 0x00, CHR 0x20, CHR 0x09] then None
         else
           let c = cc_defaults c1
           in if cc_HandshakeTimeout c < 0 then None
              else if cc_DialTimeout c < 0 \<or> cc_ReadTimeout c < 0 \<or> cc_WriteTimeout c < 0 then None
              else if cc_MaxReplyLineBytes c < DefaultReplyLineLimit then None
              else if cc_MaxReplyLines c \<le> 0 then None
              else Some c)"

section \<open>Replies\<close>

text \<open>
  \<^verbatim>\<open>readBoundedLine\<close> on the bytes still to come (\<open>fin\<close> is how the stream ends): the line without
  its CRLF and the remaining bytes, or the error.
\<close>

fun read_bounded :: "nat \<Rightarrow> io_error \<Rightarrow> string \<Rightarrow> string \<Rightarrow> (io_error + string) \<times> string" where
  "read_bounded 0 fin buf s = (Inl IO_Protocol, s)"
| "read_bounded (Suc n) fin buf [] = (Inl (if fin = IO_EOF \<and> buf \<noteq> [] then IO_Protocol else fin), [])"
| "read_bounded (Suc n) fin buf (b # s) =
     (if b = LF then
        (if buf = [] \<or> last buf \<noteq> CR then (Inl IO_Protocol, s) else (Inr (butlast buf), s))
      else read_bounded n fin (buf @ [b]) s)"

definition parseReplyLine :: "string \<Rightarrow> (nat \<times> bool \<times> string) option" where
  "parseReplyLine line =
     (if length line < 3 then None
      else if \<not> list_all is_digit (take 3 line) then None
      else
        let code = dec_val (take 3 line)
        in if code < 100 \<or> code > 599 then None
           else if length line = 3 then Some (code, False, [])
           else if line ! 3 \<noteq> CHR '' '' \<and> line ! 3 \<noteq> CHR ''-'' then None
           else Some (code, line ! 3 = CHR ''-'', drop 4 line))"

definition splitEnhanced :: "nat \<Rightarrow> string \<Rightarrow> string \<times> string" where
  "splitEnhanced code text =
     (if text = [] then ([], text)
      else
        let sp = IndexByte text (CHR '' '');
            head = (case sp of Some k \<Rightarrow> take k text | None \<Rightarrow> text);
            parts = split_byte (CHR ''.'') head
        in if length parts \<noteq> 3 then ([], text)
           else if list_ex (\<lambda>p. p = [] \<or> length p > 3 \<or> \<not> list_all is_digit p) parts then ([], text)
           else if byte (hd head) - 48 \<noteq> code div 100 then ([], text)
           else (head, case sp of Some k \<Rightarrow> drop (Suc k) text | None \<Rightarrow> []))"

record replyVal =
  rv_code :: nat
  rv_enh :: string
  rv_text :: string

text \<open>
  The loop of \<^verbatim>\<open>readReply\<close>: \<open>n\<close> lines may still come, \<open>first\<close> is the code of the first line,
  \<open>texts\<close> the texts so far.
\<close>

fun read_reply_lines ::
  "nat \<Rightarrow> nat \<Rightarrow> io_error \<Rightarrow> nat option \<Rightarrow> string list \<Rightarrow> string \<Rightarrow> (io_error + replyVal) \<times> string" where
  "read_reply_lines 0 maxLine fin first texts s = (Inl IO_Protocol, s)"
| "read_reply_lines (Suc n) maxLine fin first texts s =
     (case read_bounded maxLine fin [] s of
        (Inl e, s') \<Rightarrow> (Inl e, s')
      | (Inr line, s') \<Rightarrow>
          (case parseReplyLine line of
             None \<Rightarrow> (Inl IO_Protocol, s')
           | Some (code, cont, text) \<Rightarrow>
               if first \<noteq> None \<and> first \<noteq> Some code then (Inl IO_Protocol, s')
               else if \<not> cont then
                 let (enh, text') = splitEnhanced code text
                 in (Inr \<lparr>rv_code = code, rv_enh = enh, rv_text = join_with [LF] (texts @ [text'])\<rparr>, s')
               else read_reply_lines n maxLine fin (Some code) (texts @ [text]) s'))"

section \<open>Capabilities, credentials, outcomes\<close>

type_synonym capabilities = "(string \<times> string) list"

definition caps_has :: "capabilities \<Rightarrow> string \<Rightarrow> bool" where
  "caps_has c k \<longleftrightarrow> k \<in> set (map fst c)"

definition caps_put :: "string \<Rightarrow> string \<Rightarrow> capabilities \<Rightarrow> capabilities" where
  "caps_put k v c = (k, v) # filter (\<lambda>(k', _). k' \<noteq> k) c"

definition parseCapabilities :: "unicode \<Rightarrow> string \<Rightarrow> capabilities" where
  "parseCapabilities U text =
     fold (\<lambda>line caps. case Fields line of [] \<Rightarrow> caps | f # fs \<Rightarrow> caps_put (ToUpper U f) (join_with '' '' fs) caps)
       (drop 1 (split_byte LF text)) []"

record credentials =
  cr_Username :: string
  cr_Password :: string

definition cred_field_ok :: "string \<Rightarrow> bool" where
  "cred_field_ok v \<longleftrightarrow> v \<noteq> [] \<and> length v \<le> 255 \<and> \<not> ContainsAny v [CHR 0x0D, CHR 0x0A, CHR 0x00]"

definition cred_Validate :: "credentials \<Rightarrow> bool" where
  "cred_Validate c \<longleftrightarrow> cred_field_ok (cr_Username c) \<and> cred_field_ok (cr_Password c)"

text \<open>The map is iterated in no fixed order; the result is used as a set of names.\<close>

definition authMechanisms :: "unicode \<Rightarrow> capabilities \<Rightarrow> string list" where
  "authMechanisms U c =
     concat (map (\<lambda>(key, val).
       if key = ''AUTH'' then Fields (ToUpper U val)
       else if HasPrefix key ''AUTH='' then drop 5 key # Fields (ToUpper U val)
       else []) c)"

datatype auth_mechanism = PLAIN | LOGIN

definition chooseMechanism :: "unicode \<Rightarrow> string list \<Rightarrow> auth_mechanism option" where
  "chooseMechanism U advertised =
     (if ''PLAIN'' \<in> set (map (ToUpper U) advertised) then Some PLAIN
      else if ''LOGIN'' \<in> set (map (ToUpper U) advertised) then Some LOGIN
      else None)"

datatype tls_outcome =
    TLSNone | OutcomeEstablished | OutcomeNotOffered | OutcomeRequiredNoTLS | OutcomeRejected
  | OutcomeHandshakeTimeout | OutcomeVerifyFailed | OutcomeHandshakeFailed | OutcomeConnectionLost
  | OutcomeEHLOFailed | OutcomeCanceled | OutcomeProtocolViolation

record tlsInfo =
  ti_Policy :: tls_policy
  ti_Advertised :: bool
  ti_Attempted :: bool
  ti_Established :: bool
  ti_Version :: string
  ti_Outcome :: tls_outcome

datatype auth_outcome =
    AuthNone | AuthSuccess | AuthRejected | AuthTemporary | AuthNoTLS | AuthNotAdvertised
  | AuthNoMechanism | AuthProtocolError | AuthConnLost | AuthTimeout | AuthCanceled

record authInfo =
  ai_Attempted :: bool
  ai_Mechanism :: "auth_mechanism option"
  ai_Outcome :: auth_outcome

definition classifyIOError :: "bool \<Rightarrow> io_error \<Rightarrow> tls_outcome" where
  "classifyIOError ctxErr e =
     (if ctxErr then OutcomeCanceled
      else if isTimeout e then OutcomeHandshakeTimeout
      else if isConnLost e then OutcomeConnectionLost
      else OutcomeProtocolViolation)"

text \<open>A failed handshake: a certificate that does not verify, or an I/O error.\<close>

datatype hs_error = HsVerify | HsIO io_error

definition classifyHandshakeError :: "bool \<Rightarrow> hs_error \<Rightarrow> tls_outcome" where
  "classifyHandshakeError ctxErr e =
     (if ctxErr then OutcomeCanceled
      else case e of
          HsVerify \<Rightarrow> OutcomeVerifyFailed
        | HsIO io \<Rightarrow>
            if isTimeout io then OutcomeHandshakeTimeout
            else if isConnLost io then OutcomeConnectionLost
            else OutcomeHandshakeFailed)"

definition classifyAuthIO :: "bool \<Rightarrow> io_error \<Rightarrow> auth_outcome" where
  "classifyAuthIO ctxErr e =
     (if ctxErr then AuthCanceled
      else if isTimeout e then AuthTimeout
      else if isConnLost e then AuthConnLost
      else AuthProtocolError)"

definition versionLabel :: "nat \<Rightarrow> string" where
  "versionLabel v = (if v = 0x0303 then ''1.2'' else if v = 0x0304 then ''1.3'' else ''other'')"


section \<open>The connection\<close>

record peer =
  pe_dialFails :: bool
  pe_plain :: string
  pe_plainEnd :: io_error
  pe_early :: bool \<comment> \<open>bytes behind the STARTTLS reply arrived with it\<close>
  pe_handshake :: "hs_error + nat"
  pe_tls :: string
  pe_tlsEnd :: io_error
  pe_writeFails :: "nat \<Rightarrow> io_error option"
  pe_ctxErr :: bool \<comment> \<open>the context is done when an I/O error is classified\<close>

record clientSession =
  cs_in :: string
  cs_fin :: io_error
  cs_tlsOn :: bool
  cs_caps :: capabilities
  cs_tls :: tlsInfo
  cs_auth :: authInfo
  cs_log :: "(bool \<times> string) list" \<comment> \<open>every write, with whether it went over TLS\<close>

record client_env =
  ce_unicode :: unicode
  ce_config :: clientConfig
  ce_peer :: peer
  ce_creds :: "credentials option"

definition cl_write :: "client_env \<Rightarrow> string \<Rightarrow> clientSession \<Rightarrow> io_error option \<times> clientSession" where
  "cl_write E payload s =
     (pe_writeFails (ce_peer E) (length (cs_log s)), s\<lparr>cs_log := cs_log s @ [(cs_tlsOn s, payload)]\<rparr>)"

definition readReply :: "client_env \<Rightarrow> clientSession \<Rightarrow> (io_error + replyVal) \<times> clientSession" where
  "readReply E s =
     (case read_reply_lines (nat (cc_MaxReplyLines (ce_config E))) (nat (cc_MaxReplyLineBytes (ce_config E)))
             (cs_fin s) None [] (cs_in s) of
        (r, rest) \<Rightarrow> (r, s\<lparr>cs_in := rest\<rparr>))"

definition cl_command :: "client_env \<Rightarrow> string \<Rightarrow> clientSession \<Rightarrow> (io_error + replyVal) \<times> clientSession" where
  "cl_command E line s =
     (case cl_write E (line @ crlf) s of
        (Some e, s1) \<Rightarrow> (Inl e, s1)
      | (None, s1) \<Rightarrow> readReply E s1)"

section \<open>Greeting the server\<close>

definition ehlo_line :: "clientConfig \<Rightarrow> string" where "ehlo_line cfg = ''EHLO '' @ cc_Identity cfg"
definition helo_line :: "clientConfig \<Rightarrow> string" where "helo_line cfg = ''HELO '' @ cc_Identity cfg"
definition mail_line :: "string \<Rightarrow> string" where "mail_line path = ''MAIL FROM:'' @ path"
definition rcpt_line :: "string \<Rightarrow> string" where "rcpt_line path = ''RCPT TO:'' @ path"

definition hello :: "client_env \<Rightarrow> clientSession \<Rightarrow> deliveryError option \<times> clientSession" where
  "hello E s =
     (case cl_command E (ehlo_line (ce_config E)) s of
        (Inl _, s1) \<Rightarrow> (Some (deliveryErrorFromRead StageEHLO), s1)
      | (Inr r, s1) \<Rightarrow>
          if rv_code r = 250 then (None, s1\<lparr>cs_caps := parseCapabilities (ce_unicode E) (rv_text r)\<rparr>)
          else if rv_code r < 500 \<or> rv_code r > 599 then
            (Some (replyError StageEHLO (rv_code r) [] (rv_text r)), s1)
          else
            (case cl_command E (helo_line (ce_config E)) s1 of
               (Inl _, s2) \<Rightarrow> (Some (deliveryErrorFromRead StageHELO), s2)
             | (Inr r, s2) \<Rightarrow>
                 if rv_code r \<noteq> 250 then (Some (replyError StageHELO (rv_code r) [] (rv_text r)), s2)
                 else (None, s2\<lparr>cs_caps := []\<rparr>)))"

section \<open>STARTTLS\<close>

definition set_tls_outcome :: "tls_outcome \<Rightarrow> clientSession \<Rightarrow> clientSession" where
  "set_tls_outcome out s = s\<lparr>cs_tls := (cs_tls s)\<lparr>ti_Outcome := out\<rparr>\<rparr>"

definition tlsFail :: "stage \<Rightarrow> tls_outcome \<Rightarrow> clientSession \<Rightarrow> deliveryError option \<times> clientSession" where
  "tlsFail st out s = (Some ((stageError st)\<lparr>de_Temporary := True\<rparr>), set_tls_outcome out s)"

text \<open>The part of \<^verbatim>\<open>secure\<close> behind the server's agreement to start TLS.\<close>

definition upgrade :: "client_env \<Rightarrow> clientSession \<Rightarrow> deliveryError option \<times> clientSession" where
  "upgrade E s =
     (let P = ce_peer E; s1 = s\<lparr>cs_caps := []\<rparr>
      in case pe_handshake P of
           Inl e \<Rightarrow> tlsFail StageTLS (classifyHandshakeError (pe_ctxErr P) e) s1
         | Inr v \<Rightarrow>
             let s2 = s1\<lparr>cs_tlsOn := True, cs_in := pe_tls P, cs_fin := pe_tlsEnd P,
                         cs_tls := (cs_tls s1)\<lparr>ti_Established := True, ti_Version := versionLabel v\<rparr>\<rparr>
             in case cl_command E (ehlo_line (ce_config E)) s2 of
                  (Inl e, s3) \<Rightarrow> tlsFail StageEHLOTLS (classifyIOError (pe_ctxErr P) e) s3
                | (Inr r, s3) \<Rightarrow>
                    if rv_code r \<noteq> 250 then
                      (Some ((replyError StageEHLOTLS (rv_code r) (rv_enh r) (rv_text r))\<lparr>de_Temporary := True\<rparr>),
                       set_tls_outcome OutcomeEHLOFailed s3)
                    else (None, set_tls_outcome OutcomeEstablished
                            (s3\<lparr>cs_caps := parseCapabilities (ce_unicode E) (rv_text r)\<rparr>)))"

definition secure :: "client_env \<Rightarrow> clientSession \<Rightarrow> deliveryError option \<times> clientSession" where
  "secure E s0 =
     (let P = ce_peer E;
          s = s0\<lparr>cs_tls := (cs_tls s0)\<lparr>ti_Policy := cc_TLSPolicy (ce_config E),
                                      ti_Advertised := caps_has (cs_caps s0) ''STARTTLS''\<rparr>\<rparr>
      in if \<not> ti_Advertised (cs_tls s) then
           (if cc_TLSPolicy (ce_config E) = TLSRequired \<or> ce_creds E \<noteq> None then
              tlsFail StageStartTLS OutcomeRequiredNoTLS s
            else (None, set_tls_outcome OutcomeNotOffered s))
         else
           (case cl_command E ''STARTTLS'' (s\<lparr>cs_tls := (cs_tls s)\<lparr>ti_Attempted := True\<rparr>\<rparr>) of
              (Inl e, s1) \<Rightarrow> tlsFail StageStartTLS (classifyIOError (pe_ctxErr P) e) s1
            | (Inr r, s1) \<Rightarrow>
                if rv_code r \<noteq> 220 then
                  (Some ((replyError StageStartTLS (rv_code r) (rv_enh r) (rv_text r))\<lparr>de_Temporary := True\<rparr>),
                   set_tls_outcome OutcomeRejected s1)
                else if pe_early P \<and> cs_in s1 \<noteq> [] then tlsFail StageStartTLS OutcomeProtocolViolation s1
                else upgrade E s1))"

section \<open>AUTH\<close>

definition authFail ::
  "auth_outcome \<Rightarrow> nat \<Rightarrow> string \<Rightarrow> clientSession \<Rightarrow> deliveryError option \<times> clientSession" where
  "authFail out code enh s =
     (Some \<lparr>de_Stage = StageAuth, de_Code = code, de_Enhanced = enh, de_Remote = [], de_Recipient = [],
        de_Temporary = (out = AuthTemporary \<or> out = AuthConnLost \<or> out = AuthTimeout \<or> out = AuthCanceled)\<rparr>,
      s\<lparr>cs_auth := (cs_auth s)\<lparr>ai_Outcome := out\<rparr>\<rparr>)"

definition authRound ::
  "client_env \<Rightarrow> string \<Rightarrow> clientSession \<Rightarrow> (deliveryError option + nat \<times> string) \<times> clientSession" where
  "authRound E line s =
     (case cl_command E line s of
        (Inl e, s1) \<Rightarrow> map_prod Inl id (authFail (classifyAuthIO (pe_ctxErr (ce_peer E)) e) 0 [] s1)
      | (Inr r, s1) \<Rightarrow> (Inr (rv_code r, rv_enh r), s1))"

definition authFinish :: "nat \<Rightarrow> string \<Rightarrow> clientSession \<Rightarrow> deliveryError option \<times> clientSession" where
  "authFinish code enh s =
     (if code = 235 then (None, s\<lparr>cs_auth := (cs_auth s)\<lparr>ai_Outcome := AuthSuccess\<rparr>\<rparr>)
      else if code \<ge> 400 \<and> code < 500 then authFail AuthTemporary code enh s
      else if code \<ge> 500 \<and> code < 600 then authFail AuthRejected code enh s
      else authFail AuthProtocolError code [] s)"

text \<open>A round whose reply ends the exchange.\<close>

definition authLast :: "client_env \<Rightarrow> string \<Rightarrow> clientSession \<Rightarrow> deliveryError option \<times> clientSession" where
  "authLast E line s =
     (case authRound E line s of
        (Inl d, s1) \<Rightarrow> (d, s1)
      | (Inr (code, enh), s1) \<Rightarrow> authFinish code enh s1)"

definition plain_payload :: "credentials \<Rightarrow> string" where
  "plain_payload c = b64 (CHR 0x00 # cr_Username c @ CHR 0x00 # cr_Password c)"

definition authPlain :: "client_env \<Rightarrow> credentials \<Rightarrow> clientSession \<Rightarrow> deliveryError option \<times> clientSession" where
  "authPlain E c s =
     (let line = ''AUTH PLAIN '' @ plain_payload c
      in if int (length line) + 2 \<le> cc_MaxReplyLineBytes (ce_config E) then authLast E line s
         else case authRound E ''AUTH PLAIN'' s of
             (Inl d, s1) \<Rightarrow> (d, s1)
           | (Inr (code, enh), s1) \<Rightarrow>
               if code \<noteq> 334 then authFinish code enh s1 else authLast E (plain_payload c) s1)"

definition authLogin :: "client_env \<Rightarrow> credentials \<Rightarrow> clientSession \<Rightarrow> deliveryError option \<times> clientSession" where
  "authLogin E c s =
     (case authRound E ''AUTH LOGIN'' s of
        (Inl d, s1) \<Rightarrow> (d, s1)
      | (Inr (code, enh), s1) \<Rightarrow>
          if code \<noteq> 334 then authFinish code enh s1
          else (case authRound E (b64 (cr_Username c)) s1 of
                  (Inl d, s2) \<Rightarrow> (d, s2)
                | (Inr (code, enh), s2) \<Rightarrow>
                    if code \<noteq> 334 then authFinish code enh s2
                    else authLast E (b64 (cr_Password c)) s2))"

definition authenticate :: "client_env \<Rightarrow> clientSession \<Rightarrow> deliveryError option \<times> clientSession" where
  "authenticate E s =
     (case ce_creds E of
        None \<Rightarrow> (None, s)
      | Some c \<Rightarrow>
          if \<not> ti_Established (cs_tls s) then authFail AuthNoTLS 0 [] s
          else
            let advertised = authMechanisms (ce_unicode E) (cs_caps s)
            in if advertised = [] then authFail AuthNotAdvertised 0 [] s
               else case chooseMechanism (ce_unicode E) advertised of
                   None \<Rightarrow> authFail AuthNoMechanism 0 [] s
                 | Some m \<Rightarrow>
                     let s1 = s\<lparr>cs_auth := (cs_auth s)\<lparr>ai_Attempted := True, ai_Mechanism := Some m\<rparr>\<rparr>
                     in if m = PLAIN then authPlain E c s1 else authLogin E c s1)"

section \<open>The transaction\<close>

record deliveryRequest =
  dq_Address :: string
  dq_Envelope :: envelope
  dq_Raw :: string
  dq_Auth :: "credentials option"

record deliveryResult =
  dl_Accepted :: bool
  dl_FinalCode :: nat
  dl_FinalMessage :: string
  dl_QuitError :: "deliveryError option"
  dl_TLS :: tlsInfo
  dl_Auth :: authInfo

definition noTLS :: tlsInfo where
  "noTLS = \<lparr>ti_Policy = TLSOpportunistic, ti_Advertised = False, ti_Attempted = False,
     ti_Established = False, ti_Version = [], ti_Outcome = TLSNone\<rparr>"

definition noAuth :: authInfo where
  "noAuth = \<lparr>ai_Attempted = False, ai_Mechanism = None, ai_Outcome = AuthNone\<rparr>"

definition emptyResult :: deliveryResult where
  "emptyResult = \<lparr>dl_Accepted = False, dl_FinalCode = 0, dl_FinalMessage = [], dl_QuitError = None,
     dl_TLS = noTLS, dl_Auth = noAuth\<rparr>"

type_synonym run_result = "(deliveryResult \<times> deliveryError option) \<times> clientSession"

fun rcpt_all :: "client_env \<Rightarrow> string list \<Rightarrow> clientSession \<Rightarrow> deliveryError option \<times> clientSession" where
  "rcpt_all E [] s = (None, s)"
| "rcpt_all E (r # rs) s =
     (case cl_command E (rcpt_line r) s of
        (Inl _, s1) \<Rightarrow> (Some (deliveryErrorFromRead StageRcptTo), s1)
      | (Inr v, s1) \<Rightarrow>
          if rv_code v < 200 \<or> rv_code v \<ge> 300 then
            (Some ((replyError StageRcptTo (rv_code v) (rv_enh v) (rv_text v))\<lparr>de_Recipient := r\<rparr>), s1)
          else rcpt_all E rs s1)"

definition run_quit :: "client_env \<Rightarrow> replyVal \<Rightarrow> clientSession \<Rightarrow> run_result" where
  "run_quit E v s =
     (let res = emptyResult\<lparr>dl_Accepted := True, dl_FinalCode := rv_code v, dl_FinalMessage := rv_text v\<rparr>
      in case cl_command E ''QUIT'' s of
           (Inl _, s1) \<Rightarrow> ((res\<lparr>dl_QuitError := Some (stageError StageQuit)\<rparr>, None), s1)
         | (Inr q, s1) \<Rightarrow>
             if rv_code q \<noteq> 221 then
               ((res\<lparr>dl_QuitError := Some (replyError StageQuit (rv_code q) [] (rv_text q))\<rparr>, None), s1)
             else ((res, None), s1))"

text \<open>From \<^verbatim>\<open>DATA\<close> to the reply to the message.\<close>

definition run_data :: "client_env \<Rightarrow> string \<Rightarrow> clientSession \<Rightarrow> run_result" where
  "run_data E raw s =
     (case cl_command E ''DATA'' s of
        (Inl _, s1) \<Rightarrow> ((emptyResult, Some (deliveryErrorFromRead StageData)), s1)
      | (Inr v, s1) \<Rightarrow>
          if rv_code v \<noteq> 354 then
            ((emptyResult, Some (replyError StageData (rv_code v) (rv_enh v) (rv_text v))), s1)
          else (case cl_write E (serializeForDATA raw) s1 of
                  (Some _, s2) \<Rightarrow> ((emptyResult, Some (stageError StageMessage)), s2)
                | (None, s2) \<Rightarrow>
                    (case readReply E s2 of
                       (Inl _, s3) \<Rightarrow> ((emptyResult, Some (deliveryErrorFromRead StageDataResponse)), s3)
                     | (Inr v, s3) \<Rightarrow>
                         if rv_code v < 200 \<or> rv_code v \<ge> 300 then
                           ((emptyResult, Some (replyError StageDataResponse (rv_code v) (rv_enh v) (rv_text v))), s3)
                         else run_quit E v s3)))"

definition run_mail :: "client_env \<Rightarrow> deliveryRequest \<Rightarrow> clientSession \<Rightarrow> run_result" where
  "run_mail E req s =
     (case cl_command E (mail_line (env_MailFrom (dq_Envelope req))) s of
        (Inl _, s1) \<Rightarrow> ((emptyResult, Some (deliveryErrorFromRead StageMailFrom)), s1)
      | (Inr v, s1) \<Rightarrow>
          if rv_code v < 200 \<or> rv_code v \<ge> 300 then
            ((emptyResult, Some (replyError StageMailFrom (rv_code v) (rv_enh v) (rv_text v))), s1)
          else (case rcpt_all E (env_Recipients (dq_Envelope req)) s1 of
                  (Some d, s2) \<Rightarrow> ((emptyResult, Some d), s2)
                | (None, s2) \<Rightarrow> run_data E (dq_Raw req) s2))"

definition run :: "client_env \<Rightarrow> deliveryRequest \<Rightarrow> clientSession \<Rightarrow> run_result" where
  "run E req s =
     (case readReply E s of
        (Inl _, s1) \<Rightarrow> ((emptyResult, Some (deliveryErrorFromRead StageGreeting)), s1)
      | (Inr v, s1) \<Rightarrow>
          if rv_code v \<noteq> 220 then ((emptyResult, Some (replyError StageGreeting (rv_code v) [] (rv_text v))), s1)
          else (case hello E s1 of
                  (Some d, s2) \<Rightarrow> ((emptyResult, Some d), s2)
                | (None, s2) \<Rightarrow>
                    (case secure E s2 of
                       (Some d, s3) \<Rightarrow> ((emptyResult, Some d), s3)
                     | (None, s3) \<Rightarrow>
                         (case authenticate E s3 of
                            (Some d, s4) \<Rightarrow> ((emptyResult, Some d), s4)
                          | (None, s4) \<Rightarrow> run_mail E req s4))))"

definition validateEnvelopePath :: "string \<Rightarrow> bool \<Rightarrow> bool" where
  "validateEnvelopePath path allowNull \<longleftrightarrow>
     \<not> ContainsAny path [CHR 0x0D, CHR 0x0A, CHR 0x00] \<and> HasPrefix path ''<'' \<and> HasSuffix path ''>'' \<and>
     (path = ''<>'' \<longrightarrow> allowNull)"

definition start_session :: "peer \<Rightarrow> clientSession" where
  "start_session P = \<lparr>cs_in = pe_plain P, cs_fin = pe_plainEnd P, cs_tlsOn = False, cs_caps = [],
     cs_tls = noTLS, cs_auth = noAuth, cs_log = []\<rparr>"

text \<open>\<^verbatim>\<open>Client.Send\<close>; the log of all writes is part of the result.\<close>

definition client_Send ::
  "unicode \<Rightarrow> clientConfig \<Rightarrow> peer \<Rightarrow> deliveryRequest \<Rightarrow>
   (deliveryResult \<times> deliveryError option) \<times> (bool \<times> string) list" where
  "client_Send U cfg P req =
     (if dq_Address req = [] then ((emptyResult, Some (stageError StageInvalidInput)), [])
      else if \<not> validateEnvelopePath (env_MailFrom (dq_Envelope req)) True then
        ((emptyResult, Some (stageError StageInvalidInput)), [])
      else if env_Recipients (dq_Envelope req) = [] then ((emptyResult, Some (stageError StageInvalidInput)), [])
      else case find (\<lambda>r. \<not> validateEnvelopePath r False) (env_Recipients (dq_Envelope req)) of
          Some r \<Rightarrow> ((emptyResult, Some ((stageError StageInvalidInput)\<lparr>de_Recipient := r\<rparr>)), [])
        | None \<Rightarrow>
            if (case dq_Auth req of Some c \<Rightarrow> \<not> cred_Validate c | None \<Rightarrow> False) then
              ((emptyResult, Some (stageError StageInvalidInput)), [])
            else if pe_dialFails P then ((emptyResult, Some (stageError StageDial)), [])
            else case run \<lparr>ce_unicode = U, ce_config = cfg, ce_peer = P, ce_creds = dq_Auth req\<rparr> req (start_session P) of
                ((res, err), s) \<Rightarrow> ((res\<lparr>dl_TLS := cs_tls s, dl_Auth := cs_auth s\<rparr>, err), cs_log s))"


section \<open>What the client writes\<close>

definition hello_lines :: "client_env \<Rightarrow> string set" where
  "hello_lines E = {ehlo_line (ce_config E) @ crlf, helo_line (ce_config E) @ crlf,
     ''STARTTLS'' @ crlf}"

definition auth_lines :: "credentials \<Rightarrow> string set" where
  "auth_lines c = {''AUTH PLAIN '' @ plain_payload c @ crlf, ''AUTH PLAIN'' @ crlf, plain_payload c @ crlf,
     ''AUTH LOGIN'' @ crlf, b64 (cr_Username c) @ crlf, b64 (cr_Password c) @ crlf}"

definition mail_lines :: "deliveryRequest \<Rightarrow> string set" where
  "mail_lines req = {mail_line (env_MailFrom (dq_Envelope req)) @ crlf, ''DATA'' @ crlf,
     serializeForDATA (dq_Raw req), ''QUIT'' @ crlf} \<union>
     (\<lambda>r. rcpt_line r @ crlf) ` set (env_Recipients (dq_Envelope req))"

text \<open>TLS is mandatory under the policy, and whenever there are credentials.\<close>

definition tls_needed :: "client_env \<Rightarrow> bool" where
  "tls_needed E \<longleftrightarrow> cc_TLSPolicy (ce_config E) = TLSRequired \<or> ce_creds E \<noteq> None"

definition write_ok :: "client_env \<Rightarrow> deliveryRequest \<Rightarrow> bool \<times> string \<Rightarrow> bool" where
  "write_ok E req w \<longleftrightarrow>
     snd w \<in> hello_lines E \<or>
     (fst w \<and> (\<exists>c. ce_creds E = Some c \<and> snd w \<in> auth_lines c)) \<or>
     ((tls_needed E \<longrightarrow> fst w) \<and> snd w \<in> mail_lines req)"

abbreviation log_ok :: "client_env \<Rightarrow> deliveryRequest \<Rightarrow> clientSession \<Rightarrow> bool" where
  "log_ok E req s \<equiv> list_all (write_ok E req) (cs_log s)"

lemma cl_write_effect:
  "cl_write E p s = (e, s1) \<Longrightarrow> s1 = s\<lparr>cs_log := cs_log s @ [(cs_tlsOn s, p)]\<rparr>"
  by (auto simp: cl_write_def)

lemma readReply_effect: "readReply E s = (r, s1) \<Longrightarrow> \<exists>rest. s1 = s\<lparr>cs_in := rest\<rparr>"
  by (auto simp: readReply_def split: prod.splits)

text \<open>A command appends one line to the log and changes nothing else but the input position.\<close>

lemma cl_command_effect:
  "cl_command E line s = (r, s1) \<Longrightarrow>
     \<exists>rest. s1 = s\<lparr>cs_log := cs_log s @ [(cs_tlsOn s, line @ crlf)], cs_in := rest\<rparr>"
proof -
  have keep: "s\<lparr>cs_log := l\<rparr> = s\<lparr>cs_log := l, cs_in := cs_in s\<rparr>" for l by simp
  show "cl_command E line s = (r, s1) \<Longrightarrow>
     \<exists>rest. s1 = s\<lparr>cs_log := cs_log s @ [(cs_tlsOn s, line @ crlf)], cs_in := rest\<rparr>"
    by (auto simp: cl_command_def split: prod.splits option.splits
        dest!: cl_write_effect readReply_effect intro: keep)
qed

definition same_conn :: "clientSession \<Rightarrow> clientSession \<Rightarrow> bool" where
  "same_conn s s1 \<longleftrightarrow> cs_tlsOn s1 = cs_tlsOn s \<and> ti_Established (cs_tls s1) = ti_Established (cs_tls s)"

lemma same_conn_simps [simp]: "same_conn s s"
  by (simp add: same_conn_def)

lemma cl_command_log:
  assumes "cl_command E line s = (r, s1)" "log_ok E req s" "write_ok E req (cs_tlsOn s, line @ crlf)"
  shows "log_ok E req s1 \<and> same_conn s s1"
  using cl_command_effect [OF assms(1)] assms(2,3) by (auto simp: same_conn_def)

lemma hello_log:
  assumes "hello E s = (d, s1)" "log_ok E req s"
  shows "log_ok E req s1 \<and> same_conn s s1"
proof -
  have w: "write_ok E req (b, (ehlo_line (ce_config E)) @ crlf)"
    "write_ok E req (b, (helo_line (ce_config E)) @ crlf)" for b
    by (simp_all add: write_ok_def hello_lines_def)
  obtain r s' where c: "cl_command E (ehlo_line (ce_config E)) s = (r, s')" by fastforce
  obtain r2 s'' where c2: "cl_command E (helo_line (ce_config E)) s' = (r2, s'')" by fastforce
  note l1 = cl_command_log [OF c assms(2) w(1)]
  note l2 = cl_command_log [OF c2 conjunct1 [OF l1] w(2)]
  have "s1 = s' \<or> s1 = s'' \<or> (\<exists>k. s1 = s'\<lparr>cs_caps := k\<rparr>) \<or> s1 = s''\<lparr>cs_caps := []\<rparr>"
    using assms(1) by (auto simp: hello_def c c2 split: sum.splits if_splits)
  then show ?thesis using l1 l2 by (auto simp: same_conn_def)
qed

lemma upgrade_log:
  assumes "upgrade E s = (d, s1)" "log_ok E req s"
  shows "log_ok E req s1 \<and> (d = None \<longrightarrow> cs_tlsOn s1 \<and> ti_Established (cs_tls s1))"
proof (cases "pe_handshake (ce_peer E)")
  case (Inl e)
  then show ?thesis using assms by (auto simp: upgrade_def tlsFail_def set_tls_outcome_def)
next
  case (Inr v)
  let ?s2 = "s\<lparr>cs_caps := [], cs_tlsOn := True, cs_in := pe_tls (ce_peer E), cs_fin := pe_tlsEnd (ce_peer E),
     cs_tls := (cs_tls s)\<lparr>ti_Established := True, ti_Version := versionLabel v\<rparr>\<rparr>"
  obtain r s3 where c: "cl_command E (ehlo_line (ce_config E)) ?s2 = (r, s3)" by fastforce
  have "log_ok E req s3 \<and> same_conn ?s2 s3"
    by (rule cl_command_log [OF c]) (use assms(2) in \<open>auto simp: write_ok_def hello_lines_def\<close>)
  then show ?thesis using assms(1) Inr c
    by (auto simp: upgrade_def Let_def tlsFail_def set_tls_outcome_def same_conn_def split: sum.splits if_splits)
qed

lemma secure_log:
  assumes "secure E s = (d, s1)" "log_ok E req s"
  shows "log_ok E req s1 \<and> (d = None \<longrightarrow> tls_needed E \<longrightarrow> cs_tlsOn s1 \<and> ti_Established (cs_tls s1))"
proof (cases "caps_has (cs_caps s) ''STARTTLS''")
  case False
  then show ?thesis using assms
    by (auto simp: secure_def Let_def tlsFail_def set_tls_outcome_def tls_needed_def split: if_splits)
next
  case True
  let ?s = "s\<lparr>cs_tls := (cs_tls s)\<lparr>ti_Policy := cc_TLSPolicy (ce_config E), ti_Advertised := True,
     ti_Attempted := True\<rparr>\<rparr>"
  obtain r s' where c: "cl_command E ''STARTTLS'' ?s = (r, s')" by fastforce
  have l: "log_ok E req s'"
    using cl_command_log [OF c, of req] assms(2) by (auto simp: write_ok_def hello_lines_def)
  show ?thesis
    using assms(1) True c l upgrade_log [of E s' d s1 req]
    by (auto simp: secure_def Let_def tlsFail_def set_tls_outcome_def split: sum.splits if_splits)
qed

lemma authFail_effect: "authFail out code enh s = (d, s1) \<Longrightarrow> cs_log s1 = cs_log s \<and> same_conn s s1 \<and> d \<noteq> None"
  by (auto simp: authFail_def same_conn_def)

lemma authFinish_effect:
  "authFinish code enh s = (d, s1) \<Longrightarrow> cs_log s1 = cs_log s \<and> same_conn s s1 \<and>
     (d = None \<longrightarrow> code = 235 \<and> ai_Outcome (cs_auth s1) = AuthSuccess)"
  by (auto simp: authFinish_def same_conn_def authFail_def split: if_splits)

lemma authRound_log:
  assumes "authRound E line s = (r, s1)" "ce_creds E = Some c" "line @ crlf \<in> auth_lines c" "cs_tlsOn s" "log_ok E req s"
  shows "log_ok E req s1 \<and> same_conn s s1 \<and> (\<forall>d. r = Inl d \<longrightarrow> d \<noteq> None)"
proof -
  obtain v s' where cmd: "cl_command E line s = (v, s')" by fastforce
  have "log_ok E req s' \<and> same_conn s s'"
    by (rule cl_command_log [OF cmd assms(5)]) (use assms(2-4) in \<open>simp add: write_ok_def\<close>)
  then show ?thesis using assms(1) cmd
    by (auto simp: authRound_def authFail_def same_conn_def split: sum.splits)
qed

lemma authLast_log:
  assumes "authLast E line s = (d, s1)" "ce_creds E = Some c" "line @ crlf \<in> auth_lines c" "cs_tlsOn s" "log_ok E req s"
  shows "log_ok E req s1 \<and> same_conn s s1 \<and> (d = None \<longrightarrow> ai_Outcome (cs_auth s1) = AuthSuccess)"
proof -
  obtain r s' where rd: "authRound E line s = (r, s')" by fastforce
  note l = authRound_log [OF rd assms(2-5)]
  show ?thesis
    using assms(1) rd l authFinish_effect [of _ _ s' d s1]
    by (auto simp: authLast_def same_conn_def split: sum.splits)
qed

lemma authPlain_log:
  assumes "authPlain E c s = (d, s1)" "ce_creds E = Some c" "cs_tlsOn s" "log_ok E req s"
  shows "log_ok E req s1 \<and> same_conn s s1 \<and> (d = None \<longrightarrow> ai_Outcome (cs_auth s1) = AuthSuccess)"
proof (cases "int (length (''AUTH PLAIN '' @ plain_payload c)) + 2 \<le> cc_MaxReplyLineBytes (ce_config E)")
  case True
  show ?thesis
    by (rule authLast_log [where line = "''AUTH PLAIN '' @ plain_payload c" and c = c])
       (use assms True in \<open>auto simp: authPlain_def Let_def auth_lines_def\<close>)
next
  case False
  obtain r s' where rd: "authRound E ''AUTH PLAIN'' s = (r, s')" by fastforce
  have l: "log_ok E req s' \<and> same_conn s s' \<and> (\<forall>d. r = Inl d \<longrightarrow> d \<noteq> None)"
    by (rule authRound_log [OF rd assms(2)]) (use assms in \<open>auto simp: auth_lines_def\<close>)
  have "cs_tlsOn s'" using l assms(3) by (simp add: same_conn_def)
  then have last: "authLast E (plain_payload c) s' = (d, s1) \<Longrightarrow>
      log_ok E req s1 \<and> same_conn s' s1 \<and> (d = None \<longrightarrow> ai_Outcome (cs_auth s1) = AuthSuccess)"
    using authLast_log [OF _ assms(2), of "plain_payload c"] l by (auto simp: auth_lines_def)
  show ?thesis
    using assms(1) False rd l last authFinish_effect [of _ _ s' d s1]
    by (auto simp: authPlain_def Let_def same_conn_def split: sum.splits if_splits)
qed

lemma authLogin_log:
  assumes "authLogin E c s = (d, s1)" "ce_creds E = Some c" "cs_tlsOn s" "log_ok E req s"
  shows "log_ok E req s1 \<and> same_conn s s1 \<and> (d = None \<longrightarrow> ai_Outcome (cs_auth s1) = AuthSuccess)"
proof -
  obtain r s' where rd: "authRound E ''AUTH LOGIN'' s = (r, s')" by fastforce
  obtain r2 s'' where rd2: "authRound E (b64 (cr_Username c)) s' = (r2, s'')" by fastforce
  have l: "log_ok E req s' \<and> same_conn s s' \<and> (\<forall>d. r = Inl d \<longrightarrow> d \<noteq> None)"
    by (rule authRound_log [OF rd assms(2)]) (use assms in \<open>auto simp: auth_lines_def\<close>)
  have l2: "log_ok E req s'' \<and> same_conn s' s'' \<and> (\<forall>d. r2 = Inl d \<longrightarrow> d \<noteq> None)"
    by (rule authRound_log [OF rd2 assms(2)]) (use assms l in \<open>auto simp: auth_lines_def same_conn_def\<close>)
  have on: "cs_tlsOn s''" "same_conn s s''" using l l2 assms(3) by (auto simp: same_conn_def)
  then have last: "authLast E (b64 (cr_Password c)) s'' = (d, s1) \<Longrightarrow>
      log_ok E req s1 \<and> same_conn s s1 \<and> (d = None \<longrightarrow> ai_Outcome (cs_auth s1) = AuthSuccess)"
    using authLast_log [OF _ assms(2), of "b64 (cr_Password c)" s'' d s1 req] l2
    by (auto simp: auth_lines_def same_conn_def)
  show ?thesis
    using assms(1) rd rd2 l l2 on last authFinish_effect [of _ _ s' d s1] authFinish_effect [of _ _ s'' d s1]
    by (auto simp: authLogin_def Let_def same_conn_def split: sum.splits if_splits)
qed

lemma authenticate_log:
  assumes "authenticate E s = (d, s1)" "log_ok E req s"
    and "ce_creds E \<noteq> None \<longrightarrow> ti_Established (cs_tls s) \<longrightarrow> cs_tlsOn s"
  shows "log_ok E req s1 \<and> same_conn s s1 \<and>
    (d = None \<longrightarrow> ce_creds E \<noteq> None \<longrightarrow> ai_Outcome (cs_auth s1) = AuthSuccess)"
proof (cases "ce_creds E")
  case None
  then show ?thesis using assms by (simp add: authenticate_def)
next
  case (Some c)
  let ?s = "\<lambda>m. s\<lparr>cs_auth := (cs_auth s)\<lparr>ai_Attempted := True, ai_Mechanism := Some m\<rparr>\<rparr>"
  have same: "same_conn (?s m) s1 = same_conn s s1" for m by (simp add: same_conn_def)
  have plain: "authPlain E c (?s PLAIN) = (d, s1) \<Longrightarrow> ti_Established (cs_tls s) \<Longrightarrow> log_ok E req s1 \<and> same_conn s s1 \<and>
      (d = None \<longrightarrow> ai_Outcome (cs_auth s1) = AuthSuccess)"
    and login: "authLogin E c (?s LOGIN) = (d, s1) \<Longrightarrow> ti_Established (cs_tls s) \<Longrightarrow> log_ok E req s1 \<and> same_conn s s1 \<and>
      (d = None \<longrightarrow> ai_Outcome (cs_auth s1) = AuthSuccess)"
    using authPlain_log [OF _ Some, of "?s PLAIN" d s1 req] authLogin_log [OF _ Some, of "?s LOGIN" d s1 req] assms(2,3) Some
    by (auto simp: same)
  have fail: "authFail out code enh s = (d, s1) \<Longrightarrow> log_ok E req s1 \<and> same_conn s s1 \<and> d \<noteq> None" for out code enh
    using authFail_effect [of out code enh s d s1] assms(2) by auto
  show ?thesis
    using assms(1) Some plain login fail
    by (auto simp: authenticate_def Let_def split: option.splits if_splits) (metis auth_mechanism.exhaust)+
qed


section \<open>The transaction part\<close>

abbreviation sent :: "clientSession \<Rightarrow> string \<Rightarrow> bool \<times> string" where
  "sent s line \<equiv> (cs_tlsOn s, line @ crlf)"

lemma rcpt_all_log:
  "rcpt_all E rs s = (d, s1) \<Longrightarrow> same_conn s s1 \<and>
     (\<exists>k \<le> length rs. cs_log s1 = cs_log s @ map (\<lambda>r. sent s (rcpt_line r)) (take k rs) \<and> (d = None \<longrightarrow> k = length rs))"
proof (induction rs arbitrary: s)
  case (Cons r rs)
  obtain v s' where c: "cl_command E (rcpt_line r) s = (v, s')" by fastforce
  from cl_command_effect [OF c] have s': "cs_log s' = cs_log s @ [sent s (rcpt_line r)]" "same_conn s s'"
    by (auto simp: same_conn_def)
  show ?case
  proof (cases "\<exists>x. d = Some x \<and> s1 = s'")
    case True
    then show ?thesis using s' by (intro conjI exI [of _ 1]) auto
  next
    case False
    then have "rcpt_all E rs s' = (d, s1)"
      using Cons.prems c by (auto split: sum.splits if_splits)
    from Cons.IH [OF this] obtain k where k: "same_conn s' s1" "k \<le> length rs"
      "cs_log s1 = cs_log s' @ map (\<lambda>r. sent s' (rcpt_line r)) (take k rs)" "d = None \<longrightarrow> k = length rs" by blast
    then show ?thesis using s' by (intro conjI exI [of _ "Suc k"]) (auto simp: same_conn_def)
  qed
qed simp

lemma run_quit_log:
  "run_quit E v s = ((res, err), s1) \<Longrightarrow> same_conn s s1 \<and> cs_log s1 = cs_log s @ [sent s ''QUIT''] \<and> err = None \<and>
     dl_Accepted res \<and> dl_FinalCode res = rv_code v"
proof -
  obtain q s' where c: "cl_command E ''QUIT'' s = (q, s')" by fastforce
  show "run_quit E v s = ((res, err), s1) \<Longrightarrow> ?thesis"
    using cl_command_effect [OF c] c
    by (auto simp: run_quit_def Let_def same_conn_def split: sum.splits if_splits)
qed

text \<open>
  The end of a transaction: without the peer's 354 nothing of the message is written; with it the
  message is written once, and it is accepted exactly when no error is reported.
\<close>

lemma run_data_log:
  assumes "run_data E raw s = ((res, err), s1)"
  shows "same_conn s s1" and "dl_Accepted res \<longleftrightarrow> err = None" and "dl_Accepted res \<Longrightarrow> 200 \<le> dl_FinalCode res \<and> dl_FinalCode res < 300"
    and "\<exists>k \<le> 3. cs_log s1 = cs_log s @ take k [sent s ''DATA'', (cs_tlsOn s, serializeForDATA raw), sent s ''QUIT''] \<and>
           (dl_Accepted res \<longrightarrow> k = 3)"
proof -
  let ?l = "[sent s ''DATA'', (cs_tlsOn s, serializeForDATA raw), sent s ''QUIT'']"
  obtain v s' where c: "cl_command E ''DATA'' s = (v, s')" by fastforce
  from cl_command_effect [OF c] have s': "cs_log s' = cs_log s @ take 1 ?l" "same_conn s s'"
    by (auto simp: same_conn_def)
  obtain w s2 where w: "cl_write E (serializeForDATA raw) s' = (w, s2)" by fastforce
  from cl_write_effect [OF w] have s2: "cs_log s2 = cs_log s @ take 2 ?l" "same_conn s s2"
    using s' by (auto simp: same_conn_def)
  obtain v3 s3 where r3: "readReply E s2 = (v3, s3)" by fastforce
  from readReply_effect [OF r3] have s3: "cs_log s3 = cs_log s @ take 2 ?l" "same_conn s s3"
    using s2 by (auto simp: same_conn_def)
  have quit: "run_quit E v s3 = ((res, err), s1) \<Longrightarrow> cs_log s1 = cs_log s @ take 3 ?l \<and> same_conn s s1 \<and> err = None \<and>
      dl_Accepted res \<and> dl_FinalCode res = rv_code v" for v
    using run_quit_log [of E v s3 res err s1] s3 by (auto simp: same_conn_def)
  have "res = emptyResult \<and> err \<noteq> None \<and> (\<exists>t\<in>{s', s2, s3}. s1 = t) \<or>
      (\<exists>v. 200 \<le> rv_code v \<and> rv_code v < 300 \<and> run_quit E v s3 = ((res, err), s1))"
    using assms c w r3
    by (auto simp: run_data_def split: sum.splits if_splits option.splits)
  then consider (fail) t where "res = emptyResult" "err \<noteq> None" "t \<in> {s', s2, s3}" "s1 = t"
    | (acc) v where "200 \<le> rv_code v" "rv_code v < 300" "run_quit E v s3 = ((res, err), s1)" by blast
  then have "same_conn s s1 \<and> (dl_Accepted res \<longleftrightarrow> err = None) \<and>
      (dl_Accepted res \<longrightarrow> 200 \<le> dl_FinalCode res \<and> dl_FinalCode res < 300) \<and>
      (\<exists>k \<le> 3. cs_log s1 = cs_log s @ take k ?l \<and> (dl_Accepted res \<longrightarrow> k = 3))"
  proof cases
    case fail
    have "\<exists>k \<le> 3. cs_log t = cs_log s @ take k ?l" "same_conn s t"
      using fail(3) s' s2 s3 by (auto intro: exI [of _ "1 :: nat"] exI [of _ "2 :: nat"])
    then show ?thesis using fail by (simp add: emptyResult_def)
  next
    case acc
    then show ?thesis using quit by auto
  qed
  then show "same_conn s s1" "dl_Accepted res \<longleftrightarrow> err = None" "dl_Accepted res \<Longrightarrow> 200 \<le> dl_FinalCode res \<and> dl_FinalCode res < 300"
    "\<exists>k \<le> 3. cs_log s1 = cs_log s @ take k ?l \<and> (dl_Accepted res \<longrightarrow> k = 3)" by blast+
qed

text \<open>All lines of one transaction, in order.\<close>

definition transaction :: "bool \<Rightarrow> deliveryRequest \<Rightarrow> (bool \<times> string) list" where
  "transaction t req =
     (t, mail_line (env_MailFrom (dq_Envelope req)) @ crlf) #
     map (\<lambda>r. (t, rcpt_line r @ crlf)) (env_Recipients (dq_Envelope req)) @
     [(t, ''DATA'' @ crlf), (t, serializeForDATA (dq_Raw req)), (t, ''QUIT'' @ crlf)]"

lemma run_mail_log:
  assumes "run_mail E req s = ((res, err), s1)"
  shows "same_conn s s1" and "dl_Accepted res \<longleftrightarrow> err = None" and "dl_Accepted res \<Longrightarrow> 200 \<le> dl_FinalCode res \<and> dl_FinalCode res < 300"
    and "\<exists>k. cs_log s1 = cs_log s @ take k (transaction (cs_tlsOn s) req) \<and>
           (dl_Accepted res \<longrightarrow> k = length (transaction (cs_tlsOn s) req))"
proof -
  let ?tr = "transaction (cs_tlsOn s) req" and ?rs = "env_Recipients (dq_Envelope req)"
  obtain v s' where c: "cl_command E (mail_line (env_MailFrom (dq_Envelope req))) s = (v, s')" by fastforce
  from cl_command_effect [OF c] have s': "cs_log s' = cs_log s @ take 1 ?tr" "same_conn s s'"
    by (auto simp: same_conn_def transaction_def)
  obtain d s2 where rc: "rcpt_all E ?rs s' = (d, s2)" by fastforce
  from rcpt_all_log [OF rc] obtain k where k: "same_conn s' s2" "k \<le> length ?rs" "d = None \<longrightarrow> k = length ?rs"
    "cs_log s2 = cs_log s' @ map (\<lambda>r. sent s' (rcpt_line r)) (take k ?rs)" by blast
  then have s2: "same_conn s s2" "cs_log s2 = cs_log s @ take (Suc k) ?tr"
    using s' by (auto simp: same_conn_def transaction_def take_map)
  consider (fail) t where "res = emptyResult" "err \<noteq> None" "t \<in> {s', s2}" "s1 = t"
    | (data) "d = None" "run_data E (dq_Raw req) s2 = ((res, err), s1)"
    using assms c rc by (auto simp: run_mail_def split: sum.splits if_splits option.splits)
  then have "same_conn s s1 \<and> (dl_Accepted res \<longleftrightarrow> err = None) \<and>
      (dl_Accepted res \<longrightarrow> 200 \<le> dl_FinalCode res \<and> dl_FinalCode res < 300) \<and>
      (\<exists>k. cs_log s1 = cs_log s @ take k ?tr \<and> (dl_Accepted res \<longrightarrow> k = length ?tr))"
  proof cases
    case fail
    then show ?thesis using s' s2 by (auto simp: emptyResult_def intro: exI [of _ "1 :: nat"] exI [of _ "Suc k"])
  next
    case data
    from run_data_log [OF data(2)] obtain j where j: "same_conn s2 s1" "dl_Accepted res \<longleftrightarrow> err = None"
      "dl_Accepted res \<longrightarrow> 200 \<le> dl_FinalCode res \<and> dl_FinalCode res < 300" "j \<le> 3" "dl_Accepted res \<longrightarrow> j = 3"
      "cs_log s1 = cs_log s2 @ take j [sent s2 ''DATA'', (cs_tlsOn s2, serializeForDATA (dq_Raw req)), sent s2 ''QUIT'']"
      by blast
    have "cs_log s1 = cs_log s @ take (Suc (length ?rs) + j) ?tr"
      using j(6) s2 k(3) data(1) by (simp add: same_conn_def transaction_def)
    then show ?thesis using j s2 by (auto simp: same_conn_def transaction_def intro!: exI [of _ "Suc (length ?rs) + j"])
  qed
  then show "same_conn s s1" "dl_Accepted res \<longleftrightarrow> err = None" "dl_Accepted res \<Longrightarrow> 200 \<le> dl_FinalCode res \<and> dl_FinalCode res < 300"
    "\<exists>k. cs_log s1 = cs_log s @ take k ?tr \<and> (dl_Accepted res \<longrightarrow> k = length ?tr)" by blast+
qed

section \<open>What one send guarantees\<close>

definition send_env :: "unicode \<Rightarrow> clientConfig \<Rightarrow> peer \<Rightarrow> deliveryRequest \<Rightarrow> client_env" where
  "send_env U cfg P req = \<lparr>ce_unicode = U, ce_config = cfg, ce_peer = P, ce_creds = dq_Auth req\<rparr>"

lemma transaction_ok:
  assumes "tls_needed E \<longrightarrow> t"
  shows "list_all (write_ok E req) (take k (transaction t req))"
proof -
  have "list_all (write_ok E req) (transaction t req)"
    using assms by (auto simp: transaction_def write_ok_def mail_lines_def list_all_iff)
  then show ?thesis by (auto simp: list_all_iff dest: in_set_takeD)
qed

text \<open>
  The whole conversation: a prefix of greeting, TLS and AUTH lines, then a prefix of the
  transaction's lines, all of it if the message was accepted.
\<close>

lemma run_log:
  assumes "run E req s = ((res, err), s1)" "log_ok E req s"
  shows "log_ok E req s1" "dl_Accepted res \<longleftrightarrow> err = None"
    "dl_Accepted res \<Longrightarrow> 200 \<le> dl_FinalCode res \<and> dl_FinalCode res < 300 \<and>
       (\<exists>pre t. cs_log s1 = pre @ transaction t req \<and> (tls_needed E \<longrightarrow> t))"
proof -
  obtain v s2 where r1: "readReply E s = (v, s2)" by fastforce
  have l2: "log_ok E req s2" using readReply_effect [OF r1] assms(2) by auto
  obtain d3 s3 where r2: "hello E s2 = (d3, s3)" by fastforce
  have l3: "log_ok E req s3" using hello_log [OF r2 l2] by simp
  obtain d4 s4 where r3: "secure E s3 = (d4, s4)" by fastforce
  have l4: "log_ok E req s4" "d4 = None \<Longrightarrow> tls_needed E \<Longrightarrow> cs_tlsOn s4" using secure_log [OF r3 l3] by auto
  obtain d5 s5 where r4: "authenticate E s4 = (d5, s5)" by fastforce
  have l5: "log_ok E req s5" "same_conn s4 s5" if "d4 = None"
    using authenticate_log [OF r4 l4(1)] l4(2) that by (auto simp: tls_needed_def)
  have tail: "log_ok E req s1 \<and> (dl_Accepted res \<longleftrightarrow> err = None) \<and>
      (dl_Accepted res \<longrightarrow> 200 \<le> dl_FinalCode res \<and> dl_FinalCode res < 300 \<and>
         (\<exists>pre t. cs_log s1 = pre @ transaction t req \<and> (tls_needed E \<longrightarrow> t)))"
    if "d4 = None" "run_mail E req s5 = ((res, err), s1)"
  proof -
    note m = run_mail_log [OF that(2)]
    from m(4) obtain k where k: "cs_log s1 = cs_log s5 @ take k (transaction (cs_tlsOn s5) req)"
      "dl_Accepted res \<longrightarrow> k = length (transaction (cs_tlsOn s5) req)" by blast
    have on: "tls_needed E \<longrightarrow> cs_tlsOn s5" using l4(2) l5(2) that(1) by (auto simp: same_conn_def)
    show ?thesis
      using m(2,3) k on l5(1) [OF that(1)] transaction_ok [OF on, of req k] by auto
  qed
  have "(res = emptyResult \<and> err \<noteq> None \<and> log_ok E req s1) \<or> (d4 = None \<and> run_mail E req s5 = ((res, err), s1))"
    using assms(1) r1 r2 r3 r4 l2 l3 l4(1) l5(1)
    by (auto simp: run_def split: sum.splits if_splits option.splits)
  then have "log_ok E req s1 \<and> (dl_Accepted res \<longleftrightarrow> err = None) \<and>
      (dl_Accepted res \<longrightarrow> 200 \<le> dl_FinalCode res \<and> dl_FinalCode res < 300 \<and>
         (\<exists>pre t. cs_log s1 = pre @ transaction t req \<and> (tls_needed E \<longrightarrow> t)))"
    using tail by (auto simp: emptyResult_def)
  then show "log_ok E req s1" "dl_Accepted res \<longleftrightarrow> err = None"
    "dl_Accepted res \<Longrightarrow> 200 \<le> dl_FinalCode res \<and> dl_FinalCode res < 300 \<and>
       (\<exists>pre t. cs_log s1 = pre @ transaction t req \<and> (tls_needed E \<longrightarrow> t))" by blast+
qed

definition envelope_ok :: "envelope \<Rightarrow> bool" where
  "envelope_ok e \<longleftrightarrow> validateEnvelopePath (env_MailFrom e) True \<and> env_Recipients e \<noteq> [] \<and>
     list_all (\<lambda>r. validateEnvelopePath r False) (env_Recipients e)"

text \<open>Either the request was refused before any write, or the session ran.\<close>

lemma client_Send_cases:
  assumes "client_Send U cfg P req = ((res, err), log)"
  shows "(res = emptyResult \<and> err \<noteq> None \<and> log = []) \<or>
    (envelope_ok (dq_Envelope req) \<and> (\<forall>c. dq_Auth req = Some c \<longrightarrow> cred_Validate c) \<and>
     (\<exists>r s. run (send_env U cfg P req) req (start_session P) = ((r, err), s) \<and> log = cs_log s \<and>
        res = r\<lparr>dl_TLS := cs_tls s, dl_Auth := cs_auth s\<rparr>))"
  using assms
  by (auto simp: client_Send_def send_env_def envelope_ok_def list_all_iff find_None_iff
      split: if_splits option.splits prod.splits)

lemma start_log: "log_ok E req (start_session P)"
  by (simp add: start_session_def)

text \<open>
  A send reports success exactly when the message was accepted: no error is returned if and
  only if the peer answered the message data with a 2xx code, and then the client had written,
  as the last thing in the connection, the complete transaction: sender, every recipient in order,
  DATA, the message once, QUIT.
\<close>

theorem send_accepted_iff:
  assumes "client_Send U cfg P req = ((res, err), log)"
  shows "(dl_Accepted res \<longleftrightarrow> err = None) \<and>
    (dl_Accepted res \<longrightarrow> 200 \<le> dl_FinalCode res \<and> dl_FinalCode res < 300 \<and>
       (\<exists>pre t. log = pre @ transaction t req))"
  using client_Send_cases [OF assms]
proof (elim disjE conjE exE)
  fix r s assume run: "run (send_env U cfg P req) req (start_session P) = ((r, err), s)"
    and res: "log = cs_log s" "res = r\<lparr>dl_TLS := cs_tls s, dl_Auth := cs_auth s\<rparr>"
  from run_log [OF run start_log] show ?thesis using res by auto
qed (auto simp: emptyResult_def)

definition cl_demo_cfg :: "tls_policy \<Rightarrow> clientConfig" where
  "cl_demo_cfg pol = \<lparr>cc_Identity = ''me'', cc_DialTimeout = 1, cc_ReadTimeout = 1, cc_WriteTimeout = 1,
     cc_MaxReplyLineBytes = 512, cc_MaxReplyLines = 128, cc_TLSPolicy = pol, cc_HandshakeTimeout = 1\<rparr>"

text \<open>A peer that offers no TLS and accepts everything.\<close>

definition cl_demo_peer :: peer where
  "cl_demo_peer = \<lparr>pe_dialFails = False,
     pe_plain = ''220 x'' @ crlf @ ''250 x'' @ crlf @ ''250 x'' @ crlf @ ''250 x'' @ crlf @ ''354 x'' @ crlf @
       ''250 x'' @ crlf @ ''221 x'' @ crlf,
     pe_plainEnd = IO_EOF, pe_early = False, pe_handshake = Inr 772, pe_tls = [], pe_tlsEnd = IO_EOF,
     pe_writeFails = (\<lambda>_. None), pe_ctxErr = False\<rparr>"

definition cl_demo_req :: deliveryRequest where
  "cl_demo_req = \<lparr>dq_Address = ''mx:25'', dq_Envelope = \<lparr>env_MailFrom = ''<>'', env_Recipients = [''<a@b>'']\<rparr>,
     dq_Raw = ''hi'', dq_Auth = None\<rparr>"

definition cl_demo_run where
  "cl_demo_run pol = client_Send plain_unicode (cl_demo_cfg pol) cl_demo_peer cl_demo_req"

lemma cl_demo_runs:
  "dl_Accepted (fst (fst (cl_demo_run TLSOpportunistic)))"
  "snd (cl_demo_run TLSRequired) = [(False, ehlo_line (cl_demo_cfg TLSRequired) @ crlf)]"
  by code_simp+

theorem send_accepted_iff_witness:
  "snd (fst (cl_demo_run TLSOpportunistic)) = None \<and>
   (\<exists>pre t. snd (cl_demo_run TLSOpportunistic) = pre @ transaction t cl_demo_req)"
proof -
  obtain res err log where run: "cl_demo_run TLSOpportunistic = ((res, err), log)" by (metis prod.collapse)
  from send_accepted_iff [OF run [unfolded cl_demo_run_def]] show ?thesis
    using cl_demo_runs(1) by (simp add: run)
qed

text \<open>
  (C10) No plaintext leak: when TLS is required, or when the send carries credentials, whatever
  the peer says or does, everything the client writes outside TLS is an EHLO, HELO or STARTTLS
  line. Credentials, addresses and message content only ever travel over the verified TLS
  connection, and there is no way back to plaintext.
\<close>

theorem send_no_plaintext:
  assumes "client_Send U cfg P req = (result, log)"
    and "cc_TLSPolicy cfg = TLSRequired \<or> dq_Auth req \<noteq> None" and "(tls, payload) \<in> set log" "\<not> tls"
  shows "payload \<in> {ehlo_line cfg @ crlf, helo_line cfg @ crlf, ''STARTTLS'' @ crlf}"
proof -
  let ?E = "send_env U cfg P req"
  obtain res err where "result = (res, err)" by fastforce
  then have "client_Send U cfg P req = ((res, err), log)" using assms(1) by simp
  from client_Send_cases [OF this] obtain r s where
    "run ?E req (start_session P) = ((r, err), s)" "log = cs_log s"
    using assms(3) by auto
  from run_log(1) [OF this(1) start_log] this(2) have "write_ok ?E req (tls, payload)"
    using assms(3) by (auto simp: list_all_iff)
  moreover have "tls_needed ?E" using assms(2) by (simp add: tls_needed_def send_env_def)
  ultimately show ?thesis using assms(4) by (auto simp: write_ok_def hello_lines_def send_env_def)
qed

theorem send_no_plaintext_witness:
  "ehlo_line (cl_demo_cfg TLSRequired) @ crlf \<in>
     {ehlo_line (cl_demo_cfg TLSRequired) @ crlf, helo_line (cl_demo_cfg TLSRequired) @ crlf, ''STARTTLS'' @ crlf} \<and>
   (False, ehlo_line (cl_demo_cfg TLSRequired) @ crlf) \<in> set (snd (cl_demo_run TLSRequired))"
proof -
  have mem: "(False, ehlo_line (cl_demo_cfg TLSRequired) @ crlf) \<in> set (snd (cl_demo_run TLSRequired))"
    by (simp add: cl_demo_runs)
  have run: "client_Send plain_unicode (cl_demo_cfg TLSRequired) cl_demo_peer cl_demo_req =
      (fst (cl_demo_run TLSRequired), snd (cl_demo_run TLSRequired))" by (simp add: cl_demo_run_def)
  have "cc_TLSPolicy (cl_demo_cfg TLSRequired) = TLSRequired \<or> dq_Auth cl_demo_req \<noteq> None"
    by (simp add: cl_demo_cfg_def)
  from send_no_plaintext [OF run this mem] mem show ?thesis by blast
qed

lemma validateEnvelopePath_clean: "validateEnvelopePath p allow \<Longrightarrow> clean_line p"
  by (auto simp: validateEnvelopePath_def clean_line_def ContainsAny_def list_ex_iff CR_def LF_def)

lemma clean_line_append [simp]: "clean_line (a @ b) \<longleftrightarrow> clean_line a \<and> clean_line b"
  by (auto simp: clean_line_def)

lemma b64_clean: "clean_line (b64 s)"
  using b64_printable [of s] by (force simp: clean_line_def list_all_iff CR_def LF_def)

lemma command_words_clean:
  "clean_line ''EHLO ''" "clean_line ''HELO ''" "clean_line ''STARTTLS''" "clean_line ''AUTH PLAIN ''"
  "clean_line ''AUTH PLAIN''" "clean_line ''AUTH LOGIN''" "clean_line ''MAIL FROM:''" "clean_line ''RCPT TO:''"
  "clean_line ''DATA''" "clean_line ''QUIT''"
  by (simp_all add: clean_line_def CR_def LF_def)

abbreviation one_line :: "string \<Rightarrow> bool" where
  "one_line p \<equiv> \<exists>l. p = l @ crlf \<and> clean_line l"

lemma hello_lines_clean: "p \<in> hello_lines E \<Longrightarrow> clean_line (cc_Identity (ce_config E)) \<Longrightarrow> one_line p"
  using command_words_clean by (auto simp only: hello_lines_def ehlo_line_def helo_line_def clean_line_append)

lemma auth_lines_clean: "p \<in> auth_lines c \<Longrightarrow> one_line p"
proof -
  have "''AUTH PLAIN '' @ plain_payload c @ crlf = (''AUTH PLAIN '' @ plain_payload c) @ crlf" by simp
  then have "p \<in> auth_lines c \<Longrightarrow> \<exists>l \<in> {''AUTH PLAIN '' @ plain_payload c, ''AUTH PLAIN'', plain_payload c, ''AUTH LOGIN'',
      b64 (cr_Username c), b64 (cr_Password c)}. p = l @ crlf"
    unfolding auth_lines_def by blast
  then show "p \<in> auth_lines c \<Longrightarrow> one_line p"
    using command_words_clean b64_clean unfolding plain_payload_def by (metis clean_line_append insertE singletonD)
qed

lemma mail_lines_clean:
  assumes "p \<in> mail_lines req" "envelope_ok (dq_Envelope req)"
  shows "p = serializeForDATA (dq_Raw req) \<or> one_line p"
proof -
  have "clean_line (mail_line (env_MailFrom (dq_Envelope req)))"
    "r \<in> set (env_Recipients (dq_Envelope req)) \<Longrightarrow> clean_line (rcpt_line r)" for r
    using assms(2) validateEnvelopePath_clean
    by (auto simp only: mail_line_def rcpt_line_def clean_line_append command_words_clean envelope_ok_def list_all_iff)
  then show ?thesis using assms(1) command_words_clean unfolding mail_lines_def by blast
qed

lemma write_ok_one_line:
  assumes "write_ok E req w" "clean_line (cc_Identity (ce_config E))" "envelope_ok (dq_Envelope req)"
  shows "snd w = serializeForDATA (dq_Raw req) \<or> one_line (snd w)"
  using assms(1) hello_lines_clean [OF _ assms(2)] auth_lines_clean mail_lines_clean [OF _ assms(3)]
  unfolding write_ok_def by blast

lemma cc_normalized_identity:
  assumes "cc_normalized cfg0 = Some cfg"
  shows "clean_line (cc_Identity cfg)"
proof -
  define c1 where "c1 = (if cc_Identity cfg0 = [] then cfg0\<lparr>cc_Identity := ''localhost''\<rparr> else cfg0)"
  have "\<not> ContainsAny (cc_Identity c1) [CHR 0x0D, CHR 0x0A, CHR 0x00, CHR 0x20, CHR 0x09]" "cfg = cc_defaults c1"
    using assms unfolding cc_normalized_def Let_def c1_def [symmetric] by (auto split: if_split_asm)
  moreover have "cc_Identity (cc_defaults c1) = cc_Identity c1" by (simp add: cc_defaults_def)
  ultimately show ?thesis by (auto simp: ContainsAny_def list_ex_iff clean_line_def CR_def LF_def)
qed

text \<open>
  No command injection: apart from the message data itself, everything the client writes is
  exactly one line, ended by CRLF and with no other CR or LF in it, whatever the envelope, the
  credentials and the configured identity are.
\<close>

theorem send_one_command_per_write:
  assumes "client_Send U cfg P req = (result, log)" "cc_normalized cfg0 = Some cfg" "(tls, payload) \<in> set log"
  shows "payload = serializeForDATA (dq_Raw req) \<or>
    (\<exists>line. payload = line @ crlf \<and> CR \<notin> set line \<and> LF \<notin> set line)"
proof -
  let ?E = "send_env U cfg P req"
  obtain res err where "result = (res, err)" by fastforce
  then have "client_Send U cfg P req = ((res, err), log)" using assms(1) by simp
  from client_Send_cases [OF this] obtain r s where
    env: "envelope_ok (dq_Envelope req)" and "run ?E req (start_session P) = ((r, err), s)" "log = cs_log s"
    using assms(3) by auto
  from run_log(1) [OF this(2) start_log] this(3) have "write_ok ?E req (tls, payload)"
    using assms(3) by (auto simp: list_all_iff)
  moreover have "clean_line (cc_Identity (ce_config ?E))"
    using cc_normalized_identity [OF assms(2)] by (simp add: send_env_def)
  ultimately show ?thesis using write_ok_one_line [OF _ _ env] by (fastforce simp: clean_line_def)
qed

theorem send_one_command_per_write_witness:
  "\<exists>line. ehlo_line (cl_demo_cfg TLSRequired) @ crlf = line @ crlf \<and> CR \<notin> set line \<and> LF \<notin> set line"
proof -
  have mem: "(False, ehlo_line (cl_demo_cfg TLSRequired) @ crlf) \<in> set (snd (cl_demo_run TLSRequired))"
    by (simp add: cl_demo_runs)
  have run: "client_Send plain_unicode (cl_demo_cfg TLSRequired) cl_demo_peer cl_demo_req =
      (fst (cl_demo_run TLSRequired), snd (cl_demo_run TLSRequired))" by (simp add: cl_demo_run_def)
  have norm: "cc_normalized (cl_demo_cfg TLSRequired) = Some (cl_demo_cfg TLSRequired)" by code_simp
  have "ehlo_line (cl_demo_cfg TLSRequired) @ crlf \<noteq> serializeForDATA (dq_Raw cl_demo_req)" by code_simp
  with send_one_command_per_write [OF run norm mem] show ?thesis by blast
qed

end
