(* ===== verification/Delivery.thy ===== *)
theory Delivery
  imports SMTP_Client DNS "HOL-Library.Multiset"
begin

text \<open>
  One delivery operation: a transfer attempt (\<^verbatim>\<open>internal/transfer/transfer.go\<close>) and the engine that
  resolves a domain and tries its hosts in order (\<^verbatim>\<open>internal/delivery\<close>: \<^verbatim>\<open>delivery.go\<close>,
  \<^verbatim>\<open>policy.go\<close>, \<^verbatim>\<open>result.go\<close>). Identifiers, time stamps and the texts of error messages are left
  out: no decision depends on them.
\<close>

section \<open>One transfer attempt\<close>

record transferRequest =
  tq_Destination :: string
  tq_Envelope :: envelope
  tq_Raw :: string
  tq_Auth :: "credentials option"

record transferResult =
  tr_Destination :: string
  tr_Accepted :: bool
  tr_FailureStage :: "stage option"
  tr_Temporary :: bool
  tr_FinalCode :: nat
  tr_EnhancedStatus :: string
  tr_RemoteMessage :: string
  tr_Recipient :: string
  tr_QuitError :: "deliveryError option"
  tr_TLS :: tlsInfo
  tr_Auth :: authInfo

record transferError =
  te_Destination :: string
  te_Stage :: stage
  te_Temporary :: bool
  te_Recipient :: string
  te_Code :: nat
  te_Enhanced :: string

text \<open>An error of the SMTP client: a \<^verbatim>\<open>DeliveryError\<close>, or any other error value.\<close>

datatype send_error = SendFailure deliveryError | SendOther

definition freshResult :: "string \<Rightarrow> transferResult" where
  "freshResult dest = \<lparr>tr_Destination = dest, tr_Accepted = False, tr_FailureStage = None, tr_Temporary = False,
     tr_FinalCode = 0, tr_EnhancedStatus = [], tr_RemoteMessage = [], tr_Recipient = [], tr_QuitError = None,
     tr_TLS = noTLS, tr_Auth = noAuth\<rparr>"

definition bareError :: "string \<Rightarrow> stage \<Rightarrow> transferError" where
  "bareError dest st = \<lparr>te_Destination = dest, te_Stage = st, te_Temporary = False, te_Recipient = [],
     te_Code = 0, te_Enhanced = []\<rparr>"

definition Transfer ::
  "(deliveryRequest \<Rightarrow> deliveryResult \<times> send_error option) \<Rightarrow> transferRequest \<Rightarrow>
   transferResult \<times> transferError option" where
  "Transfer send req =
     (let fresh = freshResult (tq_Destination req)
      in if tq_Destination req = [] then
           (fresh\<lparr>tr_FailureStage := Some StageInvalidInput\<rparr>, Some (bareError [] StageInvalidInput))
         else if env_Recipients (tq_Envelope req) = [] then
           (fresh\<lparr>tr_FailureStage := Some StageInvalidInput\<rparr>,
            Some (bareError (tq_Destination req) StageInvalidInput))
         else
           case send \<lparr>dq_Address = tq_Destination req, dq_Envelope = tq_Envelope req, dq_Raw = tq_Raw req,
                      dq_Auth = tq_Auth req\<rparr> of
             (sr, err) \<Rightarrow>
               let r = fresh\<lparr>tr_Accepted := dl_Accepted sr, tr_FinalCode := dl_FinalCode sr,
                             tr_RemoteMessage := dl_FinalMessage sr, tr_TLS := dl_TLS sr, tr_Auth := dl_Auth sr,
                             tr_QuitError := dl_QuitError sr\<rparr>
               in case err of
                    None \<Rightarrow> (r, None)
                  | Some (SendFailure de) \<Rightarrow>
                      (r\<lparr>tr_FailureStage := Some (de_Stage de), tr_Temporary := de_Temporary de,
                         tr_FinalCode := de_Code de, tr_EnhancedStatus := de_Enhanced de,
                         tr_RemoteMessage := de_Remote de, tr_Recipient := de_Recipient de\<rparr>,
                       Some \<lparr>te_Destination = tq_Destination req, te_Stage = de_Stage de,
                         te_Temporary = de_Temporary de, te_Recipient = de_Recipient de, te_Code = de_Code de,
                         te_Enhanced = de_Enhanced de\<rparr>)
                  | Some SendOther \<Rightarrow>
                      (r\<lparr>tr_FailureStage := Some StageUnknown\<rparr>,
                       Some (bareError (tq_Destination req) StageUnknown)))"

text \<open>The transfer service over the SMTP client and a peer.\<close>

definition smtp_send :: "unicode \<Rightarrow> clientConfig \<Rightarrow> peer \<Rightarrow> deliveryRequest \<Rightarrow> deliveryResult \<times> send_error option" where
  "smtp_send U cfg P req = map_prod id (map_option SendFailure) (fst (client_Send U cfg P req))"

text \<open>
  What the engine relies on of a transferer: it reports an error exactly when the message was
  not accepted.
\<close>

locale transferer =
  fixes transfer :: "'w \<Rightarrow> transferRequest \<Rightarrow> transferResult \<times> transferError option"
  assumes accepted_iff: "transfer w q = (r, e) \<Longrightarrow> tr_Accepted r \<longleftrightarrow> e = None"

section \<open>Results\<close>

datatype dkind =
    KindAccepted | KindInvalidRequest | KindDNSNotFound | KindDNSNullMX | KindDNSTemporary
  | KindDNSFailure | KindTransferTemporary | KindTransferPermanent | KindContext

record attempt =
  at_MX :: mx
  at_Destination :: string
  at_Transfer :: transferResult
  at_TransferErr :: "transferError option"

datatype transport = NoTransport | Direct | ViaRelay

record deliveryOutcome =
  do_Domain :: string
  do_Transport :: transport
  do_Kind :: "dkind option"
  do_Accepted :: bool
  do_FinalCode :: nat
  do_EnhancedStatus :: string
  do_RemoteMessage :: string
  do_FailureStage :: "stage option"
  do_Recipient :: string
  do_QuitError :: "deliveryError option"
  do_Attempts :: "attempt list"
  do_MXCandidates :: "mx list"

record engineError =
  ee_Kind :: dkind
  ee_Domain :: string
  ee_Temporary :: bool

definition do_Temporary :: "deliveryOutcome \<Rightarrow> bool" where
  "do_Temporary r \<longleftrightarrow> do_Kind r \<in> {Some KindDNSTemporary, Some KindTransferTemporary, Some KindContext}"

section \<open>The fallback policy\<close>

datatype fallbackDecision = stopPermanent | stopTemporary | tryNext

text \<open>\<open>None\<close>: an error that is not a \<^verbatim>\<open>TransferError\<close>, or no error.\<close>

definition decideFallback :: "transferError option \<Rightarrow> fallbackDecision" where
  "decideFallback err =
     (case err of
        None \<Rightarrow> stopTemporary
      | Some te \<Rightarrow>
          (case te_Stage te of
             StageInvalidInput \<Rightarrow> stopPermanent
           | StageDial \<Rightarrow> tryNext
           | StageAuth \<Rightarrow> stopTemporary
           | StageStartTLS \<Rightarrow> tryNext
           | StageTLS \<Rightarrow> tryNext
           | StageEHLOTLS \<Rightarrow> tryNext
           | StageGreeting \<Rightarrow> tryNext
           | StageEHLO \<Rightarrow> tryNext
           | StageHELO \<Rightarrow> tryNext
           | StageMailFrom \<Rightarrow> if te_Temporary te then stopTemporary else stopPermanent
           | StageRcptTo \<Rightarrow> if te_Temporary te then stopTemporary else stopPermanent
           | StageData \<Rightarrow> if te_Temporary te then stopTemporary else stopPermanent
           | StageMessage \<Rightarrow> if te_Temporary te then stopTemporary else stopPermanent
           | StageDataResponse \<Rightarrow> if te_Temporary te then stopTemporary else stopPermanent
           | StageQuit \<Rightarrow> stopTemporary
           | StageUnknown \<Rightarrow> stopTemporary))"

definition classifyFinal :: "fallbackDecision \<Rightarrow> transferError option \<Rightarrow> dkind" where
  "classifyFinal decision te =
     (case decision of
        stopPermanent \<Rightarrow>
          (case te of Some t \<Rightarrow> if te_Stage t = StageInvalidInput then KindInvalidRequest else KindTransferPermanent
           | None \<Rightarrow> KindTransferPermanent)
      | stopTemporary \<Rightarrow> KindTransferTemporary
      | tryNext \<Rightarrow> KindTransferTemporary)"

section \<open>Requests and candidates\<close>

record relay =
  ry_Host :: string
  ry_Port :: int
  ry_Auth :: "credentials option"

record engineConfig =
  ec_SMTPPort :: int
  ec_Relay :: "relay option"

definition relay_ok :: "relay \<Rightarrow> bool" where
  "relay_ok r \<longleftrightarrow>
     TrimSpace (ry_Host r) \<noteq> [] \<and>
     \<not> ContainsAny (ry_Host r) [CHR 0x20, CHR 0x09, CHR 0x0D, CHR 0x0A, CHR ''/'', CHR ''@''] \<and>
     1 \<le> ry_Port r \<and> ry_Port r \<le> 65535 \<and>
     (case ry_Auth r of None \<Rightarrow> True | Some c \<Rightarrow> cred_Validate c)"

definition NewEngine :: "engineConfig \<Rightarrow> engineConfig option" where
  "NewEngine cfg0 =
     (let cfg = (if ec_SMTPPort cfg0 = 0 then cfg0\<lparr>ec_SMTPPort := 25\<rparr> else cfg0)
      in if ec_SMTPPort cfg < 1 \<or> ec_SMTPPort cfg > 65535 then None
         else case ec_Relay cfg of
             None \<Rightarrow> Some cfg
           | Some r \<Rightarrow> if relay_ok r then Some cfg else None)"

record engineRequest =
  eq_Domain :: string
  eq_Envelope :: envelope
  eq_Raw :: string

definition extractDomain :: "string \<Rightarrow> string option" where
  "extractDomain path0 =
     (let path = TrimSpace path0
      in if \<not> HasPrefix path ''<'' \<or> \<not> HasSuffix path ''>'' then None
         else let inner = take (length path - 2) (drop 1 path)
              in case LastIndexByte inner (CHR ''@'') of
                   None \<Rightarrow> None
                 | Some at \<Rightarrow> if at + 1 = length inner then None else Some (drop (at + 1) inner))"

definition validateRequest :: "unicode \<Rightarrow> engineRequest \<Rightarrow> bool" where
  "validateRequest U req \<longleftrightarrow>
     TrimSpace (eq_Domain req) \<noteq> [] \<and> env_Recipients (eq_Envelope req) \<noteq> [] \<and>
     list_all (\<lambda>r. case extractDomain r of None \<Rightarrow> False
                | Some rd \<Rightarrow> EqualFold U rd (ToLower U (TrimSpace (eq_Domain req))))
       (env_Recipients (eq_Envelope req))"

text \<open>\<^verbatim>\<open>shuffle\<close> permutes a group in place; a group of one is left alone.\<close>

function orderCandidates :: "(mx list \<Rightarrow> mx list) \<Rightarrow> mx list \<Rightarrow> mx list" where
  "orderCandidates shuffle [] = []"
| "orderCandidates shuffle (m # ms) =
     (let group = m # takeWhile (\<lambda>x. mx_Preference x = mx_Preference m) ms;
          rest = dropWhile (\<lambda>x. mx_Preference x = mx_Preference m) ms
      in (if length group > 1 then shuffle group else group) @ orderCandidates shuffle rest)"
  by pat_completeness auto
termination
  by (relation "measure (\<lambda>(f, ms). length ms)") (auto simp: le_imp_less_Suc length_dropWhile_le)

definition JoinHostPort :: "string \<Rightarrow> int \<Rightarrow> string" where
  "JoinHostPort host port =
     (if CHR '':'' \<in> set host then ''['' @ host @ '']:'' @ int_dec port else host @ '':'' @ int_dec port)"


section \<open>The engine\<close>

text \<open>
  What a delivery meets: the resolver's answer (an error that is not a \<^verbatim>\<open>LookupError\<close> is
  \<open>Inl None\<close>), whether the context is done before the n-th attempt and after the last, and what
  the n-th transfer returns for a request. An error of the transfer that is not a
  \<^verbatim>\<open>TransferError\<close> is \<open>None\<close>, like no error: the engine treats the two alike.
\<close>

record world =
  wo_lookup :: "string \<Rightarrow> lookup_error option + mx list"
  wo_ctxBefore :: "nat \<Rightarrow> bool"
  wo_ctxAfter :: bool
  wo_transfer :: "nat \<Rightarrow> transferRequest \<Rightarrow> transferResult \<times> transferError option"
  wo_shuffle :: "mx list \<Rightarrow> mx list"

datatype loop_end =
    LoopContext
  | LoopAccepted transferResult
  | LoopFailed "transferError option" string fallbackDecision

definition mk_request :: "int \<Rightarrow> credentials option \<Rightarrow> engineRequest \<Rightarrow> mx \<Rightarrow> transferRequest" where
  "mk_request port auth req m = \<lparr>tq_Destination = JoinHostPort (mx_Host m) port, tq_Envelope = eq_Envelope req,
     tq_Raw = eq_Raw req, tq_Auth = auth\<rparr>"

text \<open>The loop over the candidates, with the attempts made so far and how the last one ended.\<close>

fun try_candidates ::
  "world \<Rightarrow> int \<Rightarrow> credentials option \<Rightarrow> engineRequest \<Rightarrow> attempt list \<Rightarrow>
   transferError option \<times> string \<times> fallbackDecision \<Rightarrow> mx list \<Rightarrow> attempt list \<times> loop_end" where
  "try_candidates W port auth req atts (lastErr, lastRemote, lastDec) [] = (atts, LoopFailed lastErr lastRemote lastDec)"
| "try_candidates W port auth req atts prev (m # ms) =
     (if wo_ctxBefore W (length atts) then (atts, LoopContext)
      else
        let q = mk_request port auth req m
        in case wo_transfer W (length atts) q of
             (tr, te) \<Rightarrow>
               if tr_Accepted tr then
                 (atts @ [\<lparr>at_MX = m, at_Destination = tq_Destination q, at_Transfer = tr, at_TransferErr = None\<rparr>],
                  LoopAccepted tr)
               else
                 let atts' = atts @ [\<lparr>at_MX = m, at_Destination = tq_Destination q, at_Transfer = tr, at_TransferErr = te\<rparr>]
                 in if decideFallback te \<noteq> tryNext then
                      (atts', LoopFailed te (tr_RemoteMessage tr) (decideFallback te))
                    else try_candidates W port auth req atts' (te, tr_RemoteMessage tr, decideFallback te) ms)"

definition finishDNS :: "deliveryOutcome \<Rightarrow> string \<Rightarrow> lookup_error option \<Rightarrow> deliveryOutcome \<times> engineError option" where
  "finishDNS res domain err =
     (let kind = (case err of
            None \<Rightarrow> KindDNSFailure
          | Some le \<Rightarrow>
              (case le_Kind le of
                 DNSInvalidDomain \<Rightarrow> KindInvalidRequest
               | DNSNullMX \<Rightarrow> KindDNSNullMX
               | DNSNotFound \<Rightarrow> KindDNSNotFound
               | DNSTemporary \<Rightarrow> KindDNSTemporary
               | DNSResolverFailure \<Rightarrow> KindDNSFailure))
      in (res\<lparr>do_Kind := Some kind\<rparr>,
          Some \<lparr>ee_Kind = kind, ee_Domain = domain, ee_Temporary = (kind = KindDNSTemporary)\<rparr>))"

definition finishContext :: "deliveryOutcome \<Rightarrow> string \<Rightarrow> deliveryOutcome \<times> engineError option" where
  "finishContext res domain =
     (res\<lparr>do_Kind := Some KindContext\<rparr>, Some \<lparr>ee_Kind = KindContext, ee_Domain = domain, ee_Temporary = True\<rparr>)"

definition finish_loop ::
  "world \<Rightarrow> engineRequest \<Rightarrow> deliveryOutcome \<Rightarrow> loop_end \<Rightarrow> deliveryOutcome \<times> engineError option" where
  "finish_loop W req res e =
     (case e of
        LoopContext \<Rightarrow> finishContext res (eq_Domain req)
      | LoopAccepted tr \<Rightarrow>
          (res\<lparr>do_Kind := Some KindAccepted, do_Accepted := True, do_FinalCode := tr_FinalCode tr,
               do_RemoteMessage := tr_RemoteMessage tr, do_QuitError := tr_QuitError tr\<rparr>, None)
      | LoopFailed lastErr lastRemote lastDec \<Rightarrow>
          if wo_ctxAfter W then finishContext res (eq_Domain req)
          else if do_Attempts res = [] then
            (res\<lparr>do_Kind := Some KindDNSFailure\<rparr>,
             Some \<lparr>ee_Kind = KindDNSFailure, ee_Domain = eq_Domain req, ee_Temporary = False\<rparr>)
          else
            let kind = classifyFinal lastDec lastErr;
                r1 = res\<lparr>do_Kind := Some kind\<rparr>;
                r2 = (case lastErr of
                        None \<Rightarrow> r1
                      | Some te \<Rightarrow> r1\<lparr>do_FailureStage := Some (te_Stage te), do_FinalCode := te_Code te,
                                      do_EnhancedStatus := te_Enhanced te, do_RemoteMessage := lastRemote,
                                      do_Recipient := te_Recipient te\<rparr>)
            in (r2, Some \<lparr>ee_Kind = kind, ee_Domain = eq_Domain req, ee_Temporary = (kind = KindTransferTemporary)\<rparr>))"

definition freshOutcome :: "string \<Rightarrow> deliveryOutcome" where
  "freshOutcome d = \<lparr>do_Domain = d, do_Transport = NoTransport, do_Kind = None, do_Accepted = False,
     do_FinalCode = 0, do_EnhancedStatus = [], do_RemoteMessage = [], do_FailureStage = None, do_Recipient = [],
     do_QuitError = None, do_Attempts = [], do_MXCandidates = []\<rparr>"

definition deliver_to ::
  "world \<Rightarrow> engineRequest \<Rightarrow> transport \<Rightarrow> int \<Rightarrow> credentials option \<Rightarrow> mx list \<Rightarrow>
   deliveryOutcome \<times> engineError option" where
  "deliver_to W req via port auth cands =
     (case try_candidates W port auth req [] (None, [], stopTemporary) cands of
        (atts, e) \<Rightarrow>
          finish_loop W req ((freshOutcome (eq_Domain req))\<lparr>do_Transport := via, do_MXCandidates := cands,
            do_Attempts := atts\<rparr>) e)"

definition Deliver ::
  "unicode \<Rightarrow> engineConfig \<Rightarrow> world \<Rightarrow> engineRequest \<Rightarrow> deliveryOutcome \<times> engineError option" where
  "Deliver U cfg W req =
     (let res = freshOutcome (eq_Domain req)
      in if \<not> validateRequest U req then
           (res\<lparr>do_Kind := Some KindInvalidRequest\<rparr>,
            Some \<lparr>ee_Kind = KindInvalidRequest, ee_Domain = eq_Domain req, ee_Temporary = False\<rparr>)
         else case ec_Relay cfg of
             Some r \<Rightarrow> deliver_to W req ViaRelay (ry_Port r) (ry_Auth r) [\<lparr>mx_Host = ry_Host r, mx_Preference = 0\<rparr>]
           | None \<Rightarrow>
               (case wo_lookup W (eq_Domain req) of
                  Inl err \<Rightarrow> finishDNS (res\<lparr>do_Transport := Direct\<rparr>) (eq_Domain req) err
                | Inr cands \<Rightarrow>
                    deliver_to W req Direct (ec_SMTPPort cfg) None (orderCandidates (wo_shuffle W) cands)))"

section \<open>What the loop does\<close>

abbreviation accepted :: "attempt \<Rightarrow> bool" where
  "accepted a \<equiv> tr_Accepted (at_Transfer a)"

text \<open>Attempt \<open>a\<close> is the n-th transfer, to its host, with the request the routing prescribes.\<close>

definition made_by :: "world \<Rightarrow> int \<Rightarrow> credentials option \<Rightarrow> engineRequest \<Rightarrow> nat \<Rightarrow> attempt \<Rightarrow> bool" where
  "made_by W port auth req n a \<longleftrightarrow>
     at_Destination a = JoinHostPort (mx_Host (at_MX a)) port \<and>
     at_Transfer a = fst (wo_transfer W n (mk_request port auth req (at_MX a))) \<and>
     (\<not> accepted a \<longrightarrow> at_TransferErr a = snd (wo_transfer W n (mk_request port auth req (at_MX a))))"

definition went_on :: "attempt \<Rightarrow> bool" where
  "went_on a \<longleftrightarrow> \<not> accepted a \<and> decideFallback (at_TransferErr a) = tryNext"

definition end_ok :: "attempt list \<Rightarrow> loop_end \<Rightarrow> bool" where
  "end_ok atts e \<longleftrightarrow>
     (case e of
        LoopContext \<Rightarrow> list_all went_on atts
      | LoopAccepted tr \<Rightarrow> atts \<noteq> [] \<and> accepted (last atts) \<and> tr = at_Transfer (last atts)
      | LoopFailed te rm dec \<Rightarrow> list_all (\<lambda>a. \<not> accepted a) atts \<and>
          (atts \<noteq> [] \<longrightarrow> te = at_TransferErr (last atts) \<and> dec = decideFallback te))"

lemma try_candidates_facts:
  assumes "try_candidates W port auth req atts prev cands = (atts', e)"
    and "list_all went_on atts" and "atts \<noteq> [] \<longrightarrow> prev = (at_TransferErr (last atts), tr_RemoteMessage (at_Transfer (last atts)), tryNext)"
  shows "\<exists>new. atts' = atts @ new \<and> length new \<le> length cands \<and> map at_MX new = take (length new) cands \<and>
    (\<forall>k < length new. made_by W port auth req (length atts + k) (new ! k)) \<and>
    list_all went_on (butlast atts') \<and> end_ok atts' e"
  using assms
proof (induction cands arbitrary: atts prev)
  case Nil
  then show ?case
    by (cases prev) (auto simp: end_ok_def list_all_iff went_on_def dest: in_set_butlastD)
next
  case (Cons m ms)
  let ?q = "mk_request port auth req m"
  obtain tr te where t: "wo_transfer W (length atts) ?q = (tr, te)" by fastforce
  define a where "a = \<lparr>at_MX = m, at_Destination = tq_Destination ?q, at_Transfer = tr,
     at_TransferErr = (if tr_Accepted tr then None else te)\<rparr>"
  have made: "made_by W port auth req (length atts) a" proof -
    have "tq_Destination ?q = JoinHostPort (mx_Host m) port" by (simp add: mk_request_def)
    then show ?thesis by (simp add: made_by_def a_def t)
  qed
  have run: "try_candidates W port auth req atts prev (m # ms) =
      (if wo_ctxBefore W (length atts) then (atts, LoopContext)
       else if tr_Accepted tr then (atts @ [a], LoopAccepted tr)
       else if decideFallback te \<noteq> tryNext then (atts @ [a], LoopFailed te (tr_RemoteMessage tr) (decideFallback te))
       else try_candidates W port auth req (atts @ [a]) (te, tr_RemoteMessage tr, decideFallback te) ms)"
    by (simp add: Let_def a_def t)
  consider (ctx) "wo_ctxBefore W (length atts)"
    | (one) "\<not> wo_ctxBefore W (length atts)" "tr_Accepted tr \<or> decideFallback te \<noteq> tryNext"
    | (more) "\<not> wo_ctxBefore W (length atts)" "\<not> tr_Accepted tr" "decideFallback te = tryNext" by blast
  then show ?case
  proof cases
    case ctx
    then have "atts' = atts" "e = LoopContext" using Cons.prems(1) unfolding run by simp_all
    then show ?thesis using Cons.prems(2) by (auto simp: end_ok_def list_all_iff dest: in_set_butlastD)
  next
    case one
    have no: "list_all (\<lambda>a. \<not> accepted a) atts" using Cons.prems(2) by (auto simp: list_all_iff went_on_def)
    have r: "atts' = atts @ [a]" "end_ok atts' e"
      using Cons.prems(1) one no unfolding run by (auto simp: a_def end_ok_def split: if_splits)
    then show ?thesis using made Cons.prems(2)
      by (intro exI [of _ "[a]"]) (simp add: a_def)
  next
    case more
    have tc: "try_candidates W port auth req (atts @ [a]) (te, tr_RemoteMessage tr, tryNext) ms = (atts', e)"
      using Cons.prems(1) more unfolding run by simp
    have "went_on a" using more by (simp add: a_def went_on_def)
    then have all: "list_all went_on (atts @ [a])" using Cons.prems(2) by simp
    have prev: "atts @ [a] \<noteq> [] \<longrightarrow> (te, tr_RemoteMessage tr, tryNext) =
        (at_TransferErr (last (atts @ [a])), tr_RemoteMessage (at_Transfer (last (atts @ [a]))), tryNext)"
      using more(2) by (simp add: a_def)
    from Cons.IH [OF tc all prev] obtain new where new: "atts' = (atts @ [a]) @ new" "length new \<le> length ms"
      "map at_MX new = take (length new) ms"
      "\<forall>k < length new. made_by W port auth req (length (atts @ [a]) + k) (new ! k)"
      "list_all went_on (butlast atts')" "end_ok atts' e" by blast
    have "made_by W port auth req (length atts + k) ((a # new) ! k)" if "k < length (a # new)" for k
      using made new(4) that by (cases k) auto
    then show ?thesis using new by (intro exI [of _ "a # new"]) (auto simp: a_def)
  qed
qed

text \<open>A definitive refusal within the mail transaction.\<close>

definition transaction_stages :: "stage set" where
  "transaction_stages = {StageMailFrom, StageRcptTo, StageData, StageMessage, StageDataResponse}"

definition refused :: "transferError option \<Rightarrow> bool" where
  "refused e \<longleftrightarrow> (\<exists>te. e = Some te \<and> te_Stage te \<in> transaction_stages \<and> \<not> te_Temporary te)"

lemma refused_iff: "refused e \<longleftrightarrow> classifyFinal (decideFallback e) e = KindTransferPermanent"
  by (cases e) (auto simp: refused_def transaction_stages_def classifyFinal_def decideFallback_def split: stage.splits)

lemma deliver_to_facts:
  assumes "deliver_to W req via port auth cands = (res, err)"
  shows "do_Transport res = via" "do_MXCandidates res = cands"
    "do_Accepted res \<longleftrightarrow> err = None" "do_Kind res = Some KindAccepted \<longleftrightarrow> err = None"
    "length (do_Attempts res) \<le> length cands" "map at_MX (do_Attempts res) = take (length (do_Attempts res)) cands"
    "\<forall>k < length (do_Attempts res). made_by W port auth req k (do_Attempts res ! k)"
    "list_all went_on (butlast (do_Attempts res))"
    "err = None \<longleftrightarrow> do_Attempts res \<noteq> [] \<and> accepted (last (do_Attempts res))"
    "do_Kind res = Some KindTransferPermanent \<Longrightarrow> do_Attempts res \<noteq> [] \<and>
       refused (at_TransferErr (last (do_Attempts res)))"
proof -
  obtain atts e where t: "try_candidates W port auth req [] (None, [], stopTemporary) cands = (atts, e)" by fastforce
  from try_candidates_facts [OF t] obtain new where
    n: "atts = new" "length new \<le> length cands" "map at_MX new = take (length new) cands"
      "\<forall>k < length new. made_by W port auth req k (new ! k)" "list_all went_on (butlast atts)" "end_ok atts e" by auto
  let ?r = "(freshOutcome (eq_Domain req))\<lparr>do_Transport := via, do_MXCandidates := cands, do_Attempts := atts\<rparr>"
  have f: "finish_loop W req ?r e = (res, err)" using assms t by (simp add: deliver_to_def)
  have kept: "do_Attempts res = atts \<and> do_Transport res = via \<and> do_MXCandidates res = cands"
    using f by (auto simp: finish_loop_def finishContext_def Let_def split: loop_end.splits if_splits option.splits)
  have kinds: "classifyFinal dec te \<noteq> KindAccepted" for dec te
    by (simp add: classifyFinal_def split: fallbackDecision.splits option.splits)
  have acc: "(do_Accepted res \<longleftrightarrow> err = None) \<and> (do_Kind res = Some KindAccepted \<longleftrightarrow> err = None) \<and>
      (err = None \<longleftrightarrow> (\<exists>tr. e = LoopAccepted tr))"
    using f kinds
    by (auto simp: finish_loop_def finishContext_def freshOutcome_def Let_def split: loop_end.splits if_splits option.splits)
  have last: "(\<exists>tr. e = LoopAccepted tr) \<longleftrightarrow> atts \<noteq> [] \<and> accepted (last atts)"
    using n(6) by (cases e) (auto simp: end_ok_def list_all_iff went_on_def)
  have perm: "do_Kind res = Some KindTransferPermanent \<longrightarrow> atts \<noteq> [] \<and> refused (at_TransferErr (last atts))"
    using f n(6) refused_iff
    by (auto simp: finish_loop_def finishContext_def end_ok_def classifyFinal_def Let_def
        split: loop_end.splits if_splits option.splits fallbackDecision.splits)
  show "do_Transport res = via" "do_MXCandidates res = cands"
    "do_Accepted res \<longleftrightarrow> err = None" "do_Kind res = Some KindAccepted \<longleftrightarrow> err = None"
    "length (do_Attempts res) \<le> length cands" "map at_MX (do_Attempts res) = take (length (do_Attempts res)) cands"
    "\<forall>k < length (do_Attempts res). made_by W port auth req k (do_Attempts res ! k)"
    "list_all went_on (butlast (do_Attempts res))"
    "err = None \<longleftrightarrow> do_Attempts res \<noteq> [] \<and> accepted (last (do_Attempts res))"
    using kept acc n last by auto
  show "do_Kind res = Some KindTransferPermanent \<Longrightarrow> do_Attempts res \<noteq> [] \<and>
       refused (at_TransferErr (last (do_Attempts res)))"
    using perm kept by simp
qed

text \<open>Either nobody was contacted and an error is reported, or the candidates were tried.\<close>

lemma Deliver_cases:
  assumes "Deliver U cfg W req = (res, err)"
  obtains (none) "do_Attempts res = []" "err \<noteq> None" "\<not> do_Accepted res"
      "do_Kind res \<noteq> Some KindAccepted" "do_Kind res \<noteq> Some KindTransferPermanent"
    | (relay) r where "ec_Relay cfg = Some r" "validateRequest U req"
        "deliver_to W req ViaRelay (ry_Port r) (ry_Auth r) [\<lparr>mx_Host = ry_Host r, mx_Preference = 0\<rparr>] = (res, err)"
    | (direct) cands where "ec_Relay cfg = None" "validateRequest U req" "wo_lookup W (eq_Domain req) = Inr cands"
        "deliver_to W req Direct (ec_SMTPPort cfg) None (orderCandidates (wo_shuffle W) cands) = (res, err)"
proof (cases "validateRequest U req")
  case False
  then show ?thesis using assms none by (auto simp: Deliver_def freshOutcome_def Let_def)
next
  case valid: True
  show ?thesis
  proof (cases "ec_Relay cfg")
    case (Some r)
    then show ?thesis using assms valid relay by (simp add: Deliver_def Let_def)
  next
    case None
    show ?thesis
    proof (cases "wo_lookup W (eq_Domain req)")
      case (Inl e)
      then show ?thesis using assms valid None none
        by (auto simp: Deliver_def finishDNS_def freshOutcome_def Let_def split: option.splits dns_kind.splits)
    next
      case (Inr cands)
      then show ?thesis using assms valid None direct by (simp add: Deliver_def Let_def)
    qed
  qed
qed

section \<open>What a delivery guarantees\<close>

interpretation smtp_transfer: transferer "\<lambda>P. Transfer (smtp_send U cfg P)" for U cfg
proof
  fix P q r e assume run: "Transfer (smtp_send U cfg P) q = (r, e)"
  let ?q = "\<lparr>dq_Address = tq_Destination q, dq_Envelope = tq_Envelope q, dq_Raw = tq_Raw q, dq_Auth = tq_Auth q\<rparr>"
  obtain sr se log where s: "client_Send U cfg P ?q = ((sr, se), log)" by (metis prod.collapse)
  have contract: "dl_Accepted sr \<longleftrightarrow> se = None"
    using client_Send_cases [OF s]
  proof (elim disjE conjE exE)
    fix x s' assume "run (send_env U cfg P ?q) ?q (start_session P) = ((x, se), s')"
      "sr = x\<lparr>dl_TLS := cs_tls s', dl_Auth := cs_auth s'\<rparr>"
    then show ?thesis using run_log(2) [OF _ start_log] by simp
  qed (auto simp: emptyResult_def)
  show "tr_Accepted r \<longleftrightarrow> e = None"
    using run contract
    by (auto simp: Transfer_def smtp_send_def s freshResult_def Let_def split: if_splits option.splits)
qed


text \<open>
  A delivery returns no error exactly when it reports acceptance, and it reports acceptance
  exactly when the last host it contacted accepted the message.
\<close>

theorem deliver_error_iff:
  assumes "Deliver U cfg W req = (res, err)"
  shows "(err = None \<longleftrightarrow> do_Accepted res) \<and> (do_Accepted res \<longleftrightarrow> do_Kind res = Some KindAccepted) \<and>
    (do_Accepted res \<longleftrightarrow> do_Attempts res \<noteq> [] \<and> tr_Accepted (at_Transfer (last (do_Attempts res))))"
  using assms
proof (cases rule: Deliver_cases)
  case none
  then show ?thesis by auto
next
  case (relay r)
  then show ?thesis using deliver_to_facts [OF relay(3)] by blast
next
  case (direct cands)
  then show ?thesis using deliver_to_facts [OF direct(4)] by blast
qed

text \<open>Two hosts: the first cannot be reached, the second accepts.\<close>

definition dl_demo_host :: "string \<Rightarrow> mx" where
  "dl_demo_host h = \<lparr>mx_Host = h, mx_Preference = 10\<rparr>"

definition dl_demo_world :: world where
  "dl_demo_world = \<lparr>wo_lookup = (\<lambda>_. Inr [dl_demo_host ''a'', dl_demo_host ''b'']), wo_ctxBefore = (\<lambda>_. False),
     wo_ctxAfter = False,
     wo_transfer = (\<lambda>n q. if n = 0 then (freshResult (tq_Destination q), Some (bareError (tq_Destination q) StageDial))
       else ((freshResult (tq_Destination q))\<lparr>tr_Accepted := True, tr_FinalCode := 250\<rparr>, None)),
     wo_shuffle = id\<rparr>"

definition dl_demo_req :: engineRequest where
  "dl_demo_req = \<lparr>eq_Domain = ''b.c'', eq_Envelope = \<lparr>env_MailFrom = ''<>'', env_Recipients = [''<a@b.c>'']\<rparr>,
     eq_Raw = ''hi''\<rparr>"

definition dl_demo_cfg :: engineConfig where "dl_demo_cfg = \<lparr>ec_SMTPPort = 25, ec_Relay = None\<rparr>"

definition dl_demo_run where "dl_demo_run = Deliver plain_unicode dl_demo_cfg dl_demo_world dl_demo_req"

lemma dl_demo_facts:
  "map at_Destination (do_Attempts (fst dl_demo_run)) = [''a:25'', ''b:25'']" "snd dl_demo_run = None"
  by code_simp+

lemma dl_demo_eq: "Deliver plain_unicode dl_demo_cfg dl_demo_world dl_demo_req = (fst dl_demo_run, snd dl_demo_run)"
  by (simp add: dl_demo_run_def)

theorem deliver_error_iff_witness: "do_Accepted (fst dl_demo_run)"
  using deliver_error_iff [OF dl_demo_eq] dl_demo_facts(2) by blast

text \<open>
  (C11) A second host is never contacted once a host took part in a mail transaction: when a
  delivery goes on to another candidate, the host before did not accept the message and failed
  before MAIL FROM, while dialing, greeting or setting up TLS. So a delivery never causes a
  duplicate.
\<close>

theorem deliver_no_second_contact:
  assumes "Deliver U cfg W req = (res, err)" "Suc k < length (do_Attempts res)"
  shows "\<not> tr_Accepted (at_Transfer (do_Attempts res ! k)) \<and>
    (\<exists>te. at_TransferErr (do_Attempts res ! k) = Some te \<and>
       te_Stage te \<in> {StageDial, StageGreeting, StageEHLO, StageHELO, StageStartTLS, StageTLS, StageEHLOTLS})"
proof -
  have "list_all went_on (butlast (do_Attempts res))"
    using assms(1)
  proof (cases rule: Deliver_cases)
    case none
    then show ?thesis by simp
  next
    case (relay r)
    then show ?thesis using deliver_to_facts(8) [OF relay(3)] by blast
  next
    case (direct cands)
    then show ?thesis using deliver_to_facts(8) [OF direct(4)] by blast
  qed
  moreover have "k < length (butlast (do_Attempts res))" using assms(2) by simp
  then have "do_Attempts res ! k \<in> set (butlast (do_Attempts res))" by (metis nth_butlast nth_mem)
  ultimately have "went_on (do_Attempts res ! k)" by (simp add: list_all_iff)
  then show ?thesis
    by (auto simp: went_on_def decideFallback_def split: option.splits stage.splits if_splits)
qed

theorem deliver_no_second_contact_witness: "\<not> tr_Accepted (at_Transfer (do_Attempts (fst dl_demo_run) ! 0))"
proof -
  have "length (do_Attempts (fst dl_demo_run)) = 2" using arg_cong [OF dl_demo_facts(1), of length] by simp
  then show ?thesis using deliver_no_second_contact [OF dl_demo_eq, of 0] by simp
qed

text \<open>
  Routing: direct delivery never hands credentials to a host, and with a configured relay
  the relay is the only host ever contacted; there is no fallback from one to the other.
\<close>

theorem deliver_routing:
  assumes "Deliver U cfg W req = (res, err)"
  shows "(ec_Relay cfg = None \<longrightarrow>
      (\<forall>k < length (do_Attempts res). at_Transfer (do_Attempts res ! k) = fst (wo_transfer W k
         \<lparr>tq_Destination = at_Destination (do_Attempts res ! k), tq_Envelope = eq_Envelope req, tq_Raw = eq_Raw req,
          tq_Auth = None\<rparr>))) \<and>
    (\<forall>r. ec_Relay cfg = Some r \<longrightarrow> length (do_Attempts res) \<le> 1 \<and>
       (\<forall>a\<in>set (do_Attempts res). at_Destination a = JoinHostPort (ry_Host r) (ry_Port r)))"
  using assms
proof (cases rule: Deliver_cases)
  case none
  then show ?thesis by simp
next
  case (relay r)
  note f = deliver_to_facts [OF relay(3)]
  have "at_Destination a = JoinHostPort (ry_Host r) (ry_Port r)" if a: "a \<in> set (do_Attempts res)" for a
  proof -
    obtain k where k: "k < length (do_Attempts res)" "a = do_Attempts res ! k" using a by (metis in_set_conv_nth)
    have "at_MX a \<in> set (map at_MX (do_Attempts res))" using a by simp
    then have "mx_Host (at_MX a) = ry_Host r" unfolding f(6) by (auto dest: in_set_takeD)
    then show ?thesis using f(7) k by (simp add: made_by_def)
  qed
  then show ?thesis using relay(1) f(5) by simp
next
  case (direct cands)
  note f = deliver_to_facts [OF direct(4)]
  show ?thesis using direct(1) f(7) by (simp add: made_by_def mk_request_def)
qed

theorem deliver_routing_witness:
  "at_Transfer (do_Attempts (fst dl_demo_run) ! 1) = fst (wo_transfer dl_demo_world 1
     \<lparr>tq_Destination = ''b:25'', tq_Envelope = eq_Envelope dl_demo_req, tq_Raw = eq_Raw dl_demo_req, tq_Auth = None\<rparr>)"
proof -
  have len: "length (do_Attempts (fst dl_demo_run)) = 2" using arg_cong [OF dl_demo_facts(1), of length] by simp
  have "map at_Destination (do_Attempts (fst dl_demo_run)) ! 1 = ''b:25''" unfolding dl_demo_facts(1) by simp
  then have "at_Destination (do_Attempts (fst dl_demo_run) ! 1) = ''b:25''" using len by simp
  then show ?thesis using deliver_routing [OF dl_demo_eq] len by (simp add: dl_demo_cfg_def)
qed

text \<open>
  Misrouting is impossible: if any recipient's domain is not the delivery domain, nobody is
  contacted and the request is rejected as invalid.
\<close>

theorem deliver_rejects_mixed_domains:
  assumes "r \<in> set (env_Recipients (eq_Envelope req))"
    and "\<And>d. extractDomain r = Some d \<Longrightarrow> \<not> EqualFold U d (ToLower U (TrimSpace (eq_Domain req)))"
  shows "do_Attempts (fst (Deliver U cfg W req)) = [] \<and>
    do_Kind (fst (Deliver U cfg W req)) = Some KindInvalidRequest \<and>
    snd (Deliver U cfg W req) \<noteq> None"
proof -
  have "\<not> validateRequest U req"
    using assms by (auto simp: validateRequest_def list_all_iff split: option.splits)
  then show ?thesis by (simp add: Deliver_def freshOutcome_def Let_def)
qed

definition dl_demo_mixed :: engineRequest where
  "dl_demo_mixed = dl_demo_req\<lparr>eq_Envelope := \<lparr>env_MailFrom = ''<>'', env_Recipients = [''<a@b.c>'', ''<a@evil.c>'']\<rparr>\<rparr>"

theorem deliver_rejects_mixed_domains_witness:
  "do_Kind (fst (Deliver plain_unicode dl_demo_cfg dl_demo_world dl_demo_mixed)) = Some KindInvalidRequest"
proof -
  have "''<a@evil.c>'' \<in> set (env_Recipients (eq_Envelope dl_demo_mixed))" by code_simp
  moreover have "extractDomain ''<a@evil.c>'' = Some ''evil.c''"
    "\<not> EqualFold plain_unicode ''evil.c'' (ToLower plain_unicode (TrimSpace (eq_Domain dl_demo_mixed)))" by code_simp+
  ultimately show ?thesis using deliver_rejects_mixed_domains [of "''<a@evil.c>''" dl_demo_mixed plain_unicode] by simp
qed


lemma orderCandidates_mset:
  assumes "\<And>g. mset (shuffle g) = mset g"
  shows "mset (orderCandidates shuffle ms) = mset ms"
proof (induction ms rule: length_induct)
  case (1 ms)
  show ?case
  proof (cases ms)
    case (Cons m rest)
    let ?P = "\<lambda>x. mx_Preference x = mx_Preference m"
    let ?g = "m # takeWhile ?P rest"
    have "mset (orderCandidates shuffle (dropWhile ?P rest)) = mset (dropWhile ?P rest)"
      using 1 Cons by (simp add: le_imp_less_Suc length_dropWhile_le)
    moreover have "mset (takeWhile ?P rest) + mset (dropWhile ?P rest) = mset rest"
      by (metis mset_append takeWhile_dropWhile_id)
    moreover have "mset (if length ?g > 1 then shuffle ?g else ?g) = mset ?g" using assms by simp
    ultimately show ?thesis unfolding Cons by (simp add: Let_def del: length_Cons)
  qed simp
qed

lemma orderCandidates_sorted:
  assumes perm: "\<And>g. mset (shuffle g) = mset g" and "sorted (map mx_Preference ms)"
  shows "sorted (map mx_Preference (orderCandidates shuffle ms))"
  using assms(2)
proof (induction ms rule: length_induct)
  case (1 ms)
  show ?case
  proof (cases ms)
    case (Cons m rest)
    let ?P = "\<lambda>x. mx_Preference x = mx_Preference m"
    define g r where "g = m # takeWhile ?P rest" and "r = dropWhile ?P rest"
    define h where "h = (if length g > 1 then shuffle g else g)"
    have order: "orderCandidates shuffle ms = h @ orderCandidates shuffle r"
      by (simp add: Cons h_def g_def r_def Let_def)
    have "sorted (map mx_Preference (takeWhile ?P rest @ r))" using 1(2) Cons by (simp add: r_def)
    then have "sorted (map mx_Preference r)" unfolding map_append sorted_append by blast
    moreover have "length r < length ms" using Cons by (simp add: r_def le_imp_less_Suc length_dropWhile_le)
    ultimately have ih: "sorted (map mx_Preference (orderCandidates shuffle r))" using 1(1) by blast
    have "mset h = mset g" using perm [of g] by (simp add: h_def)
    from arg_cong [OF this, of set_mset] have "set h = set g" by simp
    then have pref: "mx_Preference x = mx_Preference m" if "x \<in> set h" for x
      using that by (auto simp: g_def dest: set_takeWhileD)
    have const: "sorted (map mx_Preference xs)" if "\<forall>x\<in>set xs. mx_Preference x = mx_Preference m" for xs
      using that by (induction xs) auto
    have "mx_Preference m \<le> mx_Preference x" if "x \<in> set r" for x
      using that 1(2) Cons by (auto simp: r_def dest: set_dropWhileD)
    moreover from arg_cong [OF orderCandidates_mset [OF perm, of r], of set_mset]
    have "set (orderCandidates shuffle r) = set r" by simp
    ultimately show ?thesis
      unfolding order map_append sorted_append using const pref ih by auto
  qed simp
qed

text \<open>
  Shuffling for load balance respects the preferences: whatever permutation the random
  source picks within each group, the hosts that are tried are exactly the resolver's candidates,
  still in ascending order of preference.
\<close>

theorem orderCandidates_respects_preference:
  assumes "\<And>g. mset (shuffle g) = mset g" "sorted (map mx_Preference ms)"
  shows "mset (orderCandidates shuffle ms) = mset ms \<and> sorted (map mx_Preference (orderCandidates shuffle ms))"
  using orderCandidates_mset [of shuffle ms] orderCandidates_sorted [of shuffle ms] assms by blast

theorem orderCandidates_respects_preference_witness:
  "mset (orderCandidates rev [dl_demo_host ''a'', dl_demo_host ''b'']) = mset [dl_demo_host ''a'', dl_demo_host ''b'']"
  using orderCandidates_respects_preference [of rev "[dl_demo_host ''a'', dl_demo_host ''b'']"]
  by (simp add: dl_demo_host_def)

section \<open>When a failure is permanent\<close>

lemma rcpt_all_error:
  "rcpt_all E rs s = (Some de, s1) \<Longrightarrow> de_Temporary de \<longleftrightarrow> 400 \<le> de_Code de \<and> de_Code de < 500"
  by (induction E rs s rule: rcpt_all.induct)
     (auto simp: replyError_def deliveryErrorFromRead_def stageError_def split: prod.splits sum.splits if_splits)

lemma run_data_error:
  "run_data E raw s = ((res, Some de), s1) \<Longrightarrow> de_Temporary de \<longleftrightarrow> 400 \<le> de_Code de \<and> de_Code de < 500"
  by (auto simp: run_data_def run_quit_def Let_def replyError_def deliveryErrorFromRead_def stageError_def
      split: prod.splits sum.splits if_splits option.splits)

lemma run_mail_error:
  "run_mail E req s = ((res, Some de), s1) \<Longrightarrow> de_Temporary de \<longleftrightarrow> 400 \<le> de_Code de \<and> de_Code de < 500"
  by (auto simp: run_mail_def replyError_def deliveryErrorFromRead_def stageError_def
      split: prod.splits sum.splits if_splits option.splits dest: rcpt_all_error run_data_error)

lemma hello_stage: "hello E s = (Some de, s1) \<Longrightarrow> de_Stage de \<in> {StageEHLO, StageHELO}"
  by (auto simp: hello_def replyError_def deliveryErrorFromRead_def stageError_def split: prod.splits sum.splits if_splits)

lemma secure_stage: "secure E s = (Some de, s1) \<Longrightarrow> de_Stage de \<in> {StageStartTLS, StageTLS, StageEHLOTLS}"
  by (auto simp: secure_def upgrade_def tlsFail_def replyError_def stageError_def Let_def
      split: prod.splits sum.splits if_splits)

lemma authFinish_stage: "authFinish c enh s = (Some de, s1) \<Longrightarrow> de_Stage de = StageAuth"
  by (auto simp: authFinish_def authFail_def split: if_splits)

lemma authRound_stage: "authRound E l s = (Inl (Some de), s1) \<Longrightarrow> de_Stage de = StageAuth"
  by (auto simp: authRound_def authFail_def split: prod.splits sum.splits)

lemma authLast_stage: "authLast E l s = (Some de, s1) \<Longrightarrow> de_Stage de = StageAuth"
  by (auto simp: authLast_def split: prod.splits sum.splits dest: authFinish_stage authRound_stage)

lemma authenticate_stage: "authenticate E s = (Some de, s1) \<Longrightarrow> de_Stage de = StageAuth"
  by (auto simp: authenticate_def authPlain_def authLogin_def Let_def authFail_def
      split: prod.splits sum.splits if_splits option.splits dest: authFinish_stage authRound_stage authLast_stage)

lemma send_transaction_error:
  assumes "client_Send U cfg P req = ((res, Some de), log)" "de_Stage de \<in> transaction_stages"
  shows "de_Temporary de \<longleftrightarrow> 400 \<le> de_Code de \<and> de_Code de < 500"
proof -
  from assms(1) have "de_Stage de \<in> {StageInvalidInput, StageDial} \<or>
      (\<exists>r s. run (send_env U cfg P req) req (start_session P) = ((r, Some de), s))"
    by (auto simp: client_Send_def send_env_def stageError_def split: if_splits option.splits prod.splits)
  then obtain r s where "run (send_env U cfg P req) req (start_session P) = ((r, Some de), s)"
    using assms(2) by (auto simp: transaction_stages_def)
  then show ?thesis using assms(2)
    by (auto simp: run_def transaction_stages_def replyError_def deliveryErrorFromRead_def stageError_def
        split: prod.splits sum.splits if_splits option.splits
        dest: hello_stage secure_stage authenticate_stage run_mail_error)
qed

text \<open>
  The verdict on a failure within the mail transaction is decided by the reply code alone:
  it stops the delivery as temporary exactly for a 4xx reply, and as permanent otherwise. That
  includes the failures without any reply, such as a connection lost after DATA, which carry the
  code 0 and are therefore permanent.
\<close>

theorem transaction_failure_verdict:
  assumes "Transfer (smtp_send U cfg P) q = (tr, Some te)" "te_Stage te \<in> transaction_stages"
  shows "decideFallback (Some te) = (if 400 \<le> te_Code te \<and> te_Code te < 500 then stopTemporary else stopPermanent)"
proof -
  let ?q = "\<lparr>dq_Address = tq_Destination q, dq_Envelope = tq_Envelope q, dq_Raw = tq_Raw q, dq_Auth = tq_Auth q\<rparr>"
  obtain sr se log where s: "client_Send U cfg P ?q = ((sr, se), log)" by (metis prod.collapse)
  have "tq_Destination q \<noteq> []" "env_Recipients (tq_Envelope q) \<noteq> []"
    using assms by (auto simp: Transfer_def bareError_def transaction_stages_def Let_def split: if_splits)
  then obtain de where de: "se = Some de" "te_Stage te = de_Stage de" "te_Temporary te = de_Temporary de" "te_Code te = de_Code de"
    using assms(1) by (auto simp: Transfer_def smtp_send_def s Let_def split: option.splits)
  have "de_Temporary de \<longleftrightarrow> 400 \<le> de_Code de \<and> de_Code de < 500"
    by (rule send_transaction_error [OF s [unfolded de(1)]]) (use assms(2) de in simp)
  then show ?thesis using de assms(2) by (auto simp: decideFallback_def transaction_stages_def)
qed

text \<open>The peer of the earlier example, but its connection is lost after the 354 reply.\<close>

definition dl_lost_peer :: peer where
  "dl_lost_peer = cl_demo_peer\<lparr>pe_plain := ''220 x'' @ crlf @ ''250 x'' @ crlf @ ''250 x'' @ crlf @ ''250 x'' @ crlf @
     ''354 x'' @ crlf\<rparr>"

definition dl_lost_error :: transferError where
  "dl_lost_error = bareError ''mx:25'' StageDataResponse"

definition dl_lost_run where
  "dl_lost_run = Transfer (smtp_send plain_unicode (cl_demo_cfg TLSOpportunistic) dl_lost_peer)
     \<lparr>tq_Destination = ''mx:25'', tq_Envelope = dq_Envelope cl_demo_req, tq_Raw = ''hi'', tq_Auth = None\<rparr>"

theorem transaction_failure_verdict_witness: "decideFallback (Some dl_lost_error) = stopPermanent"
proof -
  have "snd dl_lost_run = Some dl_lost_error" by code_simp
  then have run: "Transfer (smtp_send plain_unicode (cl_demo_cfg TLSOpportunistic) dl_lost_peer)
     \<lparr>tq_Destination = ''mx:25'', tq_Envelope = dq_Envelope cl_demo_req, tq_Raw = ''hi'', tq_Auth = None\<rparr> =
     (fst dl_lost_run, Some dl_lost_error)" by (metis dl_lost_run_def prod.collapse)
  from transaction_failure_verdict [OF run] show ?thesis
    by (simp add: dl_lost_error_def bareError_def transaction_stages_def)
qed

text \<open>
  A delivery ends as permanently failed only after a host was contacted and the last one
  failed within the mail transaction with an error that is not temporary; unreachable hosts, TLS
  and AUTH trouble, DNS failures and a context that ends never make it permanent.
\<close>

theorem deliver_permanent_only_refused:
  assumes "Deliver U cfg W req = (res, err)" "do_Kind res = Some KindTransferPermanent"
  shows "do_Attempts res \<noteq> [] \<and> (\<exists>te. at_TransferErr (last (do_Attempts res)) = Some te \<and>
    te_Stage te \<in> {StageMailFrom, StageRcptTo, StageData, StageMessage, StageDataResponse} \<and> \<not> te_Temporary te)"
  using assms(1)
proof (cases rule: Deliver_cases)
  case none
  then show ?thesis using assms(2) by simp
next
  case (relay r)
  then show ?thesis using deliver_to_facts(10) [OF relay(3) assms(2)]
    by (simp add: refused_def transaction_stages_def)
next
  case (direct cands)
  then show ?thesis using deliver_to_facts(10) [OF direct(4) assms(2)]
    by (simp add: refused_def transaction_stages_def)
qed

definition dl_refused_world :: world where
  "dl_refused_world = dl_demo_world\<lparr>wo_transfer := (\<lambda>n q. (freshResult (tq_Destination q),
     Some ((bareError (tq_Destination q) StageRcptTo)\<lparr>te_Code := 550\<rparr>)))\<rparr>"

definition dl_refused_run where
  "dl_refused_run = Deliver plain_unicode dl_demo_cfg dl_refused_world dl_demo_req"

theorem deliver_permanent_only_refused_witness: "do_Attempts (fst dl_refused_run) \<noteq> []"
proof -
  have kind: "do_Kind (fst dl_refused_run) = Some KindTransferPermanent" by code_simp
  have "Deliver plain_unicode dl_demo_cfg dl_refused_world dl_demo_req = (fst dl_refused_run, snd dl_refused_run)"
    by (simp add: dl_refused_run_def)
  from deliver_permanent_only_refused [OF this kind] show ?thesis by blast
qed

end
