(* ===== verification/Retry.thy ===== *)
theory Retry
  imports Delivery
begin

text \<open>
  The retry engine of \<^verbatim>\<open>internal/retry\<close>: backoff and jitter (\<^verbatim>\<open>backoff.go\<close>), the decision on one
  completed delivery (\<^verbatim>\<open>policy.go\<close>), the lifecycle state and its limit (\<^verbatim>\<open>state.go\<close>, \<^verbatim>\<open>limit.go\<close>), the
  schedule of the next operation (\<^verbatim>\<open>schedule.go\<close>) and the coordinator that performs exactly one
  delivery per call (\<^verbatim>\<open>coordinator.go\<close>). Durations are 64-bit nanosecond counts; every product
  that could overflow is wrapped.
\<close>

unbundle bit_operations_syntax

datatype retry_error =
    ErrInvalidAttempt | ErrInvalidBackoff | ErrTerminalState | ErrNoDeliveryAttempts | ErrNotRetryable
  | ErrRetryExhausted | ErrInvalidScheduleTime | ErrInvalidMaxAttempts | ErrNilDeliverer | ErrNilState
  | ErrContextDone

section \<open>Backoff\<close>

record backoffPolicy =
  bp_Schedule :: "duration list"
  bp_Base :: duration
  bp_Max :: duration
  bp_JitterPercent :: int

definition DefaultBackoffPolicy :: backoffPolicy where
  "DefaultBackoffPolicy = \<lparr>bp_Schedule = [5 * second, 5 * minute, 30 * minute, 2 * hour], bp_Base = 0, bp_Max = 0,
     bp_JitterPercent = 0\<rparr>"

fun doubling :: "nat \<Rightarrow> duration \<Rightarrow> duration \<Rightarrow> duration" where
  "doubling 0 mx delay = delay"
| "doubling (Suc n) mx delay =
     (if delay > quot_trunc mx 2 then mx else doubling n mx (wrap64 (delay * 2)))"

definition Delay :: "backoffPolicy \<Rightarrow> int \<Rightarrow> retry_error + duration" where
  "Delay p attempt =
     (if attempt \<le> 0 then Inl ErrInvalidAttempt
      else if bp_Schedule p \<noteq> [] then
        let idx = (if attempt - 1 \<ge> int (length (bp_Schedule p)) then length (bp_Schedule p) - 1 else nat (attempt - 1));
            d = bp_Schedule p ! idx
        in if d \<le> 0 then Inl ErrInvalidBackoff else Inr d
      else if bp_Base p \<le> 0 then Inl ErrInvalidBackoff
      else if bp_Max p \<le> 0 then Inl ErrInvalidBackoff
      else if bp_Base p \<ge> bp_Max p then Inr (bp_Max p)
      else Inr (doubling (nat (attempt - 1)) (bp_Max p) (bp_Base p)))"

text \<open>The 64-bit FNV-1a hash of \<^verbatim>\<open>hash/fnv\<close>.\<close>

definition fnv64a :: "64 word list \<Rightarrow> 64 word" where
  "fnv64a bs = fold (\<lambda>b h. (h XOR b) * 1099511628211) bs 14695981039346656037"

definition seed_bytes :: "int \<Rightarrow> 64 word list" where
  "seed_bytes seed = map (\<lambda>i. drop_bit (8 * i) (word_of_int seed) AND 255) [0..<8]"

definition jitter_unit :: "int \<Rightarrow> int" where
  "jitter_unit seed = uint (fnv64a (seed_bytes seed) mod 2001) - 1000"

definition Jitter :: "backoffPolicy \<Rightarrow> duration \<Rightarrow> int \<Rightarrow> duration" where
  "Jitter p delay seed =
     (if bp_JitterPercent p \<le> 0 \<or> delay \<le> 0 then delay
      else
        let pct = (if bp_JitterPercent p > 50 then 50 else bp_JitterPercent p);
            u = jitter_unit seed;
            off = quot_trunc (wrap64 (wrap64 (quot_trunc delay 100 * pct) * u)) 1000;
            out = wrap64 (delay + off);
            out1 = (if bp_Max p > 0 \<and> out > bp_Max p then bp_Max p else out)
        in if out1 < second then second else out1)"

section \<open>Decisions\<close>

datatype decision = TerminalFailure | Retry | TerminalSuccess

text \<open>\<open>ctx\<close>: the error chain contains a canceled context or an exceeded context deadline.\<close>

definition Decide :: "deliveryOutcome \<Rightarrow> bool \<Rightarrow> decision" where
  "Decide result ctx =
     (if do_Accepted result then TerminalSuccess
      else if ctx then TerminalFailure
      else if do_Kind result = Some KindDNSTemporary \<or> do_Kind result = Some KindTransferTemporary then Retry
      else TerminalFailure)"

section \<open>Lifecycle state\<close>

record deliveryAttempt =
  da_Number :: int
  da_Result :: deliveryOutcome
  da_Decision :: decision

type_synonym rstate = "deliveryAttempt list"

definition Record :: "deliveryOutcome \<Rightarrow> bool \<Rightarrow> rstate \<Rightarrow> retry_error option \<times> rstate" where
  "Record result ctx s =
     (if s \<noteq> [] \<and> da_Decision (last s) \<noteq> Retry then (Some ErrTerminalState, s)
      else (None, s @ [\<lparr>da_Number = int (length s) + 1, da_Result = result, da_Decision = Decide result ctx\<rparr>]))"

definition Latest :: "rstate \<Rightarrow> deliveryAttempt option" where
  "Latest s = (if s = [] then None else Some (last s))"

datatype lifecycleStatus = StatusEmpty | StatusRetryable | StatusSucceeded | StatusFailed | StatusExhausted

definition DefaultAttemptLimit :: int where "DefaultAttemptLimit = 5"

definition Evaluate :: "rstate option \<Rightarrow> int \<Rightarrow> retry_error + lifecycleStatus" where
  "Evaluate state limit =
     (if limit \<le> 0 then Inl ErrInvalidMaxAttempts
      else case Option.bind state Latest of
          None \<Rightarrow> Inr StatusEmpty
        | Some latest \<Rightarrow>
            (case da_Decision latest of
               TerminalSuccess \<Rightarrow> Inr StatusSucceeded
             | TerminalFailure \<Rightarrow> Inr StatusFailed
             | Retry \<Rightarrow> if int (length (the state)) \<ge> limit then Inr StatusExhausted else Inr StatusRetryable))"

section \<open>Scheduling\<close>

definition minScheduleTime :: gotime where "minScheduleTime = - 62135596800 * second"
definition maxScheduleTime :: gotime where "maxScheduleTime = 253402300799 * second + 999999999"

record schedule =
  sd_Attempt :: int
  sd_Delay :: duration
  sd_NextRetryAt :: gotime

definition NextSchedule :: "rstate option \<Rightarrow> backoffPolicy \<Rightarrow> int \<Rightarrow> gotime \<Rightarrow> retry_error + schedule" where
  "NextSchedule state policy limit now =
     (case Evaluate state limit of
        Inl e \<Rightarrow> Inl e
      | Inr StatusEmpty \<Rightarrow> Inl ErrNoDeliveryAttempts
      | Inr StatusExhausted \<Rightarrow> Inl ErrRetryExhausted
      | Inr StatusSucceeded \<Rightarrow> Inl ErrNotRetryable
      | Inr StatusFailed \<Rightarrow> Inl ErrNotRetryable
      | Inr StatusRetryable \<Rightarrow>
          let latest = last (the state)
          in case Delay policy (da_Number latest) of
               Inl e \<Rightarrow> Inl e
             | Inr d \<Rightarrow>
                 let delay = Jitter policy d (UnixNano now)
                 in if now < minScheduleTime \<or> now > maxScheduleTime then Inl ErrInvalidScheduleTime
                    else if delay > time_Sub maxScheduleTime now then Inl ErrInvalidScheduleTime
                    else Inr \<lparr>sd_Attempt = da_Number latest, sd_Delay = delay, sd_NextRetryAt = now + delay\<rparr>)"

section \<open>The coordinator\<close>

record coordinator =
  co_backoff :: backoffPolicy
  co_limit :: int

definition NewCoordinator :: "bool \<Rightarrow> backoffPolicy \<Rightarrow> int \<Rightarrow> retry_error + coordinator" where
  "NewCoordinator hasDeliverer b limit =
     (if \<not> hasDeliverer then Inl ErrNilDeliverer
      else case Delay b 1 of
          Inl e \<Rightarrow> Inl e
        | Inr _ \<Rightarrow>
            (case Evaluate None limit of
               Inl e \<Rightarrow> Inl e
             | Inr _ \<Rightarrow> Inr \<lparr>co_backoff = b, co_limit = limit\<rparr>))"

text \<open>What a delivery returns: the outcome, the engine's error, whether its chain has a context error.\<close>

type_synonym delivered = "deliveryOutcome \<times> engineError option \<times> bool"

record outcome =
  oc_Delivered :: "delivered option"
  oc_Status :: lifecycleStatus
  oc_Schedule :: "schedule option"

text \<open>
  \<^verbatim>\<open>Coordinator.Attempt\<close> with \<open>deliver\<close> as the one operation it may perform: the outcome, the
  coordinator's error, the new state. \<open>oc_Delivered\<close> is \<open>None\<close> when no delivery was performed.
\<close>

definition Attempt ::
  "coordinator \<Rightarrow> bool \<Rightarrow> delivered \<Rightarrow> gotime \<Rightarrow> rstate option \<Rightarrow> (outcome \<times> retry_error option) \<times> rstate option" where
  "Attempt c ctxDone deliver now state =
     (let idle = (\<lambda>st. \<lparr>oc_Delivered = None, oc_Status = st, oc_Schedule = None\<rparr>)
      in case state of
           None \<Rightarrow> ((idle StatusEmpty, Some ErrNilState), None)
         | Some s \<Rightarrow>
             (case Evaluate (Some s) (co_limit c) of
                Inl e \<Rightarrow> ((idle StatusEmpty, Some e), Some s)
              | Inr st \<Rightarrow>
                  if st = StatusSucceeded \<or> st = StatusFailed then ((idle st, Some ErrNotRetryable), Some s)
                  else if st = StatusExhausted then ((idle st, Some ErrRetryExhausted), Some s)
                  else if ctxDone then ((idle st, Some ErrContextDone), Some s)
                  else
                    case deliver of (result, derr, ctx) \<Rightarrow>
                      let oc = \<lparr>oc_Delivered = Some deliver, oc_Status = StatusEmpty, oc_Schedule = None\<rparr>
                      in case Record result ctx s of
                           (Some e, s1) \<Rightarrow> ((oc, Some e), Some s1)
                         | (None, s1) \<Rightarrow>
                             (case Evaluate (Some s1) (co_limit c) of
                                Inl e \<Rightarrow> ((oc, Some e), Some s1)
                              | Inr st1 \<Rightarrow>
                                  if st1 \<noteq> StatusRetryable then ((oc\<lparr>oc_Status := st1\<rparr>, None), Some s1)
                                  else (case NextSchedule (Some s1) (co_backoff c) (co_limit c) now of
                                          Inl e \<Rightarrow> ((oc\<lparr>oc_Status := st1\<rparr>, Some e), Some s1)
                                        | Inr sch \<Rightarrow> ((oc\<lparr>oc_Status := st1, oc_Schedule := Some sch\<rparr>, None), Some s1)))))"

section \<open>Bounds of the delays\<close>

lemma doubling_closed:
  "0 < d \<Longrightarrow> d \<le> mx \<Longrightarrow> mx < 2 ^ 63 \<Longrightarrow> doubling n mx d = min mx (d * 2 ^ n)"
proof (induction n arbitrary: d)
  case (Suc n)
  have half: "quot_trunc mx 2 = mx div 2" using Suc.prems by (simp add: quot_trunc_nonneg)
  show ?case
  proof (cases "d > mx div 2")
    case True
    then have "mx \<le> d * 2 * 1" by simp
    also have "\<dots> \<le> d * 2 * 2 ^ n" using Suc.prems(1) by (intro mult_left_mono) auto
    finally show ?thesis using True half by (simp add: mult.assoc)
  next
    case False
    then have "d * 2 \<le> mx" by simp
    then have "doubling n mx (d * 2) = min mx (d * 2 * 2 ^ n)" using Suc.prems by (intro Suc.IH) auto
    moreover have "wrap64 (d * 2) = d * 2" using \<open>d * 2 \<le> mx\<close> Suc.prems by (intro wrap64_id) auto
    ultimately show ?thesis using False half by (simp add: mult.assoc)
  qed
qed simp

lemma jitter_unit_bounds: "- 1000 \<le> jitter_unit s" "jitter_unit s \<le> 1000"
proof -
  have "uint (fnv64a (seed_bytes s) mod 2001) \<le> 2000"
    unfolding uint_mod using pos_mod_bound [of 2001 "uint (fnv64a (seed_bytes s))"] by simp
  moreover have "0 \<le> uint (fnv64a (seed_bytes s) mod 2001)" by simp
  ultimately show "- 1000 \<le> jitter_unit s" "jitter_unit s \<le> 1000" unfolding jitter_unit_def by linarith+
qed

text \<open>The signed offset of the jitter, with no wrap-around, is at most the given percentage.\<close>

lemma jitter_offset:
  assumes d: "0 < d" "d * 500 < 2 ^ 63" and p: "0 < pct" "pct \<le> 50" and u: "\<bar>u\<bar> \<le> 1000"
  defines "off \<equiv> quot_trunc (wrap64 (wrap64 (quot_trunc d 100 * pct) * u)) 1000"
  shows "100 * \<bar>off\<bar> \<le> pct * d"
proof -
  define q where "q = d div 100"
  have q: "0 \<le> q" "100 * q \<le> d" using d by (auto simp: q_def)
  have qp: "q * pct \<le> q * 50" using p q by (intro mult_left_mono) auto
  have qp0: "0 \<le> q * pct" using p q by simp
  have w1: "wrap64 (quot_trunc d 100 * pct) = q * pct"
    using d qp qp0 q unfolding q_def [symmetric] by (simp add: quot_trunc_nonneg q_def [symmetric] wrap64_id)
  have m: "\<bar>q * pct * u\<bar> \<le> q * pct * 1000" using mult_left_mono [OF u qp0] qp0 by (simp add: abs_mult abs_of_nonneg q(1) p(1) less_imp_le)
  then have "\<bar>q * pct * u\<bar> < 2 ^ 63" using qp q d by linarith
  then have w2: "wrap64 (q * pct * u) = q * pct * u" by (intro wrap64_id) linarith+
  have "\<bar>off\<bar> * 1000 \<le> \<bar>q * pct * u\<bar>" unfolding off_def w1 w2 by (rule quot_trunc_abs_le) simp
  then have "\<bar>off\<bar> \<le> q * pct" using m by linarith
  then have "100 * \<bar>off\<bar> \<le> (100 * q) * pct" by simp
  also have "\<dots> \<le> d * pct" using q p by (intro mult_right_mono) auto
  finally show ?thesis by (simp add: mult.commute)
qed

lemma jitter_out:
  fixes s :: int
  assumes d: "0 < d" "d * 500 < 2 ^ 63" and p: "0 < pct" "pct \<le> 50"
  defines "out \<equiv> wrap64 (d + quot_trunc (wrap64 (wrap64 (quot_trunc d 100 * pct) * jitter_unit s)) 1000)"
  shows "(100 - pct) * d \<le> 100 * out" "100 * out \<le> (100 + pct) * d"
proof -
  define off where "off = quot_trunc (wrap64 (wrap64 (quot_trunc d 100 * pct) * jitter_unit s)) 1000"
  have b: "100 * \<bar>off\<bar> \<le> pct * d"
    unfolding off_def using jitter_unit_bounds [of s] by (intro jitter_offset d p) linarith
  have "pct * d \<le> 50 * d" using p d by (intro mult_right_mono) auto
  then have "wrap64 (d + off) = d + off" using b d by (intro wrap64_id) linarith+
  then have "out = d + off" by (simp add: out_def off_def)
  then show "(100 - pct) * d \<le> 100 * out" "100 * out \<le> (100 + pct) * d"
    using b by (auto simp: algebra_simps)
qed

text \<open>
  Without an explicit schedule the delay after operation \<open>n\<close> is the doubling formula of the
  documentation capped by the maximum, for every attempt number: the 64-bit product never wraps.
\<close>

theorem Delay_closed_form:
  assumes "bp_Schedule p = []" "0 < bp_Base p" "0 < bp_Max p" "bp_Max p < 2 ^ 63" "0 < n"
  shows "Delay p n = Inr (min (bp_Max p) (bp_Base p * 2 ^ nat (n - 1)))"
proof (cases "bp_Base p \<ge> bp_Max p")
  case True
  have "bp_Base p * 1 \<le> bp_Base p * 2 ^ nat (n - 1)" using assms by (intro mult_left_mono) auto
  then have "min (bp_Max p) (bp_Base p * 2 ^ nat (n - 1)) = bp_Max p" using True by (intro min_absorb1) linarith
  then show ?thesis using True assms by (simp add: Delay_def)
next
  case False
  then show ?thesis using assms by (simp add: Delay_def doubling_closed)
qed

definition rt_demo_policy :: backoffPolicy where
  "rt_demo_policy = \<lparr>bp_Schedule = [], bp_Base = 30 * minute, bp_Max = 4 * hour, bp_JitterPercent = 20\<rparr>"

theorem Delay_closed_form_witness: "Delay rt_demo_policy 3 = Inr (2 * hour) \<and> Delay rt_demo_policy 100 = Inr (4 * hour)"
proof -
  have pol: "bp_Schedule rt_demo_policy = []" "bp_Base rt_demo_policy = 30 * minute" "bp_Max rt_demo_policy = 4 * hour"
    by (simp_all add: rt_demo_policy_def)
  have "Delay rt_demo_policy n = Inr (min (4 * hour) (30 * minute * 2 ^ nat (n - 1)))" if "0 < n" for n
    using Delay_closed_form [of rt_demo_policy n] that unfolding pol by simp
  from this [of 3] this [of 100] show ?thesis by simp
qed

text \<open>
  Jitter spreads a delay of at least a second (and small enough for the 64-bit product, that
  is below 213 days) by at most the configured percentage, which is itself capped at 50; the
  result is at least a second and never above the policy's maximum.
\<close>

theorem Jitter_bounds:
  assumes d: "second \<le> d" "d * 500 < 2 ^ 63" and mx: "bp_Max p \<le> 0 \<or> d \<le> bp_Max p"
    and pct: "pct = max 0 (min 50 (bp_JitterPercent p))"
  shows "second \<le> Jitter p d seed \<and> (100 - pct) * d \<le> 100 * Jitter p d seed \<and>
    100 * Jitter p d seed \<le> (100 + pct) * d \<and> (0 < bp_Max p \<longrightarrow> Jitter p d seed \<le> bp_Max p)"
proof (cases "bp_JitterPercent p \<le> 0")
  case True
  then have "Jitter p d seed = d" "pct = 0" using pct by (auto simp: Jitter_def)
  then show ?thesis using d mx by auto
next
  case False
  then have p: "0 < pct" "pct \<le> 50" "pct = (if bp_JitterPercent p > 50 then 50 else bp_JitterPercent p)"
    using pct by auto
  define out where "out = wrap64 (d + quot_trunc (wrap64 (wrap64 (quot_trunc d 100 * pct) * jitter_unit seed)) 1000)"
  have d0: "0 < d" using d by simp
  have b: "(100 - pct) * d \<le> 100 * out" "100 * out \<le> (100 + pct) * d"
    unfolding out_def by (rule jitter_out [OF d0 d(2) p(1,2)])+
  have j: "Jitter p d seed = max second (if bp_Max p > 0 \<and> out > bp_Max p then bp_Max p else out)"
    using False d0 unfolding Jitter_def Let_def p(3) [symmetric] out_def [symmetric] by auto
  have "0 \<le> pct * d" using p d0 by simp
  then have lo: "(100 - pct) * d \<le> 100 * d" and hi: "100 * d \<le> (100 + pct) * d"
    by (auto simp: algebra_simps)
  define A B where "A = (100 - pct) * d" and "B = (100 + pct) * d"
  show ?thesis using b lo hi d mx unfolding j A_def [symmetric] B_def [symmetric] by (auto simp: max_def)
qed

theorem Jitter_bounds_witness:
  "80 * (30 * minute) \<le> 100 * Jitter rt_demo_policy (30 * minute) 7 \<and>
   100 * Jitter rt_demo_policy (30 * minute) 7 \<le> 120 * (30 * minute)"
proof -
  have "bp_Max rt_demo_policy = 4 * hour" "bp_JitterPercent rt_demo_policy = 20" by (simp_all add: rt_demo_policy_def)
  then have "(100 - 20) * (30 * minute) \<le> 100 * Jitter rt_demo_policy (30 * minute) 7 \<and>
    100 * Jitter rt_demo_policy (30 * minute) 7 \<le> (100 + 20) * (30 * minute)"
    using Jitter_bounds [of "30 * minute" rt_demo_policy 20 7] by (simp only: ) simp
  then show ?thesis by simp
qed

section \<open>The lifecycle\<close>

text \<open>
  A lifecycle is a sequence of coordinator calls on one state; \<open>runAttempts\<close> lists the deliveries
  they performed.
\<close>

fun runAttempts :: "coordinator \<Rightarrow> (bool \<times> delivered \<times> gotime) list \<Rightarrow> rstate \<Rightarrow> delivered list \<times> rstate" where
  "runAttempts c [] s = ([], s)"
| "runAttempts c ((ctxDone, d, now) # calls) s =
     (case Attempt c ctxDone d now (Some s) of
        ((oc, _), s1) \<Rightarrow>
          (case runAttempts c calls (the s1) of
             (ds, s2) \<Rightarrow> ((case oc_Delivered oc of None \<Rightarrow> ds | Some d1 \<Rightarrow> d1 # ds), s2)))"

definition attempt_of :: "delivered \<Rightarrow> int \<Rightarrow> deliveryAttempt" where
  "attempt_of d n = \<lparr>da_Number = n, da_Result = fst d, da_Decision = Decide (fst d) (snd (snd d))\<rparr>"

definition going_on :: "int \<Rightarrow> rstate \<Rightarrow> bool" where
  "going_on limit s \<longleftrightarrow> int (length s) < limit \<and> (s = [] \<or> da_Decision (last s) = Retry)"

lemma Evaluate_going_on:
  "0 < limit \<Longrightarrow> Evaluate (Some s) limit \<in> {Inr StatusEmpty, Inr StatusRetryable} \<longleftrightarrow> going_on limit s"
  by (auto simp: Evaluate_def Latest_def going_on_def split: decision.splits)

lemma Attempt_cases:
  assumes "0 < co_limit c" "Attempt c x d now (Some s) = ((oc, e), s1)"
  obtains (idle) "oc_Delivered oc = None" "s1 = Some s" "e \<noteq> None" "x \<or> \<not> going_on (co_limit c) s"
  | (performed) "oc_Delivered oc = Some d" "s1 = Some (s @ [attempt_of d (int (length s) + 1)])"
      "\<not> x" "going_on (co_limit c) s"
  using assms
  by (auto simp: Attempt_def Let_def Record_def Evaluate_def Latest_def going_on_def attempt_of_def
      split: sum.splits lifecycleStatus.splits decision.splits if_splits prod.splits option.splits)

fun numbered :: "int \<Rightarrow> delivered list \<Rightarrow> rstate" where
  "numbered n [] = []"
| "numbered n (d # ds) = attempt_of d n # numbered (n + 1) ds"

lemma numbered_facts:
  "length (numbered n ds) = length ds" "map da_Result (numbered n ds) = map fst ds"
  "map da_Decision (numbered n ds) = map (\<lambda>d. Decide (fst d) (snd (snd d))) ds"
  by (induction ds arbitrary: n) (auto simp: attempt_of_def)

lemma numbered_numbers: "map da_Number (numbered n ds) = map (\<lambda>i. n + int i) [0..<length ds]"
proof (induction ds arbitrary: n)
  case (Cons d ds)
  have "map da_Number (numbered n (d # ds)) = map (\<lambda>i. n + int i) (0 # map Suc [0..<length ds])"
    by (simp add: attempt_of_def Cons.IH)
  then show ?case by (simp only: map_Suc_upt length_Cons upt_conv_Cons [OF zero_less_Suc])
qed simp

definition rt_inv :: "int \<Rightarrow> rstate \<Rightarrow> bool" where
  "rt_inv limit s \<longleftrightarrow> int (length s) \<le> limit \<and> list_all (\<lambda>a. da_Decision a = Retry) (butlast s)"

lemma rt_inv_snoc: "rt_inv limit s \<Longrightarrow> going_on limit s \<Longrightarrow> rt_inv limit (s @ [a])"
  by (cases s rule: rev_cases) (auto simp: rt_inv_def going_on_def butlast_append)

inductive rt_step :: "coordinator \<Rightarrow> rstate \<Rightarrow> rstate \<Rightarrow> bool" for c where
  attempt: "Attempt c x d now (Some s) = (r, Some s') \<Longrightarrow> rt_step c s s'"

inductive_cases rt_stepE: "rt_step c s s'"

interpretation rt_sys: invariant_system "\<lambda>s. s = [] \<and> 0 < co_limit c" "rt_step c" "\<lambda>s. 0 < co_limit c \<and> rt_inv (co_limit c) s"
  for c
proof
  fix s s' assume inv: "0 < co_limit c \<and> rt_inv (co_limit c) s" and st: "rt_step c s s'"
  from st obtain x d now oc e where a: "Attempt c x d now (Some s) = ((oc, e), Some s')"
    by (elim rt_stepE) fastforce
  from inv have "0 < co_limit c" by simp
  then show "0 < co_limit c \<and> rt_inv (co_limit c) s'"
    using a by (cases rule: Attempt_cases) (use inv in \<open>simp_all add: rt_inv_snoc\<close>)
qed (simp add: rt_inv_def)

lemma runAttempts_reach:
  assumes "0 < co_limit c" "runAttempts c calls s = (ds, s')" "reachable (\<lambda>s. s = [] \<and> 0 < co_limit c) (rt_step c) s"
  shows "s' = s @ numbered (int (length s) + 1) ds \<and> reachable (\<lambda>s. s = [] \<and> 0 < co_limit c) (rt_step c) s' \<and>
    set ds \<subseteq> (fst \<circ> snd) ` set calls"
  using assms(2,3)
proof (induction calls arbitrary: s ds)
  case (Cons call calls)
  obtain x d now where call: "call = (x, d, now)" by (cases call) auto
  obtain oc e s1 where a: "Attempt c x d now (Some s) = ((oc, e), s1)" by (metis surj_pair)
  obtain ds1 s2 where r: "runAttempts c calls (the s1) = (ds1, s2)" by fastforce
  have ds: "s2 = s'" "ds = (case oc_Delivered oc of None \<Rightarrow> ds1 | Some d1 \<Rightarrow> d1 # ds1)"
    using Cons.prems(1) by (auto simp: call a r)
  note IH = Cons.IH [OF r [unfolded ds(1)]]
  from assms(1) a show ?case
  proof (cases rule: Attempt_cases)
    case idle
    then show ?thesis using IH Cons.prems(2) ds by (auto simp: call)
  next
    case performed
    then have "rt_step c s (the s1)" using a by (intro rt_step.attempt) simp
    then have "reachable (\<lambda>s. s = [] \<and> 0 < co_limit c) (rt_step c) (the s1)"
      by (rule reach_step [OF Cons.prems(2)])
    from IH [OF this] show ?thesis using performed ds by (auto simp: call add.commute)
  qed
qed auto

lemma runAttempts_start:
  assumes "0 < co_limit c" "runAttempts c calls [] = (ds, s)"
  shows "s = numbered 1 ds" "int (length ds) \<le> co_limit c" "\<forall>d\<in>set (butlast ds). Decide (fst d) (snd (snd d)) = Retry"
    "set ds \<subseteq> (fst \<circ> snd) ` set calls"
proof -
  have "reachable (\<lambda>s. s = [] \<and> 0 < co_limit c) (rt_step c) []" using assms(1) by (intro reach_init) simp
  from runAttempts_reach [OF assms this] have s: "s = numbered 1 ds"
    and re: "reachable (\<lambda>s. s = [] \<and> 0 < co_limit c) (rt_step c) s" and sub: "set ds \<subseteq> (fst \<circ> snd) ` set calls"
    by auto
  from rt_sys.inv_reachable [OF re] have inv: "rt_inv (co_limit c) s" by simp
  have "map da_Decision (butlast s) = map (\<lambda>d. Decide (fst d) (snd (snd d))) (butlast ds)"
    by (simp add: s map_butlast numbered_facts(3))
  then have "list_all (\<lambda>x. x = Retry) (map (\<lambda>d. Decide (fst d) (snd (snd d))) (butlast ds))"
    using inv by (metis (mono_tags, lifting) list.pred_map list_all_iff o_apply rt_inv_def)
  then show "\<forall>d\<in>set (butlast ds). Decide (fst d) (snd (snd d)) = Retry" by (simp add: list_all_iff)
  show "int (length ds) \<le> co_limit c" using inv by (simp add: rt_inv_def s numbered_facts(1))
qed (use runAttempts_reach [OF assms reach_init] assms(1) in auto)

lemma Decide_Retry:
  "Decide r ctx = Retry \<longleftrightarrow> \<not> do_Accepted r \<and> \<not> ctx \<and> do_Kind r \<in> {Some KindDNSTemporary, Some KindTransferTemporary}"
  by (auto simp: Decide_def)

text \<open>
  (C12) However often the coordinator is called on one lifecycle, it performs at most the configured
  number of deliveries; the recorded history is exactly the performed deliveries, numbered from
  one; and every delivery but the last was a temporary failure that was neither accepted nor ended
  by its context, so nothing is delivered again after an acceptance or a terminal failure.
\<close>

theorem retry_lifecycle:
  assumes "0 < co_limit c" "runAttempts c calls [] = (ds, s)"
  shows "int (length ds) \<le> co_limit c \<and> map da_Result s = map fst ds \<and>
    map da_Number s = map (\<lambda>i. 1 + int i) [0..<length ds] \<and>
    (\<forall>d\<in>set (butlast ds). \<not> do_Accepted (fst d) \<and> \<not> snd (snd d) \<and>
       do_Kind (fst d) \<in> {Some KindDNSTemporary, Some KindTransferTemporary})"
  using runAttempts_start [OF assms] by (simp add: numbered_facts numbered_numbers Decide_Retry)

definition rt_demo_out :: "dkind \<Rightarrow> deliveryOutcome" where
  "rt_demo_out k = (freshOutcome ''b.c'')\<lparr>do_Kind := Some k, do_Accepted := (k = KindAccepted)\<rparr>"

definition rt_demo_coord :: coordinator where
  "rt_demo_coord = \<lparr>co_backoff = DefaultBackoffPolicy, co_limit = 5\<rparr>"

definition rt_demo_calls :: "(bool \<times> delivered \<times> gotime) list" where
  "rt_demo_calls = [(False, (rt_demo_out KindDNSTemporary, None, False), 0), (True, (rt_demo_out KindAccepted, None, False), 1),
     (False, (rt_demo_out KindAccepted, None, False), 2), (False, (rt_demo_out KindAccepted, None, False), 3)]"

definition rt_demo_run where "rt_demo_run = runAttempts rt_demo_coord rt_demo_calls []"

lemma rt_demo_len: "length (fst rt_demo_run) = 2" by code_simp

theorem retry_lifecycle_witness:
  "length (fst rt_demo_run) = 2 \<and> map da_Number (snd rt_demo_run) = [1, 2] \<and> \<not> do_Accepted (fst (fst rt_demo_run ! 0))"
proof -
  have "runAttempts rt_demo_coord rt_demo_calls [] = (fst rt_demo_run, snd rt_demo_run)" by (simp add: rt_demo_run_def)
  moreover have "0 < co_limit rt_demo_coord" by (simp add: rt_demo_coord_def)
  moreover obtain a b where "fst rt_demo_run = [a, b]"
    using rt_demo_len by (auto simp: length_Suc_conv numeral_2_eq_2)
  ultimately show ?thesis using retry_lifecycle [of rt_demo_coord rt_demo_calls "fst rt_demo_run" "snd rt_demo_run"]
    by simp
qed

section \<open>Retries of the delivery engine\<close>

lemma Deliver_attempts:
  assumes "Deliver U cfg W req = (res, err)"
  shows "\<forall>a\<in>set (butlast (do_Attempts res)). \<not> accepted a"
    "do_Accepted res \<longleftrightarrow> do_Attempts res \<noteq> [] \<and> accepted (last (do_Attempts res))"
proof -
  have "list_all went_on (butlast (do_Attempts res)) \<and>
    (do_Accepted res \<longleftrightarrow> do_Attempts res \<noteq> [] \<and> accepted (last (do_Attempts res)))"
    using assms by (cases rule: Deliver_cases) (use deliver_to_facts(3,8,9) in \<open>blast+ | simp\<close>)+
  then show "\<forall>a\<in>set (butlast (do_Attempts res)). \<not> accepted a"
    "do_Accepted res \<longleftrightarrow> do_Attempts res \<noteq> [] \<and> accepted (last (do_Attempts res))"
    by (auto simp: list_all_iff went_on_def)
qed

lemma all_but_last_split:
  assumes "xs \<noteq> []" "\<forall>x\<in>set (butlast xs). \<not> P x" "\<not> P (last xs)"
  shows "\<forall>x\<in>set xs. \<not> P x"
  using assms by (metis Un_iff append_butlast_last_id list.set(1) list.set(2) set_append singletonD)

lemma concat_butlast:
  assumes "ds \<noteq> []"
  shows "concat (map f ds) = concat (map f (butlast ds)) @ f (last ds)"
  using assms by (induction ds) auto

lemma butlast_append_cases: "a \<in> set (butlast (xs @ ys)) \<Longrightarrow> a \<in> set xs \<or> a \<in> set (butlast ys)"
  by (auto simp: butlast_append split: if_splits dest: in_set_butlastD)

text \<open>
  (C13) A lifecycle never duplicates a message: if every delivery is one of the delivery engine, then
  over all contacts with remote hosts in the whole lifecycle, in the order they were made, none but
  the very last can have accepted the message.
\<close>

theorem lifecycle_no_duplicate:
  assumes "0 < co_limit c" "runAttempts c calls [] = (ds, s)"
    and engine: "\<And>x d now. (x, d, now) \<in> set calls \<Longrightarrow> \<exists>W req. fst d = fst (Deliver U cfg W req)"
  shows "\<forall>a\<in>set (butlast (concat (map (\<lambda>d. do_Attempts (fst d)) ds))). \<not> tr_Accepted (at_Transfer a)"
proof (cases "ds = []")
  case False
  note start = runAttempts_start [OF assms(1,2)]
  have eng: "\<exists>W req. fst d = fst (Deliver U cfg W req)" if "d \<in> set ds" for d
  proof -
    have "d \<in> (fst \<circ> snd) ` set calls" using start(4) that by blast
    then obtain x now where "(x, d, now) \<in> set calls" by auto
    then show ?thesis by (rule engine)
  qed
  have early: "\<forall>a\<in>set (do_Attempts (fst d)). \<not> accepted a" if d: "d \<in> set (butlast ds)" for d
  proof (cases "do_Attempts (fst d) = []")
    case ne: False
    from eng [OF in_set_butlastD [OF d]] obtain W req where w: "fst d = fst (Deliver U cfg W req)" by blast
    note at = Deliver_attempts [OF prod.collapse [symmetric, of "Deliver U cfg W req"], folded w]
    have "\<not> do_Accepted (fst d)" using start(3) d by (auto simp: Decide_Retry)
    then have "\<not> accepted (last (do_Attempts (fst d)))" using at(2) ne by blast
    then show ?thesis by (rule all_but_last_split [OF ne at(1)])
  qed simp
  from eng [of "last ds"] False obtain W req where w: "fst (last ds) = fst (Deliver U cfg W req)" by auto
  have late: "\<forall>a\<in>set (butlast (do_Attempts (fst (last ds)))). \<not> accepted a"
    unfolding w by (rule Deliver_attempts(1) [OF prod.collapse [symmetric]])
  show ?thesis
  proof
    fix a assume "a \<in> set (butlast (concat (map (\<lambda>d. do_Attempts (fst d)) ds)))"
    then have "a \<in> set (concat (map (\<lambda>d. do_Attempts (fst d)) (butlast ds))) \<or> a \<in> set (butlast (do_Attempts (fst (last ds))))"
      unfolding concat_butlast [OF False] by (rule butlast_append_cases)
    then show "\<not> accepted a" using early late by (simp only: set_concat set_map) blast
  qed
qed simp

definition rt_engine_calls :: "(bool \<times> delivered \<times> gotime) list" where
  "rt_engine_calls = [(False, (fst dl_demo_run, None, False), 0)]"

theorem lifecycle_no_duplicate_witness:
  "\<not> tr_Accepted (at_Transfer (do_Attempts (fst dl_demo_run) ! 0))"
proof -
  have len: "length (do_Attempts (fst dl_demo_run)) = 2" using arg_cong [OF dl_demo_facts(1), of length] by simp
  then obtain a b where ab: "do_Attempts (fst dl_demo_run) = [a, b]" by (auto simp: length_Suc_conv numeral_2_eq_2)
  obtain oc e s1 where att: "Attempt rt_demo_coord False (fst dl_demo_run, None, False) 0 (Some []) = ((oc, e), s1)"
    by (metis surj_pair)
  have "0 < co_limit rt_demo_coord" by (simp add: rt_demo_coord_def)
  then have dlv: "oc_Delivered oc = Some (fst dl_demo_run, None, False)"
    using att by (cases rule: Attempt_cases) (simp_all add: going_on_def rt_demo_coord_def)
  then have run: "runAttempts rt_demo_coord rt_engine_calls [] = ([(fst dl_demo_run, None, False)], the s1)"
    by (simp add: rt_engine_calls_def att)
  have "\<forall>a\<in>set (butlast (concat (map (\<lambda>d. do_Attempts (fst d)) [(fst dl_demo_run, None :: engineError option, False)]))).
      \<not> tr_Accepted (at_Transfer a)"
    by (rule lifecycle_no_duplicate [OF _ run]) (auto simp: rt_demo_coord_def rt_engine_calls_def dl_demo_run_def)
  then show ?thesis by (simp add: ab)
qed

text \<open>A policy every delay of which is a positive 64-bit duration.\<close>

definition policy_ok :: "backoffPolicy \<Rightarrow> bool" where
  "policy_ok p \<longleftrightarrow> bp_Max p < 2 ^ 63 \<and>
     (if bp_Schedule p = [] then 0 < bp_Base p \<and> 0 < bp_Max p else list_all (\<lambda>d. 0 < d \<and> d < 2 ^ 63) (bp_Schedule p))"

lemma Delay_ok:
  assumes "policy_ok p" "0 < n"
  obtains d where "Delay p n = Inr d" "0 < d" "d < 2 ^ 63"
proof (cases "bp_Schedule p = []")
  case True
  then have p: "0 < bp_Base p" "0 < bp_Max p" "bp_Max p < 2 ^ 63" using assms by (auto simp: policy_ok_def)
  then have "Delay p n = Inr (if bp_Base p \<ge> bp_Max p then bp_Max p else min (bp_Max p) (bp_Base p * 2 ^ nat (n - 1)))"
    using True assms(2) by (simp add: Delay_def doubling_closed)
  moreover have "0 < bp_Base p * 2 ^ nat (n - 1)" using p by simp
  ultimately show ?thesis using p that by (cases "bp_Base p \<ge> bp_Max p") (auto simp: min_less_iff_disj)
next
  case False
  define i where "i = (if n - 1 \<ge> int (length (bp_Schedule p)) then length (bp_Schedule p) - 1 else nat (n - 1))"
  have "i < length (bp_Schedule p)" using False assms(2) by (auto simp: i_def)
  then have "bp_Schedule p ! i \<in> set (bp_Schedule p)" by simp
  then have d: "0 < bp_Schedule p ! i" "bp_Schedule p ! i < 2 ^ 63"
    using assms(1) False by (auto simp: policy_ok_def list_all_iff)
  moreover have "Delay p n = Inr (bp_Schedule p ! i)"
    using d False assms(2) unfolding Delay_def i_def [symmetric] Let_def by simp
  ultimately show ?thesis by (rule that [rotated 1])
qed

lemma Jitter_form:
  assumes "0 < bp_JitterPercent p" "0 < d"
  shows "\<exists>x. Jitter p d seed = max second (if bp_Max p > 0 \<and> wrap64 x > bp_Max p then bp_Max p else wrap64 x)"
  using assms by (intro exI [of _ "d + quot_trunc (wrap64 (wrap64 (quot_trunc d 100 *
      (if bp_JitterPercent p > 50 then 50 else bp_JitterPercent p)) * jitter_unit seed)) 1000"])
    (simp add: Jitter_def Let_def max_def)

lemma Jitter_range:
  assumes "0 < d" "d < 2 ^ 63" "bp_Max p < 2 ^ 63"
  shows "0 < Jitter p d seed \<and> Jitter p d seed < 2 ^ 63"
proof (cases "0 < bp_JitterPercent p")
  case True
  then obtain x where "Jitter p d seed = max second (if bp_Max p > 0 \<and> wrap64 x > bp_Max p then bp_Max p else wrap64 x)"
    using Jitter_form assms(1) by blast
  then show ?thesis using assms(3) conjunct2 [OF wrap64_bounds, of x] by auto
qed (use assms in \<open>simp add: Jitter_def\<close>)

lemma time_Sub_large: "now \<le> maxScheduleTime - 2 ^ 63 \<Longrightarrow> d < 2 ^ 63 \<Longrightarrow> d \<le> time_Sub maxScheduleTime now"
  by (simp add: time_Sub_def saturate64_def)

text \<open>A call on a live lifecycle, in terms of the state after its delivery.\<close>

lemma Attempt_live:
  fixes d :: delivered
  assumes live: "going_on (co_limit c) s"
  defines "s2 \<equiv> s @ [attempt_of d (int (length s) + 1)]"
  obtains st1 where "Evaluate (Some s2) (co_limit c) = Inr st1"
    "st1 = StatusRetryable \<longleftrightarrow> Decide (fst d) (snd (snd d)) = Retry \<and> int (length s) + 1 < co_limit c"
    "Attempt c False d now (Some s) =
      (if st1 \<noteq> StatusRetryable then ((\<lparr>oc_Delivered = Some d, oc_Status = st1, oc_Schedule = None\<rparr>, None), Some s2)
       else case NextSchedule (Some s2) (co_backoff c) (co_limit c) now of
          Inl e \<Rightarrow> ((\<lparr>oc_Delivered = Some d, oc_Status = st1, oc_Schedule = None\<rparr>, Some e), Some s2)
        | Inr sch \<Rightarrow> ((\<lparr>oc_Delivered = Some d, oc_Status = st1, oc_Schedule = Some sch\<rparr>, None), Some s2))"
proof -
  obtain result derr ctx where d: "d = (result, derr, ctx)" by (cases d) auto
  have rec: "Record result ctx s = (None, s2)"
    using live by (auto simp: Record_def going_on_def s2_def attempt_of_def d)
  have pos: "0 < co_limit c" using live by (auto simp: going_on_def)
  obtain st where st: "Evaluate (Some s) (co_limit c) = Inr st" "st = StatusEmpty \<or> st = StatusRetryable"
    using Evaluate_going_on [OF pos, of s] live by auto
  have dec: "last s2 = attempt_of d (int (length s) + 1)" "s2 \<noteq> []" "length s2 = Suc (length s)" by (auto simp: s2_def)
  obtain st1 where st1: "Evaluate (Some s2) (co_limit c) = Inr st1"
    "st1 = StatusRetryable \<longleftrightarrow> Decide result ctx = Retry \<and> int (length s) + 1 < co_limit c"
    using pos dec by (cases "Decide result ctx"; cases "int (length s) + 1 < co_limit c")
      (auto simp: Evaluate_def Latest_def attempt_of_def d)
  show ?thesis
    by (rule that [OF st1(1)]) (use st rec st1 in \<open>auto simp: Attempt_def d Let_def split: sum.splits\<close>)
qed

lemma Attempt_delivers_live:
  assumes "Attempt c x d now (Some s) = ((oc, e), s1)" "oc_Delivered oc \<noteq> None \<or> e = None"
  shows "\<not> x" "going_on (co_limit c) s"
proof -
  have "0 < co_limit c" using assms
    by (rule_tac ccontr) (auto simp: Attempt_def Evaluate_def Let_def)
  then show "\<not> x" "going_on (co_limit c) s"
    using assms(1) by (cases rule: Attempt_cases; use assms(2) in auto)+
qed

lemma NextSchedule_ok:
  assumes "policy_ok p" "Evaluate (Some s) limit = Inr StatusRetryable" "0 < da_Number (last s)"
    and "minScheduleTime \<le> now" "now \<le> maxScheduleTime - 2 ^ 63"
  obtains d where "NextSchedule (Some s) p limit now =
      Inr \<lparr>sd_Attempt = da_Number (last s), sd_Delay = d, sd_NextRetryAt = now + d\<rparr>"
    "0 < d" "now + d \<le> maxScheduleTime"
proof -
  obtain d0 where d0: "Delay p (da_Number (last s)) = Inr d0" "0 < d0" "d0 < 2 ^ 63"
    using Delay_ok assms(1,3) by blast
  define d where "d = Jitter p d0 (UnixNano now)"
  have "bp_Max p < 2 ^ 63" using assms(1) by (simp add: policy_ok_def)
  then have d: "0 < d" "d < 2 ^ 63" unfolding d_def using Jitter_range [OF d0(2,3)] by blast+
  have sub: "\<not> time_Sub maxScheduleTime now < d" "\<not> maxScheduleTime < now" "\<not> now < minScheduleTime"
    using time_Sub_large [OF assms(5) d(2)] assms(4,5) by auto
  show ?thesis
  proof (rule that [of d])
    show "NextSchedule (Some s) p limit now = Inr \<lparr>sd_Attempt = da_Number (last s), sd_Delay = d, sd_NextRetryAt = now + d\<rparr>"
      unfolding NextSchedule_def assms(2) sum.case lifecycleStatus.case Let_def option.sel d0(1) d_def [symmetric]
      using sub by simp
  qed (use d assms(5) in linarith)+
qed

text \<open>
  A call on a live lifecycle with a valid policy performs its delivery and reports no error of
  its own: a next operation is scheduled exactly when this delivery is to be retried and the limit
  leaves room for it, strictly after \<open>now\<close> and within the representable range. (Up to about the year
  9707; each delay is below 292 years.)
\<close>

theorem Attempt_schedules:
  assumes live: "going_on (co_limit c) s" "policy_ok (co_backoff c)"
    and now: "minScheduleTime \<le> now" "now \<le> maxScheduleTime - 2 ^ 63"
    and run: "Attempt c False d now (Some s) = ((oc, e), s1)"
  shows "e = None \<and> oc_Delivered oc = Some d \<and>
    (oc_Status oc = StatusRetryable \<longleftrightarrow> Decide (fst d) (snd (snd d)) = Retry \<and> int (length s) + 1 < co_limit c) \<and>
    (case oc_Schedule oc of None \<Rightarrow> oc_Status oc \<noteq> StatusRetryable
     | Some sch \<Rightarrow> oc_Status oc = StatusRetryable \<and> sd_Attempt sch = int (length s) + 1 \<and>
         sd_NextRetryAt sch = now + sd_Delay sch \<and> now < sd_NextRetryAt sch \<and> sd_NextRetryAt sch \<le> maxScheduleTime)"
proof -
  define s2 where "s2 = s @ [attempt_of d (int (length s) + 1)]"
  obtain st1 where st1: "Evaluate (Some s2) (co_limit c) = Inr st1"
    "st1 = StatusRetryable \<longleftrightarrow> Decide (fst d) (snd (snd d)) = Retry \<and> int (length s) + 1 < co_limit c"
    and att: "Attempt c False d now (Some s) =
      (if st1 \<noteq> StatusRetryable then ((\<lparr>oc_Delivered = Some d, oc_Status = st1, oc_Schedule = None\<rparr>, None), Some s2)
       else case NextSchedule (Some s2) (co_backoff c) (co_limit c) now of
          Inl e \<Rightarrow> ((\<lparr>oc_Delivered = Some d, oc_Status = st1, oc_Schedule = None\<rparr>, Some e), Some s2)
        | Inr sch \<Rightarrow> ((\<lparr>oc_Delivered = Some d, oc_Status = st1, oc_Schedule = Some sch\<rparr>, None), Some s2))"
    unfolding s2_def by (rule Attempt_live [OF live(1)])
  show ?thesis
  proof (cases "st1 = StatusRetryable")
    case False
    then show ?thesis using run st1(2) unfolding att by auto
  next
    case True
    have num: "da_Number (last s2) = int (length s) + 1" by (simp add: s2_def attempt_of_def)
    obtain dl where dl: "NextSchedule (Some s2) (co_backoff c) (co_limit c) now =
        Inr \<lparr>sd_Attempt = da_Number (last s2), sd_Delay = dl, sd_NextRetryAt = now + dl\<rparr>" "0 < dl" "now + dl \<le> maxScheduleTime"
      by (rule NextSchedule_ok [OF live(2) st1(1) [unfolded True] _ now]) (simp_all add: num)
    then show ?thesis using run st1(2) True num unfolding att by auto
  qed
qed

theorem Attempt_schedules_witness:
  "oc_Status (fst (fst (Attempt rt_demo_coord False (rt_demo_out KindDNSTemporary, None, False) 0 (Some [])))) = StatusRetryable"
proof -
  have "going_on (co_limit rt_demo_coord) []" "policy_ok (co_backoff rt_demo_coord)" "minScheduleTime \<le> 0"
    "0 \<le> maxScheduleTime - 2 ^ 63"
    by (simp_all add: going_on_def rt_demo_coord_def policy_ok_def DefaultBackoffPolicy_def minScheduleTime_def maxScheduleTime_def)
  moreover obtain oc e s1 where "Attempt rt_demo_coord False (rt_demo_out KindDNSTemporary, None, False) 0 (Some []) = ((oc, e), s1)"
    by (metis surj_pair)
  moreover have "Decide (rt_demo_out KindDNSTemporary) False = Retry" "co_limit rt_demo_coord = 5"
    by (simp_all add: Decide_def rt_demo_out_def rt_demo_coord_def)
  ultimately show ?thesis using Attempt_schedules [of rt_demo_coord "[]" 0 "(rt_demo_out KindDNSTemporary, None, False)" oc e s1]
    by simp
qed

definition rt_bad_policy :: backoffPolicy where
  "rt_bad_policy = \<lparr>bp_Schedule = [5 * second, 0], bp_Base = 0, bp_Max = 0, bp_JitterPercent = 0\<rparr>"

text \<open>
  The constructor's check of the policy is not complete: it looks at the delay after the first
  operation only, so a schedule with an invalid later entry passes, and the second operation is
  performed and recorded as retryable without a schedule for the third.
\<close>

theorem NewCoordinator_checks_first_delay_only:
  "\<exists>c. NewCoordinator True rt_bad_policy 5 = Inr c \<and>
    (let s = numbered 1 [(rt_demo_out KindDNSTemporary, None, False)];
         r = Attempt c False (rt_demo_out KindDNSTemporary, None, False) 0 (Some s)
     in snd (fst r) = Some ErrInvalidBackoff \<and> oc_Delivered (fst (fst r)) = Some (rt_demo_out KindDNSTemporary, None, False) \<and>
        oc_Status (fst (fst r)) = StatusRetryable \<and> oc_Schedule (fst (fst r)) = None)"
  by (rule exI [of _ "\<lparr>co_backoff = rt_bad_policy, co_limit = 5\<rparr>"])
    (simp add: NewCoordinator_def Delay_def Evaluate_def rt_bad_policy_def Attempt_def Latest_def Record_def Let_def
      attempt_of_def NextSchedule_def Decide_def rt_demo_out_def freshOutcome_def)

end
