(* ===== verification/Calendar.thy ===== *)
theory Calendar
  imports Prelude
begin

text \<open>
  The calendar of Go's \<^verbatim>\<open>time\<close> package for UTC instants, and UTF-8 decoding as \<^verbatim>\<open>range\<close> over a
  string does it: the parts of the standard library that turn instants and runes into text.
\<close>

section \<open>Civil dates\<close>

text \<open>Days since 1970-01-01 to (year, month, day) in the proleptic Gregorian calendar.\<close>

definition civil_from_days :: "int \<Rightarrow> int \<times> int \<times> int" where
  "civil_from_days z0 =
     (let z = z0 + 719468;
          era = z div 146097;
          doe = z mod 146097;
          yoe = (doe - doe div 1460 + doe div 36524 - doe div 146096) div 365;
          doy = doe - (365 * yoe + yoe div 4 - yoe div 100);
          mp = (5 * doy + 2) div 153;
          d = doy - (153 * mp + 2) div 5 + 1;
          m = (if mp < 10 then mp + 3 else mp - 9)
      in (yoe + era * 400 + (if m \<le> 2 then 1 else 0), m, d))"

definition days_from_civil :: "int \<Rightarrow> int \<Rightarrow> int \<Rightarrow> int" where
  "days_from_civil y0 m d =
     (let y = (if m \<le> 2 then y0 - 1 else y0);
          era = y div 400;
          yoe = y mod 400;
          doy = (153 * (if m > 2 then m - 3 else m + 9) + 2) div 5 + d - 1;
          doe = yoe * 365 + yoe div 4 - yoe div 100 + doy
      in era * 146097 + doe - 719468)"

definition weekday_names :: "string list" where
  "weekday_names = [''Sun'', ''Mon'', ''Tue'', ''Wed'', ''Thu'', ''Fri'', ''Sat'']"

definition month_names :: "string list" where
  "month_names = [''Jan'', ''Feb'', ''Mar'', ''Apr'', ''May'', ''Jun'', ''Jul'', ''Aug'', ''Sep'', ''Oct'', ''Nov'', ''Dec'']"

definition pad_left :: "nat \<Rightarrow> string \<Rightarrow> string" where
  "pad_left w s = replicate (w - length s) (CHR ''0'') @ s"

definition pad_int :: "nat \<Rightarrow> int \<Rightarrow> string" where
  "pad_int w i = (if i < 0 then ''-'' @ pad_left w (nat_dec (nat (- i))) else pad_left w (nat_dec (nat i)))"

text \<open>\<^verbatim>\<open>t.Format(time.RFC1123Z)\<close> of a UTC instant: \<^verbatim>\<open>Mon, 02 Jan 2006 15:04:05 -0700\<close>.\<close>

definition clock_text :: "int \<Rightarrow> string" where
  "clock_text secs = pad_int 2 (secs div 3600) @ '':'' @ pad_int 2 (secs div 60 mod 60) @ '':'' @ pad_int 2 (secs mod 60)"

definition RFC1123Z :: "gotime \<Rightarrow> string" where
  "RFC1123Z t =
     (let s = t div second; days = s div 86400; secs = s mod 86400
      in case civil_from_days days of (y, m, d) \<Rightarrow>
           weekday_names ! nat ((days + 4) mod 7) @ '', '' @ pad_int 2 d @ '' '' @ month_names ! nat ((m - 1) mod 12) @ '' '' @
           pad_int 4 y @ '' '' @ clock_text secs @ '' +0000'')"

section \<open>Runes\<close>

definition cont_byte :: "char \<Rightarrow> bool" where
  "cont_byte c \<longleftrightarrow> 0x80 \<le> byte c \<and> byte c \<le> 0xBF"

definition second_ok :: "char \<Rightarrow> char \<Rightarrow> bool" where
  "second_ok a b =
     (if byte a = 0xE0 then 0xA0 \<le> byte b \<and> byte b \<le> 0xBF
      else if byte a = 0xED then 0x80 \<le> byte b \<and> byte b \<le> 0x9F
      else if byte a = 0xF0 then 0x90 \<le> byte b \<and> byte b \<le> 0xBF
      else if byte a = 0xF4 then 0x80 \<le> byte b \<and> byte b \<le> 0x8F
      else cont_byte b)"

text \<open>The width of the rune at the head of a non-empty string, 0 for an invalid encoding.\<close>

definition lead_width :: "char \<Rightarrow> nat" where
  "lead_width a =
     (if byte a < 0x80 then 1 else if 0xC2 \<le> byte a \<and> byte a \<le> 0xDF then 2
      else if 0xE0 \<le> byte a \<and> byte a \<le> 0xEF then 3 else if 0xF0 \<le> byte a \<and> byte a \<le> 0xF4 then 4 else 0)"

fun rune_width :: "string \<Rightarrow> nat" where
  "rune_width [] = 0"
| "rune_width (a # s) =
     (let w = lead_width a
      in if w \<le> 1 then w
         else if w \<le> Suc (length s) \<and> second_ok a (hd s) \<and> list_all cont_byte (take (w - 2) (tl s)) then w else 0)"

text \<open>The runes of a string, each in its encoding; an invalid byte is the replacement rune U+FFFD.\<close>

definition replacement :: string where "replacement = [CHR 0xEF, CHR 0xBF, CHR 0xBD]"

function runes :: "string \<Rightarrow> string list" where
  "runes s =
     (if s = [] then []
      else if rune_width s = 0 then replacement # runes (tl s)
      else take (rune_width s) s # runes (drop (rune_width s) s))"
  by pat_completeness auto
termination
  by (relation "measure length") auto

declare runes.simps [simp del]

lemma runes_Nil [simp]: "runes [] = []"
  by (simp add: runes.simps)

lemma cont_byte_high: "cont_byte b \<Longrightarrow> 0x80 \<le> byte b" and second_ok_high: "second_ok a b \<Longrightarrow> 0x80 \<le> byte b"
  by (simp_all add: cont_byte_def second_ok_def split: if_splits)

lemma rune_width_bytes:
  assumes "rune_width (a # s) \<noteq> 0"
  shows "(rune_width (a # s) = 1 \<and> byte a < 0x80) \<or> (\<forall>c\<in>set (take (rune_width (a # s)) (a # s)). 0x80 \<le> byte c)"
proof (cases "lead_width a \<le> 1")
  case True
  then have "lead_width a = 1" "rune_width (a # s) = 1" using assms by auto
  moreover from this(1) have "byte a < 0x80" by (simp add: lead_width_def split: if_splits)
  ultimately show ?thesis by simp
next
  case False
  then obtain n where n: "lead_width a = Suc (Suc n)" by (metis One_nat_def le_SucI nat_le_linear not0_implies_Suc not_less_eq_eq le_0_eq)
  with assms have w: "rune_width (a # s) = Suc (Suc n)" "s \<noteq> []" "second_ok a (hd s)" "list_all cont_byte (take n (tl s))"
    by (auto split: if_splits)
  have "0x80 \<le> byte a" using n by (simp add: lead_width_def split: if_splits)
  then show ?thesis using w(2-4) unfolding w(1)
    by (cases s) (auto simp: list_all_iff cont_byte_high second_ok_high)
qed

lemma runes_step:
  assumes "r \<in> set (runes (a # s))"
  obtains "r = replacement" | "r = take (rune_width (a # s)) (a # s)" "rune_width (a # s) \<noteq> 0"
  | n where "r \<in> set (runes (drop (Suc n) (a # s)))"
proof (cases "rune_width (a # s)")
  case 0
  then show ?thesis using assms that(1) that(3) [of 0] by (simp add: runes.simps [of "a # s"]) blast
next
  case (Suc n)
  then show ?thesis using assms that(2) that(3) [of n] by (simp add: runes.simps [of "a # s"]) blast
qed

lemma runes_bytes:
  "r \<in> set (runes s) \<Longrightarrow> (\<exists>c. r = [c] \<and> byte c < 0x80) \<or> (\<forall>c\<in>set r. 0x80 \<le> byte c)"
proof (induction "length s" arbitrary: s rule: less_induct)
  case less
  then obtain a t where s: "s = a # t" by (cases s) auto
  from less.prems [unfolded s] show ?case
  proof (cases rule: runes_step)
    case 1
    then show ?thesis by (simp add: replacement_def)
  next
    case 2
    then show ?thesis using rune_width_bytes [of a t] by auto
  next
    case (3 n)
    then show ?thesis by (intro less.hyps [of "drop (Suc n) s"]) (auto simp: s)
  qed
qed

lemma concat_runes_ascii: "ascii s \<Longrightarrow> runes s = map (\<lambda>c. [c]) s"
  by (induction s) (auto simp: runes.simps [of "_ # _"] ascii_def lead_width_def)

section \<open>Dates are printable\<close>

definition plain_text :: "string \<Rightarrow> bool" where
  "plain_text s \<longleftrightarrow> list_all (\<lambda>c. 32 \<le> byte c \<and> byte c < 127) s"

lemma plain_text_append [simp]: "plain_text (s @ t) \<longleftrightarrow> plain_text s \<and> plain_text t"
  by (simp add: plain_text_def)

lemma plain_text_Cons [simp]: "plain_text (c # s) \<longleftrightarrow> 32 \<le> byte c \<and> byte c < 127 \<and> plain_text s"
  by (simp add: plain_text_def)

lemma plain_text_Nil [simp]: "plain_text []"
  by (simp add: plain_text_def)

lemma plain_text_nat_dec: "plain_text (nat_dec n)"
  using nat_dec_digits [of n] by (auto simp: plain_text_def list_all_iff is_digit_def)

lemma plain_text_pad: "plain_text (pad_int w i)"
  by (auto simp: pad_int_def pad_left_def plain_text_nat_dec) (auto simp: plain_text_def list_all_iff)

lemma plain_text_names: "n < 7 \<Longrightarrow> plain_text (weekday_names ! n)" "m < 12 \<Longrightarrow> plain_text (month_names ! m)"
proof -
  have "list_all plain_text weekday_names" "list_all plain_text month_names"
    by (simp_all add: weekday_names_def month_names_def)
  then show "n < 7 \<Longrightarrow> plain_text (weekday_names ! n)" "m < 12 \<Longrightarrow> plain_text (month_names ! m)"
    by (simp_all add: list_all_length weekday_names_def month_names_def)
qed

lemma plain_text_RFC1123Z: "plain_text (RFC1123Z t)"
proof -
  have "nat (i mod 7) < 7" "nat (i mod 12) < 12" for i :: int by linarith+
  then show ?thesis
    by (simp add: RFC1123Z_def Let_def clock_text_def plain_text_pad plain_text_names split: prod.splits)
qed

lemma RFC1123Z_reference: "RFC1123Z (1136239445 * second) = ''Mon, 02 Jan 2006 22:04:05 +0000''"
  by code_simp

section \<open>Canonical decimal numerals\<close>

definition canonical_dec :: "string \<Rightarrow> bool" where
  "canonical_dec v \<longleftrightarrow> v \<noteq> [] \<and> list_all is_digit v \<and> (length v > 1 \<longrightarrow> hd v \<noteq> CHR ''0'')"

lemma canonical_dec_butlast: "canonical_dec (w @ [c]) \<Longrightarrow> w \<noteq> [] \<Longrightarrow> canonical_dec w \<and> hd w \<noteq> CHR ''0'' \<and> is_digit c"
  by (cases w) (auto simp: canonical_dec_def)

lemma digit_zero: "is_digit c \<Longrightarrow> byte c - 48 = 0 \<longleftrightarrow> c = CHR ''0''"
proof -
  assume "is_digit c"
  then have "byte c - 48 = 0 \<longleftrightarrow> byte c = byte (CHR ''0'')" by (auto simp: is_digit_def)
  then show ?thesis by (metis char_of_char)
qed

lemma dec_val_pos: "canonical_dec v \<Longrightarrow> hd v \<noteq> CHR ''0'' \<Longrightarrow> 0 < dec_val v"
proof (induction v rule: rev_induct)
  case (snoc c w)
  show ?case
  proof (cases "w = []")
    case True
    then show ?thesis using snoc.prems digit_zero [of c] by (simp add: canonical_dec_def dec_val_def)
  next
    case False
    then show ?thesis using snoc.IH canonical_dec_butlast [OF snoc.prems(1) False] by (simp add: dec_val_snoc)
  qed
qed (simp add: canonical_dec_def)

lemma digit_value: "is_digit c \<Longrightarrow> byte c - 48 < 10 \<and> char_of (48 + (byte c - 48)) = c"
  by (auto simp: is_digit_def)

lemma nat_dec_dec_val: "canonical_dec v \<Longrightarrow> nat_dec (dec_val v) = v"
proof (induction v rule: rev_induct)
  case (snoc c w)
  have c: "is_digit c" using snoc.prems by (simp add: canonical_dec_def)
  show ?case
  proof (cases "w = []")
    case True
    then show ?thesis using digit_value [OF c] by (simp add: dec_val_def nat_dec_small)
  next
    case False
    note w = canonical_dec_butlast [OF snoc.prems False]
    have "0 < dec_val w" using dec_val_pos w by blast
    then have "\<not> dec_val (w @ [c]) < 10" by (simp add: dec_val_snoc)
    moreover have "dec_val (w @ [c]) div 10 = dec_val w" "dec_val (w @ [c]) mod 10 = byte c - 48"
      using digit_value [OF c] by (simp_all add: dec_val_snoc)
    ultimately show ?thesis using snoc.IH w digit_value [OF c] by (simp add: nat_dec_step)
  qed
qed (simp add: canonical_dec_def)

lemma hd_nat_dec: "0 < n \<Longrightarrow> hd (nat_dec n) \<noteq> CHR ''0''"
proof (induction n rule: nat_dec.induct)
  case (1 n)
  show ?case
  proof (cases "n < 10")
    case True
    then have "byte (char_of (48 + n) :: char) = 48 + n" by simp
    then have "(char_of (48 + n) :: char) \<noteq> CHR ''0''" using 1(2) by fastforce
    then show ?thesis using True by (simp add: nat_dec_small)
  next
    case False
    then show ?thesis using 1 by (simp add: nat_dec_step)
  qed
qed

lemma canonical_nat_dec: "canonical_dec (nat_dec n)"
proof (cases "n = 0")
  case True
  then show ?thesis by (simp add: canonical_dec_def nat_dec_small is_digit_def)
next
  case False
  then show ?thesis using hd_nat_dec [of n] by (simp add: canonical_dec_def nat_dec_digits)
qed

lemma dec_val_less: "list_all is_digit v \<Longrightarrow> dec_val v < 10 ^ length v"
proof (induction v rule: rev_induct)
  case (snoc c w)
  then have "dec_val w < 10 ^ length w" "byte c - 48 < 10" using digit_value [of c] by auto
  then show ?case by (simp add: dec_val_snoc)
qed (simp add: dec_val_def)

lemma length_nat_dec: "length (nat_dec n) \<le> Suc k \<longleftrightarrow> n < 10 ^ Suc k"
proof (induction n arbitrary: k rule: nat_dec.induct)
  case (1 n)
  show ?case
  proof (cases "n < 10")
    case True
    then show ?thesis by (simp add: nat_dec_small trans_less_add1 order.strict_trans2)
  next
    case False
    show ?thesis
    proof (cases k)
      case 0
      then show ?thesis using False by (simp add: nat_dec_step)
    next
      case (Suc j)
      have "length (nat_dec n) \<le> Suc k \<longleftrightarrow> n div 10 < 10 ^ Suc j" using 1 [of j] False Suc by (simp add: nat_dec_step)
      then show ?thesis using Suc by (simp add: div_less_iff_less_mult mult.commute)
    qed
  qed
qed

end
