(* ===== verification/Bounce.thy ===== *)
theory Bounce
  imports Retry Calendar
begin

text \<open>
  Bounce handling of \<^verbatim>\<open>internal/bounce\<close>: enhanced status codes (\<^verbatim>\<open>status.go\<close>), the classification of
  a final failure (\<^verbatim>\<open>classify.go\<close>), per-recipient statuses (\<^verbatim>\<open>recipient.go\<close>), the delivery status
  notification (\<^verbatim>\<open>dsn.go\<close>), its loop safety (\<^verbatim>\<open>safety.go\<close>) and its text (\<^verbatim>\<open>generate.go\<close>). The random
  boundary of the multipart writer is a parameter.
\<close>

section \<open>Enhanced status codes\<close>

record enhancedStatus =
  es_Class :: int
  es_Subject :: int
  es_Detail :: int

definition parseStatusComponent :: "string \<Rightarrow> int option" where
  "parseStatusComponent value =
     (if value = [] \<or> length value > 3 \<or> (length value > 1 \<and> hd value = CHR ''0'') then None
      else if \<not> list_all is_digit value then None
      else Some (int (dec_val value)))"

definition ParseEnhancedStatus :: "string \<Rightarrow> enhancedStatus option" where
  "ParseEnhancedStatus value =
     (case split_byte (CHR ''.'') value of
        [p0, p1, p2] \<Rightarrow>
          if length p0 \<noteq> 1 then None
          else (case parseStatusComponent p0 of
                  None \<Rightarrow> None
                | Some class \<Rightarrow>
                    if class \<noteq> 2 \<and> class \<noteq> 4 \<and> class \<noteq> 5 then None
                    else (case parseStatusComponent p1 of
                            None \<Rightarrow> None
                          | Some subject \<Rightarrow>
                              (case parseStatusComponent p2 of
                                 None \<Rightarrow> None
                               | Some detail \<Rightarrow> Some \<lparr>es_Class = class, es_Subject = subject, es_Detail = detail\<rparr>)))
      | _ \<Rightarrow> None)"

definition es_Valid :: "enhancedStatus \<Rightarrow> bool" where
  "es_Valid s \<longleftrightarrow> (es_Class s = 2 \<or> es_Class s = 4 \<or> es_Class s = 5) \<and>
     0 \<le> es_Subject s \<and> es_Subject s \<le> 999 \<and> 0 \<le> es_Detail s \<and> es_Detail s \<le> 999"

definition es_String :: "enhancedStatus \<Rightarrow> string" where
  "es_String s =
     (if \<not> es_Valid s then []
      else int_dec (es_Class s) @ ''.'' @ int_dec (es_Subject s) @ ''.'' @ int_dec (es_Detail s))"

definition IsSuccess :: "enhancedStatus \<Rightarrow> bool" where "IsSuccess s \<longleftrightarrow> es_Valid s \<and> es_Class s = 2"
definition IsTemporary :: "enhancedStatus \<Rightarrow> bool" where "IsTemporary s \<longleftrightarrow> es_Valid s \<and> es_Class s = 4"
definition IsPermanent :: "enhancedStatus \<Rightarrow> bool" where "IsPermanent s \<longleftrightarrow> es_Valid s \<and> es_Class s = 5"

datatype statusCategory =
    CategoryUnknown | CategoryAddress | CategoryMailbox | CategorySystem | CategoryNetwork | CategoryProtocol
  | CategoryContent | CategoryPolicy

definition es_Category :: "enhancedStatus \<Rightarrow> statusCategory" where
  "es_Category s =
     (if \<not> es_Valid s then CategoryUnknown
      else if es_Subject s = 1 then CategoryAddress
      else if es_Subject s = 2 then CategoryMailbox
      else if es_Subject s = 3 then CategorySystem
      else if es_Subject s = 4 then CategoryNetwork
      else if es_Subject s = 5 then CategoryProtocol
      else if es_Subject s = 6 then CategoryContent
      else if es_Subject s = 7 then CategoryPolicy
      else CategoryUnknown)"

section \<open>Classification\<close>

datatype bounce_error =
    BErrNilState | BErrNoDeliveryAttempts | BErrNotFinal | BErrDeliverySucceeded | BErrInvalidLifecycle
  | BErrNotDSNEligible | BErrNoReportingMTA | BErrNoRecipients | BErrOriginalSenderNull | BErrOriginalSenderEmpty
  | BErrSenderSyntax | BErrControlCharacter | BErrEmptyDSN

datatype failureClass =
    FailureUnknown | FailurePermanentDelivery | FailureRetryExhausted | FailureDNS | FailureNullMX
  | FailureInvalidRequest | FailureAborted

record failure =
  fl_Class :: failureClass
  fl_DeliveryKind :: "dkind option"
  fl_SMTPCode :: nat
  fl_EnhancedStatusRaw :: string
  fl_EnhancedStatus :: "enhancedStatus option"
  fl_RemoteMessage :: string
  fl_FailureStage :: "stage option"
  fl_Recipient :: string
  fl_RetryExhausted :: bool
  fl_AttemptCount :: nat

definition classifyKind :: "dkind option \<Rightarrow> failureClass" where
  "classifyKind kind =
     (case kind of
        Some KindTransferPermanent \<Rightarrow> FailurePermanentDelivery
      | Some KindDNSNotFound \<Rightarrow> FailureDNS
      | Some KindDNSFailure \<Rightarrow> FailureDNS
      | Some KindDNSNullMX \<Rightarrow> FailureNullMX
      | Some KindInvalidRequest \<Rightarrow> FailureInvalidRequest
      | Some KindContext \<Rightarrow> FailureAborted
      | _ \<Rightarrow> FailureUnknown)"

definition failureFromAttempt :: "deliveryAttempt \<Rightarrow> nat \<Rightarrow> bool \<Rightarrow> failure" where
  "failureFromAttempt attempt attempts exhausted =
     (let result = da_Result attempt;
          failure = \<lparr>fl_Class = classifyKind (do_Kind result), fl_DeliveryKind = do_Kind result,
            fl_SMTPCode = do_FinalCode result, fl_EnhancedStatusRaw = do_EnhancedStatus result,
            fl_EnhancedStatus = ParseEnhancedStatus (do_EnhancedStatus result),
            fl_RemoteMessage = do_RemoteMessage result, fl_FailureStage = do_FailureStage result,
            fl_Recipient = do_Recipient result, fl_RetryExhausted = False, fl_AttemptCount = attempts\<rparr>
      in if exhausted then failure\<lparr>fl_Class := FailureRetryExhausted, fl_RetryExhausted := True\<rparr> else failure)"

definition Classify :: "rstate option \<Rightarrow> lifecycleStatus \<Rightarrow> bounce_error + failure" where
  "Classify state status =
     (case state of
        None \<Rightarrow> Inl BErrNilState
      | Some s \<Rightarrow>
          (case Latest s of
             None \<Rightarrow> Inl (if status \<noteq> StatusEmpty then BErrInvalidLifecycle else BErrNoDeliveryAttempts)
           | Some latest \<Rightarrow>
               let accepted = do_Accepted (da_Result latest); dec = da_Decision latest
               in case status of
                    StatusEmpty \<Rightarrow> Inl BErrInvalidLifecycle
                  | StatusRetryable \<Rightarrow> Inl (if dec \<noteq> Retry \<or> accepted then BErrInvalidLifecycle else BErrNotFinal)
                  | StatusSucceeded \<Rightarrow>
                      Inl (if dec \<noteq> TerminalSuccess \<or> \<not> accepted then BErrInvalidLifecycle else BErrDeliverySucceeded)
                  | StatusFailed \<Rightarrow>
                      if dec \<noteq> TerminalFailure \<or> accepted then Inl BErrInvalidLifecycle
                      else Inr (failureFromAttempt latest (length s) False)
                  | StatusExhausted \<Rightarrow>
                      if dec \<noteq> Retry \<or> accepted then Inl BErrInvalidLifecycle
                      else Inr (failureFromAttempt latest (length s) True)))"

section \<open>Recipients and the notification\<close>

datatype recipientAction = ActionUnknown | ActionFailed | ActionDelivered

definition action_String :: "recipientAction \<Rightarrow> string" where
  "action_String a = (case a of ActionFailed \<Rightarrow> ''failed'' | ActionDelivered \<Rightarrow> ''delivered'' | ActionUnknown \<Rightarrow> ''unknown'')"

record recipientStatus =
  rs_FinalRecipient :: string
  rs_Action :: recipientAction
  rs_Status :: "enhancedStatus option"
  rs_SMTPCode :: nat
  rs_Diagnostic :: string

definition abortedDiagnostic :: string where
  "abortedDiagnostic = ''transaction aborted before this recipient'' @ [CHR 0x27] @ ''s RCPT TO could be confirmed or refused''"

definition recipientStatusFor :: "failure \<Rightarrow> string \<Rightarrow> recipientStatus" where
  "recipientStatusFor f recipient =
     (if fl_Recipient f \<noteq> [] \<and> fl_Recipient f = recipient then
        \<lparr>rs_FinalRecipient = recipient, rs_Action = ActionFailed, rs_Status = fl_EnhancedStatus f,
         rs_SMTPCode = fl_SMTPCode f, rs_Diagnostic = fl_RemoteMessage f\<rparr>
      else if fl_Recipient f \<noteq> [] then
        \<lparr>rs_FinalRecipient = recipient, rs_Action = ActionFailed, rs_Status = None, rs_SMTPCode = 0,
         rs_Diagnostic = abortedDiagnostic\<rparr>
      else
        \<lparr>rs_FinalRecipient = recipient, rs_Action = ActionFailed, rs_Status = fl_EnhancedStatus f,
         rs_SMTPCode = fl_SMTPCode f, rs_Diagnostic = fl_RemoteMessage f\<rparr>)"

definition RecipientStatuses :: "failure \<Rightarrow> string list \<Rightarrow> recipientStatus list" where
  "RecipientStatuses f envelopeRecipients = map (recipientStatusFor f) envelopeRecipients"

definition DeliveredRecipientStatuses :: "string list \<Rightarrow> deliveryOutcome \<Rightarrow> recipientStatus list" where
  "DeliveredRecipientStatuses envelopeRecipients result =
     map (\<lambda>r. \<lparr>rs_FinalRecipient = r, rs_Action = ActionDelivered, rs_Status = None, rs_SMTPCode = do_FinalCode result,
            rs_Diagnostic = do_RemoteMessage result\<rparr>) envelopeRecipients"

record dsn =
  dn_ReportingMTA :: string
  dn_ArrivalDate :: gotime
  dn_OriginalEnvelopeID :: string
  dn_Recipients :: "recipientStatus list"
  dn_Failure :: failure

definition Eligible :: "failure \<Rightarrow> bool" where
  "Eligible f \<longleftrightarrow> fl_Class f \<in> {FailurePermanentDelivery, FailureRetryExhausted, FailureDNS, FailureNullMX}"

definition NewDSN :: "failure \<Rightarrow> string list \<Rightarrow> string \<Rightarrow> string \<Rightarrow> gotime \<Rightarrow> bounce_error + dsn" where
  "NewDSN f envelopeRecipients reportingMTA deliveryID arrivalDate =
     (if \<not> Eligible f then Inl BErrNotDSNEligible
      else if TrimSpace reportingMTA = [] then Inl BErrNoReportingMTA
      else if envelopeRecipients = [] then Inl BErrNoRecipients
      else Inr \<lparr>dn_ReportingMTA = reportingMTA, dn_ArrivalDate = arrivalDate, dn_OriginalEnvelopeID = deliveryID,
        dn_Recipients = RecipientStatuses f envelopeRecipients, dn_Failure = f\<rparr>)"

section \<open>Loop safety\<close>

definition IsNullReversePath :: "string \<Rightarrow> bool" where
  "IsNullReversePath mailFrom \<longleftrightarrow> TrimSpace mailFrom = ''<>''"

definition ShouldGenerate :: "string \<Rightarrow> failure \<Rightarrow> bounce_error + bool" where
  "ShouldGenerate originalMailFrom f =
     (if IsNullReversePath originalMailFrom then Inl BErrOriginalSenderNull
      else if TrimSpace originalMailFrom = [] then Inl BErrOriginalSenderEmpty
      else if \<not> Eligible f then Inl BErrNotDSNEligible
      else Inr True)"

definition control_chars :: string where "control_chars = [CR, LF, CHR 0x00]"

definition BounceEnvelope :: "string \<Rightarrow> bounce_error + envelope" where
  "BounceEnvelope originalMailFrom =
     (if IsNullReversePath originalMailFrom then Inl BErrOriginalSenderNull
      else let trimmed = TrimSpace originalMailFrom
           in if trimmed = [] then Inl BErrOriginalSenderEmpty
              else if \<not> HasPrefix trimmed ''<'' \<or> \<not> HasSuffix trimmed ''>'' then Inl BErrSenderSyntax
              else if ContainsAny trimmed control_chars then Inl BErrControlCharacter
              else Inr \<lparr>env_MailFrom = ''<>'', env_Recipients = [trimmed]\<rparr>)"

section \<open>The text of the notification\<close>

record messageOptions =
  mo_From :: string
  mo_To :: string
  mo_Subject :: string
  mo_MessageID :: string
  mo_Date :: gotime
  mo_OriginalHeaders :: string

definition stripAngleBrackets :: "string \<Rightarrow> string" where
  "stripAngleBrackets addr0 =
     (let addr = TrimSpace addr0
      in if HasPrefix addr ''<'' \<and> HasSuffix addr ''>'' \<and> length addr \<ge> 2 then take (length addr - 2) (drop 1 addr) else addr)"

definition sanitizeText :: "string \<Rightarrow> string" where
  "sanitizeText s = TrimSpace (concat (map (\<lambda>r. if r \<in> {[CR], [LF], [CHR 0x00]} then '' '' else r) (runes s)))"

text \<open>\<^verbatim>\<open>strings.ReplaceAll\<close> of CRLF by LF, then of LF by CRLF.\<close>

fun crlf_to_lf :: "string \<Rightarrow> string" where
  "crlf_to_lf (c # d # s) = (if c = CR \<and> d = LF then LF # crlf_to_lf s else c # crlf_to_lf (d # s))"
| "crlf_to_lf s = s"

definition normalizeCRLF :: "string \<Rightarrow> string" where
  "normalizeCRLF s = concat (map (\<lambda>c. if c = LF then crlf else [c]) (crlf_to_lf s))"

definition validateHeaderSafe :: "string list \<Rightarrow> bool" where
  "validateHeaderSafe values \<longleftrightarrow> list_all (\<lambda>v. \<not> ContainsAny v control_chars) values"

definition writeHeaderLine :: "string \<Rightarrow> string \<Rightarrow> string" where
  "writeHeaderLine name value = (if value = [] then [] else name @ '': '' @ value @ crlf)"

text \<open>
  A body is written as a list of lines, each ended by CRLF. The boundary and the headers of a part
  are what \<^verbatim>\<open>multipart.Writer.CreatePart\<close> writes (headers in the order of their names).
\<close>

definition lines_text :: "string list \<Rightarrow> string" where
  "lines_text ls = concat (map (\<lambda>l. l @ crlf) ls)"

definition createPart :: "string \<Rightarrow> bool \<Rightarrow> string list \<Rightarrow> string \<Rightarrow> string" where
  "createPart boundary isFirst headers body =
     (if isFirst then [] else crlf) @ ''--'' @ boundary @ crlf @ lines_text headers @ crlf @ body"

definition human_lines :: "dsn \<Rightarrow> string list" where
  "human_lines d =
     [''This is an automatically generated delivery status notification from '' @ dn_ReportingMTA d @ ''.'', [],
      ''MailX was unable to deliver your message to the following recipient(s):'', []] @
     concat (map (\<lambda>r. if rs_Action r \<noteq> ActionFailed then []
        else (''  '' @ sanitizeText (rs_FinalRecipient r)) #
             (if rs_Diagnostic r \<noteq> [] then [''    Reason: '' @ sanitizeText (rs_Diagnostic r)] else []))
       (dn_Recipients d))"

definition writeHumanReadablePart :: "string \<Rightarrow> dsn \<Rightarrow> string" where
  "writeHumanReadablePart boundary d =
     createPart boundary True [''Content-Transfer-Encoding: 7bit'', ''Content-Type: text/plain; charset=utf-8'']
       (lines_text (human_lines d))"

definition recipient_fields :: "recipientStatus \<Rightarrow> string list" where
  "recipient_fields r =
     [''Final-Recipient: rfc822;'' @ sanitizeText (stripAngleBrackets (rs_FinalRecipient r)),
      ''Action: '' @ action_String (rs_Action r)] @
     (case rs_Status r of
        Some st \<Rightarrow> if es_Valid st then [''Status: '' @ es_String st] else []
      | None \<Rightarrow> []) @
     (if rs_Diagnostic r \<noteq> [] then
        [''Diagnostic-Code: '' @ (if rs_SMTPCode r = 0 then ''x-mailx'' else ''smtp'') @ ''; '' @
         sanitizeText (if rs_SMTPCode r \<noteq> 0 then nat_dec (rs_SMTPCode r) @ '' '' @ rs_Diagnostic r else rs_Diagnostic r)]
      else [])"

fun recipient_blocks :: "recipientStatus list \<Rightarrow> string list" where
  "recipient_blocks [] = []"
| "recipient_blocks [r] = recipient_fields r"
| "recipient_blocks (r # rs) = recipient_fields r @ [[]] @ recipient_blocks rs"

definition status_lines :: "dsn \<Rightarrow> string list" where
  "status_lines d =
     [''Reporting-MTA: dns;'' @ sanitizeText (dn_ReportingMTA d)] @
     (if dn_ArrivalDate d \<noteq> zero_time then [''Arrival-Date: '' @ RFC1123Z (dn_ArrivalDate d)] else []) @
     [[]] @ recipient_blocks (dn_Recipients d)"

definition writeDeliveryStatusPart :: "string \<Rightarrow> dsn \<Rightarrow> string" where
  "writeDeliveryStatusPart boundary d =
     createPart boundary False [''Content-Type: message/delivery-status''] (lines_text (status_lines d))"

definition writeOriginalHeadersPart :: "string \<Rightarrow> string \<Rightarrow> string" where
  "writeOriginalHeadersPart boundary headers =
     createPart boundary False [''Content-Type: text/rfc822-headers''] (normalizeCRLF headers)"

definition Generate :: "string \<Rightarrow> dsn \<Rightarrow> messageOptions \<Rightarrow> bounce_error + string" where
  "Generate boundary d opts =
     (if dn_Recipients d = [] then Inl BErrEmptyDSN
      else if \<not> validateHeaderSafe [mo_From opts, mo_To opts, mo_Subject opts, mo_MessageID opts] then Inl BErrControlCharacter
      else
        let body = writeHumanReadablePart boundary d @ writeDeliveryStatusPart boundary d @
              (if TrimSpace (mo_OriginalHeaders opts) \<noteq> [] then writeOriginalHeadersPart boundary (mo_OriginalHeaders opts) else []) @
              crlf @ ''--'' @ boundary @ ''--'' @ crlf;
            subject = (if mo_Subject opts = [] then ''Delivery Status Notification (Failure)'' else mo_Subject opts)
        in Inr (writeHeaderLine ''From'' (mo_From opts) @ writeHeaderLine ''To'' (mo_To opts) @
             writeHeaderLine ''Subject'' subject @ writeHeaderLine ''Message-ID'' (mo_MessageID opts) @
             (if mo_Date opts \<noteq> zero_time then writeHeaderLine ''Date'' (RFC1123Z (mo_Date opts)) else []) @
             writeHeaderLine ''MIME-Version'' ''1.0'' @ writeHeaderLine ''Auto-Submitted'' ''auto-replied'' @
             writeHeaderLine ''Content-Type'' (''multipart/report; report-type=delivery-status;'' @ crlf @ [CHR 0x09] @
               ''boundary='' @ [CHR 0x22] @ boundary @ [CHR 0x22]) @
             crlf @ body))"

section \<open>Status codes round trip\<close>

lemma parseStatusComponent_iff: "parseStatusComponent v = Some n \<longleftrightarrow> 0 \<le> n \<and> n \<le> 999 \<and> int_dec n = v"
proof
  assume "parseStatusComponent v = Some n"
  then have v: "canonical_dec v" "length v \<le> 3" "n = int (dec_val v)"
    by (auto simp: parseStatusComponent_def canonical_dec_def split: if_splits)
  have "dec_val v < 10 ^ length v" using v(1) by (simp add: canonical_dec_def dec_val_less)
  also have "\<dots> \<le> (10 :: nat) ^ 3" using v(2) by (intro power_increasing) auto
  finally show "0 \<le> n \<and> n \<le> 999 \<and> int_dec n = v" using v by (simp add: int_dec_def nat_dec_dec_val)
next
  assume n: "0 \<le> n \<and> n \<le> 999 \<and> int_dec n = v"
  then have v: "v = nat_dec (nat n)" by (auto simp: int_dec_def)
  have "nat n < 10 ^ Suc 2" using n by auto
  then have "length v \<le> 3" using length_nat_dec [of "nat n" 2] by (simp only: v) simp
  moreover have "canonical_dec v" by (simp add: v canonical_nat_dec)
  ultimately show "parseStatusComponent v = Some n"
    using n by (auto simp: parseStatusComponent_def canonical_dec_def v)
qed

lemma int_dec_no_dot: "0 \<le> n \<Longrightarrow> CHR ''.'' \<notin> set (int_dec n)"
  using nat_dec_digits [of "nat n"] by (auto simp: int_dec_def list_all_iff is_digit_def)

lemma split_three:
  "split_byte (CHR ''.'') v = [a, b, c] \<longleftrightarrow> v = a @ ''.'' @ b @ ''.'' @ c \<and> CHR ''.'' \<notin> set a \<union> set b \<union> set c"
proof
  assume sp: "split_byte (CHR ''.'') v = [a, b, c]"
  have "v = join_with ''.'' [a, b, c]" using join_split_byte [of "CHR ''.''" v] by (simp add: sp)
  moreover have "CHR ''.'' \<notin> set w" if "w \<in> {a, b, c}" for w
    using split_byte_no_sep [of w "CHR ''.''" v] that by (auto simp: sp)
  ultimately show "v = a @ ''.'' @ b @ ''.'' @ c \<and> CHR ''.'' \<notin> set a \<union> set b \<union> set c" by auto
next
  assume "v = a @ ''.'' @ b @ ''.'' @ c \<and> CHR ''.'' \<notin> set a \<union> set b \<union> set c"
  then show "split_byte (CHR ''.'') v = [a, b, c]"
    by (simp add: split_byte_append split_byte_free)
qed

text \<open>
  Enhanced status codes round trip: a text parses to a code exactly when the code is valid and
  prints as that text. So parsing accepts exactly the canonical texts, and printing loses nothing.
\<close>

theorem status_parse_print:
  "ParseEnhancedStatus v = Some s \<longleftrightarrow> es_Valid s \<and> es_String s = v"
proof
  assume "ParseEnhancedStatus v = Some s"
  then obtain a b c where sp: "split_byte (CHR ''.'') v = [a, b, c]"
    and ps: "parseStatusComponent a = Some (es_Class s)" "es_Class s \<in> {2, 4, 5}"
      "parseStatusComponent b = Some (es_Subject s)" "parseStatusComponent c = Some (es_Detail s)"
    by (auto simp: ParseEnhancedStatus_def split: list.splits option.splits if_splits)
  then show "es_Valid s \<and> es_String s = v"
    by (auto simp: split_three parseStatusComponent_iff es_Valid_def es_String_def)
next
  assume s: "es_Valid s \<and> es_String s = v"
  then have "split_byte (CHR ''.'') v = [int_dec (es_Class s), int_dec (es_Subject s), int_dec (es_Detail s)]"
    unfolding split_three by (auto simp: es_Valid_def es_String_def int_dec_no_dot)
  moreover have "parseStatusComponent (int_dec n) = Some n" if "0 \<le> n" "n \<le> 999" for n
    using that by (simp add: parseStatusComponent_iff)
  moreover have "length (int_dec (es_Class s)) = 1"
    using s by (auto simp: es_Valid_def int_dec_def nat_dec_small)
  ultimately show "ParseEnhancedStatus v = Some s"
    using s by (auto simp: ParseEnhancedStatus_def es_Valid_def)
qed

section \<open>Classification of a lifecycle\<close>

lemma Record_consistent:
  "s = numbered 1 ds \<Longrightarrow> s \<noteq> [] \<Longrightarrow>
    da_Decision (last s) = TerminalSuccess \<longleftrightarrow> do_Accepted (da_Result (last s))"
proof -
  assume s: "s = numbered 1 ds" "s \<noteq> []"
  then have ne: "ds \<noteq> []" by auto
  have "da_Decision (last s) = Decide (fst (last ds)) (snd (snd (last ds)))" "da_Result (last s) = fst (last ds)"
    using numbered_facts(2,3) [of 1 ds] s ne by (metis last_map)+
  then show ?thesis by (auto simp: Decide_def)
qed

text \<open>
  Classification agrees with the retry engine: on the state left by any sequence of coordinator
  calls, with the status the engine evaluates for it, a failure is produced exactly for the final
  failures, the status and the state are never found inconsistent, an accepted message is never a
  failure, and only an exhausted lifecycle is classified as exhausted.
\<close>

theorem classify_lifecycle:
  assumes "0 < co_limit c" "runAttempts c calls [] = (ds, s)" "Evaluate (Some s) (co_limit c) = Inr status"
  shows "Classify (Some s) status \<noteq> Inl BErrInvalidLifecycle \<and>
    (case Classify (Some s) status of
       Inl _ \<Rightarrow> status \<in> {StatusEmpty, StatusRetryable, StatusSucceeded}
     | Inr f \<Rightarrow> status \<in> {StatusFailed, StatusExhausted} \<and> \<not> do_Accepted (da_Result (last s)) \<and>
         fl_AttemptCount f = length ds \<and> (fl_Class f = FailureRetryExhausted \<longleftrightarrow> status = StatusExhausted))"
proof (cases "s = []")
  case True
  then show ?thesis using assms(1,3) by (auto simp: Evaluate_def Latest_def Classify_def)
next
  case False
  have s: "s = numbered 1 ds" by (rule runAttempts_start [OF assms(1,2)])
  have len: "length s = length ds" by (simp add: s numbered_facts(1))
  note cons = Record_consistent [OF s False]
  have cls: "classifyKind k \<noteq> FailureRetryExhausted" for k
    by (auto simp: classifyKind_def split: option.splits dkind.splits)
  have "status = (case da_Decision (last s) of TerminalSuccess \<Rightarrow> StatusSucceeded | TerminalFailure \<Rightarrow> StatusFailed
      | Retry \<Rightarrow> if int (length s) \<ge> co_limit c then StatusExhausted else StatusRetryable)"
    using assms(1,3) False by (auto simp: Evaluate_def Latest_def split: decision.splits if_splits)
  then show ?thesis using False cons len cls
    by (cases "da_Decision (last s)") (auto simp: Classify_def Latest_def failureFromAttempt_def Let_def)
qed

theorem classify_lifecycle_witness:
  "Classify (Some (snd (runAttempts rt_demo_coord [(False, (rt_demo_out KindDNSNotFound, None, False), 0)] []))) StatusFailed
    \<noteq> Inl BErrInvalidLifecycle"
proof -
  define r where "r = runAttempts rt_demo_coord [(False, (rt_demo_out KindDNSNotFound, None, False), 0)] []"
  have "0 < co_limit rt_demo_coord" by (simp add: rt_demo_coord_def)
  moreover have "runAttempts rt_demo_coord [(False, (rt_demo_out KindDNSNotFound, None, False), 0)] [] = (fst r, snd r)"
    by (simp add: r_def)
  moreover have "Evaluate (Some (snd r)) (co_limit rt_demo_coord) = Inr StatusFailed"
    unfolding r_def by code_simp
  ultimately have "Classify (Some (snd r)) StatusFailed \<noteq> Inl BErrInvalidLifecycle"
    by (rule conjunct1 [OF classify_lifecycle])
  then show ?thesis by (simp add: r_def)
qed

section \<open>The notification cannot be forged by remote text\<close>

definition clean_field :: "string \<Rightarrow> bool" where
  "clean_field s \<longleftrightarrow> CR \<notin> set s \<and> LF \<notin> set s \<and> CHR 0x00 \<notin> set s"

lemma clean_field_append [simp]: "clean_field (s @ t) \<longleftrightarrow> clean_field s \<and> clean_field t"
  by (auto simp: clean_field_def)

lemma clean_field_Cons [simp]: "clean_field (c # s) \<longleftrightarrow> c \<noteq> CR \<and> c \<noteq> LF \<and> c \<noteq> CHR 0x00 \<and> clean_field s"
  by (auto simp: clean_field_def)

lemma clean_field_Nil [simp]: "clean_field []"
  by (simp add: clean_field_def)

lemma plain_text_clean: "plain_text s \<Longrightarrow> clean_field s"
  by (auto simp: plain_text_def clean_field_def list_all_iff CR_def LF_def)

lemma rune_clean: "r \<in> set (runes s) \<Longrightarrow> clean_field (if r \<in> {[CR], [LF], [CHR 0x00]} then '' '' else r)"
proof -
  assume r: "r \<in> set (runes s)"
  have high: "c \<noteq> CR \<and> c \<noteq> LF \<and> c \<noteq> CHR 0x00" if "0x80 \<le> byte c" for c
    using that by (auto simp: CR_def LF_def)
  from runes_bytes [OF r] show ?thesis
  proof (elim disjE exE conjE)
    fix c assume "r = [c]"
    then show ?thesis by (auto simp: CR_def LF_def)
  next
    assume "\<forall>c\<in>set r. 0x80 \<le> byte c"
    then have "clean_field r" using high by (auto simp: clean_field_def)
    then show ?thesis by (simp add: CR_def LF_def)
  qed
qed

lemma clean_sanitizeText: "clean_field (sanitizeText s)"
proof -
  have cc: "(\<And>x. x \<in> set xs \<Longrightarrow> clean_field (f x)) \<Longrightarrow> clean_field (concat (map f xs))" for f and xs :: "string list"
    by (induction xs) auto
  have "clean_field (concat (map (\<lambda>r. if r \<in> {[CR], [LF], [CHR 0x00]} then '' '' else r) (runes s)))"
    by (intro cc rune_clean)
  then show ?thesis unfolding sanitizeText_def clean_field_def
    using set_TrimSpace by blast
qed

lemma clean_action: "clean_field (action_String a)"
  by (cases a) (simp_all add: action_String_def CR_def LF_def)

lemma clean_es_String: "clean_field (es_String s)"
  by (auto simp: es_String_def es_Valid_def int_dec_def CR_def LF_def intro: plain_text_clean plain_text_nat_dec)

lemmas clean_parts = clean_sanitizeText clean_action clean_es_String plain_text_clean [OF plain_text_RFC1123Z]

lemma clean_recipient_fields: "list_all clean_field (recipient_fields r)"
  by (simp add: recipient_fields_def clean_parts CR_def LF_def split: option.splits)

lemma clean_recipient_blocks: "list_all clean_field (recipient_blocks rs)"
  by (induction rs rule: recipient_blocks.induct) (simp_all add: clean_recipient_fields)

lemma clean_status_lines: "list_all clean_field (status_lines d)"
  by (simp add: status_lines_def clean_recipient_blocks clean_parts CR_def LF_def)

lemma split_lines_text: "list_all clean_field ls \<Longrightarrow> split_byte LF (lines_text ls) = map (\<lambda>l. l @ [CR]) ls @ [[]]"
proof (induction ls)
  case (Cons l ls)
  have "LF \<notin> set (l @ [CR])" using Cons.prems by (auto simp: clean_field_def CR_def LF_def)
  from split_byte_append [OF this, of "lines_text ls"] show ?case using Cons by (simp add: lines_text_def crlf_def)
qed (simp add: lines_text_def)

definition fields_named :: "string \<Rightarrow> string list \<Rightarrow> nat" where
  "fields_named n ls = length (filter (\<lambda>l. HasPrefix l (n @ '':'')) ls)"

lemma fields_named_simps [simp]:
  "fields_named n (ks @ ls) = fields_named n ks + fields_named n ls" "fields_named n [] = 0"
  "fields_named n (l # ls) = (if HasPrefix l (n @ '':'') then 1 else 0) + fields_named n ls"
  by (simp_all add: fields_named_def)

lemma fields_named_recipient:
  "fields_named ''Final-Recipient'' (recipient_fields r) = 1" "fields_named ''Action'' (recipient_fields r) = 1"
  by (simp_all add: recipient_fields_def HasPrefix_def split: option.splits)

lemma fields_named_blocks:
  "fields_named ''Final-Recipient'' (recipient_blocks rs) = length rs" "fields_named ''Action'' (recipient_blocks rs) = length rs"
  by (induction rs rule: recipient_blocks.induct) (simp_all add: fields_named_recipient HasPrefix_def)

lemma fields_named_status:
  "fields_named ''Final-Recipient'' (status_lines d) = length (dn_Recipients d)"
  "fields_named ''Action'' (status_lines d) = length (dn_Recipients d)"
  by (simp_all add: status_lines_def fields_named_blocks HasPrefix_def)

text \<open>
  (C14) Whatever the remote server, the recipients and the configuration put into a notification, its
  delivery-status part read back line by line is exactly the list of its fields: no field contains a
  line break or a NUL, and there is exactly one Final-Recipient and one Action per recipient.
\<close>

theorem dsn_no_injection:
  "split_byte LF (lines_text (status_lines d)) = map (\<lambda>l. l @ [CR]) (status_lines d) @ [[]] \<and>
   list_all clean_field (status_lines d) \<and>
   fields_named ''Final-Recipient'' (status_lines d) = length (dn_Recipients d) \<and>
   fields_named ''Action'' (status_lines d) = length (dn_Recipients d)"
  by (intro conjI split_lines_text clean_status_lines fields_named_status)

section \<open>Bounces do not loop\<close>

lemma bounce_envelope_null: "BounceEnvelope m = Inr e \<Longrightarrow> env_MailFrom e = ''<>'' \<and> env_Recipients e = [TrimSpace m]"
  by (auto simp: BounceEnvelope_def Let_def split: if_splits)

text \<open>
  No bounce of a bounce: the envelope of a notification always has the null reverse path, and for
  a message with that reverse path no notification is ever generated and no envelope built.
\<close>

theorem bounce_no_loop:
  assumes "BounceEnvelope originalMailFrom = Inr e"
  shows "ShouldGenerate (env_MailFrom e) f = Inl BErrOriginalSenderNull \<and>
    BounceEnvelope (env_MailFrom e) = Inl BErrOriginalSenderNull"
proof -
  have "TrimSpace ''<>'' = ''<>''" by code_simp
  then show ?thesis using bounce_envelope_null [OF assms] by (simp add: ShouldGenerate_def BounceEnvelope_def IsNullReversePath_def)
qed

theorem bounce_no_loop_witness: "BounceEnvelope ''<>'' = Inl BErrOriginalSenderNull"
proof -
  have e: "BounceEnvelope ''<a@b.c>'' = Inr \<lparr>env_MailFrom = ''<>'', env_Recipients = [''<a@b.c>'']\<rparr>" by code_simp
  from bounce_no_loop [OF e] show ?thesis by simp
qed

end
