(* ===== verification/Suppression.thy ===== *)
theory Suppression
  imports Prelude
begin

text \<open>
  The suppression policy of \<^verbatim>\<open>internal/suppression\<close>: the one function that derives a suppression
  key from an address (\<^verbatim>\<open>address.go\<close>), and the vocabulary and the rule for automatic suppression
  (\<^verbatim>\<open>model.go\<close>).
\<close>

section \<open>Addresses\<close>

definition maxAddressBytes :: nat where "maxAddressBytes = 254"
definition maxLocalBytes :: nat where "maxLocalBytes = 64"
definition maxDomainBytes :: nat where "maxDomainBytes = 253"

definition atext_specials :: string where "atext_specials = ''!#$%&'' @ [CHR 0x27] @ ''*+-/=?^_`{|}~''"

fun double_dot :: "string \<Rightarrow> bool" where
  "double_dot (a # b # s) \<longleftrightarrow> (a = CHR ''.'' \<and> b = CHR ''.'') \<or> double_dot (b # s)"
| "double_dot _ \<longleftrightarrow> False"

definition local_byte :: "char \<Rightarrow> bool" where
  "local_byte c \<longleftrightarrow> is_lower c \<or> is_upper c \<or> is_digit c \<or> c = CHR ''.'' \<or> c \<in> set atext_specials"

definition validLocal :: "string \<Rightarrow> bool" where
  "validLocal l \<longleftrightarrow> \<not> (l = [] \<or> length l > maxLocalBytes \<or> hd l = CHR ''.'' \<or> last l = CHR ''.'' \<or> double_dot l) \<and>
     list_all local_byte l"

definition domain_byte :: "char \<Rightarrow> bool" where
  "domain_byte c \<longleftrightarrow> is_lower c \<or> is_digit c \<or> c = CHR ''-''"

definition valid_label :: "string \<Rightarrow> bool" where
  "valid_label l \<longleftrightarrow> \<not> (l = [] \<or> length l > 63 \<or> hd l = CHR ''-'' \<or> last l = CHR ''-'') \<and> list_all domain_byte l"

definition validDomain :: "string \<Rightarrow> bool" where
  "validDomain d \<longleftrightarrow> d \<noteq> [] \<and> length d \<le> maxDomainBytes \<and>
     \<not> list_all is_digit (last (split_byte (CHR ''.'') d)) \<and>
     list_all valid_label (split_byte (CHR ''.'') d)"

text \<open>
  \<^verbatim>\<open>mail.ParseAddress\<close> on a string of printable ASCII bytes: it yields the string itself, with no
  display name, for an RFC 5322 addr-spec of two dot-atoms. (Quoted local parts and domain literals
  are addr-specs too; \<^verbatim>\<open>validLocal\<close> and \<^verbatim>\<open>validDomain\<close> refuse them in any case.)
\<close>

definition dot_atom :: "string \<Rightarrow> bool" where
  "dot_atom s \<longleftrightarrow> s \<noteq> [] \<and> hd s \<noteq> CHR ''.'' \<and> last s \<noteq> CHR ''.'' \<and> \<not> double_dot s \<and> list_all local_byte s"

definition bare_addr_spec :: "string \<Rightarrow> bool" where
  "bare_addr_spec s =
     (case IndexByte s (CHR ''@'') of
        None \<Rightarrow> False
      | Some at \<Rightarrow> dot_atom (take at s) \<and> dot_atom (drop (Suc at) s))"

definition strip_envelope :: "string \<Rightarrow> string" where
  "strip_envelope raw =
     (let s = TrimSpace raw;
          s1 = (if length s \<ge> 2 \<and> hd s = CHR ''<'' \<and> last s = CHR ''>'' then butlast (tl s) else s)
      in if HasSuffix s1 ''.'' then butlast s1 else s1)"

definition Normalize :: "unicode \<Rightarrow> string \<Rightarrow> string option" where
  "Normalize U raw =
     (let s = strip_envelope raw
      in if s = [] \<or> length s > maxAddressBytes then None
         else if list_ex (\<lambda>c. byte c \<le> 0x20 \<or> byte c \<ge> 0x7f) s then None
         else if \<not> bare_addr_spec s then None
         else case LastIndexByte s (CHR ''@'') of
             None \<Rightarrow> None
           | Some at \<Rightarrow>
               if at = 0 \<or> at = length s - 1 \<or> count_list s (CHR ''@'') \<noteq> 1 then None
               else let local = take at s; domain = ToLower U (drop (Suc at) s)
                    in if \<not> validLocal local \<or> \<not> validDomain domain then None
                       else Some (ToLower U local @ ''@'' @ domain))"

section \<open>Vocabulary and the hard-bounce rule\<close>

datatype reason = ReasonManual | ReasonHardBounce | ReasonComplaint | ReasonUnsubscribe
datatype source = SourceAPI | SourceDelivery | SourceFeedback

definition reason_text :: "reason \<Rightarrow> string" where
  "reason_text r = (case r of ReasonManual \<Rightarrow> ''manual'' | ReasonHardBounce \<Rightarrow> ''hard_bounce''
     | ReasonComplaint \<Rightarrow> ''complaint'' | ReasonUnsubscribe \<Rightarrow> ''unsubscribe'')"

definition source_text :: "source \<Rightarrow> string" where
  "source_text s = (case s of SourceAPI \<Rightarrow> ''api'' | SourceDelivery \<Rightarrow> ''delivery'' | SourceFeedback \<Rightarrow> ''feedback'')"

definition ParseAPIReason :: "string \<Rightarrow> reason option" where
  "ParseAPIReason s = (if s = [] \<or> s = reason_text ReasonManual then Some ReasonManual else None)"

definition Reason_Valid :: "string \<Rightarrow> bool" where
  "Reason_Valid r \<longleftrightarrow> r \<in> reason_text ` {ReasonManual, ReasonHardBounce, ReasonComplaint, ReasonUnsubscribe}"

definition Source_Valid :: "string \<Rightarrow> bool" where
  "Source_Valid s \<longleftrightarrow> s \<in> source_text ` {SourceAPI, SourceDelivery, SourceFeedback}"

definition HardBounceStage :: string where "HardBounceStage = ''rcpt_to''"

definition QualifiesHardBounce :: "string \<Rightarrow> bool \<Rightarrow> bool \<Rightarrow> int \<Rightarrow> string \<Rightarrow> string \<Rightarrow> bool" where
  "QualifiesHardBounce stage permanent accepted code enhanced recipient =
     (if \<not> permanent \<or> accepted \<or> recipient = [] \<or> stage \<noteq> HardBounceStage \<or> code < 500 \<or> code > 599 then False
      else enhanced = ''5.1.1'' \<or> enhanced = ''5.1.6'')"

definition hardBounceEnhancedStatuses :: "string list" where
  "hardBounceEnhancedStatuses = [''5.1.1'', ''5.1.6'']"

definition QualifiesAsyncHardBounce :: "string \<Rightarrow> bool" where
  "QualifiesAsyncHardBounce enhanced \<longleftrightarrow> enhanced \<in> set hardBounceEnhancedStatuses"

section \<open>Keys are the lower-cased address\<close>

lemma space_lower:
  "space2 (lower_byte a) (lower_byte b) = space2 a b" "space3 (lower_byte a) (lower_byte b) (lower_byte c) = space3 a b c"
proof -
  have "byte (lower_byte c) \<le> 138 \<longleftrightarrow> byte c \<le> 138 " for c
    using lower_byte_low(1) [of 139 c] by linarith
  then show "space2 (lower_byte a) (lower_byte b) = space2 a b"
    "space3 (lower_byte a) (lower_byte b) (lower_byte c) = space3 a b c"
    by (simp_all add: space2_def space3_def lower_byte_high lower_byte_low)
qed

lemma trim_left_lower: "trim_left (map lower_byte s) = map lower_byte (trim_left s)"
  by (induction s rule: trim_left.induct) (auto simp: lower_byte_range space_lower)

lemma trim_left_rev_lower: "trim_left_rev (map lower_byte s) = map lower_byte (trim_left_rev s)"
  by (induction s rule: trim_left_rev.induct) (auto simp: lower_byte_range space_lower)

lemma TrimSpace_lower: "TrimSpace (map lower_byte s) = map lower_byte (TrimSpace s)"
  by (simp add: TrimSpace_def trim_right_def trim_left_lower trim_left_rev_lower rev_map)

lemma lower_byte_punct:
  "lower_byte c = CHR ''.'' \<longleftrightarrow> c = CHR ''.''" "lower_byte c = CHR ''<'' \<longleftrightarrow> c = CHR ''<''"
  "lower_byte c = CHR ''>'' \<longleftrightarrow> c = CHR ''>''" "lower_byte c = CHR ''-'' \<longleftrightarrow> c = CHR ''-''"
  by (rule lower_byte_fixed; simp add: is_upper_def is_lower_def)+

lemma HasSuffix_dot: "HasSuffix s ''.'' \<longleftrightarrow> s \<noteq> [] \<and> last s = CHR ''.''"
  by (cases s rule: rev_cases) (auto simp: HasSuffix_def)

lemma hd_last_lower:
  "s \<noteq> [] \<Longrightarrow> hd (map lower_byte s) = lower_byte (hd s)" "s \<noteq> [] \<Longrightarrow> last (map lower_byte s) = lower_byte (last s)"
  by (simp_all add: hd_map last_map)

lemma strip_envelope_lower: "strip_envelope (map lower_byte r) = map lower_byte (strip_envelope r)"
proof -
  have strip: "(if HasSuffix (map lower_byte s) ''.'' then butlast (map lower_byte s) else map lower_byte s) =
      map lower_byte (if HasSuffix s ''.'' then butlast s else s)" for s
    by (cases "s = []") (auto simp: HasSuffix_dot hd_last_lower lower_byte_punct map_butlast)
  have br: "(if length (map lower_byte s) \<ge> 2 \<and> hd (map lower_byte s) = CHR ''<'' \<and> last (map lower_byte s) = CHR ''>''
        then butlast (tl (map lower_byte s)) else map lower_byte s) =
      map lower_byte (if length s \<ge> 2 \<and> hd s = CHR ''<'' \<and> last s = CHR ''>'' then butlast (tl s) else s)" for s
    by (cases "s = []") (auto simp: hd_last_lower lower_byte_punct map_butlast map_tl)
  show ?thesis unfolding strip_envelope_def Let_def TrimSpace_lower br strip by simp
qed

lemma double_dot_lower: "double_dot (map lower_byte s) = double_dot s"
  by (induction s rule: double_dot.induct) (auto simp: lower_byte_punct)

lemma specials_not_letters: "c \<in> set atext_specials \<Longrightarrow> \<not> is_upper c \<and> \<not> is_lower c"
  by (auto simp: atext_specials_def is_upper_def is_lower_def)

lemma local_byte_lower: "local_byte (lower_byte c) = local_byte c"
proof (cases "is_upper c")
  case True
  then show ?thesis using lower_byte_cases [of c] by (auto simp: local_byte_def lower_byte_def)
next
  case False
  then have "lower_byte c = c" using lower_byte_cases [of c] by blast
  then show ?thesis by simp
qed

lemma list_all_lower: "(\<And>c. P (lower_byte c) = P c) \<Longrightarrow> list_all P (map lower_byte s) = list_all P s"
  by (induction s) auto

lemma validLocal_lower: "validLocal (map lower_byte s) = validLocal s"
  by (cases "s = []") (auto simp: validLocal_def hd_last_lower lower_byte_punct double_dot_lower list_all_lower local_byte_lower)

lemma dot_atom_lower: "dot_atom (map lower_byte s) = dot_atom s"
  by (cases "s = []") (auto simp: dot_atom_def hd_last_lower lower_byte_punct double_dot_lower list_all_lower local_byte_lower)

lemma IndexByte_lower: "IndexByte (map lower_byte s) (CHR ''@'') = IndexByte s (CHR ''@'')"
  by (induction s) (auto simp: lower_byte_at)

lemma LastIndexByte_lower: "LastIndexByte (map lower_byte s) (CHR ''@'') = LastIndexByte s (CHR ''@'')"
  by (induction s) (auto simp: lower_byte_at split: option.splits)

lemma bare_addr_spec_lower: "bare_addr_spec (map lower_byte s) = bare_addr_spec s"
  by (auto simp: bare_addr_spec_def IndexByte_lower take_map drop_map dot_atom_lower split: option.splits)

lemma count_at_lower: "count_list (map lower_byte s) (CHR ''@'') = count_list s (CHR ''@'')"
  by (induction s) (auto simp: lower_byte_at)

lemma printable_lower:
  "list_ex (\<lambda>c. byte c \<le> 0x20 \<or> byte c \<ge> 0x7f) (map lower_byte s) = list_ex (\<lambda>c. byte c \<le> 0x20 \<or> byte c \<ge> 0x7f) s"
  by (induction s) (auto simp: lower_byte_range)

lemma LastIndexByte_split: "LastIndexByte s b = Some at \<Longrightarrow> at < length s \<and> s = take at s @ b # drop (Suc at) s"
  by (induction s arbitrary: at) (auto split: option.splits if_splits)

definition printable :: "string \<Rightarrow> bool" where
  "printable s \<longleftrightarrow> list_all (\<lambda>c. 0x21 \<le> byte c \<and> byte c < 0x7f) s"

lemma printable_iff: "\<not> list_ex (\<lambda>c. byte c \<le> 0x20 \<or> byte c \<ge> 0x7f) s \<longleftrightarrow> printable s"
  by (auto simp: printable_def list_ex_iff list_all_iff not_le)

lemma ToLower_printable: "printable s \<Longrightarrow> ToLower U s = map lower_byte s"
  by (auto simp: printable_def ToLower_def ascii_def list_all_iff)

text \<open>The acceptance test of \<^verbatim>\<open>Normalize\<close> on the stripped address.\<close>

definition key_ok :: "string \<Rightarrow> bool" where
  "key_ok s \<longleftrightarrow> s \<noteq> [] \<and> length s \<le> maxAddressBytes \<and> printable s \<and> bare_addr_spec s \<and> count_list s (CHR ''@'') = 1 \<and>
     (case LastIndexByte s (CHR ''@'') of None \<Rightarrow> False
      | Some at \<Rightarrow> at \<noteq> 0 \<and> at \<noteq> length s - 1 \<and> validLocal (take at s) \<and> validDomain (map lower_byte (drop (Suc at) s)))"

lemma key_ok_lower: "key_ok (map lower_byte s) = key_ok s"
  unfolding key_ok_def LastIndexByte_lower count_at_lower bare_addr_spec_lower
  using printable_lower [of s] unfolding printable_iff [symmetric]
  by (auto simp: take_map drop_map validLocal_lower comp_def split: option.splits)

lemma Normalize_key:
  "Normalize U raw = (let s = strip_envelope raw in if key_ok s then Some (map lower_byte s) else None)"
proof -
  define s where "s = strip_envelope raw"
  show ?thesis
  proof (cases "s \<noteq> [] \<and> length s \<le> maxAddressBytes \<and> printable s \<and> bare_addr_spec s \<and> LastIndexByte s (CHR ''@'') \<noteq> None")
    case False
    then show ?thesis
      unfolding Normalize_def Let_def s_def [symmetric] key_ok_def printable_iff [symmetric] by (auto split: option.splits)
  next
    case True
    then obtain at where at: "LastIndexByte s (CHR ''@'') = Some at" by auto
    note sp = LastIndexByte_split [OF at]
    have pr: "printable (take at s)" "printable (drop (Suc at) s)"
      using True by (auto simp: printable_def list_all_iff dest: in_set_takeD in_set_dropD)
    have "map lower_byte s = map lower_byte (take at s) @ ''@'' @ map lower_byte (drop (Suc at) s)"
      using arg_cong [OF conjunct2 [OF sp], of "map lower_byte"] lower_byte_at by simp
    then show ?thesis using True at unfolding Normalize_def Let_def s_def [symmetric] key_ok_def
      using printable_iff [of s] by (simp add: ToLower_printable [OF pr(1)] ToLower_printable [OF pr(2)])
  qed
qed

lemma key_ok_ends:
  assumes "key_ok s"
  shows "hd s \<noteq> CHR ''<''" "\<not> HasSuffix s ''.''" "TrimSpace s = s"
proof -
  from assms obtain at where at: "LastIndexByte s (CHR ''@'') = Some at" "at \<noteq> 0"
    and v: "validLocal (take at s)" "validDomain (map lower_byte (drop (Suc at) s))" and pr: "printable s"
    by (auto simp: key_ok_def split: option.splits)
  note sp = LastIndexByte_split [OF at(1)]
  have "hd s = hd (take at s)" using at(2) by simp
  moreover have "local_byte (hd (take at s))" using v(1) by (cases "take at s") (auto simp: validLocal_def)
  ultimately have lb: "local_byte (hd s)" by simp
  then show "hd s \<noteq> CHR ''<''" by (auto simp: local_byte_def atext_specials_def is_lower_def is_upper_def is_digit_def)
  have dne: "drop (Suc at) s \<noteq> []" using v(2) by (auto simp: validDomain_def)
  have "last s = last (drop (Suc at) s)" using dne by (simp add: last_drop)
  moreover have "\<not> HasSuffix (map lower_byte (drop (Suc at) s)) [CHR ''.'']"
    using v(2) split_byte_suffix by (fastforce simp: validDomain_def list_all_iff valid_label_def)
  ultimately show "\<not> HasSuffix s ''.''" using dne by (simp add: HasSuffix_dot hd_last_lower lower_byte_punct)
  show "TrimSpace s = s" using pr by (simp add: printable_def TrimSpace_printable)
qed

lemma strip_envelope_key:
  assumes "key_ok s"
  shows "strip_envelope s = s" "strip_envelope (''<'' @ s @ ''>'') = s"
proof -
  note ends = key_ok_ends [OF assms]
  show "strip_envelope s = s" using ends by (simp add: strip_envelope_def)
  have "list_all (\<lambda>c. 0x21 \<le> byte c \<and> byte c < 0x7f) (''<'' @ s @ ''>'')"
    using assms by (simp add: key_ok_def printable_def)
  from TrimSpace_printable [OF this] ends(2) show "strip_envelope (''<'' @ s @ ''>'') = s"
    by (simp add: strip_envelope_def)
qed

text \<open>
  A suppression key is canonical: it is its own key, the key of its bracketed envelope form, and
  the lower-cased address with exactly one at sign, at most 254 printable bytes.
\<close>

theorem suppression_key_canonical:
  assumes "Normalize U raw = Some k"
  shows "Normalize U k = Some k \<and> Normalize U (''<'' @ k @ ''>'') = Some k \<and> k = map lower_byte k \<and>
    count_list k (CHR ''@'') = 1 \<and> length k \<le> maxAddressBytes \<and> printable k"
proof -
  have k: "key_ok (strip_envelope raw)" "k = map lower_byte (strip_envelope raw)"
    using assms by (auto simp: Normalize_key Let_def split: if_splits)
  then have ok: "key_ok k" by (simp add: key_ok_lower)
  have low: "map lower_byte k = k" by (simp add: k(2))
  show ?thesis using ok low strip_envelope_key [OF ok]
    by (simp add: Normalize_key Let_def) (simp add: key_ok_def)
qed

theorem suppression_key_canonical_witness:
  "Normalize plain_unicode '' <John.Smith+x@Example.COM.> '' = Some ''john.smith+x@example.com'' \<and>
   Normalize plain_unicode ''<john.smith+x@example.com>'' = Some ''john.smith+x@example.com''"
proof -
  have k: "Normalize plain_unicode '' <John.Smith+x@Example.COM.> '' = Some ''john.smith+x@example.com''" by code_simp
  then show ?thesis using suppression_key_canonical [OF k] by simp
qed

text \<open>
  Two addresses have the same suppression key exactly when, stripped of white space, brackets and
  one trailing root dot, they are equal up to the case of ASCII letters: a suppressed recipient cannot be
  reached by changing case, and no two other addresses (dots, plus tags) are ever taken for one.
\<close>

theorem suppression_key_equal_iff:
  assumes "Normalize U r = Some k"
  shows "Normalize U r' = Some k \<longleftrightarrow> map lower_byte (strip_envelope r') = map lower_byte (strip_envelope r)"
  using assms key_ok_lower [of "strip_envelope r"] key_ok_lower [of "strip_envelope r'"]
  by (auto simp: Normalize_key Let_def split: if_splits)

theorem suppression_key_equal_iff_witness:
  "Normalize plain_unicode ''<JOHN@b.co>'' = Some ''john@b.co'' \<and> Normalize plain_unicode ''j.ohn@b.co'' \<noteq> Some ''john@b.co''"
proof -
  have k: "Normalize plain_unicode ''john@b.co'' = Some ''john@b.co''" by code_simp
  have e: "map lower_byte (strip_envelope ''<JOHN@b.co>'') = map lower_byte (strip_envelope ''john@b.co'')"
    "map lower_byte (strip_envelope ''j.ohn@b.co'') \<noteq> map lower_byte (strip_envelope ''john@b.co'')" by code_simp+
  then show ?thesis using suppression_key_equal_iff [OF k] by blast
qed

section \<open>The hard-bounce rule\<close>

lemma hard_bounce_agree: "QualifiesHardBounce st p a c e r \<Longrightarrow> QualifiesAsyncHardBounce e"
  by (auto simp: QualifiesHardBounce_def QualifiesAsyncHardBounce_def hardBounceEnhancedStatuses_def split: if_splits)

lemma ParseAPIReason_manual: "ParseAPIReason s = Some r \<Longrightarrow> r = ReasonManual"
  by (auto simp: ParseAPIReason_def split: if_splits)

end
