(* ===== verification/Worker.thy ===== *)
theory Worker
  imports Bounce Suppression Queue_Contract
begin

text \<open>
  The worker pool of \<^verbatim>\<open>internal/worker\<close>: what one worker does with one claimed job
  (\<^verbatim>\<open>processor.go\<close>, \<^verbatim>\<open>routing.go\<close>, \<^verbatim>\<open>suppression.go\<close>, \<^verbatim>\<open>permits.go\<close>), the cache of retry states
  (\<^verbatim>\<open>state_store.go\<close>) and the worker loop (\<^verbatim>\<open>worker.go\<close>). Queue, stores, loader, permits, clock and
  remote hosts answer from a record \<open>wworld\<close>; what the worker does to them is a trace of effects,
  in the order of the calls. Logging and metrics have no effect on either.
\<close>

section \<open>The boundary\<close>

record durableState =
  du_RetryState :: "rstate option"
  du_Terminal :: bool
  du_NextRetryAt :: "gotime option"
  du_SendingMemberID :: "string option"

record storedMessage =
  sm_MailFrom :: string
  sm_RcptTo :: "string list"
  sm_Raw :: string

datatype storeAnswer = StoreOk | AlreadyTerminal | StoreError

record persistRound =
  pr_ctxBefore :: bool
  pr_renewed :: bool
  pr_answer :: storeAnswer
  pr_ctxWait :: bool

record permitGate =
  pg_tenant :: "string option option"
  pg_acquire :: "string \<Rightarrow> bool option"
  pg_tenantKey :: "string \<Rightarrow> string"
  pg_destinationKey :: "string \<Rightarrow> string"

text \<open>
  \<open>None\<close> for a gate: the outcome store does not implement the interface. \<open>pg_tenant = None\<close> likewise;
  \<open>Some None\<close> is a failed lookup. \<open>None\<close> as an answer is an error. \<open>ww_nowDue\<close>, \<open>ww_nowAttempt\<close> and
  \<open>ww_nowEnd\<close> are the readings of the clock at the three places a run can read it.
\<close>

record wworld =
  ww_load :: "durableState option"
  ww_registry :: "(string \<Rightarrow> bool) option"
  ww_routing :: "(string \<Rightarrow> bool option) option"
  ww_message :: "storedMessage option"
  ww_suppressed :: "(string list \<Rightarrow> (string \<times> bool) list option) option"
  ww_recordSuppressed :: storeAnswer
  ww_permits :: "permitGate option"
  ww_ctxDone :: bool
  ww_deliver :: "engineRequest \<Rightarrow> delivered"
  ww_persist :: "persistRound list"
  ww_ackOk :: bool
  ww_releaseOk :: bool
  ww_nowDue :: gotime
  ww_nowAttempt :: gotime
  ww_nowEnd :: gotime

datatype effect =
    Smtp engineRequest string \<comment> \<open>one delivery operation, with the pool member\<close>
  | Renew bool
  | Persist deliveryAttempt outcome storeAnswer
  | RecordSuppressed "string list" bool storeAnswer
  | Acquired string
  | Freed string
  | AckJob bool
  | ReleaseJob gotime bool
  | DropState
  | MadeDSN string

record permitPolicy =
  pp_TenantLimit :: int
  pp_DestinationLimit :: int
  pp_TTL :: duration
  pp_JitterPercent :: int
  pp_Deferral :: duration

record pool =
  po_coordinator :: coordinator
  po_reportingMTA :: string
  po_permitPolicy :: permitPolicy
  po_boundary :: string

record poolConfig =
  pc_Workers :: int
  pc_ReportingMTA :: string

datatype pool_error = PErrNilQueue | PErrNilLoader | PErrNilCoordinator | PErrNilOutcomes | PErrInvalidWorkerCount

definition NewPool ::
  "bool \<Rightarrow> bool \<Rightarrow> coordinator option \<Rightarrow> bool \<Rightarrow> poolConfig \<Rightarrow> permitPolicy \<Rightarrow> string \<Rightarrow> pool_error + pool" where
  "NewPool hasQueue hasLoader coord hasOutcomes cfg pol boundary =
     (if \<not> hasQueue then Inl PErrNilQueue
      else if \<not> hasLoader then Inl PErrNilLoader
      else case coord of
          None \<Rightarrow> Inl PErrNilCoordinator
        | Some c \<Rightarrow>
            if \<not> hasOutcomes then Inl PErrNilOutcomes
            else if pc_Workers cfg \<le> 0 then Inl PErrInvalidWorkerCount
            else Inr \<lparr>po_coordinator = c,
              po_reportingMTA = (if pc_ReportingMTA cfg = [] then ''mailx.local'' else pc_ReportingMTA cfg),
              po_permitPolicy = pol, po_boundary = boundary\<rparr>)"

section \<open>The cache of retry states\<close>

type_synonym states = "string \<Rightarrow> rstate option"

definition st_get :: "states \<Rightarrow> string \<Rightarrow> rstate \<times> states" where
  "st_get states jobID = (case states jobID of Some st \<Rightarrow> (st, states) | None \<Rightarrow> ([], states(jobID \<mapsto> [])))"

definition getOrSet :: "states \<Rightarrow> string \<Rightarrow> rstate option \<Rightarrow> rstate \<times> states" where
  "getOrSet states jobID init =
     (case states jobID of
        Some state \<Rightarrow> (state, states)
      | None \<Rightarrow> let i = (case init of None \<Rightarrow> [] | Some s \<Rightarrow> s) in (i, states(jobID \<mapsto> i)))"

definition st_lookup :: "states \<Rightarrow> string \<Rightarrow> rstate option" where
  "st_lookup states jobID = states jobID"

definition st_delete :: "states \<Rightarrow> string \<Rightarrow> states" where
  "st_delete states jobID = states(jobID := None)"

section \<open>Settling a claim\<close>

definition release :: "wworld \<Rightarrow> gotime \<Rightarrow> effect list" where
  "release w availableAt = [ReleaseJob availableAt (ww_releaseOk w)]"

text \<open>\<^verbatim>\<open>if p.ack(c) { p.states.delete(c.Job.ID) }\<close>\<close>

definition ack_and_drop :: "wworld \<Rightarrow> effect list" where
  "ack_and_drop w = AckJob (ww_ackOk w) # (if ww_ackOk w then [DropState] else [])"

section \<open>Gates before any SMTP\<close>

definition memberDisabledHold :: duration where "memberDisabledHold = 30 * second"

definition holdIfMemberDisabled :: "wworld \<Rightarrow> string \<Rightarrow> effect list option" where
  "holdIfMemberDisabled w memberID =
     (let hold = Some (release w (ww_nowEnd w + memberDisabledHold))
      in if (case ww_registry w of None \<Rightarrow> False | Some known \<Rightarrow> \<not> known memberID) then hold
         else case ww_routing w of
             None \<Rightarrow> None
           | Some gate \<Rightarrow>
               (case gate memberID of
                  None \<Rightarrow> hold
                | Some enabled \<Rightarrow> if \<not> enabled then hold else None))"

definition suppressionDeferral :: duration where "suppressionDeferral = 15 * second"

definition is_suppressed :: "unicode \<Rightarrow> (string \<times> bool) list \<Rightarrow> string \<Rightarrow> bool" where
  "is_suppressed U supp r =
     (case Normalize U r of
        None \<Rightarrow> False
      | Some k \<Rightarrow> (case map_of supp k of None \<Rightarrow> False | Some b \<Rightarrow> b))"

text \<open>The effects, and the recipients that may still be delivered; \<open>None\<close>: the job was handled.\<close>

definition enforceSuppression :: "unicode \<Rightarrow> wworld \<Rightarrow> string list \<Rightarrow> effect list \<times> string list option" where
  "enforceSuppression U w recipients =
     (case ww_suppressed w of
        None \<Rightarrow> ([], Some recipients)
      | Some gate \<Rightarrow>
          let keys = List.map_filter (Normalize U) recipients
          in case gate keys of
               None \<Rightarrow> (release w (ww_nowEnd w + suppressionDeferral), None)
             | Some suppressed \<Rightarrow>
                 if suppressed = [] then ([], Some recipients)
                 else
                   let deliverable = filter (\<lambda>r. \<not> is_suppressed U suppressed r) recipients;
                       all = (deliverable = []);
                       rec = RecordSuppressed (map fst suppressed) all (ww_recordSuppressed w)
                   in case ww_recordSuppressed w of
                        AlreadyTerminal \<Rightarrow> (rec # ack_and_drop w, None)
                      | StoreError \<Rightarrow> (rec # release w (ww_nowEnd w + suppressionDeferral), None)
                      | StoreOk \<Rightarrow> if all then (rec # ack_and_drop w, None) else ([rec], Some deliverable))"

definition permitDeferral :: duration where "permitDeferral = 5 * second"
definition permitUnknownDeferral :: duration where "permitUnknownDeferral = 15 * second"

definition deferForPermit :: "pool \<Rightarrow> wworld \<Rightarrow> claim \<Rightarrow> duration \<Rightarrow> effect list" where
  "deferForPermit p w c base0 =
     (let base = (if base0 = permitDeferral \<and> pp_Deferral (po_permitPolicy p) > 0 then pp_Deferral (po_permitPolicy p) else base0);
          now = ww_nowEnd w;
          delay = Jitter \<lparr>bp_Schedule = [], bp_Base = base, bp_Max = hour, bp_JitterPercent = pp_JitterPercent (po_permitPolicy p)\<rparr>
            base (wrap64 (UnixNano now + int (length (job_ID (cl_Job c)))))
      in release w (now + delay))"

text \<open>The effects, and the held keys when the attempt may proceed.\<close>

definition acquirePermits :: "pool \<Rightarrow> wworld \<Rightarrow> claim \<Rightarrow> string \<Rightarrow> effect list \<times> string list option" where
  "acquirePermits p w c domain =
     (case ww_permits w of
        None \<Rightarrow> ([], Some [])
      | Some g \<Rightarrow>
          let destination = (\<lambda>effs held.
                let dkey = pg_destinationKey g domain
                in case pg_acquire g dkey of
                     None \<Rightarrow> (effs @ map Freed held @ deferForPermit p w c permitUnknownDeferral, None)
                   | Some False \<Rightarrow> (effs @ map Freed held @ deferForPermit p w c permitDeferral, None)
                   | Some True \<Rightarrow> (effs @ [Acquired dkey], Some (held @ [dkey])))
          in case pg_tenant g of
               None \<Rightarrow> destination [] []
             | Some None \<Rightarrow> (deferForPermit p w c permitUnknownDeferral, None)
             | Some (Some tenant) \<Rightarrow>
                 let tkey = pg_tenantKey g tenant
                 in case pg_acquire g tkey of
                      None \<Rightarrow> (deferForPermit p w c permitUnknownDeferral, None)
                    | Some False \<Rightarrow> (deferForPermit p w c permitDeferral, None)
                    | Some True \<Rightarrow> destination [Acquired tkey] [tkey])"

section \<open>After the attempt\<close>

text \<open>
  The persistence loop over the rounds it goes through; \<open>None\<close> is the run that ends inside the loop,
  with the process.
\<close>

fun persist_loop :: "wworld \<Rightarrow> deliveryAttempt \<Rightarrow> outcome \<Rightarrow> bool \<Rightarrow> persistRound list \<Rightarrow> effect list \<times> bool option" where
  "persist_loop w a oc isFirst [] = ([], None)"
| "persist_loop w a oc isFirst (r # rs) =
     (if \<not> isFirst \<and> pr_ctxBefore r then ([], Some False)
      else
        let effs = [Renew (pr_renewed r), Persist a oc (pr_answer r)]
        in case pr_answer r of
             StoreOk \<Rightarrow> (effs, Some True)
           | AlreadyTerminal \<Rightarrow> (effs @ ack_and_drop w, Some False)
           | StoreError \<Rightarrow>
               if pr_ctxWait r then (effs, Some False)
               else (case persist_loop w a oc False rs of (effs1, res) \<Rightarrow> (effs @ effs1, res)))"

definition persistOutcome :: "wworld \<Rightarrow> deliveryAttempt \<Rightarrow> outcome \<Rightarrow> effect list \<times> bool option" where
  "persistOutcome w a oc = persist_loop w a oc True (ww_persist w)"

definition handleAttemptError :: "wworld \<Rightarrow> retry_error \<Rightarrow> effect list" where
  "handleAttemptError w err =
     (if err = ErrNotRetryable \<or> err = ErrRetryExhausted then ack_and_drop w else release w (ww_nowEnd w))"

definition handleTerminalFailure :: "pool \<Rightarrow> wworld \<Rightarrow> storedMessage \<Rightarrow> rstate \<Rightarrow> lifecycleStatus \<Rightarrow> string \<Rightarrow> effect list" where
  "handleTerminalFailure p w msg state status jobID =
     (case Classify (Some state) status of
        Inl _ \<Rightarrow> []
      | Inr failure \<Rightarrow>
          (case ShouldGenerate (sm_MailFrom msg) failure of
             Inl _ \<Rightarrow> []
           | Inr eligible \<Rightarrow>
               if \<not> eligible then []
               else (case NewDSN failure (sm_RcptTo msg) (po_reportingMTA p) jobID (ww_nowEnd w) of
                       Inl _ \<Rightarrow> []
                     | Inr d \<Rightarrow>
                         (case Generate (po_boundary p) d
                             \<lparr>mo_From = ''MailX Mailer Daemon <postmaster@'' @ po_reportingMTA p @ ''>'', mo_To = sm_MailFrom msg,
                              mo_Subject = [], mo_MessageID = [], mo_Date = ww_nowEnd w, mo_OriginalHeaders = []\<rparr> of
                            Inl _ \<Rightarrow> []
                          | Inr text \<Rightarrow> [MadeDSN text]))))"

definition recipientDomain :: "string list \<Rightarrow> string option" where
  "recipientDomain recipients =
     (case recipients of
        [] \<Rightarrow> None
      | r # _ \<Rightarrow>
          let addr = TrimSpace r
          in if \<not> HasPrefix addr ''<'' \<or> \<not> HasSuffix addr ''>'' \<or> length addr < 2 then None
             else let inner = take (length addr - 2) (drop 1 addr)
                  in case LastIndexByte inner (CHR ''@'') of
                       None \<Rightarrow> None
                     | Some at \<Rightarrow> if at = length inner - 1 then None else Some (drop (Suc at) inner))"

text \<open>From the persisted outcome to the settled claim.\<close>

definition settle :: "pool \<Rightarrow> wworld \<Rightarrow> storedMessage \<Rightarrow> rstate \<Rightarrow> outcome \<Rightarrow> string \<Rightarrow> effect list" where
  "settle p w msg state oc jobID =
     (case oc_Status oc of
        StatusSucceeded \<Rightarrow> ack_and_drop w
      | StatusFailed \<Rightarrow> handleTerminalFailure p w msg state StatusFailed jobID @ ack_and_drop w
      | StatusExhausted \<Rightarrow> handleTerminalFailure p w msg state StatusExhausted jobID @ ack_and_drop w
      | StatusRetryable \<Rightarrow>
          (case oc_Schedule oc of
             None \<Rightarrow> release w (ww_nowEnd w)
           | Some sch \<Rightarrow> release w (sd_NextRetryAt sch))
      | StatusEmpty \<Rightarrow> release w (ww_nowEnd w))"

text \<open>The delivery operation and what follows it: its effects and the job's retry state.\<close>

definition attempt_job ::
  "pool \<Rightarrow> wworld \<Rightarrow> string \<Rightarrow> storedMessage \<Rightarrow> rstate \<Rightarrow> engineRequest \<Rightarrow> string \<Rightarrow> effect list \<times> rstate" where
  "attempt_job p w jobID msg state req member =
     (case Attempt (po_coordinator p) (ww_ctxDone w) (ww_deliver w req) (ww_nowAttempt w) (Some state) of
        ((oc, err), state1) \<Rightarrow>
          let smtp = (if oc_Delivered oc = None then [] else [Smtp req member]);
              s1 = the state1
          in case err of
               Some e \<Rightarrow> (smtp @ handleAttemptError w e, s1)
             | None \<Rightarrow>
                 (case Latest s1 of
                    None \<Rightarrow> (smtp @ release w (ww_nowEnd w), s1)
                  | Some latest \<Rightarrow>
                      (case persistOutcome w latest oc of
                         (effs, persisted) \<Rightarrow>
                           (smtp @ effs @ (if persisted = Some True then settle p w msg s1 oc jobID else []), s1))))"

definition apply_drop :: "effect list \<Rightarrow> string \<Rightarrow> states \<Rightarrow> states" where
  "apply_drop effs jobID states = (if DropState \<in> set effs then st_delete states jobID else states)"

definition processOne :: "unicode \<Rightarrow> pool \<Rightarrow> wworld \<Rightarrow> claim \<Rightarrow> states \<Rightarrow> effect list \<times> states" where
  "processOne U p w c states =
     (let jobID = job_ID (cl_Job c);
          finish = (\<lambda>effs st. (effs, apply_drop effs jobID st))
      in case ww_load w of
           None \<Rightarrow> finish (release w (ww_nowEnd w)) states
         | Some durable \<Rightarrow>
             if du_Terminal durable then finish (ack_and_drop w) states
             else case (case du_NextRetryAt durable of Some t \<Rightarrow> if ww_nowDue w < t then Some t else None | None \<Rightarrow> None) of
                 Some t \<Rightarrow> finish (release w t) states
               | None \<Rightarrow>
                   (case (case du_SendingMemberID durable of None \<Rightarrow> None | Some m \<Rightarrow> holdIfMemberDisabled w m) of
                      Some held \<Rightarrow> finish held states
                    | None \<Rightarrow>
                        (case getOrSet states jobID (du_RetryState durable) of
                           (state, states1) \<Rightarrow>
                             (case ww_message w of
                                None \<Rightarrow> finish (release w (ww_nowEnd w)) states1
                              | Some msg \<Rightarrow>
                                  (case enforceSuppression U w (sm_RcptTo msg) of
                                     (effs, None) \<Rightarrow> finish effs states1
                                   | (effs, Some recipients) \<Rightarrow>
                                       (case recipientDomain recipients of
                                          None \<Rightarrow> finish (effs @ release w (ww_nowEnd w)) states1
                                        | Some domain \<Rightarrow>
                                            (case acquirePermits p w c domain of
                                               (peffs, None) \<Rightarrow> finish (effs @ peffs) states1
                                             | (peffs, Some held) \<Rightarrow>
                                                 let member = (case du_SendingMemberID durable of None \<Rightarrow> [] | Some m \<Rightarrow> m);
                                                     req = \<lparr>eq_Domain = domain,
                                                       eq_Envelope = \<lparr>env_MailFrom = sm_MailFrom msg, env_Recipients = recipients\<rparr>,
                                                       eq_Raw = sm_Raw msg\<rparr>
                                                 in case attempt_job p w jobID msg state req member of
                                                      (aeffs, s1) \<Rightarrow>
                                                        finish (effs @ peffs @ aeffs @ map Freed held) (states1(jobID \<mapsto> s1)))))))))"

section \<open>Panics and the worker loop\<close>

text \<open>
  \<open>panicked\<close>: the effects and the cache at the moment of a panic inside \<^verbatim>\<open>processOne\<close>, if one occurs.
\<close>

definition safeProcess ::
  "unicode \<Rightarrow> pool \<Rightarrow> wworld \<Rightarrow> claim \<Rightarrow> states \<Rightarrow> (effect list \<times> states) option \<Rightarrow> effect list \<times> states" where
  "safeProcess U p w c states panicked =
     (case panicked of
        None \<Rightarrow> processOne U p w c states
      | Some (effs, states1) \<Rightarrow>
          (case Option.bind (st_lookup states1 (job_ID (cl_Job c))) Latest of
             Some latest \<Rightarrow>
               if do_Accepted (da_Result latest) then (effs, states1) else (effs @ release w (ww_nowEnd w), states1)
           | None \<Rightarrow> (effs @ release w (ww_nowEnd w), states1)))"

text \<open>
  One turn of the loop: whether the pool's context was done before the claim, the claim or its error,
  whether the context was done after a failed claim or during the pause, and the world and the panic
  the processing meets.
\<close>

record turn =
  tn_ctxBefore :: bool
  tn_claim :: "queue_error + claim"
  tn_ctxAfter :: bool
  tn_ctxPause :: bool
  tn_world :: wworld
  tn_panic :: "(effect list \<times> states) option"

fun runWorker :: "unicode \<Rightarrow> pool \<Rightarrow> turn list \<Rightarrow> states \<Rightarrow> (claim \<times> effect list) list \<times> states" where
  "runWorker U p [] states = ([], states)"
| "runWorker U p (t # ts) states =
     (if tn_ctxBefore t then ([], states)
      else case tn_claim t of
          Inl err \<Rightarrow>
            if tn_ctxAfter t \<or> err = ErrQueueClosed then ([], states)
            else if tn_ctxPause t then ([], states)
            else runWorker U p ts states
        | Inr c \<Rightarrow>
            (case safeProcess U p (tn_world t) c states (tn_panic t) of
               (effs, states1) \<Rightarrow>
                 (case runWorker U p ts states1 of (done, states2) \<Rightarrow> ((c, effs) # done, states2))))"

section \<open>What a trace contains\<close>

fun is_settle :: "effect \<Rightarrow> bool" where
  "is_settle (AckJob _) = True"
| "is_settle (ReleaseJob _ _) = True"
| "is_settle _ = False"

fun is_smtp :: "effect \<Rightarrow> bool" where
  "is_smtp (Smtp _ _) = True"
| "is_smtp _ = False"

fun durable_answer :: "effect \<Rightarrow> bool" where
  "durable_answer (Persist _ _ ans) \<longleftrightarrow> ans \<noteq> StoreError"
| "durable_answer _ = False"

definition settlements :: "effect list \<Rightarrow> nat" where "settlements tr = length (filter is_settle tr)"
definition smtp_count :: "effect list \<Rightarrow> nat" where "smtp_count tr = length (filter is_smtp tr)"

fun acquired_key :: "effect \<Rightarrow> string option" where
  "acquired_key (Acquired k) = Some k"
| "acquired_key _ = None"

fun freed_key :: "effect \<Rightarrow> string option" where
  "freed_key (Freed k) = Some k"
| "freed_key _ = None"

definition acquired :: "effect list \<Rightarrow> string list" where "acquired tr = List.map_filter acquired_key tr"
definition freed :: "effect list \<Rightarrow> string list" where "freed tr = List.map_filter freed_key tr"

lemma trace_append [simp]:
  "settlements (s @ t) = settlements s + settlements t" "smtp_count (s @ t) = smtp_count s + smtp_count t"
  "acquired (s @ t) = acquired s @ acquired t" "freed (s @ t) = freed s @ freed t"
  by (simp_all add: settlements_def smtp_count_def acquired_def freed_def map_filter_def)

lemma trace_simps [simp]:
  "settlements [] = 0" "smtp_count [] = 0" "acquired [] = []" "freed [] = []"
  "settlements (e # t) = (if is_settle e then 1 else 0) + settlements t"
  "smtp_count (e # t) = (if is_smtp e then 1 else 0) + smtp_count t"
  "acquired (e # t) = (case acquired_key e of None \<Rightarrow> [] | Some k \<Rightarrow> [k]) @ acquired t"
  "freed (e # t) = (case freed_key e of None \<Rightarrow> [] | Some k \<Rightarrow> [k]) @ freed t"
  by (simp_all add: settlements_def smtp_count_def acquired_def freed_def map_filter_def split: option.splits)

lemma trace_Freed [simp]:
  "settlements (map Freed ks) = 0" "smtp_count (map Freed ks) = 0" "acquired (map Freed ks) = []" "freed (map Freed ks) = ks"
  by (induction ks) simp_all

lemma no_smtp: "smtp_count tr = 0 \<Longrightarrow> Smtp req m \<notin> set tr"
  by (induction tr) (auto split: if_splits)

text \<open>A trace that settles the claim once, without SMTP and holding no permits afterwards.\<close>

definition settled_idle :: "effect list \<Rightarrow> bool" where
  "settled_idle tr \<longleftrightarrow> settlements tr = 1 \<and> smtp_count tr = 0 \<and> mset (acquired tr) = mset (freed tr)"

definition quiet :: "effect list \<Rightarrow> bool" where
  "quiet tr \<longleftrightarrow> settlements tr = 0 \<and> smtp_count tr = 0"

lemma settled_release [simp]: "settled_idle (release w t)" and settled_ack [simp]: "settled_idle (ack_and_drop w)"
  and settled_defer [simp]: "settled_idle (deferForPermit p w c b)"
  by (simp_all add: settled_idle_def release_def ack_and_drop_def deferForPermit_def Let_def)

lemma settled_after_quiet: "quiet s \<Longrightarrow> mset (acquired s) = mset (freed s) \<Longrightarrow> settled_idle t \<Longrightarrow> settled_idle (s @ t)"
  by (simp add: settled_idle_def quiet_def)

lemma held_settles: "holdIfMemberDisabled w m = Some effs \<Longrightarrow> settled_idle effs"
  by (auto simp: holdIfMemberDisabled_def Let_def split: if_splits option.splits)

lemma not_held:
  assumes "holdIfMemberDisabled w m = None"
  shows "\<And>known. ww_registry w = Some known \<Longrightarrow> known m" "\<And>gate. ww_routing w = Some gate \<Longrightarrow> gate m = Some True"
  using assms by (auto simp: holdIfMemberDisabled_def Let_def split: if_splits option.splits)

lemma suppression_handled:
  assumes "enforceSuppression U w rs = (effs, None)"
  shows "settled_idle effs"
  using assms settled_after_quiet [of "[RecordSuppressed k a s]" "t" for k a s t]
  by (auto simp: enforceSuppression_def Let_def quiet_def split: option.splits if_splits storeAnswer.splits)

lemma is_suppressed_Nil: "\<not> is_suppressed U [] r"
  by (simp add: is_suppressed_def split: option.splits)

lemma suppression_passes:
  assumes "enforceSuppression U w rs = (effs, Some ds)"
  shows "quiet effs" "acquired effs = []" "freed effs = []" "set ds \<subseteq> set rs"
    "\<And>gate. ww_suppressed w = Some gate \<Longrightarrow>
      \<exists>supp. gate (List.map_filter (Normalize U) rs) = Some supp \<and> list_all (\<lambda>r. \<not> is_suppressed U supp r) ds"
  using assms
  by (auto simp: enforceSuppression_def Let_def quiet_def list_all_iff is_suppressed_Nil
      split: option.splits if_splits storeAnswer.splits)

lemma permits_refused: "acquirePermits p w c d = (effs, None) \<Longrightarrow> settled_idle effs"
  using settled_defer [of p w c]
  by (auto simp: acquirePermits_def Let_def settled_idle_def split: option.splits bool.splits)

lemma permits_granted:
  assumes "acquirePermits p w c d = (effs, Some held)"
  shows "quiet effs" "acquired effs = held" "freed effs = []"
    "\<And>g. ww_permits w = Some g \<Longrightarrow> pg_acquire g (pg_destinationKey g d) = Some True \<and> pg_destinationKey g d \<in> set held"
  using assms by (auto simp: acquirePermits_def Let_def quiet_def split: option.splits bool.splits)

text \<open>What holds of every run of the persistence loop.\<close>

definition persist_ok :: "deliveryAttempt \<Rightarrow> outcome \<Rightarrow> effect list \<Rightarrow> bool option \<Rightarrow> bool" where
  "persist_ok a oc effs res \<longleftrightarrow>
     smtp_count effs = 0 \<and> acquired effs = [] \<and> freed effs = [] \<and> settlements effs \<le> 1 \<and>
     (res = Some True \<longrightarrow> settlements effs = 0 \<and> Persist a oc StoreOk \<in> set effs) \<and>
     (settlements effs = 0 \<longrightarrow> res \<noteq> Some True \<longrightarrow> \<not> list_ex durable_answer effs) \<and>
     (\<forall>xs e ys. effs = xs @ e # ys \<longrightarrow> is_settle e \<longrightarrow> list_ex durable_answer xs)"

lemma persist_ok_Nil: "res \<noteq> Some True \<Longrightarrow> persist_ok a oc [] res"
  by (simp add: persist_ok_def)

lemma persist_ok_again:
  "persist_ok a oc effs res \<Longrightarrow> persist_ok a oc (Renew b # Persist a oc StoreError # effs) res"
  unfolding persist_ok_def by (auto simp: Cons_eq_append_conv)

lemma persist_ok_end:
  "persist_ok a oc [Renew b, Persist a oc StoreOk] (Some True)"
  "persist_ok a oc [Renew b, Persist a oc StoreError] (Some False)"
  "persist_ok a oc (Renew b # Persist a oc AlreadyTerminal # ack_and_drop w) (Some False)"
  unfolding persist_ok_def by (auto simp: Cons_eq_append_conv ack_and_drop_def split: if_splits)

lemma persist_loop_ok: "persist_loop w a oc f rs = (effs, res) \<Longrightarrow> persist_ok a oc effs res"
proof (induction rs arbitrary: f effs)
  case Nil
  then show ?case by (auto intro: persist_ok_Nil)
next
  case (Cons r rs)
  obtain effs1 res1 where rec: "persist_loop w a oc False rs = (effs1, res1)" by fastforce
  from Cons.prems show ?case using Cons.IH [of False effs1]
    by (cases "pr_answer r")
      (auto simp: rec Let_def split: if_splits intro: persist_ok_Nil persist_ok_again persist_ok_end)
qed

lemma terminal_quiet:
  "settlements (handleTerminalFailure p w msg s st j) = 0" "smtp_count (handleTerminalFailure p w msg s st j) = 0"
  "acquired (handleTerminalFailure p w msg s st j) = []" "freed (handleTerminalFailure p w msg s st j) = []"
  by (simp_all add: handleTerminalFailure_def split: sum.splits)

lemma settle_facts: "settlements (settle p w msg s oc j) = 1" "smtp_count (settle p w msg s oc j) = 0"
  "acquired (settle p w msg s oc j) = []" "freed (settle p w msg s oc j) = []"
  by (simp_all add: settle_def terminal_quiet ack_and_drop_def release_def split: lifecycleStatus.splits option.splits)

lemma error_facts: "settlements (handleAttemptError w e) = 1" "smtp_count (handleAttemptError w e) = 0"
  "acquired (handleAttemptError w e) = []" "freed (handleAttemptError w e) = []"
  by (simp_all add: handleAttemptError_def ack_and_drop_def release_def)

section \<open>Errors of the coordinator after a delivery\<close>

lemma NextSchedule_error:
  assumes "Evaluate (Some s) limit = Inr StatusRetryable" "NextSchedule (Some s) p limit now = Inl e"
  shows "e \<in> {ErrInvalidAttempt, ErrInvalidBackoff, ErrInvalidScheduleTime}"
  using assms by (auto simp: NextSchedule_def Delay_def Let_def split: if_splits)


lemma Attempt_error_delivered:
  assumes run: "Attempt c x d now (Some s) = ((oc, Some e), s1)" "oc_Delivered oc \<noteq> None"
  shows "e \<notin> {ErrNotRetryable, ErrRetryExhausted}"
    "policy_ok (co_backoff c) \<Longrightarrow> minScheduleTime \<le> now \<Longrightarrow> now \<le> maxScheduleTime - 2 ^ 63 \<Longrightarrow> False"
proof -
  define s2 where "s2 = s @ [attempt_of d (int (length s) + 1)]"
  have live: "\<not> x" "going_on (co_limit c) s" using Attempt_delivers_live [OF run(1)] run(2) by auto
  obtain st1 where st1: "Evaluate (Some s2) (co_limit c) = Inr st1"
    and att: "Attempt c False d now (Some s) =
      (if st1 \<noteq> StatusRetryable then ((\<lparr>oc_Delivered = Some d, oc_Status = st1, oc_Schedule = None\<rparr>, None), Some s2)
       else case NextSchedule (Some s2) (co_backoff c) (co_limit c) now of
          Inl e \<Rightarrow> ((\<lparr>oc_Delivered = Some d, oc_Status = st1, oc_Schedule = None\<rparr>, Some e), Some s2)
        | Inr sch \<Rightarrow> ((\<lparr>oc_Delivered = Some d, oc_Status = st1, oc_Schedule = Some sch\<rparr>, None), Some s2))"
    unfolding s2_def by (rule Attempt_live [OF live(2)])
  have rt: "st1 = StatusRetryable" "NextSchedule (Some s2) (co_backoff c) (co_limit c) now = Inl e"
    using run(1) [unfolded live(1) [THEN eq_False [THEN iffD2]] att] by (auto split: if_splits sum.splits)
  then show "e \<notin> {ErrNotRetryable, ErrRetryExhausted}" using NextSchedule_error st1 by blast
  assume "policy_ok (co_backoff c)" "minScheduleTime \<le> now" "now \<le> maxScheduleTime - 2 ^ 63"
  moreover have "0 < da_Number (last s2)" by (simp add: s2_def attempt_of_def)
  ultimately show False using NextSchedule_ok st1 rt by (metis sum.distinct(1))
qed

section \<open>The attempt\<close>

text \<open>
  What holds of the trace of a delivery operation: settled at most once, unsettled only when nothing
  became durable, and nothing is acknowledged after SMTP before the outcome is durable.
\<close>

lemma attempt_job_facts:
  assumes "attempt_job p w j msg s req m = (tr, s1)"
  shows "settlements tr \<le> 1" "smtp_count tr \<le> 1" "acquired tr = []" "freed tr = []"
    "\<And>r m'. Smtp r m' \<in> set tr \<Longrightarrow> r = req \<and> m' = m"
    "settlements tr = 0 \<Longrightarrow> Smtp req m \<in> set tr \<and> \<not> list_ex durable_answer tr"
proof -
  obtain oc err st where att: "Attempt (po_coordinator p) (ww_ctxDone w) (ww_deliver w req) (ww_nowAttempt w) (Some s) = ((oc, err), st)"
    by (metis surj_pair)
  have "settlements tr \<le> 1 \<and> smtp_count tr \<le> 1 \<and> acquired tr = [] \<and> freed tr = [] \<and>
    (\<forall>r m'. Smtp r m' \<in> set tr \<longrightarrow> r = req \<and> m' = m) \<and>
    (settlements tr = 0 \<longrightarrow> Smtp req m \<in> set tr \<and> \<not> list_ex durable_answer tr)"
  proof (cases err)
    case (Some e)
    then show ?thesis using assms att error_facts [of w e] no_smtp
      by (auto simp: attempt_job_def Let_def split: if_splits)
  next
    case None
    obtain effs res where po: "persistOutcome w (last (the st)) oc = (effs, res)" by fastforce
    from po have ok: "persist_ok (last (the st)) oc effs res"
      unfolding persistOutcome_def by (rule persist_loop_ok)
    have live: "\<not> ww_ctxDone w" "going_on (co_limit (po_coordinator p)) s"
      using Attempt_delivers_live [OF att] None by auto
    have "0 < co_limit (po_coordinator p)" using live(2) by (auto simp: going_on_def)
    then have dlv: "oc_Delivered oc \<noteq> None" "the st \<noteq> []"
      using att live by (cases rule: Attempt_cases; auto)+
    have tr: "tr = Smtp req m # effs @ (if res = Some True then settle p w msg (the st) oc j else [])"
      using assms att None dlv po by (auto simp: attempt_job_def Let_def Latest_def)
    show ?thesis unfolding tr using ok no_smtp [of effs] no_smtp [of "settle p w msg (the st) oc j"]
      by (auto simp: persist_ok_def settle_facts)
  qed
  then show "settlements tr \<le> 1" "smtp_count tr \<le> 1" "acquired tr = []" "freed tr = []"
    "\<And>r m'. Smtp r m' \<in> set tr \<Longrightarrow> r = req \<and> m' = m"
    "settlements tr = 0 \<Longrightarrow> Smtp req m \<in> set tr \<and> \<not> list_ex durable_answer tr"
    by auto
qed

lemma append_split_at: "xs @ ys = us @ e # vs \<Longrightarrow> (\<exists>zs. xs = us @ e # zs) \<or> ((\<exists>zs. us = xs @ zs) \<and> ys \<noteq> [])"
  by (auto simp: append_eq_append_conv2) (metis append_eq_Cons_conv)+

lemma trace_middle:
  assumes "pre @ mid @ post = xs @ e # ys" "e \<notin> set pre" "e \<notin> set post"
  shows "\<exists>us vs. mid = us @ e # vs \<and> xs = pre @ us"
proof -
  obtain us where us: "xs = pre @ us"
    using append_split_at [OF assms(1)] assms(2) by auto
  then have "mid @ post = us @ e # ys" using assms(1) by simp
  from append_split_at [OF this] obtain vs where "mid = us @ e # vs"
    using assms(3) \<open>mid @ post = us @ e # ys\<close> by (metis append.assoc in_set_conv_decomp same_append_eq)
  then show ?thesis using us by blast
qed

text \<open>A settlement after the delivery comes after a durable answer of the store.\<close>

lemma ack_after_durable:
  assumes "attempt_job p w j msg s req m = (tr, s1)" "tr = xs @ e # ys" "is_settle e" "Smtp req m \<in> set xs"
    and "(\<exists>ok. e = AckJob ok) \<or> (policy_ok (co_backoff (po_coordinator p)) \<and> minScheduleTime \<le> ww_nowAttempt w \<and>
      ww_nowAttempt w \<le> maxScheduleTime - 2 ^ 63)"
  shows "list_ex durable_answer xs"
proof -
  obtain oc err st where att: "Attempt (po_coordinator p) (ww_ctxDone w) (ww_deliver w req) (ww_nowAttempt w) (Some s) = ((oc, err), st)"
    by (metis surj_pair)
  show ?thesis
  proof (cases err)
    case (Some er)
    have tr: "tr = (if oc_Delivered oc = None then [] else [Smtp req m]) @ handleAttemptError w er"
      using assms(1) att Some by (auto simp: attempt_job_def Let_def)
    have dlv: "oc_Delivered oc \<noteq> None"
      using assms(2,4) tr no_smtp [OF error_facts(2) [of w er], of req m] by (auto split: if_splits)
    note after = Attempt_error_delivered [OF att [unfolded Some] dlv]
    have "handleAttemptError w er = release w (ww_nowEnd w)" using after(1) by (simp add: handleAttemptError_def)
    then have "e = ReleaseJob (ww_nowEnd w) (ww_releaseOk w)"
      using assms(2,3) tr dlv by (auto simp: release_def Cons_eq_append_conv)
    then show ?thesis using assms(5) after(2) by auto
  next
    case None
    obtain effs res where po: "persistOutcome w (last (the st)) oc = (effs, res)" by fastforce
    from po have ok: "persist_ok (last (the st)) oc effs res"
      unfolding persistOutcome_def by (rule persist_loop_ok)
    have live: "\<not> ww_ctxDone w" "going_on (co_limit (po_coordinator p)) s"
      using Attempt_delivers_live [OF att] None by auto
    have "0 < co_limit (po_coordinator p)" using live(2) by (auto simp: going_on_def)
    then have dlv: "oc_Delivered oc \<noteq> None" "the st \<noteq> []"
      using att live by (cases rule: Attempt_cases; auto)+
    have tr: "Smtp req m # effs @ (if res = Some True then settle p w msg (the st) oc j else []) = xs @ e # ys"
      using assms(1,2) att None dlv po by (auto simp: attempt_job_def Let_def Latest_def)
    then obtain xs' where xs: "xs = Smtp req m # xs'"
      using assms(3) by (cases xs) auto
    from tr have split: "effs @ (if res = Some True then settle p w msg (the st) oc j else []) = xs' @ e # ys" by (simp add: xs)
    then consider (inside) zs where "effs = xs' @ e # zs" | (after) zs where "xs' = effs @ zs" "res = Some True"
      using append_split_at [OF split] by (auto split: if_splits)
    then show ?thesis
    proof cases
      case inside
      then show ?thesis using ok assms(3) unfolding persist_ok_def xs by auto
    next
      case after
      then have "Persist (last (the st)) oc StoreOk \<in> set xs'" using ok by (auto simp: persist_ok_def)
      then show ?thesis unfolding xs list_ex_iff by force
    qed
  qed
qed

section \<open>A whole run\<close>

text \<open>
  The two shapes of a run: it ends before the transport, or it passes every gate and makes its
  delivery operation between taking and returning the permits.
\<close>

lemma processOne_cases [consumes 1, case_names early attempt]:
  assumes run: "processOne U p w c states = (tr, states')"
  obtains "settled_idle tr"
  | d msg effs rs domain peffs held s m req aeffs s1 where
      "ww_load w = Some d" "\<not> du_Terminal d" "\<And>t. du_NextRetryAt d = Some t \<Longrightarrow> t \<le> ww_nowDue w"
      "\<And>mem. du_SendingMemberID d = Some mem \<Longrightarrow> holdIfMemberDisabled w mem = None \<and> m = mem"
      "ww_message w = Some msg" "enforceSuppression U w (sm_RcptTo msg) = (effs, Some rs)"
      "recipientDomain rs = Some domain" "acquirePermits p w c domain = (peffs, Some held)"
      "req = \<lparr>eq_Domain = domain, eq_Envelope = \<lparr>env_MailFrom = sm_MailFrom msg, env_Recipients = rs\<rparr>, eq_Raw = sm_Raw msg\<rparr>"
      "attempt_job p w (job_ID (cl_Job c)) msg s req m = (aeffs, s1)"
      "tr = effs @ peffs @ aeffs @ map Freed held"
proof (cases "ww_load w")
  case None
  then show ?thesis using run that(1) by (auto simp: processOne_def Let_def)
next
  case load: (Some d)
  define due where "due = (case du_NextRetryAt d of Some t \<Rightarrow> if ww_nowDue w < t then Some t else None | None \<Rightarrow> None)"
  define held where "held = (case du_SendingMemberID d of None \<Rightarrow> None | Some m \<Rightarrow> holdIfMemberDisabled w m)"
  define m where "m = (case du_SendingMemberID d of None \<Rightarrow> [] | Some m \<Rightarrow> m)"
  note defs = processOne_def Let_def load option.case due_def [symmetric] held_def [symmetric] m_def [symmetric]
  show ?thesis
  proof (cases "du_Terminal d \<or> due \<noteq> None \<or> held \<noteq> None \<or> ww_message w = None")
    case True
    have "settled_idle h" if "held = Some h" for h
      using that held_settles by (auto simp: held_def split: option.splits)
    then show ?thesis using True run that(1) unfolding defs
      by (auto split: if_splits option.splits prod.splits)
  next
    case False
    then obtain msg where go: "\<not> du_Terminal d" "due = None" "held = None" "ww_message w = Some msg" by auto
    obtain s states1 where st: "getOrSet states (job_ID (cl_Job c)) (du_RetryState d) = (s, states1)" by fastforce
    obtain effs rs where sup: "enforceSuppression U w (sm_RcptTo msg) = (effs, rs)" by fastforce
    note defs' = defs go(2-4) option.case if_not_P [OF go(1)] st sup prod.case
    show ?thesis
    proof (cases "rs = None \<or> (\<exists>r. rs = Some r \<and> recipientDomain r = None)")
      case True
      have "settled_idle effs" if "rs = None" using sup that suppression_handled by blast
      moreover have "settled_idle (effs @ release w (ww_nowEnd w))" if "rs = Some r" for r
        using suppression_passes(1-3) [OF sup [unfolded that]] by (intro settled_after_quiet) auto
      ultimately show ?thesis using True run that(1) unfolding defs' by auto
    next
      case False
      then obtain r domain where r: "rs = Some r" "recipientDomain r = Some domain" by auto
      note sup1 = sup [unfolded r(1)]
      obtain peffs ks where pm: "acquirePermits p w c domain = (peffs, ks)" by fastforce
      define req where "req = \<lparr>eq_Domain = domain, eq_Envelope = \<lparr>env_MailFrom = sm_MailFrom msg, env_Recipients = r\<rparr>, eq_Raw = sm_Raw msg\<rparr>"
      obtain aeffs s1 where at: "attempt_job p w (job_ID (cl_Job c)) msg s req m = (aeffs, s1)" by fastforce
      show ?thesis
      proof (cases ks)
        case None
        then have "tr = effs @ peffs" using run unfolding defs' r option.case pm by auto
        moreover have "settled_idle (effs @ peffs)" using suppression_passes(1-3) [OF sup1] pm [unfolded None]
          by (intro settled_after_quiet permits_refused) auto
        ultimately show ?thesis using that(1) by simp
      next
        case (Some ps)
        then have "tr = effs @ peffs @ aeffs @ map Freed ps"
          using run unfolding defs' r option.case pm req_def [symmetric] at by auto
        then show ?thesis using load go sup1 r(2) pm [unfolded Some] at
          by (intro that(2) [OF load go(1) _ _ go(4) sup1 r(2) pm [unfolded Some] req_def at])
            (auto simp: due_def held_def m_def split: option.splits if_splits)
      qed
    qed
  qed
qed

lemma gates_no_smtp: "quiet effs \<Longrightarrow> quiet peffs \<Longrightarrow> Smtp r m \<in> set (effs @ peffs @ aeffs @ map Freed held) \<longleftrightarrow> Smtp r m \<in> set aeffs"
  using no_smtp [of effs r m] no_smtp [of peffs r m] by (auto simp: quiet_def)

text \<open>A demonstration: two recipients, one suppressed; the store fails once, then takes the outcome.\<close>

definition wk_demo_world :: wworld where
  "wk_demo_world = \<lparr>ww_load = Some \<lparr>du_RetryState = None, du_Terminal = False, du_NextRetryAt = Some 5, du_SendingMemberID = None\<rparr>,
     ww_registry = None, ww_routing = None,
     ww_message = Some \<lparr>sm_MailFrom = ''<s@a.co>'', sm_RcptTo = [''<X@b.co>'', ''<y@b.co>''], sm_Raw = ''hi''\<rparr>,
     ww_suppressed = Some (\<lambda>ks. Some [(''x@b.co'', True)]), ww_recordSuppressed = StoreOk,
     ww_permits = Some \<lparr>pg_tenant = Some (Some ''t''), pg_acquire = (\<lambda>k. Some True), pg_tenantKey = (\<lambda>t. ''T'' @ t), pg_destinationKey = (\<lambda>d. ''D'' @ d)\<rparr>,
     ww_ctxDone = False, ww_deliver = (\<lambda>r. (rt_demo_out KindAccepted, None, False)),
     ww_persist = [\<lparr>pr_ctxBefore = False, pr_renewed = True, pr_answer = StoreError, pr_ctxWait = False\<rparr>,
       \<lparr>pr_ctxBefore = False, pr_renewed = True, pr_answer = StoreOk, pr_ctxWait = False\<rparr>],
     ww_ackOk = True, ww_releaseOk = True, ww_nowDue = 9, ww_nowAttempt = 9, ww_nowEnd = 9\<rparr>"

definition wk_demo_pool :: pool where
  "wk_demo_pool = \<lparr>po_coordinator = rt_demo_coord, po_reportingMTA = ''mta'',
     po_permitPolicy = \<lparr>pp_TenantLimit = 1, pp_DestinationLimit = 1, pp_TTL = second, pp_JitterPercent = 0, pp_Deferral = 0\<rparr>, po_boundary = ''b''\<rparr>"

definition wk_demo_claim :: claim where
  "wk_demo_claim = \<lparr>cl_Job = \<lparr>job_ID = ''j'', job_MessageID = ''m'', job_EnqueuedAt = 0, job_AvailableAt = 0\<rparr>, cl_Token = 1\<rparr>"

definition wk_demo_run where "wk_demo_run = fst (processOne plain_unicode wk_demo_pool wk_demo_world wk_demo_claim (\<lambda>_. None))"

definition wk_demo_req :: engineRequest where
  "wk_demo_req = \<lparr>eq_Domain = ''b.co'', eq_Envelope = \<lparr>env_MailFrom = ''<s@a.co>'', env_Recipients = [''<y@b.co>'']\<rparr>, eq_Raw = ''hi''\<rparr>"

definition wk_demo_outcome :: outcome where
  "wk_demo_outcome = \<lparr>oc_Delivered = Some (rt_demo_out KindAccepted, None, False), oc_Status = StatusSucceeded, oc_Schedule = None\<rparr>"

definition wk_demo_attempt :: deliveryAttempt where
  "wk_demo_attempt = \<lparr>da_Number = 1, da_Result = rt_demo_out KindAccepted, da_Decision = TerminalSuccess\<rparr>"

lemma wk_demo_addresses:
  "Normalize plain_unicode ''<X@b.co>'' = Some ''x@b.co''" "Normalize plain_unicode ''<y@b.co>'' = Some ''y@b.co''" "recipientDomain [''<y@b.co>''] = Some ''b.co''"
proof -
  have "Normalize plain_unicode ''<X@b.co>'' = Some ''x@b.co'' \<and> Normalize plain_unicode ''<y@b.co>'' = Some ''y@b.co'' \<and> recipientDomain [''<y@b.co>''] = Some ''b.co''"
    by code_simp
  then show "Normalize plain_unicode ''<X@b.co>'' = Some ''x@b.co''" "Normalize plain_unicode ''<y@b.co>'' = Some ''y@b.co''" "recipientDomain [''<y@b.co>''] = Some ''b.co''" by blast+
qed

lemma wk_demo_trace:
  "wk_demo_run = [RecordSuppressed [''x@b.co''] False StoreOk, Acquired ''Tt'', Acquired ''Db.co'', Smtp wk_demo_req [],
     Renew True, Persist wk_demo_attempt wk_demo_outcome StoreError, Renew True, Persist wk_demo_attempt wk_demo_outcome StoreOk,
     AckJob True, DropState, Freed ''Tt'', Freed ''Db.co'']"
  by (simp add: wk_demo_run_def processOne_def wk_demo_world_def wk_demo_pool_def wk_demo_claim_def enforceSuppression_def is_suppressed_def wk_demo_addresses
      map_filter_simps acquirePermits_def attempt_job_def getOrSet_def persistOutcome_def settle_def ack_and_drop_def wk_demo_req_def wk_demo_attempt_def wk_demo_outcome_def
      Attempt_def Evaluate_def Latest_def Record_def Let_def Decide_def rt_demo_coord_def rt_demo_out_def)

lemma wk_demo_eq: "\<exists>st. processOne plain_unicode wk_demo_pool wk_demo_world wk_demo_claim (\<lambda>_. None) = (wk_demo_run, st)"
  by (simp add: wk_demo_run_def) (metis prod.collapse)

section \<open>What a worker guarantees\<close>

text \<open>
  (C16) Every gate comes before the transport: a run makes at most one delivery operation, and only if
  the message is not durably terminal, its retry time has come, its pool member is known and enabled,
  and the destination's permit was granted; no recipient of the operation is suppressed, and a failed
  suppression lookup never leads to a delivery.
\<close>

theorem worker_smtp_guarded:
  assumes "processOne U p w c states = (tr, states')" "Smtp req m \<in> set tr"
  shows "smtp_count tr = 1 \<and>
    (\<exists>d msg. ww_load w = Some d \<and> ww_message w = Some msg \<and> \<not> du_Terminal d \<and>
      (\<forall>t. du_NextRetryAt d = Some t \<longrightarrow> t \<le> ww_nowDue w) \<and>
      (\<forall>mem. du_SendingMemberID d = Some mem \<longrightarrow> m = mem \<and> (\<forall>known. ww_registry w = Some known \<longrightarrow> known mem) \<and>
         (\<forall>gate. ww_routing w = Some gate \<longrightarrow> gate mem = Some True)) \<and>
      (\<forall>gate. ww_suppressed w = Some gate \<longrightarrow>
         (\<exists>supp. gate (List.map_filter (Normalize U) (sm_RcptTo msg)) = Some supp \<and>
            list_all (\<lambda>r. \<not> is_suppressed U supp r) (env_Recipients (eq_Envelope req)))) \<and>
      (\<forall>g. ww_permits w = Some g \<longrightarrow> pg_acquire g (pg_destinationKey g (eq_Domain req)) = Some True))"
  using assms(1)
proof (cases rule: processOne_cases)
  case early
  then show ?thesis using assms(2) no_smtp by (auto simp: settled_idle_def)
next
  case (attempt d msg effs rs domain peffs held s m' rq aeffs s1)
  note sp = suppression_passes [OF attempt(6)] and pg = permits_granted [OF attempt(8)] and aj = attempt_job_facts [OF attempt(10)]
  have in_a: "Smtp req m \<in> set aeffs" using assms(2) gates_no_smtp [OF sp(1) pg(1)] unfolding attempt(11) by blast
  then have eq: "req = rq" "m = m'" using aj(5) by blast+
  have "smtp_count aeffs \<noteq> 0" using in_a no_smtp by blast
  then have "smtp_count tr = 1" using aj(2) sp(1) pg(1) by (simp add: attempt(11) quiet_def)
  moreover have "env_Recipients (eq_Envelope req) = rs" "eq_Domain req = domain" by (simp_all add: eq attempt(9))
  ultimately show ?thesis using attempt(1-5) sp(5) pg(4) not_held unfolding eq(2) by (intro conjI exI [of _ d] exI [of _ msg]) blast+
qed

theorem worker_smtp_guarded_witness: "smtp_count wk_demo_run = 1 \<and> ww_nowDue wk_demo_world \<ge> 5"
proof -
  obtain st where run: "processOne plain_unicode wk_demo_pool wk_demo_world wk_demo_claim (\<lambda>_. None) = (wk_demo_run, st)"
    using wk_demo_eq by blast
  have "Smtp wk_demo_req [] \<in> set wk_demo_run" by (simp add: wk_demo_trace)
  from worker_smtp_guarded [OF run this] show ?thesis by (auto simp: wk_demo_world_def)
qed

text \<open>
  A claim is settled, acknowledged or released, at most once per run; a run that leaves it unsettled
  has made its delivery operation but got no durable answer from the store, so the lease brings the job
  back.
\<close>

theorem worker_settles_once:
  assumes "processOne U p w c states = (tr, states')"
  shows "settlements tr = 1 \<or> (settlements tr = 0 \<and> smtp_count tr = 1 \<and> \<not> list_ex durable_answer tr)"
  using assms
proof (cases rule: processOne_cases)
  case early
  then show ?thesis by (simp add: settled_idle_def)
next
  case (attempt d msg effs rs domain peffs held s m rq aeffs s1)
  note sp = suppression_passes [OF attempt(6)] and pg = permits_granted [OF attempt(8)] and aj = attempt_job_facts [OF attempt(10)]
  have cnt: "settlements tr = settlements aeffs" "smtp_count tr = smtp_count aeffs"
    using sp(1) pg(1) by (simp_all add: attempt(11) quiet_def)
  show ?thesis
  proof (cases "settlements aeffs = 0")
    case True
    have "\<not> list_ex durable_answer effs"
      using attempt(6) by (auto simp: enforceSuppression_def Let_def split: option.splits if_splits storeAnswer.splits)
    moreover have "\<not> list_ex durable_answer peffs"
      using attempt(8) by (auto simp: acquirePermits_def Let_def split: option.splits bool.splits)
    moreover have "\<not> list_ex durable_answer (map Freed held)" by (auto simp: list_ex_iff)
    moreover have "smtp_count aeffs = 1" using aj(2) aj(6) [OF True] no_smtp [of aeffs rq m] by linarith
    ultimately show ?thesis using aj(6) [OF True] True unfolding cnt by (simp add: attempt(11))
  next
    case False
    then show ?thesis using aj(1) cnt by simp
  qed
qed

theorem worker_settles_once_witness: "settlements wk_demo_run = 1"
proof -
  obtain st where run: "processOne plain_unicode wk_demo_pool wk_demo_world wk_demo_claim (\<lambda>_. None) = (wk_demo_run, st)"
    using wk_demo_eq by blast
  have "smtp_count wk_demo_run = 1" "list_ex durable_answer wk_demo_run" by (simp_all add: wk_demo_trace)
  then show ?thesis using worker_settles_once [OF run] by blast
qed

text \<open>
  (C15) Durable before settled: once a run has contacted the remote side, it acknowledges the job only
  after the store has taken the outcome or has declared the message terminal; with a valid retry policy
  it does not release the job before that either.
\<close>

theorem worker_durable_before_settled:
  assumes "processOne U p w c states = (tr, states')" "tr = xs @ e # ys" "is_settle e" "Smtp req m \<in> set xs"
    and "(\<exists>ok. e = AckJob ok) \<or> (policy_ok (co_backoff (po_coordinator p)) \<and> minScheduleTime \<le> ww_nowAttempt w \<and>
      ww_nowAttempt w \<le> maxScheduleTime - 2 ^ 63)"
  shows "list_ex durable_answer xs"
  using assms(1)
proof (cases rule: processOne_cases)
  case early
  then show ?thesis using assms(2,4) no_smtp [of tr req m] by (auto simp: settled_idle_def)
next
  case (attempt d msg effs rs domain peffs held s m' rq aeffs s1)
  note sp = suppression_passes [OF attempt(6)] and pg = permits_granted [OF attempt(8)] and aj = attempt_job_facts [OF attempt(10)]
  have "\<not> is_settle x" if "x \<in> set (map Freed held)" for x using that by auto
  then have "e \<notin> set (map Freed held)" using assms(3) by blast
  moreover have q: "e \<notin> set (effs @ peffs)"
    using assms(3) sp(1) pg(1) by (auto simp: quiet_def settlements_def filter_empty_conv)
  ultimately obtain us vs where a: "aeffs = us @ e # vs" "xs = effs @ peffs @ us"
    using trace_middle [of "effs @ peffs" aeffs "map Freed held" xs e ys] assms(2) attempt(11) by auto
  have "Smtp req m \<in> set us" using assms(4) a(2) gates_no_smtp [OF sp(1) pg(1), of req m us "[]"] by simp
  moreover from this have "req = rq" "m = m'" using aj(5) a(1) by auto
  ultimately have "list_ex durable_answer us"
    using ack_after_durable [OF attempt(10) a(1) assms(3) _ assms(5)] by blast
  then show ?thesis by (simp add: a(2))
qed

theorem worker_durable_before_settled_witness:
  "list_ex durable_answer [RecordSuppressed [''x@b.co''] False StoreOk, Acquired ''Tt'', Acquired ''Db.co'', Smtp wk_demo_req [],
     Renew True, Persist wk_demo_attempt wk_demo_outcome StoreError, Renew True, Persist wk_demo_attempt wk_demo_outcome StoreOk]"
proof -
  obtain st where run: "processOne plain_unicode wk_demo_pool wk_demo_world wk_demo_claim (\<lambda>_. None) = (wk_demo_run, st)"
    using wk_demo_eq by blast
  show ?thesis
    by (rule worker_durable_before_settled [OF run, of _ "AckJob True" "[DropState, Freed ''Tt'', Freed ''Db.co'']" wk_demo_req "[]"])
      (simp_all add: wk_demo_trace, blast)
qed

text \<open>
  Permits are never leaked: on every path, the permits a run acquires are exactly the permits it
  gives back.
\<close>

theorem worker_permits_balanced: "mset (acquired (fst (processOne U p w c states))) = mset (freed (fst (processOne U p w c states)))"
proof -
  obtain tr st where run: "processOne U p w c states = (tr, st)" by fastforce
  then show ?thesis
  proof (cases rule: processOne_cases)
    case early
    then show ?thesis by (simp add: run settled_idle_def)
  next
    case (attempt d msg effs rs domain peffs held s m rq aeffs s1)
    then show ?thesis using suppression_passes(2,3) [OF attempt(6)] permits_granted(2,3) [OF attempt(8)] attempt_job_facts(3,4) [OF attempt(10)]
      by (simp add: run)
  qed
qed

end
