(* ===== verification/Rate_Limit.thy ===== *)
theory Rate_Limit
  imports Prelude Complex_Main
begin

text \<open>
  The abuse-control primitives of \<^verbatim>\<open>internal/ratelimit\<close>: the multi-bucket GCRA limiter and the leased
  concurrency permits, with their Redis scripts (\<^verbatim>\<open>store.go\<close>), and the operator's policy (\<^verbatim>\<open>policy.go\<close>).
  The scripts get an interval and a window in microseconds with three decimals, so every quantity is a
  whole number of nanoseconds (\<open>1 us = 1000\<close>); the scripts' double-precision arithmetic is taken as
  exact. Redis is its keys: a value with the millisecond after which it is gone.
\<close>

section \<open>GCRA\<close>

record bucket =
  bk_Key :: string
  bk_Rate :: rat
  bk_Burst :: int
  bk_Cost :: int

record gdecision =
  gd_Allowed :: bool
  gd_RetryAfter :: duration
  gd_Impossible :: bool
  gd_Denied :: int

type_synonym rlstore = "string \<Rightarrow> (int \<times> int) option"

text \<open>\<^verbatim>\<open>strconv.FormatFloat(x, 'f', 3, 64)\<close> of a number of microseconds, in thousandths.\<close>

definition three_decimals :: "rat \<Rightarrow> int" where
  "three_decimals x = \<lfloor>x * 1000 + 1 / 2\<rfloor>"

definition bk_interval :: "bucket \<Rightarrow> int" where
  "bk_interval b = three_decimals (1000000 / bk_Rate b)"

definition bk_window :: "bucket \<Rightarrow> int" where
  "bk_window b = three_decimals (1000000 / bk_Rate b * of_int (bk_Burst b))"

text \<open>\<^verbatim>\<open>string.format('%.0f', x)\<close> of \<open>x\<close> nanoseconds, in microseconds: ties to even.\<close>

definition round_us :: "int \<Rightarrow> int" where
  "round_us x =
     (let q = x div 1000; r = x mod 1000
      in if r < 500 \<or> (r = 500 \<and> even q) then q else q + 1)"

definition ceil_div :: "int \<Rightarrow> int \<Rightarrow> int" where
  "ceil_div a b = - ((- a) div b)"

text \<open>\<^verbatim>\<open>GET\<close>, and the \<^verbatim>\<open>tat\<close> of a bucket: the stored value, or now when it is missing or past.\<close>

definition rl_get :: "rlstore \<Rightarrow> int \<Rightarrow> string \<Rightarrow> int option" where
  "rl_get st now k = (case st k of Some (v, expires) \<Rightarrow> if now div 1000 \<le> expires then Some v else None | None \<Rightarrow> None)"

definition tat_of :: "rlstore \<Rightarrow> int \<Rightarrow> string \<Rightarrow> int" where
  "tat_of st now k = (case rl_get st now k of None \<Rightarrow> now | Some v \<Rightarrow> if v < now then now else v)"

fun gcra_loop :: "rlstore \<Rightarrow> int \<Rightarrow> int \<Rightarrow> bucket list \<Rightarrow> int list \<times> int \<times> int \<times> int \<Rightarrow> int list \<times> int \<times> int \<times> int" where
  "gcra_loop st now i [] acc = acc"
| "gcra_loop st now i (b # bs) (newtat, worst, denied, impossible) =
     (let interval = bk_interval b; window = bk_window b; cost = bk_Cost b;
          nt = tat_of st now (bk_Key b) * 1000 + interval * cost
      in gcra_loop st now (i + 1) bs
           (if interval * cost > window then
              (newtat @ [nt], worst, if denied = 0 then i else denied, 1)
            else
              let allow_at = nt - window
              in if now * 1000 < allow_at then
                   (newtat @ [nt], if allow_at - now * 1000 > worst then allow_at - now * 1000 else worst,
                    if denied = 0 then i else denied, impossible)
                 else (newtat @ [nt], worst, denied, impossible)))"

definition rl_set :: "int \<Rightarrow> (string \<times> int) \<Rightarrow> rlstore \<Rightarrow> rlstore" where
  "rl_set now kt st =
     (case kt of (k, nt) \<Rightarrow>
        let ttl_ms = ceil_div (nt - now * 1000) 1000000 + 1000
        in st(k \<mapsto> (round_us nt, now div 1000 + ttl_ms)))"

definition gcraScript :: "rlstore \<Rightarrow> int \<Rightarrow> bucket list \<Rightarrow> (int \<times> int \<times> int \<times> int) \<times> rlstore" where
  "gcraScript st now bs =
     (case gcra_loop st now 1 bs ([], 0, 0, 0) of
        (newtat, worst, denied, impossible) \<Rightarrow>
          if denied \<noteq> 0 then ((0, ceil_div worst 1000, denied, impossible), st)
          else ((1, 0, 0, 0), fold (rl_set now) (zip (map bk_Key bs) newtat) st))"

definition bucket_invalid :: "bucket \<Rightarrow> bool" where
  "bucket_invalid b \<longleftrightarrow> bk_Rate b \<le> 0 \<or> bk_Burst b < 1 \<or> bk_Cost b < 1"

text \<open>\<open>None\<close>: an error, of an invalid bucket or of Redis (\<open>up = False\<close>).\<close>

definition Allow :: "bool \<Rightarrow> rlstore \<Rightarrow> int \<Rightarrow> bucket list \<Rightarrow> gdecision option \<times> rlstore" where
  "Allow up st now buckets =
     (let ok = \<lparr>gd_Allowed = True, gd_RetryAfter = 0, gd_Impossible = False, gd_Denied = 0\<rparr>
      in if buckets = [] then (Some ok, st)
         else if list_ex bucket_invalid buckets then (None, st)
         else if \<not> up then (None, st)
         else case gcraScript st now buckets of
             ((allowed, retry, denied, impossible), st1) \<Rightarrow>
               if allowed = 1 then (Some ok, st1)
               else (Some \<lparr>gd_Allowed = False, gd_RetryAfter = wrap64 (retry * 1000), gd_Impossible = (impossible = 1),
                      gd_Denied = denied - 1\<rparr>, st1))"

section \<open>Permits\<close>

text \<open>A permit key: the leases with their scores (milliseconds), and when the whole key expires.\<close>

type_synonym leases = "(string \<times> int) list"
type_synonym ptstore = "string \<Rightarrow> (leases \<times> int) option"

definition pt_leases :: "ptstore \<Rightarrow> int \<Rightarrow> string \<Rightarrow> leases" where
  "pt_leases st now k = (case st k of Some (ls, expires) \<Rightarrow> if now \<le> expires then ls else [] | None \<Rightarrow> [])"

definition acquireScript :: "ptstore \<Rightarrow> int \<Rightarrow> string \<Rightarrow> int \<Rightarrow> int \<Rightarrow> string \<Rightarrow> int \<times> ptstore" where
  "acquireScript st now key limit ttl holder =
     (let old = (case st key of Some (_, e) \<Rightarrow> e | None \<Rightarrow> now);
          live = filter (\<lambda>(h, score). \<not> score \<le> now) (pt_leases st now key);
          granted = st(key \<mapsto> (filter (\<lambda>(h, _). h \<noteq> holder) live @ [(holder, now + ttl)], now + ttl))
      in if holder \<in> fst ` set live then (1, granted)
         else if int (length live) \<ge> limit then (0, st(key := if live = [] then None else Some (live, old)))
         else (1, granted))"

definition Milliseconds :: "duration \<Rightarrow> int" where
  "Milliseconds d = quot_trunc d millisecond"

definition Acquire :: "bool \<Rightarrow> ptstore \<Rightarrow> int \<Rightarrow> string \<Rightarrow> int \<Rightarrow> duration \<Rightarrow> string \<Rightarrow> bool option \<times> ptstore" where
  "Acquire up st now key limit ttl holder =
     (if limit < 1 \<or> ttl \<le> 0 \<or> holder = [] then (None, st)
      else if \<not> up then (None, st)
      else case acquireScript st now key limit (Milliseconds ttl) holder of (n, st1) \<Rightarrow> (Some (n = 1), st1))"

definition pt_Release :: "bool \<Rightarrow> ptstore \<Rightarrow> int \<Rightarrow> string \<Rightarrow> string \<Rightarrow> bool \<times> ptstore" where
  "pt_Release up st now key holder =
     (if \<not> up then (False, st)
      else (True, case st key of
                    None \<Rightarrow> st
                  | Some (ls, e) \<Rightarrow>
                      if now \<le> e then
                        (let rest = filter (\<lambda>(h, _). h \<noteq> holder) ls
                         in st(key := if rest = [] then None else Some (rest, e)))
                      else st(key := None)))"

definition Held :: "ptstore \<Rightarrow> int \<Rightarrow> string \<Rightarrow> int" where
  "Held st now key = int (length (pt_leases st now key))"

section \<open>Keys and policy\<close>

definition TenantRequestKey :: "string \<Rightarrow> string \<Rightarrow> string" where
  "TenantRequestKey ns tenantID = ns @ '':rl:{'' @ tenantID @ ''}:req''"

definition APIKeyGuardKey :: "string \<Rightarrow> string \<Rightarrow> string \<Rightarrow> string" where
  "APIKeyGuardKey ns tenantID apiKeyRowID = ns @ '':rl:{'' @ tenantID @ ''}:key:'' @ apiKeyRowID"

definition TenantRecipientKey :: "string \<Rightarrow> string \<Rightarrow> string" where
  "TenantRecipientKey ns tenantID = ns @ '':rl:{'' @ tenantID @ ''}:rcpt''"

definition TenantPermitKey :: "string \<Rightarrow> string \<Rightarrow> string" where
  "TenantPermitKey ns tenantID = ns @ '':pt:tenant:'' @ tenantID"

definition DestinationPermitKey :: "string \<Rightarrow> string \<Rightarrow> string" where
  "DestinationPermitKey ns domain = ns @ '':pt:dest:'' @ domain"

definition DefaultNamespace :: string where "DefaultNamespace = ''mailx:limit''"

record rlpolicy =
  pl_TenantRequestRate :: rat
  pl_TenantRequestBurst :: int
  pl_KeyRequestRate :: rat
  pl_KeyRequestBurst :: int
  pl_TenantRecipientRate :: rat
  pl_TenantRecipientBurst :: int
  pl_TenantMaxQueuedMessages :: int
  pl_MaxPendingDispatch :: int
  pl_TenantDeliveryConcurrency :: int
  pl_DestinationDeliveryConcurrency :: int
  pl_PermitTTL :: duration
  pl_RetryJitterPercent :: int
  pl_MaxRecipientsPerMessage :: int
  pl_AuthIPRate :: rat
  pl_AuthIPBurst :: int
  pl_PasswordResetIPRate :: rat
  pl_PasswordResetIPBurst :: int
  pl_EmailVerificationResendIPRate :: rat
  pl_EmailVerificationResendIPBurst :: int
  pl_OrgInviteRate :: rat
  pl_OrgInviteBurst :: int
  pl_APIKeyMintRate :: rat
  pl_APIKeyMintBurst :: int
  pl_MFAVerifyIPRate :: rat
  pl_MFAVerifyIPBurst :: int

definition maxRate :: rat where "maxRate = 1000000"
definition maxBurst :: int where "maxBurst = 10000000"
definition maxConcurrency :: int where "maxConcurrency = 100000"
definition maxCount :: int where "maxCount = 1000000000"

definition DefaultPolicy :: rlpolicy where
  "DefaultPolicy = \<lparr>pl_TenantRequestRate = 50, pl_TenantRequestBurst = 100, pl_KeyRequestRate = 25, pl_KeyRequestBurst = 50,
     pl_TenantRecipientRate = 20, pl_TenantRecipientBurst = 500, pl_TenantMaxQueuedMessages = 10000,
     pl_MaxPendingDispatch = 100000, pl_TenantDeliveryConcurrency = 16, pl_DestinationDeliveryConcurrency = 16,
     pl_PermitTTL = 10 * minute, pl_RetryJitterPercent = 10, pl_MaxRecipientsPerMessage = 50,
     pl_AuthIPRate = 1, pl_AuthIPBurst = 10, pl_PasswordResetIPRate = 1 / 60, pl_PasswordResetIPBurst = 3,
     pl_EmailVerificationResendIPRate = 1 / 60, pl_EmailVerificationResendIPBurst = 3,
     pl_OrgInviteRate = 1 / 30, pl_OrgInviteBurst = 10, pl_APIKeyMintRate = 1 / 30, pl_APIKeyMintBurst = 10,
     pl_MFAVerifyIPRate = 1 / 12, pl_MFAVerifyIPBurst = 5\<rparr>"

definition rate_ok :: "rat \<Rightarrow> bool" where "rate_ok v \<longleftrightarrow> \<not> (v \<le> 0 \<or> v > maxRate)"
definition count_ok :: "int \<Rightarrow> int \<Rightarrow> bool" where "count_ok v mx \<longleftrightarrow> \<not> (v < 1 \<or> v > mx)"

definition policy_Validate :: "rlpolicy \<Rightarrow> bool" where
  "policy_Validate p \<longleftrightarrow>
     rate_ok (pl_TenantRequestRate p) \<and> count_ok (pl_TenantRequestBurst p) maxBurst \<and>
     rate_ok (pl_KeyRequestRate p) \<and> count_ok (pl_KeyRequestBurst p) maxBurst \<and>
     rate_ok (pl_TenantRecipientRate p) \<and> count_ok (pl_TenantRecipientBurst p) maxBurst \<and>
     count_ok (pl_TenantMaxQueuedMessages p) maxCount \<and> count_ok (pl_MaxPendingDispatch p) maxCount \<and>
     count_ok (pl_TenantDeliveryConcurrency p) maxConcurrency \<and>
     count_ok (pl_DestinationDeliveryConcurrency p) maxConcurrency \<and>
     count_ok (pl_MaxRecipientsPerMessage p) 1000 \<and>
     rate_ok (pl_AuthIPRate p) \<and> count_ok (pl_AuthIPBurst p) maxBurst \<and>
     rate_ok (pl_PasswordResetIPRate p) \<and> count_ok (pl_PasswordResetIPBurst p) maxBurst \<and>
     rate_ok (pl_EmailVerificationResendIPRate p) \<and> count_ok (pl_EmailVerificationResendIPBurst p) maxBurst \<and>
     rate_ok (pl_MFAVerifyIPRate p) \<and> count_ok (pl_MFAVerifyIPBurst p) maxBurst \<and>
     rate_ok (pl_OrgInviteRate p) \<and> count_ok (pl_OrgInviteBurst p) maxBurst \<and>
     rate_ok (pl_APIKeyMintRate p) \<and> count_ok (pl_APIKeyMintBurst p) maxBurst \<and>
     \<not> (pl_KeyRequestRate p > pl_TenantRequestRate p \<or> pl_KeyRequestBurst p > pl_TenantRequestBurst p) \<and>
     \<not> pl_TenantRecipientBurst p < pl_MaxRecipientsPerMessage p \<and>
     \<not> (pl_PermitTTL p < 10 * second \<or> pl_PermitTTL p > 24 * hour) \<and>
     \<not> (pl_RetryJitterPercent p < 0 \<or> pl_RetryJitterPercent p > 50)"

definition RetryAfterSeconds :: "duration \<Rightarrow> int" where
  "RetryAfterSeconds d =
     (if d \<le> 0 then 1
      else let s = quot_trunc (wrap64 (d + second - 1)) second;
               s1 = (if s < 1 then 1 else s)
           in if s1 > 3600 then 3600 else s1)"

section \<open>The script's loop\<close>

definition nt_of :: "rlstore \<Rightarrow> int \<Rightarrow> bucket \<Rightarrow> int" where
  "nt_of st now b = tat_of st now (bk_Key b) * 1000 + bk_interval b * bk_Cost b"

definition too_big :: "bucket \<Rightarrow> bool" where
  "too_big b \<longleftrightarrow> bk_interval b * bk_Cost b > bk_window b"

text \<open>How long the bucket has to wait, not positive when it allows the request.\<close>

definition wait_of :: "rlstore \<Rightarrow> int \<Rightarrow> bucket \<Rightarrow> int" where
  "wait_of st now b = nt_of st now b - bk_window b - now * 1000"

definition bucket_refused :: "rlstore \<Rightarrow> int \<Rightarrow> bucket \<Rightarrow> bool" where
  "bucket_refused st now b \<longleftrightarrow> too_big b \<or> 0 < wait_of st now b"

lemma gcra_loop_step:
  "gcra_loop st now i (b # bs) (nts, w, d, im) = gcra_loop st now (i + 1) bs
     (nts @ [nt_of st now b], if \<not> too_big b \<and> w < wait_of st now b \<and> 0 < wait_of st now b then wait_of st now b else w,
      if d = 0 \<and> bucket_refused st now b then i else d, if too_big b then 1 else im)"
  by (simp add: nt_of_def too_big_def wait_of_def bucket_refused_def Let_def)

definition loop_ok :: "rlstore \<Rightarrow> int \<Rightarrow> bucket list \<Rightarrow> int list \<times> int \<times> int \<times> int \<Rightarrow> int list \<times> int \<times> int \<times> int \<Rightarrow> bool" where
  "loop_ok st now bs acc acc' = (case acc of (nts, w, d, im) \<Rightarrow> case acc' of (nts', w', d', im') \<Rightarrow>
     nts' = nts @ map (nt_of st now) bs \<and> (d' = 0 \<longleftrightarrow> d = 0 \<and> \<not> list_ex (bucket_refused st now) bs) \<and>
     im' = (if list_ex too_big bs then 1 else im) \<and> w \<le> w' \<and>
     (\<forall>b\<in>set bs. \<not> too_big b \<longrightarrow> 0 < wait_of st now b \<longrightarrow> wait_of st now b \<le> w') \<and>
     (w' = w \<or> (\<exists>b\<in>set bs. \<not> too_big b \<and> 0 < wait_of st now b \<and> w' = wait_of st now b)))"

lemma gcra_loop_ok: "0 < i \<Longrightarrow> loop_ok st now bs acc (gcra_loop st now i bs acc)"
proof (induction bs arbitrary: i acc)
  case Nil
  then show ?case by (cases acc) (simp add: loop_ok_def)
next
  case (Cons a bs)
  obtain nts w d im where acc: "acc = (nts, w, d, im)" by (metis surj_pair)
  define acc1 where "acc1 = (nts @ [nt_of st now a], if \<not> too_big a \<and> w < wait_of st now a \<and> 0 < wait_of st now a then wait_of st now a else w,
      if d = 0 \<and> bucket_refused st now a then i else d, if too_big a then 1 else im)"
  obtain nts' w' d' im' where r: "gcra_loop st now (i + 1) bs acc1 = (nts', w', d', im')" by (metis surj_pair)
  have "gcra_loop st now i (a # bs) acc = (nts', w', d', im')" unfolding acc gcra_loop_step acc1_def [symmetric] r ..
  moreover have "loop_ok st now bs acc1 (nts', w', d', im')" using Cons.IH [of "i + 1" acc1] Cons.prems r by simp
  ultimately show ?case using Cons.prems by (auto simp: loop_ok_def acc acc1_def split: if_splits)
qed

lemma gcraScript_cases:
  obtains (denied) w d im where "list_ex (bucket_refused st now) bs" "d \<noteq> 0" "gcraScript st now bs = ((0, ceil_div w 1000, d, im), st)"
      "im = 1 \<longleftrightarrow> list_ex too_big bs"
      "\<And>b. b \<in> set bs \<Longrightarrow> \<not> too_big b \<Longrightarrow> 0 < wait_of st now b \<Longrightarrow> wait_of st now b \<le> w"
      "w = 0 \<or> (\<exists>b\<in>set bs. \<not> too_big b \<and> 0 < wait_of st now b \<and> w = wait_of st now b)"
  | (allowed) "\<not> list_ex (bucket_refused st now) bs"
      "gcraScript st now bs = ((1, 0, 0, 0), fold (rl_set now) (map (\<lambda>b. (bk_Key b, nt_of st now b)) bs) st)"
proof -
  obtain nts w d im where l: "gcra_loop st now 1 bs ([], 0, 0, 0) = (nts, w, d, im)" by (metis surj_pair)
  have "loop_ok st now bs ([], 0, 0, 0) (nts, w, d, im)" using gcra_loop_ok [of 1 st now bs "([], 0, 0, 0)"] by (simp add: l)
  then have f: "nts = map (nt_of st now) bs" "d = 0 \<longleftrightarrow> \<not> list_ex (bucket_refused st now) bs" "im = (if list_ex too_big bs then 1 else 0)"
    "\<And>b. b \<in> set bs \<Longrightarrow> \<not> too_big b \<Longrightarrow> 0 < wait_of st now b \<Longrightarrow> wait_of st now b \<le> w"
    "w = 0 \<or> (\<exists>b\<in>set bs. \<not> too_big b \<and> 0 < wait_of st now b \<and> w = wait_of st now b)"
    by (auto simp: loop_ok_def)
  have z: "zip (map bk_Key bs) (map (nt_of st now) bs) = map (\<lambda>b. (bk_Key b, nt_of st now b)) bs"
    by (induction bs) auto
  show ?thesis
  proof (cases "d = 0")
    case True
    then show ?thesis using allowed f(1,2) l z by (simp add: gcraScript_def)
  next
    case False
    have im: "im = 1 \<longleftrightarrow> list_ex too_big bs" using f(3) by simp
    have "gcraScript st now bs = ((0, ceil_div w 1000, d, im), st)" using l False by (simp add: gcraScript_def)
    then show ?thesis using denied [of d w im] False f(2,4,5) im by blast
  qed
qed

section \<open>One key through a run\<close>

lemma round_us_near: "x - 500 \<le> round_us x * 1000" "round_us x * 1000 \<le> x + 500"
  unfolding round_us_def Let_def by (auto simp: minus_mod_eq_mult_div [symmetric]) (presburger+)?

lemma ceil_div_ge: "0 < b \<Longrightarrow> a \<le> ceil_div a b * b" and ceil_div_less: "0 < b \<Longrightarrow> ceil_div a b * b < a + b"
proof -
  assume b: "0 < b"
  define q r where "q = (- a) div b" and "r = (- a) mod b"
  have "q * b + r = - a" by (simp add: q_def r_def)
  moreover have "0 \<le> r" "r < b" using b by (simp_all add: r_def)
  ultimately show "a \<le> ceil_div a b * b" "ceil_div a b * b < a + b" by (auto simp: ceil_div_def q_def [symmetric])
qed

definition rl_inv :: "rlstore \<Rightarrow> bool" where
  "rl_inv st \<longleftrightarrow> (\<forall>k v e. st k = Some (v, e) \<longrightarrow> v div 1000 \<le> e)"

lemma rl_inv_empty: "rl_inv (\<lambda>_. None)"
  by (simp add: rl_inv_def)

lemma rl_inv_set: "rl_inv st \<Longrightarrow> rl_inv (rl_set now (k, nt) st)"
proof -
  assume inv: "rl_inv st"
  define c where "c = ceil_div (nt - now * 1000) 1000000"
  have "nt - now * 1000 \<le> c * 1000000" unfolding c_def by (rule ceil_div_ge) simp
  then have "round_us nt * 1000 \<le> now * 1000 + c * 1000000 + 500" using round_us_near(2) [of nt] by linarith
  then have "round_us nt div 1000 \<le> now div 1000 + (c + 1000)" by linarith
  then show ?thesis using inv by (simp add: rl_inv_def rl_set_def c_def Let_def)
qed

lemma rl_inv_fold: "rl_inv st \<Longrightarrow> rl_inv (fold (rl_set now) kts st)"
  by (induction kts arbitrary: st) (auto simp: rl_inv_set)

lemma fold_set_other: "k \<notin> fst ` set kts \<Longrightarrow> fold (rl_set now) kts st k = st k"
  by (induction kts arbitrary: st) (auto simp: rl_set_def Let_def)

lemma fold_set_key:
  assumes "distinct (map fst kts)" "(k, nt) \<in> set kts"
  shows "\<exists>e. fold (rl_set now) kts st k = Some (round_us nt, e)"
  using assms
proof (induction kts arbitrary: st)
  case (Cons kt kts)
  show ?case
  proof (cases "kt = (k, nt)")
    case True
    then have "k \<notin> fst ` set kts" using Cons.prems(1) by simp
    then show ?thesis by (simp add: True fold_set_other) (simp add: rl_set_def Let_def)
  next
    case False
    then show ?thesis using Cons by simp
  qed
qed simp

lemma tat_of_ge: "now \<le> tat_of st now k"
  by (simp add: tat_of_def split: option.splits)

lemma tat_of_stored:
  assumes "rl_inv st" "st k = Some (v, e)"
  shows "tat_of st now k = max v now"
proof (cases "now div 1000 \<le> e")
  case True
  then show ?thesis by (simp add: tat_of_def rl_get_def assms(2) max_def)
next
  case False
  have "v div 1000 \<le> e" using assms by (simp add: rl_inv_def)
  then have "v < now" using False by linarith
  then show ?thesis using False by (simp add: tat_of_def rl_get_def assms(2) max_def)
qed

lemma tat_of_mono: "rl_inv st \<Longrightarrow> now \<le> now' \<Longrightarrow> tat_of st now k \<le> tat_of st now' k"
proof (cases "st k")
  case None
  then show "now \<le> now' \<Longrightarrow> ?thesis" by (simp add: tat_of_def rl_get_def)
next
  case (Some ve)
  then show "rl_inv st \<Longrightarrow> now \<le> now' \<Longrightarrow> ?thesis" by (cases ve) (simp add: tat_of_stored)
qed

lemma tat_of_cong: "st k = st' k \<Longrightarrow> tat_of st now k = tat_of st' now k"
  by (simp add: tat_of_def rl_get_def)

definition allowed_by :: "gdecision option \<Rightarrow> bool" where
  "allowed_by r = (case r of None \<Rightarrow> False | Some d \<Rightarrow> gd_Allowed d)"

lemma Allow_cases:
  assumes "Allow up st now bs = (r, st1)"
  obtains (unchanged) "st1 = st" "allowed_by r \<Longrightarrow> bs = []"
  | (charged) "allowed_by r" "list_all (\<lambda>b. \<not> bucket_invalid b \<and> \<not> bucket_refused st now b) bs"
      "st1 = fold (rl_set now) (map (\<lambda>b. (bk_Key b, nt_of st now b)) bs) st"
proof (cases "bs = [] \<or> list_ex bucket_invalid bs \<or> \<not> up")
  case True
  then show ?thesis using assms unchanged by (auto simp: Allow_def allowed_by_def Let_def split: if_splits)
next
  case False
  then have v: "bs \<noteq> []" "\<not> list_ex bucket_invalid bs" "up" by auto
  show ?thesis
  proof (cases rule: gcraScript_cases [of st now bs])
    case (denied w d im)
    then show ?thesis using assms v unchanged by (auto simp: Allow_def allowed_by_def Let_def)
  next
    case allowed
    then show ?thesis using assms v charged by (auto simp: Allow_def allowed_by_def Let_def list_all_iff list_ex_iff)
  qed
qed

text \<open>The charges a run of calls makes to one key: the instants and the costs.\<close>

fun admitted :: "string \<Rightarrow> rlstore \<Rightarrow> (int \<times> bucket list) list \<Rightarrow> (int \<times> int) list" where
  "admitted k st [] = []"
| "admitted k st ((now, bs) # calls) =
     (case Allow True st now bs of
        (r, st1) \<Rightarrow> (if allowed_by r then map (\<lambda>b. (now, bk_Cost b)) (filter (\<lambda>b. bk_Key b = k) bs) else []) @ admitted k st1 calls)"

definition calls_ok :: "string \<Rightarrow> int \<Rightarrow> int \<Rightarrow> (int \<times> bucket list) list \<Rightarrow> bool" where
  "calls_ok k interval window calls \<longleftrightarrow> sorted (map fst calls) \<and>
     list_all (\<lambda>(now, bs). distinct (map bk_Key bs) \<and>
       list_all (\<lambda>b. bk_Key b = k \<longrightarrow> bk_interval b = interval \<and> bk_window b = window) bs) calls"

lemma Allow_key:
  assumes "Allow up st now bs = (r, st1)" "rl_inv st" "distinct (map bk_Key bs)"
  shows "rl_inv st1"
    "\<not> (allowed_by r \<and> k \<in> bk_Key ` set bs) \<Longrightarrow> st1 k = st k"
    "allowed_by r \<Longrightarrow> b \<in> set bs \<Longrightarrow>
      nt_of st now b - bk_window b \<le> now * 1000 \<and> nt_of st now b - 500 \<le> tat_of st1 now (bk_Key b) * 1000"
proof -
  show inv1: "rl_inv st1" using assms(1)
    by (cases rule: Allow_cases) (auto simp: assms(2) rl_inv_fold)
  show "\<not> (allowed_by r \<and> k \<in> bk_Key ` set bs) \<Longrightarrow> st1 k = st k" using assms(1)
  proof (cases rule: Allow_cases)
    case charged
    then show "\<not> (allowed_by r \<and> k \<in> bk_Key ` set bs) \<Longrightarrow> st1 k = st k"
      by (simp add: charged(3)) (rule fold_set_other, auto)
  qed simp
  assume al: "allowed_by r" and b: "b \<in> set bs"
  from assms(1) show "nt_of st now b - bk_window b \<le> now * 1000 \<and> nt_of st now b - 500 \<le> tat_of st1 now (bk_Key b) * 1000"
  proof (cases rule: Allow_cases)
    case unchanged
    then show ?thesis using al b by simp
  next
    case charged
    have "\<not> bucket_refused st now b" using charged(2) b by (simp add: list_all_iff)
    then have late: "nt_of st now b - bk_window b \<le> now * 1000" by (simp add: bucket_refused_def wait_of_def)
    have "distinct (map fst (map (\<lambda>b. (bk_Key b, nt_of st now b)) bs))" using assms(3) by (simp add: comp_def)
    then have "\<exists>e. fold (rl_set now) (map (\<lambda>b. (bk_Key b, nt_of st now b)) bs) st (bk_Key b) = Some (round_us (nt_of st now b), e)"
      by (rule fold_set_key) (use b in auto)
    then obtain e where "st1 (bk_Key b) = Some (round_us (nt_of st now b), e)" unfolding charged(3) by blast
    from tat_of_stored [OF inv1 this, of now] have "round_us (nt_of st now b) \<le> tat_of st1 now (bk_Key b)" by simp
    then have "nt_of st now b - 500 \<le> tat_of st1 now (bk_Key b) * 1000" using round_us_near(1) [of "nt_of st now b"] by linarith
    then show ?thesis using late by blast
  qed
qed

lemma filter_key_distinct:
  "distinct (map bk_Key bs) \<Longrightarrow> filter (\<lambda>b. bk_Key b = k) bs = [] \<or> (\<exists>b. b \<in> set bs \<and> bk_Key b = k \<and> filter (\<lambda>b. bk_Key b = k) bs = [b])"
proof (induction bs)
  case (Cons a bs)
  show ?case
  proof (cases "bk_Key a = k")
    case True
    then have "filter (\<lambda>b. bk_Key b = k) bs = []" using Cons.prems by (force simp: filter_empty_conv image_iff)
    then show ?thesis using True by auto
  next
    case False
    then show ?thesis using Cons by auto
  qed
qed simp

text \<open>The charges to a key never exceed what the window and the elapsed time give.\<close>

lemma admitted_bound:
  assumes "rl_inv st" "calls_ok k I W calls" "list_all (\<lambda>c. t \<le> fst c) calls" "0 \<le> I"
  shows "admitted k st calls = [] \<or>
    I * sum_list (map snd (admitted k st calls)) \<le>
      W + 1000 * fst (last (admitted k st calls)) - 1000 * tat_of st t k + 500 * (int (length (admitted k st calls)) + 1)"
  using assms
proof (induction calls arbitrary: st t)
  case (Cons call calls)
  obtain now bs where call: "call = (now, bs)" by fastforce
  obtain r st1 where al: "Allow True st now bs = (r, st1)" by fastforce
  have now: "t \<le> now" using Cons.prems(3) by (simp add: call)
  have dist: "distinct (map bk_Key bs)" using Cons.prems(2) by (simp add: calls_ok_def call)
  note key = Allow_key [OF al Cons.prems(1) dist]
  have rest: "calls_ok k I W calls" "list_all (\<lambda>c. now \<le> fst c) calls"
    using Cons.prems(2) by (auto simp: calls_ok_def call list_all_iff)
  note IH = Cons.IH [OF key(1) rest Cons.prems(4)]
  have mono: "tat_of st t k \<le> tat_of st now k" using tat_of_mono Cons.prems(1) now by blast
  let ?here = "if allowed_by r then filter (\<lambda>b. bk_Key b = k) bs else []"
  have adm: "admitted k st (call # calls) = map (\<lambda>b. (now, bk_Cost b)) ?here @ admitted k st1 calls"
    by (simp add: call al)
  show ?case
  proof (cases "?here = []")
    case True
    then have "st1 k = st k" using key(2) [of k] by (auto simp: filter_empty_conv image_iff split: if_splits)
    then have "tat_of st1 now k = tat_of st now k" by (rule tat_of_cong)
    then show ?thesis using IH mono True by (auto simp: adm)
  next
    case False
    then obtain b where b: "allowed_by r" "b \<in> set bs" "bk_Key b = k" "?here = [b]"
      using filter_key_distinct [OF dist, of k] by (auto split: if_splits)
    have bI: "bk_interval b = I" "bk_window b = W" using Cons.prems(2) b by (auto simp: calls_ok_def call list_all_iff)
    note kb = key(3) [OF b(1,2), unfolded b(3) nt_of_def bI]
    show ?thesis
    proof (cases "admitted k st1 calls = []")
      case True
      then show ?thesis using kb mono by (simp add: adm b(4))
    next
      case False
      then show ?thesis using IH kb mono by (simp add: adm b(4) distrib_left)
    qed
  qed
qed simp

lemma Allow_inv: "rl_inv st \<Longrightarrow> rl_inv (snd (Allow up st now bs))"
  using Allow_cases [of up st now bs "fst (Allow up st now bs)" "snd (Allow up st now bs)"] rl_inv_fold by (metis prod.collapse)

definition run_calls :: "(int \<times> bucket list) list \<Rightarrow> rlstore \<Rightarrow> rlstore" where
  "run_calls calls st = fold (\<lambda>(now, bs) s. snd (Allow True s now bs)) calls st"

lemma run_calls_inv: "rl_inv st \<Longrightarrow> rl_inv (run_calls calls st)"
  by (induction calls arbitrary: st) (auto simp: run_calls_def Allow_inv)


definition rl_demo_bucket :: "string \<Rightarrow> bucket" where
  "rl_demo_bucket k = \<lparr>bk_Key = k, bk_Rate = 50, bk_Burst = 2, bk_Cost = 1\<rparr>"

definition rl_demo_calls :: "(int \<times> bucket list) list" where
  "rl_demo_calls = map (\<lambda>t. (t, [rl_demo_bucket ''a''])) [7000, 7000, 7000, 27000]"

lemma rl_demo_admitted: "admitted ''a'' (run_calls [] (\<lambda>_. None)) rl_demo_calls = [(7000, 1), (7000, 1), (27000, 1)]"
  by code_simp


lemma wait_of_later:
  assumes "rl_inv st" "\<not> too_big b" "0 \<le> v"
  shows "0 < wait_of st (now + v) b \<longleftrightarrow> v * 1000 < wait_of st now b"
proof (cases "st (bk_Key b)")
  case None
  then have "tat_of st n (bk_Key b) = n" for n by (simp add: tat_of_def rl_get_def)
  then show ?thesis using assms(2,3) by (simp add: wait_of_def nt_of_def too_big_def)
next
  case (Some ve)
  then obtain x e where "st (bk_Key b) = Some (x, e)" by (cases ve) auto
  note tat = tat_of_stored [OF assms(1) this]
  show ?thesis using assms(2,3) by (auto simp: wait_of_def nt_of_def too_big_def tat max_def)
qed

text \<open>
  The retry hint is exact: a refused request that is not impossible carries a whole number of
  microseconds after which, if nothing else is charged, the same request is allowed, and before which
  it is refused at every microsecond. A refusal charges no bucket. (For waits below 146 years, so that
  the duration fits 64 bits.)
\<close>

theorem retry_after_exact:
  assumes run: "Allow True (run_calls before (\<lambda>_. None)) now bs = (Some d, st1)" "\<not> gd_Allowed d" "\<not> gd_Impossible d"
    and small: "list_all (\<lambda>b. wait_of (run_calls before (\<lambda>_. None)) now b < 2 ^ 62) bs"
  shows "st1 = run_calls before (\<lambda>_. None) \<and> gd_RetryAfter d mod 1000 = 0 \<and> 0 < gd_RetryAfter d \<and>
    (\<forall>v \<ge> 0. allowed_by (fst (Allow True (run_calls before (\<lambda>_. None)) (now + v) bs)) \<longleftrightarrow> gd_RetryAfter d \<le> v * 1000)"
proof -
  define st where "st = run_calls before (\<lambda>_. None)"
  have inv: "rl_inv st" unfolding st_def by (intro run_calls_inv rl_inv_empty)
  have v: "bs \<noteq> []" "\<not> list_ex bucket_invalid bs" using run unfolding st_def [symmetric]
    by (auto simp: Allow_def Let_def split: if_splits)
  have allowed_iff: "allowed_by (fst (Allow True st n bs)) \<longleftrightarrow> \<not> list_ex (bucket_refused st n) bs" for n
    by (cases rule: gcraScript_cases [of st n bs]) (use v in \<open>auto simp: Allow_def allowed_by_def Let_def\<close>)
  have sc: "list_ex (bucket_refused st now) bs" using allowed_iff [of now] run by (auto simp: st_def [symmetric] allowed_by_def)
  then obtain w dn im where d: "gcraScript st now bs = ((0, ceil_div w 1000, dn, im), st)" "im = 1 \<longleftrightarrow> list_ex too_big bs"
    and w: "\<And>b. b \<in> set bs \<Longrightarrow> \<not> too_big b \<Longrightarrow> 0 < wait_of st now b \<Longrightarrow> wait_of st now b \<le> w"
      "w = 0 \<or> (\<exists>b\<in>set bs. \<not> too_big b \<and> 0 < wait_of st now b \<and> w = wait_of st now b)"
    by (cases rule: gcraScript_cases [of st now bs]) auto
  have dec: "st1 = st" "gd_RetryAfter d = wrap64 (ceil_div w 1000 * 1000)" and fits: "\<not> list_ex too_big bs"
    using run v d unfolding st_def [symmetric] by (auto simp: Allow_def Let_def)
  obtain b0 where b0: "b0 \<in> set bs" "0 < wait_of st now b0" using sc fits by (auto simp: list_ex_iff bucket_refused_def)
  have w0: "0 < w" "\<exists>b\<in>set bs. w = wait_of st now b"
    using w b0 fits by (force simp: list_ex_iff)+
  have "w < 2 ^ 62" using w0(2) small by (auto simp: st_def [symmetric] list_all_iff)
  define u where "u = ceil_div w 1000"
  have u: "w \<le> u * 1000" "u * 1000 < w + 1000" unfolding u_def by (intro ceil_div_ge ceil_div_less; simp)+
  have ra: "gd_RetryAfter d = u * 1000" unfolding dec(2) u_def [symmetric]
    using u w0(1) \<open>w < 2 ^ 62\<close> by (intro wrap64_id) auto
  have "allowed_by (fst (Allow True st (now + v) bs)) \<longleftrightarrow> u \<le> v" if "0 \<le> v" for v
  proof -
    have "list_ex (bucket_refused st (now + v)) bs \<longleftrightarrow> (\<exists>b\<in>set bs. v * 1000 < wait_of st now b)"
      using fits wait_of_later [OF inv _ that] by (auto simp: list_ex_iff bucket_refused_def)
    also have "\<dots> \<longleftrightarrow> v * 1000 < w" using w w0 fits that by (force simp: list_ex_iff)
    also have "\<dots> \<longleftrightarrow> \<not> u \<le> v" using u by auto
    finally show ?thesis unfolding allowed_iff by simp
  qed
  then show ?thesis unfolding st_def [symmetric] ra using dec(1) u w0(1) by auto
qed

lemma rl_demo_denied:
  "fst (Allow True (run_calls [(7000, [rl_demo_bucket ''a'']), (7000, [rl_demo_bucket ''a''])] (\<lambda>_. None)) 7000 [rl_demo_bucket ''a'']) =
    Some \<lparr>gd_Allowed = False, gd_RetryAfter = 20000000, gd_Impossible = False, gd_Denied = 0\<rparr>"
  by code_simp

theorem retry_after_exact_witness:
  "allowed_by (fst (Allow True (run_calls [(7000, [rl_demo_bucket ''a'']), (7000, [rl_demo_bucket ''a''])] (\<lambda>_. None)) (7000 + 20000) [rl_demo_bucket ''a'']))"
proof -
  define st where "st = run_calls [(7000, [rl_demo_bucket ''a'']), (7000, [rl_demo_bucket ''a''])] (\<lambda>_. None)"
  define d where "d = \<lparr>gd_Allowed = False, gd_RetryAfter = 20000000, gd_Impossible = False, gd_Denied = 0\<rparr>"
  have r: "Allow True st 7000 [rl_demo_bucket ''a''] = (Some d, snd (Allow True st 7000 [rl_demo_bucket ''a'']))"
    by (rule prod_eqI) (use rl_demo_denied in \<open>simp_all only: st_def d_def fst_conv snd_conv\<close>)
  have "list_all (\<lambda>b. wait_of st 7000 b < 2 ^ 62) [rl_demo_bucket ''a'']" unfolding st_def by code_simp
  from retry_after_exact [OF r [unfolded st_def] _ _ this [unfolded st_def]]
  show ?thesis by (auto simp: d_def dest: spec [of _ 20000])
qed

section \<open>Permits\<close>

text \<open>
  Calls on one permit key with one limit and one lease time, as the worker makes them. \<open>ledger\<close> keeps
  what the callers believe: each granted lease until its holder releases it.
\<close>

datatype permit_op = Take string | Give string

fun permit_step :: "string \<Rightarrow> int \<Rightarrow> duration \<Rightarrow> int \<times> permit_op \<Rightarrow> ptstore \<times> leases \<Rightarrow> ptstore \<times> leases" where
  "permit_step key limit ttl (now, Take h) (st, ledger) =
     (case Acquire True st now key limit ttl h of
        (r, st1) \<Rightarrow> (st1, if r = Some True then filter (\<lambda>(h', _). h' \<noteq> h) ledger @ [(h, now + Milliseconds ttl)] else ledger))"
| "permit_step key limit ttl (now, Give h) (st, ledger) =
     (snd (pt_Release True st now key h), filter (\<lambda>(h', _). h' \<noteq> h) ledger)"

definition live_leases :: "int \<Rightarrow> leases \<Rightarrow> leases" where
  "live_leases now ls = filter (\<lambda>(_, s). now < s) ls"

definition permits_inv :: "string \<Rightarrow> int \<Rightarrow> int \<Rightarrow> int \<Rightarrow> ptstore \<times> leases \<Rightarrow> bool" where
  "permits_inv key limit T now sl = (case sl of (st, ledger) \<Rightarrow>
     distinct (map fst ledger) \<and> set (live_leases now ledger) \<subseteq> set (pt_leases st now key) \<and>
     (\<forall>ls e. st key = Some (ls, e) \<longrightarrow>
        distinct (map fst ls) \<and> int (length ls) \<le> limit \<and> (\<forall>(h, s)\<in>set ls. s \<le> e \<and> s \<le> now + T)))"

lemma distinct_filter_keys: "distinct (map fst ls) \<Longrightarrow> distinct (map fst (filter P ls))"
  by (induction ls) auto

lemma permits_inv_later:
  assumes inv: "permits_inv key limit T now (st, ledger)" and later: "now \<le> now'"
  shows "permits_inv key limit T now' (st, ledger)"
proof -
  have "x \<in> set (pt_leases st now' key)" if x: "x \<in> set (live_leases now' ledger)" for x
  proof -
    obtain h s where xs: "x = (h, s)" "now' < s" using x by (auto simp: live_leases_def)
    have "x \<in> set (live_leases now ledger)" using x later by (auto simp: live_leases_def)
    then have in_now: "x \<in> set (pt_leases st now key)" using inv by (auto simp: permits_inv_def)
    then obtain ls e where st: "st key = Some (ls, e)" by (cases "st key") (auto simp: pt_leases_def)
    then have "x \<in> set ls" using in_now by (auto simp: pt_leases_def split: if_splits)
    moreover have "s \<le> e" using inv st \<open>x \<in> set ls\<close> xs(1) by (auto simp: permits_inv_def)
    ultimately show ?thesis using xs(2) st by (simp add: pt_leases_def)
  qed
  then show ?thesis using inv later by (fastforce simp: permits_inv_def)
qed

lemma leases_facts:
  assumes "permits_inv key limit T now (st, ledger)" "0 \<le> limit"
  shows "distinct (map fst (pt_leases st now key))" "int (length (pt_leases st now key)) \<le> limit"
    "\<And>h s. (h, s) \<in> set (pt_leases st now key) \<Longrightarrow> s \<le> now + T"
proof -
  have "distinct (map fst (pt_leases st now key)) \<and> int (length (pt_leases st now key)) \<le> limit \<and>
    (\<forall>(h, s)\<in>set (pt_leases st now key). s \<le> now + T)"
  proof (cases "st key")
    case None
    then show ?thesis using assms(2) by (simp add: pt_leases_def)
  next
    case (Some le)
    then show ?thesis using assms by (cases le) (fastforce simp: permits_inv_def pt_leases_def)
  qed
  then show "distinct (map fst (pt_leases st now key))" "int (length (pt_leases st now key)) \<le> limit"
    "\<And>h s. (h, s) \<in> set (pt_leases st now key) \<Longrightarrow> s \<le> now + T" by auto
qed

text \<open>What is left after another list of leases replaced the key's.\<close>

lemma permits_inv_replace:
  assumes "distinct (map fst ledger')" "distinct (map fst ls)" "int (length ls) \<le> limit"
    "\<And>h s. (h, s) \<in> set ls \<Longrightarrow> s \<le> e \<and> s \<le> now + T" "set (live_leases now ledger') \<subseteq> set ls" "ls \<noteq> [] \<Longrightarrow> now \<le> e"
  shows "permits_inv key limit T now (st(key := if ls = [] then None else Some (ls, e)), ledger')"
    "ls \<noteq> [] \<Longrightarrow> permits_inv key limit T now (st(key \<mapsto> (ls, e)), ledger')"
  using assms by (auto simp: permits_inv_def pt_leases_def)

lemma permits_take:
  assumes inv: "permits_inv key limit T now (st, ledger)" and pos: "1 \<le> limit" "0 \<le> T"
    and run: "acquireScript st now key limit T h = (n, st1)"
  shows "permits_inv key limit T now (st1, if n = 1 then filter (\<lambda>(h', _). h' \<noteq> h) ledger @ [(h, now + T)] else ledger)"
proof -
  define live where "live = filter (\<lambda>(h, score). \<not> score \<le> now) (pt_leases st now key)"
  define rest where "rest = filter (\<lambda>(h', _). h' \<noteq> h) live"
  define e where "e = (case st key of Some (_, e) \<Rightarrow> e | None \<Rightarrow> now)"
  have "0 \<le> limit" using pos by simp
  note lf = leases_facts [OF inv this]
  have live: "distinct (map fst live)" "int (length live) \<le> limit" "\<And>h s. (h, s) \<in> set live \<Longrightarrow> s \<le> now + T"
  proof -
    have "length live \<le> length (pt_leases st now key)" unfolding live_def by (rule length_filter_le)
    then show "int (length live) \<le> limit" using lf(2) by linarith
  qed (use lf(1,3) in \<open>auto simp: live_def intro: distinct_filter_keys\<close>)
  have sub: "set (live_leases now ledger) \<subseteq> set live"
    using inv by (force simp: permits_inv_def live_leases_def live_def)
  have led: "distinct (map fst ledger)" using inv by (simp add: permits_inv_def)
  have grant: "permits_inv key limit T now (st(key \<mapsto> (rest @ [(h, now + T)], now + T)), filter (\<lambda>(h', _). h' \<noteq> h) ledger @ [(h, now + T)])"
    if "int (length rest) < limit"
  proof (rule permits_inv_replace(2))
    show "distinct (map fst (filter (\<lambda>(h', _). h' \<noteq> h) ledger @ [(h, now + T)]))"
      using distinct_filter_keys [OF led] by auto
    show "distinct (map fst (rest @ [(h, now + T)]))"
      using distinct_filter_keys [OF live(1)] by (auto simp: rest_def)
    show "set (live_leases now (filter (\<lambda>(h', _). h' \<noteq> h) ledger @ [(h, now + T)])) \<subseteq> set (rest @ [(h, now + T)])"
      using sub by (auto simp: live_leases_def rest_def)
  qed (use that live(3) pos in \<open>auto simp: rest_def\<close>)
  have del: "length rest < length live" if "h \<in> fst ` set live"
  proof -
    from that obtain s where "(h, s) \<in> set live" by auto
    then show ?thesis unfolding rest_def by (rule length_filter_less) simp
  qed
  have kept: "permits_inv key limit T now (st(key := if live = [] then None else Some (live, e)), ledger)"
  proof (rule permits_inv_replace(1) [OF led live(1,2) _ sub])
    have key: "\<exists>ls. st key = Some (ls, e) \<and> now \<le> e \<and> x \<in> set ls" if "x \<in> set live" for x
      using that by (cases "st key") (auto simp: live_def e_def pt_leases_def split: if_splits)
    show "s \<le> e \<and> s \<le> now + T" if "(h', s) \<in> set live" for h' s
      using key [OF that] inv by (fastforce simp: permits_inv_def)
    show "now \<le> e" if "live \<noteq> []" using key [of "hd live"] that by auto
  qed
  have le: "length rest \<le> length live" unfolding rest_def by (rule length_filter_le)
  show ?thesis using run grant kept del le live(2)
    unfolding acquireScript_def Let_def live_def [symmetric] rest_def [symmetric] e_def [symmetric]
    by (auto split: if_splits)
qed

lemma permits_give:
  assumes inv: "permits_inv key limit T now (st, ledger)" and pos: "0 \<le> limit"
  shows "permits_inv key limit T now (snd (pt_Release True st now key h), filter (\<lambda>(h', _). h' \<noteq> h) ledger)"
proof (cases "st key")
  case None
  then show ?thesis using inv
    by (auto simp: pt_Release_def permits_inv_def pt_leases_def live_leases_def intro: distinct_filter_keys)
next
  case (Some le)
  then obtain ls e where st: "st key = Some (ls, e)" by (cases le) auto
  define rest where "rest = (if now \<le> e then filter (\<lambda>(h', _). h' \<noteq> h) ls else [])"
  have eff: "snd (pt_Release True st now key h) = st(key := if rest = [] then None else Some (rest, e))"
    by (simp add: pt_Release_def st rest_def Let_def)
  have "int (length rest) \<le> int (length ls)" by (simp add: rest_def)
  then show ?thesis unfolding eff using inv st pos
    by (intro permits_inv_replace(1))
      (auto simp: rest_def permits_inv_def pt_leases_def live_leases_def intro: distinct_filter_keys split: if_splits)
qed

definition permit_run :: "string \<Rightarrow> int \<Rightarrow> duration \<Rightarrow> (int \<times> permit_op) list \<Rightarrow> ptstore \<times> leases" where
  "permit_run key limit ttl ops = fold (permit_step key limit ttl) ops ((\<lambda>_. None), [])"

lemma permit_step_inv:
  assumes "permits_inv key limit (Milliseconds ttl) now sl" "1 \<le> limit" "0 \<le> Milliseconds ttl"
  shows "permits_inv key limit (Milliseconds ttl) now (permit_step key limit ttl (now, op) sl)"
proof (cases op)
  case (Take h)
  obtain st ledger where sl: "sl = (st, ledger)" by fastforce
  obtain n st1 where ac: "acquireScript st now key limit (Milliseconds ttl) h = (n, st1)" by fastforce
  show ?thesis using permits_take [OF assms(1) [unfolded sl] assms(2,3) ac] assms(1)
    by (auto simp: Take sl Acquire_def ac)
next
  case (Give h)
  obtain st ledger where sl: "sl = (st, ledger)" by fastforce
  show ?thesis using permits_give [OF assms(1) [unfolded sl]] assms(2) by (simp add: Give sl)
qed

lemma permit_run_inv:
  assumes "sorted (map fst ops)" "list_all (\<lambda>op. fst op \<le> now) ops" "1 \<le> limit" "0 \<le> Milliseconds ttl"
  shows "permits_inv key limit (Milliseconds ttl) now (permit_run key limit ttl ops)"
  using assms(1,2)
proof (induction ops arbitrary: now rule: rev_induct)
  case Nil
  then show ?case by (simp add: permit_run_def permits_inv_def live_leases_def)
next
  case (snoc x ops)
  obtain t op where x: "x = (t, op)" by fastforce
  have "permits_inv key limit (Milliseconds ttl) t (permit_run key limit ttl ops)"
    using snoc.prems by (intro snoc.IH) (auto simp: sorted_append x list_all_iff)
  from permit_step_inv [OF this assms(3,4), of op]
  have "permits_inv key limit (Milliseconds ttl) t (permit_run key limit ttl (ops @ [x]))" by (simp add: permit_run_def x)
  moreover have "t \<le> now" using snoc.prems(2) by (simp add: x)
  ultimately show ?case using permits_inv_later by (metis surj_pair)
qed

text \<open>
  (C18) Permits bound concurrency: after any sequence of calls on a permit key, in the order of the clock,
  the holders that were granted a permit, have not returned it and are still within its lease are at most
  the limit; each of them still has its lease in Redis, so none was lost to the expiry of the key.
\<close>

theorem permits_bound_holders:
  assumes "sorted (map fst ops)" "list_all (\<lambda>op. fst op \<le> now) ops" "1 \<le> limit" "0 \<le> Milliseconds ttl"
    and "permit_run key limit ttl ops = (st, ledger)"
  shows "int (length (live_leases now ledger)) \<le> limit \<and> set (live_leases now ledger) \<subseteq> set (pt_leases st now key) \<and>
    Held st now key \<le> limit"
proof -
  have inv: "permits_inv key limit (Milliseconds ttl) now (st, ledger)" using permit_run_inv [OF assms(1-4)] assms(5) by metis
  have "0 \<le> limit" using assms(3) by simp
  note lf = leases_facts [OF inv this]
  have sub: "set (live_leases now ledger) \<subseteq> set (pt_leases st now key)" using inv by (simp add: permits_inv_def)
  have "distinct (live_leases now ledger)"
    using inv distinct_filter_keys distinct_map by (fastforce simp: permits_inv_def live_leases_def)
  then have "length (live_leases now ledger) = card (set (live_leases now ledger))" by (simp add: distinct_card)
  also have "\<dots> \<le> card (set (pt_leases st now key))" using sub by (intro card_mono) auto
  also have "\<dots> \<le> length (pt_leases st now key)" by (rule card_length)
  finally show ?thesis using sub lf(2) by (simp add: Held_def)
qed

definition rl_demo_ops :: "(int \<times> permit_op) list" where
  "rl_demo_ops = [(10, Take ''x''), (11, Take ''y''), (12, Take ''z''), (13, Give ''x''), (14, Take ''z'')]"

definition rl_demo_permits where "rl_demo_permits = permit_run ''k'' 2 second rl_demo_ops"

lemma rl_demo_ledger: "snd rl_demo_permits = [(''y'', 1011), (''z'', 1014)]"
  by code_simp

theorem permits_bound_holders_witness: "Held (fst rl_demo_permits) 15 ''k'' \<le> 2 \<and> length (live_leases 15 (snd rl_demo_permits)) = 2"
proof -
  have "sorted (map fst rl_demo_ops)" "list_all (\<lambda>op. fst op \<le> 15) rl_demo_ops" "0 \<le> Milliseconds second" by code_simp+
  moreover have "permit_run ''k'' 2 second rl_demo_ops = (fst rl_demo_permits, snd rl_demo_permits)" by (simp add: rl_demo_permits_def)
  ultimately show ?thesis using permits_bound_holders [of rl_demo_ops 15 2 second "''k''"]
    by (simp add: rl_demo_ledger) (simp add: live_leases_def)
qed

section \<open>A full burst can be impossible\<close>

definition recipient_bucket :: "rlpolicy \<Rightarrow> string \<Rightarrow> int \<Rightarrow> bucket" where
  "recipient_bucket p k n = \<lparr>bk_Key = k, bk_Rate = pl_TenantRecipientRate p, bk_Burst = pl_TenantRecipientBurst p, bk_Cost = n\<rparr>"

definition rl_sixty :: rlpolicy where
  "rl_sixty = DefaultPolicy\<lparr>pl_TenantRecipientRate := 60, pl_TenantRecipientBurst := 50\<rparr>"

text \<open>
  The interval is rounded to three decimals before it is multiplied by the cost, the window after the
  multiplication by the burst. Where the interval is rounded up, a request of a full burst exceeds the
  window: with a valid policy of 60 recipients per second and a burst of 50, a message with the maximum
  of 50 recipients is refused as impossible, for ever, on an untouched bucket.
\<close>

theorem full_burst_impossible:
  "policy_Validate rl_sixty \<and> pl_MaxRecipientsPerMessage rl_sixty = 50 \<and>
   fst (Allow True (\<lambda>_. None) now [recipient_bucket rl_sixty k 50]) =
     Some \<lparr>gd_Allowed = False, gd_RetryAfter = 0, gd_Impossible = True, gd_Denied = 0\<rparr>"
proof -
  have iv: "bk_interval (recipient_bucket rl_sixty k 50) = 16666667" "bk_window (recipient_bucket rl_sixty k 50) = 833333333"
    by (simp_all add: bk_interval_def bk_window_def recipient_bucket_def rl_sixty_def DefaultPolicy_def three_decimals_def floor_eq_iff)
  have "policy_Validate rl_sixty" by code_simp
  moreover have "pl_MaxRecipientsPerMessage rl_sixty = 50" by code_simp
  moreover have "\<not> bucket_invalid (recipient_bucket rl_sixty k 50)" "bk_Cost (recipient_bucket rl_sixty k 50) = 50"
    by (simp_all add: bucket_invalid_def recipient_bucket_def rl_sixty_def DefaultPolicy_def)
  ultimately show ?thesis by (simp add: Allow_def gcraScript_def iv Let_def ceil_div_def wrap64_def)
qed

lemma default_policy_valid: "policy_Validate DefaultPolicy"
  by code_simp

lemma RetryAfterSeconds_bounds: "1 \<le> RetryAfterSeconds d \<and> RetryAfterSeconds d \<le> 3600"
  by (simp add: RetryAfterSeconds_def Let_def)

lemma RetryAfterSeconds_not_early:
  assumes "0 < d" "d \<le> 3600 * second"
  shows "d \<le> RetryAfterSeconds d * second"
proof -
  define s where "s = (d + second - 1) div second"
  have w: "wrap64 (d + second - 1) = d + second - 1" using assms by (intro wrap64_id) auto
  have "quot_trunc (d + second - 1) second = s" using assms by (simp add: quot_trunc_nonneg s_def)
  moreover have "1 \<le> s" "s \<le> 3600" "d \<le> s * second" using assms by (auto simp: s_def)
  ultimately show ?thesis using assms w by (simp add: RetryAfterSeconds_def Let_def)
qed

end
