(* ===== verification/Net_IP.thy ===== *)
theory Net_IP
  imports Prelude Calendar
begin

text \<open>
  IP addresses as \<^verbatim>\<open>net/netip\<close> has them: parsing and printing of IPv4 and IPv6 addresses, with the
  compression of zero groups and embedded IPv4 addresses, prefixes and containment. An address is the
  list of its four bytes or of its eight 16-bit groups.
\<close>

datatype ipaddr = IP4 "nat list" | IP6 "nat list"

definition ip_wf :: "ipaddr \<Rightarrow> bool" where
  "ip_wf a = (case a of
      IP4 bs \<Rightarrow> length bs = 4 \<and> list_all (\<lambda>b. b < 256) bs
    | IP6 gs \<Rightarrow> length gs = 8 \<and> list_all (\<lambda>g. g < 65536) gs)"

definition Is4 :: "ipaddr \<Rightarrow> bool" where
  "Is4 a = (case a of IP4 _ \<Rightarrow> True | IP6 _ \<Rightarrow> False)"

definition Is4In6 :: "ipaddr \<Rightarrow> bool" where
  "Is4In6 a = (case a of IP4 _ \<Rightarrow> False | IP6 gs \<Rightarrow> take 6 gs = [0, 0, 0, 0, 0, 65535])"

definition Unmap :: "ipaddr \<Rightarrow> ipaddr" where
  "Unmap a = (case a of
      IP4 bs \<Rightarrow> IP4 bs
    | IP6 gs \<Rightarrow> if Is4In6 (IP6 gs) then IP4 [gs ! 6 div 256, gs ! 6 mod 256, gs ! 7 div 256, gs ! 7 mod 256] else IP6 gs)"

section \<open>Printing\<close>

definition hex_char :: "nat \<Rightarrow> char" where
  "hex_char n = (if n < 10 then char_of (48 + n) else char_of (87 + n))"

fun hex_text :: "nat \<Rightarrow> string" where
  "hex_text n = (if n < 16 then [hex_char n] else hex_text (n div 16) @ [hex_char (n mod 16)])"

declare hex_text.simps [simp del]

definition zero_run_from :: "nat list \<Rightarrow> nat \<Rightarrow> nat" where
  "zero_run_from gs i = length (takeWhile (\<lambda>g. g = 0) (drop i gs))"

text \<open>The first longest run of at least two zero groups, as its bounds.\<close>

definition zero_run :: "nat list \<Rightarrow> nat \<times> nat" where
  "zero_run gs = fold (\<lambda>i (s, e). let l = zero_run_from gs i in if l \<ge> 2 \<and> l > e - s then (i, i + l) else (s, e)) [0..<8] (255, 255)"

definition groups_text :: "nat list \<Rightarrow> string" where
  "groups_text gs = join_with '':'' (map hex_text gs)"

definition ip4_text :: "nat list \<Rightarrow> string" where
  "ip4_text bs = join_with ''.'' (map nat_dec bs)"

definition ip6_text :: "nat list \<Rightarrow> string" where
  "ip6_text gs =
     (case zero_run gs of (s, e) \<Rightarrow>
        if s = 255 then groups_text gs else groups_text (take s gs) @ ''::'' @ groups_text (drop e gs))"

definition ip_String :: "ipaddr \<Rightarrow> string" where
  "ip_String a = (case a of
      IP4 bs \<Rightarrow> ip4_text bs
    | IP6 gs \<Rightarrow>
        if Is4In6 a then ''::ffff:'' @ ip4_text [gs ! 6 div 256, gs ! 6 mod 256, gs ! 7 div 256, gs ! 7 mod 256]
        else ip6_text gs)"

section \<open>Parsing\<close>

definition parse4_field :: "string \<Rightarrow> nat option" where
  "parse4_field s =
     (if s = [] \<or> \<not> list_all is_digit s \<or> (length s > 1 \<and> hd s = CHR ''0'') \<or> dec_val s > 255 then None else Some (dec_val s))"

definition parseIPv4 :: "string \<Rightarrow> nat list option" where
  "parseIPv4 s =
     (case split_byte (CHR ''.'') s of
        [a, b, c, d] \<Rightarrow>
          (case (parse4_field a, parse4_field b, parse4_field c, parse4_field d) of
             (Some w, Some x, Some y, Some z) \<Rightarrow> Some [w, x, y, z]
           | _ \<Rightarrow> None)
      | _ \<Rightarrow> None)"

definition is_hex :: "char \<Rightarrow> bool" where
  "is_hex c \<longleftrightarrow> is_digit c \<or> (97 \<le> byte c \<and> byte c \<le> 102) \<or> (65 \<le> byte c \<and> byte c \<le> 70)"

definition hex_digit_val :: "char \<Rightarrow> nat" where
  "hex_digit_val c = (if is_digit c then byte c - 48 else if 97 \<le> byte c then byte c - 87 else byte c - 55)"

definition hex_val :: "string \<Rightarrow> nat" where
  "hex_val s = foldl (\<lambda>a c. 16 * a + hex_digit_val c) 0 s"

lemma parse6_shrink:
  "dropWhile P s \<noteq> [] \<Longrightarrow> length (dropWhile P s) - Suc n < length s"
  using length_dropWhile_le [of P s] by (cases "dropWhile P s") auto

text \<open>The loop of \<^verbatim>\<open>parseIPv6\<close>: the groups so far, where the ellipsis was, and what is left.\<close>

function parse6 :: "nat list \<Rightarrow> nat option \<Rightarrow> string \<Rightarrow> (nat list \<times> nat option) option" where
  "parse6 acc ell s =
     (if length acc \<ge> 8 then (if s = [] then Some (acc, ell) else None)
      else let h = takeWhile is_hex s; rest = dropWhile is_hex s
           in if h = [] \<or> length h > 4 then None
              else if rest \<noteq> [] \<and> hd rest = CHR ''.'' then
                (if (ell = None \<and> length acc \<noteq> 6) \<or> length acc + 2 > 8 then None
                 else case parseIPv4 s of
                     Some [w, x, y, z] \<Rightarrow> Some (acc @ [w * 256 + x, y * 256 + z], ell)
                   | _ \<Rightarrow> None)
              else let acc1 = acc @ [hex_val h]
                   in if rest = [] then Some (acc1, ell)
                      else if hd rest \<noteq> CHR '':'' \<or> length rest = 1 then None
                      else if hd (tl rest) = CHR '':'' then
                        (if ell \<noteq> None then None
                         else if tl (tl rest) = [] then Some (acc1, Some (length acc1))
                         else parse6 acc1 (Some (length acc1)) (tl (tl rest)))
                      else parse6 acc1 ell (tl rest))"
  by pat_completeness auto
termination
  by (relation "measure (\<lambda>(acc, ell, s). length s)")
     (auto simp: parse6_shrink)

declare parse6.simps [simp del]

definition expand6 :: "nat list \<times> nat option \<Rightarrow> nat list option" where
  "expand6 r = (case r of (acc, ell) \<Rightarrow>
     if length acc < 8 then
       (case ell of None \<Rightarrow> None | Some e \<Rightarrow> Some (take e acc @ replicate (8 - length acc) 0 @ drop e acc))
     else if ell \<noteq> None then None
     else Some acc)"

text \<open>The address and its zone.\<close>

definition parseIPv6 :: "string \<Rightarrow> (nat list \<times> string) option" where
  "parseIPv6 s0 =
     (let zi = IndexByte s0 (CHR ''%'');
          s = (case zi of None \<Rightarrow> s0 | Some i \<Rightarrow> take i s0);
          zone = (case zi of None \<Rightarrow> [] | Some i \<Rightarrow> drop (Suc i) s0)
      in if zi \<noteq> None \<and> zone = [] then None
         else if take 2 s = ''::'' then
           (if drop 2 s = [] then Some (replicate 8 0, zone)
            else map_option (\<lambda>gs. (gs, zone)) (Option.bind (parse6 [] (Some 0) (drop 2 s)) expand6))
         else map_option (\<lambda>gs. (gs, zone)) (Option.bind (parse6 [] None s) expand6))"

fun addr_kind :: "string \<Rightarrow> char option" where
  "addr_kind [] = None"
| "addr_kind (c # s) = (if c \<in> set ''.:%'' then Some c else addr_kind s)"

definition ParseAddr :: "string \<Rightarrow> (ipaddr \<times> string) option" where
  "ParseAddr s =
     (case addr_kind s of
        None \<Rightarrow> None
      | Some c \<Rightarrow>
          if c = CHR ''.'' then map_option (\<lambda>bs. (IP4 bs, [])) (parseIPv4 s)
          else if c = CHR '':'' then map_option (\<lambda>(gs, z). (IP6 gs, z)) (parseIPv6 s)
          else None)"

section \<open>Prefixes\<close>

definition bits_of :: "nat \<Rightarrow> nat \<Rightarrow> bool list" where
  "bits_of w n = map (\<lambda>i. odd (n div 2 ^ (w - 1 - i))) [0..<w]"

definition ip_bits :: "ipaddr \<Rightarrow> bool list" where
  "ip_bits a = (case a of IP4 bs \<Rightarrow> concat (map (bits_of 8) bs) | IP6 gs \<Rightarrow> concat (map (bits_of 16) gs))"

record prefix =
  px_is4 :: bool
  px_bits :: "bool list"

definition addr_Prefix :: "ipaddr \<Rightarrow> nat \<Rightarrow> prefix option" where
  "addr_Prefix a n =
     (if n > (if Is4 a then 32 else 128) then None else Some \<lparr>px_is4 = Is4 a, px_bits = take n (ip_bits a)\<rparr>)"

definition prefix_Contains :: "prefix \<Rightarrow> ipaddr \<Rightarrow> bool" where
  "prefix_Contains p a \<longleftrightarrow> px_is4 p = Is4 a \<and> take (length (px_bits p)) (ip_bits a) = px_bits p"

lemma length_bits_of [simp]: "length (bits_of w n) = w"
  by (simp add: bits_of_def)

lemma length_ip_bits: "ip_wf a \<Longrightarrow> length (ip_bits a) = (if Is4 a then 32 else 128)"
  by (cases a) (auto simp: ip_wf_def ip_bits_def Is4_def length_concat comp_def map_replicate_const sum_list_replicate)

lemma host_prefix_contains:
  "ip_wf a \<Longrightarrow> \<exists>p. addr_Prefix a (if Is4 a then 32 else 128) = Some p \<and> prefix_Contains p a"
  by (simp add: addr_Prefix_def prefix_Contains_def length_ip_bits)

section \<open>What is printed is parsed back\<close>

lemma split_join: "list_all (\<lambda>w. b \<notin> set w) ws \<Longrightarrow> ws \<noteq> [] \<Longrightarrow> split_byte b (join_with [b] ws) = ws"
  by (induction "[b]" ws rule: join_with.induct) (auto simp: split_byte_free split_byte_append)

lemma parse4_field_print: "n < 256 \<Longrightarrow> parse4_field (nat_dec n) = Some n"
  using canonical_nat_dec [of n] by (auto simp: parse4_field_def canonical_dec_def)

lemma dot_not_digit: "list_all is_digit w \<Longrightarrow> CHR ''.'' \<notin> set w"
  by (auto simp: list_all_iff is_digit_def)

lemma parseIPv4_print: "ip_wf (IP4 bs) \<Longrightarrow> parseIPv4 (ip4_text bs) = Some bs"
proof -
  assume wf: "ip_wf (IP4 bs)"
  then obtain a b c d where bs: "bs = [a, b, c, d]" "a < 256" "b < 256" "c < 256" "d < 256"
    by (auto simp: ip_wf_def length_Suc_conv numeral_eq_Suc)
  have "split_byte (CHR ''.'') (ip4_text bs) = map nat_dec bs"
    unfolding ip4_text_def using bs(1) by (intro split_join) (auto simp: dot_not_digit nat_dec_digits)
  then show ?thesis using bs by (simp add: parseIPv4_def parse4_field_print)
qed

lemma hex_char_props:
  "n < 16 \<Longrightarrow> is_hex (hex_char n)" "n < 16 \<Longrightarrow> hex_digit_val (hex_char n) = n"
  by (auto simp: hex_char_def is_hex_def hex_digit_val_def is_digit_def)

lemma hex_text_small: "n < 16 \<Longrightarrow> hex_text n = [hex_char n]"
  by (subst hex_text.simps) simp

lemma hex_text_step: "\<not> n < 16 \<Longrightarrow> hex_text n = hex_text (n div 16) @ [hex_char (n mod 16)]"
  by (subst hex_text.simps) simp

lemma hex_text_not_Nil [simp]: "hex_text n \<noteq> []"
  by (subst hex_text.simps) simp

lemma hex_text_props: "list_all is_hex (hex_text n) \<and> hex_val (hex_text n) = n"
proof (induction n rule: hex_text.induct)
  case (1 n)
  show ?case
  proof (cases "n < 16")
    case True
    then show ?thesis by (simp add: hex_text_small hex_char_props hex_val_def)
  next
    case False
    with 1 show ?thesis by (simp add: hex_text_step hex_char_props hex_val_def)
  qed
qed

lemma length_hex_text: "n < 16 ^ Suc k \<Longrightarrow> length (hex_text n) \<le> Suc k"
proof (induction k arbitrary: n)
  case 0
  then show ?case by (simp add: hex_text_small)
next
  case (Suc k)
  show ?case
  proof (cases "n < 16")
    case False
    moreover have "n div 16 < 16 ^ Suc k" using Suc.prems by (simp add: less_mult_imp_div_less mult.commute)
    ultimately show ?thesis using Suc.IH [of "n div 16"] by (simp add: hex_text_step)
  qed (simp add: hex_text_small)
qed

lemma hex_take_drop:
  "rest = [] \<or> \<not> is_hex (hd rest) \<Longrightarrow> takeWhile is_hex (hex_text n @ rest) = hex_text n"
  "rest = [] \<or> \<not> is_hex (hd rest) \<Longrightarrow> dropWhile is_hex (hex_text n @ rest) = rest"
  using hex_text_props [of n]
  by (cases rest; simp add: list_all_iff takeWhile_append dropWhile_append)+

lemma parse6_group:
  assumes "length acc < 8" and "g < 65536" and "rest = [] \<or> \<not> is_hex (hd rest)" and "rest = [] \<or> hd rest \<noteq> CHR ''.''"
  shows "parse6 acc ell (hex_text g @ rest) =
    (if rest = [] then Some (acc @ [g], ell)
     else if hd rest \<noteq> CHR '':'' \<or> length rest = 1 then None
     else if hd (tl rest) = CHR '':'' then
       (if ell \<noteq> None then None
        else if tl (tl rest) = [] then Some (acc @ [g], Some (Suc (length acc)))
        else parse6 (acc @ [g]) (Some (Suc (length acc))) (tl (tl rest)))
     else parse6 (acc @ [g]) ell (tl rest))"
proof -
  have l: "(hex_text g = [] \<or> 4 < length (hex_text g)) = False" using length_hex_text [of g 3] assms(2) by simp
  have d: "(rest \<noteq> [] \<and> hd rest = CHR ''.'') = False" using assms(4) by blast
  have a: "(8 \<le> length acc) = False" using assms(1) by simp
  have v: "hex_val (hex_text g) = g" using hex_text_props by blast
  show ?thesis
    unfolding parse6.simps [of acc ell "hex_text g @ rest"] hex_take_drop [OF assms(3)] Let_def l d a v if_False by simp
qed

lemma hd_hex_text: "is_hex (hd (hex_text g))" "hd (hex_text g @ r) = hd (hex_text g)"
  using hex_text_props [of g] by (cases "hex_text g"; simp)+

lemma colon_not_hex [simp]: "\<not> is_hex (CHR '':'')" "\<not> is_hex (CHR ''.'')" "\<not> is_hex (CHR ''%'')"
  by (simp_all add: is_hex_def is_digit_def)

lemma groups_text_Cons: "groups_text (g # gs) = hex_text g @ (if gs = [] then [] else CHR '':'' # groups_text gs)"
  by (cases gs) (simp_all add: groups_text_def)

lemma hd_groups_text: "gs \<noteq> [] \<Longrightarrow> groups_text gs \<noteq> [] \<and> is_hex (hd (groups_text gs)) \<and> hd (groups_text gs @ r) = hd (groups_text gs)"
  by (cases gs) (auto simp: groups_text_Cons hd_hex_text)

lemma parse6_groups:
  assumes "gs \<noteq> []" and "length acc + length gs \<le> 8" and "list_all (\<lambda>g. g < 65536) gs"
  shows "parse6 acc ell (groups_text gs) = Some (acc @ gs, ell)"
  using assms
proof (induction gs arbitrary: acc)
  case (Cons g gs)
  show ?case
  proof (cases "gs = []")
    case True
    then show ?thesis using Cons.prems parse6_group [of acc g "[]" ell] by (simp add: groups_text_Cons)
  next
    case False
    then have h: "groups_text gs \<noteq> []" "is_hex (hd (groups_text gs))" using hd_groups_text [of gs] by auto
    then have "hd (groups_text gs) \<noteq> CHR '':''" using colon_not_hex by metis
    then show ?thesis
      using Cons.IH [of "acc @ [g]"] Cons.prems False h parse6_group [of acc g "CHR '':'' # groups_text gs" ell]
      by (simp add: groups_text_Cons)
  qed
qed simp

lemma parse6_ellipsis:
  assumes "gs \<noteq> []" and "length acc + length gs + length hs < 8" and "list_all (\<lambda>g. g < 65536) (gs @ hs)"
  shows "parse6 acc None (groups_text gs @ ''::'' @ groups_text hs) = Some (acc @ gs @ hs, Some (length acc + length gs))"
  using assms
proof (induction gs arbitrary: acc)
  case (Cons g gs)
  show ?case
  proof (cases "gs = []")
    case True
    show ?thesis
    proof (cases "hs = []")
      case True
      then show ?thesis using \<open>gs = []\<close> Cons.prems parse6_group [of acc g "''::''" None]
        by (simp add: groups_text_Cons groups_text_def)
    next
      case False
      then show ?thesis
        using \<open>gs = []\<close> Cons.prems parse6_group [of acc g "''::'' @ groups_text hs" None] hd_groups_text [OF False]
          parse6_groups [OF False, of "acc @ [g]" "Some (Suc (length acc))"]
        by (simp add: groups_text_Cons)
    qed
  next
    case False
    let ?r = "groups_text gs @ ''::'' @ groups_text hs"
    have h: "?r \<noteq> []" "is_hex (hd ?r)" using hd_groups_text [OF False] by auto
    then have "hd ?r \<noteq> CHR '':''" using colon_not_hex by metis
    then show ?thesis
      using Cons.IH [of "acc @ [g]"] Cons.prems False h parse6_group [of acc g "CHR '':'' # ?r" None]
      by (simp add: groups_text_Cons)
  qed
qed simp

text \<open>The run that is compressed is a run of zeros inside the address.\<close>

definition run_ok :: "nat list \<Rightarrow> nat \<times> nat \<Rightarrow> bool" where
  "run_ok gs r = (case r of (s, e) \<Rightarrow> (s = 255 \<and> e = 255) \<or> (s + 2 \<le> e \<and> e \<le> length gs \<and> take (e - s) (drop s gs) = replicate (e - s) 0))"

lemma zero_run_from_ok: "zero_run_from gs i \<ge> 2 \<Longrightarrow> run_ok gs (i, i + zero_run_from gs i)"
proof -
  let ?l = "zero_run_from gs i"
  assume l: "?l \<ge> 2"
  have "?l \<le> length gs - i" by (metis length_drop length_takeWhile_le zero_run_from_def)
  then have e: "i + ?l \<le> length gs" using l by linarith
  have "take ?l (drop i gs) = takeWhile (\<lambda>g. g = 0) (drop i gs)"
    unfolding zero_run_from_def by (metis takeWhile_eq_take)
  also have "\<dots> = replicate ?l 0"
    unfolding zero_run_from_def by (rule replicate_eqI) (auto dest: set_takeWhileD)
  finally show ?thesis using l e by (simp add: run_ok_def)
qed

lemma zero_run_ok: "run_ok gs (zero_run gs)"
proof -
  let ?f = "\<lambda>i (s, e). let l = zero_run_from gs i in if l \<ge> 2 \<and> l > e - s then (i, i + l) else (s, e)"
  have "run_ok gs (fold ?f is r)" if "run_ok gs r" for "is" r
    using that
  proof (induction "is" arbitrary: r)
    case (Cons i js)
    have "run_ok gs (?f i r)" using Cons.prems zero_run_from_ok [of gs i] by (cases r) (simp add: Let_def)
    then show ?case using Cons.IH by simp
  qed simp
  then show ?thesis unfolding zero_run_def by (simp add: run_ok_def)
qed

lemma zero_run_split:
  assumes "zero_run gs = (s, e)" and "length gs = 8" and "s \<noteq> 255"
  shows "s + 2 \<le> e" and "e \<le> 8" and "take s gs @ replicate (e - s) 0 @ drop e gs = gs"
proof -
  have r: "s + 2 \<le> e" "e \<le> length gs" "take (e - s) (drop s gs) = replicate (e - s) 0"
    using zero_run_ok [of gs] assms(1,3) by (auto simp: run_ok_def)
  have "gs = take s gs @ take (e - s) (drop s gs) @ drop (e - s) (drop s gs)" by (simp only: append_take_drop_id)
  then show "take s gs @ replicate (e - s) 0 @ drop e gs = gs" using r by simp
  show "s + 2 \<le> e" "e \<le> 8" using r assms(2) by simp_all
qed

lemma groups_text_chars: "c \<in> set (groups_text gs) \<Longrightarrow> is_hex c \<or> c = CHR '':''"
proof (induction gs)
  case (Cons g gs)
  then show ?case using hex_text_props [of g] by (auto simp: groups_text_Cons list_all_iff split: if_splits)
qed (simp add: groups_text_def)

lemma ip6_text_chars: "c \<in> set (ip6_text gs) \<Longrightarrow> is_hex c \<or> c = CHR '':''"
  by (auto simp: ip6_text_def split: prod.splits if_splits dest: groups_text_chars)

lemma IndexByte_absent: "IndexByte s b = None \<longleftrightarrow> b \<notin> set s"
  by (induction s) auto

lemma addr_kind_skip: "list_all (\<lambda>c. c \<notin> set ''.:%'') w \<Longrightarrow> addr_kind (w @ s) = addr_kind s"
  by (induction w) auto

lemma hex_not_sep: "is_hex c \<Longrightarrow> c \<notin> set ''.:%''"
  by (auto simp: is_hex_def is_digit_def)

lemma addr_kind_colon: "list_all is_hex w \<Longrightarrow> addr_kind (w @ CHR '':'' # s) = Some (CHR '':'')"
  using addr_kind_skip [of w "CHR '':'' # s"] hex_not_sep by (auto simp: list_all_iff)

lemma parseIPv6_print: "ip_wf (IP6 gs) \<Longrightarrow> parseIPv6 (ip6_text gs) = Some (gs, [])"
proof -
  assume "ip_wf (IP6 gs)"
  then have gs: "length gs = 8" "list_all (\<lambda>g. g < 65536) gs" "gs \<noteq> []" by (auto simp: ip_wf_def)
  obtain s e where z: "zero_run gs = (s, e)" by fastforce
  have no_zone: "IndexByte (ip6_text gs) (CHR ''%'') = None"
    using ip6_text_chars [of "CHR ''%''" gs] by (auto simp: IndexByte_absent)
  show ?thesis
  proof (cases "s = 255")
    case True
    then have t: "ip6_text gs = groups_text gs" by (simp add: ip6_text_def z)
    have "take 2 (groups_text gs) \<noteq> ''::''"
      using hd_groups_text [OF gs(3), of "[]"] by (cases "groups_text gs") (auto simp: numeral_2_eq_2)
    then show ?thesis
      using no_zone gs parse6_groups [of gs "[]" None] by (simp add: parseIPv6_def t expand6_def)
  next
    case False
    note sp = zero_run_split [OF z gs(1) False]
    have t: "ip6_text gs = groups_text (take s gs) @ ''::'' @ groups_text (drop e gs)" using False by (simp add: ip6_text_def z)
    have all: "list_all (\<lambda>g. g < 65536) (take s gs @ drop e gs)"
      using gs(2) by (auto simp: list_all_iff dest: in_set_takeD in_set_dropD)
    have len: "length (take s gs @ drop e gs) = 8 - (e - s)" using sp(1,2) gs(1) by simp
    have ex: "expand6 (take s gs @ drop e gs, Some s) = Some gs"
      using sp gs(1) by (simp add: expand6_def)
    show ?thesis
    proof (cases "s = 0")
      case True
      show ?thesis
      proof (cases "drop e gs = []")
        case True
        then have "gs = replicate 8 0" using sp \<open>s = 0\<close> gs(1) by simp
        then show ?thesis using no_zone t True \<open>s = 0\<close> by (simp add: parseIPv6_def groups_text_def)
      next
        case False
        then have "groups_text (drop e gs) \<noteq> []" using hd_groups_text by blast
        moreover have "parse6 [] (Some 0) (groups_text (drop e gs)) = Some (drop e gs, Some 0)"
          using parse6_groups [OF False, of "[]" "Some 0"] all gs(1) by simp
        ultimately show ?thesis
          using no_zone t ex \<open>s = 0\<close> by (simp add: parseIPv6_def groups_text_def)
      qed
    next
      case False
      then have ne: "take s gs \<noteq> []" using gs(3) by simp
      have "parse6 [] None (ip6_text gs) = Some (take s gs @ drop e gs, Some s)"
        using parse6_ellipsis [OF ne, of "[]" "drop e gs"] all len sp gs(1) by (simp add: t)
      moreover have "take 2 (ip6_text gs) \<noteq> ''::''"
        using hd_groups_text [OF ne, of "[]"] by (cases "groups_text (take s gs)") (auto simp: t numeral_2_eq_2)
      ultimately show ?thesis using no_zone ex by (simp add: parseIPv6_def)
    qed
  qed
qed

lemma addr_kind_ip6: "ip_wf (IP6 gs) \<Longrightarrow> addr_kind (ip6_text gs) = Some (CHR '':'')"
proof -
  assume "ip_wf (IP6 gs)"
  then have gs: "length gs = 8" by (simp add: ip_wf_def)
  obtain s e where z: "zero_run gs = (s, e)" by fastforce
  have two: "addr_kind (groups_text hs @ CHR '':'' # r) = Some (CHR '':'')" for hs r
  proof (cases hs)
    case (Cons g hs')
    then show ?thesis using addr_kind_colon [of "hex_text g"] hex_text_props [of g] by (simp add: groups_text_Cons)
  qed (simp add: groups_text_def)
  obtain g h hs where "gs = g # h # hs" using gs by (auto simp: length_Suc_conv numeral_eq_Suc)
  then have "addr_kind (groups_text gs) = Some (CHR '':'')"
    using addr_kind_colon [of "hex_text g"] hex_text_props [of g] by (simp add: groups_text_Cons)
  then show ?thesis using two by (simp add: ip6_text_def z)
qed

lemma addr_kind_ip4: "ip_wf (IP4 bs) \<Longrightarrow> addr_kind (ip4_text bs) = Some (CHR ''.'')"
proof -
  assume "ip_wf (IP4 bs)"
  then obtain a b bs' where bs: "bs = a # b # bs'" by (auto simp: ip_wf_def length_Suc_conv numeral_eq_Suc)
  have "list_all (\<lambda>c. c \<notin> set ''.:%'') (nat_dec a)"
    using nat_dec_digits [of a] by (auto simp: list_all_iff is_digit_def)
  then show ?thesis using bs addr_kind_skip [of "nat_dec a" "CHR ''.'' # join_with ''.'' (map nat_dec (b # bs'))"] by (simp add: ip4_text_def)
qed

text \<open>An address that is not an IPv4-mapped one is read back from its text, with no zone.\<close>

lemma ParseAddr_String: "ip_wf a \<Longrightarrow> \<not> Is4In6 a \<Longrightarrow> ParseAddr (ip_String a) = Some (a, [])"
  by (cases a) (simp_all add: ip_String_def ParseAddr_def addr_kind_ip4 addr_kind_ip6 parseIPv4_print parseIPv6_print)

section \<open>What is parsed is well formed\<close>

lemma parseIPv4_wf: "parseIPv4 s = Some bs \<Longrightarrow> ip_wf (IP4 bs)"
  by (auto simp: parseIPv4_def ip_wf_def parse4_field_def split: list.splits option.splits if_splits)

lemma hex_val_less: "list_all is_hex w \<Longrightarrow> hex_val w < 16 ^ length w"
proof (induction w rule: rev_induct)
  case (snoc c w)
  then have "hex_digit_val c < 16" by (auto simp: is_hex_def hex_digit_val_def is_digit_def)
  then show ?case using snoc by (simp add: hex_val_def)
qed (simp add: hex_val_def)

lemma hex_group_less: "length (takeWhile is_hex s) \<le> 4 \<Longrightarrow> hex_val (takeWhile is_hex s) < 65536"
proof -
  assume "length (takeWhile is_hex s) \<le> 4"
  then have "(16::nat) ^ length (takeWhile is_hex s) \<le> 16 ^ 4" by (rule power_increasing) simp
  moreover have "hex_val (takeWhile is_hex s) < 16 ^ length (takeWhile is_hex s)"
    by (rule hex_val_less) (auto simp: list_all_iff dest: set_takeWhileD)
  ultimately show ?thesis by simp
qed

definition groups_ok :: "nat list \<times> nat option \<Rightarrow> bool" where
  "groups_ok r = (case r of (acc, ell) \<Rightarrow>
     list_all (\<lambda>g. g < 65536) acc \<and> length acc \<le> 8 \<and> (case ell of None \<Rightarrow> True | Some e \<Rightarrow> e \<le> length acc))"

lemma parse6_wf: "groups_ok (acc, ell) \<Longrightarrow> parse6 acc ell s = Some r \<Longrightarrow> groups_ok r"
proof (induction "length s" arbitrary: acc ell s rule: less_induct)
  case less
  let ?h = "takeWhile is_hex s" and ?d = "dropWhile is_hex s"
  let ?acc = "acc @ [hex_val ?h]"
  note p = less.prems(2) [unfolded parse6.simps [of acc ell s] Let_def]
  show ?case
  proof (cases "8 \<le> length acc")
    case True
    then show ?thesis using less.prems(1) p by (auto split: if_splits)
  next
    case False
    with p have h: "?h \<noteq> []" "length ?h \<le> 4" by (auto split: if_splits)
    have ok: "groups_ok (?acc, ell)" "groups_ok (?acc, Some (length ?acc))"
      using less.prems(1) False hex_group_less [OF h(2)] by (auto simp: groups_ok_def split: option.splits)
    show ?thesis
    proof (cases "?d \<noteq> [] \<and> hd ?d = CHR ''.''")
      case True
      with p False h obtain w x y z where v4: "parseIPv4 s = Some [w, x, y, z]" "r = (acc @ [w * 256 + x, y * 256 + z], ell)" "length acc + 2 \<le> 8"
        by (auto split: if_splits option.splits list.splits)
      then show ?thesis using parseIPv4_wf [OF v4(1)] less.prems(1) by (auto simp: groups_ok_def ip_wf_def split: option.splits)
    next
      case no_dot: False
      show ?thesis
      proof (cases "?d = []")
        case True
        then show ?thesis using p False h no_dot ok by auto
      next
        case d: False
        have l: "length (tl ?d) < length s" "length (tl (tl ?d)) < length s"
          using parse6_shrink [OF d, of 0] parse6_shrink [OF d, of 1] by simp_all
        show ?thesis
          using p False h no_dot d ok less.hyps [OF l(1) ok(1)] less.hyps [OF l(2) ok(2)] by (auto split: if_splits)
      qed
    qed
  qed
qed

lemma expand6_wf: "groups_ok r \<Longrightarrow> expand6 r = Some gs \<Longrightarrow> ip_wf (IP6 gs)"
  by (cases r) (auto simp: groups_ok_def expand6_def ip_wf_def list_all_iff split: if_splits option.splits dest!: in_set_takeD in_set_dropD)

lemma parseIPv6_wf: "parseIPv6 s = Some (gs, z) \<Longrightarrow> ip_wf (IP6 gs)"
proof -
  assume p: "parseIPv6 s = Some (gs, z)"
  have ok: "groups_ok ([], ell)" if "ell = None \<or> ell = Some 0" for ell
    using that by (auto simp: groups_ok_def)
  have "ip_wf (IP6 gs)" if b: "Option.bind (parse6 [] ell w) expand6 = Some gs" and e: "ell = None \<or> ell = Some 0" for ell w
  proof -
    obtain r where r: "parse6 [] ell w = Some r" "expand6 r = Some gs" using b by (cases "parse6 [] ell w") auto
    show ?thesis by (rule expand6_wf [OF parse6_wf [OF ok [OF e] r(1)] r(2)])
  qed
  moreover have "ip_wf (IP6 (replicate 8 0))" by (simp add: ip_wf_def list_all_iff)
  ultimately show ?thesis using p
    by (auto simp: parseIPv6_def Let_def simp del: replicate.simps split: if_splits)
qed

lemma ParseAddr_wf: "ParseAddr s = Some (a, z) \<Longrightarrow> ip_wf a"
  by (auto simp: ParseAddr_def parseIPv4_wf parseIPv6_wf split: option.splits if_splits)

lemma Unmap_wf: "ip_wf a \<Longrightarrow> ip_wf (Unmap a) \<and> \<not> Is4In6 (Unmap a)"
proof (cases a)
  case (IP6 gs)
  assume "ip_wf a"
  then have gs: "length gs = 8" "list_all (\<lambda>g. g < 65536) gs" by (simp_all add: IP6 ip_wf_def)
  then have "gs ! 6 < 65536" "gs ! 7 < 65536" by (simp_all add: list_all_length)
  then show ?thesis using gs by (auto simp: IP6 Unmap_def ip_wf_def Is4In6_def)
qed (auto simp: Unmap_def ip_wf_def Is4In6_def)

lemma Unmap_idem: "\<not> Is4In6 a \<Longrightarrow> Unmap a = a"
  by (cases a) (simp_all add: Unmap_def)

end
