(* ===== verification/SPF.thy ===== *)
theory SPF
  imports Net_IP
begin

text \<open>
  The SPF guidance of \<^verbatim>\<open>internal/spf\<close> and its configuration in \<^verbatim>\<open>cmd/mailx/spfconfig.go\<close>: the
  bounded parser of a published record, how its literal mechanisms treat a sending address, the record
  MailX tells a tenant to publish, and the assessment of a TXT answer. The tables for letter case outside
  ASCII are the parameter \<open>U\<close>; the domain store, the resolver and the cancellation of the request are
  arguments of the two service operations.
\<close>

section \<open>Records\<close>

definition MaxRecordBytes :: nat where "MaxRecordBytes = 2048"
definition MaxTermBytes :: nat where "MaxTermBytes = 255"
definition MaxTerms :: nat where "MaxTerms = 64"
definition MaxTXTRecords :: nat where "MaxTXTRecords = 64"

lemmas spf_bounds = MaxRecordBytes_def MaxTermBytes_def MaxTerms_def MaxTXTRecords_def

datatype invalid_reason =
    ReasonTooLong | ReasonTooManyTerms | ReasonTermTooLong | ReasonUnknownMechanism | ReasonBadIP | ReasonBadCIDR
  | ReasonBadArgument | ReasonDuplicateModifier | ReasonBadModifier | ReasonBadEncoding | ReasonTooManyTXT

record spf_term =
  tm_Qualifier :: char
  tm_Name :: string
  tm_Modifier :: bool
  tm_Arg :: string
  tm_Prefix :: "prefix option"
  tm_Raw :: string

definition IsSPF :: "unicode \<Rightarrow> string \<Rightarrow> bool" where
  "IsSPF U txt \<longleftrightarrow>
     \<not> (length txt < 6 \<or> \<not> EqualFold U (take 6 txt) ''v=spf1'') \<and> (length txt = 6 \<or> txt ! 6 = CHR '' '')"

text \<open>\<^verbatim>\<open>strings.IndexAny\<close> for ASCII sets and \<^verbatim>\<open>strings.Cut\<close>.\<close>

fun IndexAny :: "string \<Rightarrow> string \<Rightarrow> nat option" where
  "IndexAny [] cs = None"
| "IndexAny (c # s) cs = (if c \<in> set cs then Some 0 else map_option Suc (IndexAny s cs))"

fun Cut :: "string \<Rightarrow> string \<Rightarrow> string \<times> string \<times> bool" where
  "Cut [] sep = ([], [], sep = [])"
| "Cut (c # s) sep =
     (if HasPrefix (c # s) sep then ([], drop (length sep) (c # s), True)
      else case Cut s sep of (b, a, f) \<Rightarrow> (c # b, a, f))"

definition validModifierName :: "string \<Rightarrow> bool" where
  "validModifierName n \<longleftrightarrow>
     n \<noteq> [] \<and> is_lower (hd n) \<and> list_all (\<lambda>c. is_lower c \<or> is_digit c \<or> c \<in> set ''-_.'') n"

definition plausibleDomainSpec :: "string \<Rightarrow> bool" where
  "plausibleDomainSpec s \<longleftrightarrow> s \<noteq> [] \<and> length s \<le> 253"

definition cidrOK :: "string \<Rightarrow> nat \<Rightarrow> bool" where
  "cidrOK s mx \<longleftrightarrow> \<not> (s = [] \<or> length s > 3) \<and> list_all is_digit s \<and> dec_val s \<le> mx"

definition checkDualCIDR :: "spf_term \<Rightarrow> string \<Rightarrow> bool \<Rightarrow> invalid_reason + spf_term" where
  "checkDualCIDR t arg hasArg =
     (if \<not> hasArg then Inr t
      else let n = (if arg \<noteq> [] \<and> hd arg \<noteq> CHR ''/''
                      then (case IndexByte arg (CHR ''/'') of None \<Rightarrow> length arg | Some i \<Rightarrow> i) else 0);
               t1 = (if n > 0 then t\<lparr>tm_Arg := take n arg\<rparr> else t);
               rest = drop n arg
           in if n > 0 \<and> \<not> plausibleDomainSpec (take n arg) then Inl ReasonBadArgument
              else if rest = [] then Inr t1
              else case Cut rest ''//'' of (v4, v6, found) \<Rightarrow>
                     if v4 \<noteq> [] \<and> (hd v4 \<noteq> CHR ''/'' \<or> \<not> cidrOK (tl v4) 32) then Inl ReasonBadCIDR
                     else if found \<and> \<not> cidrOK v6 128 then Inl ReasonBadCIDR
                     else Inr t1)"

definition parseIPArg :: "bool \<Rightarrow> string \<Rightarrow> invalid_reason + prefix" where
  "parseIPArg v4 arg =
     (case Cut arg ''/'' of (addrPart, cidr, hasCIDR) \<Rightarrow>
        case ParseAddr addrPart of
          None \<Rightarrow> Inl ReasonBadIP
        | Some (addr, zone) \<Rightarrow>
            if zone \<noteq> [] \<or> Is4 addr \<noteq> v4 then Inl ReasonBadIP
            else if hasCIDR \<and> \<not> cidrOK cidr (if v4 then 32 else 128) then Inl ReasonBadCIDR
            else case addr_Prefix addr (if hasCIDR then dec_val cidr else if Is4 addr then 32 else 128) of
                None \<Rightarrow> Inl ReasonBadCIDR
              | Some p \<Rightarrow> Inr p)"

text \<open>The mechanisms, after the qualifier: the name, the argument and whether the name was followed by a colon.\<close>

definition parse_mechanism :: "unicode \<Rightarrow> spf_term \<Rightarrow> string \<Rightarrow> invalid_reason + spf_term" where
  "parse_mechanism U t0 body =
     (let i = IndexAny body '':/'';
          hasArg = (i \<noteq> None);
          name = (case i of None \<Rightarrow> body | Some k \<Rightarrow> take k body);
          colon = (case i of None \<Rightarrow> False | Some k \<Rightarrow> body ! k = CHR '':'');
          arg = (case i of None \<Rightarrow> [] | Some k \<Rightarrow> if body ! k = CHR '':'' then drop (Suc k) body else drop k body);
          t = t0\<lparr>tm_Name := ToLower U name\<rparr>
      in if tm_Name t = ''all'' then (if hasArg then Inl ReasonBadArgument else Inr t)
         else if tm_Name t = ''include'' \<or> tm_Name t = ''exists'' then
           (if \<not> hasArg \<or> \<not> colon \<or> \<not> plausibleDomainSpec arg then Inl ReasonBadArgument else Inr (t\<lparr>tm_Arg := arg\<rparr>))
         else if tm_Name t = ''a'' \<or> tm_Name t = ''mx'' then checkDualCIDR t arg hasArg
         else if tm_Name t = ''ptr'' then
           (if hasArg \<and> (\<not> colon \<or> \<not> plausibleDomainSpec arg) then Inl ReasonBadArgument else Inr (t\<lparr>tm_Arg := arg\<rparr>))
         else if tm_Name t = ''ip4'' \<or> tm_Name t = ''ip6'' then
           (if \<not> hasArg \<or> \<not> colon then Inl ReasonBadIP
            else case parseIPArg (tm_Name t = ''ip4'') arg of
                Inl e \<Rightarrow> Inl e
              | Inr p \<Rightarrow> Inr (t\<lparr>tm_Prefix := Some p, tm_Arg := arg\<rparr>))
         else Inl ReasonUnknownMechanism)"

definition parseTerm :: "unicode \<Rightarrow> string \<Rightarrow> invalid_reason + spf_term" where
  "parseTerm U tok =
     (let t = \<lparr>tm_Qualifier = CHR ''+'', tm_Name = [], tm_Modifier = False, tm_Arg = [], tm_Prefix = None, tm_Raw = tok\<rparr>;
          mech = (if hd tok \<in> set ''+-~?'' then parse_mechanism U (t\<lparr>tm_Qualifier := hd tok\<rparr>) (tl tok)
                  else parse_mechanism U t tok)
      in case IndexAny tok '':/='' of
           None \<Rightarrow> mech
         | Some i \<Rightarrow>
             if i > 0 \<and> tok ! i = CHR ''='' then
               (let name = ToLower U (take i tok); arg = drop (Suc i) tok
                in if \<not> validModifierName name then Inl ReasonBadModifier
                   else if (name = ''redirect'' \<or> name = ''exp'') \<and> \<not> plausibleDomainSpec arg then Inl ReasonBadArgument
                   else Inr (t\<lparr>tm_Modifier := True, tm_Name := name, tm_Arg := arg\<rparr>))
             else mech)"

text \<open>The loop of \<^verbatim>\<open>Parse\<close> over the tokens, with the modifiers that were seen.\<close>

fun parse_terms :: "unicode \<Rightarrow> string list \<Rightarrow> string list \<Rightarrow> invalid_reason + spf_term list" where
  "parse_terms U seen [] = Inr []"
| "parse_terms U seen (tok # toks) =
     (if length tok > MaxTermBytes then Inl ReasonTermTooLong
      else case parseTerm U tok of
          Inl e \<Rightarrow> Inl e
        | Inr t \<Rightarrow>
            let single = tm_Modifier t \<and> (tm_Name t = ''redirect'' \<or> tm_Name t = ''exp'')
            in if single \<and> tm_Name t \<in> set seen then Inl ReasonDuplicateModifier
               else case parse_terms U (if single then tm_Name t # seen else seen) toks of
                   Inl e \<Rightarrow> Inl e
                 | Inr ts \<Rightarrow> Inr (t # ts))"

definition Parse :: "unicode \<Rightarrow> string \<Rightarrow> invalid_reason + spf_term list" where
  "Parse U txt =
     (if length txt > MaxRecordBytes then Inl ReasonTooLong
      else if \<not> list_all (\<lambda>c. 0x20 \<le> byte c \<and> byte c < 0x7f) txt then Inl ReasonBadEncoding
      else if \<not> IsSPF U txt then Inl ReasonBadEncoding
      else let tokens = Fields (drop 6 txt)
           in if length tokens > MaxTerms then Inl ReasonTooManyTerms else parse_terms U [] tokens)"

section \<open>How a record treats a sender\<close>

datatype coverage = NotListed | Authorized | Denied

fun Covers :: "spf_term list \<Rightarrow> ipaddr \<Rightarrow> coverage" where
  "Covers [] addr = NotListed"
| "Covers (t # ts) addr =
     (if tm_Modifier t then Covers ts addr
      else if tm_Name t = ''all'' then NotListed
      else if (tm_Name t = ''ip4'' \<or> tm_Name t = ''ip6'') \<and>
              (case tm_Prefix t of None \<Rightarrow> False | Some p \<Rightarrow> prefix_Contains p (Unmap addr))
        then (if tm_Qualifier t = CHR ''+'' then Authorized else Denied)
      else Covers ts addr)"

definition queries :: "string list" where
  "queries = [''include'', ''a'', ''mx'', ''exists'', ''ptr'']"

text \<open>The first loop ends at the first \<^verbatim>\<open>all\<close>; the second runs only when there was none.\<close>

definition is_all :: "spf_term \<Rightarrow> bool" where
  "is_all t \<longleftrightarrow> \<not> tm_Modifier t \<and> tm_Name t = ''all''"

definition Unevaluated :: "spf_term list \<Rightarrow> bool" where
  "Unevaluated ts \<longleftrightarrow>
     list_ex (\<lambda>t. tm_Name t \<in> set queries) (takeWhile (\<lambda>t. \<not> is_all t) ts) \<or>
     (\<not> list_ex is_all ts \<and> list_ex (\<lambda>t. tm_Modifier t \<and> tm_Name t = ''redirect'') ts)"

definition DNSTerms :: "spf_term list \<Rightarrow> nat" where
  "DNSTerms ts = length (filter (\<lambda>t. tm_Name t \<in> set (queries @ [''redirect''])) ts)"

definition include_key :: "unicode \<Rightarrow> string \<Rightarrow> string" where
  "include_key U d = TrimSuffix (ToLower U d) ''.''"

fun Includes :: "unicode \<Rightarrow> spf_term list \<Rightarrow> string \<Rightarrow> bool" where
  "Includes U [] domain = False"
| "Includes U (t # ts) domain =
     (if is_all t then False
      else if \<not> tm_Modifier t \<and> tm_Name t = ''include'' \<and> tm_Qualifier t = CHR ''+'' \<and>
              include_key U (tm_Arg t) = include_key U domain then True
      else Includes U ts domain)"

definition PermitsAll :: "spf_term list \<Rightarrow> bool" where
  "PermitsAll ts = (case find is_all ts of None \<Rightarrow> False | Some t \<Rightarrow> tm_Qualifier t = CHR ''+'')"

definition Merge :: "spf_term list \<Rightarrow> string list \<Rightarrow> string option" where
  "Merge ts add =
     (let out = join_with '' '' ([''v=spf1''] @ add @ map tm_Raw ts)
      in if length out > MaxRecordBytes then None else Some out)"

section \<open>The sending infrastructure\<close>

datatype spf_mode = ModeDirect | ModeRelay

definition MaxSendingIPs :: nat where "MaxSendingIPs = 16"

record spf_config =
  sc_Mode :: spf_mode
  sc_IPs :: "ipaddr list"
  sc_RelayInclude :: string

definition Ready :: "spf_config \<Rightarrow> bool" where
  "Ready c = (case sc_Mode c of ModeDirect \<Rightarrow> length (sc_IPs c) > 0 | ModeRelay \<Rightarrow> sc_RelayInclude c \<noteq> [])"

definition mechanism :: "ipaddr \<Rightarrow> string" where
  "mechanism ip = (if Is4 ip then ''ip4:'' @ ip_String ip else ''ip6:'' @ ip_String ip)"

definition Mechanisms :: "spf_config \<Rightarrow> string list" where
  "Mechanisms c = (case sc_Mode c of
      ModeDirect \<Rightarrow> map mechanism (sc_IPs c)
    | ModeRelay \<Rightarrow> if sc_RelayInclude c \<noteq> [] then [''include:'' @ sc_RelayInclude c] else [])"

definition ParsePrefix :: "string \<Rightarrow> prefix option" where
  "ParsePrefix s = (case Cut s ''/'' of (a, b, found) \<Rightarrow>
     if \<not> found \<or> b = [] \<or> \<not> list_all is_digit b then None
     else case ParseAddr a of
         Some (ip, zone) \<Rightarrow> if zone \<noteq> [] then None else addr_Prefix ip (dec_val b)
       | None \<Rightarrow> None)"

text \<open>\<^verbatim>\<open>mustPrefixes\<close> panics on a prefix that does not parse; all of these do (\<open>length_nonPublic\<close> below).\<close>

definition nonPublic :: "prefix list" where
  "nonPublic = List.map_filter ParsePrefix
    [''0.0.0.0/8'', ''10.0.0.0/8'', ''100.64.0.0/10'', ''127.0.0.0/8'', ''169.254.0.0/16'', ''172.16.0.0/12'',
     ''192.0.0.0/24'', ''192.0.2.0/24'', ''192.88.99.0/24'', ''192.168.0.0/16'', ''198.18.0.0/15'', ''198.51.100.0/24'',
     ''203.0.113.0/24'', ''224.0.0.0/4'', ''240.0.0.0/4'',
     ''::/128'', ''::1/128'', ''64:ff9b:1::/48'', ''100::/64'', ''2001::/23'', ''2001:db8::/32'', ''2002::/16'',
     ''3fff::/20'', ''fc00::/7'', ''fe80::/10'', ''ff00::/8'']"

datatype ip_error = ErrInvalidAddress | ErrNonPublicIP

text \<open>An address with its zone, as \<^verbatim>\<open>netip.Addr\<close> has it; \<^verbatim>\<open>Unmap\<close> drops the zone of a mapped address.\<close>

definition unmap_zone :: "ipaddr \<times> string \<Rightarrow> ipaddr \<times> string" where
  "unmap_zone az = (Unmap (fst az), if Is4In6 (fst az) then [] else snd az)"

definition IsGlobalUnicast :: "ipaddr \<Rightarrow> bool" where
  "IsGlobalUnicast a = (case a of
      IP4 bs \<Rightarrow> bs \<noteq> [0, 0, 0, 0] \<and> bs \<noteq> [255, 255, 255, 255] \<and> bs ! 0 \<noteq> 127 \<and> bs ! 0 div 16 \<noteq> 14 \<and> \<not> (bs ! 0 = 169 \<and> bs ! 1 = 254)
    | IP6 gs \<Rightarrow> gs \<noteq> replicate 8 0 \<and> gs \<noteq> replicate 7 0 @ [1] \<and> gs ! 0 div 256 \<noteq> 255 \<and> gs ! 0 div 64 \<noteq> 0xfe80 div 64)"

definition CheckPublicIP :: "ipaddr \<times> string \<Rightarrow> ip_error option" where
  "CheckPublicIP az0 =
     (case unmap_zone az0 of (ip, zone) \<Rightarrow>
        if zone \<noteq> [] then Some ErrInvalidAddress
        else if list_ex (\<lambda>p. prefix_Contains p ip) nonPublic then Some ErrNonPublicIP
        else if \<not> IsGlobalUnicast ip then Some ErrNonPublicIP
        else None)"

datatype sending_error = TooManyAddresses | EntryIsRange nat | EntryNotAnAddress nat | EntryRejected nat ip_error

text \<open>The loop over the entries, with the number of the entry and the addresses kept so far.\<close>

fun sending_loop :: "nat \<Rightarrow> ipaddr list \<Rightarrow> string list \<Rightarrow> sending_error + ipaddr list" where
  "sending_loop i out [] = Inr out"
| "sending_loop i out (p0 # ps) =
     (let p = TrimSpace p0
      in if CHR ''/'' \<in> set p then Inl (EntryIsRange i)
         else case ParseAddr p of
             None \<Rightarrow> Inl (EntryNotAnAddress i)
           | Some az \<Rightarrow>
               (case CheckPublicIP (unmap_zone az) of
                  Some e \<Rightarrow> Inl (EntryRejected i e)
                | None \<Rightarrow>
                    let ip = fst (unmap_zone az)
                    in sending_loop (Suc i) (if ip \<in> set out then out else out @ [ip]) ps))"

text \<open>\<^verbatim>\<open>Addr.Less\<close> orders by the length of the address and then by its bytes.\<close>

definition addr_key :: "ipaddr \<Rightarrow> nat \<times> nat list" where
  "addr_key a = (case a of IP4 bs \<Rightarrow> (32, bs) | IP6 gs \<Rightarrow> (128, gs))"

definition ParseSendingIPs :: "string \<Rightarrow> sending_error + ipaddr list" where
  "ParseSendingIPs raw0 =
     (let raw = TrimSpace raw0
      in if raw = [] then Inr []
         else let parts = split_byte (CHR '','') raw
              in if length parts > MaxSendingIPs then Inl TooManyAddresses
                 else case sending_loop 1 [] parts of
                     Inl e \<Rightarrow> Inl e
                   | Inr out \<Rightarrow> Inr (sort_key addr_key out))"

text \<open>\<^verbatim>\<open>net.ParseIP\<close> refuses an address with a zone.\<close>

definition is_IP :: "string \<Rightarrow> bool" where
  "is_IP s = (case ParseAddr s of None \<Rightarrow> False | Some (_, zone) \<Rightarrow> zone = [])"

definition host_label_ok :: "string \<Rightarrow> bool" where
  "host_label_ok l \<longleftrightarrow>
     \<not> (l = [] \<or> length l > 63 \<or> hd l = CHR ''-'' \<or> last l = CHR ''-'') \<and>
     list_all (\<lambda>c. is_lower c \<or> is_upper c \<or> is_digit c \<or> c = CHR ''-'' \<or> c = CHR ''_'') l"

definition validRelayHost :: "string \<Rightarrow> bool" where
  "validRelayHost h \<longleftrightarrow>
     is_IP h \<or> (length h \<le> 253 \<and> list_all host_label_ok (split_byte (CHR ''.'') (TrimSuffix h ''.'')))"

datatype spf_config_error = BadSendingIPs sending_error | IPsInRelayMode | BadRelayInclude | IncludeNeedsRelayMode

definition spfConfig :: "unicode \<Rightarrow> string \<Rightarrow> string \<Rightarrow> bool \<Rightarrow> spf_config_error + spf_config" where
  "spfConfig U env_SENDING_IPS env_RELAY_INCLUDE relayMode =
     (case ParseSendingIPs env_SENDING_IPS of
        Inl e \<Rightarrow> Inl (BadSendingIPs e)
      | Inr ips \<Rightarrow>
          let incl = TrimSuffix (TrimSpace env_RELAY_INCLUDE) ''.''
          in if relayMode then
               (if ips \<noteq> [] then Inl IPsInRelayMode
                else if incl \<noteq> [] \<and> (is_IP incl \<or> \<not> validRelayHost incl \<or> ContainsAny incl [CHR '' '', CHR 0x09])
                  then Inl BadRelayInclude
                else Inr \<lparr>sc_Mode = ModeRelay, sc_IPs = [], sc_RelayInclude = ToLower U incl\<rparr>)
             else if incl \<noteq> [] then Inl IncludeNeedsRelayMode
             else Inr \<lparr>sc_Mode = ModeDirect, sc_IPs = ips, sc_RelayInclude = []\<rparr>)"

section \<open>Assessment\<close>

datatype spf_status =
    StatusUnchecked | StatusVerified | StatusNotConfigured | StatusMismatch | StatusConflict | StatusInvalid
  | StatusTemporaryError | StatusSendingUnknown

datatype spf_reason =
    NoReason | InvalidReason invalid_reason | ReasonNotListed | ReasonExplicitlyDeny | ReasonIncludeMissing
  | ReasonMultipleRecords | ReasonDNS | ReasonMergeTooLong

datatype spf_action =
    NoAction | Create | UpdateExisting | ActionNone | MergeRecords | FixRecord | DeclareSendingIPs | FollowRelayProvider

datatype spf_warning = WarnUnevaluated | WarnPermitsAll | WarnLookupLimit | WarnDeprecatedPTR

record expected =
  ex_Action :: spf_action
  ex_Type :: string
  ex_Name :: string
  ex_Value :: string

record spf_result =
  sr_Mode :: spf_mode
  sr_Domain :: string
  sr_Status :: spf_status
  sr_Reason :: spf_reason
  sr_Published :: string
  sr_Expected :: expected
  sr_Warnings :: "spf_warning list"
  sr_Unevaluated :: bool

definition action_only :: "spf_action \<Rightarrow> expected" where
  "action_only a = \<lparr>ex_Action = a, ex_Type = [], ex_Name = [], ex_Value = []\<rparr>"

definition unknownExpected :: "spf_mode \<Rightarrow> expected" where
  "unknownExpected m = action_only (case m of ModeRelay \<Rightarrow> FollowRelayProvider | ModeDirect \<Rightarrow> DeclareSendingIPs)"

definition createExpected :: "string \<Rightarrow> spf_config \<Rightarrow> expected" where
  "createExpected domain cfg =
     \<lparr>ex_Action = Create, ex_Type = ''TXT'', ex_Name = domain,
      ex_Value = ''v=spf1'' @ concat (map (\<lambda>m. '' '' @ m) (Mechanisms cfg)) @ '' ~all''\<rparr>"

definition assess :: "unicode \<Rightarrow> spf_term list \<Rightarrow> spf_config \<Rightarrow> string list \<times> bool" where
  "assess U ts cfg =
     (case sc_Mode cfg of
        ModeRelay \<Rightarrow> (if Includes U ts (sc_RelayInclude cfg) then [] else Mechanisms cfg, False)
      | ModeDirect \<Rightarrow>
          (map mechanism (filter (\<lambda>ip. Covers ts ip \<noteq> Authorized) (sc_IPs cfg)),
           list_ex (\<lambda>ip. Covers ts ip = Denied) (sc_IPs cfg)))"

definition warnings :: "unicode \<Rightarrow> spf_term list \<Rightarrow> spf_config \<Rightarrow> spf_warning list" where
  "warnings U ts cfg =
     (if Unevaluated ts then [WarnUnevaluated] else []) @
     (if PermitsAll ts then [WarnPermitsAll] else []) @
     (if DNSTerms ts + (if sc_Mode cfg = ModeRelay \<and> \<not> Includes U ts (sc_RelayInclude cfg) then 1 else 0) \<ge> 8
      then [WarnLookupLimit] else []) @
     (if list_ex (\<lambda>t. \<not> tm_Modifier t \<and> tm_Name t = ''ptr'') ts then [WarnDeprecatedPTR] else [])"

text \<open>What \<^verbatim>\<open>Analyze\<close> looks at in a lookup error: whether it is a definite absence of the name.\<close>

datatype txt_answer = TxtNotFound | TxtFailed | TxtRecords "string list"

definition blank_result :: "spf_config \<Rightarrow> string \<Rightarrow> spf_result" where
  "blank_result cfg domain =
     \<lparr>sr_Mode = sc_Mode cfg, sr_Domain = domain, sr_Status = StatusUnchecked, sr_Reason = NoReason, sr_Published = [],
      sr_Expected = action_only NoAction, sr_Warnings = [], sr_Unevaluated = False\<rparr>"

definition notConfigured :: "spf_result \<Rightarrow> spf_config \<Rightarrow> spf_result" where
  "notConfigured res cfg = res\<lparr>sr_Status := StatusNotConfigured, sr_Expected := createExpected (sr_Domain res) cfg\<rparr>"

definition analyze_record :: "unicode \<Rightarrow> spf_config \<Rightarrow> string \<Rightarrow> string \<Rightarrow> spf_result" where
  "analyze_record U cfg domain raw =
     (let res = blank_result cfg domain
      in case Parse U raw of
           Inl e \<Rightarrow> res\<lparr>sr_Status := StatusInvalid, sr_Reason := InvalidReason e, sr_Expected := action_only FixRecord\<rparr>
         | Inr ts \<Rightarrow>
             let res1 = res\<lparr>sr_Published := raw, sr_Unevaluated := Unevaluated ts, sr_Warnings := warnings U ts cfg\<rparr>
             in case assess U ts cfg of (missing, denied) \<Rightarrow>
                  if missing = [] then
                    res1\<lparr>sr_Status := StatusVerified,
                         sr_Expected := \<lparr>ex_Action = ActionNone, ex_Type = ''TXT'', ex_Name = domain, ex_Value = raw\<rparr>\<rparr>
                  else let res2 = res1\<lparr>sr_Status := StatusMismatch,
                                       sr_Reason := (if sc_Mode cfg = ModeRelay then ReasonIncludeMissing
                                                     else if denied then ReasonExplicitlyDeny else ReasonNotListed)\<rparr>
                       in case Merge ts missing of
                            None \<Rightarrow> res2\<lparr>sr_Reason := ReasonMergeTooLong, sr_Expected := action_only FixRecord\<rparr>
                          | Some merged \<Rightarrow>
                              res2\<lparr>sr_Expected := \<lparr>ex_Action = UpdateExisting, ex_Type = ''TXT'', ex_Name = domain, ex_Value = merged\<rparr>\<rparr>)"

definition Analyze :: "unicode \<Rightarrow> spf_config \<Rightarrow> string \<Rightarrow> txt_answer \<Rightarrow> spf_result" where
  "Analyze U cfg domain answer =
     (let res = blank_result cfg domain
      in if \<not> Ready cfg then res\<lparr>sr_Status := StatusSendingUnknown, sr_Expected := unknownExpected (sc_Mode cfg)\<rparr>
         else case answer of
             TxtNotFound \<Rightarrow> notConfigured res cfg
           | TxtFailed \<Rightarrow> res\<lparr>sr_Status := StatusTemporaryError, sr_Reason := ReasonDNS\<rparr>
           | TxtRecords records \<Rightarrow>
               if length records > MaxTXTRecords then
                 res\<lparr>sr_Status := StatusInvalid, sr_Reason := InvalidReason ReasonTooManyTXT, sr_Expected := action_only FixRecord\<rparr>
               else case filter (IsSPF U) records of
                   [] \<Rightarrow> notConfigured res cfg
                 | [raw] \<Rightarrow> analyze_record U cfg domain raw
                 | _ \<Rightarrow> res\<lparr>sr_Status := StatusConflict, sr_Reason := ReasonMultipleRecords, sr_Expected := action_only MergeRecords\<rparr>)"

section \<open>The service\<close>

record owned_domain =
  od_Name :: string
  od_Verified :: bool

datatype spf_error = SpfStoreError | SpfErrDomainNotVerified | SpfErrBusy | SpfCancelled

definition NewService_ok :: "spf_config \<Rightarrow> bool" where
  "NewService_ok cfg \<longleftrightarrow> list_all (\<lambda>ip. CheckPublicIP (ip, []) = None) (sc_IPs cfg)"

definition spf_unchecked :: "spf_config \<Rightarrow> string \<Rightarrow> spf_result" where
  "spf_unchecked cfg domain =
     (let res = blank_result cfg domain
      in if \<not> Ready cfg then res\<lparr>sr_Status := StatusSendingUnknown, sr_Expected := unknownExpected (sc_Mode cfg)\<rparr>
         else res\<lparr>sr_Expected := createExpected domain cfg\<rparr>)"

definition spf_Describe :: "spf_config \<Rightarrow> owned_domain option \<Rightarrow> spf_error + spf_result" where
  "spf_Describe cfg stored = (case stored of None \<Rightarrow> Inl SpfStoreError | Some d \<Rightarrow> Inr (spf_unchecked cfg (od_Name d)))"

text \<open>
  \<^verbatim>\<open>Verify\<close>, with the stored domain, whether a slot was free before the request was cancelled, the answer
  for a name, and whether the request was cancelled by the time the lookup failed. The result comes with
  the names that were looked up and the statuses the observer was told.
\<close>

definition spf_Verify ::
  "unicode \<Rightarrow> spf_config \<Rightarrow> owned_domain option \<Rightarrow> bool \<Rightarrow> (string \<Rightarrow> txt_answer) \<Rightarrow> bool \<Rightarrow>
   (spf_error + spf_result) \<times> string list \<times> spf_status list" where
  "spf_Verify U cfg stored slot lookup cancelled =
     (case stored of
        None \<Rightarrow> (Inl SpfStoreError, [], [])
      | Some d \<Rightarrow>
          if \<not> od_Verified d then (Inl SpfErrDomainNotVerified, [], [])
          else if \<not> Ready cfg then (let res = spf_unchecked cfg (od_Name d) in (Inr res, [], [sr_Status res]))
          else if \<not> slot then (Inl SpfErrBusy, [], [])
          else let answer = lookup (od_Name d);
                   failed = (case answer of TxtRecords _ \<Rightarrow> False | _ \<Rightarrow> True)
               in if failed \<and> cancelled then (Inl SpfCancelled, [od_Name d], [])
                  else let res = Analyze U cfg (od_Name d) answer in (Inr res, [od_Name d], [sr_Status res]))"

section \<open>A record and its tokens\<close>

definition visible :: "char \<Rightarrow> bool" where
  "visible c \<longleftrightarrow> 0x21 \<le> byte c \<and> byte c < 0x7f"

definition is_token :: "string \<Rightarrow> bool" where
  "is_token w \<longleftrightarrow> w \<noteq> [] \<and> list_all visible w"

definition spf_text :: "string list \<Rightarrow> string" where
  "spf_text toks = ''v=spf1'' @ concat (map (\<lambda>w. '' '' @ w) toks)"

lemma space_width_visible: "visible c \<Longrightarrow> space_width (c # s) = 0"
  by (auto simp: space_width_def visible_def go_str)

lemma space_width_space [simp]: "space_width (CHR '' '' # s) = 1"
  by (simp add: space_width_def ascii_space_def)

lemma fields_from_visible: "list_all visible t \<Longrightarrow> fields_from w (t @ s) = fields_from (w @ t) s"
proof (induction t arbitrary: w)
  case (Cons c t)
  then show ?case by (subst fields_from.simps) (simp add: space_width_visible)
qed simp

lemma fields_from_space: "fields_from w (CHR '' '' # s) = (if w = [] then [] else [w]) @ fields_from [] s"
  by (subst fields_from.simps) simp

lemma fields_from_Nil: "fields_from w [] = (if w = [] then [] else [w])"
  by (subst fields_from.simps) simp

lemma fields_from_tokens:
  "list_all is_token toks \<Longrightarrow> fields_from w (concat (map (\<lambda>t. '' '' @ t) toks)) = (if w = [] then [] else [w]) @ toks"
proof (induction toks arbitrary: w)
  case (Cons t toks)
  then have "fields_from [] (t @ concat (map (\<lambda>t. '' '' @ t) toks)) = t # toks"
    using fields_from_visible [of t "[]"] by (simp add: is_token_def)
  then show ?case by (simp add: fields_from_space)
qed (simp add: fields_from_Nil)

lemma Fields_spf_text: "list_all is_token toks \<Longrightarrow> Fields (drop 6 (spf_text toks)) = toks"
  using fields_from_tokens [of toks "[]"] by (simp add: Fields_def spf_text_def)

lemma fields_are_tokens:
  assumes "list_all (\<lambda>c. 0x20 \<le> byte c \<and> byte c < 0x7f) s" and "list_all visible w"
  shows "list_all is_token (fields_from w s)"
  using assms
proof (induction w s rule: fields_from.induct)
  case (1 w s)
  show ?case
  proof (cases s)
    case Nil
    then show ?thesis using 1 by (simp add: fields_from_Nil is_token_def)
  next
    case (Cons c r)
    show ?thesis
    proof (cases "c = CHR '' ''")
      case True
      then show ?thesis using 1 Cons by (simp add: fields_from_space is_token_def)
    next
      case False
      then have "byte c \<noteq> byte (CHR '' '')" by (metis char_of_char)
      then have v: "visible c" using 1(3) Cons by (auto simp: visible_def)
      then have "fields_from w s = fields_from (w @ [c]) r"
        using fields_from_visible [of "[c]" w r] Cons by simp
      then show ?thesis using 1(1) 1(3,4) Cons v space_width_visible [OF v, of r] by simp
    qed
  qed
qed

lemma join_spf_text: "join_with '' '' (''v=spf1'' # toks) = spf_text toks"
proof -
  have "join_with '' '' (w # toks) = w @ concat (map (\<lambda>t. '' '' @ t) toks)" for w
    by (induction toks arbitrary: w) auto
  then show ?thesis by (simp add: spf_text_def)
qed

lemma IsSPF_text: "IsSPF U (spf_text toks)"
proof (cases toks)
  case (Cons t ts)
  then show ?thesis by (simp add: IsSPF_def spf_text_def EqualFold_def ascii_def nth_append)
qed (simp add: IsSPF_def spf_text_def EqualFold_def ascii_def)

lemma token_bytes: "list_all is_token toks \<Longrightarrow> list_all (\<lambda>c. 0x20 \<le> byte c \<and> byte c < 0x7f) (spf_text toks)"
  by (auto simp: spf_text_def list_all_iff is_token_def visible_def) force+

lemma Parse_spf_text:
  "list_all is_token toks \<Longrightarrow> length (spf_text toks) \<le> MaxRecordBytes \<Longrightarrow> length toks \<le> MaxTerms \<Longrightarrow>
   Parse U (spf_text toks) = parse_terms U [] toks"
  by (simp add: Parse_def token_bytes IsSPF_text Fields_spf_text Let_def)

section \<open>Terms\<close>

lemma checkDualCIDR_raw: "checkDualCIDR t arg h = Inr t' \<Longrightarrow> tm_Raw t' = tm_Raw t"
  by (auto simp: checkDualCIDR_def Let_def split: if_splits prod.splits option.splits)

lemma parse_mechanism_raw: "parse_mechanism U t body = Inr t' \<Longrightarrow> tm_Raw t' = tm_Raw t"
  unfolding parse_mechanism_def Let_def
  by (auto split: if_splits sum.splits dest: checkDualCIDR_raw)

lemma parseTerm_raw: "parseTerm U tok = Inr t \<Longrightarrow> tm_Raw t = tok"
  unfolding parseTerm_def Let_def
  by (auto split: if_splits option.splits dest: parse_mechanism_raw)

lemma parse_terms_raw: "parse_terms U seen toks = Inr ts \<Longrightarrow> map tm_Raw ts = toks"
  by (induction U seen toks arbitrary: ts rule: parse_terms.induct)
     (auto simp: Let_def parseTerm_raw split: if_splits sum.splits)

lemma parse_terms_front:
  assumes "list_all2 (\<lambda>w t. length w \<le> MaxTermBytes \<and> parseTerm U w = Inr t \<and> \<not> tm_Modifier t) add ats"
  shows "parse_terms U seen (add @ toks) = (case parse_terms U seen toks of Inl e \<Rightarrow> Inl e | Inr ts \<Rightarrow> Inr (ats @ ts))"
  using assms by (induction add ats rule: list_all2_induct) (auto split: sum.splits)

lemma IndexByte_none_Cut: "CHR ''/'' \<notin> set a \<Longrightarrow> Cut a ''/'' = (a, [], False)"
  by (induction a) (auto simp: HasPrefix_def)

lemma ip_text_chars: "ip_wf ip \<Longrightarrow> \<not> Is4In6 ip \<Longrightarrow> list_all (\<lambda>c. is_hex c \<or> c = CHR '':'' \<or> c = CHR ''.'') (ip_String ip)"
proof (cases ip)
  case (IP4 bs)
  have "c \<in> set (join_with ''.'' (map nat_dec ns)) \<Longrightarrow> is_hex c \<or> c = CHR ''.''" for c ns
  proof (induction ns)
    case (Cons n ns)
    then show ?case using nat_dec_digits [of n] by (cases ns) (auto simp: list_all_iff is_hex_def)
  qed simp
  then show ?thesis by (auto simp: IP4 ip_String_def ip4_text_def list_all_iff)
next
  case (IP6 gs)
  assume "\<not> Is4In6 ip"
  then show ?thesis using ip6_text_chars [of _ gs] by (auto simp: IP6 ip_String_def list_all_iff)
qed

definition ip_term :: "ipaddr \<Rightarrow> spf_term" where
  "ip_term ip = \<lparr>tm_Qualifier = CHR ''+'', tm_Name = (if Is4 ip then ''ip4'' else ''ip6''), tm_Modifier = False,
     tm_Arg = ip_String ip, tm_Prefix = Some \<lparr>px_is4 = Is4 ip, px_bits = ip_bits ip\<rparr>, tm_Raw = mechanism ip\<rparr>"

text \<open>The mechanism MailX writes for an address is parsed as the term that lists exactly this address.\<close>

lemma parseIPArg_text:
  assumes "ip_wf ip" and "\<not> Is4In6 ip"
  shows "parseIPArg (Is4 ip) (ip_String ip) = Inr \<lparr>px_is4 = Is4 ip, px_bits = ip_bits ip\<rparr>"
proof -
  have "CHR ''/'' \<notin> set (ip_String ip)"
    using ip_text_chars [OF assms] by (auto simp: list_all_iff is_hex_def is_digit_def)
  then show ?thesis
    by (simp add: parseIPArg_def IndexByte_none_Cut ParseAddr_String assms addr_Prefix_def length_ip_bits)
qed

lemma parseTerm_mechanism:
  assumes "ip_wf ip" and "\<not> Is4In6 ip"
  shows "parseTerm U (mechanism ip) = Inr (ip_term ip)"
proof (cases "Is4 ip")
  case True
  then show ?thesis using parseIPArg_text [OF assms]
    by (simp add: parseTerm_def parse_mechanism_def mechanism_def ip_term_def ToLower_def ascii_def lower_byte_def is_upper_def)
next
  case False
  then show ?thesis using parseIPArg_text [OF assms]
    by (simp add: parseTerm_def parse_mechanism_def mechanism_def ip_term_def ToLower_def ascii_def lower_byte_def is_upper_def)
qed

lemma ip_term_contains: "ip_wf ip \<Longrightarrow> prefix_Contains \<lparr>px_is4 = Is4 ip, px_bits = ip_bits ip\<rparr> ip"
  by (simp add: prefix_Contains_def)

lemma length_groups_text: "list_all (\<lambda>g. g < 65536) gs \<Longrightarrow> length (groups_text gs) \<le> 5 * length gs"
proof (induction gs)
  case (Cons g gs)
  then show ?case using length_hex_text [of g 3] by (simp add: groups_text_Cons)
qed (simp add: groups_text_def)

lemma length_ip_String:
  assumes "ip_wf ip" and "\<not> Is4In6 ip"
  shows "length (ip_String ip) \<le> 40"
proof (cases ip)
  case (IP4 bs)
  have "length (join_with ''.'' (map nat_dec ns)) \<le> 4 * length ns" if "list_all (\<lambda>b. b < 256) ns" for ns
    using that
  proof (induction ns)
    case (Cons n ns)
    then show ?case using length_nat_dec [of n 2] by (cases ns) auto
  qed simp
  from this [of bs] show ?thesis using assms by (simp add: IP4 ip_String_def ip4_text_def ip_wf_def)
next
  case (IP6 gs)
  obtain s e where z: "zero_run gs = (s, e)" by fastforce
  have gs: "length gs = 8" "list_all (\<lambda>g. g < 65536) gs" using assms by (auto simp: IP6 ip_wf_def)
  have sub: "list_all (\<lambda>g. g < 65536) (take s gs)" "list_all (\<lambda>g. g < 65536) (drop e gs)"
    using gs(2) by (auto simp: list_all_iff dest: in_set_takeD in_set_dropD)
  show ?thesis
  proof (cases "s = 255")
    case True
    then show ?thesis using length_groups_text [OF gs(2)] gs(1) assms(2) by (simp add: IP6 ip_String_def ip6_text_def z)
  next
    case False
    then have "length (ip6_text gs) \<le> 5 * length (take s gs) + 2 + 5 * length (drop e gs)"
      using length_groups_text [OF sub(1)] length_groups_text [OF sub(2)] by (simp add: ip6_text_def z)
    also have "\<dots> \<le> 40" using zero_run_split [OF z gs(1) False] gs(1) by simp
    finally show ?thesis using assms(2) by (simp add: IP6 ip_String_def)
  qed
qed

lemma mechanism_token:
  assumes "ip_wf ip" and "\<not> Is4In6 ip"
  shows "is_token (mechanism ip)" and "length (mechanism ip) \<le> 44"
  using ip_text_chars [OF assms] length_ip_String [OF assms]
  by (auto simp: mechanism_def is_token_def visible_def list_all_iff is_hex_def is_digit_def)

section \<open>The configuration MailX starts with\<close>

definition config_wf :: "spf_config \<Rightarrow> bool" where
  "config_wf c \<longleftrightarrow>
     list_all (\<lambda>ip. ip_wf ip \<and> \<not> Is4In6 ip) (sc_IPs c) \<and> length (sc_IPs c) \<le> MaxSendingIPs \<and> list_all visible (sc_RelayInclude c)"

lemma sending_loop_wf:
  "sending_loop i out ps = Inr r \<Longrightarrow> list_all (\<lambda>ip. ip_wf ip \<and> \<not> Is4In6 ip \<and> CheckPublicIP (ip, []) = None) out \<Longrightarrow> distinct out \<Longrightarrow>
   list_all (\<lambda>ip. ip_wf ip \<and> \<not> Is4In6 ip \<and> CheckPublicIP (ip, []) = None) r \<and> distinct r \<and> length r \<le> length out + length ps"
proof (induction i out ps rule: sending_loop.induct)
  case (2 i out p0 ps)
  let ?p = "TrimSpace p0"
  from 2(2) obtain a z where a: "CHR ''/'' \<notin> set ?p" "ParseAddr ?p = Some (a, z)"
    by (auto simp: Let_def split: if_splits option.splits)
  from 2(2) a have c: "CheckPublicIP (unmap_zone (a, z)) = None" by (auto simp: Let_def split: option.splits)
  note u = Unmap_wf [OF ParseAddr_wf [OF a(2)]]
  have "unmap_zone (a, z) = (Unmap a, [])"
    using c u by (auto simp: CheckPublicIP_def unmap_zone_def Unmap_idem split: if_splits)
  with 2 a c u show ?case by (fastforce simp: Let_def split: if_splits)
qed simp

lemma ParseSendingIPs_wf:
  assumes "ParseSendingIPs raw = Inr ips"
  shows "list_all (\<lambda>ip. ip_wf ip \<and> \<not> Is4In6 ip \<and> CheckPublicIP (ip, []) = None) ips"
    and "distinct ips" and "length ips \<le> MaxSendingIPs" and "sorted (map addr_key ips)"
proof -
  consider "ips = []" | out where "length (split_byte (CHR '','') (TrimSpace raw)) \<le> MaxSendingIPs"
      "sending_loop 1 [] (split_byte (CHR '','') (TrimSpace raw)) = Inr out" "ips = sort_key addr_key out"
    using assms by (auto simp: ParseSendingIPs_def Let_def split: if_splits sum.splits)
  then have "list_all (\<lambda>ip. ip_wf ip \<and> \<not> Is4In6 ip \<and> CheckPublicIP (ip, []) = None) ips \<and> distinct ips \<and> length ips \<le> MaxSendingIPs \<and>
      sorted (map addr_key ips)"
  proof cases
    case 2
    from sending_loop_wf [OF 2(2)] show ?thesis using 2 by (simp add: list_all_iff)
  qed simp
  then show "list_all (\<lambda>ip. ip_wf ip \<and> \<not> Is4In6 ip \<and> CheckPublicIP (ip, []) = None) ips"
    and "distinct ips" and "length ips \<le> MaxSendingIPs" and "sorted (map addr_key ips)" by simp_all
qed

lemma host_visible:
  assumes "validRelayHost h" and "\<not> is_IP h"
  shows "list_all visible h"
proof -
  have labels: "list_all host_label_ok (split_byte (CHR ''.'') (TrimSuffix h ''.''))"
    using assms by (simp add: validRelayHost_def)
  have "visible c" if "c \<in> set l" "host_label_ok l" for c l
    using that by (auto simp: host_label_ok_def visible_def list_all_iff go_str)
  then have "list_all (list_all visible) (split_byte (CHR ''.'') (TrimSuffix h ''.''))"
    using labels by (auto simp: list_all_iff)
  moreover have "list_all (list_all visible) ws \<Longrightarrow> list_all visible (join_with ''.'' ws)" for ws
    by (induction "''.''" ws rule: join_with.induct) (auto simp: visible_def)
  ultimately have t: "list_all visible (TrimSuffix h ''.'')" by (metis join_split_byte)
  show ?thesis
  proof (cases "HasSuffix h ''.''")
    case True
    then have "h = TrimSuffix h ''.'' @ ''.''"
      by (metis HasSuffix_def TrimSuffix_def append_take_drop_id)
    moreover have "list_all visible (TrimSuffix h ''.'' @ ''.'')" using t by (simp add: visible_def)
    ultimately show ?thesis by simp
  next
    case False
    then show ?thesis using t by (simp add: TrimSuffix_def)
  qed
qed

lemma visible_lower: "list_all visible s \<Longrightarrow> list_all visible (ToLower U s)"
proof -
  assume v: "list_all visible s"
  then have "ascii s" by (auto simp: ascii_def visible_def list_all_iff)
  then show ?thesis using v lower_byte_printable by (auto simp: ToLower_def visible_def list_all_iff)
qed

lemma spfConfig_wf:
  assumes "spfConfig U ips incl relay = Inr cfg"
  shows "config_wf cfg"
proof -
  let ?i = "TrimSuffix (TrimSpace incl) ''.''"
  obtain as where as: "ParseSendingIPs ips = Inr as" using assms by (auto simp: spfConfig_def split: sum.splits)
  note w = ParseSendingIPs_wf [OF as]
  show ?thesis
  proof (cases relay)
    case True
    then have c: "cfg = \<lparr>sc_Mode = ModeRelay, sc_IPs = [], sc_RelayInclude = ToLower U ?i\<rparr>"
      and h: "?i = [] \<or> (validRelayHost ?i \<and> \<not> is_IP ?i)"
      using assms as by (auto simp: spfConfig_def Let_def split: if_splits)
    have "list_all visible ?i" using h host_visible by auto
    then show ?thesis using visible_lower by (simp add: c config_wf_def)
  next
    case False
    then have c: "cfg = \<lparr>sc_Mode = ModeDirect, sc_IPs = as, sc_RelayInclude = []\<rparr>"
      using assms as by (simp add: spfConfig_def Let_def split: if_splits)
    show ?thesis using w(1,3) by (auto simp: c config_wf_def list_all_iff)
  qed
qed

section \<open>The advice\<close>

lemma Covers_front:
  "Covers (map ip_term js @ ts) ip =
   (if list_ex (\<lambda>j. prefix_Contains \<lparr>px_is4 = Is4 j, px_bits = ip_bits j\<rparr> (Unmap ip)) js then Authorized else Covers ts ip)"
  by (induction js) (auto simp: ip_term_def)

lemma Covers_own: "ip \<in> set js \<Longrightarrow> ip_wf ip \<Longrightarrow> \<not> Is4In6 ip \<Longrightarrow> Covers (map ip_term js @ ts) ip = Authorized"
  using ip_term_contains [of ip] by (auto simp: Covers_front Unmap_idem list_ex_iff)

lemma analyze_verified:
  "Parse U raw = Inr ts \<Longrightarrow> fst (assess U ts cfg) = [] \<Longrightarrow> sr_Status (analyze_record U cfg d raw) = StatusVerified"
  by (cases "assess U ts cfg") (simp add: analyze_record_def Let_def)

text \<open>
  A record that starts with the mechanisms MailX asks for is assessed as verified, whatever terms of the
  existing record follow them.
\<close>

lemma direct_front_verified:
  assumes cfg: "config_wf cfg" "sc_Mode cfg = ModeDirect" "set js \<subseteq> set (sc_IPs cfg)"
    and old: "parse_terms U [] old = Inr ts" "list_all is_token old"
    and cov: "\<forall>ip\<in>set (sc_IPs cfg). ip \<in> set js \<or> Covers ts ip = Authorized"
    and len: "length (spf_text (map mechanism js @ old)) \<le> MaxRecordBytes" "length (map mechanism js @ old) \<le> MaxTerms"
  shows "sr_Status (analyze_record U cfg d (spf_text (map mechanism js @ old))) = StatusVerified"
proof -
  have wf: "ip_wf ip \<and> \<not> Is4In6 ip" if "ip \<in> set (sc_IPs cfg)" for ip
    using that cfg(1) by (auto simp: config_wf_def list_all_iff)
  have js: "ip_wf j" "\<not> Is4In6 j" if "j \<in> set js" for j using wf that cfg(3) by auto
  have "length (mechanism j) \<le> MaxTermBytes" if "j \<in> set js" for j
    using mechanism_token(2) [OF js(1) [OF that] js(2) [OF that]] by (simp add: spf_bounds)
  then have "list_all2 (\<lambda>w t. length w \<le> MaxTermBytes \<and> parseTerm U w = Inr t \<and> \<not> tm_Modifier t) (map mechanism js) (map ip_term js)"
    using js by (auto simp: list_all2_conv_all_nth parseTerm_mechanism ip_term_def)
  from parse_terms_front [OF this, of "[]" old]
  have "parse_terms U [] (map mechanism js @ old) = Inr (map ip_term js @ ts)" by (simp add: old)
  moreover have "list_all is_token (map mechanism js @ old)"
    using old(2) js mechanism_token(1) by (auto simp: list_all_iff)
  ultimately have p: "Parse U (spf_text (map mechanism js @ old)) = Inr (map ip_term js @ ts)"
    using Parse_spf_text len by simp
  have "Covers (map ip_term js @ ts) ip = Authorized" if "ip \<in> set (sc_IPs cfg)" for ip
    using cov that wf [OF that] Covers_own [of ip js ts] Covers_front [of js ts ip] by auto
  then have "fst (assess U (map ip_term js @ ts) cfg) = []" using cfg(2) by (simp add: assess_def filter_empty_conv)
  with p show ?thesis by (rule analyze_verified)
qed

lemma parseTerm_include:
  assumes "d \<noteq> []" and "length d \<le> 247"
  shows "parseTerm U (''include:'' @ d) =
    Inr \<lparr>tm_Qualifier = CHR ''+'', tm_Name = ''include'', tm_Modifier = False, tm_Arg = d, tm_Prefix = None, tm_Raw = ''include:'' @ d\<rparr>"
  using assms
  by (simp add: parseTerm_def parse_mechanism_def plausibleDomainSpec_def ToLower_def ascii_def lower_byte_def is_upper_def)

lemma relay_front_verified:
  assumes cfg: "config_wf cfg" "sc_Mode cfg = ModeRelay" "sc_RelayInclude cfg \<noteq> []" "length (sc_RelayInclude cfg) \<le> 247"
    and old: "parse_terms U [] old = Inr ts" "list_all is_token old"
    and len: "length (spf_text (Mechanisms cfg @ old)) \<le> MaxRecordBytes" "length (Mechanisms cfg @ old) \<le> MaxTerms"
  shows "sr_Status (analyze_record U cfg d (spf_text (Mechanisms cfg @ old))) = StatusVerified"
proof -
  let ?d = "sc_RelayInclude cfg"
  have m: "Mechanisms cfg = [''include:'' @ ?d]" using cfg(2,3) by (simp add: Mechanisms_def)
  note t = parseTerm_include [OF cfg(3,4), of U]
  let ?t = "\<lparr>tm_Qualifier = CHR ''+'', tm_Name = ''include'', tm_Modifier = False, tm_Arg = ?d, tm_Prefix = None, tm_Raw = ''include:'' @ ?d\<rparr>"
  have "list_all2 (\<lambda>w t. length w \<le> MaxTermBytes \<and> parseTerm U w = Inr t \<and> \<not> tm_Modifier t) (Mechanisms cfg) [?t]"
    using t cfg(4) by (simp add: m spf_bounds)
  from parse_terms_front [OF this, of "[]" old]
  have "parse_terms U [] (Mechanisms cfg @ old) = Inr (?t # ts)" by (simp add: old)
  moreover have "list_all is_token (Mechanisms cfg @ old)"
    using old(2) cfg(1) by (simp add: m is_token_def config_wf_def visible_def)
  ultimately have p: "Parse U (spf_text (Mechanisms cfg @ old)) = Inr (?t # ts)"
    using Parse_spf_text len by simp
  have "fst (assess U (?t # ts) cfg) = []" using cfg(2) by (simp add: assess_def is_all_def)
  with p show ?thesis by (rule analyze_verified)
qed

lemma parse_all: "parse_terms U [] [''~all''] =
    Inr [\<lparr>tm_Qualifier = CHR ''~'', tm_Name = ''all'', tm_Modifier = False, tm_Arg = [], tm_Prefix = None, tm_Raw = ''~all''\<rparr>]"
  by (simp add: parseTerm_def parse_mechanism_def ToLower_def ascii_def lower_byte_def is_upper_def spf_bounds)

lemma create_text: "ex_Value (createExpected d cfg) = spf_text (Mechanisms cfg @ [''~all''])"
  by (simp add: createExpected_def spf_text_def)

lemma length_concat_le: "\<forall>w\<in>set ws. length w \<le> k \<Longrightarrow> length (concat ws) \<le> length ws * k"
  by (induction ws) auto

lemma create_verified:
  assumes cfg: "config_wf cfg" "Ready cfg" "length (sc_RelayInclude cfg) \<le> 247"
  shows "sr_Status (analyze_record U cfg d (ex_Value (createExpected d' cfg))) = StatusVerified"
proof (cases "sc_Mode cfg")
  case ModeDirect
  then have m: "Mechanisms cfg = map mechanism (sc_IPs cfg)" by (simp add: Mechanisms_def)
  have n: "length (sc_IPs cfg) \<le> 16" using cfg(1) by (simp add: config_wf_def MaxSendingIPs_def)
  have "length w \<le> 45" if "w \<in> set (map (\<lambda>w. '' '' @ w) (map mechanism (sc_IPs cfg)))" for w
    using that cfg(1) mechanism_token(2) by (fastforce simp: config_wf_def list_all_iff)
  then have "length (concat (map (\<lambda>w. '' '' @ w) (map mechanism (sc_IPs cfg)))) \<le> length (sc_IPs cfg) * 45"
    using length_concat_le [of "map (\<lambda>w. '' '' @ w) (map mechanism (sc_IPs cfg))" 45] by simp
  then have "length (spf_text (map mechanism (sc_IPs cfg) @ [''~all''])) \<le> MaxRecordBytes"
    using n by (simp add: spf_text_def spf_bounds)
  moreover have "length (map mechanism (sc_IPs cfg) @ [''~all'']) \<le> MaxTerms" using n by (simp add: spf_bounds)
  ultimately show ?thesis
    unfolding create_text m
    by (intro direct_front_verified [OF cfg(1) ModeDirect _ parse_all]) (auto simp: is_token_def visible_def)
next
  case ModeRelay
  then have ne: "sc_RelayInclude cfg \<noteq> []" using cfg(2) by (simp add: Ready_def)
  then have m: "Mechanisms cfg = [''include:'' @ sc_RelayInclude cfg]" using ModeRelay by (simp add: Mechanisms_def)
  show ?thesis
    unfolding create_text
    by (rule relay_front_verified [OF cfg(1) ModeRelay ne cfg(3) parse_all])
       (use cfg(3) in \<open>simp_all add: m is_token_def visible_def spf_text_def spf_bounds\<close>)
qed

lemma Parse_tokens:
  assumes "Parse U raw = Inr ts"
  shows "parse_terms U [] (map tm_Raw ts) = Inr ts" and "list_all is_token (map tm_Raw ts)"
proof -
  let ?toks = "Fields (drop 6 raw)"
  have p: "list_all (\<lambda>c. 0x20 \<le> byte c \<and> byte c < 0x7f) raw" "parse_terms U [] ?toks = Inr ts"
    using assms by (auto simp: Parse_def Let_def split: if_splits)
  then have r: "map tm_Raw ts = ?toks" using parse_terms_raw by blast
  have "list_all (\<lambda>c. 0x20 \<le> byte c \<and> byte c < 0x7f) (drop 6 raw)" using p(1) by (auto simp: list_all_iff dest: in_set_dropD)
  then have "list_all is_token ?toks" unfolding Fields_def by (rule fields_are_tokens) simp
  then show "parse_terms U [] (map tm_Raw ts) = Inr ts" "list_all is_token (map tm_Raw ts)" using p(2) by (simp_all add: r)
qed

lemma merge_text: "Merge ts add = Some v \<Longrightarrow> v = spf_text (add @ map tm_Raw ts) \<and> length v \<le> MaxRecordBytes"
  using join_spf_text [of "add @ map tm_Raw ts"] by (auto simp: Merge_def Let_def split: if_splits)

lemma merge_verified:
  assumes cfg: "config_wf cfg" "Ready cfg" "length (sc_RelayInclude cfg) \<le> 247"
    and raw: "Parse U raw = Inr ts" "fst (assess U ts cfg) \<noteq> []" "Merge ts (fst (assess U ts cfg)) = Some v"
    and terms: "length (Fields (drop 6 v)) \<le> MaxTerms"
  shows "sr_Status (analyze_record U cfg d v) = StatusVerified"
proof (cases "sc_Mode cfg")
  case ModeDirect
  let ?js = "filter (\<lambda>ip. Covers ts ip \<noteq> Authorized) (sc_IPs cfg)"
  have a: "fst (assess U ts cfg) = map mechanism ?js" using ModeDirect by (simp add: assess_def)
  note v = merge_text [OF raw(3)]
  have tok: "list_all is_token (map mechanism ?js @ map tm_Raw ts)"
    using Parse_tokens(2) [OF raw(1)] cfg(1) mechanism_token(1) by (auto simp: list_all_iff config_wf_def)
  have "length (map mechanism ?js @ map tm_Raw ts) \<le> MaxTerms"
    using terms Fields_spf_text [OF tok] v by (simp add: a)
  then show ?thesis
    using direct_front_verified [OF cfg(1) ModeDirect _ Parse_tokens [OF raw(1)], of ?js d] v by (auto simp: a)
next
  case ModeRelay
  then have ne: "sc_RelayInclude cfg \<noteq> []" using cfg(2) by (simp add: Ready_def)
  then have m: "Mechanisms cfg = [''include:'' @ sc_RelayInclude cfg]" using ModeRelay by (simp add: Mechanisms_def)
  have a: "fst (assess U ts cfg) = Mechanisms cfg" using ModeRelay raw(2) by (auto simp: assess_def split: if_splits)
  note v = merge_text [OF raw(3)]
  have tok: "list_all is_token (Mechanisms cfg @ map tm_Raw ts)"
    using Parse_tokens(2) [OF raw(1)] cfg(1) by (simp add: m is_token_def config_wf_def visible_def)
  have "length (Mechanisms cfg @ map tm_Raw ts) \<le> MaxTerms"
    using terms Fields_spf_text [OF tok] v by (simp add: a)
  then show ?thesis
    using relay_front_verified [OF cfg(1) ModeRelay ne cfg(3) Parse_tokens [OF raw(1)], of d] v by (auto simp: a)
qed

lemma advice_cases:
  assumes "ex_Action (sr_Expected (Analyze U cfg d answer)) \<in> {Create, UpdateExisting}"
  shows "Ready cfg \<and> (sr_Expected (Analyze U cfg d answer) = createExpected d cfg \<or>
    (\<exists>raw ts. Parse U raw = Inr ts \<and> fst (assess U ts cfg) \<noteq> [] \<and>
       Merge ts (fst (assess U ts cfg)) = Some (ex_Value (sr_Expected (Analyze U cfg d answer)))))"
proof -
  have rec: "ex_Action (sr_Expected (analyze_record U cfg d raw)) \<in> {Create, UpdateExisting} \<Longrightarrow>
    \<exists>ts. Parse U raw = Inr ts \<and> fst (assess U ts cfg) \<noteq> [] \<and>
      Merge ts (fst (assess U ts cfg)) = Some (ex_Value (sr_Expected (analyze_record U cfg d raw)))" for raw
    unfolding analyze_record_def Let_def
    by (cases "Parse U raw") (auto simp: action_only_def split: prod.splits if_splits option.splits)
  show ?thesis
  proof (cases answer)
    case (TxtRecords records)
    show ?thesis
    proof (cases "filter (IsSPF U) records" rule: remdups_adj.cases)
      case (2 raw)
      then show ?thesis using assms rec [of raw] TxtRecords
        by (auto simp: Analyze_def Let_def action_only_def unknownExpected_def blank_result_def split: if_splits spf_mode.splits)
    qed (use assms TxtRecords in \<open>auto simp: Analyze_def Let_def action_only_def unknownExpected_def blank_result_def notConfigured_def split: if_splits spf_mode.splits\<close>)
  qed (use assms in \<open>auto simp: Analyze_def Let_def action_only_def unknownExpected_def blank_result_def notConfigured_def split: if_splits spf_mode.splits\<close>)
qed

section \<open>What a verified domain has\<close>

definition literal_match :: "ipaddr \<Rightarrow> spf_term \<Rightarrow> bool" where
  "literal_match ip t \<longleftrightarrow>
     \<not> tm_Modifier t \<and> (tm_Name t = ''ip4'' \<or> tm_Name t = ''ip6'') \<and>
     (case tm_Prefix t of None \<Rightarrow> False | Some p \<Rightarrow> prefix_Contains p (Unmap ip))"

text \<open>
  A record literally authorizes an address when a passing mechanism lists it, and neither \<^verbatim>\<open>all\<close> nor
  another literal mechanism that matches comes before.
\<close>

definition authorizes :: "spf_term list \<Rightarrow> ipaddr \<Rightarrow> bool" where
  "authorizes ts ip \<longleftrightarrow>
     (\<exists>pre t post. ts = pre @ t # post \<and> literal_match ip t \<and> tm_Qualifier t = CHR ''+'' \<and>
        list_all (\<lambda>s. \<not> is_all s \<and> \<not> literal_match ip s) pre)"

definition names_relay :: "unicode \<Rightarrow> string \<Rightarrow> spf_term \<Rightarrow> bool" where
  "names_relay U domain t \<longleftrightarrow>
     \<not> tm_Modifier t \<and> tm_Name t = ''include'' \<and> tm_Qualifier t = CHR ''+'' \<and> include_key U (tm_Arg t) = include_key U domain"

definition relay_included :: "unicode \<Rightarrow> spf_term list \<Rightarrow> string \<Rightarrow> bool" where
  "relay_included U ts domain \<longleftrightarrow> list_ex (names_relay U domain) (takeWhile (\<lambda>t. \<not> is_all t) ts)"

lemma authorizes_Cons:
  "authorizes (t # ts) ip \<longleftrightarrow>
     (literal_match ip t \<and> tm_Qualifier t = CHR ''+'') \<or> (\<not> is_all t \<and> \<not> literal_match ip t \<and> authorizes ts ip)"
proof
  assume "authorizes (t # ts) ip"
  then obtain pre s post where p: "t # ts = pre @ s # post" "literal_match ip s" "tm_Qualifier s = CHR ''+''"
      "list_all (\<lambda>s. \<not> is_all s \<and> \<not> literal_match ip s) pre"
    unfolding authorizes_def by blast
  then show "(literal_match ip t \<and> tm_Qualifier t = CHR ''+'') \<or> (\<not> is_all t \<and> \<not> literal_match ip t \<and> authorizes ts ip)"
    unfolding authorizes_def by (cases pre) auto
next
  assume r: "(literal_match ip t \<and> tm_Qualifier t = CHR ''+'') \<or> (\<not> is_all t \<and> \<not> literal_match ip t \<and> authorizes ts ip)"
  then show "authorizes (t # ts) ip"
  proof
    assume "literal_match ip t \<and> tm_Qualifier t = CHR ''+''"
    then show ?thesis unfolding authorizes_def by (intro exI [of _ "[]"]) auto
  next
    assume a: "\<not> is_all t \<and> \<not> literal_match ip t \<and> authorizes ts ip"
    then obtain pre s post where "ts = pre @ s # post" "literal_match ip s" "tm_Qualifier s = CHR ''+''"
        "list_all (\<lambda>s. \<not> is_all s \<and> \<not> literal_match ip s) pre"
      unfolding authorizes_def by blast
    then show ?thesis using a unfolding authorizes_def by (intro exI [of _ "t # pre"]) auto
  qed
qed

lemma Covers_authorizes: "Covers ts ip = Authorized \<longleftrightarrow> authorizes ts ip"
proof (induction ts)
  case Nil
  then show ?case by (simp add: authorizes_def)
next
  case (Cons t ts)
  then show ?case unfolding authorizes_Cons by (auto simp: literal_match_def is_all_def)
qed

lemma Includes_spec: "Includes U ts domain \<longleftrightarrow> relay_included U ts domain"
  by (induction ts) (auto simp: relay_included_def names_relay_def)

lemma assess_none:
  "fst (assess U ts cfg) = [] \<longleftrightarrow>
   (case sc_Mode cfg of
      ModeDirect \<Rightarrow> list_all (authorizes ts) (sc_IPs cfg)
    | ModeRelay \<Rightarrow> relay_included U ts (sc_RelayInclude cfg) \<or> sc_RelayInclude cfg = [])"
  by (cases "sc_Mode cfg") (auto simp: assess_def filter_empty_conv list_all_iff Covers_authorizes Includes_spec Mechanisms_def)

lemma record_verified:
  "sr_Status (analyze_record U cfg d raw) = StatusVerified \<longleftrightarrow> (\<exists>ts. Parse U raw = Inr ts \<and> fst (assess U ts cfg) = [])"
  unfolding analyze_record_def Let_def
  by (cases "Parse U raw") (auto split: prod.splits option.splits)

text \<open>
  A domain is reported as verified exactly when MailX knows its infrastructure, the bounded TXT answer
  has one SPF record, this record is well formed, and it literally passes every sending address in direct
  mode, or names the relay's include before any \<^verbatim>\<open>all\<close> in relay mode. A record that passes everybody
  with \<^verbatim>\<open>+all\<close> does not count.
\<close>

theorem spf_verified_iff:
  "sr_Status (Analyze U cfg d answer) = StatusVerified \<longleftrightarrow>
   Ready cfg \<and>
   (\<exists>records raw ts. answer = TxtRecords records \<and> length records \<le> MaxTXTRecords \<and> filter (IsSPF U) records = [raw] \<and>
      Parse U raw = Inr ts \<and>
      (case sc_Mode cfg of
         ModeDirect \<Rightarrow> list_all (authorizes ts) (sc_IPs cfg)
       | ModeRelay \<Rightarrow> relay_included U ts (sc_RelayInclude cfg)))"
proof (cases "Ready cfg")
  case False
  then show ?thesis by (simp add: Analyze_def Let_def)
next
  case True
  then have a: "fst (assess U ts cfg) = [] \<longleftrightarrow>
     (case sc_Mode cfg of ModeDirect \<Rightarrow> list_all (authorizes ts) (sc_IPs cfg) | ModeRelay \<Rightarrow> relay_included U ts (sc_RelayInclude cfg))" for ts
    unfolding assess_none by (cases "sc_Mode cfg") (simp_all add: Ready_def)
  show ?thesis
  proof (cases answer)
    case (TxtRecords records)
    show ?thesis
    proof (cases "filter (IsSPF U) records" rule: remdups_adj.cases)
      case (2 raw)
      then show ?thesis using True TxtRecords record_verified [of U cfg d raw] by (auto simp: Analyze_def Let_def a)
    qed (use True TxtRecords in \<open>auto simp: Analyze_def Let_def notConfigured_def\<close>)
  qed (use True in \<open>auto simp: Analyze_def Let_def notConfigured_def\<close>)
qed

lemma replicate_num: "replicate (numeral n) x = x # replicate (pred_numeral n) x"
  by (simp add: numeral_eq_Suc)

lemmas ip_eval = ParsePrefix_def HasPrefix_def is_digit_def ParseAddr_def parseIPv4_def parse4_field_def dec_val_def
  addr_Prefix_def Is4_def ip_bits_def bits_of_def upt_rec parseIPv6_def parse6.simps is_hex_def hex_val_def hex_digit_val_def expand6_def replicate_num

lemma length_nonPublic: "length nonPublic = 26"
  by (simp add: nonPublic_def map_filter_simps ip_eval)

definition spf_demo_config :: spf_config where
  "spf_demo_config = \<lparr>sc_Mode = ModeDirect, sc_IPs = [IP4 [8, 8, 4, 4], IP6 [0x2606, 0x4700, 0, 0, 0, 0, 0, 0x1111]], sc_RelayInclude = []\<rparr>"

lemma demo_addresses:
  "ParseAddr ''8.8.4.4'' = Some (IP4 [8, 8, 4, 4], [])"
  "ParseAddr ''2606:4700::1111'' = Some (IP6 [0x2606, 0x4700, 0, 0, 0, 0, 0, 0x1111], [])"
  by (simp_all add: ip_eval)

lemma demo_public:
  "CheckPublicIP (IP4 [8, 8, 4, 4], []) = None"
  "CheckPublicIP (IP6 [0x2606, 0x4700, 0, 0, 0, 0, 0, 0x1111], []) = None"
  by (simp_all add: CheckPublicIP_def unmap_zone_def Unmap_def Is4In6_def IsGlobalUnicast_def nonPublic_def map_filter_simps
      prefix_Contains_def ip_eval)

lemma demo_split: "split_byte (CHR '','') (TrimSpace '' 2606:4700::1111,8.8.4.4, 8.8.4.4'') = [''2606:4700::1111'', ''8.8.4.4'', '' 8.8.4.4'']"
  "TrimSpace ''2606:4700::1111'' = ''2606:4700::1111''" "TrimSpace ''8.8.4.4'' = ''8.8.4.4''" "TrimSpace '' 8.8.4.4'' = ''8.8.4.4''"
  by (simp_all add: go_str)

lemma spf_demo_started: "spfConfig plain_unicode '' 2606:4700::1111,8.8.4.4, 8.8.4.4'' '''' False = Inr spf_demo_config"
proof -
  have s: "sending_loop 1 [] [''2606:4700::1111'', ''8.8.4.4'', '' 8.8.4.4''] = Inr [IP6 [0x2606, 0x4700, 0, 0, 0, 0, 0, 0x1111], IP4 [8, 8, 4, 4]]"
    by (simp add: demo_split demo_addresses demo_public unmap_zone_def Unmap_def Is4In6_def)
  have n: "TrimSpace '' 2606:4700::1111,8.8.4.4, 8.8.4.4'' \<noteq> []" by (simp add: go_str)
  have "ParseSendingIPs '' 2606:4700::1111,8.8.4.4, 8.8.4.4'' = Inr (sc_IPs spf_demo_config)"
    using n unfolding ParseSendingIPs_def Let_def demo_split s
    by (simp add: MaxSendingIPs_def addr_key_def spf_demo_config_def)
  then show ?thesis by (simp add: spfConfig_def spf_demo_config_def go_str)
qed

definition spf_demo_value :: string where
  "spf_demo_value = ''v=spf1 ip4:8.8.4.4 ip6:2606:4700::1111 a -all''"

lemmas term_eval = parseTerm_def parse_mechanism_def parseIPArg_def checkDualCIDR_def ToLower_def ascii_def lower_byte_def is_upper_def
  HasPrefix_def spf_bounds

lemma demo_parse:
  "Parse plain_unicode ''v=spf1 a -all'' = Inr
     [\<lparr>tm_Qualifier = CHR ''+'', tm_Name = ''a'', tm_Modifier = False, tm_Arg = [], tm_Prefix = None, tm_Raw = ''a''\<rparr>,
      \<lparr>tm_Qualifier = CHR ''-'', tm_Name = ''all'', tm_Modifier = False, tm_Arg = [], tm_Prefix = None, tm_Raw = ''-all''\<rparr>]"
proof -
  have t: "''v=spf1 a -all'' = spf_text [''a'', ''-all'']" by (simp add: spf_text_def)
  show ?thesis unfolding t
    by (subst Parse_spf_text) (simp_all add: is_token_def visible_def spf_text_def term_eval)
qed

lemma demo_texts: "mechanism (IP4 [8, 8, 4, 4]) = ''ip4:8.8.4.4''"
  "mechanism (IP6 [0x2606, 0x4700, 0, 0, 0, 0, 0, 0x1111]) = ''ip6:2606:4700::1111''"
  by (simp_all add: mechanism_def Is4_def ip_String_def Is4In6_def ip4_text_def ip6_text_def zero_run_def zero_run_from_def upt_rec
      groups_text_def nat_dec_small hex_text.simps hex_char_def char_of_def bit_0)

lemma spf_demo_advice:
  "sr_Expected (Analyze plain_unicode spf_demo_config ''x.org'' (TxtRecords [''v=spf1 a -all'', ''other''])) =
     \<lparr>ex_Action = UpdateExisting, ex_Type = ''TXT'', ex_Name = ''x.org'', ex_Value = spf_demo_value\<rparr>"
proof -
  have f: "filter (IsSPF plain_unicode) [''v=spf1 a -all'', ''other''] = [''v=spf1 a -all'']"
    by (simp add: IsSPF_def EqualFold_def go_str)
  show ?thesis
    by (simp only: Analyze_def Let_def txt_answer.case f list.case) (simp add: Ready_def analyze_record_def Let_def demo_parse assess_def
        spf_demo_config_def demo_texts Merge_def spf_demo_value_def spf_bounds)
qed

lemma demo_value: "spf_demo_value = spf_text [''ip4:8.8.4.4'', ''ip6:2606:4700::1111'', ''a'', ''-all'']"
  by (simp add: spf_demo_value_def spf_text_def)


definition spf_full_record :: string where
  "spf_full_record = spf_text (replicate 64 ''a'')"

definition demo_a_term :: spf_term where
  "demo_a_term = \<lparr>tm_Qualifier = CHR ''+'', tm_Name = ''a'', tm_Modifier = False, tm_Arg = [], tm_Prefix = None, tm_Raw = ''a''\<rparr>"

lemma parse_many: "parse_terms U seen (replicate n ''a'') = Inr (replicate n demo_a_term)"
  by (induction n) (simp_all add: demo_a_term_def term_eval)

lemma many_tokens: "list_all is_token (replicate n ''a'')"
  by (simp add: list_all_iff is_token_def visible_def)

lemma Covers_many: "Covers (replicate n demo_a_term) ip = NotListed"
  by (induction n) (simp_all add: demo_a_term_def)

lemma length_many: "length (spf_text (ws @ replicate n ''a'')) = length (spf_text ws) + 2 * n"
  by (induction n) (simp_all add: spf_text_def)

lemma too_many_invalid:
  "list_all is_token toks \<Longrightarrow> length toks > MaxTerms \<Longrightarrow> sr_Status (analyze_record U cfg d (spf_text toks)) = StatusInvalid"
  by (simp add: analyze_record_def Parse_def Let_def token_bytes IsSPF_text Fields_spf_text)

text \<open>
  The bound on the number of terms is needed: a domain whose record has 64 terms is told to publish a
  record of more, which the next assessment calls invalid.
\<close>

theorem advice_can_be_invalid:
  "let e = sr_Expected (Analyze plain_unicode spf_demo_config ''x.org'' (TxtRecords [spf_full_record]))
   in ex_Action e = UpdateExisting \<and>
      sr_Status (Analyze plain_unicode spf_demo_config ''x.org'' (TxtRecords [ex_Value e])) = StatusInvalid"
proof -
  let ?ms = "map mechanism (sc_IPs spf_demo_config)" and ?old = "replicate 64 ''a''" and ?ts = "replicate 64 demo_a_term"
  have p: "Parse plain_unicode spf_full_record = Inr ?ts"
    unfolding spf_full_record_def using Parse_spf_text [OF many_tokens] length_many [of "[]" 64] parse_many
    by (simp add: spf_bounds spf_text_def)
  have a: "assess plain_unicode ?ts spf_demo_config = (?ms, False)"
    by (simp add: assess_def Covers_many spf_demo_config_def)
  have ne: "?ms \<noteq> []" by (simp add: spf_demo_config_def)
  have m: "Merge ?ts ?ms = Some (spf_text (?ms @ ?old))"
    using join_spf_text [of "?ms @ ?old"] length_many [of ?ms 64]
    by (simp add: Merge_def demo_a_term_def spf_bounds) (simp add: spf_text_def spf_demo_config_def demo_texts)
  have r: "Ready spf_demo_config" by (simp add: Ready_def spf_demo_config_def)
  have e: "sr_Expected (Analyze plain_unicode spf_demo_config ''x.org'' (TxtRecords [spf_full_record])) =
    \<lparr>ex_Action = UpdateExisting, ex_Type = ''TXT'', ex_Name = ''x.org'', ex_Value = spf_text (?ms @ ?old)\<rparr>"
    using ne IsSPF_text [of plain_unicode ?old, folded spf_full_record_def]
    by (simp add: Analyze_def analyze_record_def Let_def r p a m MaxTXTRecords_def)
  have "list_all is_token (?ms @ ?old)"
    using many_tokens [of 64] by (simp add: spf_demo_config_def demo_texts is_token_def visible_def)
  then have "sr_Status (analyze_record plain_unicode spf_demo_config ''x.org'' (spf_text (?ms @ ?old))) = StatusInvalid"
    by (rule too_many_invalid) (simp add: spf_demo_config_def MaxTerms_def)
  then show ?thesis unfolding Let_def e by (simp add: Analyze_def r MaxTXTRecords_def IsSPF_text)
qed

end
