(* ===== verification/Durable_Store.thy ===== *)
theory Durable_Store
  imports Worker
begin

text \<open>
  The tables a message lives in and the transactions of \<^verbatim>\<open>internal/database\<close> that change them
  (\<^verbatim>\<open>messages.go\<close>, \<^verbatim>\<open>attempts.go\<close>, \<^verbatim>\<open>outcomes.go\<close>, \<^verbatim>\<open>suppressions.go\<close>, \<^verbatim>\<open>idempotency.go\<close>, \<^verbatim>\<open>outbox.go\<close>,
  \<^verbatim>\<open>abuse.go\<close>, \<^verbatim>\<open>routing.go\<close>), member selection and the router (\<^verbatim>\<open>internal/routing\<close>), idempotency keys
  (\<^verbatim>\<open>internal/idempotency/key.go\<close>) and the dispatcher (\<^verbatim>\<open>internal/dispatch\<close>). A transaction is a
  function on the tables that leaves them unchanged when it returns an error; \<open>now\<close> is the database clock. Rows
  keep their order of insertion, which also decides between rows that a query's \<^verbatim>\<open>ORDER BY\<close> leaves equal.
  Generated row identifiers and display-only metadata are left out. The theorems: the tables stay consistent
  along every sequence of transactions, an idempotency key creates one message, the sending member is decided
  once, a batch of the outbox is fair to the tenants, and handing over to the queue loses nothing.
\<close>

section \<open>Tables\<close>

datatype message_status =
    MsgQueued | MsgProcessing | MsgRetrying | MsgDelivered | MsgFailed | MsgBounced | MsgSuppressed

datatype db_decision = DecisionRetry | DecisionTerminalSuccess | DecisionTerminalFailure

datatype event_type =
    EventQueued | EventDeliveryAttempted | EventDelivered | EventDeferred | EventBounced | EventFailed
  | EventSuppressed | EventComplained | EventOpened | EventClicked

datatype recipient_status = RecipientPending | RecipientDelivered | RecipientFailed | RecipientSuppressed

datatype db_error =
    DbInvalid | DbErrNotFound | DbErrConflict | ErrMessageTerminal | ErrSenderNotAuthorized | ErrRecipientErased
  | ErrBroadcastStateConflict | DbFailed

record message_row =
  mr_Tenant :: string
  mr_MailFrom :: string
  mr_FromHeader :: string
  mr_Subject :: string
  mr_MessageIDHeader :: string
  mr_Status :: message_status
  mr_CreatedAt :: gotime
  mr_UpdatedAt :: gotime
  mr_QueuedAt :: "gotime option"
  mr_DeliveredAt :: "gotime option"
  mr_Member :: "string option"

record recipient_row =
  rr_Message :: string
  rr_Address :: string
  rr_HeaderKind :: "string option"
  rr_Status :: recipient_status
  rr_SMTPCode :: "nat option"
  rr_Enhanced :: "string option"
  rr_Diagnostic :: "string option"

record attempt_row =
  ar_Message :: string
  ar_Number :: int
  ar_Decision :: db_decision
  ar_Kind :: dkind
  ar_Accepted :: bool
  ar_FinalCode :: "nat option"
  ar_Enhanced :: "string option"
  ar_RemoteMessage :: "string option"
  ar_FailureStage :: "stage option"
  ar_Recipient :: "string option"
  ar_QuitError :: "deliveryError option"
  ar_StartedAt :: gotime
  ar_FinishedAt :: gotime

record event_row =
  er_Tenant :: string
  er_Message :: string
  er_Type :: event_type
  er_At :: gotime
  er_Attempt :: "int option"
  er_NextRetryAt :: "gotime option"

record outbox_row =
  ob_Message :: string
  ob_Tenant :: string
  ob_AvailableAt :: gotime
  ob_DispatchedAt :: "gotime option"

record suppression_row =
  su_Tenant :: string
  su_Email :: string
  su_Reason :: reason
  su_Source :: source
  su_Message :: "string option"

datatype idem_status = IdempotencyInProgress | IdempotencyCompleted

record idem_row =
  im_Fingerprint :: string
  im_Status :: idem_status
  im_Resource :: "string option"
  im_CreatedAt :: gotime
  im_CompletedAt :: "gotime option"
  im_ExpiresAt :: gotime

record broadcast_recipient =
  br_Broadcast :: string
  br_Status :: string
  br_Message :: "string option"

record db =
  db_tenants :: "string set"
  db_messages :: "string \<rightharpoonup> message_row"
  db_recipients :: "recipient_row list"
  db_attempts :: "attempt_row list"
  db_events :: "event_row list"
  db_outbox :: "outbox_row list"
  db_suppressions :: "suppression_row list"
  db_idem :: "string \<times> string \<times> string \<rightharpoonup> idem_row"
  db_domains :: "string \<times> string \<rightharpoonup> string option" \<comment> \<open>verified and not deleted, with the sending pool\<close>
  db_pools :: "string \<rightharpoonup> bool"
  db_members :: "(string \<times> string \<times> bool) list" \<comment> \<open>identifier, pool, enabled\<close>
  db_broadcasts :: "string \<times> string \<rightharpoonup> string \<times> gotime option" \<comment> \<open>status and scheduled time\<close>
  db_brecipients :: "string \<times> string \<rightharpoonup> broadcast_recipient"

text \<open>\<^verbatim>\<open>NULLIF\<close> of an empty value.\<close>

definition nullif :: "'a \<Rightarrow> 'a \<Rightarrow> 'a option" where
  "nullif x e = (if x = e then None else Some x)"

text \<open>
  A \<^verbatim>\<open>timestamptz\<close> has microseconds: the driver truncates a bound instant, a cast of text rounds
  to the nearest, half to even.
\<close>

definition pg_trunc :: "gotime \<Rightarrow> gotime" where
  "pg_trunc t = t div 1000 * 1000"

definition pg_round :: "gotime \<Rightarrow> gotime" where
  "pg_round t = (let q = t div 1000; r = t mod 1000
     in (if r < 500 \<or> (r = 500 \<and> even q) then q else q + 1) * 1000)"

section \<open>Accepting a message\<close>

text \<open>\<open>hash\<close> is the first eight bytes of SHA-256 as a number.\<close>

definition SelectMember :: "(string \<Rightarrow> nat) \<Rightarrow> string \<Rightarrow> string list \<Rightarrow> string" where
  "SelectMember hash messageID candidates =
     (if candidates = [] then []
      else if length candidates = 1 then candidates ! 0
      else sort candidates ! (hash messageID mod length candidates))"

definition selectRoutingMember :: "(string \<Rightarrow> nat) \<Rightarrow> db \<Rightarrow> string \<Rightarrow> string option \<Rightarrow> string" where
  "selectRoutingMember hash d messageID pool =
     (case pool of
        None \<Rightarrow> []
      | Some p \<Rightarrow>
          if p = [] then []
          else case db_pools d p of
              None \<Rightarrow> []
            | Some enabled \<Rightarrow>
                if \<not> enabled then []
                else SelectMember hash messageID (map fst (filter (\<lambda>(i, q, en). q = p \<and> en) (db_members d))))"

record recipientInput =
  ri_Address :: string
  ri_HeaderKind :: "string option"

record idempotencyCompletion =
  ic_Operation :: string
  ic_Key :: string
  ic_Fingerprint :: string

record newMessage =
  nm_ID :: string
  nm_TenantID :: string
  nm_MailFrom :: string
  nm_FromHeader :: string
  nm_Subject :: string
  nm_MessageIDHeader :: string
  nm_Recipients :: "recipientInput list"
  nm_AvailableAt :: gotime
  nm_Idempotency :: "idempotencyCompletion option"
  nm_SenderDomain :: string
  nm_BroadcastRecipient :: string

definition nm_validate :: "newMessage \<Rightarrow> bool" where
  "nm_validate n \<longleftrightarrow>
     nm_ID n \<noteq> [] \<and> nm_TenantID n \<noteq> [] \<and> nm_MailFrom n \<noteq> [] \<and> nm_Recipients n \<noteq> [] \<and>
     list_all (\<lambda>r. ri_Address r \<noteq> [] \<and>
       (case ri_HeaderKind r of None \<Rightarrow> True | Some k \<Rightarrow> k = ''to'' \<or> k = ''cc'' \<or> k = ''bcc'')) (nm_Recipients n)"

definition lockBroadcastRecipient :: "gotime \<Rightarrow> newMessage \<Rightarrow> db \<Rightarrow> db_error option" where
  "lockBroadcastRecipient now n d =
     (case db_brecipients d (nm_TenantID n, nm_BroadcastRecipient n) of
        None \<Rightarrow> Some ErrRecipientErased
      | Some br \<Rightarrow>
          (case db_broadcasts d (nm_TenantID n, br_Broadcast br) of
             None \<Rightarrow> Some DbErrNotFound
           | Some (status, send_at) \<Rightarrow>
               if (case db_messages d (nm_ID n) of Some m \<Rightarrow> mr_Tenant m = nm_TenantID n | None \<Rightarrow> False) then Some DbErrConflict
               else if (status \<noteq> ''accepted'' \<and> status \<noteq> ''expanding'') \<or>
                       \<not> (case send_at of None \<Rightarrow> True | Some t \<Rightarrow> t \<le> now) \<or> br_Status br \<noteq> ''pending''
                 then Some ErrBroadcastStateConflict
               else None))"

text \<open>Rows of one message may repeat an address only under different header kinds, or with none.\<close>

definition recipients_unique :: "recipientInput list \<Rightarrow> bool" where
  "recipients_unique rs = distinct (map (\<lambda>r. (ri_Address r, ri_HeaderKind r)) (filter (\<lambda>r. ri_HeaderKind r \<noteq> None) rs))"

definition idem_complete :: "gotime \<Rightarrow> newMessage \<Rightarrow> db \<Rightarrow> db option" where
  "idem_complete now n d =
     (case nm_Idempotency n of
        None \<Rightarrow> Some d
      | Some ic \<Rightarrow>
          let k = (nm_TenantID n, ic_Operation ic, ic_Key ic)
          in case db_idem d k of
               None \<Rightarrow> None
             | Some r \<Rightarrow>
                 if im_Status r = IdempotencyInProgress \<and> im_Fingerprint r = ic_Fingerprint ic
                 then Some (d\<lparr>db_idem := (db_idem d)(k \<mapsto> r\<lparr>im_Status := IdempotencyCompleted, im_Resource := Some (nm_ID n),
                                im_CompletedAt := Some now\<rparr>)\<rparr>)
                 else None)"

text \<open>The row of the message, and the tables with everything that is inserted beside it.\<close>

definition new_message_row :: "string \<Rightarrow> gotime \<Rightarrow> newMessage \<Rightarrow> message_row" where
  "new_message_row member now n =
     \<lparr>mr_Tenant = nm_TenantID n, mr_MailFrom = nm_MailFrom n, mr_FromHeader = nm_FromHeader n, mr_Subject = nm_Subject n,
      mr_MessageIDHeader = nm_MessageIDHeader n, mr_Status = MsgQueued, mr_CreatedAt = now, mr_UpdatedAt = now,
      mr_QueuedAt = Some now, mr_DeliveredAt = None, mr_Member = nullif member []\<rparr>"

definition insert_rows :: "message_row \<Rightarrow> gotime \<Rightarrow> newMessage \<Rightarrow> db \<Rightarrow> db" where
  "insert_rows row now n d =
     d\<lparr>db_messages := (db_messages d)(nm_ID n \<mapsto> row),
       db_recipients := db_recipients d @ map (\<lambda>r. \<lparr>rr_Message = nm_ID n, rr_Address = ri_Address r,
         rr_HeaderKind = ri_HeaderKind r, rr_Status = RecipientPending, rr_SMTPCode = None, rr_Enhanced = None,
         rr_Diagnostic = None\<rparr>) (nm_Recipients n),
       db_events := db_events d @ [\<lparr>er_Tenant = nm_TenantID n, er_Message = nm_ID n, er_Type = EventQueued, er_At = now,
         er_Attempt = None, er_NextRetryAt = None\<rparr>],
       db_outbox := db_outbox d @ [\<lparr>ob_Message = nm_ID n, ob_Tenant = nm_TenantID n,
         ob_AvailableAt = (if nm_AvailableAt n = zero_time then now else pg_trunc (nm_AvailableAt n)), ob_DispatchedAt = None\<rparr>],
       db_brecipients := (if nm_BroadcastRecipient n = [] then db_brecipients d
         else (db_brecipients d)((nm_TenantID n, nm_BroadcastRecipient n) := map_option (\<lambda>b.
           b\<lparr>br_Status := ''materialized'', br_Message := Some (nm_ID n)\<rparr>) (db_brecipients d (nm_TenantID n, nm_BroadcastRecipient n))))\<rparr>"

definition InsertMessage :: "(string \<Rightarrow> nat) \<Rightarrow> gotime \<Rightarrow> newMessage \<Rightarrow> db \<Rightarrow> (db_error + message_row) \<times> db" where
  "InsertMessage hash now n d =
     (if \<not> nm_validate n then (Inl DbInvalid, d)
      else case (if nm_BroadcastRecipient n \<noteq> [] then lockBroadcastRecipient now n d else None) of
          Some e \<Rightarrow> (Inl e, d)
        | None \<Rightarrow>
            (case (if nm_SenderDomain n \<noteq> [] then db_domains d (nm_TenantID n, nm_SenderDomain n) else Some None) of
               None \<Rightarrow> (Inl ErrSenderNotAuthorized, d)
             | Some pool \<Rightarrow>
                 let row = new_message_row (selectRoutingMember hash d (nm_ID n) pool) now n
                 in if nm_ID n \<in> dom (db_messages d) \<or> nm_TenantID n \<notin> db_tenants d \<or> \<not> recipients_unique (nm_Recipients n)
                    then (Inl DbErrConflict, d)
                    else case idem_complete now n (insert_rows row now n d) of
                        None \<Rightarrow> (Inl DbErrConflict, d)
                      | Some d2 \<Rightarrow> (Inr row, d2)))"

section \<open>Outcomes of delivery operations\<close>

definition Terminal :: "message_status \<Rightarrow> bool" where
  "Terminal s = (case s of MsgDelivered \<Rightarrow> True | MsgFailed \<Rightarrow> True | MsgBounced \<Rightarrow> True | MsgSuppressed \<Rightarrow> True | _ \<Rightarrow> False)"

record newDeliveryAttempt =
  na_MessageID :: string
  na_AttemptNumber :: int
  na_Decision :: db_decision
  na_Kind :: "dkind option" \<comment> \<open>\<open>None\<close>: the empty string\<close>
  na_Accepted :: bool
  na_FinalCode :: nat
  na_EnhancedStatus :: string
  na_RemoteMessage :: string
  na_FailureStage :: "stage option"
  na_Recipient :: string
  na_QuitError :: "deliveryError option"
  na_StartedAt :: gotime
  na_FinishedAt :: gotime
  na_SuppressRecipient :: bool

definition na_validate :: "newDeliveryAttempt \<Rightarrow> bool" where
  "na_validate a \<longleftrightarrow>
     na_MessageID a \<noteq> [] \<and> na_AttemptNumber a > 0 \<and> na_Kind a \<noteq> None \<and> \<not> na_FinishedAt a < na_StartedAt a"

definition classifyDeliveryOutcome ::
  "newDeliveryAttempt \<Rightarrow> bool \<Rightarrow> (message_status \<times> event_type \<times> gotime option) option" where
  "classifyDeliveryOutcome a retryExhausted =
     (case na_Decision a of
        DecisionRetry \<Rightarrow>
          if na_Accepted a then None
          else if retryExhausted then Some (MsgFailed, EventFailed, None)
          else Some (MsgRetrying, EventDeferred, None)
      | DecisionTerminalSuccess \<Rightarrow>
          if retryExhausted then None
          else if \<not> na_Accepted a then None
          else Some (MsgDelivered, EventDelivered, Some (na_FinishedAt a))
      | DecisionTerminalFailure \<Rightarrow>
          if retryExhausted then None
          else if na_Accepted a then None
          else Some (MsgFailed, EventFailed, None))"

text \<open>\<open>None\<close>: an attempt of this number is stored with another outcome.\<close>

definition matchingAttemptExists :: "newDeliveryAttempt \<Rightarrow> db \<Rightarrow> bool option" where
  "matchingAttemptExists a d =
     (case find (\<lambda>r. ar_Message r = na_MessageID a \<and> ar_Number r = na_AttemptNumber a) (db_attempts d) of
        None \<Rightarrow> Some False
      | Some r \<Rightarrow>
          if ar_Decision r \<noteq> na_Decision a \<or> Some (ar_Kind r) \<noteq> na_Kind a \<or> ar_Accepted r \<noteq> na_Accepted a \<or>
             (case ar_FinalCode r of None \<Rightarrow> 0 | Some c \<Rightarrow> c) \<noteq> na_FinalCode a
          then None else Some True)"

definition attempt_row_of :: "newDeliveryAttempt \<Rightarrow> attempt_row" where
  "attempt_row_of a =
     \<lparr>ar_Message = na_MessageID a, ar_Number = na_AttemptNumber a, ar_Decision = na_Decision a, ar_Kind = the (na_Kind a),
      ar_Accepted = na_Accepted a, ar_FinalCode = nullif (na_FinalCode a) 0, ar_Enhanced = nullif (na_EnhancedStatus a) [],
      ar_RemoteMessage = nullif (na_RemoteMessage a) [], ar_FailureStage = na_FailureStage a, ar_Recipient = nullif (na_Recipient a) [],
      ar_QuitError = na_QuitError a, ar_StartedAt = pg_trunc (na_StartedAt a), ar_FinishedAt = pg_trunc (na_FinishedAt a)\<rparr>"

text \<open>\<^verbatim>\<open>ON CONFLICT DO NOTHING\<close> on the attempt's number, and on tenant and address.\<close>

definition add_event :: "event_row \<Rightarrow> event_row list \<Rightarrow> event_row list" where
  "add_event e es =
     (if er_Attempt e \<noteq> None \<and> list_ex (\<lambda>x. er_Message x = er_Message e \<and> er_Attempt x = er_Attempt e) es then es else es @ [e])"

definition add_suppression :: "suppression_row \<Rightarrow> suppression_row list \<Rightarrow> suppression_row list" where
  "add_suppression s ss =
     (if list_ex (\<lambda>x. su_Tenant x = su_Tenant s \<and> su_Email x = su_Email s) ss then ss else ss @ [s])"

definition suppress_bounced :: "unicode \<Rightarrow> string \<Rightarrow> newDeliveryAttempt \<Rightarrow> suppression_row list \<Rightarrow> suppression_row list" where
  "suppress_bounced U tenant a ss =
     (if na_SuppressRecipient a \<and> na_Decision a = DecisionTerminalFailure \<and> na_Recipient a \<noteq> [] then
        (case Normalize U (na_Recipient a) of
           None \<Rightarrow> ss
         | Some key \<Rightarrow> add_suppression \<lparr>su_Tenant = tenant, su_Email = key, su_Reason = ReasonHardBounce, su_Source = SourceDelivery,
             su_Message = Some (na_MessageID a)\<rparr> ss)
      else ss)"

definition PersistDeliveryOutcome ::
  "unicode \<Rightarrow> gotime \<Rightarrow> newDeliveryAttempt \<Rightarrow> bool \<Rightarrow> gotime option \<Rightarrow> db \<Rightarrow> db_error option \<times> db" where
  "PersistDeliveryOutcome U now a retryExhausted nextRetryAt d =
     (if \<not> na_validate a then (Some DbInvalid, d)
      else case classifyDeliveryOutcome a retryExhausted of
          None \<Rightarrow> (Some DbInvalid, d)
        | Some (status, etype, deliveredAt) \<Rightarrow>
            (case db_messages d (na_MessageID a) of
               None \<Rightarrow> (Some DbErrNotFound, d)
             | Some m \<Rightarrow>
                 (case matchingAttemptExists a d of
                    None \<Rightarrow> (Some DbErrConflict, d)
                  | Some duplicate \<Rightarrow>
                      if Terminal (mr_Status m) \<and> \<not> duplicate then (Some ErrMessageTerminal, d)
                      else (None, d\<lparr>
                        db_attempts := (if duplicate then db_attempts d else db_attempts d @ [attempt_row_of a]),
                        db_messages := (db_messages d)(na_MessageID a \<mapsto> m\<lparr>mr_Status := status, mr_UpdatedAt := now,
                          mr_DeliveredAt := (case deliveredAt of None \<Rightarrow> mr_DeliveredAt m | Some t \<Rightarrow> Some (pg_trunc t))\<rparr>),
                        db_events := add_event \<lparr>er_Tenant = mr_Tenant m, er_Message = na_MessageID a, er_Type = etype, er_At = now,
                          er_Attempt = Some (na_AttemptNumber a), er_NextRetryAt = map_option pg_round nextRetryAt\<rparr> (db_events d),
                        db_suppressions := suppress_bounced U (mr_Tenant m) a (db_suppressions d)\<rparr>))))"

record deliveryState =
  dy_Status :: message_status
  dy_Attempts :: "attempt_row list"
  dy_NextRetryAt :: "gotime option"
  dy_SendingMemberID :: "string option"

definition ListDeliveryAttempts :: "string \<Rightarrow> db \<Rightarrow> attempt_row list" where
  "ListDeliveryAttempts messageID d = sort_key ar_Number (filter (\<lambda>r. ar_Message r = messageID) (db_attempts d))"

text \<open>The newest deferral of the message, by attempt number.\<close>

definition latest_deferral :: "string \<Rightarrow> db \<Rightarrow> event_row option" where
  "latest_deferral messageID d =
     (case sort_key (\<lambda>e. - the (er_Attempt e))
        (filter (\<lambda>e. er_Message e = messageID \<and> er_Type e = EventDeferred \<and> er_Attempt e \<noteq> None) (db_events d)) of
        [] \<Rightarrow> None
      | e # _ \<Rightarrow> Some e)"

definition LoadDeliveryState :: "string \<Rightarrow> db \<Rightarrow> db_error + deliveryState" where
  "LoadDeliveryState messageID d =
     (case db_messages d messageID of
        None \<Rightarrow> Inl DbErrNotFound
      | Some m \<Rightarrow>
          let st = \<lparr>dy_Status = mr_Status m, dy_Attempts = ListDeliveryAttempts messageID d, dy_NextRetryAt = None,
                    dy_SendingMemberID = mr_Member m\<rparr>
          in if mr_Status m = MsgRetrying then
               (case latest_deferral messageID d of
                  None \<Rightarrow> Inl DbErrNotFound
                | Some e \<Rightarrow> Inr (st\<lparr>dy_NextRetryAt := er_NextRetryAt e\<rparr>))
             else Inr st)"

section \<open>Suppressed recipients\<close>

definition SuppressedForTenant :: "string \<Rightarrow> string list \<Rightarrow> db \<Rightarrow> string list" where
  "SuppressedForTenant tenant emails d =
     (if emails = [] then [] else map su_Email (filter (\<lambda>s. su_Tenant s = tenant \<and> su_Email s \<in> set emails) (db_suppressions d)))"

definition SuppressedForMessage :: "string \<Rightarrow> string list \<Rightarrow> db \<Rightarrow> string list" where
  "SuppressedForMessage messageID emails d =
     (if emails = [] then []
      else case db_messages d messageID of
          None \<Rightarrow> []
        | Some m \<Rightarrow> map su_Email (filter (\<lambda>s. su_Tenant s = mr_Tenant m \<and> su_Email s \<in> set emails) (db_suppressions d)))"

definition RecordSuppressedRecipients ::
  "unicode \<Rightarrow> gotime \<Rightarrow> string \<Rightarrow> (string \<Rightarrow> bool) \<Rightarrow> bool \<Rightarrow> db \<Rightarrow> db_error option \<times> db" where
  "RecordSuppressedRecipients U now messageID keys allSuppressed d =
     (case db_messages d messageID of
        None \<Rightarrow> (Some DbErrNotFound, d)
      | Some m \<Rightarrow>
          if mr_Status m = MsgSuppressed then (None, d)
          else if Terminal (mr_Status m) then (Some ErrMessageTerminal, d)
          else
            let hit = (\<lambda>r. rr_Message r = messageID \<and> rr_Status r = RecipientPending \<and>
                        (case Normalize U (rr_Address r) of None \<Rightarrow> False | Some k \<Rightarrow> keys k));
                es = db_events d
            in (None, d\<lparr>
                 db_recipients := map (\<lambda>r. if hit r then r\<lparr>rr_Status := RecipientSuppressed\<rparr> else r) (db_recipients d),
                 db_events := (if list_ex (\<lambda>e. er_Message e = messageID \<and> er_Type e = EventSuppressed) es then es
                   else es @ [\<lparr>er_Tenant = mr_Tenant m, er_Message = messageID, er_Type = EventSuppressed, er_At = now,
                               er_Attempt = None, er_NextRetryAt = None\<rparr>]),
                 db_messages := (if allSuppressed then (db_messages d)(messageID \<mapsto> m\<lparr>mr_Status := MsgSuppressed, mr_UpdatedAt := now\<rparr>)
                   else db_messages d)\<rparr>))"

definition CreateSuppression ::
  "unicode \<Rightarrow> string \<Rightarrow> string \<Rightarrow> reason \<Rightarrow> source \<Rightarrow> string \<Rightarrow> db \<Rightarrow> (db_error + suppression_row \<times> bool) \<times> db" where
  "CreateSuppression U tenant email rsn src messageID d =
     (case Normalize U email of
        None \<Rightarrow> (Inl DbInvalid, d)
      | Some key \<Rightarrow>
          if tenant = [] then (Inl DbInvalid, d)
          else if tenant \<notin> db_tenants d then (Inl DbErrConflict, d)
          else case find (\<lambda>x. su_Tenant x = tenant \<and> su_Email x = key) (db_suppressions d) of
              Some old \<Rightarrow> (Inr (old, False), d)
            | None \<Rightarrow>
                let s = \<lparr>su_Tenant = tenant, su_Email = key, su_Reason = rsn, su_Source = src, su_Message = nullif messageID []\<rparr>
                in (Inr (s, True), d\<lparr>db_suppressions := db_suppressions d @ [s]\<rparr>))"

section \<open>Idempotency keys\<close>

datatype key_error = ErrEmptyKey | ErrKeyTooLong | ErrKeyControlChar

definition ValidateKey :: "string \<Rightarrow> key_error option" where
  "ValidateKey raw =
     (if raw = [] then Some ErrEmptyKey
      else if length raw > 255 then Some ErrKeyTooLong
      else if list_ex (\<lambda>c. c = CHR 0x0D \<or> c = CHR 0x0A \<or> c = CHR 0x00) raw then Some ErrKeyControlChar
      else None)"

definition ClaimIdempotencyKey ::
  "gotime \<Rightarrow> string \<Rightarrow> string \<Rightarrow> string \<Rightarrow> string \<Rightarrow> gotime \<Rightarrow> gotime \<Rightarrow> db \<Rightarrow> (idem_row \<times> bool) \<times> db" where
  "ClaimIdempotencyKey now tenant operation key fingerprint expiresAt staleCutoff d =
     (let k = (tenant, operation, key);
          fresh = \<lparr>im_Fingerprint = fingerprint, im_Status = IdempotencyInProgress, im_Resource = None, im_CreatedAt = now,
                   im_CompletedAt = None, im_ExpiresAt = pg_trunc expiresAt\<rparr>
      in case db_idem d k of
           None \<Rightarrow> ((fresh, True), d\<lparr>db_idem := (db_idem d)(k \<mapsto> fresh)\<rparr>)
         | Some r \<Rightarrow>
             if im_Status r = IdempotencyInProgress \<and> im_CreatedAt r < pg_trunc staleCutoff
             then ((fresh, True), d\<lparr>db_idem := (db_idem d)(k \<mapsto> fresh)\<rparr>)
             else ((r, False), d))"

definition ReleaseIdempotencyClaim :: "string \<Rightarrow> string \<Rightarrow> string \<Rightarrow> string \<Rightarrow> gotime \<Rightarrow> db \<Rightarrow> db" where
  "ReleaseIdempotencyClaim tenant operation key fingerprint claimedAt d =
     (let k = (tenant, operation, key)
      in case db_idem d k of
           None \<Rightarrow> d
         | Some r \<Rightarrow>
             if im_Fingerprint r = fingerprint \<and> im_CreatedAt r = pg_trunc claimedAt \<and> im_Status r = IdempotencyInProgress
             then d\<lparr>db_idem := (db_idem d)(k := None)\<rparr> else d)"

text \<open>\<open>chosen\<close>: the up to \<^verbatim>\<open>limit\<close> expired rows the database picks.\<close>

definition DeleteExpiredIdempotencyKeys :: "gotime \<Rightarrow> (string \<times> string \<times> string) list \<Rightarrow> db \<Rightarrow> db" where
  "DeleteExpiredIdempotencyKeys now chosen d =
     d\<lparr>db_idem := (\<lambda>k. case db_idem d k of None \<Rightarrow> None
        | Some r \<Rightarrow> if k \<in> set chosen \<and> im_ExpiresAt r < now then None else Some r)\<rparr>"

section \<open>The outbox\<close>

definition maxFairTenants :: nat where "maxFairTenants = 200"

definition due_outbox :: "gotime \<Rightarrow> db \<Rightarrow> outbox_row list" where
  "due_outbox now d = filter (\<lambda>b. ob_DispatchedAt b = None \<and> ob_AvailableAt b \<le> now) (db_outbox d)"

definition due_tenants :: "gotime \<Rightarrow> db \<Rightarrow> string list" where
  "due_tenants now d = take maxFairTenants (sort (remdups (map ob_Tenant (due_outbox now d))))"

definition tenant_rows :: "nat \<Rightarrow> gotime \<Rightarrow> db \<Rightarrow> string \<Rightarrow> outbox_row list" where
  "tenant_rows lim now d t = take lim (sort_key ob_AvailableAt (filter (\<lambda>b. ob_Tenant b = t) (due_outbox now d)))"

definition ranked :: "nat \<Rightarrow> gotime \<Rightarrow> db \<Rightarrow> (nat \<times> outbox_row) list" where
  "ranked lim now d = concat (map (\<lambda>t. enumerate 1 (tenant_rows lim now d t)) (due_tenants now d))"

definition ListPendingOutbox :: "int \<Rightarrow> gotime \<Rightarrow> db \<Rightarrow> outbox_row list" where
  "ListPendingOutbox limit now d =
     (let lim = (if limit \<le> 0 then 100 else nat limit)
      in map snd (take lim (sort_key (\<lambda>(rn, b). (rn, ob_AvailableAt b)) (ranked lim now d))))"

definition MarkOutboxDispatched :: "gotime \<Rightarrow> string \<Rightarrow> db \<Rightarrow> db_error option \<times> db" where
  "MarkOutboxDispatched now messageID d =
     (if list_ex (\<lambda>b. ob_Message b = messageID \<and> ob_DispatchedAt b = None) (db_outbox d)
      then (None, d\<lparr>db_outbox := map (\<lambda>b. if ob_Message b = messageID \<and> ob_DispatchedAt b = None then b\<lparr>ob_DispatchedAt := Some now\<rparr> else b) (db_outbox d)\<rparr>)
      else (Some DbErrNotFound, d))"

text \<open>
  One round of the dispatcher for the rows it read: \<open>enqueue\<close> is the queue's answer for a job,
  \<open>marks\<close> tells for each message whether the database takes the update. The jobs the queue took are
  returned with the tables.
\<close>

definition outbox_job :: "outbox_row \<Rightarrow> job" where
  "outbox_job b = \<lparr>job_ID = ob_Message b, job_MessageID = ob_Message b, job_EnqueuedAt = zero_time, job_AvailableAt = ob_AvailableAt b\<rparr>"

fun dispatch_items :: "gotime \<Rightarrow> (job \<Rightarrow> bool) \<Rightarrow> (string \<Rightarrow> bool) \<Rightarrow> outbox_row list \<Rightarrow> db \<Rightarrow> job list \<times> db" where
  "dispatch_items now enqueue marks [] d = ([], d)"
| "dispatch_items now enqueue marks (b # bs) d =
     (let j = outbox_job b
      in if \<not> enqueue j then dispatch_items now enqueue marks bs d
         else case dispatch_items now enqueue marks bs (if marks (ob_Message b) then snd (MarkOutboxDispatched now (ob_Message b) d) else d) of
             (js, d1) \<Rightarrow> (j # js, d1))"

definition dispatch_tick ::
  "int \<Rightarrow> gotime \<Rightarrow> bool \<Rightarrow> (job \<Rightarrow> bool) \<Rightarrow> (string \<Rightarrow> bool) \<Rightarrow> db \<Rightarrow> job list \<times> db" where
  "dispatch_tick batchSize now listed enqueue marks d =
     (if \<not> listed then ([], d) else dispatch_items now enqueue marks (ListPendingOutbox batchSize now d) d)"

section \<open>The tables stay consistent\<close>

definition attempt_keys :: "db \<Rightarrow> (string \<times> int) list" where
  "attempt_keys d = map (\<lambda>r. (ar_Message r, ar_Number r)) (db_attempts d)"

definition event_keys :: "db \<Rightarrow> (string \<times> int) list" where
  "event_keys d = map (\<lambda>e. (er_Message e, the (er_Attempt e))) (filter (\<lambda>e. er_Attempt e \<noteq> None) (db_events d))"

definition keys_inv :: "db \<Rightarrow> bool" where
  "keys_inv d \<longleftrightarrow> distinct (attempt_keys d) \<and> distinct (event_keys d) \<and> set (attempt_keys d) = set (event_keys d)"

definition refs_inv :: "db \<Rightarrow> bool" where
  "refs_inv d \<longleftrightarrow>
     ar_Message ` set (db_attempts d) \<union> er_Message ` set (db_events d) \<union> rr_Message ` set (db_recipients d) \<subseteq> dom (db_messages d) \<and>
     distinct (map ob_Message (db_outbox d)) \<and> set (map ob_Message (db_outbox d)) = dom (db_messages d)"

definition has_event :: "db \<Rightarrow> string \<Rightarrow> event_type \<Rightarrow> bool" where
  "has_event d i t \<longleftrightarrow> list_ex (\<lambda>e. er_Message e = i \<and> er_Type e = t) (db_events d)"

definition status_ok :: "db \<Rightarrow> string \<Rightarrow> message_status \<Rightarrow> bool" where
  "status_ok d i s = (case s of
      MsgRetrying \<Rightarrow> list_ex (\<lambda>e. er_Message e = i \<and> er_Type e = EventDeferred \<and> er_Attempt e \<noteq> None) (db_events d)
    | MsgDelivered \<Rightarrow> list_ex (\<lambda>r. ar_Message r = i \<and> ar_Accepted r) (db_attempts d) \<and> has_event d i EventDelivered
    | MsgFailed \<Rightarrow> has_event d i EventFailed
    | MsgSuppressed \<Rightarrow> has_event d i EventSuppressed
    | _ \<Rightarrow> True)"

definition status_inv :: "db \<Rightarrow> bool" where
  "status_inv d \<longleftrightarrow> (\<forall>i m. db_messages d i = Some m \<longrightarrow> status_ok d i (mr_Status m))"

definition supp_inv :: "db \<Rightarrow> bool" where
  "supp_inv d \<longleftrightarrow> distinct (map (\<lambda>s. (su_Tenant s, su_Email s)) (db_suppressions d))"

definition store_inv :: "db \<Rightarrow> bool" where
  "store_inv d \<longleftrightarrow> keys_inv d \<and> refs_inv d \<and> status_inv d \<and> supp_inv d \<and>
     list_all (\<lambda>r. ar_Accepted r = (ar_Decision r = DecisionTerminalSuccess)) (db_attempts d)"

text \<open>The event row that an earlier call wrote for the same attempt, if any, tells the same outcome.\<close>

definition repeats :: "newDeliveryAttempt \<Rightarrow> bool \<Rightarrow> db \<Rightarrow> bool" where
  "repeats a exhausted d \<longleftrightarrow>
     (case classifyDeliveryOutcome a exhausted of None \<Rightarrow> True
      | Some (_, t, _) \<Rightarrow> list_all (\<lambda>e. er_Message e = na_MessageID a \<longrightarrow> er_Attempt e = Some (na_AttemptNumber a) \<longrightarrow> er_Type e = t) (db_events d))"

inductive store_step :: "unicode \<Rightarrow> (string \<Rightarrow> nat) \<Rightarrow> gotime \<Rightarrow> db \<Rightarrow> db \<Rightarrow> bool" for U hash T where
  insert: "store_step U hash T d (snd (InsertMessage hash now n d))"
| persist: "repeats a exhausted d \<Longrightarrow> store_step U hash T d (snd (PersistDeliveryOutcome U now a exhausted next d))"
| suppressed: "store_step U hash T d (snd (RecordSuppressedRecipients U now i keys all d))"
| create: "store_step U hash T d (snd (CreateSuppression U tenant email rsn src i d))"
| mark: "store_step U hash T d (snd (MarkOutboxDispatched now i d))"
| claim: "store_step U hash T d (snd (ClaimIdempotencyKey now t op k fp ex stale d))"
| unclaim: "store_step U hash T d (ReleaseIdempotencyClaim t op k fp at d)"
| expire: "now \<le> T \<Longrightarrow> store_step U hash T d (DeleteExpiredIdempotencyKeys now chosen d)"

definition store_init :: "db \<Rightarrow> bool" where
  "store_init d \<longleftrightarrow> db_messages d = Map.empty \<and> db_recipients d = [] \<and> db_attempts d = [] \<and> db_events d = [] \<and>
     db_outbox d = [] \<and> db_suppressions d = [] \<and> db_idem d = Map.empty"

lemma store_inv_cong:
  "db_messages d' = db_messages d \<Longrightarrow> db_recipients d' = db_recipients d \<Longrightarrow> db_attempts d' = db_attempts d \<Longrightarrow>
   db_events d' = db_events d \<Longrightarrow> map ob_Message (db_outbox d') = map ob_Message (db_outbox d) \<Longrightarrow>
   distinct (map (\<lambda>s. (su_Tenant s, su_Email s)) (db_suppressions d')) \<Longrightarrow> store_inv d \<Longrightarrow> store_inv d'"
  by (simp add: store_inv_def keys_inv_def refs_inv_def status_inv_def supp_inv_def attempt_keys_def event_keys_def status_ok_def has_event_def
      cong: message_status.case_cong)

lemma status_ok_grow:
  assumes "status_ok d i s" and "set (db_events d) \<subseteq> set (db_events d')" and "set (db_attempts d) \<subseteq> set (db_attempts d')"
  shows "status_ok d' i s"
  using assms by (cases s) (auto simp: status_ok_def has_event_def list_ex_iff)

lemma idem_complete_tables:
  "idem_complete now n d = Some d' \<Longrightarrow> \<exists>im. d' = d\<lparr>db_idem := im\<rparr>"
proof -
  assume "idem_complete now n d = Some d'"
  then have "d' = d \<or> (\<exists>im. d' = d\<lparr>db_idem := im\<rparr>)"
    by (auto simp: idem_complete_def Let_def split: option.splits if_splits)
  moreover have "d = d\<lparr>db_idem := db_idem d\<rparr>" by simp
  ultimately show ?thesis by blast
qed

lemma InsertMessage_effect:
  assumes "InsertMessage hash now n d = (r, d')"
  shows "(d' = d \<and> (\<exists>e. r = Inl e)) \<or>
    (\<exists>member im. nm_ID n \<notin> dom (db_messages d) \<and> r = Inr (new_message_row member now n) \<and>
       d' = (insert_rows (new_message_row member now n) now n d)\<lparr>db_idem := im\<rparr>)"
  using assms unfolding InsertMessage_def Let_def
  by (auto dest!: idem_complete_tables split: if_splits option.splits)

lemma new_row_status: "mr_Status (new_message_row member now n) = MsgQueued"
  by (simp add: new_message_row_def)

lemma store_inv_insert:
  assumes inv: "store_inv d"
  shows "store_inv (snd (InsertMessage hash now n d))"
proof -
  obtain r d' where run: "InsertMessage hash now n d = (r, d')" by fastforce
  show ?thesis
  proof (cases "d' = d")
    case False
    then obtain row im where f: "nm_ID n \<notin> dom (db_messages d)" "mr_Status row = MsgQueued"
        "d' = (insert_rows row now n d)\<lparr>db_idem := im\<rparr>"
      using InsertMessage_effect [OF run] new_row_status by blast
    have "status_ok d' i (mr_Status m)" if "db_messages d' i = Some m" for i m
    proof (cases "i = nm_ID n")
      case True
      then show ?thesis using that f by (simp add: status_ok_def insert_rows_def)
    next
      case False
      then have "status_ok d i (mr_Status m)" using that f inv by (simp add: store_inv_def status_inv_def insert_rows_def)
      then show ?thesis by (rule status_ok_grow) (auto simp: f insert_rows_def)
    qed
    then have "status_inv d'" by (simp add: status_inv_def)
    moreover have "keys_inv d'" using inv by (simp add: f store_inv_def keys_inv_def attempt_keys_def event_keys_def insert_rows_def)
    moreover have "refs_inv d'" using inv f(1) by (auto simp: f(3) store_inv_def refs_inv_def insert_rows_def)
    ultimately show ?thesis using inv by (simp add: run f store_inv_def supp_inv_def insert_rows_def)
  qed (use inv run in simp)
qed

lemma matching_new:
  "matchingAttemptExists a d = Some False \<longleftrightarrow> (na_MessageID a, na_AttemptNumber a) \<notin> set (attempt_keys d)"
proof (cases "find (\<lambda>r. ar_Message r = na_MessageID a \<and> ar_Number r = na_AttemptNumber a) (db_attempts d)")
  case None
  then have "matchingAttemptExists a d = Some False" by (simp add: matchingAttemptExists_def)
  moreover have "(na_MessageID a, na_AttemptNumber a) \<notin> set (attempt_keys d)"
    using None by (auto simp: attempt_keys_def find_None_iff)
  ultimately show ?thesis by simp
next
  case (Some r)
  then have "r \<in> set (db_attempts d)" "ar_Message r = na_MessageID a" "ar_Number r = na_AttemptNumber a"
    by (auto simp: find_Some_iff)
  then have "(na_MessageID a, na_AttemptNumber a) \<in> set (attempt_keys d)" by (force simp: attempt_keys_def)
  then show ?thesis using Some by (auto simp: matchingAttemptExists_def)
qed

lemma matching_old:
  "matchingAttemptExists a d = Some True \<Longrightarrow>
   \<exists>r \<in> set (db_attempts d). ar_Message r = na_MessageID a \<and> ar_Number r = na_AttemptNumber a \<and> ar_Accepted r = na_Accepted a \<and>
     ar_Decision r = na_Decision a"
  by (auto simp: matchingAttemptExists_def find_Some_iff split: option.splits if_splits dest: nth_mem)

lemma Persist_effect:
  assumes "PersistDeliveryOutcome U now a ex nx d = (err, d')"
  shows "(err \<noteq> None \<and> d' = d) \<or>
    (\<exists>status t deliveredAt m dup. err = None \<and> na_validate a \<and> classifyDeliveryOutcome a ex = Some (status, t, deliveredAt) \<and>
       db_messages d (na_MessageID a) = Some m \<and> matchingAttemptExists a d = Some dup \<and> (Terminal (mr_Status m) \<longrightarrow> dup) \<and>
       d' = d\<lparr>
         db_attempts := (if dup then db_attempts d else db_attempts d @ [attempt_row_of a]),
         db_messages := (db_messages d)(na_MessageID a \<mapsto> m\<lparr>mr_Status := status, mr_UpdatedAt := now,
           mr_DeliveredAt := (case deliveredAt of None \<Rightarrow> mr_DeliveredAt m | Some t \<Rightarrow> Some (pg_trunc t))\<rparr>),
         db_events := add_event \<lparr>er_Tenant = mr_Tenant m, er_Message = na_MessageID a, er_Type = t, er_At = now,
           er_Attempt = Some (na_AttemptNumber a), er_NextRetryAt = map_option pg_round nx\<rparr> (db_events d),
         db_suppressions := suppress_bounced U (mr_Tenant m) a (db_suppressions d)\<rparr>)"
proof (cases "na_validate a")
  case valid: True
  show ?thesis
  proof (cases "classifyDeliveryOutcome a ex")
    case (Some c)
    obtain status t deliveredAt where c: "c = (status, t, deliveredAt)" by (cases c)
    show ?thesis
    proof (cases "db_messages d (na_MessageID a)")
      case m: (Some m)
      show ?thesis
      proof (cases "matchingAttemptExists a d")
        case dup: (Some dup)
        show ?thesis using assms valid Some c m dup unfolding PersistDeliveryOutcome_def by (cases "Terminal (mr_Status m) \<and> \<not> dup") auto
      qed (use assms valid Some c m in \<open>auto simp: PersistDeliveryOutcome_def\<close>)
    qed (use assms valid Some c in \<open>auto simp: PersistDeliveryOutcome_def\<close>)
  qed (use assms valid in \<open>auto simp: PersistDeliveryOutcome_def\<close>)
qed (use assms in \<open>auto simp: PersistDeliveryOutcome_def\<close>)

lemma add_event_set: "set (add_event e es) \<subseteq> insert e (set es)" "set es \<subseteq> set (add_event e es)"
  "er_Message ` set (add_event e es) \<subseteq> insert (er_Message e) (er_Message ` set es)"
  by (auto simp: add_event_def)

lemma event_key_in:
  "(i, k) \<in> set (map (\<lambda>e. (er_Message e, the (er_Attempt e))) (filter (\<lambda>e. er_Attempt e \<noteq> None) es)) \<longleftrightarrow>
   list_ex (\<lambda>x. er_Message x = i \<and> er_Attempt x = Some k) es"
  by (force simp: list_ex_iff image_iff)

lemma event_keys_simps:
  "er_Attempt e = Some k \<Longrightarrow>
   map (\<lambda>e. (er_Message e, the (er_Attempt e))) (filter (\<lambda>e. er_Attempt e \<noteq> None) (add_event e es)) =
   (let ks = map (\<lambda>e. (er_Message e, the (er_Attempt e))) (filter (\<lambda>e. er_Attempt e \<noteq> None) es)
    in if (er_Message e, k) \<in> set ks then ks else ks @ [(er_Message e, k)])"
  unfolding Let_def event_key_in by (simp add: add_event_def)

lemma supp_inv_add:
  "distinct (map (\<lambda>s. (su_Tenant s, su_Email s)) ss) \<Longrightarrow> distinct (map (\<lambda>s. (su_Tenant s, su_Email s)) (suppress_bounced U t a ss))"
  by (auto simp: suppress_bounced_def add_suppression_def list_ex_iff split: option.splits)

lemma classify_accepted: "classifyDeliveryOutcome a ex = Some (status, t, del) \<Longrightarrow> na_Accepted a = (na_Decision a = DecisionTerminalSuccess)"
  by (auto simp: classifyDeliveryOutcome_def split: db_decision.splits if_splits)

lemma store_inv_persist:
  assumes inv: "store_inv d" and rep: "repeats a ex d"
  shows "store_inv (snd (PersistDeliveryOutcome U now a ex nx d))"
proof -
  obtain err d' where run: "PersistDeliveryOutcome U now a ex nx d = (err, d')" by fastforce
  let ?i = "na_MessageID a" and ?n = "na_AttemptNumber a"
  show ?thesis
  proof (cases "d' = d")
    case False
    then obtain status t del m dup where f: "classifyDeliveryOutcome a ex = Some (status, t, del)" "db_messages d ?i = Some m"
        "matchingAttemptExists a d = Some dup" and
      d': "d' = d\<lparr>
         db_attempts := (if dup then db_attempts d else db_attempts d @ [attempt_row_of a]),
         db_messages := (db_messages d)(?i \<mapsto> m\<lparr>mr_Status := status, mr_UpdatedAt := now,
           mr_DeliveredAt := (case del of None \<Rightarrow> mr_DeliveredAt m | Some t \<Rightarrow> Some (pg_trunc t))\<rparr>),
         db_events := add_event \<lparr>er_Tenant = mr_Tenant m, er_Message = ?i, er_Type = t, er_At = now,
           er_Attempt = Some ?n, er_NextRetryAt = map_option pg_round nx\<rparr> (db_events d),
         db_suppressions := suppress_bounced U (mr_Tenant m) a (db_suppressions d)\<rparr>"
      using Persist_effect [OF run] by blast
    let ?e = "\<lparr>er_Tenant = mr_Tenant m, er_Message = ?i, er_Type = t, er_At = now, er_Attempt = Some ?n, er_NextRetryAt = map_option pg_round nx\<rparr>"
    have ak: "attempt_keys d' = (if dup then attempt_keys d else attempt_keys d @ [(?i, ?n)])"
      by (simp add: attempt_keys_def d' attempt_row_of_def)
    have dup: "dup \<longleftrightarrow> (?i, ?n) \<in> set (attempt_keys d)" using f(3) matching_new [of a d] by (cases dup) auto
    have ek: "event_keys d' = (if (?i, ?n) \<in> set (event_keys d) then event_keys d else event_keys d @ [(?i, ?n)])"
      using event_keys_simps [of ?e ?n "db_events d"] by (simp add: event_keys_def d' Let_def)
    have keys: "keys_inv d'" using inv dup by (auto simp: store_inv_def keys_inv_def ak ek)
    have has: "\<exists>e \<in> set (db_events d'). er_Message e = ?i \<and> er_Attempt e = Some ?n \<and> er_Type e = t"
    proof (cases "(?i, ?n) \<in> set (event_keys d)")
      case True
      then obtain e where "e \<in> set (db_events d)" "er_Message e = ?i" "er_Attempt e = Some ?n" by (auto simp: event_keys_def)
      then show ?thesis using rep f(1) add_event_set(2) [of "db_events d" ?e] by (auto simp: repeats_def d' list_all_iff)
    next
      case False
      then have "add_event ?e (db_events d) = db_events d @ [?e]" unfolding event_keys_def event_key_in by (simp add: add_event_def)
      then show ?thesis by (simp add: d')
    qed
    have acc: "\<exists>r \<in> set (db_attempts d'). ar_Message r = ?i \<and> ar_Accepted r = na_Accepted a"
      using f(3) matching_old [of a d] by (cases dup) (auto simp: d' attempt_row_of_def)
    have "status_ok d' ?i status"
      using f(1) has acc by (auto simp: classifyDeliveryOutcome_def status_ok_def has_event_def list_ex_iff split: db_decision.splits if_splits)
    moreover have "status_ok d' i (mr_Status x)" if "db_messages d i = Some x" for i x
    proof (rule status_ok_grow)
      show "status_ok d i (mr_Status x)" using inv that by (simp add: store_inv_def status_inv_def)
      show "set (db_events d) \<subseteq> set (db_events d')" using add_event_set(2) by (simp add: d')
      show "set (db_attempts d) \<subseteq> set (db_attempts d')" by (auto simp: d')
    qed
    ultimately have "status_inv d'" by (auto simp: status_inv_def d')
    moreover have "refs_inv d'"
    proof -
      have r: "ar_Message ` set (db_attempts d) \<union> er_Message ` set (db_events d) \<union> rr_Message ` set (db_recipients d) \<subseteq> dom (db_messages d)"
        "distinct (map ob_Message (db_outbox d))" "set (map ob_Message (db_outbox d)) = dom (db_messages d)"
        using inv by (simp_all add: store_inv_def refs_inv_def)
      have dm: "dom (db_messages d') = dom (db_messages d)" using f(2) by (auto simp: d')
      have "er_Message ` set (db_events d') \<subseteq> dom (db_messages d)"
      proof -
        have "er_Message ` set (db_events d') \<subseteq> insert ?i (er_Message ` set (db_events d))"
          using add_event_set(3) [of ?e "db_events d"] by (simp add: d')
        also have "\<dots> \<subseteq> dom (db_messages d)" using r(1) f(2) by auto
        finally show ?thesis .
      qed
      moreover have "ar_Message ` set (db_attempts d') \<subseteq> dom (db_messages d)" using r(1) f(2) by (auto simp: d' attempt_row_of_def)
      moreover have "db_outbox d' = db_outbox d" "db_recipients d' = db_recipients d" by (simp_all add: d')
      ultimately show ?thesis using r unfolding refs_inv_def dm by simp
    qed
    moreover have "supp_inv d'" using inv supp_inv_add by (simp add: store_inv_def supp_inv_def d')
    moreover have "list_all (\<lambda>r. ar_Accepted r = (ar_Decision r = DecisionTerminalSuccess)) (db_attempts d')"
      using inv classify_accepted [OF f(1)] by (simp add: store_inv_def d' attempt_row_of_def)
    ultimately show ?thesis using keys by (simp add: run store_inv_def)
  qed (use inv run in simp)
qed

lemma store_inv_suppressed:
  assumes inv: "store_inv d"
  shows "store_inv (snd (RecordSuppressedRecipients U now i keys all d))"
proof (cases "db_messages d i")
  case (Some m)
  show ?thesis
  proof (cases "mr_Status m = MsgSuppressed \<or> Terminal (mr_Status m)")
    case True
    then show ?thesis using inv Some by (auto simp: RecordSuppressedRecipients_def)
  next
    case False
    let ?d = "snd (RecordSuppressedRecipients U now i keys all d)"
    let ?e = "\<lparr>er_Tenant = mr_Tenant m, er_Message = i, er_Type = EventSuppressed, er_At = now, er_Attempt = None, er_NextRetryAt = None\<rparr>"
    have ev: "db_events ?d = (if has_event d i EventSuppressed then db_events d else db_events d @ [?e])"
      using Some False by (simp add: RecordSuppressedRecipients_def Let_def has_event_def)
    have ms: "db_messages ?d = (if all then (db_messages d)(i \<mapsto> m\<lparr>mr_Status := MsgSuppressed, mr_UpdatedAt := now\<rparr>) else db_messages d)"
      using Some False by (simp add: RecordSuppressedRecipients_def Let_def)
    have same: "db_attempts ?d = db_attempts d" "db_outbox ?d = db_outbox d" "db_suppressions ?d = db_suppressions d"
      using Some False by (simp_all add: RecordSuppressedRecipients_def Let_def)
    have "map rr_Message (db_recipients ?d) = map rr_Message (db_recipients d)"
      using Some False by (simp add: RecordSuppressedRecipients_def Let_def)
    then have rr: "rr_Message ` set (db_recipients ?d) = rr_Message ` set (db_recipients d)" by (metis set_map)
    have has: "has_event ?d i EventSuppressed" by (simp add: has_event_def ev)
    have grow: "status_ok ?d k (mr_Status x)" if "db_messages d k = Some x" for k x
      by (rule status_ok_grow [where d = d]) (use inv that in \<open>auto simp: store_inv_def status_inv_def ev same\<close>)
    have "status_inv ?d" unfolding status_inv_def ms using grow has by (auto simp: status_ok_def)
    moreover have "event_keys ?d = event_keys d" "attempt_keys ?d = attempt_keys d" by (simp_all add: event_keys_def attempt_keys_def same ev)
    moreover from this have "keys_inv ?d" using inv by (simp add: store_inv_def keys_inv_def)
    moreover have "dom (db_messages ?d) = dom (db_messages d)" using Some by (auto simp: ms)
    moreover from this have "refs_inv ?d" using inv Some by (auto simp: store_inv_def refs_inv_def same rr ev)
    ultimately show ?thesis using inv by (simp add: store_inv_def supp_inv_def same)
  qed
qed (use inv in \<open>simp add: RecordSuppressedRecipients_def\<close>)

lemma store_inv_create: "store_inv d \<Longrightarrow> store_inv (snd (CreateSuppression U tenant email rsn src i d))"
proof -
  assume inv: "store_inv d"
  let ?d = "snd (CreateSuppression U tenant email rsn src i d)"
  have "distinct (map (\<lambda>s. (su_Tenant s, su_Email s)) (db_suppressions ?d))"
    using inv by (auto simp: CreateSuppression_def store_inv_def supp_inv_def Let_def find_None_iff split: option.splits)
  moreover have "db_messages ?d = db_messages d" "db_recipients ?d = db_recipients d" "db_attempts ?d = db_attempts d"
    "db_events ?d = db_events d" "db_outbox ?d = db_outbox d"
    by (simp_all add: CreateSuppression_def Let_def split: option.split)
  ultimately show ?thesis using store_inv_cong [OF _ _ _ _ _ _ inv, of ?d] by simp
qed

lemma mark_outbox: "db_outbox (snd (MarkOutboxDispatched now i d)) =
    map (\<lambda>b. if ob_Message b = i \<and> ob_DispatchedAt b = None then b\<lparr>ob_DispatchedAt := Some now\<rparr> else b) (db_outbox d)"
  by (auto simp: MarkOutboxDispatched_def list_ex_iff intro!: map_idI [symmetric])

lemma store_inv_same:
  assumes "store_inv d" and "db_messages d' = db_messages d" "db_recipients d' = db_recipients d" "db_attempts d' = db_attempts d"
    "db_events d' = db_events d" "map ob_Message (db_outbox d') = map ob_Message (db_outbox d)" "db_suppressions d' = db_suppressions d"
  shows "store_inv d'"
  by (rule store_inv_cong [OF assms(2-6) _ assms(1)]) (use assms(1,7) in \<open>simp add: store_inv_def supp_inv_def\<close>)

lemma store_inv_step: "store_step U hash T d d' \<Longrightarrow> store_inv d \<Longrightarrow> store_inv d'"
proof (induction rule: store_step.induct)
  case (mark d now i)
  then show ?case
    by (rule store_inv_same) (auto simp: mark_outbox MarkOutboxDispatched_def)
next
  case (claim d now t op k fp ex stale)
  then show ?case by (rule store_inv_same) (simp_all add: ClaimIdempotencyKey_def Let_def split: option.split)
next
  case (unclaim d t op k fp at)
  then show ?case by (rule store_inv_same) (simp_all add: ReleaseIdempotencyClaim_def Let_def split: option.split)
next
  case (expire now d chosen)
  from expire.prems show ?case by (rule store_inv_same) (simp_all add: DeleteExpiredIdempotencyKeys_def)
qed (auto intro: store_inv_insert store_inv_persist store_inv_suppressed store_inv_create)

lemma store_inv_init: "store_init d \<Longrightarrow> store_inv d"
  by (simp add: store_init_def store_inv_def keys_inv_def attempt_keys_def event_keys_def refs_inv_def status_inv_def supp_inv_def)

interpretation store: invariant_system store_init "store_step U hash T" store_inv
  by unfold_locales (auto intro: store_inv_init store_inv_step)


section \<open>Demonstration tables\<close>

definition db_demo0 :: db where
  "db_demo0 = \<lparr>db_tenants = {''t''}, db_messages = Map.empty, db_recipients = [], db_attempts = [], db_events = [], db_outbox = [],
     db_suppressions = [], db_idem = Map.empty, db_domains = Map.empty, db_pools = Map.empty, db_members = [], db_broadcasts = Map.empty,
     db_brecipients = Map.empty\<rparr>"

definition db_demo_claimed :: db where
  "db_demo_claimed = snd (ClaimIdempotencyKey 1000 ''t'' ''send'' ''k'' ''f'' 900000 0 db_demo0)"

definition db_demo_message :: newMessage where
  "db_demo_message = \<lparr>nm_ID = ''m'', nm_TenantID = ''t'', nm_MailFrom = ''<a@b>'', nm_FromHeader = [], nm_Subject = [], nm_MessageIDHeader = [],
     nm_Recipients = [\<lparr>ri_Address = ''<c@d>'', ri_HeaderKind = Some ''to''\<rparr>], nm_AvailableAt = zero_time,
     nm_Idempotency = Some \<lparr>ic_Operation = ''send'', ic_Key = ''k'', ic_Fingerprint = ''f''\<rparr>, nm_SenderDomain = [], nm_BroadcastRecipient = []\<rparr>"

definition db_demo1 :: db where
  "db_demo1 = snd (InsertMessage (\<lambda>_. 0) 2000 db_demo_message db_demo_claimed)"

lemma db_demo_insert:
  "InsertMessage (\<lambda>_. 0) 2000 db_demo_message db_demo_claimed = (Inr (new_message_row [] 2000 db_demo_message), db_demo1)"
  by (simp add: db_demo1_def InsertMessage_def nm_validate_def db_demo_message_def db_demo_claimed_def db_demo0_def ClaimIdempotencyKey_def
      Let_def selectRoutingMember_def recipients_unique_def idem_complete_def insert_rows_def)

lemma db_demo_reach0: "reachable store_init (store_step plain_unicode (\<lambda>_. 0) 900000) db_demo_claimed"
  proof (rule reach_step)
  show "reachable store_init (store_step plain_unicode (\<lambda>_. 0) 900000) db_demo0" by (rule reach_init) (simp add: store_init_def db_demo0_def)
  show "store_step plain_unicode (\<lambda>_. 0) 900000 db_demo0 db_demo_claimed" unfolding db_demo_claimed_def by (rule store_step.claim)
qed

lemma db_demo_reach: "reachable store_init (store_step plain_unicode (\<lambda>_. 0) 900000) db_demo1"
  unfolding db_demo1_def by (rule reach_step [OF db_demo_reach0 store_step.insert])


section \<open>An idempotency key creates one message\<close>

definition completed :: "db \<Rightarrow> string \<times> string \<times> string \<Rightarrow> string \<Rightarrow> gotime \<Rightarrow> bool" where
  "completed d k i ex \<longleftrightarrow> (case db_idem d k of None \<Rightarrow> False
     | Some r \<Rightarrow> im_Status r = IdempotencyCompleted \<and> im_Resource r = Some i \<and> im_ExpiresAt r = ex)"

lemma completed_cong: "db_idem d' = db_idem d \<Longrightarrow> completed d' k i ex = completed d k i ex"
  by (simp add: completed_def)

lemma completed_not_inserted:
  assumes "completed d (nm_TenantID n, ic_Operation ic, ic_Key ic) i ex" and "nm_Idempotency n = Some ic"
  shows "\<exists>e. InsertMessage hash now n d = (Inl e, d)"
proof -
  have "idem_complete now n (insert_rows row now n d) = None" for row
    using assms by (auto simp: completed_def idem_complete_def insert_rows_def Let_def split: option.splits)
  then show ?thesis by (auto simp: InsertMessage_def Let_def split: option.split)
qed

lemma InsertMessage_completes:
  "InsertMessage hash now n d = (r, d') \<Longrightarrow> d' = d \<or> (\<exists>row. idem_complete now n (insert_rows row now n d) = Some d')"
  unfolding InsertMessage_def Let_def by (auto split: if_splits option.splits)

lemma insert_rows_idem [simp]: "db_idem (insert_rows row now n d) = db_idem d"
  by (simp add: insert_rows_def)

lemma idem_complete_other:
  "idem_complete now n d = Some d' \<Longrightarrow> nm_Idempotency n = None \<or>
   (\<exists>ic. nm_Idempotency n = Some ic \<and> k \<noteq> (nm_TenantID n, ic_Operation ic, ic_Key ic)) \<Longrightarrow> db_idem d' k = db_idem d k"
  by (auto simp: idem_complete_def Let_def split: option.splits if_splits)

lemma completed_insert:
  assumes c: "completed d k i ex"
  shows "completed (snd (InsertMessage hash now n d)) k i ex"
proof (cases "\<exists>ic. nm_Idempotency n = Some ic \<and> k = (nm_TenantID n, ic_Operation ic, ic_Key ic)")
  case True
  then show ?thesis using completed_not_inserted [of d n _ i ex hash now] c by fastforce
next
  case False
  obtain r d' where run: "InsertMessage hash now n d = (r, d')" by fastforce
  have "db_idem d' k = db_idem d k"
    using InsertMessage_completes [OF run] idem_complete_other [of now n _ d' k] False by (cases "nm_Idempotency n") force+
  then show ?thesis using c by (simp add: run completed_def)
qed

lemma idem_unchanged:
  "db_idem (snd (PersistDeliveryOutcome U now a exh nx d)) = db_idem d"
  "db_idem (snd (RecordSuppressedRecipients U now j keys all d)) = db_idem d"
  "db_idem (snd (CreateSuppression U tenant email rsn src j d)) = db_idem d"
  "db_idem (snd (MarkOutboxDispatched now j d)) = db_idem d"
proof -
  obtain err d' where run: "PersistDeliveryOutcome U now a exh nx d = (err, d')" by fastforce
  show "db_idem (snd (PersistDeliveryOutcome U now a exh nx d)) = db_idem d" using Persist_effect [OF run] run by fastforce
qed (simp_all add: RecordSuppressedRecipients_def CreateSuppression_def MarkOutboxDispatched_def Let_def split: option.split)

lemma completed_step: "store_step U hash T d d' \<Longrightarrow> T \<le> ex \<Longrightarrow> completed d k i ex \<Longrightarrow> completed d' k i ex"
proof (induction rule: store_step.induct)
  case (insert d now n)
  then show ?case by (simp add: completed_insert)
next
  case (claim d now t op k' fp ex' stale)
  then show ?case by (auto simp: completed_def ClaimIdempotencyKey_def Let_def split: option.splits)
next
  case (unclaim d t op k' fp at)
  then show ?case by (auto simp: completed_def ReleaseIdempotencyClaim_def Let_def split: option.splits)
next
  case (expire now d chosen)
  then show ?case by (auto simp: completed_def DeleteExpiredIdempotencyKeys_def split: option.splits)
qed (simp_all add: completed_cong [OF idem_unchanged(1)] completed_cong [OF idem_unchanged(2)]
    completed_cong [OF idem_unchanged(3)] completed_cong [OF idem_unchanged(4)])

lemma completed_steps: "(store_step U hash T)\<^sup>*\<^sup>* d d' \<Longrightarrow> T \<le> ex \<Longrightarrow> completed d k i ex \<Longrightarrow> completed d' k i ex"
  by (induction rule: rtranclp_induct) (auto intro: completed_step)

lemma inserted_completed:
  assumes "InsertMessage hash now n d = (Inr row, d1)" and "nm_Idempotency n = Some ic"
  shows "\<exists>r. db_idem d (nm_TenantID n, ic_Operation ic, ic_Key ic) = Some r \<and>
    completed d1 (nm_TenantID n, ic_Operation ic, ic_Key ic) (nm_ID n) (im_ExpiresAt r)"
  using assms by (auto simp: InsertMessage_def idem_complete_def insert_rows_def completed_def Let_def split: option.splits if_splits)

text \<open>
  An idempotency key creates one message. Once a request has inserted its message under a key that
  it had claimed, then whatever happens to the tables until the key expires (other requests with the
  same or another payload, stale claims taken over or released, deliveries, the expiry sweep), no
  insertion under that key succeeds again, and a new claim finds the completed row with the first message's
  identifier.
\<close>

theorem idempotency_key_once:
  assumes "InsertMessage hash now n d = (Inr row, d1)" and "nm_Idempotency n = Some ic"
    and "db_idem d (nm_TenantID n, ic_Operation ic, ic_Key ic) = Some r0"
    and "(store_step U hash T)\<^sup>*\<^sup>* d1 d2" and "T \<le> im_ExpiresAt r0"
    and "nm_TenantID n2 = nm_TenantID n" and "nm_Idempotency n2 = Some ic2" and "ic_Operation ic2 = ic_Operation ic" and "ic_Key ic2 = ic_Key ic"
  shows "(\<exists>e. InsertMessage hash now2 n2 d2 = (Inl e, d2)) \<and>
    (\<exists>r. ClaimIdempotencyKey now3 (nm_TenantID n) (ic_Operation ic) (ic_Key ic) fp ex stale d2 = ((r, False), d2) \<and>
         im_Status r = IdempotencyCompleted \<and> im_Resource r = Some (nm_ID n))"
proof -
  let ?k = "(nm_TenantID n, ic_Operation ic, ic_Key ic)"
  have c: "completed d2 ?k (nm_ID n) (im_ExpiresAt r0)"
    using completed_steps [OF assms(4,5)] inserted_completed [OF assms(1,2)] assms(3) by auto
  then have "\<exists>e. InsertMessage hash now2 n2 d2 = (Inl e, d2)"
    using completed_not_inserted [of d2 n2 ic2] assms(6-9) by simp
  then show ?thesis using c by (auto simp: completed_def ClaimIdempotencyKey_def Let_def split: option.splits)
qed

theorem idempotency_key_once_witness:
  "\<exists>r. fst (ClaimIdempotencyKey 3000 ''t'' ''send'' ''k'' ''f'' 900000 2500 db_demo1) = (r, False) \<and> im_Resource r = Some ''m''"
proof -
  have sel: "nm_TenantID db_demo_message = ''t''" "nm_ID db_demo_message = ''m''" by (simp_all add: db_demo_message_def)
  have ic: "nm_Idempotency db_demo_message = Some \<lparr>ic_Operation = ''send'', ic_Key = ''k'', ic_Fingerprint = ''f''\<rparr>" by (simp add: db_demo_message_def)
  obtain r0 where r0: "db_idem db_demo_claimed (''t'', ''send'', ''k'') = Some r0" "im_ExpiresAt r0 = 900000"
    by (simp add: db_demo_claimed_def ClaimIdempotencyKey_def db_demo0_def pg_trunc_def Let_def)
  show ?thesis
    using idempotency_key_once [OF db_demo_insert ic _ rtranclp.rtrancl_refl [of "store_step plain_unicode (\<lambda>_. 0) 900000"] _ refl ic refl refl,
      where ?r0.0 = r0 and ?now3.0 = 3000 and fp = "''f''" and ex = 900000 and stale = 2500] r0 by (simp add: sel) (metis fst_conv)
qed

section \<open>Fair dispatch\<close>

definition share :: "string \<Rightarrow> outbox_row list \<Rightarrow> nat" where
  "share t bs = length (filter (\<lambda>b. ob_Tenant b = t) bs)"

lemma due_tenants_distinct: "distinct (due_tenants now d)"
  by (simp add: due_tenants_def)

lemma tenant_rows_tenant: "b \<in> set (tenant_rows lim now d t) \<Longrightarrow> ob_Tenant b = t \<and> b \<in> set (due_outbox now d)"
  unfolding tenant_rows_def by (drule in_set_takeD) simp

lemma enumerate_tenants:
  "distinct ts \<Longrightarrow> (\<And>t b. t \<in> set ts \<Longrightarrow> b \<in> set (g t) \<Longrightarrow> f b = t) \<Longrightarrow>
   filter (\<lambda>(rn, b). f b = t) (concat (map (\<lambda>t. enumerate 1 (g t)) ts)) = (if t \<in> set ts then enumerate 1 (g t) else [])"
proof (induction ts)
  case (Cons u ts)
  have u: "filter (\<lambda>(rn, b). f b = t) (enumerate 1 (g u)) = (if u = t then enumerate 1 (g u) else [])"
    using Cons.prems(2) [of u] by (auto simp: filter_id_conv filter_empty_conv in_set_enumerate_eq)
  have "filter (\<lambda>(rn, b). f b = t) (concat (map (\<lambda>t. enumerate 1 (g t)) ts)) = (if t \<in> set ts then enumerate 1 (g t) else [])"
    using Cons by simp
  then show ?case using u Cons.prems(1) by auto
qed simp

lemma filter_ranked:
  "filter (\<lambda>(rn, b). ob_Tenant b = t) (ranked lim now d) = (if t \<in> set (due_tenants now d) then enumerate 1 (tenant_rows lim now d t) else [])"
  unfolding ranked_def by (rule enumerate_tenants [OF due_tenants_distinct]) (simp add: tenant_rows_tenant)

abbreviation rank_key :: "nat \<times> outbox_row \<Rightarrow> nat \<times> gotime" where
  "rank_key \<equiv> (\<lambda>(rn, b). (rn, ob_AvailableAt b))"

lemma enumerate_sorted: "sorted (map rank_key (enumerate k bs))"
  by (induction bs arbitrary: k) (auto simp: in_set_enumerate_eq less_eq_prod_def)

lemma filter_sorted_ranked:
  "filter (\<lambda>(rn, b). ob_Tenant b = t) (sort_key rank_key (ranked lim now d)) =
   (if t \<in> set (due_tenants now d) then enumerate 1 (tenant_rows lim now d t) else [])"
  unfolding filter_sort filter_ranked by (simp add: sort_key_id_if_sorted [OF enumerate_sorted])

lemma enumerate_ranks:
  assumes "xs @ ys = enumerate 1 bs"
  shows "xs \<noteq> [] \<Longrightarrow> fst (last xs) = length xs" "ys \<noteq> [] \<Longrightarrow> fst (hd ys) = Suc (length xs)"
proof -
  have n: "fst ((xs @ ys) ! i) = Suc i" if "i < length (xs @ ys)" for i
    using that by (simp add: assms nth_enumerate_eq)
  show "xs \<noteq> [] \<Longrightarrow> fst (last xs) = length xs" using n [of "length xs - 1"] by (cases "length xs") (simp_all add: nth_append last_conv_nth)
  show "ys \<noteq> [] \<Longrightarrow> fst (hd ys) = Suc (length xs)" using n [of "length xs"] by (simp add: nth_append hd_conv_nth)
qed

lemma rank_order:
  assumes "x \<in> set (take m (sort_key rank_key xs))" and "y \<in> set (drop m (sort_key rank_key xs))"
  shows "fst x \<le> fst y"
proof -
  have "sorted (map rank_key (take m (sort_key rank_key xs) @ drop m (sort_key rank_key xs)))"
    unfolding append_take_drop_id by (rule sorted_sort_key)
  then have "rank_key x \<le> rank_key y" using assms unfolding map_append sorted_append by simp
  then show ?thesis by (auto simp: less_eq_prod_def split: prod.splits)
qed

lemma share_map_snd: "share t (map snd xs) = length (filter (\<lambda>(rn, b). ob_Tenant b = t) xs)"
  by (simp add: share_def filter_map comp_def case_prod_unfold)

text \<open>The rows of one tenant in the batch and those left out of it, by rank.\<close>

lemma batch_split:
  assumes "S = sort_key rank_key (ranked lim now d)" and "t \<in> set (due_tenants now d)"
  shows "filter (\<lambda>(rn, b). ob_Tenant b = t) (take m S) @ filter (\<lambda>(rn, b). ob_Tenant b = t) (drop m S) = enumerate 1 (tenant_rows lim now d t)"
  using filter_sorted_ranked [of t lim now d] assms by (simp flip: filter_append)

text \<open>
  No tenant can push another out of a batch. When a due row of a tenant that takes part in the round is
  left out of the batch, every other tenant has at most one row more in it than that tenant.
\<close>

theorem outbox_fair:
  assumes t: "t \<in> set (due_tenants now d)" and left: "b \<in> set (due_outbox now d)" "ob_Tenant b = t" "b \<notin> set (ListPendingOutbox limit now d)"
  shows "share u (ListPendingOutbox limit now d) \<le> Suc (share t (ListPendingOutbox limit now d))"
proof -
  define lim where "lim = (if limit \<le> 0 then 100 else nat limit)"
  define S where "S = sort_key rank_key (ranked lim now d)"
  have out: "ListPendingOutbox limit now d = map snd (take lim S)" by (simp add: ListPendingOutbox_def Let_def lim_def S_def)
  let ?T = "\<lambda>t. filter (\<lambda>(rn, b). ob_Tenant b = t) (take lim S)" and ?R = "\<lambda>t. filter (\<lambda>(rn, b). ob_Tenant b = t) (drop lim S)"
  have sh: "share x (ListPendingOutbox limit now d) = length (?T x)" for x by (simp add: out share_map_snd)
  have sp: "?T t @ ?R t = enumerate 1 (tenant_rows lim now d t)" by (rule batch_split [OF S_def t])
  show ?thesis
  proof (cases "?T u = [] \<or> u = t")
    case False
    then have u: "u \<in> set (due_tenants now d)" using filter_sorted_ranked [of u lim now d]
      by (metis S_def append_is_Nil_conv append_take_drop_id filter_append)
    have lu: "last (?T u) \<in> set (take lim S)" using False last_in_set [of "?T u"] by auto
    have ru: "fst (last (?T u)) = length (?T u)" using enumerate_ranks(1) [OF batch_split [OF S_def u]] False by blast
    show ?thesis
    proof (cases "?R t = []")
      case False
      then have "hd (?R t) \<in> set (drop lim S)" using hd_in_set [of "?R t"] by auto
      then have "fst (last (?T u)) \<le> fst (hd (?R t))" using rank_order lu unfolding S_def by blast
      then show ?thesis using ru enumerate_ranks(2) [OF sp False] sh by simp
    next
      case True
      then have all: "?T t = enumerate 1 (tenant_rows lim now d t)" using sp by simp
      have "b \<in> set (tenant_rows lim now d t)" if "length (tenant_rows lim now d t) < lim"
        using that left(1,2) unfolding tenant_rows_def by simp
      moreover have "b \<notin> set (tenant_rows lim now d t)"
      proof
        assume "b \<in> set (tenant_rows lim now d t)"
        then have "b \<in> snd ` set (?T t)" unfolding all by (metis list.set_map map_snd_enumerate)
        then show False using left(3) by (auto simp: out)
      qed
      ultimately have "lim \<le> length (?T t)" unfolding all length_enumerate using not_le by blast
      moreover have "length (?T t) + length (?T u) \<le> length (take lim S)"
      proof -
        have "?T u = filter (\<lambda>(rn, b). ob_Tenant b = u) (filter (\<lambda>x. \<not> (\<lambda>(rn, b). ob_Tenant b = t) x) (take lim S))"
          unfolding filter_filter using \<open>\<not> (?T u = [] \<or> u = t)\<close> by (intro filter_cong) auto
        then have "length (?T u) \<le> length (filter (\<lambda>x. \<not> (\<lambda>(rn, b). ob_Tenant b = t) x) (take lim S))"
          by (metis length_filter_le)
        then show ?thesis using sum_length_filter_compl [of "\<lambda>(rn, b). ob_Tenant b = t" "take lim S"] by linarith
      qed
      ultimately show ?thesis using sh by simp
    qed
  qed (auto simp: sh)
qed

lemma ranked_rows: "map snd (ranked lim now d) = concat (map (tenant_rows lim now d) (due_tenants now d))"
  by (simp add: ranked_def map_concat comp_def)

lemma pending_ranked:
  assumes "b \<in> set (ListPendingOutbox limit now d)"
  shows "\<exists>lim. \<exists>t\<in>set (due_tenants now d). b \<in> set (tenant_rows lim now d t)"
proof -
  define lim where "lim = (if limit \<le> 0 then 100 else nat limit)"
  have "b \<in> snd ` set (take lim (sort_key rank_key (ranked lim now d)))"
    using assms by (simp add: ListPendingOutbox_def Let_def lim_def)
  then have "b \<in> set (map snd (ranked lim now d))" by (auto dest!: in_set_takeD intro: rev_image_eqI)
  then show ?thesis unfolding ranked_rows by auto
qed

lemma ListPendingOutbox_due: "b \<in> set (ListPendingOutbox limit now d) \<Longrightarrow> b \<in> set (due_outbox now d)"
  using pending_ranked tenant_rows_tenant by blast

definition marked :: "gotime \<Rightarrow> string set \<Rightarrow> outbox_row \<Rightarrow> outbox_row" where
  "marked now ms b = (if ob_Message b \<in> ms \<and> ob_DispatchedAt b = None then b\<lparr>ob_DispatchedAt := Some now\<rparr> else b)"

lemma mark_outbox_marked: "db_outbox (snd (MarkOutboxDispatched now i d)) = map (marked now {i}) (db_outbox d)"
  by (auto simp: MarkOutboxDispatched_def marked_def list_ex_iff intro!: map_idI [symmetric])

lemma marked_due:
  assumes "d' = d\<lparr>db_outbox := map (marked now ms) (db_outbox d)\<rparr>"
  shows "b \<in> set (due_outbox t d) \<Longrightarrow> ob_Message b \<notin> ms \<Longrightarrow> b \<in> set (due_outbox t d')"
    "b \<in> set (due_outbox t d') \<Longrightarrow> ob_Message b \<notin> ms"
proof -
  assume b: "b \<in> set (due_outbox t d)" "ob_Message b \<notin> ms"
  then have "marked now ms b = b" "b \<in> set (db_outbox d)" by (simp_all add: marked_def due_outbox_def)
  then have "b \<in> marked now ms ` set (db_outbox d)" by (metis imageI)
  then show "b \<in> set (due_outbox t d')" using b(1) by (simp add: due_outbox_def assms)
next
  assume "b \<in> set (due_outbox t d')"
  then show "ob_Message b \<notin> ms" by (auto simp: due_outbox_def assms marked_def split: if_splits)
qed

lemma marked_marked: "marked now ms (marked now ns b) = marked now (ms \<union> ns) b"
  by (auto simp: marked_def)

lemma mark_only_outbox: "snd (MarkOutboxDispatched now i d) = d\<lparr>db_outbox := map (marked now {i}) (db_outbox d)\<rparr>"
proof -
  have "\<exists>bs. snd (MarkOutboxDispatched now i d) = d\<lparr>db_outbox := bs\<rparr>"
    by (cases "list_ex (\<lambda>b. ob_Message b = i \<and> ob_DispatchedAt b = None) (db_outbox d)")
       (auto simp: MarkOutboxDispatched_def intro: exI [where x = "db_outbox d"])
  then show ?thesis using mark_outbox_marked [of now i d] by fastforce
qed

lemma dispatch_items_effect:
  "dispatch_items now enqueue marks bs d =
   (map outbox_job (filter (\<lambda>b. enqueue (outbox_job b)) bs),
    d\<lparr>db_outbox := map (marked now {ob_Message b | b. b \<in> set bs \<and> enqueue (outbox_job b) \<and> marks (ob_Message b)}) (db_outbox d)\<rparr>)"
proof (induction bs arbitrary: d)
  case Nil
  show ?case by (simp add: marked_def)
next
  case (Cons b bs)
  let ?M = "\<lambda>bs. {ob_Message b | b. b \<in> set bs \<and> enqueue (outbox_job b) \<and> marks (ob_Message b)}"
  show ?case
  proof (cases "enqueue (outbox_job b)")
    case False
    then have "?M (b # bs) = ?M bs" by auto
    then show ?thesis using False Cons.IH by simp
  next
    case True
    then have "?M (b # bs) = ?M bs \<union> (if marks (ob_Message b) then {ob_Message b} else {})" by auto
    then show ?thesis using True Cons.IH by (simp add: mark_only_outbox marked_marked comp_def)
  qed
qed

text \<open>
  (C22) Handing over to the queue loses nothing. A round of the dispatcher changes nothing but the
  dispatch mark of rows; a row is marked only when the queue has taken its job in this round, so an accepted
  message whose enqueue or whose mark failed, or that did not fit in the batch, is still pending and due; every
  job given to the queue belongs to a due row of the outbox; and a row that is marked is never handed over again.
\<close>

theorem dispatch_loses_nothing:
  assumes "dispatch_tick batch now listed enqueue marks d = (js, d')"
  shows "\<exists>ms. d' = d\<lparr>db_outbox := map (marked now ms) (db_outbox d)\<rparr> \<and>
      ms \<subseteq> {job_MessageID j | j. j \<in> set js \<and> enqueue j} \<and>
      (\<forall>j\<in>set js. \<exists>b\<in>set (due_outbox now d). j = outbox_job b) \<and>
      (\<forall>b\<in>set (due_outbox now d). ob_Message b \<notin> ms \<longrightarrow> b \<in> set (due_outbox now d')) \<and>
      (\<forall>later. \<forall>b\<in>set (due_outbox later d'). ob_Message b \<notin> ms)"
proof -
  let ?bs = "if listed then ListPendingOutbox batch now d else []"
  let ?ms = "{ob_Message b | b. b \<in> set ?bs \<and> enqueue (outbox_job b) \<and> marks (ob_Message b)}"
  have eq: "js = map outbox_job (filter (\<lambda>b. enqueue (outbox_job b)) ?bs)" "d' = d\<lparr>db_outbox := map (marked now ?ms) (db_outbox d)\<rparr>"
  proof -
    have "dispatch_tick batch now listed enqueue marks d = dispatch_items now enqueue marks ?bs d" by (simp add: dispatch_tick_def)
    then show "js = map outbox_job (filter (\<lambda>b. enqueue (outbox_job b)) ?bs)" "d' = d\<lparr>db_outbox := map (marked now ?ms) (db_outbox d)\<rparr>"
      using assms unfolding dispatch_items_effect by simp_all
  qed
  have sub: "?ms \<subseteq> {job_MessageID j | j. j \<in> set js \<and> enqueue j}"
  proof
    fix i
    assume "i \<in> ?ms"
    then obtain b where "i = ob_Message b" "b \<in> set ?bs" "enqueue (outbox_job b)" by blast
    then show "i \<in> {job_MessageID j | j. j \<in> set js \<and> enqueue j}"
      by (intro CollectI exI [where x = "outbox_job b"]) (simp add: eq(1) outbox_job_def)
  qed
  have due: "\<forall>j\<in>set js. \<exists>b\<in>set (due_outbox now d). j = outbox_job b"
    using ListPendingOutbox_due [of _ batch now d] unfolding eq(1) by fastforce
  have kept: "\<forall>b\<in>set (due_outbox now d). ob_Message b \<notin> ?ms \<longrightarrow> b \<in> set (due_outbox now d')"
    using marked_due(1) [OF eq(2)] by blast
  have gone: "\<forall>later. \<forall>b\<in>set (due_outbox later d'). ob_Message b \<notin> ?ms"
    using marked_due(2) [OF eq(2)] by blast
  show ?thesis using eq(2) sub due kept gone by (intro exI [where x = ?ms] conjI)
qed

definition ob_demo :: "string \<Rightarrow> string \<Rightarrow> gotime \<Rightarrow> outbox_row" where
  "ob_demo i t at = \<lparr>ob_Message = i, ob_Tenant = t, ob_AvailableAt = at, ob_DispatchedAt = None\<rparr>"

definition ob_demo_db :: db where
  "ob_demo_db = db_demo0\<lparr>db_outbox := [ob_demo ''1'' ''a'' 1, ob_demo ''2'' ''a'' 2, ob_demo ''3'' ''a'' 3, ob_demo ''4'' ''b'' 9]\<rparr>"

lemma ob_demo_pending:
  "ListPendingOutbox 2 10 ob_demo_db = [ob_demo ''1'' ''a'' 1, ob_demo ''4'' ''b'' 9]"
  "due_outbox 10 ob_demo_db = [ob_demo ''1'' ''a'' 1, ob_demo ''2'' ''a'' 2, ob_demo ''3'' ''a'' 3, ob_demo ''4'' ''b'' 9]"
  "due_tenants 10 ob_demo_db = [''a'', ''b'']"
proof -
  show due: "due_outbox 10 ob_demo_db = [ob_demo ''1'' ''a'' 1, ob_demo ''2'' ''a'' 2, ob_demo ''3'' ''a'' 3, ob_demo ''4'' ''b'' 9]"
    by (simp add: due_outbox_def ob_demo_db_def ob_demo_def)
  show ts: "due_tenants 10 ob_demo_db = [''a'', ''b'']"
    unfolding due_tenants_def due maxFairTenants_def by (simp add: ob_demo_def less_eq_list_code)
  show "ListPendingOutbox 2 10 ob_demo_db = [ob_demo ''1'' ''a'' 1, ob_demo ''4'' ''b'' 9]"
    by (simp add: ListPendingOutbox_def ranked_def ts tenant_rows_def due ob_demo_def Let_def numeral_2_eq_2 less_eq_prod_def)
qed

theorem outbox_fair_witness: "share ''b'' (ListPendingOutbox 2 10 ob_demo_db) \<le> Suc (share ''a'' (ListPendingOutbox 2 10 ob_demo_db))"
  by (rule outbox_fair [of "''a''" 10 ob_demo_db "ob_demo ''2'' ''a'' 2" 2 "''b''"]) (simp_all add: ob_demo_pending ob_demo_def)

lemma outbox_cap:
  assumes "t \<notin> set (due_tenants now d)"
  shows "share t (ListPendingOutbox limit now d) = 0"
proof -
  have "ob_Tenant b \<noteq> t" if "b \<in> set (ListPendingOutbox limit now d)" for b
    using pending_ranked [OF that] tenant_rows_tenant assms by blast
  then show ?thesis by (simp add: share_def filter_empty_conv)
qed

theorem dispatch_loses_nothing_witness:
  "fst (dispatch_tick 2 10 True (\<lambda>j. job_ID j \<noteq> ''1'') (\<lambda>_. True) ob_demo_db) = [outbox_job (ob_demo ''4'' ''b'' 9)] \<and>
   ob_demo ''1'' ''a'' 1 \<in> set (due_outbox 10 (snd (dispatch_tick 2 10 True (\<lambda>j. job_ID j \<noteq> ''1'') (\<lambda>_. True) ob_demo_db)))"
proof -
  let ?r = "dispatch_tick 2 10 True (\<lambda>j. job_ID j \<noteq> ''1'') (\<lambda>_. True) ob_demo_db"
  have js: "fst ?r = [outbox_job (ob_demo ''4'' ''b'' 9)]"
    by (simp add: dispatch_tick_def ob_demo_pending(1) dispatch_items_effect outbox_job_def ob_demo_def)
  have run: "?r = (fst ?r, snd ?r)" by simp
  obtain ms where ms: "ms \<subseteq> {job_MessageID j | j. j \<in> set (fst ?r) \<and> job_ID j \<noteq> ''1''}"
      "\<forall>b\<in>set (due_outbox 10 ob_demo_db). ob_Message b \<notin> ms \<longrightarrow> b \<in> set (due_outbox 10 (snd ?r))"
    using dispatch_loses_nothing [OF run] by blast
  have "''1'' \<notin> ms" using ms(1) unfolding js by (auto simp: outbox_job_def ob_demo_def)
  then show ?thesis using ms(2) js by (simp add: ob_demo_pending(2)) (simp add: ob_demo_def)
qed

lemma store_step_member:
  "store_step U hash T d d' \<Longrightarrow> db_messages d k = Some m \<Longrightarrow> \<exists>m'. db_messages d' k = Some m' \<and> mr_Member m' = mr_Member m"
proof (induction rule: store_step.induct)
  case (insert d now n)
  obtain r d' where run: "InsertMessage hash now n d = (r, d')" by fastforce
  show ?case using InsertMessage_effect [OF run] insert.prems unfolding run by (cases "k = nm_ID n") (auto simp: insert_rows_def)
next
  case (persist a ex d now nx)
  obtain err d' where run: "PersistDeliveryOutcome U now a ex nx d = (err, d')" by fastforce
  show ?case using Persist_effect [OF run] persist.prems unfolding run by (elim disjE exE conjE) (simp, cases "k = na_MessageID a", simp_all)
next
  case (suppressed d now i keys all)
  then show ?case by (auto simp: RecordSuppressedRecipients_def Let_def split: option.split)
qed (simp_all add: CreateSuppression_def MarkOutboxDispatched_def ClaimIdempotencyKey_def
      ReleaseIdempotencyClaim_def DeleteExpiredIdempotencyKeys_def Let_def split: option.split)

section \<open>Routing to a pool member\<close>

record memberRoute =
  mro_Deliver :: "engineRequest \<Rightarrow> delivered"
  mro_Hostname :: string
  mro_SourceIP :: string

record router =
  rou_Base :: "engineRequest \<Rightarrow> delivered"
  rou_Members :: "string \<rightharpoonup> memberRoute"

text \<open>\<open>None\<close> for \<open>base\<close>: no base deliverer.\<close>

definition NewRouter :: "(engineRequest \<Rightarrow> delivered) option \<Rightarrow> (string \<rightharpoonup> memberRoute) option \<Rightarrow> router option" where
  "NewRouter base members =
     (case base of None \<Rightarrow> None
      | Some b \<Rightarrow> Some \<lparr>rou_Base = b, rou_Members = (case members of None \<Rightarrow> Map.empty | Some m \<Rightarrow> m)\<rparr>)"

definition Known :: "router \<Rightarrow> string \<Rightarrow> bool" where
  "Known r memberID \<longleftrightarrow> rou_Members r memberID \<noteq> None"

text \<open>The result comes with the effective host name, source address and member.\<close>

definition Router_Deliver :: "router \<Rightarrow> string \<Rightarrow> engineRequest \<Rightarrow> delivered \<times> (string \<times> string \<times> string)" where
  "Router_Deliver r memberID req =
     (if memberID = [] then (rou_Base r req, [], [], [])
      else case rou_Members r memberID of
          None \<Rightarrow>
            (((freshOutcome (eq_Domain req))\<lparr>do_Kind := Some KindTransferTemporary\<rparr>,
              Some \<lparr>ee_Kind = KindTransferTemporary, ee_Domain = eq_Domain req, ee_Temporary = True\<rparr>, False), [], [], [])
        | Some route \<Rightarrow> (mro_Deliver route req, mro_Hostname route, mro_SourceIP route, memberID))"

definition MemberRoutingEnabled :: "string \<Rightarrow> db \<Rightarrow> bool option" where
  "MemberRoutingEnabled memberID d =
     (case find (\<lambda>(i, _). i = memberID) (db_members d) of
        None \<Rightarrow> None
      | Some (_, p, en) \<Rightarrow> map_option (\<lambda>pe. en \<and> pe) (db_pools d p))"

definition MessageTenant :: "string \<Rightarrow> db \<Rightarrow> string option" where
  "MessageTenant messageID d = map_option mr_Tenant (db_messages d messageID)"

lemma SelectMember_mem: "cs \<noteq> [] \<Longrightarrow> SelectMember hash i cs \<in> set cs"
proof -
  assume "cs \<noteq> []"
  then have "sort cs ! (hash i mod length cs) \<in> set (sort cs)" by (intro nth_mem) simp
  then show ?thesis using \<open>cs \<noteq> []\<close> by (simp add: SelectMember_def)
qed

lemma SelectMember_order: "mset cs = mset ds \<Longrightarrow> SelectMember hash i cs = SelectMember hash i ds"
proof -
  assume m: "mset cs = mset ds"
  have l: "length cs = length ds" using m by (rule mset_eq_length)
  have s: "sort cs = sort ds" by (rule properties_for_sort) (simp_all add: m)
  show ?thesis
  proof (cases "length ds = 1")
    case True
    then have "cs = ds" using m l by (cases cs; cases ds) auto
    then show ?thesis by simp
  next
    case False
    then show ?thesis using l s by (cases "cs = []") (auto simp: SelectMember_def)
  qed
qed

text \<open>
  The sending identity is decided once. A message accepted for a domain with a pool gets a member
  exactly when the pool exists, is enabled and has an enabled member; the member is one of these, depends
  only on the message and the set of enabled members (not on the order the database lists them), and
  no later transaction changes it.
\<close>

theorem member_chosen_at_acceptance:
  assumes "selectRoutingMember hash d i (Some p) = mem" and "p \<noteq> []" and "\<forall>(j, q, en)\<in>set (db_members d). j \<noteq> []"
  shows "(mem \<noteq> [] \<longleftrightarrow> db_pools d p = Some True \<and> (\<exists>j. (j, p, True) \<in> set (db_members d))) \<and>
    (mem \<noteq> [] \<longrightarrow> (mem, p, True) \<in> set (db_members d)) \<and>
    (db_pools d2 p = db_pools d p \<and> mset (db_members d2) = mset (db_members d) \<longrightarrow> selectRoutingMember hash d2 i (Some p) = mem) \<and>
    (store_step U hash T e e' \<and> db_messages e k = Some m \<longrightarrow> (\<exists>m'. db_messages e' k = Some m' \<and> mr_Member m' = mr_Member m))"
proof (intro conjI)
  define cs where "cs = map fst (filter (\<lambda>(j, q, en). q = p \<and> en) (db_members d))"
  have mem_cs: "j \<in> set cs \<longleftrightarrow> (j, p, True) \<in> set (db_members d)" for j unfolding cs_def by force
  have mem: "mem = (if db_pools d p = Some True then SelectMember hash i cs else [])"
    using assms(1,2) by (auto simp: selectRoutingMember_def cs_def split: option.splits if_splits)
  have inn: "SelectMember hash i cs \<in> set cs \<and> SelectMember hash i cs \<noteq> []" if "cs \<noteq> []"
  proof -
    have "SelectMember hash i cs \<in> set cs" by (rule SelectMember_mem [OF that])
    moreover from this have "(SelectMember hash i cs, p, True) \<in> set (db_members d)" unfolding mem_cs .
    ultimately show ?thesis using assms(3) by blast
  qed
  have empty: "SelectMember hash i cs = []" if "cs = []" using that by (simp add: SelectMember_def)
  have none: "cs \<noteq> [] \<longleftrightarrow> (\<exists>j. (j, p, True) \<in> set (db_members d))" by (auto simp: filter_empty_conv cs_def)
  show "mem \<noteq> [] \<longleftrightarrow> db_pools d p = Some True \<and> (\<exists>j. (j, p, True) \<in> set (db_members d))"
    using inn empty none by (cases "cs = []") (simp_all add: mem)
  show "mem \<noteq> [] \<longrightarrow> (mem, p, True) \<in> set (db_members d)" using inn empty mem_cs by (cases "cs = []") (simp_all add: mem)
  show "db_pools d2 p = db_pools d p \<and> mset (db_members d2) = mset (db_members d) \<longrightarrow> selectRoutingMember hash d2 i (Some p) = mem"
  proof
    assume a: "db_pools d2 p = db_pools d p \<and> mset (db_members d2) = mset (db_members d)"
    then have "mset (map fst (filter (\<lambda>(j, q, en). q = p \<and> en) (db_members d2))) = mset cs" by (simp add: cs_def)
    then have "SelectMember hash i (map fst (filter (\<lambda>(j, q, en). q = p \<and> en) (db_members d2))) = SelectMember hash i cs"
      by (rule SelectMember_order)
    then show "selectRoutingMember hash d2 i (Some p) = mem"
      using a assms(2) by (cases "db_pools d p") (simp_all add: selectRoutingMember_def mem)
  qed
  show "store_step U hash T e e' \<and> db_messages e k = Some m \<longrightarrow> (\<exists>m'. db_messages e' k = Some m' \<and> mr_Member m' = mr_Member m)"
    using store_step_member by blast
qed

definition db_demo_pool :: db where
  "db_demo_pool = db_demo0\<lparr>db_pools := [''p'' \<mapsto> True], db_members := [(''x'', ''p'', True), (''y'', ''p'', False)]\<rparr>"

theorem member_chosen_at_acceptance_witness: "selectRoutingMember (\<lambda>_. 7) db_demo_pool ''m'' (Some ''p'') = ''x''"
proof -
  define mem where "mem = selectRoutingMember (\<lambda>_. 7) db_demo_pool ''m'' (Some ''p'')"
  have "\<forall>(j, q, en)\<in>set (db_members db_demo_pool). j \<noteq> []" by (simp add: db_demo_pool_def)
  note all = member_chosen_at_acceptance [OF mem_def [symmetric] _ this, of db_demo_pool plain_unicode 0 db_demo_pool db_demo_pool "''m''" undefined]
  have "mem \<noteq> []" "mem \<noteq> [] \<longrightarrow> (mem, ''p'', True) \<in> set (db_members db_demo_pool)"
    using all by (simp_all add: db_demo_pool_def del: mset.simps)
  then have "mem = ''x''" by (simp add: db_demo_pool_def)
  then show ?thesis by (simp add: mem_def)
qed

end
