(* ===== verification/Durable_Delivery.thy ===== *)
theory Durable_Delivery
  imports Durable_Store
begin

text \<open>
  The outcome store of the worker over the tables (\<^verbatim>\<open>cmd/mailx/outcome_store.go\<close>): what \<^verbatim>\<open>Load\<close> rebuilds
  from stored attempts, what \<^verbatim>\<open>Persist\<close> and \<^verbatim>\<open>RecordSuppressed\<close> write. The theorems: what is read back
  after an attempt is what the worker had in memory, so a restart between two attempts changes nothing; and two
  hazards, an attempt cut off by its context that can never be loaded again, and a replayed outcome that
  reopens a finished message.
\<close>

section \<open>The outcome store of the worker\<close>

definition decisionToDatabase :: "decision \<Rightarrow> db_decision" where
  "decisionToDatabase x = (case x of Retry \<Rightarrow> DecisionRetry | TerminalSuccess \<Rightarrow> DecisionTerminalSuccess | TerminalFailure \<Rightarrow> DecisionTerminalFailure)"

definition deliveryResultFromStored :: "attempt_row \<Rightarrow> deliveryOutcome" where
  "deliveryResultFromStored r =
     \<lparr>do_Domain = [], do_Transport = NoTransport, do_Kind = Some (ar_Kind r), do_Accepted = ar_Accepted r,
      do_FinalCode = (case ar_FinalCode r of None \<Rightarrow> 0 | Some c \<Rightarrow> c),
      do_EnhancedStatus = (case ar_Enhanced r of None \<Rightarrow> [] | Some s \<Rightarrow> s),
      do_RemoteMessage = (case ar_RemoteMessage r of None \<Rightarrow> [] | Some s \<Rightarrow> s),
      do_FailureStage = ar_FailureStage r,
      do_Recipient = (case ar_Recipient r of None \<Rightarrow> [] | Some s \<Rightarrow> s),
      do_QuitError = ar_QuitError r, do_Attempts = [], do_MXCandidates = []\<rparr>"

text \<open>The retry state is rebuilt by recording the stored results; the stored decision has to come out again.\<close>

fun restore :: "rstate \<Rightarrow> attempt_row list \<Rightarrow> rstate option" where
  "restore s [] = Some s"
| "restore s (r # rs) =
     (case Record (deliveryResultFromStored r) False s of
        (Some _, _) \<Rightarrow> None
      | (None, s1) \<Rightarrow>
          if decisionToDatabase (da_Decision (last s1)) \<noteq> ar_Decision r then None else restore s1 rs)"

definition os_Load :: "string \<Rightarrow> db \<Rightarrow> durableState option" where
  "os_Load messageID d =
     (case LoadDeliveryState messageID d of
        Inl _ \<Rightarrow> None
      | Inr st \<Rightarrow>
          (case restore [] (dy_Attempts st) of
             None \<Rightarrow> None
           | Some s \<Rightarrow> Some \<lparr>du_RetryState = Some s, du_Terminal = Terminal (dy_Status st), du_NextRetryAt = dy_NextRetryAt st,
                             du_SendingMemberID = dy_SendingMemberID st\<rparr>))"

definition stage_text :: "stage \<Rightarrow> string" where
  "stage_text s = (case s of
      StageDial \<Rightarrow> ''dial'' | StageGreeting \<Rightarrow> ''greeting'' | StageEHLO \<Rightarrow> ''ehlo'' | StageHELO \<Rightarrow> ''helo'' | StageStartTLS \<Rightarrow> ''starttls''
    | StageTLS \<Rightarrow> ''tls_handshake'' | StageAuth \<Rightarrow> ''auth'' | StageEHLOTLS \<Rightarrow> ''ehlo_tls'' | StageMailFrom \<Rightarrow> ''mail_from'' | StageRcptTo \<Rightarrow> ''rcpt_to''
    | StageData \<Rightarrow> ''data'' | StageMessage \<Rightarrow> ''message_transfer'' | StageDataResponse \<Rightarrow> ''data_response'' | StageQuit \<Rightarrow> ''quit''
    | StageInvalidInput \<Rightarrow> ''invalid_input'' | StageUnknown \<Rightarrow> ''unknown'')"

definition os_attempt :: "string \<Rightarrow> deliveryAttempt \<Rightarrow> gotime \<Rightarrow> gotime \<Rightarrow> newDeliveryAttempt" where
  "os_attempt messageID a started finished =
     (let r = da_Result a
      in \<lparr>na_MessageID = messageID, na_AttemptNumber = da_Number a, na_Decision = decisionToDatabase (da_Decision a), na_Kind = do_Kind r,
          na_Accepted = do_Accepted r, na_FinalCode = do_FinalCode r, na_EnhancedStatus = do_EnhancedStatus r,
          na_RemoteMessage = do_RemoteMessage r, na_FailureStage = do_FailureStage r, na_Recipient = do_Recipient r,
          na_QuitError = do_QuitError r, na_StartedAt = started, na_FinishedAt = finished,
          na_SuppressRecipient = (da_Decision a = TerminalFailure \<and> do_Kind r = Some KindTransferPermanent \<and>
            QualifiesHardBounce (case do_FailureStage r of None \<Rightarrow> [] | Some st \<Rightarrow> stage_text st) True (do_Accepted r) (int (do_FinalCode r)) (do_EnhancedStatus r) (do_Recipient r))\<rparr>)"

text \<open>
  What can go wrong around a transaction: it is not carried out, or it is committed and the answer
  gets lost.
\<close>

datatype fault = Clean | NotDone | AnswerLost

definition os_Persist ::
  "unicode \<Rightarrow> fault \<Rightarrow> gotime \<Rightarrow> string \<Rightarrow> deliveryAttempt \<Rightarrow> gotime \<Rightarrow> gotime \<Rightarrow> outcome \<Rightarrow> db \<Rightarrow> storeAnswer \<times> db" where
  "os_Persist U flt now messageID a started finished oc d =
     (if flt = NotDone then (StoreError, d)
      else case PersistDeliveryOutcome U now (os_attempt messageID a started finished) (oc_Status oc = StatusExhausted)
                  (map_option sd_NextRetryAt (oc_Schedule oc)) d of
          (err, d1) \<Rightarrow>
            if flt = AnswerLost then (StoreError, d1)
            else (case err of None \<Rightarrow> StoreOk | Some ErrMessageTerminal \<Rightarrow> AlreadyTerminal | Some _ \<Rightarrow> StoreError, d1))"

definition os_SuppressedRecipients :: "string \<Rightarrow> string list \<Rightarrow> db \<Rightarrow> (string \<times> bool) list" where
  "os_SuppressedRecipients messageID keys d = map (\<lambda>k. (k, True)) (SuppressedForMessage messageID keys d)"

definition os_RecordSuppressed ::
  "unicode \<Rightarrow> fault \<Rightarrow> gotime \<Rightarrow> string \<Rightarrow> (string \<Rightarrow> bool) \<Rightarrow> bool \<Rightarrow> db \<Rightarrow> storeAnswer \<times> db" where
  "os_RecordSuppressed U flt now messageID keys all d =
     (if flt = NotDone then (StoreError, d)
      else case RecordSuppressedRecipients U now messageID keys all d of
          (err, d1) \<Rightarrow>
            if flt = AnswerLost then (StoreError, d1)
            else (case err of None \<Rightarrow> StoreOk | Some ErrMessageTerminal \<Rightarrow> AlreadyTerminal | Some _ \<Rightarrow> StoreError, d1))"

section \<open>A restarted worker goes on where it was\<close>

text \<open>The part of an attempt that is read back from its row.\<close>

definition stored :: "deliveryAttempt \<Rightarrow> deliveryAttempt" where
  "stored a = a\<lparr>da_Result := (da_Result a)\<lparr>do_Domain := [], do_Transport := NoTransport, do_Attempts := [], do_MXCandidates := []\<rparr>\<rparr>"

lemma stored_sel [simp]: "da_Number (stored a) = da_Number a" "da_Decision (stored a) = da_Decision a"
  by (simp_all add: stored_def)

lemma decisionToDatabase_inject [simp]: "decisionToDatabase x = decisionToDatabase y \<longleftrightarrow> x = y"
  by (cases x; cases y) (simp_all add: decisionToDatabase_def)

lemma restore_append:
  "restore s (rs @ [r]) =
   (case restore s rs of None \<Rightarrow> None
    | Some s1 \<Rightarrow>
        let decided = Decide (deliveryResultFromStored r) False
        in if (s1 \<noteq> [] \<and> da_Decision (last s1) \<noteq> Retry) \<or> decisionToDatabase decided \<noteq> ar_Decision r then None
           else Some (s1 @ [\<lparr>da_Number = int (length s1) + 1, da_Result = deliveryResultFromStored r, da_Decision = decided\<rparr>]))"
  by (induction s rs rule: restore.induct) (auto simp: Record_def Let_def split: option.splits prod.splits if_splits)

lemma restored_result:
  "do_Kind (da_Result a) \<noteq> None \<Longrightarrow>
   deliveryResultFromStored (attempt_row_of (os_attempt i a st fi)) = da_Result (stored a)"
  by (auto simp: deliveryResultFromStored_def attempt_row_of_def os_attempt_def stored_def nullif_def Let_def)

lemma Decide_stored: "Decide (da_Result (stored a)) c = Decide (da_Result a) c"
  by (simp add: Decide_def stored_def)

lemma sort_key_keeps: "filter (\<lambda>y. v = f y) (sort_key f ys) = filter (\<lambda>y. v = f y) ys"
  using sort_key_stable [of f v ys] by (simp add: eq_commute [of v])

lemma sort_key_snoc_max:
  "\<forall>y\<in>set ys. f y \<le> f (x :: 'a) \<Longrightarrow> sort_key (f :: 'a \<Rightarrow> int) (ys @ [x]) = sort_key f ys @ [x]"
proof -
  assume le: "\<forall>y\<in>set ys. f y \<le> f x"
  show ?thesis
  proof (rule properties_for_sort_key)
    show "mset (sort_key f ys @ [x]) = mset (ys @ [x])" by simp
    fix k
    show "filter (\<lambda>y. f k = f y) (sort_key f ys @ [x]) = filter (\<lambda>y. f k = f y) (ys @ [x])"
      by (simp add: sort_key_keeps)
    show "sorted (map f (sort_key f ys @ [x]))" using le by (simp add: sorted_append)
  qed
qed

lemma sort_key_snoc_min:
  "\<forall>y\<in>set ys. f x < f (y :: 'a) \<Longrightarrow> sort_key (f :: 'a \<Rightarrow> int) (ys @ [x]) = x # sort_key f ys"
proof -
  assume le: "\<forall>y\<in>set ys. f x < f y"
  show ?thesis
  proof (rule properties_for_sort_key)
    show "mset (x # sort_key f ys) = mset (ys @ [x])" by simp
    have "filter (\<lambda>y. f x = f y) ys = []" using le by (auto simp: filter_empty_conv)
    then show "filter (\<lambda>y. f k = f y) (x # sort_key f ys) = filter (\<lambda>y. f k = f y) (ys @ [x])" for k
      by (simp add: sort_key_keeps)
    show "sorted (map f (x # sort_key f ys))" using le by (auto intro: less_imp_le)
  qed
qed

text \<open>A worker's memory and the tables agree on a message that is still being delivered.\<close>

definition numbers :: "nat \<Rightarrow> int list" where
  "numbers n = map (\<lambda>k. int k + 1) [0..<n]"

lemma numbers_Suc: "numbers (Suc n) = numbers n @ [int n + 1]"
  by (simp add: numbers_def)

lemma numbers_mem: "k \<in> set (numbers n) \<longleftrightarrow> 1 \<le> k \<and> k \<le> int n"
  by (auto simp: numbers_def image_iff intro: bexI [where x = "nat (k - 1)"])

definition ended :: "coordinator \<Rightarrow> rstate \<Rightarrow> bool" where
  "ended c s \<longleftrightarrow> s \<noteq> [] \<and> (da_Decision (last s) = Retry \<longrightarrow> int (length s) \<ge> co_limit c)"

definition in_step :: "coordinator \<Rightarrow> string \<Rightarrow> rstate \<Rightarrow> db \<Rightarrow> bool" where
  "in_step c i s d \<longleftrightarrow> store_inv d \<and>
     restore [] (ListDeliveryAttempts i d) = Some (map stored s) \<and>
     map ar_Number (ListDeliveryAttempts i d) = numbers (length s) \<and>
     (\<exists>m. db_messages d i = Some m \<and> Terminal (mr_Status m) = ended c s)"

lemma attempt_numbers:
  "in_step c i s d \<Longrightarrow> (i, k) \<in> set (attempt_keys d) \<longleftrightarrow> 1 \<le> k \<and> k \<le> int (length s)"
proof -
  assume a: "in_step c i s d"
  have "(i, k) \<in> set (attempt_keys d) \<longleftrightarrow> k \<in> set (map ar_Number (ListDeliveryAttempts i d))"
    by (auto simp: attempt_keys_def ListDeliveryAttempts_def image_iff)
  also have "\<dots> \<longleftrightarrow> k \<in> set (numbers (length s))" using a by (simp add: in_step_def)
  finally show ?thesis by (simp add: numbers_mem)
qed

lemma event_numbers:
  "in_step c i s d \<Longrightarrow> e \<in> set (db_events d) \<Longrightarrow> er_Message e = i \<Longrightarrow> er_Attempt e = Some k \<Longrightarrow> k \<le> int (length s)"
proof -
  assume a: "in_step c i s d" and e: "e \<in> set (db_events d)" "er_Message e = i" "er_Attempt e = Some k"
  have "(i, k) \<in> set (event_keys d)" using e by (force simp: event_keys_def)
  then have "(i, k) \<in> set (attempt_keys d)" using a by (simp add: in_step_def store_inv_def keys_inv_def)
  then show ?thesis using attempt_numbers [OF a] by simp
qed

lemma Attempt_ok:
  assumes "Attempt c done (result, derr, False) now (Some s) = ((oc, None), Some s1)"
  defines "a \<equiv> \<lparr>da_Number = int (length s) + 1, da_Result = result, da_Decision = Decide result False\<rparr>"
  shows "s1 = s @ [a]" "s \<noteq> [] \<longrightarrow> da_Decision (last s) = Retry" "\<not> ended c s"
    "oc_Status oc = StatusExhausted \<longleftrightarrow> da_Decision a = Retry \<and> ended c s1"
    "oc_Schedule oc \<noteq> None \<longleftrightarrow> da_Decision a = Retry \<and> \<not> ended c s1"
    "0 < co_limit c"
  using assms
  by (auto simp: Attempt_def Let_def Record_def Evaluate_def Latest_def ended_def a_def
      split: if_splits sum.splits decision.splits lifecycleStatus.splits option.splits)

lemma list_attempts_new:
  assumes "in_step c i s d" and "db_attempts d' = db_attempts d @ [r]" and "ar_Message r = i" and "ar_Number r = int (length s) + 1"
  shows "ListDeliveryAttempts i d' = ListDeliveryAttempts i d @ [r]"
proof -
  have "ar_Number x \<le> ar_Number r" if "x \<in> set (db_attempts d)" "ar_Message x = i" for x
  proof -
    have "(i, ar_Number x) \<in> set (attempt_keys d)" using that by (force simp: attempt_keys_def)
    then show ?thesis using attempt_numbers [OF assms(1)] assms(4) by simp
  qed
  then show ?thesis
    unfolding ListDeliveryAttempts_def by (simp add: assms(2,3) sort_key_snoc_max)
qed

lemma latest_deferral_new:
  assumes "in_step c i s d" and "db_events d' = db_events d @ [e]" and "er_Message e = i" and "er_Type e = EventDeferred"
    and "er_Attempt e = Some (int (length s) + 1)"
  shows "latest_deferral i d' = Some e"
proof -
  let ?P = "\<lambda>e. er_Message e = i \<and> er_Type e = EventDeferred \<and> er_Attempt e \<noteq> None"
  have "\<forall>x \<in> set (filter ?P (db_events d)). - the (er_Attempt e) < - the (er_Attempt x)"
    using event_numbers [OF assms(1)] assms(5) by fastforce
  then have "sort_key (\<lambda>e. - the (er_Attempt e)) (filter ?P (db_events d) @ [e]) = e # sort_key (\<lambda>e. - the (er_Attempt e)) (filter ?P (db_events d))"
    by (rule sort_key_snoc_min)
  then show ?thesis using assms(2-5) by (simp add: latest_deferral_def)
qed

lemma matching_fresh: "in_step c i s d \<Longrightarrow> na_MessageID a = i \<Longrightarrow> na_AttemptNumber a = int (length s) + 1 \<Longrightarrow>
    matchingAttemptExists a d = Some False"
  unfolding matching_new by (simp add: attempt_numbers)

lemma add_event_fresh: "in_step c i s d \<Longrightarrow> er_Message e = i \<Longrightarrow> er_Attempt e = Some (int (length s) + 1) \<Longrightarrow>
    add_event e (db_events d) = db_events d @ [e]"
  using event_numbers [of c i s d] by (fastforce simp: add_event_def list_ex_iff)

lemma repeats_fresh: "in_step c i s d \<Longrightarrow> na_MessageID a = i \<Longrightarrow> na_AttemptNumber a = int (length s) + 1 \<Longrightarrow> repeats a ex d"
  using event_numbers [of c i s d] by (fastforce simp: repeats_def list_all_iff split: option.split)

text \<open>Persisting the attempt that a coordinator has just recorded.\<close>

lemma persist_recorded:
  assumes ok: "in_step c i s d" and att: "Attempt c done (result, derr, False) at (Some s) = ((oc, None), Some s1)"
    and kind: "do_Kind result \<noteq> None" and time: "st \<le> fi" and i: "i \<noteq> []"
  shows "\<exists>m d'. db_messages d i = Some m \<and> os_Persist U Clean now i (last s1) st fi oc d = (StoreOk, d') \<and> store_inv d' \<and>
    db_attempts d' = db_attempts d @ [attempt_row_of (os_attempt i (last s1) st fi)] \<and>
    (\<exists>status t del. classifyDeliveryOutcome (os_attempt i (last s1) st fi) (oc_Status oc = StatusExhausted) = Some (status, t, del) \<and>
       (\<exists>m'. db_messages d' i = Some m' \<and> mr_Status m' = status \<and> mr_Member m' = mr_Member m) \<and>
       db_events d' = db_events d @ [\<lparr>er_Tenant = mr_Tenant m, er_Message = i, er_Type = t, er_At = now,
         er_Attempt = Some (int (length s) + 1), er_NextRetryAt = map_option pg_round (map_option sd_NextRetryAt (oc_Schedule oc))\<rparr>])"
proof -
  let ?a = "last s1" and ?ex = "oc_Status oc = StatusExhausted" and ?nx = "map_option sd_NextRetryAt (oc_Schedule oc)"
  let ?na = "os_attempt i ?a st fi"
  note A = Attempt_ok [OF att]
  have a: "da_Number ?a = int (length s) + 1" "da_Result ?a = result" "da_Decision ?a = Decide result False" by (simp_all add: A(1))
  have na: "na_MessageID ?na = i" "na_AttemptNumber ?na = int (length s) + 1" "na_Accepted ?na = do_Accepted result"
      "na_Decision ?na = decisionToDatabase (Decide result False)" "na_Kind ?na = do_Kind result" "na_StartedAt ?na = st" "na_FinishedAt ?na = fi"
    by (simp_all add: os_attempt_def Let_def a)
  have valid: "na_validate ?na" using kind time i by (simp add: na_validate_def na)
  have "classifyDeliveryOutcome ?na ?ex \<noteq> None"
    using A(4) by (auto simp: classifyDeliveryOutcome_def na Decide_def decisionToDatabase_def)
  then obtain status t del where cl: "classifyDeliveryOutcome ?na ?ex = Some (status, t, del)" by auto
  obtain m where m: "db_messages d i = Some m" "\<not> Terminal (mr_Status m)" using ok A(3) by (auto simp: in_step_def)
  have mt: "matchingAttemptExists ?na d = Some False" by (rule matching_fresh [OF ok na(1,2)])
  let ?e = "\<lparr>er_Tenant = mr_Tenant m, er_Message = i, er_Type = t, er_At = now, er_Attempt = Some (int (length s) + 1),
      er_NextRetryAt = map_option pg_round ?nx\<rparr>"
  have ev: "add_event ?e (db_events d) = db_events d @ [?e]" by (rule add_event_fresh [OF ok]) simp_all
  define d' where "d' = snd (PersistDeliveryOutcome U now ?na ?ex ?nx d)"
  have run: "PersistDeliveryOutcome U now ?na ?ex ?nx d = (None, d')"
    unfolding d'_def PersistDeliveryOutcome_def using valid cl m mt by (simp add: na)
  have fields: "db_attempts d' = db_attempts d @ [attempt_row_of ?na]" "db_events d' = db_events d @ [?e]"
      "\<exists>m'. db_messages d' i = Some m' \<and> mr_Status m' = status \<and> mr_Member m' = mr_Member m"
    unfolding d'_def PersistDeliveryOutcome_def using valid cl m mt by (simp_all add: na ev)
  have inv: "store_inv d" using ok by (simp add: in_step_def)
  have "store_inv d'"
    unfolding d'_def by (rule store_inv_persist [OF inv repeats_fresh [OF ok na(1,2)]])
  moreover have "os_Persist U Clean now i ?a st fi oc d = (StoreOk, d')" by (simp add: os_Persist_def run)
  ultimately show ?thesis using m(1) cl fields by blast
qed

lemma first_of_nonempty: "x \<in> set ys \<Longrightarrow> (case ys of [] \<Rightarrow> None | y # _ \<Rightarrow> Some y) \<noteq> None"
  by (cases ys) simp_all

lemma Load_in_step:
  assumes ok: "in_step c i s d"
  shows "\<exists>m. db_messages d i = Some m \<and> os_Load i d = Some \<lparr>du_RetryState = Some (map stored s), du_Terminal = ended c s,
     du_NextRetryAt = (if mr_Status m = MsgRetrying then Option.bind (latest_deferral i d) er_NextRetryAt else None),
     du_SendingMemberID = mr_Member m\<rparr>"
proof -
  obtain m where m: "db_messages d i = Some m" "Terminal (mr_Status m) = ended c s"
    and r: "restore [] (ListDeliveryAttempts i d) = Some (map stored s)" and inv: "status_inv d"
    using ok by (auto simp: in_step_def store_inv_def)
  have "latest_deferral i d \<noteq> None" if "mr_Status m = MsgRetrying"
  proof -
    have "list_ex (\<lambda>e. er_Message e = i \<and> er_Type e = EventDeferred \<and> er_Attempt e \<noteq> None) (db_events d)"
      using inv [unfolded status_inv_def, rule_format, OF m(1)] that by (simp add: status_ok_def)
    then obtain e where "e \<in> set (filter (\<lambda>e. er_Message e = i \<and> er_Type e = EventDeferred \<and> er_Attempt e \<noteq> None) (db_events d))"
      unfolding list_ex_iff set_filter by blast
    then have "e \<in> set (sort_key (\<lambda>e. - the (er_Attempt e))
        (filter (\<lambda>e. er_Message e = i \<and> er_Type e = EventDeferred \<and> er_Attempt e \<noteq> None) (db_events d)))"
      unfolding set_sort .
    then show ?thesis unfolding latest_deferral_def by (rule first_of_nonempty)
  qed
  then show ?thesis using m r by (auto simp: os_Load_def LoadDeliveryState_def Let_def)
qed

lemma in_step_next:
  assumes ok: "in_step c i s d" and att: "Attempt c done (result, derr, False) at (Some s) = ((oc, None), Some s1)"
    and kind: "do_Kind result \<noteq> None" and time: "st \<le> fi" and i: "i \<noteq> []"
  shows "\<exists>m d'. db_messages d i = Some m \<and> os_Persist U Clean now i (last s1) st fi oc d = (StoreOk, d') \<and> in_step c i s1 d' \<and>
    os_Load i d' = Some \<lparr>du_RetryState = Some (map stored s1), du_Terminal = ended c s1,
      du_NextRetryAt = map_option (\<lambda>x. pg_round (sd_NextRetryAt x)) (oc_Schedule oc), du_SendingMemberID = mr_Member m\<rparr>"
proof -
  define a where "a = last s1"
  note A = Attempt_ok [OF att]
  have s1: "s1 = s @ [a]" and a: "da_Number a = int (length s) + 1" "da_Result a = result" "da_Decision a = Decide result False"
    and aeq: "a = \<lparr>da_Number = int (length s) + 1, da_Result = result, da_Decision = Decide result False\<rparr>"
    by (simp_all add: a_def A(1))
  obtain m d' status t del m' where p: "db_messages d i = Some m" "os_Persist U Clean now i a st fi oc d = (StoreOk, d')" "store_inv d'"
      "db_attempts d' = db_attempts d @ [attempt_row_of (os_attempt i a st fi)]"
      "classifyDeliveryOutcome (os_attempt i a st fi) (oc_Status oc = StatusExhausted) = Some (status, t, del)"
      "db_messages d' i = Some m'" "mr_Status m' = status" "mr_Member m' = mr_Member m"
      "db_events d' = db_events d @ [\<lparr>er_Tenant = mr_Tenant m, er_Message = i, er_Type = t, er_At = now,
         er_Attempt = Some (int (length s) + 1), er_NextRetryAt = map_option pg_round (map_option sd_NextRetryAt (oc_Schedule oc))\<rparr>]"
    using persist_recorded [OF assms, of U now] unfolding a_def by blast
  let ?r = "attempt_row_of (os_attempt i a st fi)"
  have r: "ar_Message ?r = i" "ar_Number ?r = int (length s) + 1" "ar_Decision ?r = decisionToDatabase (Decide result False)"
    by (simp_all add: attempt_row_of_def os_attempt_def Let_def a)
  have ls: "ListDeliveryAttempts i d' = ListDeliveryAttempts i d @ [?r]" by (rule list_attempts_new [OF ok p(4) r(1,2)])
  have dr: "deliveryResultFromStored ?r = da_Result (stored a)" by (rule restored_result) (use kind a in simp)
  have rst: "restore [] (ListDeliveryAttempts i d') = Some (map stored s1)"
  proof -
    have "restore [] (ListDeliveryAttempts i d) = Some (map stored s)" using ok by (simp add: in_step_def)
    moreover have "s = [] \<or> da_Decision (last (map stored s)) = Retry" using A(2) by (cases "s = []") (simp_all add: last_map)
    moreover have "stored a = \<lparr>da_Number = int (length s) + 1, da_Result = da_Result (stored a), da_Decision = Decide result False\<rparr>"
      by (simp add: stored_def aeq)
    ultimately show ?thesis
      by (simp add: ls restore_append Let_def dr Decide_stored a r(3) s1)
  qed
  have st: "status = (if da_Decision a = Retry then if ended c s1 then MsgFailed else MsgRetrying
      else if da_Decision a = TerminalSuccess then MsgDelivered else MsgFailed)"
    "t = EventDeferred \<longleftrightarrow> da_Decision a = Retry \<and> \<not> ended c s1"
    using p(5) A(4) by (auto simp: aeq classifyDeliveryOutcome_def os_attempt_def Let_def a decisionToDatabase_def Decide_def split: if_splits)
  have en: "da_Decision a \<noteq> Retry \<Longrightarrow> ended c s1" by (simp add: ended_def s1)
  have fin: "Terminal (mr_Status m') = ended c s1" using st(1) en by (auto simp: p(7) Terminal_def)
  have nums: "map ar_Number (ListDeliveryAttempts i d) = numbers (length s)" using ok by (simp add: in_step_def)
  have "map ar_Number (ListDeliveryAttempts i d') = numbers (length s1)" by (simp add: ls nums r(2) s1 numbers_Suc)
  then have in': "in_step c i s1 d'" using p(3,6) rst fin by (simp add: in_step_def)
  have nx: "(if mr_Status m' = MsgRetrying then Option.bind (latest_deferral i d') er_NextRetryAt else None)
      = map_option (\<lambda>x. pg_round (sd_NextRetryAt x)) (oc_Schedule oc)"
  proof (cases "da_Decision a = Retry \<and> \<not> ended c s1")
    case True
    then have "latest_deferral i d' = Some \<lparr>er_Tenant = mr_Tenant m, er_Message = i, er_Type = t, er_At = now,
         er_Attempt = Some (int (length s) + 1), er_NextRetryAt = map_option pg_round (map_option sd_NextRetryAt (oc_Schedule oc))\<rparr>"
      by (intro latest_deferral_new [OF ok p(9)]) (simp_all add: st(2))
    then show ?thesis using True st(1) by (simp add: p(7) option.map_comp comp_def)
  next
    case False
    then have "oc_Schedule oc = None" using A(5) by (cases "oc_Schedule oc") (auto simp: aeq)
    then show ?thesis using False st(1) by (auto simp: p(7))
  qed
  show ?thesis using Load_in_step [OF in'] p(1,2,6,8) in' nx by (auto simp: a_def)
qed

lemma Evaluate_stored: "Evaluate (Some (map stored s)) limit = Evaluate (Some s) limit"
  by (cases "s = []") (simp_all add: Evaluate_def Latest_def last_map)

lemma Record_stored:
  "Record r ctx (map stored s) =
   (if s \<noteq> [] \<and> da_Decision (last s) \<noteq> Retry then (Some ErrTerminalState, map stored s)
    else (None, map stored s @ [\<lparr>da_Number = int (length s) + 1, da_Result = r, da_Decision = Decide r ctx\<rparr>]))"
  by (cases "s = []") (simp_all add: Record_def last_map)

lemma Evaluate_snoc_stored: "Evaluate (Some (map stored s @ [a])) limit = Evaluate (Some (s @ [a])) limit"
  by (simp add: Evaluate_def Latest_def)

lemma NextSchedule_snoc_stored: "NextSchedule (Some (map stored s @ [a])) p limit now = NextSchedule (Some (s @ [a])) p limit now"
  unfolding NextSchedule_def Evaluate_snoc_stored by (simp split: sum.split lifecycleStatus.split)

text \<open>The coordinator decides the same on a state that was read back.\<close>

lemma Attempt_stored: "fst (Attempt c done del now (Some (map stored s))) = fst (Attempt c done del now (Some s))"
proof -
  obtain r e ctx where del: "del = (r, e, ctx)" by (cases del)
  show ?thesis
    unfolding Attempt_def del option.case Evaluate_stored Record_stored Let_def
    by (simp add: Record_def Evaluate_snoc_stored NextSchedule_snoc_stored split: sum.split)
qed

record dcall =
  dc_restart :: bool
  dc_ctxDone :: bool
  dc_deliver :: delivered
  dc_attemptAt :: gotime
  dc_dbNow :: gotime
  dc_started :: gotime
  dc_finished :: gotime

text \<open>
  A message's delivery operations, one after the other: each is recorded in memory and persisted; a
  restart before one replaces the memory by what the tables give back. The run ends at the first
  operation that the coordinator refuses.
\<close>

fun durable_run :: "unicode \<Rightarrow> coordinator \<Rightarrow> string \<Rightarrow> dcall list \<Rightarrow> rstate \<Rightarrow> db \<Rightarrow> (outcome \<times> retry_error option) list" where
  "durable_run U c i [] s d = []"
| "durable_run U c i (x # xs) s d =
     (case (if dc_restart x then Option.bind (os_Load i d) du_RetryState else Some s) of
        None \<Rightarrow> []
      | Some s0 \<Rightarrow>
          (case Attempt c (dc_ctxDone x) (dc_deliver x) (dc_attemptAt x) (Some s0) of
             ((oc, Some e), _) \<Rightarrow> [(oc, Some e)]
           | ((oc, None), s1) \<Rightarrow>
               (oc, None) # durable_run U c i xs (the s1)
                 (snd (os_Persist U Clean (dc_dbNow x) i (last (the s1)) (dc_started x) (dc_finished x) oc d))))"

definition sane_call :: "dcall \<Rightarrow> bool" where
  "sane_call x \<longleftrightarrow> (case dc_deliver x of (r, _, ctx) \<Rightarrow> do_Kind r \<noteq> None \<and> \<not> ctx) \<and> dc_started x \<le> dc_finished x"

text \<open>Two memories that the tables cannot tell apart.\<close>

lemma stored_stored [simp]: "stored (stored a) = stored a"
  by (simp add: stored_def)

lemma in_step_map_stored: "in_step c i (map stored s) d \<longleftrightarrow> in_step c i s d"
  by (cases "s = []") (simp_all add: in_step_def ended_def last_map comp_def)

lemma Attempt_state:
  assumes "Attempt c done (r, e, False) now (Some s) = ((oc, None), s1)"
  shows "s1 = Some (s @ [\<lparr>da_Number = int (length s) + 1, da_Result = r, da_Decision = Decide r False\<rparr>])"
  using assms by (auto simp: Attempt_def Let_def Record_def split: if_splits sum.splits)

lemma durable_run_same:
  assumes "list_all sane_call xs" and "i \<noteq> []" and "in_step c i s d" and "map stored s = map stored s'"
  shows "durable_run U c i xs s d = durable_run U c i (map (\<lambda>x. x\<lparr>dc_restart := False\<rparr>) xs) s' d"
  using assms
proof (induction xs arbitrary: s s' d)
  case (Cons x xs)
  obtain r e where del: "dc_deliver x = (r, e, False)" and kind: "do_Kind r \<noteq> None" and time: "dc_started x \<le> dc_finished x"
    using Cons.prems(1) by (cases "dc_deliver x") (auto simp: sane_call_def)
  define s0 where "s0 = (if dc_restart x then map stored s else s)"
  have load: "(if dc_restart x then Option.bind (os_Load i d) du_RetryState else Some s) = Some s0"
    using Load_in_step [OF Cons.prems(3)] by (auto simp: s0_def)
  have "in_step c i s0 d" using Cons.prems(3) by (simp add: s0_def in_step_map_stored)
  then have s0: "map stored s0 = map stored s'" "in_step c i s0 d" "length s0 = length s'"
    using Cons.prems(4) map_eq_imp_length_eq [OF Cons.prems(4)] by (auto simp: s0_def comp_def)
  have s': "in_step c i s' d" using s0(1,2) by (metis in_step_map_stored)
  let ?A = "\<lambda>s. Attempt c (dc_ctxDone x) (r, e, False) (dc_attemptAt x) (Some s)"
  have same: "fst (?A s0) = fst (?A s')" by (metis Attempt_stored s0(1))
  obtain oc err s1 where A0: "?A s0 = ((oc, err), s1)" by (metis prod.exhaust)
  obtain s1' where A1: "?A s' = ((oc, err), s1')" using same A0 by (metis fst_conv prod.exhaust)
  show ?case
  proof (cases err)
    case (Some er)
    then show ?thesis using load A0 A1 by (simp add: del)
  next
    case None
    let ?a = "\<lparr>da_Number = int (length s') + 1, da_Result = r, da_Decision = Decide r False\<rparr>"
    have st: "s1 = Some (s0 @ [?a])" "s1' = Some (s' @ [?a])"
      using Attempt_state A0 A1 None s0(3) by (metis)+
    obtain d' where d': "os_Persist U Clean (dc_dbNow x) i ?a (dc_started x) (dc_finished x) oc d = (StoreOk, d')" "in_step c i (s0 @ [?a]) d'"
      using in_step_next [OF s0(2) _ kind time \<open>i \<noteq> []\<close>, of "dc_ctxDone x" e "dc_attemptAt x" oc "s0 @ [?a]" U "dc_dbNow x"] A0 None st(1) by auto
    have "durable_run U c i xs (s0 @ [?a]) d' = durable_run U c i (map (\<lambda>x. x\<lparr>dc_restart := False\<rparr>) xs) (s' @ [?a]) d'"
      by (rule Cons.IH) (use Cons.prems d'(2) s0(1) in \<open>simp_all\<close>)
    then show ?thesis using load A0 A1 None st d'(1) by (simp add: del)
  qed
qed simp

section \<open>A restart changes nothing\<close>

lemma inserted_in_step:
  assumes "store_inv d0" and "InsertMessage hash now n d0 = (Inr row, d)"
  shows "in_step c (nm_ID n) [] d" "nm_ID n \<noteq> []"
proof -
  obtain member im where f: "nm_ID n \<notin> dom (db_messages d0)" "d = (insert_rows (new_message_row member now n) now n d0)\<lparr>db_idem := im\<rparr>"
    using InsertMessage_effect [OF assms(2)] by auto
  have "store_inv d" using store_inv_insert [OF assms(1), of hash now n] assms(2) by simp
  moreover have "ar_Message r \<noteq> nm_ID n" if "r \<in> set (db_attempts d)" for r
  proof -
    have "ar_Message r \<in> dom (db_messages d0)" using that assms(1) unfolding f(2) by (auto simp: insert_rows_def store_inv_def refs_inv_def)
    then show ?thesis using f(1) by metis
  qed
  then have "ListDeliveryAttempts (nm_ID n) d = []" by (simp add: ListDeliveryAttempts_def filter_empty_conv)
  ultimately show "in_step c (nm_ID n) [] d"
    by (simp add: in_step_def numbers_def ended_def f(2) insert_rows_def new_message_row_def Terminal_def)
  show "nm_ID n \<noteq> []" using assms(2) by (auto simp: InsertMessage_def nm_validate_def split: if_splits)
qed


definition db_demo_calls :: "dcall list" where
  "db_demo_calls = [\<lparr>dc_restart = False, dc_ctxDone = False, dc_deliver = (rt_demo_out KindTransferTemporary, None, False), dc_attemptAt = 5000,
       dc_dbNow = 6000, dc_started = 4000, dc_finished = 5000\<rparr>,
     \<lparr>dc_restart = True, dc_ctxDone = False, dc_deliver = (rt_demo_out KindAccepted, None, False), dc_attemptAt = 8000,
       dc_dbNow = 9000, dc_started = 7000, dc_finished = 8000\<rparr>]"


text \<open>
  What a worker reads after it has persisted an attempt is what it had in memory: the retry state with that
  attempt appended, the terminal flag exactly when the lifecycle has ended by success, failure or
  exhaustion, the moment of the next retry (to the microsecond), and the member chosen at acceptance. The
  persisting transaction itself succeeds.
\<close>

theorem persist_then_load:
  assumes "in_step c i s d" and "Attempt c done (result, derr, False) at (Some s) = ((oc, None), Some s1)"
    and "do_Kind result \<noteq> None" and "st \<le> fi" and "i \<noteq> []"
  shows "\<exists>m d'. db_messages d i = Some m \<and> os_Persist U Clean now i (last s1) st fi oc d = (StoreOk, d') \<and> in_step c i s1 d' \<and>
    os_Load i d' = Some \<lparr>du_RetryState = Some (map stored s1), du_Terminal = ended c s1,
      du_NextRetryAt = map_option (\<lambda>x. pg_round (sd_NextRetryAt x)) (oc_Schedule oc), du_SendingMemberID = mr_Member m\<rparr>"
  by (rule in_step_next [OF assms])

lemma db_demo_attempt:
  "\<exists>oc. Attempt rt_demo_coord False (rt_demo_out KindAccepted, None, False) 8000 (Some []) =
     ((oc, None), Some [\<lparr>da_Number = 1, da_Result = rt_demo_out KindAccepted, da_Decision = TerminalSuccess\<rparr>]) \<and> oc_Schedule oc = None"
  by (simp add: Attempt_def Evaluate_def Latest_def Record_def Let_def Decide_def rt_demo_coord_def rt_demo_out_def)

theorem persist_then_load_witness:
  "\<exists>oc d'. os_Persist plain_unicode Clean 9000 ''m''
       \<lparr>da_Number = 1, da_Result = rt_demo_out KindAccepted, da_Decision = TerminalSuccess\<rparr> 7000 8000 oc db_demo1 = (StoreOk, d') \<and>
     map_option du_Terminal (os_Load ''m'' d') = Some True"
proof -
  have "nm_ID db_demo_message = ''m''" by (simp add: db_demo_message_def)
  then have "in_step rt_demo_coord ''m'' [] db_demo1"
    using inserted_in_step(1) [OF store.inv_reachable [OF db_demo_reach0] db_demo_insert] by simp
  moreover obtain oc where "Attempt rt_demo_coord False (rt_demo_out KindAccepted, None, False) 8000 (Some []) =
     ((oc, None), Some [\<lparr>da_Number = 1, da_Result = rt_demo_out KindAccepted, da_Decision = TerminalSuccess\<rparr>])"
    using db_demo_attempt by blast
  moreover have "do_Kind (rt_demo_out KindAccepted) \<noteq> None" by (simp add: rt_demo_out_def)
  ultimately show ?thesis
    using persist_then_load [of rt_demo_coord "''m''" "[]" db_demo1 False "rt_demo_out KindAccepted" None 8000 oc _ 7000 8000 plain_unicode 9000]
    by (fastforce simp: ended_def)
qed

section \<open>Two hazards\<close>

lemma restore_disagrees:
  "r \<in> set rs \<Longrightarrow> decisionToDatabase (Decide (deliveryResultFromStored r) False) \<noteq> ar_Decision r \<Longrightarrow> restore s rs = None"
  by (induction s rs rule: restore.induct) (auto simp: Record_def split: option.split)

lemma attempts_kept: "store_step U hash T d d' \<Longrightarrow> set (db_attempts d) \<subseteq> set (db_attempts d')"
proof (induction rule: store_step.induct)
  case (insert d now n)
  obtain r d' where run: "InsertMessage hash now n d = (r, d')" by fastforce
  show ?case using InsertMessage_effect [OF run] unfolding run by (auto simp: insert_rows_def)
next
  case (persist a ex d now nx)
  obtain err d' where run: "PersistDeliveryOutcome U now a ex nx d = (err, d')" by fastforce
  show ?case using Persist_effect [OF run] unfolding run by fastforce
qed (simp_all add: RecordSuppressedRecipients_def CreateSuppression_def MarkOutboxDispatched_def ClaimIdempotencyKey_def
      ReleaseIdempotencyClaim_def DeleteExpiredIdempotencyKeys_def Let_def split: option.split)

lemma attempts_kept_steps: "(store_step U hash T)\<^sup>*\<^sup>* d d' \<Longrightarrow> set (db_attempts d) \<subseteq> set (db_attempts d')"
  by (induction rule: rtranclp_induct) (use attempts_kept in blast)+

text \<open>
  (C23) An attempt that a canceled or expired context cut off is stored as a terminal failure of a temporary kind,
  which \<^verbatim>\<open>Load\<close> refuses to restore: once such an attempt is persisted, \<^verbatim>\<open>Load\<close> fails for this message
  in every later state of the tables. A worker that claims the job again (it was not acknowledged
  before the process ended) can only release it, again and again.
\<close>

theorem context_failure_never_loads:
  assumes att: "Attempt c done (result, derr, True) at (Some s) = ((oc, None), Some s1)"
    and kind: "do_Kind result = Some KindTransferTemporary" "\<not> do_Accepted result"
    and per: "os_Persist U Clean now i (last s1) st fi oc d = (StoreOk, d')" and later: "(store_step U hash T)\<^sup>*\<^sup>* d' d2"
  shows "os_Load i d2 = None"
proof -
  let ?na = "os_attempt i (last s1) st fi"
  have "da_Result (last s1) = result" "da_Decision (last s1) = TerminalFailure"
    using att kind by (auto simp: Attempt_def Let_def Record_def Decide_def split: if_splits sum.splits)
  then have na: "na_MessageID ?na = i" "na_Decision ?na = DecisionTerminalFailure" "na_Kind ?na = Some KindTransferTemporary" "\<not> na_Accepted ?na"
    using kind by (simp_all add: os_attempt_def Let_def decisionToDatabase_def)
  obtain err where run: "PersistDeliveryOutcome U now ?na (oc_Status oc = StatusExhausted) (map_option sd_NextRetryAt (oc_Schedule oc)) d = (err, d')"
      and "err = None"
    using per by (auto simp: os_Persist_def split: prod.splits option.splits db_error.splits)
  then obtain dup where dup: "matchingAttemptExists ?na d = Some dup" "db_attempts d' = (if dup then db_attempts d else db_attempts d @ [attempt_row_of ?na])"
    using Persist_effect [OF run] by auto
  obtain r where r: "r \<in> set (db_attempts d')" "ar_Message r = i" "ar_Decision r = DecisionTerminalFailure" "ar_Kind r = KindTransferTemporary" "\<not> ar_Accepted r"
  proof (cases dup)
    case True
    then obtain r where "find (\<lambda>r. ar_Message r = i \<and> ar_Number r = na_AttemptNumber ?na) (db_attempts d) = Some r"
        "ar_Decision r = DecisionTerminalFailure" "ar_Kind r = KindTransferTemporary" "\<not> ar_Accepted r"
      using dup(1) na by (auto simp: matchingAttemptExists_def split: option.splits if_splits)
    then show thesis using that [of r] dup(2) True by (auto simp: find_Some_iff)
  next
    case False
    then show thesis using that [of "attempt_row_of ?na"] dup(2) na by (simp add: attempt_row_of_def)
  qed
  have "r \<in> set (ListDeliveryAttempts i d2)"
    using r(1,2) attempts_kept_steps [OF later] by (auto simp: ListDeliveryAttempts_def)
  moreover have "decisionToDatabase (Decide (deliveryResultFromStored r) False) \<noteq> ar_Decision r"
    using r by (simp add: Decide_def deliveryResultFromStored_def decisionToDatabase_def)
  ultimately have "restore [] (ListDeliveryAttempts i d2) = None" by (rule restore_disagrees)
  then show ?thesis by (auto simp: os_Load_def LoadDeliveryState_def Let_def split: option.splits sum.splits)
qed

definition db_demo_cut :: "storeAnswer \<times> db" where
  "db_demo_cut = os_Persist plain_unicode Clean 9000 ''m'' \<lparr>da_Number = 1, da_Result = rt_demo_out KindTransferTemporary, da_Decision = TerminalFailure\<rparr>
     7000 8000 \<lparr>oc_Delivered = Some (rt_demo_out KindTransferTemporary, None, True), oc_Status = StatusFailed, oc_Schedule = None\<rparr> db_demo1"

theorem context_failure_never_loads_witness: "fst db_demo_cut = StoreOk \<and> os_Load ''m'' (snd db_demo_cut) = None"
proof -
  have "Attempt rt_demo_coord False (rt_demo_out KindTransferTemporary, None, True) 8000 (Some []) =
      ((\<lparr>oc_Delivered = Some (rt_demo_out KindTransferTemporary, None, True), oc_Status = StatusFailed, oc_Schedule = None\<rparr>, None),
       Some [\<lparr>da_Number = 1, da_Result = rt_demo_out KindTransferTemporary, da_Decision = TerminalFailure\<rparr>])"
    by (simp add: Attempt_def Evaluate_def Latest_def Record_def Let_def Decide_def rt_demo_coord_def rt_demo_out_def)
  moreover have "do_Kind (rt_demo_out KindTransferTemporary) = Some KindTransferTemporary" "\<not> do_Accepted (rt_demo_out KindTransferTemporary)"
    by (simp_all add: rt_demo_out_def)
  moreover have ok: "fst db_demo_cut = StoreOk" by code_simp
  then have "os_Persist plain_unicode Clean 9000 ''m'' (last [\<lparr>da_Number = 1, da_Result = rt_demo_out KindTransferTemporary, da_Decision = TerminalFailure\<rparr>])
     7000 8000 \<lparr>oc_Delivered = Some (rt_demo_out KindTransferTemporary, None, True), oc_Status = StatusFailed, oc_Schedule = None\<rparr> db_demo1
     = (StoreOk, snd db_demo_cut)" by (simp add: db_demo_cut_def prod_eq_iff)
  ultimately show ?thesis
    using context_failure_never_loads [OF _ _ _ _ rtranclp.rtrancl_refl [of "store_step plain_unicode (\<lambda>_. 0) 0"]] ok by blast
qed

text \<open>
  Replaying the outcome of a retryable attempt reopens a finished message: when the attempt's row is already
  stored, the check for a terminal status is passed over, and the status of a message that was
  delivered, failed or suppressed in the meantime is set back to \<^verbatim>\<open>retrying\<close>.
\<close>

theorem replay_reopens_message:
  assumes "na_validate a" and "na_Decision a = DecisionRetry" and "\<not> na_Accepted a" and "db_messages d (na_MessageID a) = Some m"
    and "Terminal (mr_Status m)" and "matchingAttemptExists a d = Some True"
  shows "\<exists>d' m'. PersistDeliveryOutcome U now a False nx d = (None, d') \<and> db_messages d' (na_MessageID a) = Some m' \<and>
    mr_Status m' = MsgRetrying \<and> \<not> Terminal (mr_Status m')"
  using assms by (simp add: PersistDeliveryOutcome_def classifyDeliveryOutcome_def Terminal_def)

definition db_demo_try :: "dkind \<Rightarrow> newDeliveryAttempt" where
  "db_demo_try k = os_attempt ''m'' \<lparr>da_Number = (if k = KindAccepted then 2 else 1), da_Result = rt_demo_out k, da_Decision = Decide (rt_demo_out k) False\<rparr> 4000 5000"

definition db_demo_delivered :: db where
  "db_demo_delivered =
     snd (PersistDeliveryOutcome plain_unicode 9000 (db_demo_try KindAccepted) False None
       (snd (PersistDeliveryOutcome plain_unicode 6000 (db_demo_try KindTransferTemporary) False (Some 8000) db_demo1)))"

theorem replay_reopens_message_witness:
  "\<exists>d' m'. PersistDeliveryOutcome plain_unicode 9500 (db_demo_try KindTransferTemporary) False (Some 8000) db_demo_delivered = (None, d') \<and>
     db_messages d' ''m'' = Some m' \<and> mr_Status m' = MsgRetrying"
proof -
  have a: "na_validate (db_demo_try KindTransferTemporary)" "na_Decision (db_demo_try KindTransferTemporary) = DecisionRetry"
      "\<not> na_Accepted (db_demo_try KindTransferTemporary)" "na_MessageID (db_demo_try KindTransferTemporary) = ''m''"
    by (simp_all add: db_demo_try_def os_attempt_def Let_def rt_demo_out_def Decide_def decisionToDatabase_def na_validate_def)
  have "map_option mr_Status (db_messages db_demo_delivered ''m'') = Some MsgDelivered" by code_simp
  then obtain m where m: "db_messages db_demo_delivered ''m'' = Some m" "Terminal (mr_Status m)" by (auto simp: Terminal_def)
  have "matchingAttemptExists (db_demo_try KindTransferTemporary) db_demo_delivered = Some True" by code_simp
  then show ?thesis using replay_reopens_message [OF a(1-3)] m a(4) by fastforce
qed

end
