(* ===== verification/Webhook.thy ===== *)
theory Webhook
  imports Durable_Delivery Redis_Queue Net_IP
begin

text \<open>
  Signed webhooks: the target policy (\<^verbatim>\<open>internal/webhook/policy.go\<close>), signatures
  (\<^verbatim>\<open>signing.go\<close>), the HTTP outcome and its retry schedule (\<^verbatim>\<open>client.go\<close>), the delivery worker
  (\<^verbatim>\<open>runtime.go\<close>) and the tables behind it (\<^verbatim>\<open>internal/database/webhook_*.go\<close>). The URL parser is a
  parameter, HMAC-SHA256 is an argument, and so are the answers of DNS and of the network.
\<close>

section \<open>Target policy\<close>

type_synonym zoned = "ipaddr \<times> string"

definition zUnmap :: "zoned \<Rightarrow> zoned" where
  "zUnmap z = (case z of (a, zn) \<Rightarrow> if Is4In6 a then (Unmap a, []) else (a, zn))"

text \<open>The predicates of \<^verbatim>\<open>netip.Addr\<close> on unmapped addresses; a comparison of addresses compares the zones too.\<close>

definition IsUnspecified :: "zoned \<Rightarrow> bool" where
  "IsUnspecified z \<longleftrightarrow> z = (IP4 [0, 0, 0, 0], []) \<or> z = (IP6 (replicate 8 0), [])"

definition IsMulticast :: "ipaddr \<Rightarrow> bool" where
  "IsMulticast a = (case a of IP4 bs \<Rightarrow> hd bs div 16 = 14 | IP6 gs \<Rightarrow> hd gs div 256 = 255)"

definition IsLoopback :: "ipaddr \<Rightarrow> bool" where
  "IsLoopback a = (case a of IP4 bs \<Rightarrow> hd bs = 127 | IP6 gs \<Rightarrow> gs = [0, 0, 0, 0, 0, 0, 0, 1])"

definition IsLinkLocalUnicast :: "ipaddr \<Rightarrow> bool" where
  "IsLinkLocalUnicast a = (case a of IP4 bs \<Rightarrow> hd bs = 169 \<and> bs ! 1 = 254 | IP6 gs \<Rightarrow> hd gs div 64 = 1018)"

definition IsPrivate :: "ipaddr \<Rightarrow> bool" where
  "IsPrivate a = (case a of
      IP4 bs \<Rightarrow> hd bs = 10 \<or> (hd bs = 172 \<and> bs ! 1 div 16 = 1) \<or> (hd bs = 192 \<and> bs ! 1 = 168)
    | IP6 gs \<Rightarrow> hd gs div 512 = 126)"

definition zoned_IsGlobalUnicast :: "zoned \<Rightarrow> bool" where
  "zoned_IsGlobalUnicast z \<longleftrightarrow>
     z \<noteq> (IP4 [0, 0, 0, 0], []) \<and> z \<noteq> (IP4 [255, 255, 255, 255], []) \<and> z \<noteq> (IP6 (replicate 8 0), []) \<and>
     \<not> IsLoopback (fst z) \<and> \<not> IsMulticast (fst z) \<and> \<not> IsLinkLocalUnicast (fst z)"

definition prohibited :: "(ipaddr \<times> nat) list" where
  "prohibited =
     [(IP4 [0, 0, 0, 0], 8), (IP4 [100, 64, 0, 0], 10), (IP4 [192, 0, 0, 0], 24), (IP4 [192, 0, 2, 0], 24), (IP4 [198, 18, 0, 0], 15),
      (IP4 [198, 51, 100, 0], 24), (IP4 [203, 0, 113, 0], 24), (IP4 [240, 0, 0, 0], 4), (IP6 [0x2001, 0xdb8, 0, 0, 0, 0, 0, 0], 32)]"

text \<open>A prefix contains no address with a zone.\<close>

definition prohibitedPrefixes_contain :: "zoned \<Rightarrow> bool" where
  "prohibitedPrefixes_contain z \<longleftrightarrow>
     list_ex (\<lambda>(a, n). snd z = [] \<and> Is4 a = Is4 (fst z) \<and> take n (ip_bits (fst z)) = take n (ip_bits a)) prohibited"

record urlPolicy =
  up_AllowHTTP :: bool
  up_AllowPrivate :: bool

definition up_allowed :: "urlPolicy \<Rightarrow> zoned \<Rightarrow> bool" where
  "up_allowed p z =
     (if IsUnspecified z \<or> IsMulticast (fst z) then False
      else if up_AllowPrivate p then True
      else if \<not> zoned_IsGlobalUnicast z \<or> IsPrivate (fst z) \<or> IsLoopback (fst z) \<or> IsLinkLocalUnicast (fst z) then False
      else \<not> prohibitedPrefixes_contain z)"

datatype url_error = UErrControl | UErrNotAbsolute | UErrScheme | UErrUserinfo | UErrHostname | UErrPort
  | UErrNotPublic | UErrNoSuchHost | UErrDNSUnavailable | UErrNoAddresses | UErrDialAddress | UErrDial

datatype dnsAnswer = DNSNoSuchHost | DNSFailed | DNSAddrs "zoned list"

definition resolveAndValidate :: "urlPolicy \<Rightarrow> (string \<Rightarrow> dnsAnswer) \<Rightarrow> string \<Rightarrow> url_error + zoned list" where
  "resolveAndValidate p resolver host =
     (case ParseAddr host of
        Some lit \<Rightarrow>
          let z = zUnmap lit in if \<not> up_allowed p z then Inl UErrNotPublic else Inr [z]
      | None \<Rightarrow>
          (case resolver host of
             DNSNoSuchHost \<Rightarrow> Inl UErrNoSuchHost
           | DNSFailed \<Rightarrow> Inl UErrDNSUnavailable
           | DNSAddrs zs \<Rightarrow>
               if zs = [] then Inl UErrNoAddresses
               else if list_all (up_allowed p) (map zUnmap zs) then Inr (map zUnmap zs) else Inl UErrNotPublic))"

record url =
  url_Scheme :: string
  url_Opaque :: string
  url_User :: bool
  url_Host :: string
  url_Hostname :: string
  url_Port :: string
  url_Fragment :: string
  url_String :: string

definition up_Validate :: "urlPolicy \<Rightarrow> (string \<Rightarrow> url option) \<Rightarrow> (string \<Rightarrow> dnsAnswer) \<Rightarrow> string \<Rightarrow> url_error + string" where
  "up_Validate p parse resolver raw =
     (if raw = [] \<or> ContainsAny raw [CHR 0x0D, CHR 0x0A, CHR 0x00] then Inl UErrControl
      else case parse raw of
          None \<Rightarrow> Inl UErrNotAbsolute
        | Some u \<Rightarrow>
            if url_Opaque u \<noteq> [] \<or> url_Host u = [] \<or> url_Hostname u = [] then Inl UErrNotAbsolute
            else if url_Scheme u \<noteq> ''https'' \<and> \<not> (up_AllowHTTP p \<and> url_Scheme u = ''http'') then Inl UErrScheme
            else if url_User u \<or> url_Fragment u \<noteq> [] then Inl UErrUserinfo
            else if list_ex (\<lambda>c. byte c > 127 \<or> byte c < 0x21) (url_Hostname u) then Inl UErrHostname
            else if url_Port u \<noteq> [] \<and> (case ParseInt64 (url_Port u) of None \<Rightarrow> True | Some n \<Rightarrow> n < 1 \<or> n > 65535) then Inl UErrPort
            else case resolveAndValidate p resolver (url_Hostname u) of Inl e \<Rightarrow> Inl e | Inr _ \<Rightarrow> Inr (url_String u))"

text \<open>
  Dialing: the addresses that are tried, in order, and the one that answered. \<open>host\<close> is the host
  of the address, \<open>answers\<close> tells which dial succeeds.
\<close>

fun dial_first :: "(zoned \<Rightarrow> bool) \<Rightarrow> zoned list \<Rightarrow> zoned list \<times> zoned option" where
  "dial_first answers [] = ([], None)"
| "dial_first answers (z # zs) =
     (if answers z then ([z], Some z) else case dial_first answers zs of (tried, r) \<Rightarrow> (z # tried, r))"

definition up_DialContext ::
  "urlPolicy \<Rightarrow> (string \<Rightarrow> dnsAnswer) \<Rightarrow> (zoned \<Rightarrow> bool) \<Rightarrow> string option \<Rightarrow> zoned list \<times> (url_error + zoned)" where
  "up_DialContext p resolver answers host =
     (case host of
        None \<Rightarrow> ([], Inl UErrDialAddress)
      | Some h \<Rightarrow>
          (case resolveAndValidate p resolver h of
             Inl e \<Rightarrow> ([], Inl e)
           | Inr zs \<Rightarrow> (case dial_first answers zs of (tried, r) \<Rightarrow> (tried, case r of None \<Rightarrow> Inl UErrDial | Some z \<Rightarrow> Inr z))))"

section \<open>Signatures\<close>

definition SignatureTolerance :: duration where "SignatureTolerance = 5 * minute"

definition hex_bytes :: "string \<Rightarrow> string" where
  "hex_bytes s = concat (map (\<lambda>c. [hex_char (byte c div 16), hex_char (byte c mod 16)]) s)"

fun hex_decode :: "string \<Rightarrow> string option" where
  "hex_decode [] = Some []"
| "hex_decode [_] = None"
| "hex_decode (a # b # s) =
     (if is_hex a \<and> is_hex b then map_option ((#) (char_of (hex_digit_val a * 16 + hex_digit_val b))) (hex_decode s) else None)"

definition Signature :: "(string \<Rightarrow> string \<Rightarrow> string) \<Rightarrow> string \<Rightarrow> string \<Rightarrow> string \<Rightarrow> string" where
  "Signature hmac secret timestamp body = ''v1='' @ hex_bytes (hmac secret (timestamp @ ''.'' @ body))"

datatype sig_error = SigBadTimestamp | SigStale | SigMalformed | SigMismatch

definition VerifySignature ::
  "(string \<Rightarrow> string \<Rightarrow> string) \<Rightarrow> string \<Rightarrow> string \<Rightarrow> string \<Rightarrow> string \<Rightarrow> gotime \<Rightarrow> duration \<Rightarrow> sig_error option" where
  "VerifySignature hmac secret timestamp signature body now tolerance =
     (case ParseInt64 timestamp of
        None \<Rightarrow> Some SigBadTimestamp
      | Some seconds \<Rightarrow>
          if tolerance \<le> 0 then Some SigBadTimestamp
          else if seconds * second < now - tolerance \<or> seconds * second > now + tolerance then Some SigStale
          else if \<not> HasPrefix signature ''v1='' then Some SigMalformed
          else case hex_decode (drop 3 signature) of
              None \<Rightarrow> Some SigMalformed
            | Some provided \<Rightarrow>
                if hex_decode (drop 3 (Signature hmac secret timestamp body)) \<noteq> Some provided then Some SigMismatch else None)"

section \<open>Event types\<close>

definition PublicEventType :: "event_type \<Rightarrow> string option" where
  "PublicEventType e = (case e of
      EventQueued \<Rightarrow> Some ''email.queued'' | EventDelivered \<Rightarrow> Some ''email.delivered'' | EventDeferred \<Rightarrow> Some ''email.delivery_delayed''
    | EventFailed \<Rightarrow> Some ''email.failed'' | EventBounced \<Rightarrow> Some ''email.bounced'' | EventSuppressed \<Rightarrow> Some ''email.suppressed''
    | EventComplained \<Rightarrow> Some ''email.complained'' | EventOpened \<Rightarrow> Some ''email.opened'' | EventClicked \<Rightarrow> Some ''email.clicked''
    | EventDeliveryAttempted \<Rightarrow> None)"

definition EventTypes :: "string list" where
  "EventTypes = [''email.queued'', ''email.delivered'', ''email.delivery_delayed'', ''email.failed'', ''email.bounced'',
     ''email.suppressed'', ''email.complained'']"

fun nub_known :: "string set \<Rightarrow> string list \<Rightarrow> string list option" where
  "nub_known seen [] = Some []"
| "nub_known seen (v # vs) =
     (if v \<notin> set EventTypes then None
      else if v \<in> seen then nub_known seen vs
      else map_option ((#) v) (nub_known (insert v seen) vs))"

definition normalizeEventTypes :: "string list \<Rightarrow> string list option" where
  "normalizeEventTypes vs = (if vs = [] then None else map_option sort (nub_known {} vs))"

definition publicTypeStatus :: "string \<Rightarrow> string" where
  "publicTypeStatus t = (if t = ''email.delivery_delayed'' then ''retrying'' else drop 6 t)"

section \<open>The outcome of an attempt\<close>

definition MaxAttempts :: int where "MaxAttempts = 8"
definition maxRetryAfter :: duration where "maxRetryAfter = hour"

function double_to_hour :: "nat \<Rightarrow> int \<Rightarrow> duration \<Rightarrow> duration" where
  "double_to_hour n attempt delay = (if int n < attempt \<and> delay < hour then double_to_hour (Suc n) attempt (delay * 2) else delay)"
  by pat_completeness auto
termination by (relation "measure (\<lambda>(n, attempt, _). nat (attempt - int n))") auto

declare double_to_hour.simps [simp del]

definition retryDelay :: "int \<Rightarrow> nat \<Rightarrow> duration" where
  "retryDelay attempt entropy =
     (let delay = double_to_hour 1 (if attempt < 1 then 1 else attempt) minute;
          capped = (if delay > hour then hour else delay);
          half = capped div 2
      in half + int (entropy mod nat (half + 1)))"

text \<open>\<open>http_date\<close> parses the date forms of HTTP; \<^verbatim>\<open>Atoi\<close> and the product are 64 bits wide.\<close>

definition parseRetryAfter :: "(string \<Rightarrow> gotime option) \<Rightarrow> string \<Rightarrow> gotime \<Rightarrow> duration option" where
  "parseRetryAfter http_date value now =
     (if value = [] then None
      else case ParseInt64 value of
          Some seconds \<Rightarrow>
            if seconds \<ge> 0 then Some (min (wrap64 (seconds * second)) maxRetryAfter)
            else (case http_date value of None \<Rightarrow> None
                  | Some t \<Rightarrow> if \<not> t > now then None else Some (min (time_Sub t now) maxRetryAfter))
        | None \<Rightarrow>
            (case http_date value of None \<Rightarrow> None
             | Some t \<Rightarrow> if \<not> t > now then None else Some (min (time_Sub t now) maxRetryAfter)))"

datatype wh_status = Succeeded | Retrying | Failed

record attemptOutcome =
  ao_Status :: wh_status
  ao_ResponseCode :: "int option"
  ao_ErrorCategory :: string
  ao_NextRetryAt :: "gotime option"

definition retryOrFail ::
  "(string \<Rightarrow> gotime option) \<Rightarrow> nat \<Rightarrow> gotime \<Rightarrow> int \<Rightarrow> string \<Rightarrow> int option \<Rightarrow> string \<Rightarrow> attemptOutcome" where
  "retryOrFail http_date entropy now attempt category code retryAfter =
     (if attempt \<ge> MaxAttempts then \<lparr>ao_Status = Failed, ao_ResponseCode = code, ao_ErrorCategory = category, ao_NextRetryAt = None\<rparr>
      else
        let d0 = retryDelay attempt entropy;
            d1 = (case parseRetryAfter http_date retryAfter now of Some sd \<Rightarrow> if sd > d0 then sd else d0 | None \<Rightarrow> d0);
            d2 = (if d1 > maxRetryAfter then maxRetryAfter else d1)
        in \<lparr>ao_Status = Retrying, ao_ResponseCode = code, ao_ErrorCategory = category, ao_NextRetryAt = Some (now + d2)\<rparr>)"

text \<open>What the request came to: not built, no response, or a status code with its \<^verbatim>\<open>Retry-After\<close>.\<close>

datatype httpResult = NotBuilt | NoResponse | Response int string

definition wc_Deliver :: "(string \<Rightarrow> gotime option) \<Rightarrow> nat \<Rightarrow> gotime \<Rightarrow> int \<Rightarrow> httpResult \<Rightarrow> attemptOutcome" where
  "wc_Deliver http_date entropy now attempt r =
     (case r of
        NotBuilt \<Rightarrow> retryOrFail http_date entropy now attempt ''request_build'' None []
      | NoResponse \<Rightarrow> retryOrFail http_date entropy now attempt ''network'' None []
      | Response code ra \<Rightarrow>
          if 200 \<le> code \<and> code < 300 then \<lparr>ao_Status = Succeeded, ao_ResponseCode = Some code, ao_ErrorCategory = [], ao_NextRetryAt = None\<rparr>
          else if code = 408 \<or> code = 429 \<or> code \<ge> 500 then retryOrFail http_date entropy now attempt ''http_retryable'' (Some code) ra
          else \<lparr>ao_Status = Failed, ao_ResponseCode = Some code, ao_ErrorCategory = ''http_terminal'', ao_NextRetryAt = None\<rparr>)"

section \<open>The request\<close>

text \<open>Values of the event's data: texts, numbers, and metadata as it was stored.\<close>

datatype jval = JStr string | JInt int | JMeta string

record eventEnvelope =
  ep_ID :: string
  ep_Type :: string
  ep_APIVersion :: string
  ep_CreatedAt :: gotime
  ep_Data :: "(string \<times> jval) list"

definition APIVersion :: string where "APIVersion = ''2026-09-01''"

definition meta_field :: "(string \<rightharpoonup> string) \<Rightarrow> string \<Rightarrow> (string \<times> jval) list" where
  "meta_field meta k = (case meta k of None \<Rightarrow> [] | Some v \<Rightarrow> [(k, JMeta v)])"

definition payloadFor :: "string \<Rightarrow> string \<Rightarrow> event_type \<Rightarrow> gotime \<Rightarrow> int option \<Rightarrow> (string \<rightharpoonup> string) \<Rightarrow> eventEnvelope option" where
  "payloadFor eid messageID et at attempt meta =
     (case PublicEventType et of
        None \<Rightarrow> None
      | Some t \<Rightarrow>
          Some \<lparr>ep_ID = eid, ep_Type = t, ep_APIVersion = APIVersion, ep_CreatedAt = at,
            ep_Data = [(''email_id'', JStr messageID), (''status'', JStr (publicTypeStatus t))]
              @ (case attempt of None \<Rightarrow> [] | Some n \<Rightarrow> [(''attempt_number'', JInt n)])
              @ (if t = ''email.delivery_delayed'' then meta_field meta ''next_retry_at'' else [])
              @ (if t = ''email.bounced'' \<or> t = ''email.complained'' then meta_field meta ''recipient'' @ meta_field meta ''enhanced_status'' else [])\<rparr>)"

text \<open>\<open>marshal\<close> is the JSON encoder; the clock is read as whole seconds.\<close>

definition BuildRequest ::
  "(string \<Rightarrow> string \<Rightarrow> string) \<Rightarrow> (eventEnvelope \<Rightarrow> string) \<Rightarrow> gotime \<Rightarrow> string \<Rightarrow> string \<Rightarrow> eventEnvelope option \<Rightarrow> ((string \<times> string) list \<times> string) option" where
  "BuildRequest hmac marshal now deliveryID secret payload =
     (case payload of
        None \<Rightarrow> None
      | Some p \<Rightarrow>
          let body = marshal p; timestamp = int_dec (now div second)
          in Some ([(''Content-Type'', ''application/json''), (''User-Agent'', ''MailX-Webhooks/1''), (''MailX-Webhook-Id'', deliveryID),
                    (''MailX-Event-Id'', ep_ID p), (''MailX-Webhook-Timestamp'', timestamp),
                    (''MailX-Webhook-Signature'', Signature hmac secret timestamp body)], body))"

section \<open>Only public addresses are dialed\<close>

lemma bits_of_append:
  assumes "b < 2 ^ v"
  shows "bits_of w a @ bits_of v b = bits_of (w + v) (a * 2 ^ v + b)"
proof (rule nth_equalityI)
  show "length (bits_of w a @ bits_of v b) = length (bits_of (w + v) (a * 2 ^ v + b))" by simp
  fix i
  assume i: "i < length (bits_of w a @ bits_of v b)"
  show "(bits_of w a @ bits_of v b) ! i = bits_of (w + v) (a * 2 ^ v + b) ! i"
  proof (cases "i < w")
    case True
    have e: "w + v - 1 - i = v + (w - 1 - i)" using True by simp
    have "(a * 2 ^ v + b) div 2 ^ (w + v - 1 - i) = (a * 2 ^ v + b) div 2 ^ v div 2 ^ (w - 1 - i)"
      unfolding e power_add div_mult2_eq ..
    also have "(a * 2 ^ v + b) div 2 ^ v = a" using assms by simp
    finally show ?thesis using True by (simp add: bits_of_def nth_append)
  next
    case False
    define k where "k = v - 1 - (i - w)"
    have k: "w + v - Suc i = k" "v + w - Suc i = k" "v - Suc (i - w) = k" "k < v" using False i by (simp_all add: k_def)
    have "a * 2 ^ v + b = (a * 2 ^ (v - k)) * 2 ^ k + b" using k(4) by (simp add: power_add [symmetric])
    then have "(a * 2 ^ v + b) div 2 ^ k = a * 2 ^ (v - k) + b div 2 ^ k" by (simp only: div_mult_self3) simp
    moreover have "even (a * 2 ^ (v - k))" using k(4) by simp
    ultimately show ?thesis using False i k by (simp add: bits_of_def nth_append)
  qed
qed

definition ip4_val :: "nat list \<Rightarrow> nat" where
  "ip4_val bs = ((bs ! 0 * 2 ^ 8 + bs ! 1) * 2 ^ 8 + bs ! 2) * 2 ^ 8 + bs ! 3"

lemma ip4_cases: "ip_wf (IP4 bs) \<Longrightarrow> \<exists>a b c d. bs = [a, b, c, d] \<and> a < 256 \<and> b < 256 \<and> c < 256 \<and> d < 256"
  by (auto simp: ip_wf_def length_Suc_conv numeral_eq_Suc)

lemma ip4_bits: "ip_wf (IP4 bs) \<Longrightarrow> ip_bits (IP4 bs) = bits_of 32 (ip4_val bs)"
proof -
  assume "ip_wf (IP4 bs)"
  then obtain a b c d where bs: "bs = [a, b, c, d]" "a < 2 ^ 8" "b < 2 ^ 8" "c < 2 ^ 8" "d < 2 ^ 8" using ip4_cases by force
  have "((bits_of 8 a @ bits_of 8 b) @ bits_of 8 c) @ bits_of 8 d = bits_of 32 (((a * 2 ^ 8 + b) * 2 ^ 8 + c) * 2 ^ 8 + d)"
    unfolding bits_of_append [OF bs(3)] bits_of_append [OF bs(4)] bits_of_append [OF bs(5)] by simp
  then show ?thesis by (simp add: ip_bits_def bs(1) ip4_val_def)
qed

lemma ip4_val_less: "ip_wf (IP4 bs) \<Longrightarrow> ip4_val bs < 2 ^ 32"
  using ip4_cases by (fastforce simp: ip4_val_def)

lemma bits_of_nth: "i < w \<Longrightarrow> bits_of w n ! i = bit n (w - 1 - i)"
  by (simp add: bits_of_def bit_iff_odd)

lemma take_bits_eq:
  assumes "n \<le> w" and "x div 2 ^ (w - n) = y div 2 ^ (w - n)"
  shows "take n (bits_of w x) = take n (bits_of w y)"
proof (rule nth_equalityI)
  fix i
  assume "i < length (take n (bits_of w x))"
  then have i: "i < n" "i < w" by simp_all
  have eq: "bit z (w - 1 - i) = bit (z div 2 ^ (w - n)) (n - 1 - i)" for z :: nat
    using i assms(1) by (simp flip: drop_bit_eq_div add: bit_drop_bit_eq)
  show "take n (bits_of w x) ! i = take n (bits_of w y) ! i"
    using i by (simp only: nth_take bits_of_nth eq assms(2))
qed simp

text \<open>The special-purpose blocks of IPv4, with the number of leading bits that make one.\<close>

definition special4 :: "(nat list \<times> nat) list" where
  "special4 =
     [([0, 0, 0, 0], 8), ([10, 0, 0, 0], 8), ([100, 64, 0, 0], 10), ([127, 0, 0, 0], 8), ([169, 254, 0, 0], 16), ([172, 16, 0, 0], 12),
      ([192, 0, 0, 0], 24), ([192, 0, 2, 0], 24), ([192, 168, 0, 0], 16), ([198, 18, 0, 0], 15), ([198, 51, 100, 0], 24),
      ([203, 0, 113, 0], 24), ([224, 0, 0, 0], 4), ([240, 0, 0, 0], 4)]"

definition in_block4 :: "nat list \<times> nat \<Rightarrow> nat list \<Rightarrow> bool" where
  "in_block4 b bs \<longleftrightarrow> ip4_val bs div 2 ^ (32 - snd b) = ip4_val (fst b) div 2 ^ (32 - snd b)"

definition public_target :: "zoned \<Rightarrow> bool" where
  "public_target z = (case z of
      (IP4 bs, _) \<Rightarrow> list_all (\<lambda>b. \<not> in_block4 b bs) special4
    | (IP6 gs, zn) \<Rightarrow> hd gs div 256 \<noteq> 0xff \<and> hd gs div 64 \<noteq> 0x3fa \<and> hd gs div 512 \<noteq> 0x7e \<and> gs \<noteq> [0, 0, 0, 0, 0, 0, 0, 1] \<and> \<not> Is4In6 (IP6 gs) \<and>
        (zn = [] \<longrightarrow> gs \<noteq> replicate 8 0 \<and> take 2 gs \<noteq> [0x2001, 0xdb8]))"

lemma prohibited4:
  assumes "\<not> prohibitedPrefixes_contain (IP4 bs, [])" and "ip_wf (IP4 bs)" and "(IP4 cs, n) \<in> set prohibited"
  shows "\<not> in_block4 (cs, n) bs"
proof
  assume b: "in_block4 (cs, n) bs"
  have wf: "ip_wf (IP4 cs)" "n \<le> 32" using assms(3) by (auto simp: prohibited_def ip_wf_def)
  have "take n (ip_bits (IP4 bs)) = take n (ip_bits (IP4 cs))"
    unfolding ip4_bits [OF assms(2)] ip4_bits [OF wf(1)] by (rule take_bits_eq [OF wf(2)]) (use b in \<open>simp add: in_block4_def\<close>)
  then have "prohibitedPrefixes_contain (IP4 bs, [])"
    unfolding prohibitedPrefixes_contain_def list_ex_iff using assms(3) by (intro bexI [where x = "(IP4 cs, n)"]) (simp_all add: Is4_def)
  then show False using assms(1) by simp
qed

lemma block4_byte:
  assumes "ip_wf (IP4 bs)"
  shows "in_block4 ([a, 0, 0, 0], 8) bs \<longleftrightarrow> hd bs = a"
    "b < 256 \<Longrightarrow> in_block4 ([a, b, 0, 0], 16) bs \<longleftrightarrow> hd bs = a \<and> bs ! 1 = b"
    "in_block4 ([172, 16, 0, 0], 12) bs \<longleftrightarrow> hd bs = 172 \<and> bs ! 1 div 16 = 1"
    "in_block4 ([224, 0, 0, 0], 4) bs \<longleftrightarrow> hd bs div 16 = 14"
proof -
  obtain w x y z where bs: "bs = [w, x, y, z]" "w < 256" "x < 256" "y < 256" "z < 256" using ip4_cases [OF assms] by blast
  have v: "ip4_val bs = w * 16777216 + x * 65536 + y * 256 + z" by (simp add: bs(1) ip4_val_def)
  have d: "ip4_val bs div 2 ^ 24 = w" "ip4_val bs div 2 ^ 16 = w * 256 + x" unfolding v using bs by simp_all
  have "ip4_val bs div 2 ^ 20 = ip4_val bs div 2 ^ 16 div 16" "ip4_val bs div 2 ^ 28 = ip4_val bs div 2 ^ 24 div 16"
    by (simp_all flip: div_mult2_eq)
  then have e: "ip4_val bs div 2 ^ 20 = w * 16 + x div 16" "ip4_val bs div 2 ^ 28 = w div 16" unfolding d by simp_all
  show "in_block4 ([a, 0, 0, 0], 8) bs \<longleftrightarrow> hd bs = a"
    using d(1) by (simp add: in_block4_def ip4_val_def [of "[a, 0, 0, 0]"] bs(1))
  show "in_block4 ([a, b, 0, 0], 16) bs \<longleftrightarrow> hd bs = a \<and> bs ! 1 = b" if "b < 256"
  proof -
    have "(w * 256 + x) div 256 = w" "(w * 256 + x) mod 256 = x" "(256 * a + b) div 256 = a" "(256 * a + b) mod 256 = b"
      using bs(3) that by simp_all
    then have "w * 256 + x = 256 * a + b \<Longrightarrow> w = a \<and> x = b" by metis
    then have "w * 256 + x = 256 * a + b \<longleftrightarrow> w = a \<and> x = b" by auto
    then show ?thesis using d(2) by (simp add: in_block4_def ip4_val_def [of "[a, b, 0, 0]"] bs(1))
  qed
  show "in_block4 ([172, 16, 0, 0], 12) bs \<longleftrightarrow> hd bs = 172 \<and> bs ! 1 div 16 = 1"
  proof -
    have "x div 16 < 16" by (rule less_mult_imp_div_less) (use bs(3) in simp)
    then have "(w * 16 + x div 16) div 16 = w" "(w * 16 + x div 16) mod 16 = x div 16" by simp_all
    then have "w * 16 + x div 16 = 2753 \<Longrightarrow> w = 2753 div 16 \<and> x div 16 = 2753 mod 16" by metis
    then have "w * 16 + x div 16 = 2753 \<longleftrightarrow> w = 172 \<and> x div 16 = 1" by auto
    then show ?thesis using e(1) by (simp add: in_block4_def ip4_val_def [of "[172, 16, 0, 0]"] bs(1))
  qed
  show "in_block4 ([224, 0, 0, 0], 4) bs \<longleftrightarrow> hd bs div 16 = 14"
    using e(2) by (simp add: in_block4_def ip4_val_def [of "[224, 0, 0, 0]"] bs(1))
qed

lemma allowed_public:
  assumes ok: "up_allowed p z" "\<not> up_AllowPrivate p" and wf: "ip_wf (fst z)" and un: "\<not> Is4In6 (fst z)" and zn: "Is4 (fst z) \<longrightarrow> snd z = []"
  shows "public_target z"
proof (cases "fst z")
  case (IP4 bs)
  then have z: "z = (IP4 bs, [])" using zn by (cases z) (simp add: Is4_def)
  have w: "ip_wf (IP4 bs)" using wf IP4 by simp
  have a: "\<not> IsMulticast (IP4 bs)" "\<not> IsPrivate (IP4 bs)" "\<not> IsLoopback (IP4 bs)" "\<not> IsLinkLocalUnicast (IP4 bs)"
      and np: "\<not> prohibitedPrefixes_contain (IP4 bs, [])"
    using ok by (auto simp: up_allowed_def z split: if_splits)
  note P = prohibited4 [OF np w]
  have "\<not> in_block4 ([0, 0, 0, 0], 8) bs" "\<not> in_block4 ([100, 64, 0, 0], 10) bs" "\<not> in_block4 ([192, 0, 0, 0], 24) bs"
      "\<not> in_block4 ([192, 0, 2, 0], 24) bs" "\<not> in_block4 ([198, 18, 0, 0], 15) bs" "\<not> in_block4 ([198, 51, 100, 0], 24) bs"
      "\<not> in_block4 ([203, 0, 113, 0], 24) bs" "\<not> in_block4 ([240, 0, 0, 0], 4) bs"
    by (rule P, simp add: prohibited_def)+
  moreover have "\<not> in_block4 ([10, 0, 0, 0], 8) bs" "\<not> in_block4 ([127, 0, 0, 0], 8) bs" "\<not> in_block4 ([169, 254, 0, 0], 16) bs"
      "\<not> in_block4 ([172, 16, 0, 0], 12) bs" "\<not> in_block4 ([192, 168, 0, 0], 16) bs" "\<not> in_block4 ([224, 0, 0, 0], 4) bs"
    using a by (simp_all add: block4_byte [OF w] IsMulticast_def IsPrivate_def IsLoopback_def IsLinkLocalUnicast_def)
  ultimately have "list_all (\<lambda>b. \<not> in_block4 b bs) special4" by (simp add: special4_def)
  then show ?thesis by (simp add: z public_target_def)
next
  case (IP6 gs)
  obtain zn where z: "z = (IP6 gs, zn)" using IP6 by (cases z) simp
  have a: "\<not> IsMulticast (IP6 gs)" "\<not> IsPrivate (IP6 gs)" "\<not> IsLoopback (IP6 gs)" "\<not> IsLinkLocalUnicast (IP6 gs)" "\<not> IsUnspecified z"
      and np: "\<not> prohibitedPrefixes_contain (IP6 gs, zn)"
    using ok by (auto simp: up_allowed_def z split: if_splits)
  have "take 2 gs \<noteq> [0x2001, 0xdb8]" if "zn = []"
  proof
    assume t: "take 2 gs = [0x2001, 0xdb8]"
    then obtain rest where "gs = 0x2001 # 0xdb8 # rest" by (metis append_Cons append_Nil append_take_drop_id)
    then have "take 32 (ip_bits (IP6 gs)) = take 32 (ip_bits (IP6 [0x2001, 0xdb8, 0, 0, 0, 0, 0, 0]))"
      by (simp add: ip_bits_def)
    then have "prohibitedPrefixes_contain (IP6 gs, zn)"
      unfolding prohibitedPrefixes_contain_def list_ex_iff prohibited_def using that by (simp add: Is4_def)
    then show False using np by simp
  qed
  then show ?thesis using a un by (auto simp: z public_target_def IsMulticast_def IsPrivate_def IsLoopback_def IsLinkLocalUnicast_def IsUnspecified_def)
qed

lemma zUnmap_facts: "ip_wf (fst z) \<Longrightarrow> ip_wf (fst (zUnmap z)) \<and> \<not> Is4In6 (fst (zUnmap z))"
  using Unmap_wf [of "fst z"] by (auto simp: zUnmap_def split: prod.splits)

lemma ParseAddr_zone4: "ParseAddr s = Some (a, zn) \<Longrightarrow> Is4 a \<Longrightarrow> zn = []"
  by (auto simp: ParseAddr_def Is4_def split: option.splits if_splits ipaddr.splits)

lemma zUnmap_zone4: "(Is4 (fst z) \<longrightarrow> snd z = []) \<Longrightarrow> Is4 (fst (zUnmap z)) \<longrightarrow> snd (zUnmap z) = []"
  by (auto simp: zUnmap_def split: prod.splits)

definition dns_wf :: "dnsAnswer \<Rightarrow> bool" where
  "dns_wf a = (case a of DNSAddrs zs \<Rightarrow> list_all (\<lambda>z. ip_wf (fst z) \<and> (Is4 (fst z) \<longrightarrow> snd z = [])) zs | _ \<Rightarrow> True)"

lemma resolved_public:
  assumes "resolveAndValidate p resolver h = Inr zs" and "\<not> up_AllowPrivate p" and "dns_wf (resolver h)" and "z \<in> set zs"
  shows "public_target z"
proof (cases "ParseAddr h")
  case (Some lit)
  then have z: "z = zUnmap lit" "up_allowed p (zUnmap lit)" using assms(1,4) by (auto simp: resolveAndValidate_def Let_def split: if_splits)
  have wf: "ip_wf (fst lit)" "Is4 (fst lit) \<longrightarrow> snd lit = []" using Some ParseAddr_wf ParseAddr_zone4 by (cases lit; force)+
  show ?thesis unfolding z(1) by (rule allowed_public [OF z(2) assms(2)]) (use zUnmap_facts [OF wf(1)] zUnmap_zone4 [OF wf(2)] in auto)
next
  case None
  then obtain ys where ys: "resolver h = DNSAddrs ys" "zs = map zUnmap ys" "list_all (up_allowed p) zs"
    using assms(1) by (auto simp: resolveAndValidate_def split: dnsAnswer.splits if_splits)
  then obtain y where y: "y \<in> set ys" "z = zUnmap y" using assms(4) by auto
  have wf: "ip_wf (fst y)" "Is4 (fst y) \<longrightarrow> snd y = []" using assms(3) ys(1) y(1) by (auto simp: dns_wf_def list_all_iff)
  have "up_allowed p z" using ys(3) assms(4) by (simp add: list_all_iff)
  then show ?thesis
    unfolding y(2) by (rule allowed_public [OF _ assms(2)]) (use zUnmap_facts [OF wf(1)] zUnmap_zone4 [OF wf(2)] in auto)
qed

lemma dial_first_set: "dial_first answers zs = (tried, r) \<Longrightarrow> set tried \<subseteq> set zs \<and> (\<forall>z. r = Some z \<longrightarrow> z \<in> set tried \<and> answers z)"
  by (induction zs arbitrary: tried r) (auto split: if_splits prod.splits)



text \<open>
  A zone defeats the test for the unspecified address: the IPv6 literal \<^verbatim>\<open>::\<close> with a zone is not equal to
  \<^verbatim>\<open>netip.IPv6Unspecified()\<close>, passes every test of the policy, and is dialed. Dialing the unspecified
  address reaches the local host.
\<close>

theorem unspecified_with_zone_allowed:
  "resolveAndValidate \<lparr>up_AllowHTTP = False, up_AllowPrivate = False\<rparr> resolver ''::%eth0'' = Inr [(IP6 [0, 0, 0, 0, 0, 0, 0, 0], ''eth0'')]"
proof -
  have "ParseAddr ''::%eth0'' = Some (IP6 [0, 0, 0, 0, 0, 0, 0, 0], ''eth0'')" by code_simp
  moreover have "up_allowed \<lparr>up_AllowHTTP = False, up_AllowPrivate = False\<rparr> (IP6 [0, 0, 0, 0, 0, 0, 0, 0], ''eth0'')"
    by (simp add: up_allowed_def IsUnspecified_def IsMulticast_def zoned_IsGlobalUnicast_def IsLoopback_def IsLinkLocalUnicast_def IsPrivate_def
        prohibitedPrefixes_contain_def list_ex_iff)
  ultimately show ?thesis by (simp add: resolveAndValidate_def Let_def zUnmap_def Is4In6_def)
qed

section \<open>Signatures verify\<close>

lemma hex_pair: "n < 16 \<Longrightarrow> is_hex (hex_char n) \<and> hex_digit_val (hex_char n) = n"
  using hex_char_props [of n] by simp

lemma hex_decode_bytes: "hex_decode (hex_bytes s) = Some s"
proof (induction s)
  case (Cons c s)
  have "byte c div 16 < 16" by (rule less_mult_imp_div_less) simp
  moreover have "byte c mod 16 < 16" by simp
  ultimately show ?case using Cons hex_pair by (simp add: hex_bytes_def)
qed (simp add: hex_bytes_def)

lemma ParseInt64_dec: "n < 2 ^ 63 \<Longrightarrow> ParseInt64 (nat_dec n) = Some (int n)"
proof -
  assume n: "n < 2 ^ 63"
  have d: "list_all is_digit (nat_dec n)" "nat_dec n \<noteq> []" using nat_dec_digits by simp_all
  then have "hd (nat_dec n) \<noteq> CHR ''-''" "hd (nat_dec n) \<noteq> CHR ''+''" by (cases "nat_dec n"; auto simp: is_digit_def)+
  then have "\<not> HasPrefix (nat_dec n) ''-''" "\<not> HasPrefix (nat_dec n) ''+''" using d(2) by (cases "nat_dec n"; simp add: HasPrefix_def)+
  then show ?thesis using n d by (simp add: ParseInt64_def)
qed

text \<open>
  A receiver accepts exactly the signatures of the sender within the tolerance: for a decimal timestamp,
  verification succeeds if and only if the tolerance is positive, the timestamp is no further than the
  tolerance from the receiver's clock on either side, and what follows \<^verbatim>\<open>v1=\<close> decodes to the MAC of this timestamp
  and this body under the shared secret. In particular the headers that \<^verbatim>\<open>BuildRequest\<close> sets are
  accepted with the body it sends, as long as the request arrives within the tolerance.
\<close>

theorem signature_accepted_iff:
  assumes "t < 2 ^ 63"
  shows "(VerifySignature hmac secret (nat_dec t) sig body now tol = None \<longleftrightarrow>
     0 < tol \<and> \<bar>int t * second - now\<bar> \<le> tol \<and> HasPrefix sig ''v1='' \<and>
     hex_decode (drop 3 sig) = Some (hmac secret (nat_dec t @ ''.'' @ body))) \<and>
   (BuildRequest hmac marshal sentAt deliveryID secret payload = Some (hs, sentBody) \<and> sentAt div second = int t \<and>
      0 < tol \<and> \<bar>int t * second - now\<bar> \<le> tol \<longrightarrow>
     VerifySignature hmac secret (the (map_of hs ''MailX-Webhook-Timestamp'')) (the (map_of hs ''MailX-Webhook-Signature'')) sentBody now tol = None)"
proof -
  have sig: "hex_decode (drop 3 (Signature hmac secret (nat_dec t) b)) = Some (hmac secret (nat_dec t @ ''.'' @ b))"
      "HasPrefix (Signature hmac secret (nat_dec t) b) ''v1=''" for b
    by (simp_all add: Signature_def hex_decode_bytes HasPrefix_def)
  have iff: "VerifySignature hmac secret (nat_dec t) sg b now tol = None \<longleftrightarrow>
     0 < tol \<and> \<bar>int t * second - now\<bar> \<le> tol \<and> HasPrefix sg ''v1='' \<and> hex_decode (drop 3 sg) = Some (hmac secret (nat_dec t @ ''.'' @ b))" for sg b
    unfolding VerifySignature_def ParseInt64_dec [OF assms] by (auto simp: sig split: option.splits)
  have "the (map_of hs ''MailX-Webhook-Timestamp'') = nat_dec t \<and> the (map_of hs ''MailX-Webhook-Signature'') = Signature hmac secret (nat_dec t) sentBody"
    if "BuildRequest hmac marshal sentAt deliveryID secret payload = Some (hs, sentBody)" "sentAt div second = int t"
    using that by (auto simp: BuildRequest_def Let_def int_dec_def split: option.splits)
  then show ?thesis using iff [of sig body] iff [of "Signature hmac secret (nat_dec t) sentBody" sentBody] sig by auto
qed

definition wh_demo_payload :: "eventEnvelope option" where
  "wh_demo_payload = payloadFor ''e'' ''m'' EventQueued 0 None Map.empty"

theorem signature_accepted_iff_witness:
  "(case BuildRequest (@) (\<lambda>_. ''b'') (100000000000) ''d'' ''s'' wh_demo_payload of None \<Rightarrow> False
    | Some (hs, body) \<Rightarrow> VerifySignature (@) ''s'' (the (map_of hs ''MailX-Webhook-Timestamp'')) (the (map_of hs ''MailX-Webhook-Signature''))
        body (160000000000) SignatureTolerance = None)"
proof -
  obtain hs body where b: "BuildRequest (@) (\<lambda>_. ''b'') (100000000000) ''d'' ''s'' wh_demo_payload = Some (hs, body)"
    by (simp add: BuildRequest_def wh_demo_payload_def payloadFor_def PublicEventType_def Let_def)
  show ?thesis
    using signature_accepted_iff [of 100 "(@)" "''s''" "[]" "[]" 160000000000 SignatureTolerance "\<lambda>_. ''b''" 100000000000 "''d''" wh_demo_payload hs body]
    by (simp add: b SignatureTolerance_def)
qed

section \<open>Retries stay within their bounds\<close>

lemma double_to_hour_bounds: "minute \<le> delay \<Longrightarrow> delay \<le> 2 * hour \<Longrightarrow>
   minute \<le> double_to_hour n attempt delay \<and> double_to_hour n attempt delay \<le> 2 * hour"
proof (induction n attempt delay rule: double_to_hour.induct)
  case (1 n attempt delay)
  show ?case
  proof (cases "int n < attempt \<and> delay < hour")
    case True
    then show ?thesis using 1 by (subst (1 2) double_to_hour.simps) simp
  next
    case False
    then show ?thesis using 1 by (subst (1 2) double_to_hour.simps) simp
  qed
qed

lemma retryDelay_bounds: "30 * second \<le> retryDelay a e \<and> retryDelay a e \<le> hour"
proof -
  define c where "c = (let delay = double_to_hour 1 (if a < 1 then 1 else a) minute in if delay > hour then hour else delay)"
  have c: "minute \<le> c" "c \<le> hour" using double_to_hour_bounds [of minute 1 "if a < 1 then 1 else a"] by (auto simp: c_def Let_def)
  have "e mod nat (c div 2 + 1) < nat (c div 2 + 1)" using c(1) by (intro mod_less_divisor) simp
  then have "int (e mod nat (c div 2 + 1)) \<le> c div 2" by linarith
  moreover have "retryDelay a e = c div 2 + int (e mod nat (c div 2 + 1))" by (simp only: retryDelay_def c_def Let_def)
  ultimately show ?thesis using c by linarith
qed

text \<open>
  Every attempt of a webhook ends in one of three ways, and a retry is never closer than half a minute nor
  further than an hour: a success only for a 2xx answer; a failure for another answer that is neither 408,
  429 nor 5xx, or when the attempts are used up; otherwise a retry, whatever the \<^verbatim>\<open>Retry-After\<close> header says.
\<close>

theorem webhook_outcome:
  "(ao_Status (wc_Deliver date e now n r) = Succeeded \<longleftrightarrow> (\<exists>c ra. r = Response c ra \<and> 200 \<le> c \<and> c < 300)) \<and>
   (case ao_NextRetryAt (wc_Deliver date e now n r) of
      Some t \<Rightarrow> ao_Status (wc_Deliver date e now n r) = Retrying \<and> n < MaxAttempts \<and> now + 30 * second \<le> t \<and> t \<le> now + hour
    | None \<Rightarrow> ao_Status (wc_Deliver date e now n r) \<noteq> Retrying) \<and>
   (n < MaxAttempts \<and> ao_Status (wc_Deliver date e now n r) = Failed \<longrightarrow>
      (\<exists>c ra. r = Response c ra \<and> c < 500 \<and> c \<noteq> 408 \<and> c \<noteq> 429 \<and> \<not> (200 \<le> c \<and> c < 300)))"
proof -
  have rf: "ao_Status (retryOrFail date e now n cat code ra) = (if n \<ge> MaxAttempts then Failed else Retrying) \<and>
      (case ao_NextRetryAt (retryOrFail date e now n cat code ra) of
         Some t \<Rightarrow> n < MaxAttempts \<and> now + 30 * second \<le> t \<and> t \<le> now + hour | None \<Rightarrow> n \<ge> MaxAttempts)" for cat code ra
    using retryDelay_bounds [of n e] by (auto simp: retryOrFail_def Let_def maxRetryAfter_def split: option.split)
  show ?thesis
  proof (cases r)
    case NotBuilt
    then show ?thesis using rf [of "''request_build''" None "[]"] by (auto simp: wc_Deliver_def split: option.splits if_splits)
  next
    case NoResponse
    then show ?thesis using rf [of "''network''" None "[]"] by (auto simp: wc_Deliver_def split: option.splits if_splits)
  next
    case (Response c ra)
    then show ?thesis using rf [of "''http_retryable''" "Some c" ra] by (auto simp: wc_Deliver_def split: option.splits if_splits)
  qed
qed

theorem webhook_outcome_witness:
  "\<exists>c ra. Response 404 [] = Response c ra \<and> c < 500 \<and> c \<noteq> 408 \<and> c \<noteq> 429 \<and> \<not> (200 \<le> c \<and> c < 300)"
proof -
  have "ao_Status (wc_Deliver (\<lambda>_. None) 0 0 2 (Response 404 [])) = Failed" "2 < MaxAttempts"
    by (simp_all add: wc_Deliver_def MaxAttempts_def)
  then show ?thesis using webhook_outcome [of "\<lambda>_. None" 0 0 2 "Response 404 []"] by blast
qed

text \<open>
  A \<^verbatim>\<open>Retry-After\<close> beyond 292 years overflows the product with \<^verbatim>\<open>time.Second\<close>: the wrapped value is negative,
  so such a header is not capped at an hour but ignored.
\<close>

lemma retry_after_overflow: "\<exists>d. parseRetryAfter date (nat_dec 9223372037) now = Some d \<and> d < 0"
proof -
  have "ParseInt64 (nat_dec 9223372037) = Some 9223372037" using ParseInt64_dec [of 9223372037] by simp
  moreover have "wrap64 (9223372037 * second) < 0" by (simp add: wrap64_def)
  ultimately show ?thesis unfolding parseRetryAfter_def by (simp add: min_def)
qed

end
