(* ===== verification/Webhook_Store.thy ===== *)
theory Webhook_Store
  imports Webhook
begin

text \<open>
  The tables behind webhooks (\<^verbatim>\<open>internal/database/webhook_subscriptions.go\<close>, \<^verbatim>\<open>webhook_fanout.go\<close>,
  \<^verbatim>\<open>webhook_deliveries.go\<close>), the service that manages subscriptions (\<^verbatim>\<open>internal/webhook/service.go\<close>) and what a
  worker does with a claimed delivery (\<^verbatim>\<open>runtime.go\<close>), as a state machine. The theorems: the tables stay
  consistent, an obligation is never lost or reopened, leases fence, and fan-out is exact.
\<close>

section \<open>Webhook tables\<close>

record wh_subscription =
  ss_ID :: string
  ss_Tenant :: string
  ss_URL :: string
  ss_Secret :: string
  ss_Types :: "string list"
  ss_CreatedAt :: gotime
  ss_DisabledAt :: "gotime option"

record wh_event =
  we_ID :: string
  we_Tenant :: string
  we_Type :: event_type
  we_At :: gotime
  we_FannedOut :: bool

datatype delivery_status = DPending | DDelivering | DSucceeded | DFailed | DCancelled

record wh_delivery =
  wd_ID :: string
  wd_Tenant :: string
  wd_Subscription :: string
  wd_Event :: string
  wd_Status :: delivery_status
  wd_AttemptCount :: int
  wd_NextAttemptAt :: gotime
  wd_Lease :: "(string \<times> gotime) option"

datatype wa_status = WAInProgress | WASucceeded | WARetrying | WAFailed

record wh_attempt =
  wt_Delivery :: string
  wt_Number :: int
  wt_Status :: wa_status

record whdb =
  wh_subs :: "wh_subscription list"
  wh_events :: "wh_event list"
  wh_deliveries :: "wh_delivery list"
  wh_attempts :: "wh_attempt list"
  wh_clock :: gotime \<comment> \<open>the latest moment a transaction has seen\<close>

definition ss_enabled :: "wh_subscription \<Rightarrow> bool" where
  "ss_enabled s \<longleftrightarrow> ss_DisabledAt s = None"

text \<open>Creating, rotating and disabling a subscription; \<open>i\<close> is the generated identifier.\<close>

definition InsertWebhookSubscription ::
  "string \<Rightarrow> gotime \<Rightarrow> string \<Rightarrow> string \<Rightarrow> string \<Rightarrow> string list \<Rightarrow> whdb \<Rightarrow> db_error option \<times> whdb" where
  "InsertWebhookSubscription i now tenant u secret types d =
     (if tenant = [] \<or> u = [] \<or> secret = [] \<or> types = [] then (Some DbInvalid, d)
      else if i \<in> ss_ID ` set (wh_subs d) then (Some DbErrConflict, d)
      else (None, d\<lparr>wh_subs := wh_subs d @ [\<lparr>ss_ID = i, ss_Tenant = tenant, ss_URL = u, ss_Secret = secret, ss_Types = types,
              ss_CreatedAt = now, ss_DisabledAt = None\<rparr>]\<rparr>))"

definition GetWebhookSubscription :: "string \<Rightarrow> string \<Rightarrow> whdb \<Rightarrow> wh_subscription option" where
  "GetWebhookSubscription tenant i d = find (\<lambda>s. ss_Tenant s = tenant \<and> ss_ID s = i \<and> ss_enabled s) (wh_subs d)"

definition RotateWebhookSecret :: "string \<Rightarrow> string \<Rightarrow> string \<Rightarrow> whdb \<Rightarrow> db_error option \<times> whdb" where
  "RotateWebhookSecret tenant i secret d =
     (if secret = [] then (Some DbInvalid, d)
      else if GetWebhookSubscription tenant i d = None then (Some DbErrNotFound, d)
      else (None, d\<lparr>wh_subs := map (\<lambda>s. if ss_Tenant s = tenant \<and> ss_ID s = i \<and> ss_enabled s then s\<lparr>ss_Secret := secret\<rparr> else s) (wh_subs d)\<rparr>))"

definition DisableWebhookSubscription :: "gotime \<Rightarrow> string \<Rightarrow> string \<Rightarrow> whdb \<Rightarrow> db_error option \<times> whdb" where
  "DisableWebhookSubscription now tenant i d =
     (if GetWebhookSubscription tenant i d = None then (Some DbErrNotFound, d)
      else
        let mine = (\<lambda>x. wd_Tenant x = tenant \<and> wd_Subscription x = i);
            open_ids = wd_ID ` set (filter (\<lambda>x. mine x \<and> wd_Status x = DDelivering) (wh_deliveries d))
        in (None, d\<lparr>
             wh_subs := map (\<lambda>s. if ss_Tenant s = tenant \<and> ss_ID s = i \<and> ss_enabled s then s\<lparr>ss_DisabledAt := Some now\<rparr> else s) (wh_subs d),
             wh_attempts := map (\<lambda>a. if wt_Delivery a \<in> open_ids \<and> wt_Status a = WAInProgress then a\<lparr>wt_Status := WAFailed\<rparr> else a) (wh_attempts d),
             wh_deliveries := map (\<lambda>x. if mine x \<and> (wd_Status x = DPending \<or> wd_Status x = DDelivering)
                then x\<lparr>wd_Status := DCancelled, wd_Lease := None\<rparr> else x) (wh_deliveries d)\<rparr>))"

section \<open>Fan-out\<close>

definition sub_matches :: "wh_event \<Rightarrow> wh_subscription \<Rightarrow> bool" where
  "sub_matches e s \<longleftrightarrow> (case PublicEventType (we_Type e) of None \<Rightarrow> False
     | Some t \<Rightarrow> ss_Tenant s = we_Tenant e \<and> ss_enabled s \<and> ss_CreatedAt s \<le> we_At e \<and> t \<in> set (ss_Types s))"

text \<open>\<open>newid\<close> is the identifier generated for the n-th row of the table.\<close>

definition add_delivery :: "(nat \<Rightarrow> string) \<Rightarrow> gotime \<Rightarrow> wh_event \<Rightarrow> wh_subscription \<Rightarrow> wh_delivery list \<Rightarrow> wh_delivery list" where
  "add_delivery newid now e s xs =
     (if list_ex (\<lambda>x. wd_Subscription x = ss_ID s \<and> wd_Event x = we_ID e) xs then xs
      else xs @ [\<lparr>wd_ID = newid (length xs), wd_Tenant = we_Tenant e, wd_Subscription = ss_ID s, wd_Event = we_ID e, wd_Status = DPending,
                  wd_AttemptCount = 0, wd_NextAttemptAt = now, wd_Lease = None\<rparr>])"

definition fan_event :: "(nat \<Rightarrow> string) \<Rightarrow> gotime \<Rightarrow> wh_event \<Rightarrow> whdb \<Rightarrow> whdb" where
  "fan_event newid now e d =
     d\<lparr>wh_deliveries := fold (add_delivery newid now e) (filter (sub_matches e) (wh_subs d)) (wh_deliveries d),
       wh_events := map (\<lambda>x. if we_ID x = we_ID e then x\<lparr>we_FannedOut := True\<rparr> else x) (wh_events d)\<rparr>"

text \<open>\<open>locked\<close>: events another transaction holds, which are skipped.\<close>

definition fan_batch :: "nat \<Rightarrow> (string \<Rightarrow> bool) \<Rightarrow> whdb \<Rightarrow> wh_event list" where
  "fan_batch limit locked d = take limit (sort_key (\<lambda>e. (we_At e, we_ID e)) (filter (\<lambda>e. \<not> we_FannedOut e \<and> \<not> locked (we_ID e)) (wh_events d)))"

definition FanOutWebhookEvents :: "(nat \<Rightarrow> string) \<Rightarrow> gotime \<Rightarrow> int \<Rightarrow> (string \<Rightarrow> bool) \<Rightarrow> whdb \<Rightarrow> (db_error + nat) \<times> whdb" where
  "FanOutWebhookEvents newid now limit locked d =
     (if limit \<le> 0 \<or> limit > 500 then (Inl DbInvalid, d)
      else let es = fan_batch (nat limit) locked d in (Inr (length es), fold (fan_event newid now) es d))"

section \<open>Claiming and completing a delivery\<close>

definition wd_due :: "gotime \<Rightarrow> wh_delivery \<Rightarrow> bool" where
  "wd_due now x \<longleftrightarrow> (wd_Status x = DPending \<and> wd_NextAttemptAt x \<le> now) \<or>
     (wd_Status x = DDelivering \<and> (case wd_Lease x of Some (_, t) \<Rightarrow> t \<le> now | None \<Rightarrow> False))"

definition wd_active :: "gotime \<Rightarrow> wh_delivery \<Rightarrow> bool" where
  "wd_active now x \<longleftrightarrow> wd_Status x = DDelivering \<and> (case wd_Lease x of Some (_, t) \<Rightarrow> t > now | None \<Rightarrow> False)"

definition tenant_busy :: "gotime \<Rightarrow> wh_delivery \<Rightarrow> whdb \<Rightarrow> bool" where
  "tenant_busy now x d \<longleftrightarrow> list_ex (\<lambda>y. wd_Tenant y = wd_Tenant x \<and> wd_ID y \<noteq> wd_ID x \<and> wd_active now y) (wh_deliveries d)"

text \<open>
  The query that picks a row and locks it; \<open>locked\<close> are the rows other transactions hold. Created-at
  order is the order of the rows.
\<close>

definition claim_candidate :: "gotime \<Rightarrow> string list \<Rightarrow> (string \<Rightarrow> bool) \<Rightarrow> whdb \<Rightarrow> wh_delivery option" where
  "claim_candidate now skip locked d =
     (case sort_key wd_NextAttemptAt (filter (\<lambda>x. list_ex (\<lambda>s. ss_ID s = wd_Subscription x \<and> ss_Tenant s = wd_Tenant x \<and> ss_enabled s) (wh_subs d) \<and>
          list_ex (\<lambda>e. we_ID e = wd_Event x \<and> we_Tenant e = wd_Tenant x) (wh_events d) \<and> wd_due now x \<and> wd_Tenant x \<notin> set skip \<and>
          \<not> tenant_busy now x d \<and> \<not> locked (wd_ID x)) (wh_deliveries d)) of
        [] \<Rightarrow> None | x # _ \<Rightarrow> Some x)"

text \<open>
  The rest of the transaction, under the tenant's advisory lock: the second look for an active claim (\<open>None\<close>:
  the tenant is busy), then the lease and the new attempt. \<open>d\<close> is the state after the lock was obtained.
\<close>

definition claim_commit :: "gotime \<Rightarrow> duration \<Rightarrow> string \<Rightarrow> wh_delivery \<Rightarrow> whdb \<Rightarrow> wh_delivery option \<times> whdb" where
  "claim_commit now lease token x d =
     (if tenant_busy now x d then (None, d)
      else
        let x1 = x\<lparr>wd_Status := DDelivering, wd_AttemptCount := wd_AttemptCount x + 1, wd_Lease := Some (token, now + lease)\<rparr>;
            closed = (if wd_Status x = DDelivering
              then map (\<lambda>a. if wt_Delivery a = wd_ID x \<and> wt_Number a = wd_AttemptCount x \<and> wt_Status a = WAInProgress then a\<lparr>wt_Status := WARetrying\<rparr> else a) (wh_attempts d)
              else wh_attempts d)
        in (Some x1, d\<lparr>wh_deliveries := map (\<lambda>y. if wd_ID y = wd_ID x then x1 else y) (wh_deliveries d),
              wh_attempts := closed @ [\<lparr>wt_Delivery = wd_ID x, wt_Number = wd_AttemptCount x + 1, wt_Status = WAInProgress\<rparr>],
              wh_clock := now\<rparr>))"

record wh_result =
  wr_Delivery :: string
  wr_Token :: string
  wr_Number :: int
  wr_Status :: wh_status
  wr_NextRetryAt :: "gotime option"

definition wa_of :: "wh_status \<Rightarrow> wa_status" where
  "wa_of s = (case s of Succeeded \<Rightarrow> WASucceeded | Retrying \<Rightarrow> WARetrying | Failed \<Rightarrow> WAFailed)"

definition CompleteWebhookAttempt :: "wh_result \<Rightarrow> whdb \<Rightarrow> db_error option \<times> whdb" where
  "CompleteWebhookAttempt r d =
     (if wr_Delivery r = [] \<or> wr_Token r = [] \<or> wr_Number r \<le> 0 then (Some DbInvalid, d)
      else case find (\<lambda>x. wd_ID x = wr_Delivery r \<and> wd_Status x = DDelivering \<and> map_option fst (wd_Lease x) = Some (wr_Token r)) (wh_deliveries d) of
          None \<Rightarrow> (Some DbErrNotFound, d)
        | Some x \<Rightarrow>
            let mine = (\<lambda>a. wt_Delivery a = wr_Delivery r \<and> wt_Number a = wr_Number r \<and> wt_Status a = WAInProgress)
            in if wd_AttemptCount x \<noteq> wr_Number r then (Some DbErrConflict, d)
               else if length (filter mine (wh_attempts d)) \<noteq> 1 then (Some DbErrConflict, d)
               else if wr_Status r = Retrying \<and> wr_NextRetryAt r = None then (Some DbInvalid, d)
               else
                 let x1 = (case wr_Status r of
                      Succeeded \<Rightarrow> x\<lparr>wd_Status := DSucceeded, wd_Lease := None\<rparr>
                    | Retrying \<Rightarrow> x\<lparr>wd_Status := DPending, wd_NextAttemptAt := the (wr_NextRetryAt r), wd_Lease := None\<rparr>
                    | Failed \<Rightarrow> x\<lparr>wd_Status := DFailed, wd_Lease := None\<rparr>)
                 in (None, d\<lparr>wh_attempts := map (\<lambda>a. if mine a then a\<lparr>wt_Status := wa_of (wr_Status r)\<rparr> else a) (wh_attempts d),
                       wh_deliveries := map (\<lambda>y. if wd_ID y = wd_ID x then x1 else y) (wh_deliveries d)\<rparr>))"

text \<open>What a worker makes of a claim: the secret that cannot be decrypted fails the delivery, otherwise the request decides.\<close>

definition wh_result_of :: "wh_delivery \<Rightarrow> attemptOutcome \<Rightarrow> wh_result" where
  "wh_result_of x ao =
     \<lparr>wr_Delivery = wd_ID x, wr_Token = (case wd_Lease x of Some (t, _) \<Rightarrow> t | None \<Rightarrow> []), wr_Number = wd_AttemptCount x, wr_Status = ao_Status ao,
      wr_NextRetryAt = ao_NextRetryAt ao\<rparr>"

definition safeDeliver ::
  "(string \<Rightarrow> gotime option) \<Rightarrow> nat \<Rightarrow> gotime \<Rightarrow> bool \<Rightarrow> httpResult \<Rightarrow> wh_delivery \<Rightarrow> whdb \<Rightarrow> db_error option \<times> whdb" where
  "safeDeliver http_date entropy now decrypts r x d =
     CompleteWebhookAttempt (wh_result_of x
       (if \<not> decrypts then \<lparr>ao_Status = Failed, ao_ResponseCode = None, ao_ErrorCategory = ''secret_decrypt'', ao_NextRetryAt = None\<rparr>
        else wc_Deliver http_date entropy now (wd_AttemptCount x) r)) d"

section \<open>The subscription service\<close>

text \<open>\<open>encrypt\<close> seals a secret for a tenant; \<open>None\<close> is a failure of the random source. The created secret is returned once.\<close>

datatype service_error = SErrDNSUnavailable | SErrInvalidURL url_error | SErrEventTypes | SErrSecret | SErrDB db_error

definition svc_Create ::
  "urlPolicy \<Rightarrow> (string \<Rightarrow> url option) \<Rightarrow> (string \<Rightarrow> dnsAnswer) \<Rightarrow> (string \<Rightarrow> string \<Rightarrow> string) \<Rightarrow> string option \<Rightarrow> string \<Rightarrow> gotime \<Rightarrow>
   string \<Rightarrow> string \<Rightarrow> string list \<Rightarrow> whdb \<Rightarrow> (service_error + string) \<times> whdb" where
  "svc_Create p parse resolver encrypt secret i now tenant rawURL types d =
     (case up_Validate p parse resolver rawURL of
        Inl UErrDNSUnavailable \<Rightarrow> (Inl SErrDNSUnavailable, d)
      | Inl e \<Rightarrow> (Inl (SErrInvalidURL e), d)
      | Inr canonical \<Rightarrow>
          (case normalizeEventTypes types of
             None \<Rightarrow> (Inl SErrEventTypes, d)
           | Some ts \<Rightarrow>
               (case secret of
                  None \<Rightarrow> (Inl SErrSecret, d)
                | Some sec \<Rightarrow>
                    (case InsertWebhookSubscription i now tenant canonical (encrypt tenant sec) ts d of
                       (None, d1) \<Rightarrow> (Inr sec, d1)
                     | (Some e, d1) \<Rightarrow> (Inl (SErrDB e), d1)))))"

definition svc_RotateSecret ::
  "(string \<Rightarrow> string \<Rightarrow> string) \<Rightarrow> string option \<Rightarrow> string \<Rightarrow> string \<Rightarrow> whdb \<Rightarrow> (service_error + string) \<times> whdb" where
  "svc_RotateSecret encrypt secret tenant i d =
     (if GetWebhookSubscription tenant i d = None then (Inl (SErrDB DbErrNotFound), d)
      else case secret of
          None \<Rightarrow> (Inl SErrSecret, d)
        | Some sec \<Rightarrow>
            (case RotateWebhookSecret tenant i (encrypt tenant sec) d of
               (None, d1) \<Rightarrow> (Inr sec, d1)
             | (Some e, d1) \<Rightarrow> (Inl (SErrDB e), d1)))"

text \<open>
  The loop around the claim: a tenant found busy under its lock is skipped in the next round, at most eight times.
  Each round has the rows others hold locked and what others commit before the lock is obtained.
\<close>

definition maxBusyTenantSkips :: nat where "maxBusyTenantSkips = 8"

fun claim_rounds ::
  "nat \<Rightarrow> gotime \<Rightarrow> duration \<Rightarrow> string \<Rightarrow> string list \<Rightarrow> ((string \<Rightarrow> bool) \<times> (whdb \<Rightarrow> whdb)) list \<Rightarrow> whdb \<Rightarrow> wh_delivery option \<times> whdb" where
  "claim_rounds 0 now lease token busy rs d = (None, d)"
| "claim_rounds (Suc n) now lease token busy [] d = (None, d)"
| "claim_rounds (Suc n) now lease token busy ((locked, others) # rs) d =
     (case claim_candidate now busy locked d of
        None \<Rightarrow> (None, d)
      | Some x \<Rightarrow>
          (case claim_commit now lease token x (others d) of
             (None, d1) \<Rightarrow> claim_rounds n now lease token (busy @ [wd_Tenant x]) rs d1
           | (Some x1, d1) \<Rightarrow> (Some x1, d1)))"

definition ClaimWebhookDelivery ::
  "gotime \<Rightarrow> duration \<Rightarrow> string \<Rightarrow> ((string \<Rightarrow> bool) \<times> (whdb \<Rightarrow> whdb)) list \<Rightarrow> whdb \<Rightarrow> (db_error + wh_delivery option) \<times> whdb" where
  "ClaimWebhookDelivery now lease token rs d =
     (if lease \<le> 0 then (Inl DbInvalid, d)
      else case claim_rounds maxBusyTenantSkips now lease token [] rs d of (r, d1) \<Rightarrow> (Inr r, d1))"

section \<open>The webhook state machine\<close>

inductive wh_step :: "(nat \<Rightarrow> string) \<Rightarrow> whdb \<Rightarrow> whdb \<Rightarrow> bool" for newid where
  subscribe: "wh_step newid d (snd (InsertWebhookSubscription i now tenant u secret types d))"
| rotate: "wh_step newid d (snd (RotateWebhookSecret tenant i secret d))"
| disable: "wh_step newid d (snd (DisableWebhookSubscription now tenant i d))"
| event: "we_ID e \<notin> we_ID ` set (wh_events d) \<Longrightarrow> \<not> we_FannedOut e \<Longrightarrow> wh_step newid d (d\<lparr>wh_events := wh_events d @ [e]\<rparr>)"
| fanout: "wh_step newid d (snd (FanOutWebhookEvents newid now limit locked d))"
| claim: "x \<in> set (wh_deliveries d) \<Longrightarrow> wd_due now x \<Longrightarrow> wh_clock d \<le> now \<Longrightarrow> wh_step newid d (snd (claim_commit now lease token x d))"
| complete: "wh_step newid d (snd (CompleteWebhookAttempt r d))"

definition wh_init :: "whdb \<Rightarrow> bool" where
  "wh_init d \<longleftrightarrow> wh_subs d = [] \<and> wh_events d = [] \<and> wh_deliveries d = [] \<and> wh_attempts d = []"

definition att :: "whdb \<Rightarrow> string \<Rightarrow> wh_attempt list" where
  "att d i = filter (\<lambda>a. wt_Delivery a = i) (wh_attempts d)"

definition dcount :: "wh_delivery list \<Rightarrow> string \<Rightarrow> string \<Rightarrow> nat" where
  "dcount xs s e = length (filter (\<lambda>x. wd_Subscription x = s \<and> wd_Event x = e) xs)"

definition row_inv :: "whdb \<Rightarrow> wh_delivery \<Rightarrow> bool" where
  "row_inv d x \<longleftrightarrow> (wd_Status x = DDelivering \<longleftrightarrow> wd_Lease x \<noteq> None) \<and> 0 \<le> wd_AttemptCount x \<and>
     map wt_Number (att d (wd_ID x)) = numbers (nat (wd_AttemptCount x)) \<and>
     (\<forall>a\<in>set (att d (wd_ID x)). wt_Status a = WAInProgress \<longleftrightarrow> wd_Status x = DDelivering \<and> wt_Number a = wd_AttemptCount x)"

definition table_inv :: "(nat \<Rightarrow> string) \<Rightarrow> whdb \<Rightarrow> bool" where
  "table_inv newid d \<longleftrightarrow>
     map wd_ID (wh_deliveries d) = map newid [0..<length (wh_deliveries d)] \<and>
     wt_Delivery ` set (wh_attempts d) \<subseteq> wd_ID ` set (wh_deliveries d) \<and>
     distinct (map we_ID (wh_events d)) \<and> distinct (map ss_ID (wh_subs d)) \<and>
     (\<forall>s e. dcount (wh_deliveries d) s e \<le> 1) \<and>
     (\<forall>x\<in>set (wh_deliveries d). \<exists>e\<in>set (wh_events d). we_ID e = wd_Event x \<and> we_FannedOut e)"

definition busy_inv :: "whdb \<Rightarrow> bool" where
  "busy_inv d \<longleftrightarrow> (\<forall>x\<in>set (wh_deliveries d). \<forall>y\<in>set (wh_deliveries d).
     wd_Tenant x = wd_Tenant y \<longrightarrow> wd_active (wh_clock d) x \<longrightarrow> wd_active (wh_clock d) y \<longrightarrow> wd_ID x = wd_ID y)"

definition wh_inv :: "(nat \<Rightarrow> string) \<Rightarrow> whdb \<Rightarrow> bool" where
  "wh_inv newid d \<longleftrightarrow> table_inv newid d \<and> (\<forall>x\<in>set (wh_deliveries d). row_inv d x) \<and> busy_inv d"

lemma distinct_ids: "inj newid \<Longrightarrow> table_inv newid d \<Longrightarrow> distinct (map wd_ID (wh_deliveries d))"
  by (simp add: table_inv_def distinct_map inj_on_subset [OF _ subset_UNIV])

lemma same_id: "inj newid \<Longrightarrow> table_inv newid d \<Longrightarrow> x \<in> set (wh_deliveries d) \<Longrightarrow> y \<in> set (wh_deliveries d) \<Longrightarrow> wd_ID x = wd_ID y \<Longrightarrow> x = y"
  by (meson distinct_ids distinct_map inj_onD)

lemma wh_inv_init: "wh_init d \<Longrightarrow> wh_inv newid d"
  by (simp add: wh_init_def wh_inv_def table_inv_def busy_inv_def dcount_def)

text \<open>Rows replaced one by one, with the columns that identify them kept.\<close>

lemma dcount_map: "(\<And>x. x \<in> set xs \<Longrightarrow> wd_Subscription (f x) = wd_Subscription x \<and> wd_Event (f x) = wd_Event x) \<Longrightarrow> dcount (map f xs) s e = dcount xs s e"
  unfolding dcount_def filter_map length_map comp_def by (intro arg_cong [where f = length] filter_cong) auto

lemma table_inv_rows:
  assumes "table_inv newid d" and "wh_deliveries d' = map f (wh_deliveries d)"
    and "\<And>x. x \<in> set (wh_deliveries d) \<Longrightarrow> wd_ID (f x) = wd_ID x \<and> wd_Subscription (f x) = wd_Subscription x \<and> wd_Event (f x) = wd_Event x"
    and "wt_Delivery ` set (wh_attempts d') \<subseteq> wd_ID ` set (wh_deliveries d)" and "wh_events d' = wh_events d" and "map ss_ID (wh_subs d') = map ss_ID (wh_subs d)"
  shows "table_inv newid d'"
proof -
  have ids: "map wd_ID (wh_deliveries d') = map wd_ID (wh_deliveries d)" by (simp add: assms(2,3))
  then have "wd_ID ` set (wh_deliveries d') = wd_ID ` set (wh_deliveries d)" by (metis set_map)
  moreover have "length (wh_deliveries d') = length (wh_deliveries d)" by (simp add: assms(2))
  moreover have "\<exists>e\<in>set (wh_events d'). we_ID e = wd_Event y \<and> we_FannedOut e" if "y \<in> set (wh_deliveries d')" for y
    using that assms(1) unfolding assms(2,5) table_inv_def by (auto simp: assms(3))
  ultimately show ?thesis using assms(1,4,5,6) ids unfolding table_inv_def by (simp add: assms(2) dcount_map assms(3))
qed

lemma row_inv_same: "row_inv d x \<Longrightarrow> att d' (wd_ID x) = att d (wd_ID x) \<Longrightarrow> row_inv d' x"
  by (simp add: row_inv_def)

lemma busy_inv_kept:
  assumes "busy_inv d" and "wh_clock d' = wh_clock d" and "\<And>y. y \<in> set (wh_deliveries d') \<Longrightarrow> wd_active (wh_clock d) y \<Longrightarrow> y \<in> set (wh_deliveries d)"
  shows "busy_inv d'"
  using assms unfolding busy_inv_def by metis

lemma image_keep: "(\<And>a. p (g a) = p a) \<Longrightarrow> p ` set (map g xs) = p ` set xs"
  by (simp add: image_image)

lemma map_keep: "(\<And>a. p (g a) = p a) \<Longrightarrow> map p (map g xs) = map p xs"
  by simp

lemma att_map: "(\<And>a. wt_Delivery (g a) = wt_Delivery a) \<Longrightarrow> wh_attempts d' = map g (wh_attempts d) @ ys \<Longrightarrow>
    att d' i = map g (att d i) @ filter (\<lambda>a. wt_Delivery a = i) ys"
  by (simp add: att_def filter_map comp_def)

lemma att_other: "(\<And>a. wt_Delivery a = i \<Longrightarrow> g a = a) \<Longrightarrow> map g (att d i) = att d i"
  by (rule map_idI) (simp add: att_def)

lemma numbers_le: "row_inv d x \<Longrightarrow> a \<in> set (att d (wd_ID x)) \<Longrightarrow> wt_Number a \<le> wd_AttemptCount x"
proof -
  assume "row_inv d x" and "a \<in> set (att d (wd_ID x))"
  then have "wt_Number a \<in> set (numbers (nat (wd_AttemptCount x)))" "0 \<le> wd_AttemptCount x" unfolding row_inv_def by (metis imageI set_map)+
  then show ?thesis by (simp add: numbers_mem)
qed

lemma wh_inv_claim:
  assumes inj: "inj newid" and inv: "wh_inv newid d" and x: "x \<in> set (wh_deliveries d)" and clock: "wh_clock d \<le> now"
  shows "wh_inv newid (snd (claim_commit now lease token x d))"
proof (cases "tenant_busy now x d")
  case False
  let ?x1 = "x\<lparr>wd_Status := DDelivering, wd_AttemptCount := wd_AttemptCount x + 1, wd_Lease := Some (token, now + lease)\<rparr>"
  let ?f = "\<lambda>y. if wd_ID y = wd_ID x then ?x1 else y"
  let ?g = "\<lambda>a. if wd_Status x = DDelivering \<and> wt_Delivery a = wd_ID x \<and> wt_Number a = wd_AttemptCount x \<and> wt_Status a = WAInProgress then a\<lparr>wt_Status := WARetrying\<rparr> else a"
  let ?new = "\<lparr>wt_Delivery = wd_ID x, wt_Number = wd_AttemptCount x + 1, wt_Status = WAInProgress\<rparr>"
  define d' where "d' = snd (claim_commit now lease token x d)"
  have d': "wh_deliveries d' = map ?f (wh_deliveries d)" "wh_attempts d' = map ?g (wh_attempts d) @ [?new]" "wh_clock d' = now"
      "wh_events d' = wh_events d" "wh_subs d' = wh_subs d"
    using False by (simp_all add: d'_def claim_commit_def Let_def cong: map_cong)
  have T: "table_inv newid d" and R: "row_inv d x" and Rs: "\<forall>y\<in>set (wh_deliveries d). row_inv d y" and B: "busy_inv d"
    using inv x by (auto simp: wh_inv_def)
  note same = same_id [OF inj T]
  have keep: "wd_ID (?f y) = wd_ID y \<and> wd_Subscription (?f y) = wd_Subscription y \<and> wd_Event (?f y) = wd_Event y" if "y \<in> set (wh_deliveries d)" for y
    using same [OF that x] by (cases "wd_ID y = wd_ID x") simp_all
  have "wt_Delivery ` set (wh_attempts d') \<subseteq> wd_ID ` set (wh_deliveries d)"
  proof -
    have "wt_Delivery ` set (map ?g (wh_attempts d)) = wt_Delivery ` set (wh_attempts d)" by (rule image_keep) simp
    then have "wt_Delivery ` set (wh_attempts d') = insert (wd_ID x) (wt_Delivery ` set (wh_attempts d))"
      unfolding d'(2) set_append image_Un by simp
    then show ?thesis using T x unfolding table_inv_def by simp
  qed
  then have "table_inv newid d'" using table_inv_rows [OF T d'(1) keep _ d'(4)] d'(5) by simp
  moreover have "row_inv d' y" if "y \<in> set (wh_deliveries d')" for y
  proof -
    obtain z where z: "z \<in> set (wh_deliveries d)" "y = ?f z" using \<open>y \<in> set (wh_deliveries d')\<close> by (auto simp: d'(1))
    have at: "att d' i = map ?g (att d i) @ (if i = wd_ID x then [?new] else [])" for i
      using att_map [of ?g, OF _ d'(2)] by simp
    show ?thesis
    proof (cases "wd_ID z = wd_ID x")
      case True
      then have zx: "y = ?x1" using z(2) by simp
      have pos: "0 \<le> wd_AttemptCount x" using R by (simp add: row_inv_def)
      have "map wt_Number (map ?g (att d (wd_ID x))) = map wt_Number (att d (wd_ID x))" by (rule map_keep) simp
      also have "\<dots> = numbers (nat (wd_AttemptCount x))" using R by (simp add: row_inv_def)
      finally have mg: "map wt_Number (map ?g (att d (wd_ID x))) = numbers (nat (wd_AttemptCount x))" .
      have "map wt_Number (att d' (wd_ID x)) = map wt_Number (map ?g (att d (wd_ID x))) @ [wd_AttemptCount x + 1]" unfolding at by simp
      also have "\<dots> = numbers (Suc (nat (wd_AttemptCount x)))" unfolding mg numbers_Suc using pos by simp
      also have "Suc (nat (wd_AttemptCount x)) = nat (wd_AttemptCount x + 1)" using pos by simp
      finally have nums: "map wt_Number (att d' (wd_ID x)) = numbers (nat (wd_AttemptCount x + 1))" .
      have old: "wt_Status (?g a) \<noteq> WAInProgress \<and> wt_Number (?g a) \<noteq> wd_AttemptCount x + 1" if "a \<in> set (att d (wd_ID x))" for a
        using that R numbers_le [OF R that] by (auto simp: row_inv_def att_def)
      have "set (att d' (wd_ID x)) = insert ?new (?g ` set (att d (wd_ID x)))" unfolding at by simp
      then have stat: "\<forall>a\<in>set (att d' (wd_ID x)). wt_Status a = WAInProgress \<longleftrightarrow> wt_Number a = wd_AttemptCount x + 1" using old by force
      show ?thesis unfolding zx row_inv_def using nums stat pos by simp
    next
      case False
      then have "att d' (wd_ID z) = att d (wd_ID z)" using att_other [of "wd_ID z" ?g d] by (simp add: at)
      then show ?thesis using Rs z False row_inv_same [of d z d'] by simp
    qed
  qed
  moreover have "busy_inv d'"
    unfolding busy_inv_def d'(3)
  proof (intro ballI impI)
    fix a b
    assume ab: "a \<in> set (wh_deliveries d')" "b \<in> set (wh_deliveries d')" "wd_Tenant a = wd_Tenant b" "wd_active now a" "wd_active now b"
    have old: "y = ?x1 \<or> (y \<in> set (wh_deliveries d) \<and> wd_ID y \<noteq> wd_ID x)" if "y \<in> set (wh_deliveries d')" for y
      using that by (auto simp: d'(1))
    have excl: "wd_Tenant y \<noteq> wd_Tenant x" if "y \<in> set (wh_deliveries d)" "wd_ID y \<noteq> wd_ID x" "wd_active now y" for y
      using False that unfolding tenant_busy_def list_ex_iff by blast
    have early: "wd_active (wh_clock d) y" if "wd_active now y" for y using that clock by (auto simp: wd_active_def split: option.splits)
    show "wd_ID a = wd_ID b"
    proof (cases "a = ?x1 \<or> b = ?x1")
      case True
      then show ?thesis using old [OF ab(1)] old [OF ab(2)] excl ab(3,4,5) by fastforce
    next
      case no: False
      then show ?thesis using old [OF ab(1)] old [OF ab(2)] early ab(3,4,5) B unfolding busy_inv_def by blast
    qed
  qed
  ultimately show ?thesis unfolding d'_def wh_inv_def by blast
qed (use inv in \<open>simp add: claim_commit_def\<close>)

text \<open>A transaction that leaves a row and its attempts alone, or closes both.\<close>

lemma wh_inv_rows:
  assumes inv: "wh_inv newid d"
    and d': "wh_deliveries d' = map f (wh_deliveries d)" "wh_attempts d' = map g (wh_attempts d)" "wh_events d' = wh_events d"
      "wh_clock d' = wh_clock d" "map ss_ID (wh_subs d') = map ss_ID (wh_subs d)"
    and keep: "\<And>x. x \<in> set (wh_deliveries d) \<Longrightarrow> wd_ID (f x) = wd_ID x \<and> wd_Subscription (f x) = wd_Subscription x \<and> wd_Event (f x) = wd_Event x"
    and gk: "\<And>a. wt_Delivery (g a) = wt_Delivery a" "\<And>a. wt_Number (g a) = wt_Number a"
    and rows: "\<And>x. x \<in> set (wh_deliveries d) \<Longrightarrow> row_inv d x \<Longrightarrow> (f x = x \<and> (\<forall>a\<in>set (att d (wd_ID x)). g a = a)) \<or>
      (wd_Status (f x) \<noteq> DDelivering \<and> wd_Lease (f x) = None \<and> wd_AttemptCount (f x) = wd_AttemptCount x \<and>
       (\<forall>a\<in>set (att d (wd_ID x)). wt_Status (g a) \<noteq> WAInProgress))"
  shows "wh_inv newid d'"
proof -
  have T: "table_inv newid d" and Rs: "\<forall>y\<in>set (wh_deliveries d). row_inv d y" and B: "busy_inv d" using inv by (auto simp: wh_inv_def)
  have "wt_Delivery ` set (wh_attempts d') \<subseteq> wd_ID ` set (wh_deliveries d)"
    unfolding d'(2) image_keep [of wt_Delivery g, OF gk(1)] using T by (simp add: table_inv_def)
  then have "table_inv newid d'" using table_inv_rows [OF T d'(1) keep _ d'(3) d'(5)] by simp
  moreover have "row_inv d' y" if yin: "y \<in> set (wh_deliveries d')" for y
  proof -
    obtain x where x: "x \<in> set (wh_deliveries d)" "y = f x" using yin by (auto simp: d'(1))
    have at: "att d' i = map g (att d i)" for i using att_map [of g d' d "[]"] gk(1) d'(2) by simp
    have R: "row_inv d x" using Rs x(1) by blast
    have id: "wd_ID y = wd_ID x" using keep [OF x(1)] x(2) by simp
    from rows [OF x(1) R] show ?thesis
    proof
      assume same: "f x = x \<and> (\<forall>a\<in>set (att d (wd_ID x)). g a = a)"
      then have "att d' (wd_ID x) = att d (wd_ID x)" by (simp add: at map_idI)
      then show ?thesis using row_inv_same [OF R] same x(2) by simp
    next
      assume c: "wd_Status (f x) \<noteq> DDelivering \<and> wd_Lease (f x) = None \<and> wd_AttemptCount (f x) = wd_AttemptCount x \<and>
         (\<forall>a\<in>set (att d (wd_ID x)). wt_Status (g a) \<noteq> WAInProgress)"
      have "map wt_Number (att d' (wd_ID y)) = numbers (nat (wd_AttemptCount y))"
        unfolding id at map_keep [of wt_Number g, OF gk(2)] using R c x(2) by (simp add: row_inv_def)
      moreover have "\<forall>a\<in>set (att d' (wd_ID y)). wt_Status a \<noteq> WAInProgress" unfolding id at using c by simp
      ultimately show ?thesis using R c x(2) by (simp add: row_inv_def)
    qed
  qed
  moreover have "busy_inv d'"
  proof (rule busy_inv_kept [OF B d'(4)])
    fix y
    assume y: "y \<in> set (wh_deliveries d')" "wd_active (wh_clock d) y"
    then obtain x where x: "x \<in> set (wh_deliveries d)" "y = f x" by (auto simp: d'(1))
    then show "y \<in> set (wh_deliveries d)" using rows [OF x(1)] Rs y(2) by (auto simp: wd_active_def)
  qed
  ultimately show ?thesis by (simp add: wh_inv_def)
qed

lemma complete_found:
  assumes "fst (CompleteWebhookAttempt r d) = None"
  shows "\<exists>z\<in>set (wh_deliveries d).
    find (\<lambda>x. wd_ID x = wr_Delivery r \<and> wd_Status x = DDelivering \<and> map_option fst (wd_Lease x) = Some (wr_Token r)) (wh_deliveries d) = Some z \<and>
    wd_AttemptCount z = wr_Number r \<and> wd_ID z = wr_Delivery r \<and> wd_Status z = DDelivering \<and> map_option fst (wd_Lease z) = Some (wr_Token r)"
proof -
  obtain z where fz: "find (\<lambda>x. wd_ID x = wr_Delivery r \<and> wd_Status x = DDelivering \<and> map_option fst (wd_Lease x) = Some (wr_Token r)) (wh_deliveries d) = Some z"
      "wd_AttemptCount z = wr_Number r"
    using assms by (auto simp: CompleteWebhookAttempt_def Let_def split: option.splits if_splits)
  then show ?thesis unfolding find_Some_iff by (metis nth_mem)
qed

lemma wh_inv_complete:
  assumes inj: "inj newid" and inv: "wh_inv newid d"
  shows "wh_inv newid (snd (CompleteWebhookAttempt r d))"
proof (cases "fst (CompleteWebhookAttempt r d) = None")
  case False
  then have "snd (CompleteWebhookAttempt r d) = d"
    by (auto simp: CompleteWebhookAttempt_def Let_def split: option.splits if_splits)
  then show ?thesis using inv by simp
next
  case True
  define d' where "d' = snd (CompleteWebhookAttempt r d)"
  let ?mine = "\<lambda>a. wt_Delivery a = wr_Delivery r \<and> wt_Number a = wr_Number r \<and> wt_Status a = WAInProgress"
  obtain x where fx: "find (\<lambda>x. wd_ID x = wr_Delivery r \<and> wd_Status x = DDelivering \<and> map_option fst (wd_Lease x) = Some (wr_Token r)) (wh_deliveries d) = Some x"
      and cnt: "wd_AttemptCount x = wr_Number r" and x: "x \<in> set (wh_deliveries d)" "wd_ID x = wr_Delivery r" "wd_Status x = DDelivering"
    using complete_found [OF True] by blast
  let ?x1 = "case wr_Status r of
      Succeeded \<Rightarrow> x\<lparr>wd_Status := DSucceeded, wd_Lease := None\<rparr>
    | Retrying \<Rightarrow> x\<lparr>wd_Status := DPending, wd_NextAttemptAt := the (wr_NextRetryAt r), wd_Lease := None\<rparr>
    | Failed \<Rightarrow> x\<lparr>wd_Status := DFailed, wd_Lease := None\<rparr>"
  let ?f = "\<lambda>y. if wd_ID y = wd_ID x then ?x1 else y" and ?g = "\<lambda>a. if ?mine a then a\<lparr>wt_Status := wa_of (wr_Status r)\<rparr> else a"
  have d': "d' = d\<lparr>wh_attempts := map ?g (wh_attempts d), wh_deliveries := map ?f (wh_deliveries d)\<rparr>"
    using True fx cnt unfolding d'_def CompleteWebhookAttempt_def Let_def by (auto split: if_splits)
  have x1: "wd_ID ?x1 = wd_ID x" "wd_Subscription ?x1 = wd_Subscription x" "wd_Event ?x1 = wd_Event x" "wd_Status ?x1 \<noteq> DDelivering"
      "wd_Lease ?x1 = None" "wd_AttemptCount ?x1 = wd_AttemptCount x"
    by (simp_all split: wh_status.split)
  have same: "y = x" if "y \<in> set (wh_deliveries d)" "wd_ID y = wd_ID x" for y
    using same_id [OF inj _ that(1) x(1) that(2)] inv by (simp add: wh_inv_def)
  have "wh_inv newid d'"
  proof (rule wh_inv_rows [OF inv, where f = ?f and g = ?g])
    show "wd_ID (?f y) = wd_ID y \<and> wd_Subscription (?f y) = wd_Subscription y \<and> wd_Event (?f y) = wd_Event y" if "y \<in> set (wh_deliveries d)" for y
      using same [OF that] x1(1-3) by (cases "wd_ID y = wd_ID x") simp_all
    show "(?f y = y \<and> (\<forall>a\<in>set (att d (wd_ID y)). ?g a = a)) \<or>
      (wd_Status (?f y) \<noteq> DDelivering \<and> wd_Lease (?f y) = None \<and> wd_AttemptCount (?f y) = wd_AttemptCount y \<and>
       (\<forall>a\<in>set (att d (wd_ID y)). wt_Status (?g a) \<noteq> WAInProgress))" if "y \<in> set (wh_deliveries d)" "row_inv d y" for y
    proof (cases "wd_ID y = wd_ID x")
      case True
      then have y: "y = x" using same that(1) by blast
      have "wt_Status (?g a) \<noteq> WAInProgress" if a: "a \<in> set (att d (wd_ID x))" for a
      proof (cases "wt_Status a = WAInProgress")
        case True
        then have "wt_Number a = wr_Number r" "wt_Delivery a = wr_Delivery r" using \<open>row_inv d y\<close> a y cnt x(2) by (auto simp: row_inv_def att_def)
        then show ?thesis using True by (simp add: wa_of_def split: wh_status.split)
      qed simp
      then show ?thesis using x1 y by simp
    next
      case False
      then show ?thesis using x(2) by (auto simp: att_def)
    qed
  qed (simp_all add: d')
  then show ?thesis by (simp add: d'_def)
qed

lemma wh_inv_disable:
  assumes inj: "inj newid" and inv: "wh_inv newid d"
  shows "wh_inv newid (snd (DisableWebhookSubscription now tenant i d))"
proof (cases "GetWebhookSubscription tenant i d")
  case None
  then show ?thesis using inv by (simp add: DisableWebhookSubscription_def)
next
  case (Some s0)
  let ?mine = "\<lambda>x. wd_Tenant x = tenant \<and> wd_Subscription x = i"
  let ?ids = "wd_ID ` set (filter (\<lambda>x. ?mine x \<and> wd_Status x = DDelivering) (wh_deliveries d))"
  let ?f = "\<lambda>x. if ?mine x \<and> (wd_Status x = DPending \<or> wd_Status x = DDelivering) then x\<lparr>wd_Status := DCancelled, wd_Lease := None\<rparr> else x"
  let ?g = "\<lambda>a. if wt_Delivery a \<in> ?ids \<and> wt_Status a = WAInProgress then a\<lparr>wt_Status := WAFailed\<rparr> else a"
  let ?h = "\<lambda>s. if ss_Tenant s = tenant \<and> ss_ID s = i \<and> ss_enabled s then s\<lparr>ss_DisabledAt := Some now\<rparr> else s"
  define d' where "d' = snd (DisableWebhookSubscription now tenant i d)"
  have d': "wh_deliveries d' = map ?f (wh_deliveries d)" "wh_attempts d' = map ?g (wh_attempts d)" "wh_events d' = wh_events d"
      "wh_clock d' = wh_clock d" "wh_subs d' = map ?h (wh_subs d)"
    using Some by (simp_all add: d'_def DisableWebhookSubscription_def Let_def)
  have same: "y = x" if "y \<in> set (wh_deliveries d)" "x \<in> set (wh_deliveries d)" "wd_ID y = wd_ID x" for x y
    using same_id [OF inj _ that] inv by (simp add: wh_inv_def)
  have "wh_inv newid d'"
  proof (rule wh_inv_rows [OF inv d'(1-4)])
    show "map ss_ID (wh_subs d') = map ss_ID (wh_subs d)" unfolding d'(5) by (rule map_keep) simp
    show "(?f y = y \<and> (\<forall>a\<in>set (att d (wd_ID y)). ?g a = a)) \<or>
      (wd_Status (?f y) \<noteq> DDelivering \<and> wd_Lease (?f y) = None \<and> wd_AttemptCount (?f y) = wd_AttemptCount y \<and>
       (\<forall>a\<in>set (att d (wd_ID y)). wt_Status (?g a) \<noteq> WAInProgress))" if y: "y \<in> set (wh_deliveries d)" "row_inv d y" for y
    proof (cases "?mine y \<and> (wd_Status y = DPending \<or> wd_Status y = DDelivering)")
      case True
      have "wt_Status (?g a) \<noteq> WAInProgress" if a: "a \<in> set (att d (wd_ID y))" for a
      proof (cases "wt_Status a = WAInProgress")
        case inprog: True
        then have "wd_Status y = DDelivering" "wt_Delivery a = wd_ID y" using y(2) a by (auto simp: row_inv_def att_def)
        then have "wt_Delivery a \<in> ?ids" using True y(1) by auto
        then show ?thesis using inprog by simp
      qed simp
      then show ?thesis using True by simp
    next
      case False
      have "?g a = a" if a: "a \<in> set (att d (wd_ID y))" for a
      proof -
        have "\<not> (wt_Delivery a \<in> ?ids)"
        proof
          assume "wt_Delivery a \<in> ?ids"
          then obtain z where "z \<in> set (wh_deliveries d)" "?mine z" "wd_Status z = DDelivering" "wd_ID z = wd_ID y" using a by (auto simp: att_def)
          then show False using same [OF _ y(1)] False by blast
        qed
        then show ?thesis by simp
      qed
      then have "\<forall>a\<in>set (att d (wd_ID y)). ?g a = a" by blast
      moreover have "?f y = y" by (rule if_not_P [OF False])
      ultimately show ?thesis by blast
    qed
  qed simp_all
  then show ?thesis by (simp add: d'_def)
qed

lemma dcount_add: "dcount (add_delivery newid now e s xs) s' e' =
    (if s' = ss_ID s \<and> e' = we_ID e \<and> dcount xs s' e' = 0 then 1 else dcount xs s' e')"
  by (auto simp: dcount_def add_delivery_def list_ex_iff filter_empty_conv)

lemma dcount_fold: "dcount (fold (add_delivery newid now e) ss xs) s' e' =
    (if e' = we_ID e \<and> s' \<in> ss_ID ` set ss \<and> dcount xs s' e' = 0 then 1 else dcount xs s' e')"
  by (induction ss arbitrary: xs) (auto simp: dcount_add)

lemma fold_add_rows:
  "\<exists>ys. fold (add_delivery newid now e) ss xs = xs @ ys \<and> map wd_ID ys = map newid [length xs..<length xs + length ys] \<and>
     (\<forall>y\<in>set ys. wd_Event y = we_ID e \<and> wd_Status y = DPending \<and> wd_AttemptCount y = 0 \<and> wd_Lease y = None)"
proof (induction ss arbitrary: xs)
  case (Cons s ss)
  obtain zs where z: "add_delivery newid now e s xs = xs @ zs" "map wd_ID zs = map newid [length xs..<length xs + length zs]"
      "\<forall>y\<in>set zs. wd_Event y = we_ID e \<and> wd_Status y = DPending \<and> wd_AttemptCount y = 0 \<and> wd_Lease y = None"
  proof (cases "list_ex (\<lambda>x. wd_Subscription x = ss_ID s \<and> wd_Event x = we_ID e) xs")
    case True
    then show ?thesis using that [of "[]"] by (simp add: add_delivery_def)
  next
    case False
    then show ?thesis by (intro that) (auto simp: add_delivery_def)
  qed
  obtain ys where y: "fold (add_delivery newid now e) ss (xs @ zs) = (xs @ zs) @ ys" "map wd_ID ys = map newid [length (xs @ zs)..<length (xs @ zs) + length ys]"
      "\<forall>y\<in>set ys. wd_Event y = we_ID e \<and> wd_Status y = DPending \<and> wd_AttemptCount y = 0 \<and> wd_Lease y = None"
    using Cons.IH [of "xs @ zs"] by blast
  have "[length xs..<length xs + length (zs @ ys)] = [length xs..<length xs + length zs] @ [length xs + length zs..<length xs + length zs + length ys]"
    using upt_add_eq_append [of "length xs" "length xs + length zs" "length ys"] by (simp add: add.assoc)
  then have "map wd_ID (zs @ ys) = map newid [length xs..<length xs + length (zs @ ys)]" using z(2) y(2) by simp
  moreover have "fold (add_delivery newid now e) (s # ss) xs = xs @ zs @ ys" using z(1) y(1) by simp
  moreover have "\<forall>y\<in>set (zs @ ys). wd_Event y = we_ID e \<and> wd_Status y = DPending \<and> wd_AttemptCount y = 0 \<and> wd_Lease y = None" using z(3) y(3) by auto
  ultimately show ?case by blast
qed simp

lemma wh_inv_fan_event:
  assumes inv: "wh_inv newid d" and e: "e0 \<in> set (wh_events d)" "we_ID e0 = we_ID e" and inj: "inj newid"
  shows "wh_inv newid (fan_event newid now e d)"
proof -
  have T: "table_inv newid d" and Rs: "\<forall>y\<in>set (wh_deliveries d). row_inv d y" and B: "busy_inv d" using inv by (auto simp: wh_inv_def)
  let ?h = "\<lambda>x. if we_ID x = we_ID e then x\<lparr>we_FannedOut := True\<rparr> else x"
  define d' where "d' = fan_event newid now e d"
  obtain ys where ys: "wh_deliveries d' = wh_deliveries d @ ys"
      "map wd_ID ys = map newid [length (wh_deliveries d)..<length (wh_deliveries d) + length ys]"
      "\<forall>y\<in>set ys. wd_Event y = we_ID e \<and> wd_Status y = DPending \<and> wd_AttemptCount y = 0 \<and> wd_Lease y = None"
    using fold_add_rows [of newid now e "filter (sub_matches e) (wh_subs d)" "wh_deliveries d"] by (auto simp: d'_def fan_event_def)
  have d': "wh_events d' = map ?h (wh_events d)" "wh_attempts d' = wh_attempts d" "wh_clock d' = wh_clock d" "wh_subs d' = wh_subs d"
    by (simp_all add: d'_def fan_event_def)
  have ev: "map we_ID (wh_events d') = map we_ID (wh_events d)" unfolding d'(1) by (rule map_keep) simp
  have fanned: "\<exists>x\<in>set (wh_events d'). we_ID x = i \<and> we_FannedOut x"
    if old: "\<exists>x\<in>set (wh_events d). we_ID x = i \<and> (we_FannedOut x \<or> i = we_ID e)" for i
  proof -
    obtain x where "x \<in> set (wh_events d)" "we_ID x = i" "we_FannedOut x \<or> i = we_ID e" using old by blast
    then show ?thesis unfolding d'(1) by (intro bexI [where x = "?h x"]) auto
  qed
  have ids: "map wd_ID (wh_deliveries d') = map newid [0..<length (wh_deliveries d')]"
    using T ys(2) upt_add_eq_append [of 0 "length (wh_deliveries d)" "length ys"] by (simp add: table_inv_def ys(1))
  have "table_inv newid d'"
    unfolding table_inv_def
  proof (intro conjI)
    show "map wd_ID (wh_deliveries d') = map newid [0..<length (wh_deliveries d')]" by (rule ids)
    show "wt_Delivery ` set (wh_attempts d') \<subseteq> wd_ID ` set (wh_deliveries d')" using T by (auto simp: d'(2) ys(1) table_inv_def)
    show "distinct (map we_ID (wh_events d'))" "distinct (map ss_ID (wh_subs d'))" using T by (simp_all add: ev d'(4) table_inv_def)
    show "\<forall>s e. dcount (wh_deliveries d') s e \<le> 1"
    proof (intro allI)
      fix s e'
      have "dcount (wh_deliveries d) s e' \<le> 1" using T by (simp add: table_inv_def)
      then show "dcount (wh_deliveries d') s e' \<le> 1" by (simp add: d'_def fan_event_def dcount_fold)
    qed
    show "\<forall>x\<in>set (wh_deliveries d'). \<exists>e\<in>set (wh_events d'). we_ID e = wd_Event x \<and> we_FannedOut e"
    proof
      fix x
      assume "x \<in> set (wh_deliveries d')"
      then have "x \<in> set (wh_deliveries d) \<or> x \<in> set ys" by (simp add: ys(1))
      then show "\<exists>e\<in>set (wh_events d'). we_ID e = wd_Event x \<and> we_FannedOut e"
        using T ys(3) e by (intro fanned) (auto simp: table_inv_def)
    qed
  qed
  moreover have "row_inv d' y" if yin: "y \<in> set (wh_deliveries d')" for y
  proof (cases "y \<in> set (wh_deliveries d)")
    case True
    then show ?thesis using Rs row_inv_same [of d y d'] by (simp add: att_def d'(2))
  next
    case False
    then have y: "y \<in> set ys" using yin by (simp add: ys(1))
    have "distinct (map wd_ID (wh_deliveries d @ ys))" unfolding ys(1) [symmetric] ids using inj by (simp add: distinct_map inj_on_subset [OF _ subset_UNIV])
    then have "wd_ID y \<notin> wd_ID ` set (wh_deliveries d)" using y by auto
    moreover have "wt_Delivery ` set (wh_attempts d) \<subseteq> wd_ID ` set (wh_deliveries d)" using T by (simp add: table_inv_def)
    ultimately have "wt_Delivery a \<noteq> wd_ID y" if "a \<in> set (wh_attempts d)" for a using that by (metis imageI subsetD)
    then have "att d' (wd_ID y) = []" by (simp add: att_def d'(2) filter_empty_conv)
    then show ?thesis using y ys(3) by (simp add: row_inv_def numbers_def)
  qed
  moreover have "busy_inv d'" by (rule busy_inv_kept [OF B d'(3)]) (use ys in \<open>auto simp: wd_active_def\<close>)
  ultimately show ?thesis by (simp add: wh_inv_def d'_def)
qed

lemma fan_marks:
  "\<forall>y\<in>set (wh_events d). we_ID y = i \<longrightarrow> we_FannedOut y \<Longrightarrow> x \<in> set (wh_events (fold (fan_event newid now) es d)) \<Longrightarrow> we_ID x = i \<Longrightarrow> we_FannedOut x"
proof (induction es arbitrary: d)
  case (Cons e es)
  have "\<forall>y\<in>set (wh_events (fan_event newid now e d)). we_ID y = i \<longrightarrow> we_FannedOut y"
    using Cons.prems(1) by (auto simp: fan_event_def split: if_splits)
  then show ?case using Cons.IH [of "fan_event newid now e d"] Cons.prems(2,3) by simp
qed simp

lemma fan_fold:
  assumes inj: "inj newid" and inv: "wh_inv newid d" and es: "we_ID ` set es \<subseteq> we_ID ` set (wh_events d)"
  shows "wh_inv newid (fold (fan_event newid now) es d) \<and> wh_subs (fold (fan_event newid now) es d) = wh_subs d \<and>
    map we_ID (wh_events (fold (fan_event newid now) es d)) = map we_ID (wh_events d) \<and>
    (\<forall>x\<in>set (wh_events (fold (fan_event newid now) es d)). we_ID x \<in> we_ID ` set es \<longrightarrow> we_FannedOut x) \<and>
    (\<forall>s i. dcount (wh_deliveries (fold (fan_event newid now) es d)) s i =
      (if \<exists>e\<in>set es. we_ID e = i \<and> s \<in> ss_ID ` set (filter (sub_matches e) (wh_subs d)) then max 1 (dcount (wh_deliveries d) s i)
       else dcount (wh_deliveries d) s i))"
  using inv es
proof (induction es arbitrary: d)
  case (Cons e es)
  let ?d = "fan_event newid now e d"
  let ?h = "\<lambda>x. if we_ID x = we_ID e then x\<lparr>we_FannedOut := True\<rparr> else x"
  obtain e0 where e0: "e0 \<in> set (wh_events d)" "we_ID e0 = we_ID e" using Cons.prems(2) by (auto simp: image_iff)
  have inv': "wh_inv newid ?d" by (rule wh_inv_fan_event [OF Cons.prems(1) e0 inj])
  have ids: "map we_ID (wh_events ?d) = map we_ID (wh_events d)" unfolding fan_event_def by simp
  then have "we_ID ` set (wh_events ?d) = we_ID ` set (wh_events d)" by (metis set_map)
  then have "we_ID ` set es \<subseteq> we_ID ` set (wh_events ?d)" using Cons.prems(2) by simp
  note IH = Cons.IH [OF inv' this]
  have subs: "wh_subs ?d = wh_subs d" by (simp add: fan_event_def)
  have cnt: "dcount (wh_deliveries ?d) s i = (if we_ID e = i \<and> s \<in> ss_ID ` set (filter (sub_matches e) (wh_subs d)) then max 1 (dcount (wh_deliveries d) s i)
       else dcount (wh_deliveries d) s i)" for s i
    unfolding fan_event_def by (simp add: dcount_fold)
  have keep: "we_FannedOut x \<or> we_ID x \<noteq> we_ID e" if "x \<in> set (wh_events (fold (fan_event newid now) es ?d))" for x
  proof -
    have "\<forall>y\<in>set (wh_events ?d). we_ID y = we_ID e \<longrightarrow> we_FannedOut y" by (auto simp: fan_event_def)
    then show ?thesis using fan_marks that by blast
  qed
  have "(\<exists>e'\<in>set (e # es). we_ID e' = i \<and> s \<in> ss_ID ` set (filter (sub_matches e') (wh_subs d))) \<longleftrightarrow>
      (we_ID e = i \<and> s \<in> ss_ID ` set (filter (sub_matches e) (wh_subs d))) \<or> (\<exists>e'\<in>set es. we_ID e' = i \<and> s \<in> ss_ID ` set (filter (sub_matches e') (wh_subs d)))" for s i
    by simp
  then show ?case using IH subs ids cnt keep by (simp only: fold_simps comp_apply) (auto simp: max_def)
qed simp

lemma fan_batch_events: "we_ID ` set (fan_batch n locked d) \<subseteq> we_ID ` set (wh_events d)"
  by (auto simp: fan_batch_def dest!: in_set_takeD)

lemma wh_inv_same:
  assumes "wh_inv newid d" and "wh_deliveries d' = wh_deliveries d" "wh_attempts d' = wh_attempts d" "wh_clock d' = wh_clock d"
    and "distinct (map we_ID (wh_events d'))" "set (wh_events d) \<subseteq> set (wh_events d')" "distinct (map ss_ID (wh_subs d'))"
  shows "wh_inv newid d'"
proof -
  have "\<exists>e\<in>set (wh_events d'). we_ID e = wd_Event x \<and> we_FannedOut e" if "x \<in> set (wh_deliveries d)" for x
    using assms(1,6) that unfolding wh_inv_def table_inv_def by blast
  then have "table_inv newid d'" using assms(1,5,7) unfolding wh_inv_def table_inv_def assms(2,3) by blast
  moreover have "row_inv d' x = row_inv d x" for x by (simp only: row_inv_def att_def assms(3))
  moreover have "busy_inv d' = busy_inv d" by (simp only: busy_inv_def assms(2,4))
  ultimately show ?thesis using assms(1) unfolding wh_inv_def assms(2) by blast
qed

lemma wh_inv_step:
  assumes "inj newid" and "wh_step newid d d'" and "wh_inv newid d"
  shows "wh_inv newid d'"
  using assms(2,3)
proof (induction rule: wh_step.induct)
  case (subscribe d i now tenant u secret types)
  then have "distinct (map we_ID (wh_events d))" "distinct (map ss_ID (wh_subs d))" by (simp_all add: wh_inv_def table_inv_def)
  then have "distinct (map ss_ID (wh_subs (snd (InsertWebhookSubscription i now tenant u secret types d))))"
    by (simp add: InsertWebhookSubscription_def)
  with \<open>distinct (map we_ID (wh_events d))\<close> show ?case
    by (intro wh_inv_same [OF subscribe]) (simp_all only:, simp_all add: InsertWebhookSubscription_def)
next
  case (rotate d tenant i secret)
  let ?h = "\<lambda>s. if ss_Tenant s = tenant \<and> ss_ID s = i \<and> ss_enabled s then s\<lparr>ss_Secret := secret\<rparr> else s"
  have di: "distinct (map we_ID (wh_events d))" "distinct (map ss_ID (wh_subs d))" using rotate by (simp_all add: wh_inv_def table_inv_def)
  have "map ss_ID (map ?h (wh_subs d)) = map ss_ID (wh_subs d)" by (rule map_keep) simp
  then have "distinct (map ss_ID (map ?h (wh_subs d)))" using di(2) by (simp only:)
  with di show ?case by (intro wh_inv_same [OF rotate]) (simp_all only: RotateWebhookSecret_def, auto)
next
  case (event e d)
  then have "distinct (map we_ID (wh_events d))" "distinct (map ss_ID (wh_subs d))" by (simp_all add: wh_inv_def table_inv_def)
  with event show ?case by (intro wh_inv_same [OF event(3)]) auto
next
  case (fanout d now limit locked)
  then show ?case using fan_fold [OF assms(1) fanout fan_batch_events] by (simp add: FanOutWebhookEvents_def Let_def)
qed (use assms(1) wh_inv_disable wh_inv_claim wh_inv_complete in auto)

interpretation webhooks: invariant_system wh_init "wh_step newid" "\<lambda>d. inj newid \<longrightarrow> wh_inv newid d"
  by unfold_locales (auto intro: wh_inv_init wh_inv_step)


definition wd_final :: "wh_delivery \<Rightarrow> bool" where
  "wd_final x \<longleftrightarrow> wd_Status x = DSucceeded \<or> wd_Status x = DFailed \<or> wd_Status x = DCancelled"

definition goes_on :: "wh_delivery \<Rightarrow> wh_delivery \<Rightarrow> bool" where
  "goes_on x y \<longleftrightarrow> wd_ID y = wd_ID x \<and> wd_Tenant y = wd_Tenant x \<and> wd_Subscription y = wd_Subscription x \<and> wd_Event y = wd_Event x \<and>
     wd_AttemptCount x \<le> wd_AttemptCount y \<and> (wd_final x \<longrightarrow> y = x)"

lemma goes_on_refl [simp]: "goes_on x x"
  by (simp add: goes_on_def)

lemma goes_on_trans: "goes_on x y \<Longrightarrow> goes_on y z \<Longrightarrow> goes_on x z"
  by (auto simp: goes_on_def)

lemma goes_map: "x \<in> set xs \<Longrightarrow> goes_on x (f x) \<Longrightarrow> \<exists>y\<in>set (map f xs). goes_on x y"
  by auto

lemma fan_fold_rows: "set (wh_deliveries d) \<subseteq> set (wh_deliveries (fold (fan_event newid now) es d))"
proof (induction es arbitrary: d)
  case (Cons e es)
  obtain ys where "wh_deliveries (fan_event newid now e d) = wh_deliveries d @ ys"
    using fold_add_rows [of newid now e "filter (sub_matches e) (wh_subs d)" "wh_deliveries d"] by (auto simp: fan_event_def)
  then show ?case using Cons [of "fan_event newid now e d"] by auto
qed simp

lemma step_goes_on:
  assumes inj: "inj newid" and step: "wh_step newid d d'" and inv: "wh_inv newid d" and x: "x \<in> set (wh_deliveries d)"
  shows "\<exists>y\<in>set (wh_deliveries d'). goes_on x y"
  using step inv x
proof (induction rule: wh_step.induct)
  case (disable d now tenant i)
  show ?case
  proof (cases "GetWebhookSubscription tenant i d")
    case None
    then show ?thesis using disable by (auto simp: DisableWebhookSubscription_def intro: bexI [where x = x])
  next
    case (Some s)
    let ?f = "\<lambda>x. if wd_Tenant x = tenant \<and> wd_Subscription x = i \<and> (wd_Status x = DPending \<or> wd_Status x = DDelivering) then x\<lparr>wd_Status := DCancelled, wd_Lease := None\<rparr> else x"
    have rows: "wh_deliveries (snd (DisableWebhookSubscription now tenant i d)) = map ?f (wh_deliveries d)"
      using Some by (simp add: DisableWebhookSubscription_def Let_def)
    have "goes_on x (?f x)" by (auto simp: goes_on_def wd_final_def)
    then show ?thesis unfolding rows by (intro goes_map [OF disable.prems(2)])
  qed
next
  case (fanout d now limit locked)
  then have "x \<in> set (wh_deliveries (snd (FanOutWebhookEvents newid now limit locked d)))"
    using fan_fold_rows [of d newid now "fan_batch (nat limit) locked d"] by (auto simp: FanOutWebhookEvents_def Let_def)
  then show ?case by (rule bexI [rotated]) simp
next
  case (claim z d now lease token)
  show ?case
  proof (cases "tenant_busy now z d")
    case True
    then show ?thesis using claim by (auto simp: claim_commit_def intro: bexI [where x = x])
  next
    case False
    let ?z1 = "z\<lparr>wd_Status := DDelivering, wd_AttemptCount := wd_AttemptCount z + 1, wd_Lease := Some (token, now + lease)\<rparr>"
    have rows: "wh_deliveries (snd (claim_commit now lease token z d)) = map (\<lambda>y. if wd_ID y = wd_ID z then ?z1 else y) (wh_deliveries d)"
      using False by (simp add: claim_commit_def Let_def)
    have "x = z" if "wd_ID x = wd_ID z" using same_id [OF inj _ claim.prems(2) claim.hyps(1) that] claim.prems(1) by (simp add: wh_inv_def)
    moreover have "goes_on z ?z1" using claim.hyps(2) by (auto simp: goes_on_def wd_final_def wd_due_def)
    ultimately have "goes_on x (if wd_ID x = wd_ID z then ?z1 else x)" by auto
    then show ?thesis unfolding rows by (intro goes_map [OF claim.prems(2)])
  qed
next
  case (complete d r)
  show ?case
  proof (cases "fst (CompleteWebhookAttempt r d) = None")
    case False
    then have "snd (CompleteWebhookAttempt r d) = d"
      by (auto simp: CompleteWebhookAttempt_def Let_def split: option.splits if_splits)
    then show ?thesis using complete by (auto intro: bexI [where x = x])
  next
    case True
    then obtain z where fz: "find (\<lambda>x. wd_ID x = wr_Delivery r \<and> wd_Status x = DDelivering \<and> map_option fst (wd_Lease x) = Some (wr_Token r)) (wh_deliveries d) = Some z"
        and z: "z \<in> set (wh_deliveries d)" "wd_Status z = DDelivering" using complete_found by blast
    let ?z1 = "case wr_Status r of
        Succeeded \<Rightarrow> z\<lparr>wd_Status := DSucceeded, wd_Lease := None\<rparr>
      | Retrying \<Rightarrow> z\<lparr>wd_Status := DPending, wd_NextAttemptAt := the (wr_NextRetryAt r), wd_Lease := None\<rparr>
      | Failed \<Rightarrow> z\<lparr>wd_Status := DFailed, wd_Lease := None\<rparr>"
    have rows: "wh_deliveries (snd (CompleteWebhookAttempt r d)) = map (\<lambda>y. if wd_ID y = wd_ID z then ?z1 else y) (wh_deliveries d)"
      using True fz unfolding CompleteWebhookAttempt_def Let_def by (auto split: if_splits)
    have "x = z" if "wd_ID x = wd_ID z" using same_id [OF inj _ complete.prems(2) z(1) that] complete.prems(1) by (simp add: wh_inv_def)
    moreover have "goes_on z ?z1" using z(2) by (auto simp: goes_on_def wd_final_def split: wh_status.split)
    ultimately have "goes_on x (if wd_ID x = wd_ID z then ?z1 else x)" by auto
    then show ?thesis unfolding rows by (intro goes_map [OF complete.prems(2)])
  qed
qed (auto simp: InsertWebhookSubscription_def RotateWebhookSecret_def intro: bexI [where x = x])

lemma steps_go_on:
  assumes inj: "inj newid" and steps: "(wh_step newid)\<^sup>*\<^sup>* d d'" and inv: "wh_inv newid d" and x: "x \<in> set (wh_deliveries d)"
  shows "wh_inv newid d' \<and> (\<exists>y\<in>set (wh_deliveries d'). goes_on x y)"
  using steps
proof (induction rule: rtranclp_induct)
  case base
  then show ?case using inv x by (auto intro: bexI [where x = x])
next
  case (step d1 d2)
  then obtain y where y: "y \<in> set (wh_deliveries d1)" "goes_on x y" and i: "wh_inv newid d1" by blast
  then obtain z where "z \<in> set (wh_deliveries d2)" "goes_on y z" using step_goes_on [OF inj step.hyps(2) i y(1)] by blast
  then show ?case using wh_inv_step [OF inj step.hyps(2) i] goes_on_trans [OF y(2)] by blast
qed

text \<open>
  A webhook obligation is never lost and never reopened. A delivery that exists keeps existing, for
  the same subscription and event, with an attempt count that only grows; and once it has succeeded, failed
  or been cancelled, nothing changes it any more: it is not claimed again.
\<close>

theorem webhook_never_lost:
  assumes "inj newid" and "reachable wh_init (wh_step newid) d" and "(wh_step newid)\<^sup>*\<^sup>* d d'" and "x \<in> set (wh_deliveries d)"
  shows "\<exists>y\<in>set (wh_deliveries d'). wd_ID y = wd_ID x \<and> wd_Subscription y = wd_Subscription x \<and> wd_Event y = wd_Event x \<and>
    wd_AttemptCount x \<le> wd_AttemptCount y \<and> (wd_final x \<longrightarrow> y = x)"
proof -
  have "wh_inv newid d" using webhooks.inv_reachable [OF assms(2)] assms(1) by blast
  then show ?thesis using steps_go_on [OF assms(1,3) _ assms(4)] unfolding goes_on_def by blast
qed

text \<open>
  A lease fences. A completion is recorded only for the worker that holds the delivery's current lease and
  for the attempt of that lease; after it, the same result is refused, so a delivery that was claimed again after
  its lease had expired cannot be settled by the worker that lost it.
\<close>

theorem webhook_fenced:
  assumes "inj newid" and "reachable wh_init (wh_step newid) d" and ok: "CompleteWebhookAttempt r d = (None, d')"
    and x: "x \<in> set (wh_deliveries d)" "wd_ID x = wr_Delivery r"
  shows "(\<exists>t. wd_Lease x = Some (wr_Token r, t)) \<and> wd_AttemptCount x = wr_Number r \<and> fst (CompleteWebhookAttempt r d') \<noteq> None"
proof -
  have inv: "wh_inv newid d" using webhooks.inv_reachable [OF assms(2)] assms(1) by blast
  have inv': "wh_inv newid d'" using wh_inv_complete [OF assms(1) inv, of r] ok by simp
  obtain z where z: "z \<in> set (wh_deliveries d)" "wd_ID z = wr_Delivery r" "map_option fst (wd_Lease z) = Some (wr_Token r)" "wd_AttemptCount z = wr_Number r"
      and fz: "find (\<lambda>x. wd_ID x = wr_Delivery r \<and> wd_Status x = DDelivering \<and> map_option fst (wd_Lease x) = Some (wr_Token r)) (wh_deliveries d) = Some z"
    using complete_found [of r d] ok by auto
  have zx: "x = z" using same_id [OF assms(1) _ x(1) z(1)] inv x(2) z(2) by (simp add: wh_inv_def)
  have "fst (CompleteWebhookAttempt r d') \<noteq> None"
  proof -
    have "wd_Status y \<noteq> DDelivering" if "y \<in> set (wh_deliveries d')" "wd_ID y = wr_Delivery r" for y
      using ok fz that z(2) unfolding CompleteWebhookAttempt_def Let_def by (auto split: if_splits wh_status.splits)
    then have "find (\<lambda>x. wd_ID x = wr_Delivery r \<and> wd_Status x = DDelivering \<and> map_option fst (wd_Lease x) = Some (wr_Token r)) (wh_deliveries d') = None"
      unfolding find_None_iff by blast
    then show ?thesis by (simp add: CompleteWebhookAttempt_def)
  qed
  then show ?thesis using z zx by auto
qed

text \<open>
  Fan-out is exact. When a batch of events is fanned out, each of its events has afterwards exactly one
  delivery for every subscription of its tenant that is enabled, was created before the event and asks for
  its type, and none for any other subscription; the events are marked, so they are not fanned out again.
\<close>

theorem fanout_exact:
  assumes "inj newid" and "reachable wh_init (wh_step newid) d" and "FanOutWebhookEvents newid now limit locked d = (Inr n, d')"
    and e: "e \<in> set (fan_batch (nat limit) locked d)" and s: "s \<in> set (wh_subs d)"
  shows "dcount (wh_deliveries d') (ss_ID s) (we_ID e) = (if sub_matches e s then 1 else 0) \<and>
    (\<forall>x\<in>set (wh_events d'). we_ID x = we_ID e \<longrightarrow> we_FannedOut x)"
proof -
  have inv: "wh_inv newid d" using webhooks.inv_reachable [OF assms(2)] assms(1) by blast
  then have T: "table_inv newid d" by (simp add: wh_inv_def)
  let ?es = "fan_batch (nat limit) locked d"
  have d': "d' = fold (fan_event newid now) ?es d" using assms(3) by (auto simp: FanOutWebhookEvents_def Let_def split: if_splits)
  note F = fan_fold [OF assms(1) inv fan_batch_events, of now "nat limit" locked, folded d']
  have es: "x \<in> set (wh_events d) \<and> \<not> we_FannedOut x" if "x \<in> set ?es" for x using that by (auto simp: fan_batch_def dest!: in_set_takeD)
  have same_e: "x = e" if "x \<in> set (wh_events d)" "we_ID x = we_ID e" for x
    using T that es [OF e] unfolding table_inv_def distinct_map by (meson inj_onD)
  have zero: "dcount (wh_deliveries d) (ss_ID s) (we_ID e) = 0"
  proof -
    have "wd_Event x \<noteq> we_ID e" if "x \<in> set (wh_deliveries d)" for x
      using T that es [OF e] same_e unfolding table_inv_def by metis
    then show ?thesis by (simp add: dcount_def filter_empty_conv)
  qed
  have same_s: "t = s" if "t \<in> set (wh_subs d)" "ss_ID t = ss_ID s" for t
    using T that s unfolding table_inv_def distinct_map by (meson inj_onD)
  have "(\<exists>x\<in>set ?es. we_ID x = we_ID e \<and> ss_ID s \<in> ss_ID ` set (filter (sub_matches x) (wh_subs d))) \<longleftrightarrow> sub_matches e s"
  proof
    assume "\<exists>x\<in>set ?es. we_ID x = we_ID e \<and> ss_ID s \<in> ss_ID ` set (filter (sub_matches x) (wh_subs d))"
    then obtain x t where "x \<in> set ?es" "we_ID x = we_ID e" "t \<in> set (wh_subs d)" "ss_ID t = ss_ID s" "sub_matches x t" by auto
    then show "sub_matches e s" using same_e es same_s by metis
  next
    assume "sub_matches e s"
    then show "\<exists>x\<in>set ?es. we_ID x = we_ID e \<and> ss_ID s \<in> ss_ID ` set (filter (sub_matches x) (wh_subs d))" using e s by auto
  qed
  then show ?thesis using F zero e by auto
qed

section \<open>One delivery, from the event to its end\<close>

definition wh_demo0 :: whdb where
  "wh_demo0 = \<lparr>wh_subs = [], wh_events = [], wh_deliveries = [], wh_attempts = [], wh_clock = 0\<rparr>"

definition wh_demo_event :: wh_event where
  "wh_demo_event = \<lparr>we_ID = ''e'', we_Tenant = ''t'', we_Type = EventQueued, we_At = 5, we_FannedOut = False\<rparr>"

definition wh_demo1 :: whdb where
  "wh_demo1 = snd (InsertWebhookSubscription ''s'' 1 ''t'' ''https://a.b/'' ''x'' [''email.queued''] wh_demo0)"

definition wh_demo2 :: whdb where
  "wh_demo2 = wh_demo1\<lparr>wh_events := wh_events wh_demo1 @ [wh_demo_event]\<rparr>"

definition wh_demo3 :: whdb where
  "wh_demo3 = snd (FanOutWebhookEvents nat_dec 6 100 (\<lambda>_. False) wh_demo2)"

definition wh_demo_row :: wh_delivery where
  "wh_demo_row = \<lparr>wd_ID = ''0'', wd_Tenant = ''t'', wd_Subscription = ''s'', wd_Event = ''e'', wd_Status = DPending, wd_AttemptCount = 0,
     wd_NextAttemptAt = 6, wd_Lease = None\<rparr>"

definition wh_demo4 :: whdb where
  "wh_demo4 = snd (claim_commit 7 30 ''k'' wh_demo_row wh_demo3)"

definition wh_demo_result :: wh_result where
  "wh_demo_result = \<lparr>wr_Delivery = ''0'', wr_Token = ''k'', wr_Number = 1, wr_Status = Succeeded, wr_NextRetryAt = None\<rparr>"

lemma wh_demo_subs:
  "wh_subs wh_demo2 = [\<lparr>ss_ID = ''s'', ss_Tenant = ''t'', ss_URL = ''https://a.b/'', ss_Secret = ''x'', ss_Types = [''email.queued''],
     ss_CreatedAt = 1, ss_DisabledAt = None\<rparr>]"
  "wh_events wh_demo1 = []" "wh_events wh_demo2 = [wh_demo_event]" "wh_deliveries wh_demo2 = []" "wh_attempts wh_demo2 = []" "wh_clock wh_demo2 = 0"
  by (simp_all add: wh_demo2_def wh_demo1_def wh_demo0_def InsertWebhookSubscription_def)

lemma wh_demo_batch: "fan_batch 100 (\<lambda>_. False) wh_demo2 = [wh_demo_event]"
  by (simp add: fan_batch_def wh_demo_subs wh_demo_event_def)

lemma wh_demo_fan: "FanOutWebhookEvents nat_dec 6 100 (\<lambda>_. False) wh_demo2 = (Inr 1, wh_demo3)"
  unfolding wh_demo3_def by (simp add: FanOutWebhookEvents_def wh_demo_batch Let_def)

lemma char_48: "char_of (48 :: nat) = CHR ''0''"
  by (simp add: char_of_def bit_simps)

lemma wh_demo_rows: "wh_deliveries wh_demo3 = [wh_demo_row]" "wh_attempts wh_demo3 = []" "wh_clock wh_demo3 = 0"
  unfolding wh_demo3_def FanOutWebhookEvents_def
  by (simp_all add: wh_demo_batch Let_def fan_event_def wh_demo_subs sub_matches_def wh_demo_event_def PublicEventType_def ss_enabled_def
      add_delivery_def wh_demo_row_def nat_dec_small char_48)

lemma wh_demo_reach:
  "reachable wh_init (wh_step nat_dec) wh_demo2" "reachable wh_init (wh_step nat_dec) wh_demo3" "reachable wh_init (wh_step nat_dec) wh_demo4"
  "wh_step nat_dec wh_demo3 wh_demo4"
proof -
  have "reachable wh_init (wh_step nat_dec) wh_demo0" by (rule reach_init) (simp add: wh_init_def wh_demo0_def)
  moreover have "wh_step nat_dec wh_demo0 wh_demo1" unfolding wh_demo1_def by (rule wh_step.subscribe)
  ultimately have "reachable wh_init (wh_step nat_dec) wh_demo1" by (rule reach_step)
  moreover have "wh_step nat_dec wh_demo1 wh_demo2" unfolding wh_demo2_def by (rule wh_step.event) (simp_all add: wh_demo_subs wh_demo_event_def)
  ultimately show r2: "reachable wh_init (wh_step nat_dec) wh_demo2" by (rule reach_step)
  have "wh_step nat_dec wh_demo2 wh_demo3" unfolding wh_demo3_def by (rule wh_step.fanout)
  with r2 show r3: "reachable wh_init (wh_step nat_dec) wh_demo3" by (rule reach_step)
  show s4: "wh_step nat_dec wh_demo3 wh_demo4"
    unfolding wh_demo4_def by (rule wh_step.claim) (simp_all add: wh_demo_rows wd_due_def, simp_all add: wh_demo_row_def)
  with r3 show "reachable wh_init (wh_step nat_dec) wh_demo4" by (rule reach_step)
qed

lemma inj_nat_dec: "inj nat_dec"
  by (rule injI) simp

lemma wh_demo_claimed:
  "wh_deliveries wh_demo4 = [wh_demo_row\<lparr>wd_Status := DDelivering, wd_AttemptCount := 1, wd_Lease := Some (''k'', 37)\<rparr>]"
  "wh_attempts wh_demo4 = [\<lparr>wt_Delivery = ''0'', wt_Number = 1, wt_Status = WAInProgress\<rparr>]"
  by (simp_all add: wh_demo4_def claim_commit_def tenant_busy_def wh_demo_rows wh_demo_row_def Let_def)


theorem webhook_never_lost_witness: "\<exists>y\<in>set (wh_deliveries wh_demo4). wd_ID y = ''0'' \<and> wd_Subscription y = ''s'' \<and> wd_Event y = ''e''"
proof -
  have "wh_demo_row \<in> set (wh_deliveries wh_demo3)" by (simp add: wh_demo_rows)
  from webhook_never_lost [OF inj_nat_dec wh_demo_reach(2) r_into_rtranclp [of "wh_step nat_dec", OF wh_demo_reach(4)] this]
  obtain y where "y \<in> set (wh_deliveries wh_demo4)" "wd_ID y = wd_ID wh_demo_row" "wd_Subscription y = wd_Subscription wh_demo_row" "wd_Event y = wd_Event wh_demo_row"
    by blast
  then show ?thesis by (intro bexI [where x = y]) (simp_all add: wh_demo_row_def)
qed

lemma wh_demo_completed: "fst (CompleteWebhookAttempt wh_demo_result wh_demo4) = None"
  by (simp add: CompleteWebhookAttempt_def wh_demo_result_def wh_demo_claimed wh_demo_row_def Let_def)

theorem webhook_fenced_witness:
  "fst (CompleteWebhookAttempt wh_demo_result (snd (CompleteWebhookAttempt wh_demo_result wh_demo4))) \<noteq> None"
proof -
  have "CompleteWebhookAttempt wh_demo_result wh_demo4 = (None, snd (CompleteWebhookAttempt wh_demo_result wh_demo4))"
    using wh_demo_completed by (simp add: prod_eq_iff)
  moreover have "wh_demo_row\<lparr>wd_Status := DDelivering, wd_AttemptCount := 1, wd_Lease := Some (''k'', 37)\<rparr> \<in> set (wh_deliveries wh_demo4)"
    by (simp add: wh_demo_claimed)
  ultimately show ?thesis
    using webhook_fenced [OF inj_nat_dec wh_demo_reach(3)] by (auto simp: wh_demo_row_def wh_demo_result_def)
qed

theorem fanout_exact_witness: "dcount (wh_deliveries wh_demo3) ''s'' ''e'' = 1"
proof -
  let ?s = "\<lparr>ss_ID = ''s'', ss_Tenant = ''t'', ss_URL = ''https://a.b/'', ss_Secret = ''x'', ss_Types = [''email.queued''], ss_CreatedAt = 1, ss_DisabledAt = None\<rparr>"
  have "wh_demo_event \<in> set (fan_batch (nat 100) (\<lambda>_. False) wh_demo2)" "?s \<in> set (wh_subs wh_demo2)" by (simp_all add: wh_demo_batch wh_demo_subs)
  moreover have "sub_matches wh_demo_event ?s" by (simp add: sub_matches_def wh_demo_event_def PublicEventType_def ss_enabled_def)
  ultimately show ?thesis
    using fanout_exact [OF inj_nat_dec wh_demo_reach(1) wh_demo_fan] by (fastforce simp: wh_demo_event_def)
qed

end
