(* ===== verification/Billing.thy ===== *)
theory Billing
  imports Durable_Store
begin

text \<open>
  Plans and payments: the plan table and the answers of the payment provider (\<^verbatim>\<open>internal/billing\<close>), the tables and
  transactions of \<^verbatim>\<open>internal/database/plans.go\<close> and \<^verbatim>\<open>renewal.go\<close>, the renewal pass of
  \<^verbatim>\<open>internal/api/billing_renewal.go\<close>. A transaction is a function on the
  tables; the provider, the mailer, the cipher of saved cards and failures of the database are parameters.
  The theorems: a period is charged at most once, only after notice, at most three times attempted and at the
  plan's price; a payment counts once; what the pass does is a sequence of the transactions; a lapse keeps
  the retention window.
\<close>

section \<open>Plans\<close>

record plan =
  pl_ID :: string
  pl_Price :: int
  pl_DailySends :: int
  pl_Domains :: int
  pl_Members :: int
  pl_RetentionDays :: int
  pl_Broadcasts :: bool
  pl_Webhooks :: bool

definition Unlimited :: int where "Unlimited = 0"

definition plan_free :: plan where
  "plan_free = \<lparr>pl_ID = ''free'', pl_Price = 0, pl_DailySends = 500, pl_Domains = 5, pl_Members = 1, pl_RetentionDays = 7, pl_Broadcasts = False, pl_Webhooks = False\<rparr>"

definition plan_plus :: plan where
  "plan_plus = \<lparr>pl_ID = ''plus'', pl_Price = 600, pl_DailySends = 10000, pl_Domains = 15, pl_Members = 5, pl_RetentionDays = 30, pl_Broadcasts = True, pl_Webhooks = True\<rparr>"

definition plan_pro :: plan where
  "plan_pro = \<lparr>pl_ID = ''pro'', pl_Price = 2400, pl_DailySends = 100000, pl_Domains = Unlimited, pl_Members = Unlimited, pl_RetentionDays = 90, pl_Broadcasts = True, pl_Webhooks = True\<rparr>"

definition Plans :: "string \<rightharpoonup> plan" where
  "Plans = [''free'' \<mapsto> plan_free, ''plus'' \<mapsto> plan_plus, ''pro'' \<mapsto> plan_pro]"

definition PlanFor :: "string \<Rightarrow> plan" where
  "PlanFor i = (case Plans i of Some p \<Rightarrow> p | None \<Rightarrow> plan_free)"

definition IsPaid :: "string \<Rightarrow> bool" where
  "IsPaid i = (case Plans i of Some p \<Rightarrow> pl_Price p > 0 | None \<Rightarrow> False)"

definition Within :: "int \<Rightarrow> int \<Rightarrow> bool" where
  "Within current limit \<longleftrightarrow> limit = Unlimited \<or> current < limit"

definition ReminderLead :: duration where "ReminderLead = 72 * hour"
definition RenewalChargeWindow :: duration where "RenewalChargeWindow = 48 * hour"
definition RenewalRetrySpacing :: duration where "RenewalRetrySpacing = 12 * hour"
definition RenewalMaxAttempts :: nat where "RenewalMaxAttempts = 3"
definition RenewalMinNotice :: duration where "RenewalMinNotice = 24 * hour"
definition RenewalReconcileAfter :: duration where "RenewalReconcileAfter = hour"
definition planPeriod :: duration where "planPeriod = 30 * 24 * hour"

definition RenewalReference :: "string \<Rightarrow> int \<Rightarrow> nat \<Rightarrow> string" where
  "RenewalReference tenantID periodEndUnixMicro attempt =
     ''mailx-renew-'' @ tenantID @ ''-'' @ int_dec periodEndUnixMicro @ ''-'' @ nat_dec attempt"

definition UnixMicro :: "gotime \<Rightarrow> int" where
  "UnixMicro t = t div 1000"

section \<open>Answers of the payment provider\<close>

datatype chargeOutcome = ChargeUnknown | ChargeSucceeded | ChargeFailed

record chargeResult =
  ch_Outcome :: chargeOutcome
  ch_Reason :: string
  ch_Amount :: int
  ch_Currency :: string

record txEnvelope =
  tx_OK :: bool
  tx_Message :: string
  tx_Status :: string
  tx_Amount :: int
  tx_Currency :: string
  tx_Gateway :: string

text \<open>No response at all, or a status with the decoded body (\<open>None\<close>: it could not be decoded).\<close>

datatype txReply = TxNoResponse | TxResponse int "txEnvelope option"

definition classify_tx :: "unicode \<Rightarrow> string \<Rightarrow> chargeOutcome" where
  "classify_tx U status =
     (let s = ToLower U status
      in if s = ''success'' then ChargeSucceeded
         else if s = ''failed'' \<or> s = ''abandoned'' \<or> s = ''reversed'' then ChargeFailed
         else ChargeUnknown)"

definition charge_result :: "chargeOutcome \<Rightarrow> string \<Rightarrow> chargeResult" where
  "charge_result x r = \<lparr>ch_Outcome = x, ch_Reason = r, ch_Amount = 0, ch_Currency = []\<rparr>"

definition doTx :: "unicode \<Rightarrow> bool \<Rightarrow> txReply \<Rightarrow> chargeResult" where
  "doTx U verify reply =
     (case reply of
        TxNoResponse \<Rightarrow> charge_result ChargeUnknown []
      | TxResponse code body \<Rightarrow>
          if code \<ge> 500 \<or> code = 429 then charge_result ChargeUnknown []
          else case body of
            None \<Rightarrow> charge_result ChargeUnknown []
          | Some env \<Rightarrow>
              if verify \<and> (code = 400 \<or> code = 404) \<and> \<not> tx_OK env then charge_result ChargeFailed (tx_Message env)
              else if verify \<and> (code \<ge> 400 \<or> \<not> tx_OK env) then charge_result ChargeUnknown []
              else if code \<ge> 400 \<or> \<not> tx_OK env then charge_result ChargeFailed (tx_Message env)
              else \<lparr>ch_Outcome = classify_tx U (tx_Status env),
                    ch_Reason = (if tx_Gateway env = [] then tx_Message env else tx_Gateway env),
                    ch_Amount = tx_Amount env, ch_Currency = tx_Currency env\<rparr>)"

definition ps_currency :: string where "ps_currency = ''USD''"

record chargeRequest =
  cq_Email :: string
  cq_Amount :: int
  cq_Currency :: string
  cq_Code :: string
  cq_Reference :: string
  cq_Tenant :: string
  cq_Plan :: string

text \<open>The request that is sent, if any, and what is made of the reply to it.\<close>

definition ChargeAuthorization ::
  "unicode \<Rightarrow> (chargeRequest \<Rightarrow> txReply) \<Rightarrow> string \<Rightarrow> string \<Rightarrow> plan \<Rightarrow> string \<Rightarrow> string \<Rightarrow> string \<Rightarrow> chargeRequest option \<times> chargeResult" where
  "ChargeAuthorization U provider email code p reference tenant planID =
     (if pl_Price p \<le> 0 then (None, charge_result ChargeFailed ''plan is not purchasable'')
      else let q = \<lparr>cq_Email = email, cq_Amount = pl_Price p, cq_Currency = ps_currency, cq_Code = code, cq_Reference = reference,
                    cq_Tenant = tenant, cq_Plan = planID\<rparr>
           in (Some q, doTx U False (provider q)))"

definition VerifyTransaction :: "unicode \<Rightarrow> (string \<Rightarrow> txReply) \<Rightarrow> string \<Rightarrow> chargeResult" where
  "VerifyTransaction U provider reference = doTx U True (provider reference)"

section \<open>Tables\<close>

record tenant_row =
  tn_ID :: string
  tn_Name :: string
  tn_Plan :: string
  tn_Status :: string
  tn_PeriodEnd :: "gotime option"
  tn_Customer :: "string option"
  tn_AutoRenew :: bool
  tn_Auth :: "(string \<times> string \<times> string) option" \<comment> \<open>ciphertext, nonce, email\<close>
  tn_ReminderEnd :: "gotime option"
  tn_ReminderAt :: "gotime option"
  tn_ReminderAuto :: bool
  tn_Retention :: "int option"

datatype renewal_status = RPending | RSucceeded | RFailed

record renewal_row =
  ra_Tenant :: string
  ra_PeriodEnd :: gotime
  ra_Attempt :: nat
  ra_Reference :: string
  ra_Plan :: string
  ra_Amount :: int
  ra_Status :: renewal_status
  ra_Reason :: "string option"
  ra_CreatedAt :: gotime
  ra_FinishedAt :: "gotime option"

record payment_row =
  pm_Reference :: string
  pm_Tenant :: string
  pm_Plan :: string
  pm_Amount :: int
  pm_Currency :: string

record bill_db =
  bd_tenants :: "tenant_row list"
  bd_attempts :: "renewal_row list"
  bd_payments :: "payment_row list"
  bd_members :: "(string \<times> string \<times> string) list" \<comment> \<open>tenant, human, role\<close>
  bd_humans :: "string \<rightharpoonup> string" \<comment> \<open>email of an account\<close>

definition find_tenant :: "bill_db \<Rightarrow> string \<Rightarrow> tenant_row option" where
  "find_tenant d i = find (\<lambda>t. tn_ID t = i) (bd_tenants d)"

definition update_tenants :: "(tenant_row \<Rightarrow> bool) \<Rightarrow> (tenant_row \<Rightarrow> tenant_row) \<Rightarrow> bill_db \<Rightarrow> bill_db" where
  "update_tenants w f d = d\<lparr>bd_tenants := map (\<lambda>t. if w t then f t else t) (bd_tenants d)\<rparr>"

section \<open>Renewal settings and reminders\<close>

record renewalSettings =
  rs_AutoRenew :: bool
  rs_CardOnFile :: bool

definition auto_renew_row :: "bool \<Rightarrow> tenant_row \<Rightarrow> tenant_row" where
  "auto_renew_row on t =
     (if tn_AutoRenew t \<noteq> on
      then t\<lparr>tn_AutoRenew := on, tn_ReminderEnd := None, tn_ReminderAt := None, tn_ReminderAuto := False\<rparr>
      else t\<lparr>tn_AutoRenew := on\<rparr>)"

definition SetAutoRenew :: "string \<Rightarrow> bool \<Rightarrow> bill_db \<Rightarrow> (db_error + renewalSettings) \<times> bill_db" where
  "SetAutoRenew i on d =
     (case find_tenant d i of
        None \<Rightarrow> (Inl DbErrNotFound, d)
      | Some t \<Rightarrow> (Inr \<lparr>rs_AutoRenew = on, rs_CardOnFile = tn_Auth t \<noteq> None\<rparr>, update_tenants (\<lambda>t. tn_ID t = i) (auto_renew_row on) d))"

definition GetRenewalSettings :: "string \<Rightarrow> bill_db \<Rightarrow> db_error + renewalSettings" where
  "GetRenewalSettings i d =
     (case find_tenant d i of
        None \<Rightarrow> Inl DbErrNotFound
      | Some t \<Rightarrow> Inr \<lparr>rs_AutoRenew = tn_AutoRenew t, rs_CardOnFile = tn_Auth t \<noteq> None\<rparr>)"

definition SaveRenewalAuthorization :: "string \<Rightarrow> string \<Rightarrow> string \<Rightarrow> string \<Rightarrow> bill_db \<Rightarrow> db_error option \<times> bill_db" where
  "SaveRenewalAuthorization i ciphertext nonce email d =
     (if ciphertext = [] \<or> nonce = [] \<or> email = [] then (Some DbInvalid, d)
      else if find_tenant d i = None then (Some DbErrNotFound, d)
      else (None, update_tenants (\<lambda>t. tn_ID t = i) (\<lambda>t. t\<lparr>tn_Auth := Some (ciphertext, nonce, email)\<rparr>) d))"

record planReminder =
  rm_Tenant :: string
  rm_Plan :: string
  rm_PeriodEnd :: gotime
  rm_AutoRenew :: bool

definition in_window :: "gotime \<Rightarrow> duration \<Rightarrow> tenant_row \<Rightarrow> bool" where
  "in_window now w t \<longleftrightarrow> tn_Plan t \<noteq> ''free'' \<and> tn_Status t = ''active'' \<and>
     (case tn_PeriodEnd t of None \<Rightarrow> False | Some e \<Rightarrow> e > pg_trunc now \<and> e \<le> pg_trunc now + w)"

definition reminder_due :: "gotime \<Rightarrow> duration \<Rightarrow> tenant_row \<Rightarrow> bool" where
  "reminder_due now lead t \<longleftrightarrow> in_window now lead t \<and> tn_ReminderEnd t \<noteq> tn_PeriodEnd t"

definition mark_row :: "gotime \<Rightarrow> tenant_row \<Rightarrow> tenant_row" where
  "mark_row now t = t\<lparr>tn_ReminderEnd := tn_PeriodEnd t, tn_ReminderAt := Some (pg_trunc now),
     tn_ReminderAuto := (tn_AutoRenew t \<and> tn_Auth t \<noteq> None)\<rparr>"

definition reminder_of :: "tenant_row \<Rightarrow> planReminder" where
  "reminder_of t = \<lparr>rm_Tenant = tn_ID t, rm_Plan = tn_Plan t, rm_PeriodEnd = the (tn_PeriodEnd t), rm_AutoRenew = (tn_AutoRenew t \<and> tn_Auth t \<noteq> None)\<rparr>"

definition ClaimPlanReminders :: "gotime \<Rightarrow> duration \<Rightarrow> bill_db \<Rightarrow> planReminder list \<times> bill_db" where
  "ClaimPlanReminders now lead d =
     (map reminder_of (filter (reminder_due now lead) (bd_tenants d)), update_tenants (reminder_due now lead) (mark_row now) d)"

definition clear_reminder :: "tenant_row \<Rightarrow> tenant_row" where
  "clear_reminder t = t\<lparr>tn_ReminderEnd := None, tn_ReminderAt := None, tn_ReminderAuto := False\<rparr>"

definition ReleasePlanReminder :: "string \<Rightarrow> gotime \<Rightarrow> bill_db \<Rightarrow> bill_db" where
  "ReleasePlanReminder i periodEnd d =
     update_tenants (\<lambda>t. tn_ID t = i \<and> tn_ReminderEnd t = Some (pg_trunc periodEnd)) clear_reminder d"

definition TenantOwnerEmails :: "string \<Rightarrow> bill_db \<Rightarrow> string list" where
  "TenantOwnerEmails i d =
     List.map_filter (\<lambda>(t, h, role). if t = i \<and> role = ''owner'' then bd_humans d h else None) (bd_members d)"

section \<open>Charge attempts\<close>

definition RenewalCandidates :: "gotime \<Rightarrow> bill_db \<Rightarrow> string list" where
  "RenewalCandidates now d =
     map tn_ID (filter (\<lambda>t. tn_AutoRenew t \<and> in_window now RenewalChargeWindow t \<and> tn_Auth t \<noteq> None) (bd_tenants d))"

record renewalClaim =
  rc_Tenant :: string
  rc_Plan :: string
  rc_Amount :: int
  rc_PeriodEnd :: gotime
  rc_Attempt :: nat
  rc_Reference :: string
  rc_Auth :: "string \<times> string \<times> string"

text \<open>The conditions on the tenant's row, and the period end and card when they hold.\<close>

definition claim_allowed :: "gotime \<Rightarrow> tenant_row \<Rightarrow> (gotime \<times> string \<times> string \<times> string) option" where
  "claim_allowed now t =
     (case (tn_Auth t, tn_PeriodEnd t) of
        (Some (ct, nonce, email), Some e) \<Rightarrow>
          (if \<not> IsPaid (tn_Plan t) \<or> tn_Status t \<noteq> ''active'' \<or> \<not> tn_AutoRenew t \<or> ct = [] \<or> nonce = [] \<or> email = []
              \<or> \<not> now < e \<or> time_Sub e now > RenewalChargeWindow \<or> tn_ReminderEnd t \<noteq> Some e \<or> \<not> tn_ReminderAuto t
              \<or> (case tn_ReminderAt t of None \<Rightarrow> True | Some r \<Rightarrow> time_Sub now r < RenewalMinNotice)
           then None else Some (e, ct, nonce, email))
      | _ \<Rightarrow> None)"

definition period_attempts :: "string \<Rightarrow> gotime \<Rightarrow> bill_db \<Rightarrow> renewal_row list" where
  "period_attempts i e d = sort_key ra_Attempt (filter (\<lambda>a. ra_Tenant a = i \<and> ra_PeriodEnd a = e) (bd_attempts d))"

definition attempts_block :: "gotime \<Rightarrow> renewal_row list \<Rightarrow> bool" where
  "attempts_block now as \<longleftrightarrow> list_ex (\<lambda>a. ra_Status a \<noteq> RFailed) as \<or> length as \<ge> RenewalMaxAttempts
     \<or> (as \<noteq> [] \<and> time_Sub now (ra_CreatedAt (List.last as)) < RenewalRetrySpacing)"

definition claim_row :: "gotime \<Rightarrow> tenant_row \<Rightarrow> gotime \<Rightarrow> nat \<Rightarrow> renewal_row" where
  "claim_row now t e n =
     \<lparr>ra_Tenant = tn_ID t, ra_PeriodEnd = e, ra_Attempt = n, ra_Reference = RenewalReference (tn_ID t) (UnixMicro e) n,
      ra_Plan = tn_Plan t, ra_Amount = pl_Price (PlanFor (tn_Plan t)), ra_Status = RPending, ra_Reason = None,
      ra_CreatedAt = pg_trunc now, ra_FinishedAt = None\<rparr>"

definition attempt_conflict :: "renewal_row \<Rightarrow> bill_db \<Rightarrow> bool" where
  "attempt_conflict r d \<longleftrightarrow> list_ex (\<lambda>a. ra_Reference a = ra_Reference r \<or>
     (ra_Tenant a = ra_Tenant r \<and> ra_PeriodEnd a = ra_PeriodEnd r \<and> ra_Attempt a = ra_Attempt r)) (bd_attempts d)"

definition ClaimRenewalAttempt :: "string \<Rightarrow> gotime \<Rightarrow> bill_db \<Rightarrow> (db_error + renewalClaim option) \<times> bill_db" where
  "ClaimRenewalAttempt i now d =
     (case find_tenant d i of
        None \<Rightarrow> (Inl DbErrNotFound, d)
      | Some t \<Rightarrow>
          (case claim_allowed now t of
             None \<Rightarrow> (Inr None, d)
           | Some (e, auth) \<Rightarrow>
               let as = period_attempts i e d; r = claim_row now t e (length as + 1)
               in if attempts_block now as then (Inr None, d)
                  else if attempt_conflict r d then (Inl DbErrConflict, d)
                  else (Inr (Some \<lparr>rc_Tenant = i, rc_Plan = tn_Plan t, rc_Amount = ra_Amount r, rc_PeriodEnd = e, rc_Attempt = ra_Attempt r,
                          rc_Reference = ra_Reference r, rc_Auth = auth\<rparr>),
                        d\<lparr>bd_attempts := bd_attempts d @ [r]\<rparr>)))"

text \<open>\<open>pg_text\<close> says whether the database takes bytes as text of its encoding.\<close>

definition finish_row :: "bool \<Rightarrow> string \<Rightarrow> gotime \<Rightarrow> renewal_row \<Rightarrow> renewal_row" where
  "finish_row succeeded reason now a =
     a\<lparr>ra_Status := (if succeeded then RSucceeded else RFailed), ra_Reason := nullif reason [], ra_FinishedAt := Some (pg_trunc now)\<rparr>"

definition FinishRenewalAttempt ::
  "(string \<Rightarrow> bool) \<Rightarrow> string \<Rightarrow> bool \<Rightarrow> string \<Rightarrow> gotime \<Rightarrow> bill_db \<Rightarrow> (db_error + bool) \<times> bill_db" where
  "FinishRenewalAttempt pg_text reference succeeded reason now d =
     (let short = take 500 reason; w = (\<lambda>a. ra_Reference a = reference \<and> ra_Status a = RPending)
      in if \<not> pg_text short then (Inl DbFailed, d)
         else (Inr (length (filter w (bd_attempts d)) = 1),
               d\<lparr>bd_attempts := map (\<lambda>a. if w a then finish_row succeeded short now a else a) (bd_attempts d)\<rparr>))"

definition pending_claim :: "renewal_row \<Rightarrow> renewalClaim" where
  "pending_claim a = \<lparr>rc_Tenant = ra_Tenant a, rc_Plan = ra_Plan a, rc_Amount = ra_Amount a, rc_PeriodEnd = ra_PeriodEnd a,
     rc_Attempt = ra_Attempt a, rc_Reference = ra_Reference a, rc_Auth = ([], [], [])\<rparr>"

definition PendingRenewalAttempts :: "gotime \<Rightarrow> bill_db \<Rightarrow> renewalClaim list" where
  "PendingRenewalAttempts olderThan d =
     map pending_claim (sort_key ra_CreatedAt
       (filter (\<lambda>a. find_tenant d (ra_Tenant a) \<noteq> None \<and> ra_Status a = RPending \<and> ra_CreatedAt a \<le> pg_trunc olderThan) (bd_attempts d)))"

section \<open>Payments and lapses\<close>

datatype pay_error = PErrNotPurchasable | PErrNotFound | PErrAlreadyApplied | PErrDB

record payment =
  py_Reference :: string
  py_Tenant :: string
  py_Plan :: string
  py_Amount :: int
  py_Currency :: string
  py_Customer :: string

definition extended_end :: "gotime \<Rightarrow> duration \<Rightarrow> string \<Rightarrow> tenant_row \<Rightarrow> gotime" where
  "extended_end now period p t =
     max now (case tn_PeriodEnd t of
                Some e \<Rightarrow> if tn_Plan t = p \<and> tn_Status t = ''active'' \<and> e > now then e else now
              | None \<Rightarrow> now) + period"

definition paid_row :: "gotime \<Rightarrow> duration \<Rightarrow> payment \<Rightarrow> tenant_row \<Rightarrow> tenant_row" where
  "paid_row now period p t =
     t\<lparr>tn_Plan := py_Plan p, tn_Status := ''active'', tn_PeriodEnd := Some (extended_end now period (py_Plan p) t),
       tn_Customer := (if py_Customer p \<noteq> [] then Some (py_Customer p) else tn_Customer t)\<rparr>"

definition ApplyPlanPayment :: "gotime \<Rightarrow> payment \<Rightarrow> duration \<Rightarrow> bill_db \<Rightarrow> pay_error option \<times> bill_db" where
  "ApplyPlanPayment now p period d =
     (if \<not> IsPaid (py_Plan p) then (Some PErrNotPurchasable, d)
      else if find_tenant d (py_Tenant p) = None then (Some PErrNotFound, d)
      else if py_Reference p = [] \<or> length (runes (py_Reference p)) > 200 then (Some PErrDB, d)
      else if list_ex (\<lambda>x. pm_Reference x = py_Reference p) (bd_payments d) then (Some PErrAlreadyApplied, d)
      else (None, (update_tenants (\<lambda>t. tn_ID t = py_Tenant p) (paid_row now period p) d)
                    \<lparr>bd_payments := bd_payments d @ [\<lparr>pm_Reference = py_Reference p, pm_Tenant = py_Tenant p, pm_Plan = py_Plan p,
                       pm_Amount = py_Amount p, pm_Currency = py_Currency p\<rparr>]\<rparr>))"

definition lapsed :: "gotime \<Rightarrow> tenant_row \<Rightarrow> bool" where
  "lapsed now t \<longleftrightarrow> tn_Plan t \<noteq> ''free'' \<and> (case tn_PeriodEnd t of None \<Rightarrow> False | Some e \<Rightarrow> e < pg_trunc now)"

definition lapse_row :: "tenant_row \<Rightarrow> tenant_row" where
  "lapse_row t =
     t\<lparr>tn_Retention := (case tn_Retention t of Some n \<Rightarrow> Some n
          | None \<Rightarrow> if tn_Plan t = ''plus'' then Some 30 else if tn_Plan t = ''pro'' then Some 90 else None),
       tn_Plan := ''free'', tn_Status := ''lapsed''\<rparr>"

definition DowngradeLapsedPlans :: "gotime \<Rightarrow> bill_db \<Rightarrow> nat \<times> bill_db" where
  "DowngradeLapsedPlans now d = (length (filter (lapsed now) (bd_tenants d)), update_tenants (lapsed now) lapse_row d)"

definition SetTenantRetention :: "string \<Rightarrow> int option \<Rightarrow> bill_db \<Rightarrow> db_error option \<times> bill_db" where
  "SetTenantRetention i days d =
     (if i = [] \<or> (case days of Some n \<Rightarrow> n \<le> 0 | None \<Rightarrow> False) then (Some DbInvalid, d)
      else if find_tenant d i = None then (Some DbErrNotFound, d)
      else (None, update_tenants (\<lambda>t. tn_ID t = i) (\<lambda>t. t\<lparr>tn_Retention := days\<rparr>) d))"

section \<open>Plan limits\<close>

text \<open>\<open>on\<close> is the enforcement switch; the counts are those of the queries, which stop at the limit.\<close>

datatype limit_error = LErrPlanLimit | LErrUnknownFeature | LErrDB db_error

definition enforcedPlan :: "bool \<Rightarrow> string \<Rightarrow> bill_db \<Rightarrow> limit_error + plan option" where
  "enforcedPlan on i d =
     (if \<not> on then Inr None
      else case find_tenant d i of None \<Rightarrow> Inl (LErrDB DbErrNotFound) | Some t \<Rightarrow> Inr (Some (PlanFor (tn_Plan t))))"

definition limit_check :: "bool \<Rightarrow> string \<Rightarrow> bill_db \<Rightarrow> (plan \<Rightarrow> int) \<Rightarrow> (plan \<Rightarrow> bool) \<Rightarrow> limit_error option" where
  "limit_check on i d limit room =
     (case enforcedPlan on i d of
        Inl e \<Rightarrow> Some e
      | Inr None \<Rightarrow> None
      | Inr (Some p) \<Rightarrow> if limit p = Unlimited then None else if room p then None else Some LErrPlanLimit)"

definition utc_day :: "gotime \<Rightarrow> gotime" where
  "utc_day now = now div (24 * hour) * (24 * hour)"

text \<open>Messages are given by the times they were created.\<close>

definition CheckDailySendLimit :: "bool \<Rightarrow> string \<Rightarrow> gotime \<Rightarrow> gotime list \<Rightarrow> int \<Rightarrow> bill_db \<Rightarrow> limit_error option" where
  "CheckDailySendLimit on i now created adding d =
     limit_check on i d pl_DailySends
       (\<lambda>p. min (int (length (filter (\<lambda>c. c \<ge> utc_day now) created))) (pl_DailySends p) + adding \<le> pl_DailySends p)"

definition CheckDomainLimit :: "bool \<Rightarrow> string \<Rightarrow> nat \<Rightarrow> bill_db \<Rightarrow> limit_error option" where
  "CheckDomainLimit on i domains d = limit_check on i d pl_Domains (\<lambda>p. Within (min (int domains) (pl_Domains p)) (pl_Domains p))"

definition tenant_members :: "string \<Rightarrow> bill_db \<Rightarrow> string list" where
  "tenant_members i d = map (fst \<circ> snd) (filter (\<lambda>m. fst m = i) (bd_members d))"

definition CheckMemberLimit :: "bool \<Rightarrow> string \<Rightarrow> bill_db \<Rightarrow> limit_error option" where
  "CheckMemberLimit on i d = limit_check on i d pl_Members (\<lambda>p. Within (int (length (tenant_members i d))) (pl_Members p))"

definition lockMemberCap :: "bool \<Rightarrow> string \<Rightarrow> string \<Rightarrow> bill_db \<Rightarrow> limit_error option" where
  "lockMemberCap on i human d =
     limit_check on i d pl_Members
       (\<lambda>p. human \<in> set (tenant_members i d) \<or> Within (int (length (tenant_members i d))) (pl_Members p))"

definition CheckFeature :: "bool \<Rightarrow> string \<Rightarrow> string \<Rightarrow> bill_db \<Rightarrow> limit_error option" where
  "CheckFeature on i feature d =
     (case enforcedPlan on i d of
        Inl e \<Rightarrow> Some e
      | Inr None \<Rightarrow> None
      | Inr (Some p) \<Rightarrow>
          if feature = ''broadcasts'' then (if pl_Broadcasts p then None else Some LErrPlanLimit)
          else if feature = ''webhooks'' then (if pl_Webhooks p then None else Some LErrPlanLimit)
          else Some LErrUnknownFeature)"

definition IsTenantMember :: "string \<Rightarrow> string \<Rightarrow> bill_db \<Rightarrow> bool" where
  "IsTenantMember i human d = (human \<in> set (tenant_members i d))"

section \<open>The renewal pass\<close>

datatype db_call =
    CallReminders | CallReminderOwners string | CallRelease string | CallPending | CallCandidates | CallClaim string
  | CallApply string | CallFinish string | CallOwners string

datatype bill_mail =
    MailReminder planReminder
  | MailRenewed string string int \<comment> \<open>tenant, reference, amount\<close>
  | MailFailed string string nat bool \<comment> \<open>tenant, reason, attempt, whether it was the last\<close>

datatype bill_effect =
    EMail string bill_mail bool \<comment> \<open>recipient, content, whether the mailer took it\<close>
  | ECharge chargeRequest
  | EVerify string

record renewer =
  rw_mailer :: "(string \<Rightarrow> bill_mail \<Rightarrow> bool) option"
  rw_decrypt :: "(string \<Rightarrow> string \<Rightarrow> string \<Rightarrow> string option) option" \<comment> \<open>the box of saved cards, when there is one\<close>
  rw_charge :: "chargeRequest \<Rightarrow> txReply"
  rw_verify :: "string \<Rightarrow> txReply"
  rw_fails :: "db_call \<Rightarrow> bool"
  rw_clock :: "string \<Rightarrow> gotime" \<comment> \<open>the database clock when a reference is applied\<close>
  rw_text :: "string \<Rightarrow> bool"

definition bill_email :: "renewer \<Rightarrow> string \<Rightarrow> bill_mail \<Rightarrow> bill_db \<Rightarrow> bill_effect list" where
  "bill_email R i m d =
     (case rw_mailer R of
        None \<Rightarrow> []
      | Some send \<Rightarrow> if rw_fails R (CallOwners i) then [] else map (\<lambda>to. EMail to m (send to m)) (TenantOwnerEmails i d))"

definition send_reminder :: "renewer \<Rightarrow> (string \<Rightarrow> bill_mail \<Rightarrow> bool) \<Rightarrow> planReminder \<Rightarrow> bill_db \<Rightarrow> bill_effect list \<times> bill_db" where
  "send_reminder R send rem d =
     (let owners = (if rw_fails R (CallReminderOwners (rm_Tenant rem)) then [] else TenantOwnerEmails (rm_Tenant rem) d);
          mails = map (\<lambda>to. EMail to (MailReminder rem) (send to (MailReminder rem))) owners
      in if list_ex (\<lambda>to. send to (MailReminder rem)) owners then (mails, d)
         else (mails, if rw_fails R (CallRelease (rm_Tenant rem)) then d else ReleasePlanReminder (rm_Tenant rem) (rm_PeriodEnd rem) d))"

fun send_all :: "renewer \<Rightarrow> (string \<Rightarrow> bill_mail \<Rightarrow> bool) \<Rightarrow> planReminder list \<Rightarrow> bill_db \<Rightarrow> bill_effect list \<times> bill_db" where
  "send_all R send [] d = ([], d)"
| "send_all R send (rem # rems) d =
     (case send_reminder R send rem d of (e1, d1) \<Rightarrow> case send_all R send rems d1 of (e2, d2) \<Rightarrow> (e1 @ e2, d2))"

definition sendReminders :: "renewer \<Rightarrow> (string \<Rightarrow> bill_mail \<Rightarrow> bool) \<Rightarrow> gotime \<Rightarrow> bill_db \<Rightarrow> bill_effect list \<times> bill_db" where
  "sendReminders R send now d =
     (if rw_fails R CallReminders then ([], d)
      else case ClaimPlanReminders now ReminderLead d of (claimed, d1) \<Rightarrow> send_all R send claimed d1)"

definition bill_settle :: "unicode \<Rightarrow> renewer \<Rightarrow> renewalClaim \<Rightarrow> chargeResult \<Rightarrow> gotime \<Rightarrow> bill_db \<Rightarrow> bill_effect list \<times> bill_db" where
  "bill_settle U R c res now d =
     (case ch_Outcome res of
        ChargeUnknown \<Rightarrow> ([], d)
      | ChargeSucceeded \<Rightarrow>
          if ch_Amount res \<noteq> rc_Amount c \<or> \<not> EqualFold U (ch_Currency res) ps_currency then ([], d)
          else if rw_fails R (CallApply (rc_Reference c)) then ([], d)
          else
            let (err, d1) = ApplyPlanPayment (rw_clock R (rc_Reference c))
                  \<lparr>py_Reference = rc_Reference c, py_Tenant = rc_Tenant c, py_Plan = rc_Plan c, py_Amount = ch_Amount res,
                   py_Currency = ps_currency, py_Customer = []\<rparr> planPeriod d
            in if err \<noteq> None \<and> err \<noteq> Some PErrAlreadyApplied then ([], d)
               else let d2 = (if rw_fails R (CallFinish (rc_Reference c)) then d1
                              else snd (FinishRenewalAttempt (rw_text R) (rc_Reference c) True [] now d1))
                    in (bill_email R (rc_Tenant c) (MailRenewed (rc_Tenant c) (rc_Reference c) (rc_Amount c)) d2, d2)
      | ChargeFailed \<Rightarrow>
          let reason = (if TrimSpace (ch_Reason res) = [] then ''the payment was declined'' else TrimSpace (ch_Reason res))
          in if rw_fails R (CallFinish (rc_Reference c)) then ([], d)
             else case FinishRenewalAttempt (rw_text R) (rc_Reference c) False reason now d of
                 (Inl _, _) \<Rightarrow> ([], d)
               | (Inr _, d1) \<Rightarrow>
                   (bill_email R (rc_Tenant c) (MailFailed (rc_Tenant c) reason (rc_Attempt c) (rc_Attempt c \<ge> RenewalMaxAttempts)) d1, d1))"

definition renewOne ::
  "unicode \<Rightarrow> renewer \<Rightarrow> (string \<Rightarrow> string \<Rightarrow> string \<Rightarrow> string option) \<Rightarrow> gotime \<Rightarrow> string \<Rightarrow> bill_db \<Rightarrow> bill_effect list \<times> bill_db" where
  "renewOne U R decrypt now i d =
     (if rw_fails R (CallClaim i) then ([], d)
      else case ClaimRenewalAttempt i now d of
        (Inr (Some c), d1) \<Rightarrow>
          (case rc_Auth c of (ct, nonce, email) \<Rightarrow>
             case decrypt ct nonce (rc_Tenant c) of
               None \<Rightarrow> bill_settle U R c (charge_result ChargeFailed ''saved card could not be read; please renew manually'') now d1
             | Some code \<Rightarrow>
                 (case ChargeAuthorization U (rw_charge R) email code (PlanFor (rc_Plan c)) (rc_Reference c) (rc_Tenant c) (rc_Plan c) of
                    (q, res) \<Rightarrow>
                      case bill_settle U R c res now d1 of (es, d2) \<Rightarrow> (map ECharge (case q of Some r \<Rightarrow> [r] | None \<Rightarrow> []) @ es, d2)))
      | (_, d1) \<Rightarrow> ([], d1))"

fun renew_all ::
  "unicode \<Rightarrow> renewer \<Rightarrow> (string \<Rightarrow> string \<Rightarrow> string \<Rightarrow> string option) \<Rightarrow> gotime \<Rightarrow> string list \<Rightarrow> bill_db \<Rightarrow> bill_effect list \<times> bill_db" where
  "renew_all U R decrypt now [] d = ([], d)"
| "renew_all U R decrypt now (i # is) d =
     (case renewOne U R decrypt now i d of (e1, d1) \<Rightarrow> case renew_all U R decrypt now is d1 of (e2, d2) \<Rightarrow> (e1 @ e2, d2))"

fun reconcile_all :: "unicode \<Rightarrow> renewer \<Rightarrow> gotime \<Rightarrow> renewalClaim list \<Rightarrow> bill_db \<Rightarrow> bill_effect list \<times> bill_db" where
  "reconcile_all U R now [] d = ([], d)"
| "reconcile_all U R now (c # cs) d =
     (case bill_settle U R c (VerifyTransaction U (rw_verify R) (rc_Reference c)) now d of
        (e1, d1) \<Rightarrow> case reconcile_all U R now cs d1 of (e2, d2) \<Rightarrow> (EVerify (rc_Reference c) # e1 @ e2, d2))"

definition reconcilePending :: "unicode \<Rightarrow> renewer \<Rightarrow> gotime \<Rightarrow> bill_db \<Rightarrow> bill_effect list \<times> bill_db" where
  "reconcilePending U R now d =
     (if rw_fails R CallPending then ([], d)
      else reconcile_all U R now (PendingRenewalAttempts (now - RenewalReconcileAfter) d) d)"

definition RunOnce :: "unicode \<Rightarrow> renewer \<Rightarrow> gotime \<Rightarrow> bill_db \<Rightarrow> bill_effect list \<times> bill_db" where
  "RunOnce U R now d =
     (case rw_mailer R of
        None \<Rightarrow> ([], d)
      | Some send \<Rightarrow>
          (case sendReminders R send now d of
             (e1, d1) \<Rightarrow>
               case rw_decrypt R of
                 None \<Rightarrow> (e1, d1)
               | Some decrypt \<Rightarrow>
                   (case reconcilePending U R now d1 of
                      (e2, d2) \<Rightarrow>
                        if rw_fails R CallCandidates then (e1 @ e2, d2)
                        else case renew_all U R decrypt now (RenewalCandidates now d2) d2 of
                            (e3, d3) \<Rightarrow> (e1 @ e2 @ e3, d3))))"

text \<open>One tick of the billing loop: the pass, then the lapse (\<open>fails\<close>: its statement failed).\<close>

definition plan_tick :: "unicode \<Rightarrow> renewer option \<Rightarrow> gotime \<Rightarrow> gotime \<Rightarrow> bool \<Rightarrow> bill_db \<Rightarrow> bill_effect list \<times> bill_db" where
  "plan_tick U R now now2 fails d =
     (case (case R of None \<Rightarrow> ([], d) | Some r \<Rightarrow> RunOnce U r now d) of
        (es, d1) \<Rightarrow> (es, if fails then d1 else snd (DowngradeLapsedPlans now2 d1)))"

section \<open>Runs\<close>

text \<open>
  The transactions of any number of processes in any order, each with any clock reading. \<open>took\<close> says of a reference whether
  the provider takes money for it at any time; an attempt is settled as failed only when it does not, which is
  what \<^verbatim>\<open>renewal.go\<close> requires of the answers it counts as failures. The events record the reminders
  that were marked and the attempts that were handed out to be charged.
\<close>

datatype bill_event = Marked gotime planReminder | Claimed gotime renewalClaim

definition fresh_tenant :: "string \<Rightarrow> string \<Rightarrow> tenant_row" where
  "fresh_tenant i name = \<lparr>tn_ID = i, tn_Name = name, tn_Plan = ''free'', tn_Status = ''active'', tn_PeriodEnd = None, tn_Customer = None,
     tn_AutoRenew = False, tn_Auth = None, tn_ReminderEnd = None, tn_ReminderAt = None, tn_ReminderAuto = False, tn_Retention = None\<rparr>"

definition claim_events :: "string \<Rightarrow> gotime \<Rightarrow> bill_db \<Rightarrow> bill_event list" where
  "claim_events i now d = (case fst (ClaimRenewalAttempt i now d) of Inr (Some c) \<Rightarrow> [Claimed now c] | _ \<Rightarrow> [])"

inductive bill_run :: "(string \<Rightarrow> bool) \<Rightarrow> bill_event list \<Rightarrow> bill_db \<Rightarrow> bool" for took :: "string \<Rightarrow> bool" where
  start: "bd_tenants d = [] \<Longrightarrow> bd_attempts d = [] \<Longrightarrow> bd_payments d = [] \<Longrightarrow> bill_run took [] d"
| join: "bill_run took es d \<Longrightarrow> find_tenant d i = None \<Longrightarrow> bill_run took es (d\<lparr>bd_tenants := bd_tenants d @ [fresh_tenant i name]\<rparr>)"
| members: "bill_run took es d \<Longrightarrow> bill_run took es (d\<lparr>bd_members := ms, bd_humans := hs\<rparr>)"
| auto_renew: "bill_run took es d \<Longrightarrow> bill_run took es (snd (SetAutoRenew i on d))"
| card: "bill_run took es d \<Longrightarrow> bill_run took es (snd (SaveRenewalAuthorization i ct nonce email d))"
| retention: "bill_run took es d \<Longrightarrow> bill_run took es (snd (SetTenantRetention i days d))"
| mark: "bill_run took es d \<Longrightarrow>
    bill_run took (es @ map (Marked now) (fst (ClaimPlanReminders now lead d))) (snd (ClaimPlanReminders now lead d))"
| release: "bill_run took es d \<Longrightarrow> bill_run took es (ReleasePlanReminder i e d)"
| claim: "bill_run took es d \<Longrightarrow> bill_run took (es @ claim_events i now d) (snd (ClaimRenewalAttempt i now d))"
| succeed: "bill_run took es d \<Longrightarrow> bill_run took es (snd (FinishRenewalAttempt pgt ref True reason now d))"
| decline: "bill_run took es d \<Longrightarrow> \<not> took ref \<Longrightarrow> bill_run took es (snd (FinishRenewalAttempt pgt ref False reason now d))"
| pay: "bill_run took es d \<Longrightarrow> bill_run took es (snd (ApplyPlanPayment now p period d))"
| lapse: "bill_run took es d \<Longrightarrow> bill_run took es (snd (DowngradeLapsedPlans now d))"

definition timed_claims :: "bill_event list \<Rightarrow> (gotime \<times> renewalClaim) list" where
  "timed_claims es = List.map_filter (\<lambda>e. case e of Claimed n c \<Rightarrow> Some (n, c) | Marked _ _ \<Rightarrow> None) es"

definition claims_made :: "bill_event list \<Rightarrow> renewalClaim list" where
  "claims_made es = map snd (timed_claims es)"

definition of_period :: "string \<Rightarrow> gotime \<Rightarrow> renewalClaim \<Rightarrow> bool" where
  "of_period i e c \<longleftrightarrow> rc_Tenant c = i \<and> rc_PeriodEnd c = e"

text \<open>The invariant: rows of a period are numbered in order, all but one have failed, and the marks have their reminder.\<close>

definition rows_of :: "string \<Rightarrow> gotime \<Rightarrow> bill_db \<Rightarrow> renewal_row list" where
  "rows_of i e d = filter (\<lambda>a. ra_Tenant a = i \<and> ra_PeriodEnd a = e) (bd_attempts d)"

definition period_ok :: "renewal_row list \<Rightarrow> bool" where
  "period_ok as \<longleftrightarrow> map ra_Attempt as = [1..<Suc (length as)] \<and> length as \<le> RenewalMaxAttempts
     \<and> length (filter (\<lambda>a. ra_Status a \<noteq> RFailed) as) \<le> 1 \<and> sorted (map ra_CreatedAt as)"

definition attempt_ok :: "(string \<Rightarrow> bool) \<Rightarrow> renewal_row \<Rightarrow> bool" where
  "attempt_ok took a \<longleftrightarrow> ra_Reference a = RenewalReference (ra_Tenant a) (UnixMicro (ra_PeriodEnd a)) (ra_Attempt a)
     \<and> IsPaid (ra_Plan a) \<and> ra_Amount a = pl_Price (PlanFor (ra_Plan a)) \<and> (ra_Status a = RFailed \<longrightarrow> \<not> took (ra_Reference a))"

definition marker_ok :: "bill_event list \<Rightarrow> tenant_row \<Rightarrow> bool" where
  "marker_ok es t \<longleftrightarrow> (\<forall>e. tn_ReminderEnd t = Some e \<longrightarrow>
     (\<exists>at m. Marked at m \<in> set es \<and> rm_Tenant m = tn_ID t \<and> rm_PeriodEnd m = e \<and> tn_ReminderAt t = Some (pg_trunc at)
        \<and> rm_AutoRenew m = tn_ReminderAuto t))"

definition bare :: "renewalClaim \<Rightarrow> renewalClaim" where
  "bare c = c\<lparr>rc_Auth := ([], [], [])\<rparr>"

definition bill_log_ok :: "bill_event list \<Rightarrow> bill_db \<Rightarrow> bool" where
  "bill_log_ok es d \<longleftrightarrow> map (\<lambda>a. (ra_CreatedAt a, pending_claim a)) (bd_attempts d) = map (\<lambda>(n, c). (pg_trunc n, bare c)) (timed_claims es)"

definition bill_inv :: "(string \<Rightarrow> bool) \<Rightarrow> bill_event list \<Rightarrow> bill_db \<Rightarrow> bool" where
  "bill_inv took es d \<longleftrightarrow> distinct (map tn_ID (bd_tenants d)) \<and> distinct (map pm_Reference (bd_payments d))
     \<and> distinct (map ra_Reference (bd_attempts d)) \<and> (\<forall>i e. period_ok (rows_of i e d)) \<and> (\<forall>a\<in>set (bd_attempts d). attempt_ok took a)
     \<and> (\<forall>t\<in>set (bd_tenants d). marker_ok es t) \<and> bill_log_ok es d"

lemma time_Sub_ge: "k \<le> time_Sub a b \<Longrightarrow> - (2 ^ 63) < k \<Longrightarrow> k \<le> a - b"
  by (auto simp: time_Sub_def saturate64_def)

lemma time_Sub_le: "time_Sub a b \<le> k \<Longrightarrow> k < 2 ^ 63 - 1 \<Longrightarrow> a - b \<le> k"
  by (auto simp: time_Sub_def saturate64_def)

lemma timed_claims_append [simp]: "timed_claims (es @ fs) = timed_claims es @ timed_claims fs"
  by (simp add: timed_claims_def map_filter_def)

lemma timed_claims_marks [simp]: "timed_claims (map (Marked now) ms) = []"
  by (induction ms) (simp_all add: timed_claims_def List.map_filter_simps)

lemma marker_ok_mono: "marker_ok es t \<Longrightarrow> marker_ok (es @ fs) t"
  unfolding marker_ok_def by fastforce

lemma marker_ok_unmarked [simp]: "tn_ReminderEnd t = None \<Longrightarrow> marker_ok es t"
  by (simp add: marker_ok_def)

lemma marker_ok_same:
  assumes "marker_ok es t" and "tn_ID s = tn_ID t" and "tn_ReminderEnd s = tn_ReminderEnd t" and "tn_ReminderAt s = tn_ReminderAt t"
    and "tn_ReminderAuto s = tn_ReminderAuto t"
  shows "marker_ok es s"
  using assms by (simp add: marker_ok_def)

lemma update_tenants_simps [simp]:
  "bd_tenants (update_tenants w f d) = map (\<lambda>t. if w t then f t else t) (bd_tenants d)"
  "bd_attempts (update_tenants w f d) = bd_attempts d" "bd_payments (update_tenants w f d) = bd_payments d"
  "bd_members (update_tenants w f d) = bd_members d" "bd_humans (update_tenants w f d) = bd_humans d"
  by (simp_all add: update_tenants_def)

lemma map_tn_ID_update: "(\<And>t. tn_ID (f t) = tn_ID t) \<Longrightarrow> map tn_ID (map (\<lambda>t. if w t then f t else t) ts) = map tn_ID ts"
  by (induction ts) auto

lemma bill_inv_tenants:
  assumes "bill_inv took es d" and "\<And>t. tn_ID (f t) = tn_ID t" and "\<And>t. t \<in> set (bd_tenants d) \<Longrightarrow> w t \<Longrightarrow> marker_ok es t \<Longrightarrow> marker_ok es (f t)"
  shows "bill_inv took es (update_tenants w f d)"
proof -
  have "\<forall>t\<in>set (bd_tenants (update_tenants w f d)). marker_ok es t" using assms(1,3) by (auto simp: bill_inv_def)
  then show ?thesis
    using assms(1) map_tn_ID_update [of f, OF assms(2)] by (simp add: bill_inv_def rows_of_def bill_log_ok_def del: map_map)
qed

lemma bill_inv_same:
  assumes "bill_inv took es d" and "bd_tenants d' = bd_tenants d" and "bd_attempts d' = bd_attempts d" and "bd_payments d' = bd_payments d"
  shows "bill_inv took es d'"
  using assms by (simp add: bill_inv_def rows_of_def bill_log_ok_def)

lemma tenant_Some: "find_tenant d i = Some t \<Longrightarrow> t \<in> set (bd_tenants d) \<and> tn_ID t = i"
  by (auto simp: find_tenant_def find_Some_iff)

lemma tenant_None: "find_tenant d i = None \<Longrightarrow> i \<notin> tn_ID ` set (bd_tenants d)"
  by (auto simp: find_tenant_def find_None_iff)

lemma claim_allowedD:
  assumes "claim_allowed now t = Some (e, auth)"
  shows "IsPaid (tn_Plan t)" "now < e" "e \<le> now + RenewalChargeWindow" "tn_ReminderEnd t = Some e" "tn_ReminderAuto t"
    "\<exists>r. tn_ReminderAt t = Some r \<and> r + RenewalMinNotice \<le> now"
  using assms time_Sub_le [of e now RenewalChargeWindow] time_Sub_ge [of RenewalMinNotice now]
  by (force simp: claim_allowed_def RenewalChargeWindow_def RenewalMinNotice_def not_less split: option.splits prod.splits if_splits)+

lemma period_attempts_rows: "period_ok (rows_of i e d) \<Longrightarrow> period_attempts i e d = rows_of i e d"
  unfolding period_attempts_def rows_of_def [symmetric]
  by (rule sort_key_id_if_sorted) (simp add: period_ok_def del: upt_Suc)

text \<open>A claim either leaves the tables alone or adds the next row of the period.\<close>

lemma claim_cases:
  assumes "bill_inv took es d"
  obtains (none) "snd (ClaimRenewalAttempt i now d) = d" "claim_events i now d = []"
  | (some) t e auth c r where "t \<in> set (bd_tenants d)" "tn_ID t = i" "claim_allowed now t = Some (e, auth)"
      "r = claim_row now t e (length (rows_of i e d) + 1)" "\<not> attempts_block now (rows_of i e d)" "\<not> attempt_conflict r d"
      "snd (ClaimRenewalAttempt i now d) = d\<lparr>bd_attempts := bd_attempts d @ [r]\<rparr>" "fst (ClaimRenewalAttempt i now d) = Inr (Some c)"
      "bare c = pending_claim r" "rc_Auth c = auth"
proof (cases "\<exists>t e auth. find_tenant d i = Some t \<and> claim_allowed now t = Some (e, auth) \<and>
    \<not> attempts_block now (rows_of i e d) \<and> \<not> attempt_conflict (claim_row now t e (length (rows_of i e d) + 1)) d")
  case True
  then obtain t e auth where t: "find_tenant d i = Some t" "claim_allowed now t = Some (e, auth)"
    "\<not> attempts_block now (rows_of i e d)" "\<not> attempt_conflict (claim_row now t e (length (rows_of i e d) + 1)) d" by blast
  have p: "period_attempts i e d = rows_of i e d" using assms by (simp add: bill_inv_def period_attempts_rows)
  let ?r = "claim_row now t e (length (rows_of i e d) + 1)"
  have "\<exists>c. fst (ClaimRenewalAttempt i now d) = Inr (Some c) \<and> bare c = pending_claim ?r \<and> rc_Auth c = auth"
    using t tenant_Some [OF t(1)] p by (simp add: ClaimRenewalAttempt_def Let_def bare_def pending_claim_def claim_row_def)
  moreover have "snd (ClaimRenewalAttempt i now d) = d\<lparr>bd_attempts := bd_attempts d @ [?r]\<rparr>"
    using t p by (simp add: ClaimRenewalAttempt_def Let_def)
  ultimately show ?thesis using some [OF _ _ t(2) refl t(3,4)] tenant_Some [OF t(1)] by blast
next
  case False
  have "snd (ClaimRenewalAttempt i now d) = d \<and> claim_events i now d = []"
  proof (cases "find_tenant d i")
    case (Some t)
    show ?thesis
    proof (cases "claim_allowed now t")
      case s: (Some x)
      obtain e a1 a2 a3 where x: "x = (e, a1, a2, a3)" by (cases x)
      have p: "period_attempts i e d = rows_of i e d" using assms by (simp add: bill_inv_def period_attempts_rows)
      show ?thesis using False Some s x p by (auto simp: ClaimRenewalAttempt_def claim_events_def Let_def)
    qed (simp add: Some ClaimRenewalAttempt_def claim_events_def)
  qed (simp add: ClaimRenewalAttempt_def claim_events_def)
  then show ?thesis using none by blast
qed

lemma sorted_snoc: "sorted (xs @ [x]) \<longleftrightarrow> sorted xs \<and> (xs \<noteq> [] \<longrightarrow> List.last xs \<le> x)" for x :: "'a::linorder"
proof (induction xs)
  case (Cons a xs)
  then show ?case by (cases xs) auto
qed simp

lemma trunc_above: "r + RenewalRetrySpacing \<le> now \<Longrightarrow> r \<le> pg_trunc now"
  by (simp add: RenewalRetrySpacing_def pg_trunc_def)

lemma not_blockedD:
  assumes "\<not> attempts_block now as"
  shows "\<forall>a\<in>set as. ra_Status a = RFailed" "length as < RenewalMaxAttempts"
    "as \<noteq> [] \<Longrightarrow> ra_CreatedAt (List.last as) + RenewalRetrySpacing \<le> now"
  using assms time_Sub_ge [of RenewalRetrySpacing now "ra_CreatedAt (List.last as)"]
  by (auto simp: attempts_block_def list_ex_iff RenewalRetrySpacing_def not_less)

lemma period_ok_snoc:
  assumes "period_ok as" and "\<not> attempts_block now as" and "ra_Attempt r = length as + 1" and "ra_CreatedAt r = pg_trunc now"
  shows "period_ok (as @ [r])"
proof -
  note nb = not_blockedD [OF assms(2)]
  have "filter (\<lambda>a. ra_Status a \<noteq> RFailed) as = []" using nb(1) by (simp add: filter_empty_conv)
  moreover have "sorted (map ra_CreatedAt as @ [ra_CreatedAt r])"
    using assms(1,4) nb(3) trunc_above unfolding sorted_snoc by (auto simp: period_ok_def last_map)
  ultimately show ?thesis using assms(1,3) nb(2) by (simp add: period_ok_def)
qed

lemma timed_claims_Claimed [simp]: "timed_claims [Claimed now c] = [(now, c)]"
  by (simp add: timed_claims_def List.map_filter_simps)

lemma timed_claims_claim: "fst (ClaimRenewalAttempt i now d) = Inr (Some c) \<Longrightarrow>
    claim_events i now d = [Claimed now c]"
  by (simp add: claim_events_def)

lemma bill_inv_claim:
  assumes "bill_inv took es d"
  shows "bill_inv took (es @ claim_events i now d) (snd (ClaimRenewalAttempt i now d))"
  using assms
proof (cases rule: claim_cases [of took es d i now])
  case (some t e auth c r)
  let ?d = "d\<lparr>bd_attempts := bd_attempts d @ [r]\<rparr>"
  have r: "ra_Tenant r = i" "ra_PeriodEnd r = e" "ra_Attempt r = length (rows_of i e d) + 1" "ra_CreatedAt r = pg_trunc now"
    using some(2,4) by (simp_all add: claim_row_def)
  have rows: "period_ok (rows_of j f ?d)" for j f
  proof (cases "j = i \<and> f = e")
    case True
    then have "rows_of j f ?d = rows_of i e d @ [r]" using r by (simp add: rows_of_def)
    then show ?thesis using period_ok_snoc [OF _ some(5), of r] r assms by (simp add: bill_inv_def)
  next
    case False
    then have "rows_of j f ?d = rows_of j f d" using r by (auto simp: rows_of_def)
    then show ?thesis using assms by (simp add: bill_inv_def)
  qed
  have "attempt_ok took r" using some(4) claim_allowedD(1) [OF some(3)] by (simp add: attempt_ok_def claim_row_def)
  moreover have "ra_Reference r \<notin> set (map ra_Reference (bd_attempts d))" using some(6) by (auto simp: attempt_conflict_def list_ex_iff)
  moreover have "bill_log_ok (es @ claim_events i now d) ?d"
    using assms timed_claims_claim [OF some(8)] some(9) r(4) by (simp add: bill_inv_def bill_log_ok_def)
  ultimately show ?thesis
    using assms rows marker_ok_mono unfolding some(7) by (auto simp: bill_inv_def)
qed (simp add: assms)

lemma finish_effect: "\<exists>w reason. (\<forall>a. w a \<longrightarrow> ra_Reference a = ref \<and> ra_Status a = RPending) \<and>
    snd (FinishRenewalAttempt pgt ref ok why now d) = d\<lparr>bd_attempts := map (\<lambda>a. if w a then finish_row ok reason now a else a) (bd_attempts d)\<rparr>"
proof (cases "pgt (take 500 why)")
  case True
  then show ?thesis
    by (intro exI [where x = "\<lambda>a. ra_Reference a = ref \<and> ra_Status a = RPending"] exI [where x = "take 500 why"])
       (simp add: FinishRenewalAttempt_def)
next
  case False
  then show ?thesis by (intro exI [where x = "\<lambda>_. False"]) (simp add: FinishRenewalAttempt_def)
qed

lemma finish_row_simps [simp]:
  "ra_Tenant (finish_row ok s now a) = ra_Tenant a" "ra_PeriodEnd (finish_row ok s now a) = ra_PeriodEnd a"
  "ra_Attempt (finish_row ok s now a) = ra_Attempt a" "ra_Reference (finish_row ok s now a) = ra_Reference a"
  "ra_Plan (finish_row ok s now a) = ra_Plan a" "ra_Amount (finish_row ok s now a) = ra_Amount a"
  "ra_CreatedAt (finish_row ok s now a) = ra_CreatedAt a" "pending_claim (finish_row ok s now a) = pending_claim a"
  "ra_Status (finish_row ok s now a) = (if ok then RSucceeded else RFailed)"
  by (simp_all add: finish_row_def pending_claim_def)

lemma filter_map_keep: "(\<And>x. P (f x) = P x) \<Longrightarrow> filter P (map f xs) = map f (filter P xs)"
  by (induction xs) auto

lemma period_ok_map:
  assumes "period_ok as" and "\<And>a. ra_Attempt (f a) = ra_Attempt a" and "\<And>a. ra_CreatedAt (f a) = ra_CreatedAt a"
    and "\<And>a. a \<in> set as \<Longrightarrow> ra_Status a = RFailed \<Longrightarrow> ra_Status (f a) = RFailed"
  shows "period_ok (map f as)"
proof -
  have "length (filter (\<lambda>a. ra_Status a \<noteq> RFailed) (map f as)) \<le> length (filter (\<lambda>a. ra_Status a \<noteq> RFailed) as)"
    using assms(4) by (induction as) (auto simp: le_Suc_eq)
  then show ?thesis using assms(1,2,3) by (simp add: period_ok_def comp_def)
qed

lemma bill_inv_finish:
  assumes "bill_inv took es d" and "ok \<or> \<not> took ref"
  shows "bill_inv took es (snd (FinishRenewalAttempt pgt ref ok why now d))"
proof -
  obtain w reason where w: "\<And>a. w a \<Longrightarrow> ra_Reference a = ref \<and> ra_Status a = RPending"
    and d: "snd (FinishRenewalAttempt pgt ref ok why now d) = d\<lparr>bd_attempts := map (\<lambda>a. if w a then finish_row ok reason now a else a) (bd_attempts d)\<rparr>"
    using finish_effect [of ref pgt ok why now d] by blast
  let ?f = "\<lambda>a. if w a then finish_row ok reason now a else a"
  have keep: "ra_Tenant (?f a) = ra_Tenant a" "ra_PeriodEnd (?f a) = ra_PeriodEnd a" "ra_Attempt (?f a) = ra_Attempt a"
    "ra_Reference (?f a) = ra_Reference a" "ra_CreatedAt (?f a) = ra_CreatedAt a" "pending_claim (?f a) = pending_claim a"
    "ra_Plan (?f a) = ra_Plan a" "ra_Amount (?f a) = ra_Amount a" for a by simp_all
  have ok: "attempt_ok took (?f a)" if "attempt_ok took a" for a
    using that w [of a] assms(2) unfolding attempt_ok_def keep by auto
  have rows: "period_ok (rows_of i e (d\<lparr>bd_attempts := map ?f (bd_attempts d)\<rparr>))" for i e
  proof -
    have "rows_of i e (d\<lparr>bd_attempts := map ?f (bd_attempts d)\<rparr>) = map ?f (rows_of i e d)"
      using filter_map_keep [of "\<lambda>a. ra_Tenant a = i \<and> ra_PeriodEnd a = e" ?f] keep by (simp add: rows_of_def)
    moreover have "period_ok (map ?f (rows_of i e d))"
    proof (rule period_ok_map)
      show "period_ok (rows_of i e d)" using assms(1) by (simp add: bill_inv_def)
    qed (use w in \<open>auto\<close>)
    ultimately show ?thesis by simp
  qed
  have "map ra_Reference (map ?f (bd_attempts d)) = map ra_Reference (bd_attempts d)" using keep(4) by (simp add: comp_def)
  moreover have "map (\<lambda>a. (ra_CreatedAt a, pending_claim a)) (map ?f (bd_attempts d)) = map (\<lambda>a. (ra_CreatedAt a, pending_claim a)) (bd_attempts d)"
    by (simp only: map_map comp_def keep)
  then have "bill_log_ok es (d\<lparr>bd_attempts := map ?f (bd_attempts d)\<rparr>)"
    using assms(1) by (simp add: bill_inv_def bill_log_ok_def del: map_map)
  moreover have "\<forall>a\<in>set (map ?f (bd_attempts d)). attempt_ok took a"
    using assms(1) ok unfolding set_map bill_inv_def by blast
  ultimately show ?thesis
    using assms(1) rows unfolding d by (simp add: bill_inv_def del: map_map set_map)
qed

lemma bill_inv_mark:
  assumes "bill_inv took es d"
  shows "bill_inv took (es @ map (Marked now) (fst (ClaimPlanReminders now lead d))) (snd (ClaimPlanReminders now lead d))"
proof -
  let ?es = "es @ map (Marked now) (fst (ClaimPlanReminders now lead d))"
  have "\<forall>t\<in>set (bd_tenants d). marker_ok ?es t" using assms marker_ok_mono unfolding bill_inv_def by blast
  then have inv: "bill_inv took ?es d" using assms by (simp add: bill_inv_def bill_log_ok_def)
  have "bill_inv took ?es (update_tenants (reminder_due now lead) (mark_row now) d)"
  proof (rule bill_inv_tenants [OF inv])
    fix t assume t: "t \<in> set (bd_tenants d)" "reminder_due now lead t"
    then have "Marked now (reminder_of t) \<in> set ?es" by (simp add: ClaimPlanReminders_def)
    moreover obtain e where "tn_PeriodEnd t = Some e"
      using t(2) by (auto simp: reminder_due_def in_window_def split: option.splits)
    ultimately show "marker_ok ?es (mark_row now t)"
      unfolding marker_ok_def by (intro allI impI exI [where x = now] exI [where x = "reminder_of t"]) (simp add: mark_row_def reminder_of_def)
  qed (simp add: mark_row_def)
  then show ?thesis by (simp add: ClaimPlanReminders_def)
qed

lemma bill_inv_pay:
  assumes "bill_inv took es d"
  shows "bill_inv took es (snd (ApplyPlanPayment now p period d))"
proof (cases "fst (ApplyPlanPayment now p period d) = None")
  case True
  let ?d = "update_tenants (\<lambda>t. tn_ID t = py_Tenant p) (paid_row now period p) d"
  have "bill_inv took es ?d"
    by (rule bill_inv_tenants [OF assms]) (auto simp: paid_row_def elim: marker_ok_same)
  moreover have "snd (ApplyPlanPayment now p period d) = ?d\<lparr>bd_payments := bd_payments d @ [\<lparr>pm_Reference = py_Reference p, pm_Tenant = py_Tenant p,
      pm_Plan = py_Plan p, pm_Amount = py_Amount p, pm_Currency = py_Currency p\<rparr>]\<rparr>"
    and "py_Reference p \<notin> set (map pm_Reference (bd_payments d))"
    using True by (auto simp: ApplyPlanPayment_def list_ex_iff split: if_splits)
  ultimately show ?thesis by (simp add: bill_inv_def rows_of_def bill_log_ok_def)
next
  case False
  then have "snd (ApplyPlanPayment now p period d) = d" by (auto simp: ApplyPlanPayment_def split: if_splits)
  then show ?thesis using assms by simp
qed

lemma bill_run_inv: "bill_run took es d \<Longrightarrow> bill_inv took es d"
proof (induction rule: bill_run.induct)
  case (start d)
  then show ?case by (simp add: bill_inv_def rows_of_def period_ok_def bill_log_ok_def timed_claims_def List.map_filter_simps)
next
  case (join es d i name)
  have "marker_ok es (fresh_tenant i name)" by (simp add: fresh_tenant_def)
  then show ?case
    using join.IH tenant_None [OF join.hyps(2)] by (auto simp: bill_inv_def rows_of_def bill_log_ok_def fresh_tenant_def)
next
  case (members es d ms hs)
  show ?case by (rule bill_inv_same [OF members.IH]) simp_all
next
  case (auto_renew es d i on)
  have "bill_inv took es (update_tenants (\<lambda>t. tn_ID t = i) (auto_renew_row on) d)"
    by (rule bill_inv_tenants [OF auto_renew.IH]) (auto simp: auto_renew_row_def elim: marker_ok_same)
  then show ?case using auto_renew.IH by (simp add: SetAutoRenew_def split: option.split)
next
  case (card es d i ct nonce email)
  have "bill_inv took es (update_tenants (\<lambda>t. tn_ID t = i) (\<lambda>t. t\<lparr>tn_Auth := Some (ct, nonce, email)\<rparr>) d)"
    by (rule bill_inv_tenants [OF card.IH]) (auto elim: marker_ok_same)
  then show ?case using card.IH by (simp add: SaveRenewalAuthorization_def)
next
  case (retention es d i days)
  have "bill_inv took es (update_tenants (\<lambda>t. tn_ID t = i) (\<lambda>t. t\<lparr>tn_Retention := days\<rparr>) d)"
    by (rule bill_inv_tenants [OF retention.IH]) (auto elim: marker_ok_same)
  then show ?case using retention.IH by (simp add: SetTenantRetention_def)
next
  case (release es d i e)
  show ?case unfolding ReleasePlanReminder_def by (rule bill_inv_tenants [OF release.IH]) (simp_all add: clear_reminder_def)
next
  case (lapse es d now)
  have "bill_inv took es (update_tenants (lapsed now) lapse_row d)"
    by (rule bill_inv_tenants [OF lapse.IH]) (auto simp: lapse_row_def elim: marker_ok_same)
  then show ?case by (simp add: DowngradeLapsedPlans_def)
qed (auto intro: bill_inv_mark bill_inv_claim bill_inv_finish bill_inv_pay)

section \<open>Charged once, after notice\<close>

lemma claims_rows:
  assumes "bill_log_ok es d"
  shows "map bare (claims_made es) = map pending_claim (bd_attempts d)"
proof -
  have "map snd (map (\<lambda>a. (ra_CreatedAt a, pending_claim a)) (bd_attempts d)) = map snd (map (\<lambda>(n, c). (pg_trunc n, bare c)) (timed_claims es))"
    using assms by (simp add: bill_log_ok_def)
  then show ?thesis by (simp add: claims_made_def comp_def split_def)
qed

lemma length_filter_claims:
  assumes "bill_log_ok es d" and "\<And>c. P (bare c) = P c"
  shows "length (filter P (claims_made es)) = length (filter (\<lambda>a. P (pending_claim a)) (bd_attempts d))"
proof -
  have "length (filter P (claims_made es)) = length (filter P (map bare (claims_made es)))"
    using assms(2) by (simp add: filter_map comp_def)
  also have "\<dots> = length (filter (\<lambda>a. P (pending_claim a)) (bd_attempts d))"
    unfolding claims_rows [OF assms(1)] by (simp add: filter_map comp_def)
  finally show ?thesis .
qed

lemma length_filter_mono: "(\<And>x. x \<in> set xs \<Longrightarrow> P x \<Longrightarrow> Q x) \<Longrightarrow> length (filter P xs) \<le> length (filter Q xs)"
  by (induction xs) (auto simp: le_Suc_eq)

text \<open>
  (C26) A billing period is paid for at most once by automatic renewal. Take any run of the transactions by any number of
  processes, with the provider's definite refusals being true. For one tenant and period at most three
  charges are ever sent out, at most one of them takes money, no reference is used for two charges, and each
  asks for the server-side price of a paid plan.
\<close>

theorem renewal_charged_once:
  assumes "bill_run took es d"
  shows "distinct (map rc_Reference (claims_made es)) \<and> length (filter (of_period i e) (claims_made es)) \<le> RenewalMaxAttempts
    \<and> length (filter (\<lambda>c. of_period i e c \<and> took (rc_Reference c)) (claims_made es)) \<le> 1
    \<and> (\<forall>c\<in>set (claims_made es). IsPaid (rc_Plan c) \<and> rc_Amount c = pl_Price (PlanFor (rc_Plan c)))"
proof -
  note inv = bill_run_inv [OF assms, unfolded bill_inv_def]
  have l: "bill_log_ok es d" using inv by blast
  have rows: "filter (\<lambda>a. of_period i e (pending_claim a)) (bd_attempts d) = rows_of i e d"
    by (simp add: of_period_def pending_claim_def rows_of_def)
  have ok: "period_ok (rows_of i e d)" using inv by blast
  have "map rc_Reference (claims_made es) = map ra_Reference (bd_attempts d)"
    using arg_cong [OF claims_rows [OF l], of "map rc_Reference"] by (simp add: comp_def bare_def pending_claim_def)
  then have 1: "distinct (map rc_Reference (claims_made es))" using inv by simp
  have 2: "length (filter (of_period i e) (claims_made es)) \<le> RenewalMaxAttempts"
    using length_filter_claims [OF l, of "of_period i e"] rows ok by (simp add: period_ok_def of_period_def bare_def)
  have "length (filter (\<lambda>c. of_period i e c \<and> took (rc_Reference c)) (claims_made es))
      = length (filter (\<lambda>a. of_period i e (pending_claim a) \<and> took (ra_Reference a)) (bd_attempts d))"
    using length_filter_claims [OF l, of "\<lambda>c. of_period i e c \<and> took (rc_Reference c)"] by (simp add: of_period_def bare_def pending_claim_def)
  also have "\<dots> \<le> length (filter (\<lambda>a. of_period i e (pending_claim a) \<and> ra_Status a \<noteq> RFailed) (bd_attempts d))"
    using inv by (intro length_filter_mono) (auto simp: attempt_ok_def)
  also have "\<dots> = length (filter (\<lambda>a. ra_Status a \<noteq> RFailed) (rows_of i e d))"
    unfolding rows [symmetric] filter_filter by (simp add: conj_commute)
  finally have 3: "length (filter (\<lambda>c. of_period i e c \<and> took (rc_Reference c)) (claims_made es)) \<le> 1"
    using ok by (simp add: period_ok_def)
  have "IsPaid (rc_Plan c) \<and> rc_Amount c = pl_Price (PlanFor (rc_Plan c))" if "c \<in> set (claims_made es)" for c
  proof -
    have "bare c \<in> set (map pending_claim (bd_attempts d))" using that unfolding claims_rows [OF l, symmetric] by simp
    then obtain a where a: "a \<in> set (bd_attempts d)" "bare c = pending_claim a" by auto
    have "rc_Plan c = ra_Plan a" "rc_Amount c = ra_Amount a"
      using arg_cong [OF a(2), of rc_Plan] arg_cong [OF a(2), of rc_Amount] by (simp_all add: bare_def pending_claim_def)
    then show ?thesis using inv a(1) by (auto simp: attempt_ok_def)
  qed
  then show ?thesis using 1 2 3 by blast
qed

definition notice_ok :: "bill_event list \<Rightarrow> gotime \<Rightarrow> renewalClaim \<Rightarrow> bool" where
  "notice_ok xs now c \<longleftrightarrow> now < rc_PeriodEnd c \<and> rc_PeriodEnd c \<le> now + RenewalChargeWindow
     \<and> (\<exists>at m. Marked at m \<in> set xs \<and> rm_Tenant m = rc_Tenant c \<and> rm_PeriodEnd m = rc_PeriodEnd c \<and> rm_AutoRenew m
          \<and> pg_trunc at + RenewalMinNotice \<le> now)
     \<and> (\<forall>(n, b)\<in>set (timed_claims xs). of_period (rc_Tenant c) (rc_PeriodEnd c) b \<longrightarrow> pg_trunc n + RenewalRetrySpacing \<le> now)"

definition notices :: "bill_event list \<Rightarrow> bool" where
  "notices es \<longleftrightarrow> (\<forall>xs now c ys. es = xs @ Claimed now c # ys \<longrightarrow> notice_ok xs now c)"

lemma notices_Nil [simp]: "notices []"
  by (simp add: notices_def)

lemma notices_snoc:
  assumes "notices es" and "\<And>now c. f = Claimed now c \<Longrightarrow> notice_ok es now c"
  shows "notices (es @ [f])"
  unfolding notices_def
proof (intro allI impI)
  fix xs now c ys assume eq: "es @ [f] = xs @ Claimed now c # ys"
  show "notice_ok xs now c"
  proof (cases ys rule: rev_cases)
    case Nil
    then show ?thesis using eq assms(2) by simp
  next
    case (snoc zs z)
    then have "es = xs @ Claimed now c # zs" using eq by simp
    then show ?thesis using assms(1) by (simp add: notices_def)
  qed
qed

lemma notices_marks: "notices es \<Longrightarrow> notices (es @ map (Marked now) ms)"
proof (induction ms rule: rev_induct)
  case (snoc m ms)
  then show ?case using notices_snoc [of "es @ map (Marked now) ms" "Marked now m"] by simp
qed simp

lemma row_time:
  assumes "bill_log_ok es d" and "(n, b) \<in> set (timed_claims es)" and "of_period i e b"
  shows "\<exists>a\<in>set (rows_of i e d). ra_CreatedAt a = pg_trunc n"
proof -
  have "(pg_trunc n, bare b) \<in> set (map (\<lambda>(n, c). (pg_trunc n, bare c)) (timed_claims es))"
    using imageI [OF assms(2), of "\<lambda>(n, c). (pg_trunc n, bare c)"] by simp
  then have "(pg_trunc n, bare b) \<in> set (map (\<lambda>a. (ra_CreatedAt a, pending_claim a)) (bd_attempts d))"
    unfolding assms(1) [unfolded bill_log_ok_def] .
  then obtain a where a: "a \<in> set (bd_attempts d)" "ra_CreatedAt a = pg_trunc n" "pending_claim a = bare b" by auto
  have "ra_Tenant a = i" "ra_PeriodEnd a = e"
    using arg_cong [OF a(3), of rc_Tenant] arg_cong [OF a(3), of rc_PeriodEnd] assms(3) by (simp_all add: bare_def pending_claim_def of_period_def)
  then show ?thesis using a by (auto simp: rows_of_def)
qed

lemma sorted_last: "sorted xs \<Longrightarrow> x \<in> set xs \<Longrightarrow> x \<le> List.last xs" for x :: "'a::linorder"
  by (induction xs) auto

lemma notices_claim:
  assumes "bill_inv took es d" and "notices es"
  shows "notices (es @ claim_events i now d)"
  using assms(1)
proof (cases rule: claim_cases [of took es d i now])
  case (some t e auth c r)
  have c: "rc_Tenant c = i" "rc_PeriodEnd c = e"
    using arg_cong [OF some(9), of rc_Tenant] arg_cong [OF some(9), of rc_PeriodEnd] some(2,4) by (simp_all add: bare_def pending_claim_def claim_row_def)
  note a = claim_allowedD [OF some(3)]
  have "marker_ok es t" using some(1) assms(1) by (simp add: bill_inv_def)
  then obtain at m where m: "Marked at m \<in> set es" "rm_Tenant m = i" "rm_PeriodEnd m = e" "tn_ReminderAt t = Some (pg_trunc at)" "rm_AutoRenew m"
    using a(4,5) some(2) by (auto simp: marker_ok_def)
  have "pg_trunc n + RenewalRetrySpacing \<le> now" if nb: "(n, b) \<in> set (timed_claims es)" "of_period i e b" for n b
  proof -
    obtain x where x: "x \<in> set (rows_of i e d)" "ra_CreatedAt x = pg_trunc n" using row_time [OF _ nb, of d] assms(1) unfolding bill_inv_def by blast
    then have ne: "rows_of i e d \<noteq> []" by auto
    have "sorted (map ra_CreatedAt (rows_of i e d))" using assms(1) by (simp add: bill_inv_def period_ok_def)
    from sorted_last [OF this, of "ra_CreatedAt x"] have "ra_CreatedAt x \<le> ra_CreatedAt (List.last (rows_of i e d))"
      using x(1) ne by (simp add: last_map)
    then show ?thesis using not_blockedD(3) [OF some(5) ne] x(2) by linarith
  qed
  then have "notice_ok es now c" using a(2,3,6) m c unfolding notice_ok_def by auto
  then show ?thesis using notices_snoc [OF assms(2), of "Claimed now c"] timed_claims_claim [OF some(8)] by simp
qed (simp add: assms)

text \<open>
  Nobody is charged without warning. Every charge that is sent out for a period follows a reminder for that very
  period which announced an automatic charge and was marked at least 24 hours before; it comes in the last 48 hours
  of the period, and at least 12 hours after every earlier charge for it.
\<close>

theorem renewal_after_notice:
  assumes "bill_run took (xs @ Claimed now c # ys) d"
  shows "now < rc_PeriodEnd c \<and> rc_PeriodEnd c \<le> now + RenewalChargeWindow
     \<and> (\<exists>at m. Marked at m \<in> set xs \<and> rm_Tenant m = rc_Tenant c \<and> rm_PeriodEnd m = rc_PeriodEnd c \<and> rm_AutoRenew m
          \<and> pg_trunc at + RenewalMinNotice \<le> now)
     \<and> (\<forall>(n, b)\<in>set (timed_claims xs). of_period (rc_Tenant c) (rc_PeriodEnd c) b \<longrightarrow> pg_trunc n + RenewalRetrySpacing \<le> now)"
proof -
  have "notices es" if "bill_run took es d" for es d
    using that
  proof (induction rule: bill_run.induct)
    case (claim es d i now)
    then show ?case using notices_claim bill_run_inv by blast
  qed (auto intro: notices_marks)
  then show ?thesis using assms unfolding notices_def notice_ok_def [symmetric] by blast
qed

section \<open>Payments and retention\<close>

lemma find_update:
  assumes "\<And>t. tn_ID (f t) = tn_ID t"
  shows "find_tenant (update_tenants w f d) i = map_option (\<lambda>t. if w t then f t else t) (find_tenant d i)"
proof -
  have "find (\<lambda>t. tn_ID t = i) (map (\<lambda>t. if w t then f t else t) ts) = map_option (\<lambda>t. if w t then f t else t) (find (\<lambda>t. tn_ID t = i) ts)" for ts
    by (induction ts) (auto simp: assms)
  then show ?thesis by (simp add: find_tenant_def)
qed

lemma tenant_payments [simp]: "find_tenant (d\<lparr>bd_payments := ps\<rparr>) i = find_tenant d i"
  by (simp add: find_tenant_def)

text \<open>
  A payment counts once and in full. When a payment is applied, its tenant has the paid plan until a full period
  after now, and after the old end if the same plan was still running, nobody else's plan changes, and applying
  a payment with that reference again changes nothing, whatever it says.
\<close>

theorem payment_counts_once:
  assumes "ApplyPlanPayment now p period d = (None, d')" and "find_tenant d (py_Tenant p) = Some t"
  shows "(\<exists>t'. find_tenant d' (py_Tenant p) = Some t' \<and> tn_Plan t' = py_Plan p \<and> IsPaid (tn_Plan t') \<and> tn_Status t' = ''active'' \<and>
        (\<exists>e'. tn_PeriodEnd t' = Some e' \<and> now + period \<le> e' \<and>
           (\<forall>e. tn_PeriodEnd t = Some e \<and> tn_Plan t = py_Plan p \<and> tn_Status t = ''active'' \<longrightarrow> e + period \<le> e')))
    \<and> (\<forall>j. j \<noteq> py_Tenant p \<longrightarrow> find_tenant d' j = find_tenant d j)
    \<and> (\<forall>now2 q period2. py_Reference q = py_Reference p \<longrightarrow>
         fst (ApplyPlanPayment now2 q period2 d') \<noteq> None \<and> snd (ApplyPlanPayment now2 q period2 d') = d')"
proof -
  let ?u = "update_tenants (\<lambda>t. tn_ID t = py_Tenant p) (paid_row now period p) d"
  have paid: "IsPaid (py_Plan p)" and d': "d' = ?u\<lparr>bd_payments := bd_payments d @ [\<lparr>pm_Reference = py_Reference p, pm_Tenant = py_Tenant p,
      pm_Plan = py_Plan p, pm_Amount = py_Amount p, pm_Currency = py_Currency p\<rparr>]\<rparr>"
    using assms(1) by (auto simp: ApplyPlanPayment_def split: if_splits)
  have f: "tn_ID (paid_row now period p t) = tn_ID t" for t by (simp add: paid_row_def)
  have find: "find_tenant d' i = map_option (\<lambda>t. if tn_ID t = py_Tenant p then paid_row now period p t else t) (find_tenant d i)" for i
    using find_update [of "paid_row now period p", OF f] unfolding d' by simp
  have "find_tenant d' (py_Tenant p) = Some (paid_row now period p t)" using find assms(2) tenant_Some [OF assms(2)] by simp
  moreover have "tn_PeriodEnd (paid_row now period p t) = Some (extended_end now period (py_Plan p) t)" by (simp add: paid_row_def)
  moreover have "now + period \<le> extended_end now period (py_Plan p) t" by (simp add: extended_end_def)
  moreover have "e + period \<le> extended_end now period (py_Plan p) t"
    if "tn_PeriodEnd t = Some e \<and> tn_Plan t = py_Plan p \<and> tn_Status t = ''active''" for e using that by (simp add: extended_end_def)
  moreover have "find_tenant d' j = find_tenant d j" if "j \<noteq> py_Tenant p" for j
    using find [of j] that by (cases "find_tenant d j") (auto dest: tenant_Some)
  moreover have "fst (ApplyPlanPayment now2 q period2 d') \<noteq> None \<and> snd (ApplyPlanPayment now2 q period2 d') = d'"
    if "py_Reference q = py_Reference p" for now2 q period2
  proof -
    have "list_ex (\<lambda>x. pm_Reference x = py_Reference q) (bd_payments d')" using that by (simp add: d')
    then show ?thesis by (simp add: ApplyPlanPayment_def)
  qed
  ultimately show ?thesis using paid by (auto simp: paid_row_def)
qed

definition DefaultRetentionDays :: int where "DefaultRetentionDays = 90"

definition DefaultRetentionDaysFor :: "bool \<Rightarrow> string \<Rightarrow> int" where
  "DefaultRetentionDaysFor on planID = (if on then pl_RetentionDays (PlanFor planID) else DefaultRetentionDays)"

text \<open>The window the purge works with.\<close>

definition retention_window :: "bool \<Rightarrow> tenant_row \<Rightarrow> int" where
  "retention_window on t = (case tn_Retention t of Some n \<Rightarrow> n
     | None \<Rightarrow> if on then (if tn_Plan t = ''free'' then pl_RetentionDays plan_free else if tn_Plan t = ''plus'' then pl_RetentionDays plan_plus
                                else pl_RetentionDays plan_pro)
               else DefaultRetentionDays)"

text \<open>
  A lapse never shortens how long a tenant's mail is kept: with plan limits enforced, every tenant has the
  same retention window after the lapse job as before, and only the plan and its status change.
\<close>

theorem lapse_keeps_retention:
  assumes "find_tenant d i = Some t" and "tn_Plan t \<in> {''free'', ''plus'', ''pro''}"
  shows "\<exists>t'. find_tenant (snd (DowngradeLapsedPlans now d)) i = Some t' \<and> retention_window True t' = retention_window True t
    \<and> t'\<lparr>tn_Plan := tn_Plan t, tn_Status := tn_Status t, tn_Retention := tn_Retention t\<rparr> = t"
proof -
  have f: "tn_ID (lapse_row t) = tn_ID t" for t by (simp add: lapse_row_def)
  have "find_tenant (snd (DowngradeLapsedPlans now d)) i = Some (if lapsed now t then lapse_row t else t)"
    using find_update [of lapse_row, OF f] assms(1) by (simp add: DowngradeLapsedPlans_def)
  moreover have "retention_window True (lapse_row t) = retention_window True t" if "lapsed now t"
    using that assms(2) by (auto simp: retention_window_def lapse_row_def lapsed_def plan_plus_def plan_pro_def split: option.splits)
  ultimately show ?thesis by (simp add: lapse_row_def)
qed

text \<open>
  The window pinned by a lapse stays pinned: a tenant whose Plus plan lapsed and who then pays for Pro keeps
  30 days of mail, not the 90 of the plan it pays for.
\<close>

theorem lapsed_retention_sticks:
  assumes "find_tenant d i = Some t" and "tn_Plan t = ''plus''" and "tn_Retention t = None" and "lapsed now t"
    and "py_Tenant p = i" and "py_Plan p = ''pro''"
    and "ApplyPlanPayment now2 p period (snd (DowngradeLapsedPlans now d)) = (None, d')"
  shows "\<exists>t'. find_tenant d' i = Some t' \<and> tn_Plan t' = ''pro'' \<and> retention_window True t' = 30"
proof -
  let ?d = "snd (DowngradeLapsedPlans now d)"
  have f: "tn_ID (lapse_row t) = tn_ID t" "tn_ID (paid_row now2 period p t) = tn_ID t" for t by (simp_all add: lapse_row_def paid_row_def)
  have t1: "find_tenant ?d i = Some (lapse_row t)"
    using find_update [of lapse_row, OF f(1)] assms(1,4) by (simp add: DowngradeLapsedPlans_def)
  have "find_tenant d' i = Some (paid_row now2 period p (lapse_row t))"
    using assms(5,7) t1 find_update [of "paid_row now2 period p", OF f(2)] tenant_Some [OF t1]
    by (auto simp: ApplyPlanPayment_def split: if_splits)
  then show ?thesis using assms(2,3,6) by (simp add: paid_row_def lapse_row_def retention_window_def)
qed

section \<open>The pass\<close>

text \<open>
  What the pass relies on: a definite refusal of a charge or of a verification is final, and money is taken only under a reference
  that was sent, by an earlier pass or by this one.
\<close>

definition sent_refs :: "bill_effect list \<Rightarrow> string list" where
  "sent_refs es = List.map_filter (\<lambda>e. case e of ECharge q \<Rightarrow> Some (cq_Reference q) | _ \<Rightarrow> None) es"

definition refs_of :: "bill_db \<Rightarrow> string set" where
  "refs_of d = ra_Reference ` set (bd_attempts d)"

definition final_refusals :: "unicode \<Rightarrow> (string \<Rightarrow> bool) \<Rightarrow> renewer \<Rightarrow> bool" where
  "final_refusals U took R \<longleftrightarrow>
     (\<forall>q. ch_Outcome (doTx U False (rw_charge R q)) = ChargeFailed \<longrightarrow> \<not> took (cq_Reference q)) \<and>
     (\<forall>ref. ch_Outcome (doTx U True (rw_verify R ref)) = ChargeFailed \<longrightarrow> \<not> took ref)"

lemma sent_refs_append [simp]: "sent_refs (es @ fs) = sent_refs es @ sent_refs fs"
  by (simp add: sent_refs_def map_filter_def)

lemma sent_refs_simps [simp]: "sent_refs [] = []" "sent_refs (ECharge q # es) = cq_Reference q # sent_refs es"
  "sent_refs (EVerify r # es) = sent_refs es" "sent_refs (EMail a b c # es) = sent_refs es"
  by (simp_all add: sent_refs_def List.map_filter_simps)

lemma sent_refs_mails [simp]: "sent_refs (map (\<lambda>to. EMail to m (s to)) xs) = []"
  by (induction xs) simp_all

lemma bill_email_sent [simp]: "sent_refs (bill_email R i m d) = []"
  by (simp add: bill_email_def split: option.split)

lemma settle_sent [simp]: "sent_refs (fst (bill_settle U R c res now d)) = []"
  by (auto simp: bill_settle_def Let_def split: chargeOutcome.split prod.split sum.split)

text \<open>Settling keeps the references, and is a payment and a finish of the run.\<close>

lemma apply_attempts [simp]: "bd_attempts (snd (ApplyPlanPayment now p period d)) = bd_attempts d"
  by (simp add: ApplyPlanPayment_def)

lemma finish_refs [simp]: "refs_of (snd (FinishRenewalAttempt pgt ref ok why now d)) = refs_of d"
proof -
  obtain w reason where "snd (FinishRenewalAttempt pgt ref ok why now d) = d\<lparr>bd_attempts := map (\<lambda>a. if w a then finish_row ok reason now a else a) (bd_attempts d)\<rparr>"
    using finish_effect [of ref pgt ok why now d] by blast
  moreover have "ra_Reference ` set (map (\<lambda>a. if w a then finish_row ok reason now a else a) (bd_attempts d)) = ra_Reference ` set (bd_attempts d)"
    unfolding set_map image_image by (rule image_cong) simp_all
  ultimately show ?thesis by (simp add: refs_of_def del: set_map)
qed

lemma settle_db:
  obtains (same) "snd (bill_settle U R c res now d) = d"
  | (paid) p period clock where "ch_Outcome res = ChargeSucceeded"
      "snd (bill_settle U R c res now d) = snd (ApplyPlanPayment clock p period d)"
  | (finished) p period clock where "ch_Outcome res = ChargeSucceeded"
      "snd (bill_settle U R c res now d) = snd (FinishRenewalAttempt (rw_text R) (rc_Reference c) True [] now (snd (ApplyPlanPayment clock p period d)))"
  | (failed) why where "ch_Outcome res = ChargeFailed"
      "snd (bill_settle U R c res now d) = snd (FinishRenewalAttempt (rw_text R) (rc_Reference c) False why now d)"
proof (cases "ch_Outcome res")
  case ChargeUnknown
  then show ?thesis using same by (simp add: bill_settle_def)
next
  case ChargeSucceeded
  let ?p = "\<lparr>py_Reference = rc_Reference c, py_Tenant = rc_Tenant c, py_Plan = rc_Plan c, py_Amount = rc_Amount c,
     py_Currency = ps_currency, py_Customer = []\<rparr>"
  obtain err d1 where a: "ApplyPlanPayment (rw_clock R (rc_Reference c)) ?p planPeriod d = (err, d1)" by (meson surj_pair)
  let ?stop = "ch_Amount res \<noteq> rc_Amount c \<or> \<not> EqualFold U (ch_Currency res) ps_currency \<or> rw_fails R (CallApply (rc_Reference c))
    \<or> (err \<noteq> None \<and> err \<noteq> Some PErrAlreadyApplied)"
  consider "?stop" | "\<not> ?stop" "rw_fails R (CallFinish (rc_Reference c))" | "\<not> ?stop" "\<not> rw_fails R (CallFinish (rc_Reference c))" by blast
  then show ?thesis
  proof cases
    case 1
    then have "snd (bill_settle U R c res now d) = d" using ChargeSucceeded a by (elim disjE conjE) (simp_all add: bill_settle_def)
    then show ?thesis by (rule same)
  next
    case 2
    then have "snd (bill_settle U R c res now d) = d1" using ChargeSucceeded a by (auto simp: bill_settle_def Let_def)
    then show ?thesis using paid [OF ChargeSucceeded, of "rw_clock R (rc_Reference c)" ?p planPeriod] a by simp
  next
    case 3
    then have "snd (bill_settle U R c res now d) = snd (FinishRenewalAttempt (rw_text R) (rc_Reference c) True [] now d1)"
      using ChargeSucceeded a by (auto simp: bill_settle_def Let_def)
    then show ?thesis using finished [OF ChargeSucceeded, of "rw_clock R (rc_Reference c)" ?p planPeriod] a by simp
  qed
next
  case ChargeFailed
  let ?why = "if TrimSpace (ch_Reason res) = [] then ''the payment was declined'' else TrimSpace (ch_Reason res)"
  show ?thesis
  proof (cases "rw_fails R (CallFinish (rc_Reference c)) \<or> \<not> rw_text R (take 500 ?why)")
    case True
    then have "snd (bill_settle U R c res now d) = d" using ChargeFailed by (auto simp: bill_settle_def FinishRenewalAttempt_def Let_def)
    then show ?thesis by (rule same)
  next
    case False
    then have "snd (bill_settle U R c res now d) = snd (FinishRenewalAttempt (rw_text R) (rc_Reference c) False ?why now d)"
      using ChargeFailed by (simp add: bill_settle_def FinishRenewalAttempt_def Let_def)
    then show ?thesis using failed ChargeFailed by blast
  qed
qed

lemma settle_run:
  assumes "bill_run took es d" and "ch_Outcome res = ChargeFailed \<Longrightarrow> \<not> took (rc_Reference c)"
  shows "bill_run took es (snd (bill_settle U R c res now d))"
proof (cases rule: settle_db [of U R c res now d])
  case (paid p period clock)
  then show ?thesis using bill_run.pay [OF assms(1)] by simp
next
  case (finished p period clock)
  then show ?thesis using bill_run.succeed [OF bill_run.pay [OF assms(1)]] by simp
next
  case (failed why)
  then show ?thesis using bill_run.decline [OF assms(1)] assms(2) by simp
qed (simp add: assms)

lemma settle_refs [simp]: "refs_of (snd (bill_settle U R c res now d)) = refs_of d"
  by (cases rule: settle_db [of U R c res now d]) (simp_all, simp_all add: refs_of_def)

lemma release_refs [simp]: "refs_of (ReleasePlanReminder i e d) = refs_of d"
  by (simp add: ReleasePlanReminder_def refs_of_def)

lemma send_all_run: "bill_run took es d \<Longrightarrow> bill_run took es (snd (send_all R send ms d))"
proof (induction ms arbitrary: d)
  case (Cons m ms)
  have "bill_run took es (snd (send_reminder R send m d))"
    using Cons.prems bill_run.release [OF Cons.prems] by (simp add: send_reminder_def Let_def)
  from Cons.IH [OF this] show ?case by (simp add: split_def)
qed simp

lemma send_all_sent: "sent_refs (fst (send_all R send ms d)) = []"
  by (induction ms arbitrary: d) (simp_all add: split_def send_reminder_def Let_def)

lemma send_all_refs: "refs_of (snd (send_all R send ms d)) = refs_of d"
  by (induction ms arbitrary: d) (simp_all add: split_def send_reminder_def Let_def)

lemma reconcile_run:
  assumes "final_refusals U took R"
  shows "bill_run took es d \<Longrightarrow> bill_run took es (snd (reconcile_all U R now cs d)) \<and>
    sent_refs (fst (reconcile_all U R now cs d)) = [] \<and> refs_of (snd (reconcile_all U R now cs d)) = refs_of d"
proof (induction cs arbitrary: d)
  case (Cons c cs)
  have "bill_run took es (snd (bill_settle U R c (VerifyTransaction U (rw_verify R) (rc_Reference c)) now d))"
    using assms by (intro settle_run [OF Cons.prems]) (simp add: final_refusals_def VerifyTransaction_def)
  from Cons.IH [OF this] show ?case by (simp add: split_def)
qed simp

lemma renewOne_none:
  assumes "rw_fails R (CallClaim i) \<or> (\<forall>c. fst (ClaimRenewalAttempt i now d) \<noteq> Inr (Some c))" and "bill_inv took es d"
  shows "fst (renewOne U R decrypt now i d) = [] \<and> snd (renewOne U R decrypt now i d) = d"
  using assms(2)
proof (cases rule: claim_cases [of took es d i now])
  case none
  then show ?thesis using assms(1) by (auto simp: renewOne_def split_def split: sum.splits option.splits)
next
  case (some t e auth c r)
  then show ?thesis using assms(1) by (simp add: renewOne_def)
qed

text \<open>A renewal that got a claim: the claim's row, then the settling of whatever came back.\<close>

lemma renewOne_some:
  assumes "\<not> rw_fails R (CallClaim i)" and "fst (ClaimRenewalAttempt i now d) = Inr (Some c)"
  obtains res where "snd (renewOne U R decrypt now i d) = snd (bill_settle U R c res now (snd (ClaimRenewalAttempt i now d)))"
      "sent_refs (fst (renewOne U R decrypt now i d)) = []" "rc_Reference c \<notin> set (sent_refs (fst (renewOne U R decrypt now i d)))"
  | q where "snd (renewOne U R decrypt now i d) = snd (bill_settle U R c (doTx U False (rw_charge R q)) now (snd (ClaimRenewalAttempt i now d)))"
      "sent_refs (fst (renewOne U R decrypt now i d)) = [rc_Reference c]" "cq_Reference q = rc_Reference c"
proof -
  obtain d1 where cl: "ClaimRenewalAttempt i now d = (Inr (Some c), d1)" using assms(2) by (cases "ClaimRenewalAttempt i now d") simp
  obtain ct nonce email where a: "rc_Auth c = (ct, nonce, email)" by (cases "rc_Auth c")
  show thesis
  proof (cases "decrypt ct nonce (rc_Tenant c)")
    case None
    then have "renewOne U R decrypt now i d = bill_settle U R c (charge_result ChargeFailed ''saved card could not be read; please renew manually'') now d1"
      using assms(1) cl a by (simp add: renewOne_def)
    then show thesis using that(1) cl by simp
  next
    case (Some code)
    show thesis
    proof (cases "pl_Price (PlanFor (rc_Plan c)) \<le> 0")
      case True
      then have "snd (renewOne U R decrypt now i d) = snd (bill_settle U R c (charge_result ChargeFailed ''plan is not purchasable'') now d1)"
        "sent_refs (fst (renewOne U R decrypt now i d)) = []"
        using assms(1) cl a Some by (simp_all add: renewOne_def ChargeAuthorization_def split_def)
      then show thesis using that(1) cl by simp
    next
      case False
      let ?q = "\<lparr>cq_Email = email, cq_Amount = pl_Price (PlanFor (rc_Plan c)), cq_Currency = ps_currency, cq_Code = code,
        cq_Reference = rc_Reference c, cq_Tenant = rc_Tenant c, cq_Plan = rc_Plan c\<rparr>"
      have "snd (renewOne U R decrypt now i d) = snd (bill_settle U R c (doTx U False (rw_charge R ?q)) now d1)"
        "sent_refs (fst (renewOne U R decrypt now i d)) = [rc_Reference c]"
        using assms(1) cl a Some False by (simp_all add: renewOne_def ChargeAuthorization_def split_def Let_def)
      then show thesis using that(2) [of ?q] cl by simp
    qed
  qed
qed

lemma claim_refs:
  assumes "bill_inv took es d" and "fst (ClaimRenewalAttempt i now d) = Inr (Some c)"
  shows "rc_Reference c \<notin> refs_of d" "refs_of (snd (ClaimRenewalAttempt i now d)) = insert (rc_Reference c) (refs_of d)"
proof -
  have "rc_Reference c \<notin> refs_of d \<and> refs_of (snd (ClaimRenewalAttempt i now d)) = insert (rc_Reference c) (refs_of d)"
    using assms(1)
  proof (cases rule: claim_cases [of took es d i now])
    case none
    then show ?thesis using assms(2) by (simp add: claim_events_def)
  next
    case (some t e auth b r)
    have "rc_Reference c = ra_Reference r"
      using assms(2) some(8) arg_cong [OF some(9), of rc_Reference] by (simp add: bare_def pending_claim_def)
    then show ?thesis using some(6,7) by (auto simp: refs_of_def attempt_conflict_def list_ex_iff)
  qed
  then show "rc_Reference c \<notin> refs_of d" "refs_of (snd (ClaimRenewalAttempt i now d)) = insert (rc_Reference c) (refs_of d)" by auto
qed

lemma claim_run:
  assumes "bill_run took es d" and "fst (ClaimRenewalAttempt i now d) = Inr (Some c)"
  shows "bill_run took (es @ [Claimed now c]) (snd (ClaimRenewalAttempt i now d))"
  using bill_run.claim [OF assms(1), of i now] timed_claims_claim [OF assms(2)] by simp

text \<open>What one renewal sends out is new, and is claimed.\<close>

lemma renewOne_sent:
  assumes "bill_inv took es d"
  shows "set (sent_refs (fst (renewOne U R decrypt now i d))) \<inter> refs_of d = {} \<and>
    refs_of d \<union> set (sent_refs (fst (renewOne U R decrypt now i d))) \<subseteq> refs_of (snd (renewOne U R decrypt now i d))"
proof (cases "\<not> rw_fails R (CallClaim i) \<and> (\<exists>c. fst (ClaimRenewalAttempt i now d) = Inr (Some c))")
  case True
  then obtain c where c: "\<not> rw_fails R (CallClaim i)" "fst (ClaimRenewalAttempt i now d) = Inr (Some c)" by blast
  note r = claim_refs [OF assms c(2)]
  show ?thesis using c r by (cases rule: renewOne_some [OF c, of U decrypt]) auto
next
  case False
  then show ?thesis using renewOne_none [OF _ assms, of R i now] by auto
qed

lemma renewOne_run:
  assumes "bill_run took es d" and "final_refusals U took R"
    and "\<And>ref. took ref \<Longrightarrow> ref \<in> refs_of d \<union> set (sent_refs (fst (renewOne U R decrypt now i d))) \<union> later"
    and "later \<inter> refs_of (snd (renewOne U R decrypt now i d)) = {}"
  shows "\<exists>fs. bill_run took (es @ fs) (snd (renewOne U R decrypt now i d)) \<and>
    set (sent_refs (fst (renewOne U R decrypt now i d))) \<subseteq> rc_Reference ` set (claims_made fs)"
proof (cases "\<not> rw_fails R (CallClaim i) \<and> (\<exists>c. fst (ClaimRenewalAttempt i now d) = Inr (Some c))")
  case True
  then obtain c where c: "\<not> rw_fails R (CallClaim i)" "fst (ClaimRenewalAttempt i now d) = Inr (Some c)" by blast
  note inv = bill_run_inv [OF assms(1)]
  note r = claim_refs [OF inv c(2)]
  note run = claim_run [OF assms(1) c(2)]
  show ?thesis
  proof (cases rule: renewOne_some [OF c, of U decrypt])
    case (1 res)
    have "\<not> took (rc_Reference c)" using assms(3,4) r 1 by auto
    from settle_run [OF run this] have "bill_run took (es @ [Claimed now c]) (snd (renewOne U R decrypt now i d))" using 1 by simp
    then show ?thesis using 1 by (intro exI [where x = "[Claimed now c]"]) simp
  next
    case (2 q)
    have "ch_Outcome (doTx U False (rw_charge R q)) = ChargeFailed \<Longrightarrow> \<not> took (rc_Reference c)"
      using assms(2) 2(3) unfolding final_refusals_def by metis
    from settle_run [OF run this] have "bill_run took (es @ [Claimed now c]) (snd (renewOne U R decrypt now i d))" using 2 by simp
    then show ?thesis using 2 by (intro exI [where x = "[Claimed now c]"]) (simp add: claims_made_def)
  qed
next
  case False
  then show ?thesis using renewOne_none [OF _ bill_run_inv [OF assms(1)], of R i now] assms(1) by (intro exI [where x = "[]"]) auto
qed

lemma run_any: "bill_run took es d \<Longrightarrow> bill_run (\<lambda>_. False) es d"
  by (induction rule: bill_run.induct) (auto intro: bill_run.intros)

lemma renew_all_fresh:
  "bill_run (\<lambda>_. False) es d \<Longrightarrow> set (sent_refs (fst (renew_all U R decrypt now is d))) \<inter> refs_of d = {} \<and>
     distinct (sent_refs (fst (renew_all U R decrypt now is d)))"
proof (induction "is" arbitrary: es d)
  case (Cons i "is")
  note s = renewOne_sent [OF bill_run_inv [OF Cons.prems], of U R decrypt now i]
  have "\<exists>fs. bill_run (\<lambda>_. False) (es @ fs) (snd (renewOne U R decrypt now i d)) \<and>
      set (sent_refs (fst (renewOne U R decrypt now i d))) \<subseteq> rc_Reference ` set (claims_made fs)"
    by (rule renewOne_run [OF Cons.prems, where later = "{}"]) (simp_all add: final_refusals_def)
  then obtain fs where "bill_run (\<lambda>_. False) (es @ fs) (snd (renewOne U R decrypt now i d))" by blast
  note tail = Cons.IH [OF this]
  have "distinct (sent_refs (fst (renewOne U R decrypt now i d)))"
  proof (cases "\<not> rw_fails R (CallClaim i) \<and> (\<exists>c. fst (ClaimRenewalAttempt i now d) = Inr (Some c))")
    case True
    then obtain c where c: "\<not> rw_fails R (CallClaim i)" "fst (ClaimRenewalAttempt i now d) = Inr (Some c)" by blast
    show ?thesis by (cases rule: renewOne_some [OF c, of U decrypt]) simp_all
  next
    case False
    then show ?thesis using renewOne_none [OF _ bill_run_inv [OF Cons.prems], of R i now] by auto
  qed
  then show ?case using s tail by (auto simp: split_def)
qed simp

lemma renew_all_run:
  assumes "final_refusals U took R"
  shows "bill_run took es d \<Longrightarrow> (\<And>ref. took ref \<Longrightarrow> ref \<in> refs_of d \<union> set (sent_refs (fst (renew_all U R decrypt now is d)))) \<Longrightarrow>
    \<exists>fs. bill_run took (es @ fs) (snd (renew_all U R decrypt now is d)) \<and>
      set (sent_refs (fst (renew_all U R decrypt now is d))) \<subseteq> rc_Reference ` set (claims_made fs)"
proof (induction "is" arbitrary: es d)
  case Nil
  then show ?case by (intro exI [where x = "[]"]) simp
next
  case (Cons i "is")
  let ?one = "renewOne U R decrypt now i d"
  let ?all = "renew_all U R decrypt now is (snd ?one)"
  note s = renewOne_sent [OF bill_run_inv [OF Cons.prems(1)], of U R decrypt now i]
  have "\<exists>fs. bill_run (\<lambda>_. False) (es @ fs) (snd ?one) \<and> set (sent_refs (fst ?one)) \<subseteq> rc_Reference ` set (claims_made fs)"
    by (rule renewOne_run [OF run_any [OF Cons.prems(1)], where later = "{}"]) (simp_all add: final_refusals_def)
  then have later: "set (sent_refs (fst ?all)) \<inter> refs_of (snd ?one) = {}" using renew_all_fresh by blast
  have took: "ref \<in> refs_of d \<union> set (sent_refs (fst ?one)) \<union> set (sent_refs (fst ?all))" if "took ref" for ref
    using Cons.prems(2) [OF that] by (auto simp: split_def)
  obtain fs where fs: "bill_run took (es @ fs) (snd ?one)" "set (sent_refs (fst ?one)) \<subseteq> rc_Reference ` set (claims_made fs)"
    using renewOne_run [OF Cons.prems(1) assms took later] by blast
  have "ref \<in> refs_of (snd ?one) \<union> set (sent_refs (fst ?all))" if "took ref" for ref using took [OF that] s by auto
  from Cons.IH [OF fs(1) this] obtain gs where gs: "bill_run took ((es @ fs) @ gs) (snd ?all)" "set (sent_refs (fst ?all)) \<subseteq> rc_Reference ` set (claims_made gs)"
    by blast
  have "claims_made (fs @ gs) = claims_made fs @ claims_made gs" by (simp add: claims_made_def)
  then have "set (sent_refs (fst ?one) @ sent_refs (fst ?all)) \<subseteq> rc_Reference ` set (claims_made (fs @ gs))" using fs(2) gs(2) by auto
  moreover have "renew_all U R decrypt now (i # is) d = (fst ?one @ fst ?all, snd ?all)" by (simp add: split_def)
  ultimately show ?case using gs(1) by (intro exI [where x = "fs @ gs"]) simp
qed

text \<open>
  (C27) The hourly pass is made of those transactions. Whatever the mailer, the provider, the cipher and the database answer,
  what a pass leaves in the tables is the end of a run as above, and every charge it sends is one that the run
  handed out, under a reference no other charge of the pass has. So the guarantees for runs hold for
  passes of several processes mixed with payments and settings.
\<close>

theorem renewal_pass_is_run:
  assumes "bill_run took es d" and "final_refusals U took R"
    and "\<And>ref. took ref \<Longrightarrow> ref \<in> refs_of d \<union> set (sent_refs (fst (RunOnce U R now d)))"
  shows "\<exists>fs. bill_run took (es @ fs) (snd (RunOnce U R now d)) \<and> distinct (sent_refs (fst (RunOnce U R now d)))
    \<and> set (sent_refs (fst (RunOnce U R now d))) \<subseteq> rc_Reference ` set (claims_made fs)"
proof (cases "rw_mailer R")
  case None
  then show ?thesis using assms(1) by (intro exI [where x = "[]"]) (simp add: RunOnce_def)
next
  case (Some send)
  obtain e1 d1 where r1: "sendReminders R send now d = (e1, d1)" by (meson surj_pair)
  have "\<exists>fs. bill_run took (es @ fs) d1 \<and> sent_refs e1 = [] \<and> refs_of d1 = refs_of d"
  proof (cases "rw_fails R CallReminders")
    case True
    then show ?thesis using r1 assms(1) by (intro exI [where x = "[]"]) (auto simp: sendReminders_def)
  next
    case False
    let ?c = "ClaimPlanReminders now ReminderLead d"
    have "(e1, d1) = send_all R send (fst ?c) (snd ?c)" using r1 False by (simp add: sendReminders_def split_def)
    then have e: "e1 = fst (send_all R send (fst ?c) (snd ?c))" "d1 = snd (send_all R send (fst ?c) (snd ?c))" by (simp_all add: prod_eq_iff)
    have "refs_of (snd ?c) = refs_of d" by (simp add: ClaimPlanReminders_def refs_of_def)
    then show ?thesis
      using send_all_run [OF bill_run.mark [OF assms(1)], of now ReminderLead R send] send_all_sent send_all_refs unfolding e by metis
  qed
  then obtain fs where fs: "bill_run took (es @ fs) d1" and e1: "sent_refs e1 = []" "refs_of d1 = refs_of d" by blast
  show ?thesis
  proof (cases "rw_decrypt R")
    case None
    then show ?thesis using Some r1 fs e1 by (intro exI [where x = fs]) (simp add: RunOnce_def)
  next
    case d: (Some decrypt)
    obtain e2 d2 where r2: "reconcilePending U R now d1 = (e2, d2)" by (meson surj_pair)
    have e2: "bill_run took (es @ fs) d2 \<and> sent_refs e2 = [] \<and> refs_of d2 = refs_of d1"
      using reconcile_run [OF assms(2) fs, of now "PendingRenewalAttempts (now - RenewalReconcileAfter) d1"] r2 fs
      by (auto simp: reconcilePending_def split: if_splits)
    show ?thesis
    proof (cases "rw_fails R CallCandidates")
      case True
      then show ?thesis using Some d r1 r2 e1 e2 by (intro exI [where x = fs]) (simp add: RunOnce_def)
    next
      case False
      let ?all = "renew_all U R decrypt now (RenewalCandidates now d2) d2"
      have run: "fst (RunOnce U R now d) = e1 @ e2 @ fst ?all" "snd (RunOnce U R now d) = snd ?all"
        using Some d r1 r2 False by (simp_all add: RunOnce_def split_def)
      have "ref \<in> refs_of d2 \<union> set (sent_refs (fst ?all))" if "took ref" for ref using assms(3) [OF that] e1 e2 unfolding run by simp
      from renew_all_run [OF assms(2) conjunct1 [OF e2] this] obtain gs where gs: "bill_run took ((es @ fs) @ gs) (snd ?all)"
        "set (sent_refs (fst ?all)) \<subseteq> rc_Reference ` set (claims_made gs)" by blast
      have "claims_made (fs @ gs) = claims_made fs @ claims_made gs" by (simp add: claims_made_def)
      moreover have "distinct (sent_refs (fst ?all))" using renew_all_fresh [OF run_any [OF conjunct1 [OF e2]]] by blast
      ultimately show ?thesis using gs e1 e2 unfolding run by (intro exI [where x = "fs @ gs"]) auto
    qed
  qed
qed

section \<open>References\<close>

lemma append_first_unique: "p @ x # q = r @ x # s \<Longrightarrow> x \<notin> set p \<Longrightarrow> x \<notin> set r \<Longrightarrow> p = r \<and> q = s"
proof (induction p arbitrary: r)
  case (Cons a p)
  then show ?case by (cases r) auto
next
  case Nil
  then show ?case by (cases r) auto
qed

lemma append_last_unique:
  assumes "a @ x # b = c @ x # d" and "x \<notin> set b" and "x \<notin> set d"
  shows "a = c \<and> b = d"
proof -
  have "rev b @ x # rev a = rev d @ x # rev c" using arg_cong [OF assms(1), of rev] by simp
  then have "rev b = rev d \<and> rev a = rev c" by (rule append_first_unique) (use assms(2,3) in simp_all)
  then show ?thesis by simp
qed

lemma nat_dec_no_dash: "CHR ''-'' \<notin> set (nat_dec n)"
  using canonical_nat_dec [of n] by (auto simp: canonical_dec_def list_all_iff is_digit_def)

text \<open>
  The reference of a charge names it: for periods after 1970 two attempts have the same reference only when
  tenant, period end to the microsecond and attempt number agree, also when tenant identifiers contain dashes.
\<close>

theorem renewal_reference_unique:
  assumes "0 \<le> m" and "0 \<le> m'"
  shows "RenewalReference i m n = RenewalReference i' m' n' \<longleftrightarrow> i = i' \<and> m = m' \<and> n = n'"
proof
  assume "RenewalReference i m n = RenewalReference i' m' n'"
  then have "(i @ CHR ''-'' # nat_dec (nat m)) @ CHR ''-'' # nat_dec n = (i' @ CHR ''-'' # nat_dec (nat m')) @ CHR ''-'' # nat_dec n'"
    using assms by (simp add: RenewalReference_def int_dec_def)
  from append_last_unique [OF this nat_dec_no_dash nat_dec_no_dash]
  have 1: "i @ CHR ''-'' # nat_dec (nat m) = i' @ CHR ''-'' # nat_dec (nat m')" "nat_dec n = nat_dec n'" by blast+
  from append_last_unique [OF 1(1) nat_dec_no_dash nat_dec_no_dash] show "i = i' \<and> m = m' \<and> n = n'"
    using 1(2) assms by auto
qed simp

theorem renewal_reference_unique_witness:
  "RenewalReference ''a-1'' 2 3 \<noteq> RenewalReference ''a'' 1 3"
  using renewal_reference_unique [of 2 1 "''a-1''" 3 "''a''" 3] by simp

section \<open>Examples\<close>

text \<open>A tenant whose Plus plan ends at hour 100 and who has opted in to automatic renewal.\<close>

definition bill_demo_tenant :: tenant_row where
  "bill_demo_tenant = (fresh_tenant ''t'' ''Acme'')\<lparr>tn_Plan := ''plus'', tn_PeriodEnd := Some (100 * hour), tn_AutoRenew := True,
     tn_Auth := Some (''c'', ''n'', ''o@x'')\<rparr>"

definition bill_demo0 :: bill_db where
  "bill_demo0 = \<lparr>bd_tenants = [fresh_tenant ''t'' ''Acme''], bd_attempts = [], bd_payments = [],
     bd_members = [(''t'', ''h'', ''owner'')], bd_humans = [''h'' \<mapsto> ''o@x'']\<rparr>"

definition bill_demo1 :: bill_db where
  "bill_demo1 = snd (SaveRenewalAuthorization ''t'' ''c'' ''n'' ''o@x'' (snd (SetAutoRenew ''t'' True
     (snd (ApplyPlanPayment 0 \<lparr>py_Reference = ''r1'', py_Tenant = ''t'', py_Plan = ''plus'', py_Amount = 600, py_Currency = ''USD'', py_Customer = []\<rparr>
        (100 * hour) bill_demo0)))))"

lemma bill_demo1_run: "bill_run took [] bill_demo1"
proof -
  let ?e = "\<lparr>bd_tenants = [], bd_attempts = [], bd_payments = [], bd_members = [(''t'', ''h'', ''owner'')], bd_humans = [''h'' \<mapsto> ''o@x'']\<rparr>"
  have "bill_run took [] ?e" by (rule bill_run.start) simp_all
  from bill_run.join [OF this, of "''t''" "''Acme''"] have "bill_run took [] bill_demo0" by (simp add: bill_demo0_def find_tenant_def)
  then show ?thesis unfolding bill_demo1_def by (intro bill_run.card bill_run.auto_renew bill_run.pay)
qed

definition bill_demo_renewer :: "bool \<Rightarrow> txReply \<Rightarrow> renewer" where
  "bill_demo_renewer works reply =
     \<lparr>rw_mailer = Some (\<lambda>_ _. works), rw_decrypt = Some (\<lambda>_ _ _. Some ''card''), rw_charge = (\<lambda>_. reply), rw_verify = (\<lambda>_. reply),
      rw_fails = (\<lambda>x. x = CallRelease ''t'' \<and> \<not> works), rw_clock = (\<lambda>_. 60 * hour), rw_text = (\<lambda>_. True)\<rparr>"

definition bill_demo2 :: bill_db where
  "bill_demo2 = snd (ClaimPlanReminders (30 * hour) ReminderLead bill_demo1)"

definition bill_demo_reminder :: planReminder where
  "bill_demo_reminder = \<lparr>rm_Tenant = ''t'', rm_Plan = ''plus'', rm_PeriodEnd = 100 * hour, rm_AutoRenew = True\<rparr>"

definition bill_demo_claim :: renewalClaim where
  "bill_demo_claim = \<lparr>rc_Tenant = ''t'', rc_Plan = ''plus'', rc_Amount = 600, rc_PeriodEnd = 100 * hour, rc_Attempt = Suc 0,
     rc_Reference = RenewalReference ''t'' (UnixMicro (100 * hour)) (Suc 0), rc_Auth = (''c'', ''n'', ''o@x'')\<rparr>"

lemma bill_demo_marked: "fst (ClaimPlanReminders (30 * hour) ReminderLead bill_demo1) = [bill_demo_reminder]"
  by code_simp

lemma bill_demo2_rows: "bd_tenants bill_demo2 = [bill_demo_tenant\<lparr>tn_ReminderEnd := Some (100 * hour), tn_ReminderAt := Some (30 * hour), tn_ReminderAuto := True\<rparr>]"
  "bd_attempts bill_demo2 = []"
  by code_simp+

lemma bill_demo_claim_eq: "ClaimRenewalAttempt ''t'' (60 * hour) bill_demo2 =
   (Inr (Some bill_demo_claim), bill_demo2\<lparr>bd_attempts := [claim_row (60 * hour) bill_demo_tenant (100 * hour) (Suc 0)]\<rparr>)"
  by (simp add: ClaimRenewalAttempt_def find_tenant_def bill_demo2_rows bill_demo_tenant_def fresh_tenant_def claim_allowed_def IsPaid_def Plans_def
      plan_plus_def time_Sub_def saturate64_def RenewalChargeWindow_def RenewalMinNotice_def period_attempts_def attempts_block_def RenewalMaxAttempts_def
      attempt_conflict_def claim_row_def bill_demo_claim_def PlanFor_def Let_def)

lemma bill_demo_run: "bill_run took [Marked (30 * hour) bill_demo_reminder, Claimed (60 * hour) bill_demo_claim]
    (snd (ClaimRenewalAttempt ''t'' (60 * hour) bill_demo2))"
proof -
  have "bill_run took ([] @ map (Marked (30 * hour)) (fst (ClaimPlanReminders (30 * hour) ReminderLead bill_demo1))) bill_demo2"
    unfolding bill_demo2_def by (rule bill_run.mark [OF bill_demo1_run])
  then have "bill_run took [Marked (30 * hour) bill_demo_reminder] bill_demo2" unfolding bill_demo_marked by simp
  moreover have "fst (ClaimRenewalAttempt ''t'' (60 * hour) bill_demo2) = Inr (Some bill_demo_claim)" by (simp only: bill_demo_claim_eq fst_conv)
  ultimately show ?thesis using claim_run [of took "[Marked (30 * hour) bill_demo_reminder]" bill_demo2 "''t''" "60 * hour" bill_demo_claim] by simp
qed

lemma bill_demo_claims: "claims_made [Marked (30 * hour) bill_demo_reminder, Claimed (60 * hour) bill_demo_claim] = [bill_demo_claim]"
  by (simp add: claims_made_def timed_claims_def List.map_filter_simps)

theorem renewal_charged_once_witness:
  "length (filter (\<lambda>c. of_period ''t'' (100 * hour) c \<and> (\<lambda>_. True) (rc_Reference c)) [bill_demo_claim]) \<le> 1"
  using renewal_charged_once [OF bill_demo_run [of "\<lambda>_. True"], of "''t''" "100 * hour"] unfolding bill_demo_claims by blast

theorem renewal_after_notice_witness:
  "\<exists>at m. Marked at m \<in> set [Marked (30 * hour) bill_demo_reminder] \<and> rm_Tenant m = ''t'' \<and> rm_AutoRenew m \<and> pg_trunc at + RenewalMinNotice \<le> 60 * hour"
proof -
  have "bill_run (\<lambda>_. True) ([Marked (30 * hour) bill_demo_reminder] @ Claimed (60 * hour) bill_demo_claim # []) (snd (ClaimRenewalAttempt ''t'' (60 * hour) bill_demo2))"
    using bill_demo_run by simp
  from renewal_after_notice [OF this] show ?thesis by (auto simp: bill_demo_claim_def)
qed

definition bill_demo_payment :: payment where
  "bill_demo_payment = \<lparr>py_Reference = ''r2'', py_Tenant = ''t'', py_Plan = ''plus'', py_Amount = 600, py_Currency = ''USD'', py_Customer = []\<rparr>"

theorem payment_counts_once_witness:
  "fst (ApplyPlanPayment 7 bill_demo_payment planPeriod (snd (ApplyPlanPayment (60 * hour) bill_demo_payment planPeriod bill_demo1))) \<noteq> None"
proof -
  have "fst (ApplyPlanPayment (60 * hour) bill_demo_payment planPeriod bill_demo1) = None" by code_simp
  then have "ApplyPlanPayment (60 * hour) bill_demo_payment planPeriod bill_demo1 = (None, snd (ApplyPlanPayment (60 * hour) bill_demo_payment planPeriod bill_demo1))"
    by (simp add: prod_eq_iff)
  moreover have "find_tenant bill_demo1 (py_Tenant bill_demo_payment) = Some bill_demo_tenant" by code_simp
  ultimately show ?thesis using payment_counts_once [of "60 * hour" bill_demo_payment planPeriod bill_demo1] by blast
qed

theorem lapse_keeps_retention_witness:
  "\<exists>t'. find_tenant (snd (DowngradeLapsedPlans (101 * hour) bill_demo1)) ''t'' = Some t' \<and> retention_window True t' = 30"
proof -
  have "find_tenant bill_demo1 ''t'' = Some bill_demo_tenant" "tn_Plan bill_demo_tenant = ''plus''" "retention_window True bill_demo_tenant = 30" by code_simp+
  then show ?thesis using lapse_keeps_retention [of bill_demo1 "''t''" bill_demo_tenant "101 * hour"] by auto
qed

theorem lapsed_retention_sticks_witness:
  "\<exists>t'. find_tenant (snd (ApplyPlanPayment (102 * hour) (bill_demo_payment\<lparr>py_Plan := ''pro''\<rparr>) planPeriod (snd (DowngradeLapsedPlans (101 * hour) bill_demo1)))) ''t'' = Some t'
     \<and> tn_Plan t' = ''pro'' \<and> retention_window True t' = 30"
proof -
  let ?a = "ApplyPlanPayment (102 * hour) (bill_demo_payment\<lparr>py_Plan := ''pro''\<rparr>) planPeriod (snd (DowngradeLapsedPlans (101 * hour) bill_demo1))"
  have "fst ?a = None" by code_simp
  then have "?a = (None, snd ?a)" by (simp add: prod_eq_iff)
  moreover have "find_tenant bill_demo1 ''t'' = Some bill_demo_tenant" "tn_Plan bill_demo_tenant = ''plus''" "tn_Retention bill_demo_tenant = None"
    "lapsed (101 * hour) bill_demo_tenant" by code_simp+
  ultimately show ?thesis using lapsed_retention_sticks [of bill_demo1 "''t''" bill_demo_tenant "101 * hour" "bill_demo_payment\<lparr>py_Plan := ''pro''\<rparr>"]
    by (simp add: bill_demo_payment_def)
qed

section \<open>A charge nobody was told about\<close>

definition undelivered :: "bill_effect \<Rightarrow> bool" where
  "undelivered e = (case e of EMail _ _ taken \<Rightarrow> \<not> taken | _ \<Rightarrow> True)"

lemma settle_undelivered:
  assumes "rw_mailer R = Some (\<lambda>_ _. False)"
  shows "list_all undelivered (fst (bill_settle U R c res now d))"
proof -
  have "list_all undelivered (bill_email R i m d)" for i m d using assms by (simp add: bill_email_def list_all_iff undelivered_def)
  then show ?thesis by (auto simp: bill_settle_def Let_def split: chargeOutcome.split prod.split sum.split)
qed

lemma bill_demo1_rows: "bd_tenants bill_demo1 = [bill_demo_tenant]" "bd_attempts bill_demo1 = []"
  by code_simp+

lemma bill_demo_people: "bd_members bill_demo1 = [(''t'', ''h'', ''owner'')]" "bd_humans bill_demo1 ''h'' = Some ''o@x''"
  "bd_members bill_demo2 = [(''t'', ''h'', ''owner'')]" "bd_humans bill_demo2 ''h'' = Some ''o@x''"
proof -
  have "bd_members bill_demo1 = [(''t'', ''h'', ''owner'')] \<and> bd_humans bill_demo1 ''h'' = Some ''o@x'' \<and>
    bd_members bill_demo2 = [(''t'', ''h'', ''owner'')] \<and> bd_humans bill_demo2 ''h'' = Some ''o@x''" by code_simp
  then show "bd_members bill_demo1 = [(''t'', ''h'', ''owner'')]" "bd_humans bill_demo1 ''h'' = Some ''o@x''"
    "bd_members bill_demo2 = [(''t'', ''h'', ''owner'')]" "bd_humans bill_demo2 ''h'' = Some ''o@x''" by blast+
qed

lemma bill_demo_mark: "ClaimPlanReminders (30 * hour) ReminderLead bill_demo1 = ([bill_demo_reminder], bill_demo2)"
  by (simp only: prod_eq_iff bill_demo_marked bill_demo2_def fst_conv snd_conv)

lemma bill_demo_pass1: "RunOnce U (bill_demo_renewer False reply) (30 * hour) bill_demo1 =
    ([EMail ''o@x'' (MailReminder bill_demo_reminder) False], bill_demo2)"
proof -
  have "RenewalCandidates (30 * hour) bill_demo2 = []" "PendingRenewalAttempts (30 * hour - RenewalReconcileAfter) bill_demo2 = []"
    by (simp_all add: RenewalCandidates_def PendingRenewalAttempts_def bill_demo2_rows in_window_def bill_demo_tenant_def RenewalChargeWindow_def pg_trunc_def)
  moreover have "send_reminder (bill_demo_renewer False reply) (\<lambda>_ _. False) bill_demo_reminder bill_demo2 =
      ([EMail ''o@x'' (MailReminder bill_demo_reminder) False], bill_demo2)"
    by (simp add: send_reminder_def bill_demo_reminder_def bill_demo_renewer_def TenantOwnerEmails_def List.map_filter_simps bill_demo_people)
  moreover have "rw_mailer (bill_demo_renewer False reply) = Some (\<lambda>_ _. False)" "rw_decrypt (bill_demo_renewer False reply) = Some (\<lambda>_ _ _. Some ''card'')"
    "\<not> rw_fails (bill_demo_renewer False reply) CallReminders" "\<not> rw_fails (bill_demo_renewer False reply) CallPending"
    "\<not> rw_fails (bill_demo_renewer False reply) CallCandidates"
    by (simp_all add: bill_demo_renewer_def)
  ultimately show ?thesis
    by (simp only: RunOnce_def sendReminders_def reconcilePending_def bill_demo_mark send_all.simps reconcile_all.simps renew_all.simps
         option.case prod.case if_False simp_thms append_Nil2)
qed

lemma bill_demo_nothing_due: "ClaimPlanReminders (60 * hour) ReminderLead bill_demo2 = ([], bill_demo2)"
proof -
  have "filter (reminder_due (60 * hour) ReminderLead) (bd_tenants bill_demo2) = []"
    by (simp add: bill_demo2_rows reminder_due_def bill_demo_tenant_def)
  then have "update_tenants (reminder_due (60 * hour) ReminderLead) (mark_row (60 * hour)) bill_demo2 = bill_demo2"
    by (simp add: update_tenants_def filter_empty_conv map_idI)
  then show ?thesis using \<open>filter _ _ = []\<close> by (simp add: ClaimPlanReminders_def)
qed

lemma bill_demo_pass2:
  "\<exists>res. RunOnce U (bill_demo_renewer works reply) (60 * hour) bill_demo2 =
     (ECharge \<lparr>cq_Email = ''o@x'', cq_Amount = 600, cq_Currency = ''USD'', cq_Code = ''card'', cq_Reference = rc_Reference bill_demo_claim,
        cq_Tenant = ''t'', cq_Plan = ''plus''\<rparr> # fst (bill_settle U (bill_demo_renewer works reply) bill_demo_claim res (60 * hour)
          (bill_demo2\<lparr>bd_attempts := [claim_row (60 * hour) bill_demo_tenant (100 * hour) (Suc 0)]\<rparr>)),
      snd (bill_settle U (bill_demo_renewer works reply) bill_demo_claim res (60 * hour)
          (bill_demo2\<lparr>bd_attempts := [claim_row (60 * hour) bill_demo_tenant (100 * hour) (Suc 0)]\<rparr>)))"
proof -
  let ?R = "bill_demo_renewer works reply"
  let ?d = "bill_demo2\<lparr>bd_attempts := [claim_row (60 * hour) bill_demo_tenant (100 * hour) (Suc 0)]\<rparr>"
  have c: "RenewalCandidates (60 * hour) bill_demo2 = [''t'']" "PendingRenewalAttempts (60 * hour - RenewalReconcileAfter) bill_demo2 = []"
    by (simp_all add: RenewalCandidates_def PendingRenewalAttempts_def bill_demo2_rows in_window_def bill_demo_tenant_def fresh_tenant_def RenewalChargeWindow_def pg_trunc_def)
  have R: "rw_mailer ?R = Some (\<lambda>_ _. works)" "rw_decrypt ?R = Some (\<lambda>_ _ _. Some ''card'')" "rw_charge ?R = (\<lambda>_. reply)"
    "\<not> rw_fails ?R CallReminders" "\<not> rw_fails ?R CallPending" "\<not> rw_fails ?R CallCandidates" "\<not> rw_fails ?R (CallClaim i)" for i
    by (simp_all add: bill_demo_renewer_def)
  have f: "rc_Plan bill_demo_claim = ''plus''" "rc_Tenant bill_demo_claim = ''t''" "rc_Auth bill_demo_claim = (''c'', ''n'', ''o@x'')"
    by (simp_all add: bill_demo_claim_def)
  have p: "pl_Price (PlanFor ''plus'') = 600" by code_simp
  show ?thesis
    by (intro exI [where x = "doTx U False reply"])
       (simp only: RunOnce_def sendReminders_def reconcilePending_def R c bill_demo_nothing_due send_all.simps reconcile_all.simps renew_all.simps
         renewOne_def bill_demo_claim_eq f p ChargeAuthorization_def ps_currency_def option.case prod.case sum.case if_False if_True simp_thms Let_def
         append_Nil append_Nil2 list.map split_def fst_conv snd_conv append_Cons, simp)
qed

text \<open>
  The mark of a reminder is set before anything is sent. If no mail can be sent and taking the mark back fails as well,
  the mark stays, and the next pass in the charge window charges the card although no message ever reached
  the owner.
\<close>

theorem charge_without_reminder:
  "\<exists>e1 d1 e2 d2. RunOnce U (bill_demo_renewer False reply) (30 * hour) bill_demo1 = (e1, d1) \<and>
     RunOnce U (bill_demo_renewer False reply) (60 * hour) d1 = (e2, d2) \<and> list_all undelivered (e1 @ e2) \<and>
     sent_refs e2 = [rc_Reference bill_demo_claim]"
proof -
  obtain res where r: "RunOnce U (bill_demo_renewer False reply) (60 * hour) bill_demo2 =
     (ECharge \<lparr>cq_Email = ''o@x'', cq_Amount = 600, cq_Currency = ''USD'', cq_Code = ''card'', cq_Reference = rc_Reference bill_demo_claim,
        cq_Tenant = ''t'', cq_Plan = ''plus''\<rparr> # fst (bill_settle U (bill_demo_renewer False reply) bill_demo_claim res (60 * hour)
          (bill_demo2\<lparr>bd_attempts := [claim_row (60 * hour) bill_demo_tenant (100 * hour) (Suc 0)]\<rparr>)),
      snd (bill_settle U (bill_demo_renewer False reply) bill_demo_claim res (60 * hour)
          (bill_demo2\<lparr>bd_attempts := [claim_row (60 * hour) bill_demo_tenant (100 * hour) (Suc 0)]\<rparr>)))"
    using bill_demo_pass2 by blast
  have "rw_mailer (bill_demo_renewer False reply) = Some (\<lambda>_ _. False)" by (simp add: bill_demo_renewer_def)
  note quiet = settle_undelivered [OF this]
  show ?thesis
    by (rule exI, rule exI, rule exI, rule exI, intro conjI, rule bill_demo_pass1, rule r) (simp_all add: undelivered_def quiet)
qed

definition bill_demo_reply :: txReply where
  "bill_demo_reply = TxResponse 200 (Some \<lparr>tx_OK = True, tx_Message = [], tx_Status = ''success'', tx_Amount = 600, tx_Currency = ''USD'', tx_Gateway = []\<rparr>)"

theorem renewal_pass_is_run_witness:
  "\<exists>fs. bill_run (\<lambda>r. r = rc_Reference bill_demo_claim) ([Marked (30 * hour) bill_demo_reminder] @ fs)
     (snd (RunOnce plain_unicode (bill_demo_renewer True bill_demo_reply) (60 * hour) bill_demo2))"
proof -
  let ?took = "\<lambda>r. r = rc_Reference bill_demo_claim"
  have "bill_run ?took ([] @ map (Marked (30 * hour)) (fst (ClaimPlanReminders (30 * hour) ReminderLead bill_demo1))) bill_demo2"
    unfolding bill_demo2_def by (rule bill_run.mark [OF bill_demo1_run])
  then have run: "bill_run ?took [Marked (30 * hour) bill_demo_reminder] bill_demo2" unfolding bill_demo_marked by simp
  have "ch_Outcome (doTx plain_unicode True bill_demo_reply) = ChargeSucceeded" "ch_Outcome (doTx plain_unicode False bill_demo_reply) = ChargeSucceeded"
    by code_simp+
  then have ref: "final_refusals plain_unicode ?took (bill_demo_renewer True bill_demo_reply)"
    by (simp add: final_refusals_def bill_demo_renewer_def)
  have "rc_Reference bill_demo_claim \<in> set (sent_refs (fst (RunOnce plain_unicode (bill_demo_renewer True bill_demo_reply) (60 * hour) bill_demo2)))"
    using bill_demo_pass2 [of plain_unicode True bill_demo_reply] by (elim exE) (simp only: fst_conv sent_refs_simps, simp)
  then show ?thesis using renewal_pass_is_run [OF run ref, of "60 * hour"] by blast
qed

end
