(* ===== verification/API_Core.thy ===== *)
theory API_Core
  imports Prelude
begin

text \<open>
  What every handler of \<^verbatim>\<open>internal/api\<close> shares: the error taxonomy and its wire form (\<^verbatim>\<open>errors.go\<close>) and the media type
  check (\<^verbatim>\<open>content_type.go\<close>). A response is its status, its \<^verbatim>\<open>Retry-After\<close> header and its body; the identifier of the request
  and the media-type parser of the standard library are parameters.
\<close>

datatype ErrorType =
    ErrInvalidRequest | ErrValidation | ErrAuthentication | ErrForbidden | ErrNotFoundType | ErrConflictType | ErrPayloadTooLarge
  | ErrUnsupportedMediaType | ErrInternal | ErrTemporarilyUnavailable | ErrRateLimited

fun errorStatus :: "ErrorType \<Rightarrow> int" where
  "errorStatus ErrInvalidRequest = 400"
| "errorStatus ErrValidation = 422"
| "errorStatus ErrAuthentication = 401"
| "errorStatus ErrForbidden = 403"
| "errorStatus ErrNotFoundType = 404"
| "errorStatus ErrConflictType = 409"
| "errorStatus ErrPayloadTooLarge = 413"
| "errorStatus ErrUnsupportedMediaType = 415"
| "errorStatus ErrInternal = 500"
| "errorStatus ErrTemporarilyUnavailable = 503"
| "errorStatus ErrRateLimited = 429"

record apiError =
  ae_Type :: ErrorType
  ae_Code :: string
  ae_Message :: string
  ae_RetryAfter :: int

definition newError :: "ErrorType \<Rightarrow> string \<Rightarrow> string \<Rightarrow> apiError" where
  "newError t code message = \<lparr>ae_Type = t, ae_Code = code, ae_Message = message, ae_RetryAfter = 0\<rparr>"

datatype 'a body = ErrorBody ErrorType string string | Body 'a

record 'a response =
  rp_Status :: int
  rp_RetryAfter :: "int option"
  rp_Body :: "'a body"

definition defaultUnavailableRetryAfter :: int where "defaultUnavailableRetryAfter = 5"

definition writeError :: "apiError \<Rightarrow> 'a response" where
  "writeError err =
     (let status = errorStatus (ae_Type err);
          retryAfter = (if ae_RetryAfter err \<le> 0 \<and> status = 503 then defaultUnavailableRetryAfter else ae_RetryAfter err)
      in \<lparr>rp_Status = status, rp_RetryAfter = (if retryAfter > 0 then Some retryAfter else None),
          rp_Body = ErrorBody (ae_Type err) (ae_Code err) (ae_Message err)\<rparr>)"

definition writeJSON :: "int \<Rightarrow> 'a \<Rightarrow> 'a response" where
  "writeJSON status v = \<lparr>rp_Status = status, rp_RetryAfter = None, rp_Body = Body v\<rparr>"

definition acceptsJSONContentType :: "(string \<Rightarrow> string option) \<Rightarrow> string \<Rightarrow> bool" where
  "acceptsJSONContentType parse value \<longleftrightarrow> value = [] \<or> parse value = Some ''application/json''"

abbreviation api_fail :: "ErrorType \<Rightarrow> string \<Rightarrow> string \<Rightarrow> 'a response" where
  "api_fail t code message \<equiv> writeError (newError t code message)"

lemma writeError_status [simp]: "rp_Status (writeError e) = errorStatus (ae_Type e)"
  by (simp add: writeError_def Let_def)

lemma newError_type [simp]: "ae_Type (newError t c m) = t" "ae_Code (newError t c m) = c"
  by (simp_all add: newError_def)

lemma writeJSON_status [simp]: "rp_Status (writeJSON s v) = s" "rp_Body (writeJSON s v) = Body v"
  by (simp_all add: writeJSON_def)

lemma errorStatus_400: "400 \<le> errorStatus t"
  by (cases t) simp_all

lemma unavailable_has_retry_after: "rp_Status (writeError e :: 'a response) = 503 \<Longrightarrow> rp_RetryAfter (writeError e :: 'a response) \<noteq> None"
  by (auto simp: writeError_def Let_def defaultUnavailableRetryAfter_def)

end
