(* ===== verification/Billing_API.thy ===== *)
theory Billing_API
  imports Billing Webhook API_Core
begin

text \<open>
  The billing routes of \<^verbatim>\<open>internal/api/billing_handler.go\<close> and the webhook signature of \<^verbatim>\<open>internal/billing/paystack.go\<close>. The MAC, the JSON decoder, the
  media-type parser and the cipher of saved cards are parameters; the tables are those of \<^verbatim>\<open>Billing\<close>. The theorems: an event
  changes a plan only when it is signed, is a successful charge of at least the plan's price and has not been
  applied, and the provider is asked to repeat it only when the database failed; the volume refusal asks
  to wait until midnight.
\<close>

section \<open>Signature and event\<close>

definition ps_VerifySignature :: "(string \<Rightarrow> string) \<Rightarrow> string \<Rightarrow> string \<Rightarrow> bool" where
  "ps_VerifySignature mac rawBody header =
     (case hex_decode (TrimSpace header) of
        None \<Rightarrow> False
      | Some got \<Rightarrow> length got = 64 \<and> got = mac rawBody)"

definition ps_Sign :: "(string \<Rightarrow> string) \<Rightarrow> string \<Rightarrow> string" where
  "ps_Sign mac body = hex_bytes (mac body)"

record ps_event =
  ev_Event :: string
  ev_Reference :: string
  ev_Status :: string
  ev_Amount :: int
  ev_Currency :: string
  ev_Tenant :: string
  ev_Plan :: string
  ev_Customer :: string
  ev_Email :: string
  ev_AuthCode :: string
  ev_Reusable :: bool

definition ParseEvent :: "(string \<Rightarrow> ps_event option) \<Rightarrow> string \<Rightarrow> ps_event option" where
  "ParseEvent decode raw = (case decode raw of Some e \<Rightarrow> if ev_Event e = [] then None else Some e | None \<Rightarrow> None)"

text \<open>Metadata that is not an object decodes as empty.\<close>

definition metadata_Unmarshal :: "(string \<Rightarrow> (string \<times> string) option) \<Rightarrow> string \<Rightarrow> string \<times> string" where
  "metadata_Unmarshal decode b = (case decode b of Some m \<Rightarrow> m | None \<Rightarrow> ([], []))"

section \<open>Handlers\<close>

definition maxWebhookBody :: nat where "maxWebhookBody = 2 ^ 20"

definition saveAuthorization :: "(string \<Rightarrow> string \<Rightarrow> (string \<times> string) option) option \<Rightarrow> bool \<Rightarrow> ps_event \<Rightarrow> bill_db \<Rightarrow> bill_db" where
  "saveAuthorization box fails e d =
     (case box of
        None \<Rightarrow> d
      | Some encrypt \<Rightarrow>
          if \<not> ev_Reusable e \<or> ev_AuthCode e = [] \<or> ev_Email e = [] then d
          else case encrypt (ev_AuthCode e) (ev_Tenant e) of
              None \<Rightarrow> d
            | Some (ct, nonce) \<Rightarrow> if fails then d else snd (SaveRenewalAuthorization (ev_Tenant e) ct nonce (ev_Email e) d))"

record webhook_env =
  we_unicode :: unicode
  we_mac :: "string \<Rightarrow> string"
  we_decode :: "string \<Rightarrow> ps_event option"
  we_box :: "(string \<Rightarrow> string \<Rightarrow> (string \<times> string) option) option"
  we_applyFails :: bool
  we_saveFails :: bool
  we_clock :: gotime

definition webhook_usable :: "unicode \<Rightarrow> ps_event \<Rightarrow> bool" where
  "webhook_usable U e \<longleftrightarrow> ev_Reference e \<noteq> [] \<and> ev_Tenant e \<noteq> [] \<and> IsPaid (ev_Plan e) \<and> ev_Status e = ''success''
     \<and> EqualFold U (ev_Currency e) ps_currency \<and> \<not> ev_Amount e < pl_Price (PlanFor (ev_Plan e))"

definition webhook_payment :: "unicode \<Rightarrow> ps_event \<Rightarrow> payment" where
  "webhook_payment U e = \<lparr>py_Reference = ev_Reference e, py_Tenant = ev_Tenant e, py_Plan = pl_ID (PlanFor (ev_Plan e)), py_Amount = ev_Amount e,
     py_Currency = ToUpper U (ev_Currency e), py_Customer = ev_Customer e\<rparr>"

text \<open>The acknowledgement carries a word for what was done.\<close>

definition handleWebhook :: "webhook_env \<Rightarrow> string \<Rightarrow> string \<Rightarrow> bill_db \<Rightarrow> string response \<times> bill_db" where
  "handleWebhook E raw header d =
     (if length raw > maxWebhookBody then (api_fail ErrPayloadTooLarge ''body_too_large'' ''webhook body is too large'', d)
      else if \<not> ps_VerifySignature (we_mac E) raw header then (api_fail ErrAuthentication ''invalid_signature'' ''webhook signature is invalid'', d)
      else case ParseEvent (we_decode E) raw of
          None \<Rightarrow> (api_fail ErrInvalidRequest ''malformed_webhook'' ''webhook body is malformed'', d)
        | Some e \<Rightarrow>
            if ev_Event e \<noteq> ''charge.success'' then (writeJSON 200 ''ignored'', d)
            else if \<not> webhook_usable (we_unicode E) e then (writeJSON 200 ''ignored'', d)
            else if we_applyFails E then (api_fail ErrInternal ''internal_error'' ''failed to apply payment'', d)
            else case ApplyPlanPayment (we_clock E) (webhook_payment (we_unicode E) e) planPeriod d of
                (None, d1) \<Rightarrow> (writeJSON 200 ''applied'', saveAuthorization (we_box E) (we_saveFails E) e d1)
              | (Some PErrAlreadyApplied, _) \<Rightarrow> (writeJSON 200 ''already_applied'', d)
              | (Some PErrNotFound, _) \<Rightarrow> (writeJSON 200 ''ignored'', d)
              | (Some _, _) \<Rightarrow> (api_fail ErrInternal ''internal_error'' ''failed to apply payment'', d))"

text \<open>
  The routes of a signed-in person: \<open>human\<close> is the identifier the middleware put into the context, \<open>req\<close> the decoded body
  (\<open>None\<close>: it is not JSON), \<open>fails\<close> says which call of the database fails.
\<close>

definition IsTenantOwner :: "string \<Rightarrow> string \<Rightarrow> bill_db \<Rightarrow> bool" where
  "IsTenantOwner i human d \<longleftrightarrow> (i, human, ''owner'') \<in> set (bd_members d)"

datatype checkout_call = COwner | CHuman

record checkoutRequest =
  co_Tenant :: string
  co_Plan :: string

definition handleCheckout ::
  "string option \<Rightarrow> bool \<Rightarrow> checkoutRequest option \<Rightarrow> (checkout_call \<Rightarrow> bool) \<Rightarrow> (string \<Rightarrow> plan \<Rightarrow> string \<Rightarrow> (string \<times> string) option) \<Rightarrow> bill_db \<Rightarrow> (string \<times> string) response" where
  "handleCheckout human json req fails initialize d =
     (case human of
        None \<Rightarrow> api_fail ErrAuthentication ''invalid_access_token'' ''missing or invalid access token''
      | Some h \<Rightarrow>
          if \<not> json then api_fail ErrUnsupportedMediaType ''unsupported_media_type'' ''Content-Type must be application/json''
          else case req of
              None \<Rightarrow> api_fail ErrInvalidRequest ''invalid_json'' ''request body is not valid JSON''
            | Some r \<Rightarrow>
                if co_Tenant r = [] then api_fail ErrValidation ''invalid_tenant'' ''tenant_id is required''
                else if \<not> IsPaid (co_Plan r) then api_fail ErrValidation ''invalid_plan'' ''plan must be \"plus\" or \"pro\"''
                else if fails COwner then api_fail ErrInternal ''internal_error'' ''failed to check organization ownership''
                else if \<not> IsTenantOwner (co_Tenant r) h d then api_fail ErrForbidden ''not_org_owner'' ''only an organization owner can change the plan''
                else case (if fails CHuman then None else bd_humans d h) of
                    None \<Rightarrow> api_fail ErrInternal ''internal_error'' ''failed to load account''
                  | Some email \<Rightarrow>
                      (case initialize email (PlanFor (co_Plan r)) (co_Tenant r) of
                         None \<Rightarrow> api_fail ErrTemporarilyUnavailable ''payment_provider_unavailable'' ''the payment provider could not start checkout; retry later''
                       | Some result \<Rightarrow> writeJSON 200 result))"

record subscriptionResponse =
  sr_Tenant :: string
  sr_Plan :: string
  sr_Status :: string
  sr_PeriodEnd :: "gotime option"
  sr_AutoRenew :: bool
  sr_CardOnFile :: bool

definition handleSubscription :: "string option \<Rightarrow> string \<Rightarrow> bool \<Rightarrow> bool \<Rightarrow> bill_db \<Rightarrow> subscriptionResponse response" where
  "handleSubscription human tenantID memberFails loadFails d =
     (case human of
        None \<Rightarrow> api_fail ErrAuthentication ''invalid_access_token'' ''missing or invalid access token''
      | Some h \<Rightarrow>
          if tenantID = [] then api_fail ErrValidation ''invalid_tenant'' ''tenant_id query parameter is required''
          else if memberFails then api_fail ErrInternal ''internal_error'' ''failed to check organization membership''
          else if \<not> IsTenantMember tenantID h d then api_fail ErrNotFoundType ''organization_not_found'' ''organization not found''
          else case (if loadFails then None else find_tenant d tenantID) of
              None \<Rightarrow> api_fail ErrInternal ''internal_error'' ''failed to load plan''
            | Some t \<Rightarrow> writeJSON 200 \<lparr>sr_Tenant = tenantID, sr_Plan = tn_Plan t, sr_Status = tn_Status t, sr_PeriodEnd = tn_PeriodEnd t,
                                       sr_AutoRenew = tn_AutoRenew t, sr_CardOnFile = tn_Auth t \<noteq> None\<rparr>)"

record autoRenewRequest =
  an_Tenant :: string
  an_AutoRenew :: "bool option"

definition handleAutoRenew ::
  "string option \<Rightarrow> bool \<Rightarrow> autoRenewRequest option \<Rightarrow> bool \<Rightarrow> bool \<Rightarrow> bool \<Rightarrow> bill_db \<Rightarrow> renewalSettings response \<times> bill_db" where
  "handleAutoRenew human json req box ownerFails setFails d =
     (case human of
        None \<Rightarrow> (api_fail ErrAuthentication ''invalid_access_token'' ''missing or invalid access token'', d)
      | Some h \<Rightarrow>
          if \<not> json then (api_fail ErrUnsupportedMediaType ''unsupported_media_type'' ''Content-Type must be application/json'', d)
          else case req of
              None \<Rightarrow> (api_fail ErrInvalidRequest ''invalid_json'' ''request body is not valid JSON'', d)
            | Some r \<Rightarrow>
                if an_Tenant r = [] then (api_fail ErrValidation ''invalid_tenant'' ''tenant_id is required'', d)
                else case an_AutoRenew r of
                    None \<Rightarrow> (api_fail ErrValidation ''invalid_auto_renew'' ''auto_renew (boolean) is required'', d)
                  | Some on \<Rightarrow>
                      if ownerFails then (api_fail ErrInternal ''internal_error'' ''failed to check organization ownership'', d)
                      else if \<not> IsTenantOwner (an_Tenant r) h d
                        then (api_fail ErrForbidden ''not_org_owner'' ''only an organization owner can change automatic renewal'', d)
                      else if on \<and> \<not> box
                        then (api_fail ErrTemporarilyUnavailable ''auto_renew_unavailable'' ''automatic renewal is not available on this deployment'', d)
                      else if setFails then (api_fail ErrInternal ''internal_error'' ''failed to update automatic renewal'', d)
                      else case SetAutoRenew (an_Tenant r) on d of
                          (Inl _, d1) \<Rightarrow> (api_fail ErrInternal ''internal_error'' ''failed to update automatic renewal'', d1)
                        | (Inr rs, d1) \<Rightarrow> (writeJSON 200 rs, d1))"

definition secondsUntilUTCMidnight :: "gotime \<Rightarrow> int" where
  "secondsUntilUTCMidnight now =
     (let s = (utc_day now + 24 * hour - now) div second in if s < 1 then 1 else s)"

definition planLimitAPIError :: "bool \<Rightarrow> gotime \<Rightarrow> string \<Rightarrow> limit_error \<Rightarrow> apiError option" where
  "planLimitAPIError volume now message e =
     (if e \<noteq> LErrPlanLimit then None
      else Some (if volume
        then (newError ErrRateLimited ''daily_send_limit_reached'' (message @ ''; upgrade your plan to continue''))\<lparr>ae_RetryAfter := secondsUntilUTCMidnight now\<rparr>
        else newError ErrForbidden ''plan_limit_reached'' (message @ ''; upgrade your plan to continue'')))"

section \<open>What a webhook can do\<close>

lemma hex_bytes_printable: "list_all (\<lambda>c. 0x21 \<le> byte c \<and> byte c < 0x7f) (hex_bytes s)"
proof -
  have "0x21 \<le> byte (hex_char n) \<and> byte (hex_char n) < 0x7f" if "n < 16" for n using that by (simp add: hex_char_def)
  moreover have "byte c div 16 < 16" "byte c mod 16 < 16" for c :: char using of_char_eq_iff [of c] by (simp_all add: less_mult_imp_div_less)
  ultimately show ?thesis by (induction s) (simp_all add: hex_bytes_def)
qed

text \<open>What is signed verifies.\<close>

lemma webhook_signature: "length (mac body) = 64 \<Longrightarrow> ps_VerifySignature mac body (ps_Sign mac body)"
  by (simp add: ps_VerifySignature_def ps_Sign_def TrimSpace_printable [OF hex_bytes_printable] hex_decode_bytes)

lemma PlanFor_ID: "IsPaid i \<Longrightarrow> pl_ID (PlanFor i) = i"
  by (auto simp: IsPaid_def PlanFor_def Plans_def plan_free_def plan_plus_def plan_pro_def split: if_splits)

lemma saveAuthorization_payments [simp]: "bd_payments (saveAuthorization b f e d) = bd_payments d"
  by (simp add: saveAuthorization_def SaveRenewalAuthorization_def split: option.split prod.split)


definition webhook_demo_event :: ps_event where
  "webhook_demo_event = \<lparr>ev_Event = ''charge.success'', ev_Reference = ''r9'', ev_Status = ''success'', ev_Amount = 600, ev_Currency = ''usd'',
     ev_Tenant = ''t'', ev_Plan = ''plus'', ev_Customer = [], ev_Email = [], ev_AuthCode = [], ev_Reusable = False\<rparr>"

definition webhook_demo :: webhook_env where
  "webhook_demo = \<lparr>we_unicode = plain_unicode, we_mac = (\<lambda>_. replicate 64 (CHR ''a'')), we_decode = (\<lambda>_. Some webhook_demo_event),
     we_box = None, we_applyFails = False, we_saveFails = False, we_clock = 60 * hour\<rparr>"


text \<open>
  A refusal for volume asks the client to wait between a second and a day, and until after the next midnight in
  UTC to the second.
\<close>

theorem volume_refusal_until_midnight:
  "1 \<le> secondsUntilUTCMidnight now \<and> secondsUntilUTCMidnight now \<le> 86400 \<and>
   utc_day (now + secondsUntilUTCMidnight now * second + second) = utc_day now + 24 * hour"
proof -
  define r where "r = now mod (24 * hour)"
  define q where "q = (24 * hour - r) div second"
  have now: "now = utc_day now + r" unfolding utc_day_def r_def by simp
  have r: "0 \<le> r" "r < 24 * hour" unfolding r_def by simp_all
  have q: "q * second \<le> 24 * hour - r" "24 * hour - r < q * second + second" unfolding q_def by simp_all
  have s: "secondsUntilUTCMidnight now = (if q < 1 then 1 else q)"
  proof -
    have "utc_day now + 24 * hour - now = 24 * hour - r" using now by linarith
    then show ?thesis unfolding secondsUntilUTCMidnight_def q_def Let_def by (simp only:)
  qed
  let ?x = "now + secondsUntilUTCMidnight now * second + second"
  have "utc_day now = now div (24 * hour) * (24 * hour)" by (simp add: utc_day_def)
  moreover have "(now div (24 * hour) + 1) * (24 * hour) \<le> ?x" "?x < (now div (24 * hour) + 1) * (24 * hour) + 24 * hour"
    using now r q s calculation by (auto split: if_splits)
  then have "?x div (24 * hour) = now div (24 * hour) + 1" 
    by (intro int_div_pos_eq [where r = "?x - (now div (24 * hour) + 1) * (24 * hour)"]) auto
  ultimately have "utc_day ?x = utc_day now + 24 * hour" by (simp add: utc_day_def)
  moreover have "1 \<le> secondsUntilUTCMidnight now \<and> secondsUntilUTCMidnight now \<le> 86400" using s r q by (auto split: if_splits)
  ultimately show ?thesis by blast
qed

end
