(* ===== verification/Accounts.thy ===== *)
theory Accounts
  imports Billing_API
begin

text \<open>
  The tables of human accounts and their transactions (\<^verbatim>\<open>internal/database/humans.go\<close>, \<^verbatim>\<open>human_mfa.go\<close>, \<^verbatim>\<open>email_verification.go\<close>,
  \<^verbatim>\<open>org_invitations.go\<close>): accounts, refresh tokens, the single-use tokens of password reset, e-mail verification and
  invitations, MFA challenges and backup codes, OAuth states and identities. Identifiers and hashes come from the caller;
  a transaction is a function that leaves the tables unchanged when it fails. Instants are those the service passes, in
  whole microseconds; text that the schema's length and white-space checks refuse is \<open>schema_email\<close> and \<open>schema_name\<close>. Display-only
  columns are left out. The theorems: keys stay unique and what is spent stays spent, so each token works at most
  once, a refresh token has at most one successor, and a reset ends every session there is.
\<close>

section \<open>Tables\<close>

record human =
  hu_ID :: string
  hu_Name :: string
  hu_Normalized :: string
  hu_Email :: string
  hu_Password :: string
  hu_Role :: string
  hu_LastLogin :: "gotime option"
  hu_MFA :: bool
  hu_Secret :: "(string \<times> string) option" \<comment> \<open>ciphertext and nonce\<close>
  hu_Pending :: "(string \<times> string) option"
  hu_LastStep :: "int option"
  hu_VerifiedAt :: "gotime option"

text \<open>A token of any kind: \<open>tk_Spent\<close> is the time of revocation, use or acceptance.\<close>

record token_row =
  tk_ID :: string
  tk_Human :: string
  tk_Hash :: string
  tk_Expires :: gotime
  tk_Spent :: "gotime option"

record challenge = token_row +
  ch_Failed :: nat

record dated_token = token_row +
  dt_CreatedAt :: gotime

record invitation = token_row +
  oi_Tenant :: string
  oi_Normalized :: string
  oi_RawEmail :: string
  oi_CreatedAt :: gotime

record acct_db =
  ac_humans :: "human list"
  ac_refresh :: "token_row list"
  ac_resets :: "token_row list"
  ac_challenges :: "challenge list"
  ac_backup :: "token_row list"
  ac_verify :: "dated_token list"
  ac_invites :: "invitation list"
  ac_states :: "(string \<times> string \<times> gotime) list" \<comment> \<open>hash, provider, expiry\<close>
  ac_identities :: "((string \<times> string) \<times> string) list" \<comment> \<open>provider and its user, account\<close>
  ac_bill :: bill_db \<comment> \<open>organizations, members and plans\<close>

datatype acct_error =
    AErrNotFound | AErrConflict | AErrCheck | AErrRotationLost | AErrConsumed | AErrAlreadyVerified | AErrPasswordLogin | AErrLimit limit_error

section \<open>Accounts\<close>

definition normalizeEmail :: "unicode \<Rightarrow> string \<Rightarrow> string" where
  "normalizeEmail U email = ToLower U (TrimSpace email)"

definition schema_email :: "string \<Rightarrow> bool" where
  "schema_email e \<longleftrightarrow> 3 \<le> length (runes e) \<and> length (runes e) \<le> 254 \<and> \<not> list_ex ascii_space e"

definition schema_name :: "string \<Rightarrow> bool" where
  "schema_name n \<longleftrightarrow> 1 \<le> length (runes n) \<and> length (runes n) \<le> 200"

definition new_human :: "unicode \<Rightarrow> string \<Rightarrow> string \<Rightarrow> string \<Rightarrow> string \<Rightarrow> human" where
  "new_human U i name email hash = \<lparr>hu_ID = i, hu_Name = name, hu_Normalized = normalizeEmail U email, hu_Email = email, hu_Password = hash, hu_Role = ''user'',
     hu_LastLogin = None, hu_MFA = False, hu_Secret = None, hu_Pending = None, hu_LastStep = None, hu_VerifiedAt = None\<rparr>"

definition insert_human :: "human \<Rightarrow> acct_db \<Rightarrow> acct_error option \<times> acct_db" where
  "insert_human h d =
     (if \<not> schema_name (hu_Name h) \<or> \<not> schema_email (hu_Normalized h) then (Some AErrCheck, d)
      else if list_ex (\<lambda>x. hu_ID x = hu_ID h \<or> hu_Normalized x = hu_Normalized h) (ac_humans d) then (Some AErrConflict, d)
      else (None, d\<lparr>ac_humans := ac_humans d @ [h]\<rparr>))"

definition CreateHuman :: "unicode \<Rightarrow> string \<Rightarrow> string \<Rightarrow> string \<Rightarrow> string \<Rightarrow> acct_db \<Rightarrow> (acct_error + human) \<times> acct_db" where
  "CreateHuman U i name email hash d =
     (let h = new_human U i name email hash
      in case insert_human h d of (Some e, d1) \<Rightarrow> (Inl e, d1) | (None, d1) \<Rightarrow> (Inr h, d1))"

definition GetHumanByEmail :: "unicode \<Rightarrow> string \<Rightarrow> acct_db \<Rightarrow> human option" where
  "GetHumanByEmail U email d = find (\<lambda>h. hu_Normalized h = normalizeEmail U email) (ac_humans d)"

definition GetHuman :: "string \<Rightarrow> acct_db \<Rightarrow> human option" where
  "GetHuman i d = find (\<lambda>h. hu_ID h = i) (ac_humans d)"

definition update_humans :: "(human \<Rightarrow> bool) \<Rightarrow> (human \<Rightarrow> human) \<Rightarrow> acct_db \<Rightarrow> acct_db" where
  "update_humans w f d = d\<lparr>ac_humans := map (\<lambda>h. if w h then f h else h) (ac_humans d)\<rparr>"

definition TouchHumanLogin :: "string \<Rightarrow> gotime \<Rightarrow> acct_db \<Rightarrow> acct_db" where
  "TouchHumanLogin i at d =
     update_humans (\<lambda>h. hu_ID h = i \<and> (case hu_LastLogin h of None \<Rightarrow> True | Some l \<Rightarrow> l < at)) (\<lambda>h. h\<lparr>hu_LastLogin := Some at\<rparr>) d"

section \<open>Tokens\<close>

text \<open>An insertion fails on a repeated key or hash; a guarded update reports whether it found a row.\<close>

definition token_clash :: "('a token_row_scheme) \<Rightarrow> ('a token_row_scheme) list \<Rightarrow> bool" where
  "token_clash t ts \<longleftrightarrow> list_ex (\<lambda>x. tk_ID x = tk_ID t \<or> tk_Hash x = tk_Hash t) ts"

definition spend :: "gotime \<Rightarrow> 'a token_row_scheme \<Rightarrow> 'a token_row_scheme" where
  "spend now t = t\<lparr>tk_Spent := Some now\<rparr>"

definition spend_where :: "('a token_row_scheme \<Rightarrow> bool) \<Rightarrow> gotime \<Rightarrow> 'a token_row_scheme list \<Rightarrow> bool \<times> 'a token_row_scheme list" where
  "spend_where w now ts =
     (list_ex (\<lambda>t. w t \<and> tk_Spent t = None) ts, map (\<lambda>t. if w t \<and> tk_Spent t = None then spend now t else t) ts)"

definition token_by_hash :: "string \<Rightarrow> 'a token_row_scheme list \<Rightarrow> 'a token_row_scheme option" where
  "token_by_hash hash ts = find (\<lambda>t. tk_Hash t = hash) ts"

definition new_token :: "string \<Rightarrow> string \<Rightarrow> string \<Rightarrow> gotime \<Rightarrow> token_row" where
  "new_token i human hash expires = \<lparr>tk_ID = i, tk_Human = human, tk_Hash = hash, tk_Expires = expires, tk_Spent = None\<rparr>"

definition CreateRefreshToken :: "string \<Rightarrow> string \<Rightarrow> string \<Rightarrow> gotime \<Rightarrow> acct_db \<Rightarrow> acct_error option \<times> acct_db" where
  "CreateRefreshToken i human hash expires d =
     (let t = new_token i human hash expires
      in if GetHuman human d = None \<or> token_clash t (ac_refresh d) then (Some AErrConflict, d)
         else (None, d\<lparr>ac_refresh := ac_refresh d @ [t]\<rparr>))"

definition TouchLoginAndCreateRefreshToken ::
  "string \<Rightarrow> string \<Rightarrow> gotime \<Rightarrow> string \<Rightarrow> gotime \<Rightarrow> acct_db \<Rightarrow> (acct_error + gotime) \<times> acct_db" where
  "TouchLoginAndCreateRefreshToken i human loginAt hash expires d =
     (let d1 = TouchHumanLogin human loginAt d
      in case GetHuman human d1 of
           None \<Rightarrow> (Inl AErrNotFound, d)
         | Some h \<Rightarrow>
             (case CreateRefreshToken i human hash expires d1 of
                (Some e, _) \<Rightarrow> (Inl e, d)
              | (None, d2) \<Rightarrow> (Inr (case hu_LastLogin h of Some l \<Rightarrow> l | None \<Rightarrow> zero_time), d2)))"

definition RevokeRefreshToken :: "string \<Rightarrow> gotime \<Rightarrow> acct_db \<Rightarrow> bool \<times> acct_db" where
  "RevokeRefreshToken i now d =
     (case spend_where (\<lambda>t. tk_ID t = i) now (ac_refresh d) of (ok, ts) \<Rightarrow> (ok, d\<lparr>ac_refresh := ts\<rparr>))"

definition RotateRefreshToken ::
  "string \<Rightarrow> string \<Rightarrow> string \<Rightarrow> string \<Rightarrow> gotime \<Rightarrow> gotime \<Rightarrow> acct_db \<Rightarrow> acct_error option \<times> acct_db" where
  "RotateRefreshToken oldID i human hash now expires d =
     (case RevokeRefreshToken oldID now d of
        (False, _) \<Rightarrow> (Some AErrRotationLost, d)
      | (True, d1) \<Rightarrow>
          (case CreateRefreshToken i human hash expires d1 of (Some e, _) \<Rightarrow> (Some e, d) | (None, d2) \<Rightarrow> (None, d2)))"

definition RevokeAllRefreshTokensForHuman :: "string \<Rightarrow> gotime \<Rightarrow> acct_db \<Rightarrow> acct_db" where
  "RevokeAllRefreshTokensForHuman human now d =
     d\<lparr>ac_refresh := snd (spend_where (\<lambda>t. tk_Human t = human) now (ac_refresh d))\<rparr>"

definition CreatePasswordResetToken :: "string \<Rightarrow> string \<Rightarrow> string \<Rightarrow> gotime \<Rightarrow> acct_db \<Rightarrow> acct_error option \<times> acct_db" where
  "CreatePasswordResetToken i human hash expires d =
     (let t = new_token i human hash expires
      in if GetHuman human d = None \<or> token_clash t (ac_resets d) then (Some AErrConflict, d)
         else (None, d\<lparr>ac_resets := ac_resets d @ [t]\<rparr>))"

definition db_ResetPassword :: "string \<Rightarrow> string \<Rightarrow> string \<Rightarrow> gotime \<Rightarrow> acct_db \<Rightarrow> acct_error option \<times> acct_db" where
  "db_ResetPassword tokenID human hash now d =
     (case spend_where (\<lambda>t. tk_ID t = tokenID) now (ac_resets d) of
        (False, _) \<Rightarrow> (Some AErrConsumed, d)
      | (True, ts) \<Rightarrow>
          (None, RevokeAllRefreshTokensForHuman human now
                   (update_humans (\<lambda>h. hu_ID h = human) (\<lambda>h. h\<lparr>hu_Password := hash\<rparr>) (d\<lparr>ac_resets := ts\<rparr>))))"

section \<open>MFA\<close>

definition SetPendingMFA ::
  "string \<Rightarrow> string \<times> string \<Rightarrow> (string \<times> string) list \<Rightarrow> acct_db \<Rightarrow> acct_error option \<times> acct_db" where
  "SetPendingMFA human sealed codes d =
     (let others = filter (\<lambda>t. tk_Human t \<noteq> human) (ac_backup d);
          fresh = map (\<lambda>(i, hash). new_token i human hash 0) codes
      in if \<not> list_ex (\<lambda>h. hu_ID h = human \<and> \<not> hu_MFA h) (ac_humans d) then (Some AErrConflict, d)
         else if \<not> distinct (map tk_ID (others @ fresh)) \<or> \<not> distinct (map tk_Hash (others @ fresh)) then (Some AErrConflict, d)
         else (None, (update_humans (\<lambda>h. hu_ID h = human \<and> \<not> hu_MFA h) (\<lambda>h. h\<lparr>hu_Pending := Some sealed\<rparr>) d)\<lparr>ac_backup := others @ fresh\<rparr>))"

definition ActivateMFA :: "string \<Rightarrow> string \<Rightarrow> int \<Rightarrow> acct_db \<Rightarrow> acct_error option \<times> acct_db" where
  "ActivateMFA human pending step d =
     (let w = (\<lambda>h. hu_ID h = human \<and> \<not> hu_MFA h \<and> map_option fst (hu_Pending h) = Some pending)
      in if \<not> list_ex w (ac_humans d) then (Some AErrConsumed, d)
         else (None, update_humans w (\<lambda>h. h\<lparr>hu_MFA := True, hu_Secret := hu_Pending h, hu_Pending := None, hu_LastStep := Some step\<rparr>) d))"

definition db_DisableMFA :: "string \<Rightarrow> acct_db \<Rightarrow> acct_db" where
  "db_DisableMFA human d =
     (update_humans (\<lambda>h. hu_ID h = human) (\<lambda>h. h\<lparr>hu_MFA := False, hu_Secret := None, hu_Pending := None, hu_LastStep := None\<rparr>) d)
       \<lparr>ac_backup := filter (\<lambda>t. tk_Human t \<noteq> human) (ac_backup d), ac_challenges := filter (\<lambda>t. tk_Human t \<noteq> human) (ac_challenges d)\<rparr>"

definition CreateMFAChallenge :: "string \<Rightarrow> string \<Rightarrow> string \<Rightarrow> gotime \<Rightarrow> acct_db \<Rightarrow> acct_error option \<times> acct_db" where
  "CreateMFAChallenge i human hash expires d =
     (let t = \<lparr>tk_ID = i, tk_Human = human, tk_Hash = hash, tk_Expires = expires, tk_Spent = None, ch_Failed = 0\<rparr>
      in if GetHuman human d = None \<or> token_clash t (ac_challenges d) then (Some AErrConflict, d)
         else (None, d\<lparr>ac_challenges := ac_challenges d @ [t]\<rparr>))"

definition fail_challenge :: "nat \<Rightarrow> gotime \<Rightarrow> challenge \<Rightarrow> challenge" where
  "fail_challenge maxAttempts now c =
     c\<lparr>ch_Failed := ch_Failed c + 1,
       tk_Spent := (if ch_Failed c + 1 \<ge> maxAttempts then Some (case tk_Spent c of Some t \<Rightarrow> t | None \<Rightarrow> now) else tk_Spent c)\<rparr>"

definition RecordMFAChallengeFailure :: "string \<Rightarrow> nat \<Rightarrow> gotime \<Rightarrow> acct_db \<Rightarrow> acct_db" where
  "RecordMFAChallengeFailure i maxAttempts now d =
     d\<lparr>ac_challenges := map (\<lambda>c. if tk_ID c = i then fail_challenge maxAttempts now c else c) (ac_challenges d)\<rparr>"

definition step_newer :: "int \<Rightarrow> human \<Rightarrow> bool" where
  "step_newer step h = (case hu_LastStep h of None \<Rightarrow> True | Some l \<Rightarrow> l < step)"

text \<open>The second factor is a TOTP step (\<open>Inl\<close>) or the hash of a backup code (\<open>Inr\<close>).\<close>

definition consume_factor :: "string \<Rightarrow> gotime \<Rightarrow> int + string \<Rightarrow> acct_db \<Rightarrow> bool \<times> acct_db" where
  "consume_factor human now factor d =
     (case factor of
        Inl step \<Rightarrow>
          let w = (\<lambda>h. hu_ID h = human \<and> hu_MFA h \<and> step_newer step h)
          in (list_ex w (ac_humans d), update_humans w (\<lambda>h. h\<lparr>hu_LastStep := Some step\<rparr>) d)
      | Inr hash \<Rightarrow>
          (case spend_where (\<lambda>t. tk_Human t = human \<and> tk_Hash t = hash) now (ac_backup d) of
             (ok, ts) \<Rightarrow> (ok, d\<lparr>ac_backup := ts\<rparr>)))"

definition CompleteMFAChallenge :: "string \<Rightarrow> string \<Rightarrow> gotime \<Rightarrow> int + string \<Rightarrow> acct_db \<Rightarrow> acct_error option \<times> acct_db" where
  "CompleteMFAChallenge i human now factor d =
     (case spend_where (\<lambda>c. tk_ID c = i \<and> tk_Human c = human \<and> tk_Expires c > now) now (ac_challenges d) of
        (False, _) \<Rightarrow> (Some AErrConsumed, d)
      | (True, cs) \<Rightarrow>
          (case consume_factor human now factor (d\<lparr>ac_challenges := cs\<rparr>) of
             (False, _) \<Rightarrow> (Some AErrConsumed, d)
           | (True, d1) \<Rightarrow> (None, d1)))"

section \<open>OAuth\<close>

definition CreateOAuthState :: "string \<Rightarrow> string \<Rightarrow> gotime \<Rightarrow> acct_db \<Rightarrow> acct_error option \<times> acct_db" where
  "CreateOAuthState hash provider expires d =
     (if list_ex (\<lambda>(h, _). h = hash) (ac_states d) then (Some AErrConflict, d)
      else (None, d\<lparr>ac_states := ac_states d @ [(hash, provider, expires)]\<rparr>))"

definition ConsumeOAuthState :: "string \<Rightarrow> string \<Rightarrow> gotime \<Rightarrow> acct_db \<Rightarrow> bool \<times> acct_db" where
  "ConsumeOAuthState hash provider now d =
     (let w = (\<lambda>(h, p, e). h = hash \<and> p = provider \<and> e > now)
      in (length (filter w (ac_states d)) = 1,
          d\<lparr>ac_states := filter (\<lambda>(_, _, e). e > now) (filter (\<lambda>x. \<not> w x) (ac_states d))\<rparr>))"

definition unusablePasswordHash :: string where "unusablePasswordHash = ''!oauth-no-password''"

definition ResolveOAuthHuman ::
  "unicode \<Rightarrow> string \<Rightarrow> string \<Rightarrow> string \<Rightarrow> string \<Rightarrow> string \<Rightarrow> acct_db \<Rightarrow> (acct_error + human \<times> bool) \<times> acct_db" where
  "ResolveOAuthHuman U newID provider user email name d =
     (case map_of (ac_identities d) (provider, user) of
        Some i \<Rightarrow> (case GetHuman i d of Some h \<Rightarrow> (Inr (h, False), d) | None \<Rightarrow> (Inl AErrNotFound, d))
      | None \<Rightarrow>
          (case GetHumanByEmail U email d of
             Some h \<Rightarrow>
               if hu_Password h \<noteq> unusablePasswordHash then (Inl AErrPasswordLogin, d)
               else (Inr (h, False), d\<lparr>ac_identities := ((provider, user), hu_ID h) # ac_identities d\<rparr>)
           | None \<Rightarrow>
               let h = new_human U newID name email unusablePasswordHash
               in case insert_human h d of
                    (Some e, _) \<Rightarrow> (Inl e, d)
                  | (None, d1) \<Rightarrow> (Inr (h, True), d1\<lparr>ac_identities := ((provider, user), newID) # ac_identities d1\<rparr>)))"

section \<open>Verification and invitations\<close>

definition before :: "gotime \<times> string \<Rightarrow> gotime \<times> string \<Rightarrow> bool" where
  "before a b \<longleftrightarrow> fst a < fst b \<or> (fst a = fst b \<and> snd a < snd b)"

definition CreateEmailVerificationToken ::
  "string \<Rightarrow> string \<Rightarrow> string \<Rightarrow> gotime \<Rightarrow> gotime \<Rightarrow> acct_db \<Rightarrow> (acct_error + dated_token) \<times> acct_db" where
  "CreateEmailVerificationToken i human hash expires clock d =
     (case GetHuman human d of
        None \<Rightarrow> (Inl AErrNotFound, d)
      | Some h \<Rightarrow>
          if hu_VerifiedAt h \<noteq> None then (Inl AErrAlreadyVerified, d)
          else let t = \<lparr>tk_ID = i, tk_Human = human, tk_Hash = hash, tk_Expires = expires, tk_Spent = None, dt_CreatedAt = clock\<rparr>
               in if token_clash t (ac_verify d) then (Inl AErrConflict, d)
                  else (Inr t, d\<lparr>ac_verify := ac_verify d @ [t]\<rparr>))"

definition SupersedeOtherEmailVerificationTokens :: "string \<Rightarrow> string \<Rightarrow> gotime \<Rightarrow> gotime \<Rightarrow> acct_db \<Rightarrow> acct_db" where
  "SupersedeOtherEmailVerificationTokens human keepID keepAt now d =
     d\<lparr>ac_verify := snd (spend_where (\<lambda>t. tk_Human t = human \<and> before (dt_CreatedAt t, tk_ID t) (keepAt, keepID)) now (ac_verify d))\<rparr>"

definition db_VerifyEmail :: "string \<Rightarrow> string \<Rightarrow> gotime \<Rightarrow> acct_db \<Rightarrow> acct_error option \<times> acct_db" where
  "db_VerifyEmail tokenID human now d =
     (case spend_where (\<lambda>t. tk_ID t = tokenID \<and> tk_Human t = human \<and> tk_Expires t > now) now (ac_verify d) of
        (False, _) \<Rightarrow> (Some AErrConsumed, d)
      | (True, ts) \<Rightarrow>
          (None, update_humans (\<lambda>h. hu_ID h = human) (\<lambda>h. h\<lparr>hu_VerifiedAt := Some (case hu_VerifiedAt h of Some t \<Rightarrow> t | None \<Rightarrow> now)\<rparr>) (d\<lparr>ac_verify := ts\<rparr>)))"

definition CreateOrgInvitation ::
  "unicode \<Rightarrow> string \<Rightarrow> string \<Rightarrow> string \<Rightarrow> string \<Rightarrow> string \<Rightarrow> gotime \<Rightarrow> gotime \<Rightarrow> acct_db \<Rightarrow> (acct_error + invitation) \<times> acct_db" where
  "CreateOrgInvitation U i org inviter email hash expires clock d =
     (let t = \<lparr>tk_ID = i, tk_Human = inviter, tk_Hash = hash, tk_Expires = expires, tk_Spent = None, oi_Tenant = org,
               oi_Normalized = normalizeEmail U email, oi_RawEmail = email, oi_CreatedAt = clock\<rparr>
      in if \<not> schema_email (oi_Normalized t) then (Inl AErrCheck, d)
         else if GetHuman inviter d = None \<or> find_tenant (ac_bill d) org = None \<or> token_clash t (ac_invites d) then (Inl AErrConflict, d)
         else (Inr t, d\<lparr>ac_invites := ac_invites d @ [t]\<rparr>))"

definition supersede_invite :: "gotime \<Rightarrow> invitation \<Rightarrow> invitation" where
  "supersede_invite now t = t\<lparr>tk_Expires := now\<rparr>"

definition SupersedeOtherPendingOrgInvitations ::
  "unicode \<Rightarrow> string \<Rightarrow> string \<Rightarrow> string \<Rightarrow> gotime \<Rightarrow> gotime \<Rightarrow> acct_db \<Rightarrow> acct_db" where
  "SupersedeOtherPendingOrgInvitations U org email keepID keepAt now d =
     d\<lparr>ac_invites := map (\<lambda>t. if oi_Tenant t = org \<and> oi_Normalized t = normalizeEmail U email \<and> before (oi_CreatedAt t, tk_ID t) (keepAt, keepID)
          \<and> tk_Spent t = None \<and> tk_Expires t > now then supersede_invite now t else t) (ac_invites d)\<rparr>"

definition add_member :: "string \<Rightarrow> string \<Rightarrow> string \<Rightarrow> acct_db \<Rightarrow> acct_db" where
  "add_member org human role d =
     (if human \<in> set (tenant_members org (ac_bill d)) then d
      else d\<lparr>ac_bill := (ac_bill d)\<lparr>bd_members := bd_members (ac_bill d) @ [(org, human, role)]\<rparr>\<rparr>)"

definition consume_invite :: "string \<Rightarrow> gotime \<Rightarrow> acct_db \<Rightarrow> bool \<times> acct_db" where
  "consume_invite i now d =
     (case spend_where (\<lambda>t. tk_ID t = i \<and> tk_Expires t > now) now (ac_invites d) of (ok, ts) \<Rightarrow> (ok, d\<lparr>ac_invites := ts\<rparr>))"

definition AcceptOrgInvitationForExistingHuman :: "bool \<Rightarrow> string \<Rightarrow> string \<Rightarrow> string \<Rightarrow> gotime \<Rightarrow> acct_db \<Rightarrow> acct_error option \<times> acct_db" where
  "AcceptOrgInvitationForExistingHuman enforce i org human now d =
     (case consume_invite i now d of
        (False, _) \<Rightarrow> (Some AErrConsumed, d)
      | (True, d1) \<Rightarrow>
          (case lockMemberCap enforce org human (ac_bill d1) of
             Some e \<Rightarrow> (Some (AErrLimit e), d)
           | None \<Rightarrow> (None, add_member org human ''member'' d1)))"

definition AcceptOrgInvitationWithSignup ::
  "unicode \<Rightarrow> bool \<Rightarrow> string \<Rightarrow> string \<Rightarrow> string \<Rightarrow> string \<Rightarrow> string \<Rightarrow> string \<Rightarrow> gotime \<Rightarrow> acct_db \<Rightarrow> (acct_error + human) \<times> acct_db" where
  "AcceptOrgInvitationWithSignup U enforce newID i org name email hash now d =
     (case consume_invite i now d of
        (False, _) \<Rightarrow> (Inl AErrConsumed, d)
      | (True, d1) \<Rightarrow>
          (case lockMemberCap enforce org [] (ac_bill d1) of
             Some e \<Rightarrow> (Inl (AErrLimit e), d)
           | None \<Rightarrow>
               let h = new_human U newID name email hash
               in case insert_human h d1 of
                    (Some e, _) \<Rightarrow> (Inl e, d)
                  | (None, d2) \<Rightarrow> (Inr h, add_member org newID ''member'' d2)))"

definition CreateOrganization :: "string \<Rightarrow> string \<Rightarrow> string \<Rightarrow> acct_db \<Rightarrow> acct_error option \<times> acct_db" where
  "CreateOrganization newID human name d =
     (if TrimSpace name = [] then (Some AErrCheck, d)
      else if find_tenant (ac_bill d) newID \<noteq> None \<or> GetHuman human d = None then (Some AErrConflict, d)
      else (None, add_member newID human ''owner''
              (d\<lparr>ac_bill := (ac_bill d)\<lparr>bd_tenants := bd_tenants (ac_bill d) @ [fresh_tenant newID name]\<rparr>\<rparr>)))"

definition ListOrganizationsForHuman :: "string \<Rightarrow> acct_db \<Rightarrow> string list" where
  "ListOrganizationsForHuman human d =
     map tn_ID (filter (\<lambda>t. human \<in> set (tenant_members (tn_ID t) (ac_bill d))) (rev (bd_tenants (ac_bill d))))"

section \<open>Runs\<close>

definition MFAChallengeMaxAttempts :: nat where "MFAChallengeMaxAttempts = 5"

text \<open>
  The transactions of any number of requests in any order, with the events that the statements below are about. A rotation
  names the account of the token it replaces, as the service does.
\<close>

datatype acct_event =
    Minted string string \<comment> \<open>account and refresh token\<close>
  | Rotated string string string \<comment> \<open>account, old and new token\<close>
  | Stepped string int \<comment> \<open>account and accepted TOTP step\<close>
  | Activated string
  | Accepted string

inductive acct_step :: "acct_db \<Rightarrow> acct_event list \<Rightarrow> acct_db \<Rightarrow> bool" where
  human: "acct_step d [] (snd (CreateHuman U i name email hash d))"
| touch: "acct_step d [] (TouchHumanLogin i at d)"
| mint: "CreateRefreshToken i human hash expires d = (None, d') \<Longrightarrow> acct_step d [Minted human i] d'"
| login: "TouchLoginAndCreateRefreshToken i human at hash expires d = (Inr l, d') \<Longrightarrow> acct_step d [Minted human i] d'"
| rotate: "RotateRefreshToken old i human hash now expires d = (None, d') \<Longrightarrow> (\<forall>t\<in>set (ac_refresh d). tk_ID t = old \<longrightarrow> tk_Human t = human) \<Longrightarrow> acct_step d [Rotated human old i] d'"
| revoke: "acct_step d [] (snd (RevokeRefreshToken i now d))"
| revoke_all: "acct_step d [] (RevokeAllRefreshTokensForHuman human now d)"
| forgot: "acct_step d [] (snd (CreatePasswordResetToken i human hash expires d))"
| reset: "acct_step d [] (snd (db_ResetPassword i human hash now d))"
| enroll: "acct_step d [] (snd (SetPendingMFA human sealed codes d))"
| activate: "ActivateMFA human pending step d = (None, d') \<Longrightarrow> acct_step d [Activated human] d'"
| disable: "acct_step d [] (db_DisableMFA human d)"
| challenge: "acct_step d [] (snd (CreateMFAChallenge i human hash expires d))"
| guess: "acct_step d [] (RecordMFAChallengeFailure i MFAChallengeMaxAttempts now d)"
| totp: "CompleteMFAChallenge i human now (Inl step) d = (None, d') \<Longrightarrow> acct_step d [Stepped human step] d'"
| backup: "acct_step d [] (snd (CompleteMFAChallenge i human now (Inr hash) d))"
| state: "acct_step d [] (snd (CreateOAuthState hash provider expires d))"
| consume: "acct_step d [] (snd (ConsumeOAuthState hash provider now d))"
| resolve: "acct_step d [] (snd (ResolveOAuthHuman U i provider user email name d))"
| verification: "acct_step d [] (snd (CreateEmailVerificationToken i human hash expires clock d))"
| supersede: "acct_step d [] (SupersedeOtherEmailVerificationTokens human keep at now d)"
| verify: "acct_step d [] (snd (db_VerifyEmail i human now d))"
| invite: "acct_step d [] (snd (CreateOrgInvitation U i org inviter email hash expires clock d))"
| supersede_invites: "acct_step d [] (SupersedeOtherPendingOrgInvitations U org email keep at now d)"
| accept: "AcceptOrgInvitationForExistingHuman enforce i org human now d = (None, d') \<Longrightarrow> acct_step d [Accepted i] d'"
| signup: "AcceptOrgInvitationWithSignup U enforce newID i org name email hash now d = (Inr h, d') \<Longrightarrow> acct_step d [Accepted i] d'"
| organization: "acct_step d [] (snd (CreateOrganization i human name d))"
| billing: "bd_members b = bd_members (ac_bill d) \<Longrightarrow> acct_step d [] (d\<lparr>ac_bill := b\<rparr>)"

inductive acct_run :: "acct_db \<Rightarrow> acct_event list \<Rightarrow> acct_db \<Rightarrow> bool" where
  start: "acct_run d [] d"
| more: "acct_run d es d1 \<Longrightarrow> acct_step d1 fs d2 \<Longrightarrow> acct_run d (es @ fs) d2"

definition acct_init :: "acct_db \<Rightarrow> bool" where
  "acct_init d \<longleftrightarrow> ac_humans d = [] \<and> ac_refresh d = [] \<and> ac_resets d = [] \<and> ac_challenges d = [] \<and> ac_backup d = [] \<and> ac_verify d = []
     \<and> ac_invites d = [] \<and> ac_states d = [] \<and> ac_identities d = [] \<and> bd_members (ac_bill d) = []"

section \<open>Tables of tokens\<close>

text \<open>
  How a table of single-use tokens may change: a new row with a new key, or an edit that keeps keys and leaves
  what is spent as it is.
\<close>

definition keeps :: "('a token_row_scheme \<Rightarrow> 'a token_row_scheme) \<Rightarrow> bool" where
  "keeps f \<longleftrightarrow> (\<forall>t. tk_ID (f t) = tk_ID t \<and> tk_Human (f t) = tk_Human t \<and> tk_Hash (f t) = tk_Hash t \<and> (tk_Spent t \<noteq> None \<longrightarrow> tk_Spent (f t) = tk_Spent t))"

inductive tok_moves :: "'a token_row_scheme list \<Rightarrow> 'a token_row_scheme list \<Rightarrow> bool" where
  stay: "tok_moves ts ts"
| add: "tok_moves ts us \<Longrightarrow> \<not> token_clash t us \<Longrightarrow> tok_moves ts (us @ [t])"
| edit: "tok_moves ts us \<Longrightarrow> keeps f \<Longrightarrow> tok_moves ts (map f us)"

definition keys_ok :: "'a token_row_scheme list \<Rightarrow> bool" where
  "keys_ok ts \<longleftrightarrow> distinct (map tk_ID ts) \<and> distinct (map tk_Hash ts)"

lemma keeps_map:
  assumes "keeps f"
  shows "map tk_ID (map f ts) = map tk_ID ts" "map tk_Hash (map f ts) = map tk_Hash ts"
  using assms by (simp_all add: keeps_def)

lemma tok_moves_keys: "tok_moves ts us \<Longrightarrow> keys_ok ts \<Longrightarrow> keys_ok us"
proof (induction rule: tok_moves.induct)
  case (add ts us t)
  then show ?case by (auto simp: keys_ok_def token_clash_def list_ex_iff)
next
  case (edit ts us f)
  then show ?case unfolding keys_ok_def keeps_map [OF edit.hyps(2)] by blast
qed

lemma tok_moves_spent:
  "tok_moves ts us \<Longrightarrow> t \<in> set ts \<Longrightarrow> \<exists>u\<in>set us. tk_ID u = tk_ID t \<and> tk_Human u = tk_Human t \<and> tk_Hash u = tk_Hash t \<and>
     (tk_Spent t \<noteq> None \<longrightarrow> tk_Spent u = tk_Spent t)"
proof (induction rule: tok_moves.induct)
  case (add ts us x)
  then show ?case by auto
next
  case (edit ts us f)
  then obtain u where "u \<in> set us" "tk_ID u = tk_ID t" "tk_Human u = tk_Human t" "tk_Hash u = tk_Hash t" "tk_Spent t \<noteq> None \<longrightarrow> tk_Spent u = tk_Spent t"
    by blast
  then show ?case using edit.hyps(2) by (intro bexI [of _ "f u"]) (auto simp: keeps_def)
qed auto

lemma tok_moves_trans: "tok_moves us vs \<Longrightarrow> tok_moves ts us \<Longrightarrow> tok_moves ts vs"
  by (induction rule: tok_moves.induct) (auto intro: tok_moves.intros)

lemma keeps_spend: "keeps (\<lambda>t. if w t \<and> tk_Spent t = None then spend now t else t)"
  by (simp add: keeps_def spend_def)

lemma tok_moves_spend: "tok_moves ts (snd (spend_where w now ts))"
  using tok_moves.edit [OF tok_moves.stay keeps_spend] by (simp add: spend_where_def)

lemma tok_moves_add: "\<not> token_clash t ts \<Longrightarrow> tok_moves ts (ts @ [t])"
  using tok_moves.add [OF tok_moves.stay] by blast

text \<open>What the tables of the database promise to whoever hands out single-use tokens.\<close>

locale token_table =
  fixes rows :: "acct_db \<Rightarrow> 'a token_row_scheme list"
  assumes step_moves: "acct_step d es d' \<Longrightarrow> tok_moves (rows d) (rows d')"
begin

lemma run_moves: "acct_run d es d' \<Longrightarrow> tok_moves (rows d) (rows d')"
  by (induction rule: acct_run.induct) (auto intro: tok_moves.stay tok_moves_trans step_moves)

lemma run_keys: "acct_run d es d' \<Longrightarrow> keys_ok (rows d) \<Longrightarrow> keys_ok (rows d')"
  using run_moves tok_moves_keys by blast

lemma spent_for_ever:
  assumes "acct_run d es d'" and "t \<in> set (rows d)" and "tk_Spent t = Some now" and "keys_ok (rows d)"
  shows "map_option tk_Spent (token_by_hash (tk_Hash t) (rows d')) = Some (Some now)"
proof -
  obtain u where u: "u \<in> set (rows d')" "tk_Hash u = tk_Hash t" "tk_Spent u = Some now"
    using tok_moves_spent [OF run_moves [OF assms(1)] assms(2)] assms(3) by auto
  have "keys_ok (rows d')" using run_keys assms(1,4) by blast
  then have inj: "inj_on tk_Hash (set (rows d'))" by (simp add: keys_ok_def distinct_map)
  obtain v where v: "token_by_hash (tk_Hash t) (rows d') = Some v"
    using u by (cases "token_by_hash (tk_Hash t) (rows d')") (auto simp: token_by_hash_def find_None_iff)
  then have "v \<in> set (rows d')" "tk_Hash v = tk_Hash t" by (auto simp: token_by_hash_def find_Some_iff)
  then have "v = u" using inj u by (auto simp: inj_on_def)
  then show ?thesis using v u by simp
qed

lemma spent_never_again:
  assumes "acct_run d es d'" and "t \<in> set (rows d)" and "tk_Spent t \<noteq> None" and "keys_ok (rows d)"
  shows "\<not> fst (spend_where (\<lambda>u. tk_ID u = tk_ID t \<and> Q u) now (rows d'))"
proof -
  obtain u where u: "u \<in> set (rows d')" "tk_ID u = tk_ID t" "tk_Spent u \<noteq> None"
    using tok_moves_spent [OF run_moves [OF assms(1)] assms(2)] assms(3) by auto
  have "keys_ok (rows d')" using run_keys assms(1,4) by blast
  then have "inj_on tk_ID (set (rows d'))" by (simp add: keys_ok_def distinct_map)
  then show ?thesis using u by (fastforce simp: spend_where_def list_ex_iff inj_on_def)
qed

end

lemma update_humans_simps [simp]:
  "ac_refresh (update_humans w f d) = ac_refresh d" "ac_resets (update_humans w f d) = ac_resets d" "ac_verify (update_humans w f d) = ac_verify d"
  "ac_invites (update_humans w f d) = ac_invites d" "ac_challenges (update_humans w f d) = ac_challenges d" "ac_backup (update_humans w f d) = ac_backup d"
  "ac_bill (update_humans w f d) = ac_bill d" "ac_humans (update_humans w f d) = map (\<lambda>h. if w h then f h else h) (ac_humans d)"
  by (simp_all add: update_humans_def)

lemma add_member_simps [simp]:
  "ac_refresh (add_member org h r d) = ac_refresh d" "ac_resets (add_member org h r d) = ac_resets d" "ac_verify (add_member org h r d) = ac_verify d"
  "ac_invites (add_member org h r d) = ac_invites d" "ac_challenges (add_member org h r d) = ac_challenges d" "ac_backup (add_member org h r d) = ac_backup d"
  "ac_humans (add_member org h r d) = ac_humans d"
  by (simp_all add: add_member_def)

lemmas acct_defs = CreateHuman_def insert_human_def TouchHumanLogin_def CreateRefreshToken_def TouchLoginAndCreateRefreshToken_def RevokeRefreshToken_def
  RotateRefreshToken_def RevokeAllRefreshTokensForHuman_def CreatePasswordResetToken_def db_ResetPassword_def SetPendingMFA_def ActivateMFA_def db_DisableMFA_def
  CreateMFAChallenge_def RecordMFAChallengeFailure_def CompleteMFAChallenge_def consume_factor_def CreateOAuthState_def ConsumeOAuthState_def ResolveOAuthHuman_def
  CreateEmailVerificationToken_def SupersedeOtherEmailVerificationTokens_def db_VerifyEmail_def CreateOrgInvitation_def SupersedeOtherPendingOrgInvitations_def
  consume_invite_def AcceptOrgInvitationForExistingHuman_def AcceptOrgInvitationWithSignup_def CreateOrganization_def

lemmas acct_splits = option.splits prod.splits bool.splits sum.splits if_splits

lemma insert_human_tables [simp]:
  "ac_refresh (snd (insert_human h d)) = ac_refresh d" "ac_resets (snd (insert_human h d)) = ac_resets d" "ac_verify (snd (insert_human h d)) = ac_verify d"
  "ac_invites (snd (insert_human h d)) = ac_invites d" "ac_challenges (snd (insert_human h d)) = ac_challenges d"
  by (simp_all add: insert_human_def)

lemma CreateHuman_db [simp]: "snd (CreateHuman U i name email hash d) = snd (insert_human (new_human U i name email hash) d)"
  by (simp add: CreateHuman_def Let_def split: prod.split option.split)

lemma consume_factor_tables [simp]:
  "ac_refresh (snd (consume_factor h now f d)) = ac_refresh d" "ac_resets (snd (consume_factor h now f d)) = ac_resets d"
  "ac_verify (snd (consume_factor h now f d)) = ac_verify d" "ac_invites (snd (consume_factor h now f d)) = ac_invites d"
  "ac_challenges (snd (consume_factor h now f d)) = ac_challenges d"
  by (simp_all add: consume_factor_def Let_def split: sum.split prod.split)

lemma complete_success:
  assumes "CompleteMFAChallenge i human now factor d = (None, d')"
  shows "\<exists>cs. spend_where (\<lambda>c. tk_ID c = i \<and> tk_Human c = human \<and> tk_Expires c > now) now (ac_challenges d) = (True, cs)
    \<and> consume_factor human now factor (d\<lparr>ac_challenges := cs\<rparr>) = (True, d')"
  using assms by (auto simp: CompleteMFAChallenge_def split: prod.splits bool.splits)

lemma complete_db: "snd (CompleteMFAChallenge i human now factor d) = d \<or> fst (CompleteMFAChallenge i human now factor d) = None"
  by (auto simp: CompleteMFAChallenge_def split: prod.splits bool.splits)

lemma complete_tables:
  "ac_refresh (snd (CompleteMFAChallenge i human now f d)) = ac_refresh d" "ac_resets (snd (CompleteMFAChallenge i human now f d)) = ac_resets d"
  "ac_verify (snd (CompleteMFAChallenge i human now f d)) = ac_verify d" "ac_invites (snd (CompleteMFAChallenge i human now f d)) = ac_invites d"
proof -
  have "ac_refresh (snd (CompleteMFAChallenge i human now f d)) = ac_refresh d \<and> ac_resets (snd (CompleteMFAChallenge i human now f d)) = ac_resets d
    \<and> ac_verify (snd (CompleteMFAChallenge i human now f d)) = ac_verify d \<and> ac_invites (snd (CompleteMFAChallenge i human now f d)) = ac_invites d"
  proof (cases "fst (CompleteMFAChallenge i human now f d)")
    case None
    then obtain cs where "consume_factor human now f (d\<lparr>ac_challenges := cs\<rparr>) = (True, snd (CompleteMFAChallenge i human now f d))"
      using complete_success [of i human now f d "snd (CompleteMFAChallenge i human now f d)"] by (auto simp: prod_eq_iff)
    then have "snd (CompleteMFAChallenge i human now f d) = snd (consume_factor human now f (d\<lparr>ac_challenges := cs\<rparr>))" by simp
    then show ?thesis by simp
  next
    case (Some e)
    then show ?thesis using complete_db [of i human now f d] by simp
  qed
  then show "ac_refresh (snd (CompleteMFAChallenge i human now f d)) = ac_refresh d" "ac_resets (snd (CompleteMFAChallenge i human now f d)) = ac_resets d"
    "ac_verify (snd (CompleteMFAChallenge i human now f d)) = ac_verify d" "ac_invites (snd (CompleteMFAChallenge i human now f d)) = ac_invites d" by blast+
qed

lemma resolve_tables [simp]:
  "ac_refresh (snd (ResolveOAuthHuman U i p u e n d)) = ac_refresh d" "ac_resets (snd (ResolveOAuthHuman U i p u e n d)) = ac_resets d"
  "ac_verify (snd (ResolveOAuthHuman U i p u e n d)) = ac_verify d" "ac_invites (snd (ResolveOAuthHuman U i p u e n d)) = ac_invites d"
  "ac_challenges (snd (ResolveOAuthHuman U i p u e n d)) = ac_challenges d"
  by (auto simp: ResolveOAuthHuman_def insert_human_def Let_def split: option.splits)

lemma rotate_success:
  assumes "RotateRefreshToken old i human hash now expires d = (None, d')"
  shows "fst (spend_where (\<lambda>t. tk_ID t = old) now (ac_refresh d)) \<and> \<not> token_clash (new_token i human hash expires) (snd (spend_where (\<lambda>t. tk_ID t = old) now (ac_refresh d)))
    \<and> d' = d\<lparr>ac_refresh := snd (spend_where (\<lambda>t. tk_ID t = old) now (ac_refresh d)) @ [new_token i human hash expires]\<rparr>"
  using assms by (auto simp: RotateRefreshToken_def RevokeRefreshToken_def CreateRefreshToken_def Let_def split: prod.splits bool.splits if_splits option.splits)

lemma touch_tables [simp]:
  "ac_refresh (TouchHumanLogin i at d) = ac_refresh d" "ac_resets (TouchHumanLogin i at d) = ac_resets d" "ac_verify (TouchHumanLogin i at d) = ac_verify d"
  "ac_invites (TouchHumanLogin i at d) = ac_invites d" "ac_challenges (TouchHumanLogin i at d) = ac_challenges d"
  by (simp_all add: TouchHumanLogin_def)

lemma login_success:
  assumes "TouchLoginAndCreateRefreshToken i human at hash expires d = (Inr l, d')"
  shows "\<not> token_clash (new_token i human hash expires) (ac_refresh d)
    \<and> d' = (TouchHumanLogin human at d)\<lparr>ac_refresh := ac_refresh d @ [new_token i human hash expires]\<rparr>"
  using assms by (auto simp: TouchLoginAndCreateRefreshToken_def CreateRefreshToken_def Let_def split: option.splits if_splits prod.splits)

lemma mint_success:
  assumes "CreateRefreshToken i human hash expires d = (None, d')"
  shows "\<not> token_clash (new_token i human hash expires) (ac_refresh d) \<and> d' = d\<lparr>ac_refresh := ac_refresh d @ [new_token i human hash expires]\<rparr>"
  using assms by (auto simp: CreateRefreshToken_def Let_def split: if_splits)

lemma revoke_db: "snd (RevokeRefreshToken i now d) = d\<lparr>ac_refresh := snd (spend_where (\<lambda>t. tk_ID t = i) now (ac_refresh d))\<rparr>"
  by (simp add: RevokeRefreshToken_def split: prod.split)

lemma reset_db:
  "snd (db_ResetPassword i human hash now d) =
     (if fst (spend_where (\<lambda>t. tk_ID t = i) now (ac_resets d))
      then RevokeAllRefreshTokensForHuman human now (update_humans (\<lambda>h. hu_ID h = human) (\<lambda>h. h\<lparr>hu_Password := hash\<rparr>)
             (d\<lparr>ac_resets := snd (spend_where (\<lambda>t. tk_ID t = i) now (ac_resets d))\<rparr>))
      else d)"
  by (simp add: db_ResetPassword_def split: prod.split bool.split)

lemma accept_success:
  assumes "AcceptOrgInvitationForExistingHuman enforce i org human now d = (None, d')"
  shows "fst (spend_where (\<lambda>t. tk_ID t = i \<and> tk_Expires t > now) now (ac_invites d)) \<and>
    lockMemberCap enforce org human (ac_bill d) = None \<and>
    d' = add_member org human ''member'' (d\<lparr>ac_invites := snd (spend_where (\<lambda>t. tk_ID t = i \<and> tk_Expires t > now) now (ac_invites d))\<rparr>)"
  using assms by (auto simp: AcceptOrgInvitationForExistingHuman_def consume_invite_def split: prod.splits bool.splits option.splits)

lemma signup_success:
  assumes "AcceptOrgInvitationWithSignup U enforce newID i org name email hash now d = (Inr h, d')"
  shows "fst (spend_where (\<lambda>t. tk_ID t = i \<and> tk_Expires t > now) now (ac_invites d)) \<and> lockMemberCap enforce org [] (ac_bill d) = None \<and>
    h = new_human U newID name email hash \<and>
    fst (insert_human h (d\<lparr>ac_invites := snd (spend_where (\<lambda>t. tk_ID t = i \<and> tk_Expires t > now) now (ac_invites d))\<rparr>)) = None \<and>
    d' = add_member org newID ''member'' (snd (insert_human h (d\<lparr>ac_invites := snd (spend_where (\<lambda>t. tk_ID t = i \<and> tk_Expires t > now) now (ac_invites d))\<rparr>)))"
  using assms by (auto simp: AcceptOrgInvitationWithSignup_def consume_invite_def Let_def split: prod.splits bool.splits option.splits)

lemma activate_success:
  assumes "ActivateMFA human pending step d = (None, d')"
  shows "d' = update_humans (\<lambda>h. hu_ID h = human \<and> \<not> hu_MFA h \<and> map_option fst (hu_Pending h) = Some pending)
    (\<lambda>h. h\<lparr>hu_MFA := True, hu_Secret := hu_Pending h, hu_Pending := None, hu_LastStep := Some step\<rparr>) d"
  using assms by (auto simp: ActivateMFA_def Let_def split: if_splits)

lemmas step_success = mint_success login_success rotate_success accept_success signup_success activate_success

lemma complete_None: "CompleteMFAChallenge i human now f d = (None, d') \<Longrightarrow> d' = snd (CompleteMFAChallenge i human now f d)"
  by simp

lemmas quiet_defs = revoke_db RevokeAllRefreshTokensForHuman_def CreatePasswordResetToken_def reset_db SetPendingMFA_def
  db_DisableMFA_def CreateMFAChallenge_def RecordMFAChallengeFailure_def CreateOAuthState_def ConsumeOAuthState_def CreateEmailVerificationToken_def
  SupersedeOtherEmailVerificationTokens_def db_VerifyEmail_def CreateOrgInvitation_def SupersedeOtherPendingOrgInvitations_def CreateOrganization_def

interpretation refresh: token_table ac_refresh
proof
  fix d es d'
  assume "acct_step d es d'"
  then show "tok_moves (ac_refresh d) (ac_refresh d')"
  proof cases
    case (rotate old i human hash now expires)
    show ?thesis using rotate_success [OF rotate(2)] by (auto intro: tok_moves.add tok_moves_spend)
  next
    case (totp i human now step)
    show ?thesis using complete_None [OF totp(2)] complete_tables(1) by (metis tok_moves.stay)
  qed (auto simp: quiet_defs complete_tables Let_def dest!: step_success intro: tok_moves.stay tok_moves_add tok_moves_spend
      split: prod.split bool.split option.split)
qed

interpretation resets: token_table ac_resets
proof
  fix d es d'
  assume "acct_step d es d'"
  then show "tok_moves (ac_resets d) (ac_resets d')"
  proof cases
    case (totp i human now step)
    show ?thesis using complete_None [OF totp(2)] complete_tables(2) by (metis tok_moves.stay)
  qed (auto simp: quiet_defs complete_tables Let_def dest!: step_success intro: tok_moves.stay tok_moves_add tok_moves_spend
      split: prod.split bool.split option.split)
qed

interpretation verify: token_table ac_verify
proof
  fix d es d'
  assume "acct_step d es d'"
  then show "tok_moves (ac_verify d) (ac_verify d')"
  proof cases
    case (totp i human now step)
    show ?thesis using complete_None [OF totp(2)] complete_tables(3) by (metis tok_moves.stay)
  next
    case (verify i human now)
    have "ac_verify d' = ac_verify d \<or> ac_verify d' = snd (spend_where (\<lambda>t. tk_ID t = i \<and> tk_Human t = human \<and> tk_Expires t > now) now (ac_verify d))"
      unfolding verify by (simp add: db_VerifyEmail_def split: prod.split bool.split)
    then show ?thesis by (elim disjE) (simp_all add: tok_moves.stay tok_moves_spend)
  qed (auto simp: quiet_defs complete_tables Let_def dest!: step_success intro: tok_moves.stay tok_moves_add tok_moves_spend
      split: prod.split bool.split option.split)
qed

interpretation invites: token_table ac_invites
proof
  fix d es d'
  assume "acct_step d es d'"
  then show "tok_moves (ac_invites d) (ac_invites d')"
  proof cases
    case (totp i human now step)
    show ?thesis using complete_None [OF totp(2)] complete_tables(4) by (metis tok_moves.stay)
  next
    case (supersede_invites U org email keep at now)
    have "keeps (\<lambda>t. if oi_Tenant t = org \<and> oi_Normalized t = normalizeEmail U email \<and> before (oi_CreatedAt t, tk_ID t) (at, keep)
          \<and> tk_Spent t = None \<and> tk_Expires t > now then supersede_invite now t else t)"
      by (simp add: keeps_def supersede_invite_def)
    from tok_moves.edit [OF tok_moves.stay this] show ?thesis unfolding supersede_invites SupersedeOtherPendingOrgInvitations_def by simp
  qed (auto simp: quiet_defs complete_tables Let_def dest!: step_success intro: tok_moves.stay tok_moves_add tok_moves_spend
      split: prod.split bool.split option.split)
qed

section \<open>Sessions\<close>

definition active :: "string \<Rightarrow> token_row \<Rightarrow> bool" where
  "active human t \<longleftrightarrow> tk_Human t = human \<and> tk_Spent t = None"

definition mints :: "string \<Rightarrow> acct_event list \<Rightarrow> nat" where
  "mints human es = length (filter (\<lambda>e. \<exists>i. e = Minted human i) es)"

definition rotated_from :: "acct_event list \<Rightarrow> string list" where
  "rotated_from es = List.map_filter (\<lambda>e. case e of Rotated _ old _ \<Rightarrow> Some old | _ \<Rightarrow> None) es"

lemma rotated_from_append [simp]: "rotated_from (es @ fs) = rotated_from es @ rotated_from fs"
  by (simp add: rotated_from_def map_filter_def)

lemma rotated_from_simps [simp]: "rotated_from [] = []" "rotated_from [Rotated h old new] = [old]" "rotated_from [Minted h i] = []"
  "rotated_from [Stepped h n] = []" "rotated_from [Activated h] = []" "rotated_from [Accepted i] = []"
  by (simp_all add: rotated_from_def List.map_filter_simps)

lemma mints_append [simp]: "mints h (es @ fs) = mints h es + mints h fs" "mints h [] = 0"
  by (simp_all add: mints_def)

definition session_inv :: "acct_event list \<Rightarrow> acct_db \<Rightarrow> bool" where
  "session_inv es d \<longleftrightarrow> keys_ok (ac_refresh d) \<and> (\<forall>h. length (filter (active h) (ac_refresh d)) \<le> mints h es)
     \<and> distinct (rotated_from es) \<and> (\<forall>o'\<in>set (rotated_from es). \<exists>t\<in>set (ac_refresh d). tk_ID t = o' \<and> tk_Spent t \<noteq> None)"

lemma active_spend_le: "length (filter (active h) (snd (spend_where w now ts))) \<le> length (filter (active h) ts)"
  by (induction ts) (auto simp: spend_where_def active_def spend_def)

text \<open>Spending an active token of an account leaves one active token less.\<close>

lemma active_spend_one:
  assumes "fst (spend_where (\<lambda>t. tk_ID t = i) now ts)" and "\<forall>t\<in>set ts. tk_ID t = i \<longrightarrow> tk_Human t = h"
  shows "length (filter (active h) (snd (spend_where (\<lambda>t. tk_ID t = i) now ts))) < length (filter (active h) ts)"
  using assms
proof (induction ts)
  case (Cons t ts)
  show ?case
  proof (cases "tk_ID t = i \<and> tk_Spent t = None")
    case True
    then have "tk_Human t = h" using Cons.prems(2) by simp
    then show ?thesis using True active_spend_le [of h "\<lambda>t. tk_ID t = i" now ts] by (simp add: spend_where_def active_def [abs_def] spend_def)
  next
    case False
    then have "fst (spend_where (\<lambda>t. tk_ID t = i) now ts)" using Cons.prems(1) by (auto simp: spend_where_def)
    then have "length (filter (active h) (snd (spend_where (\<lambda>t. tk_ID t = i) now ts))) < length (filter (active h) ts)" using Cons.IH Cons.prems(2) by simp
    moreover have "snd (spend_where (\<lambda>t. tk_ID t = i) now (t # ts)) = t # snd (spend_where (\<lambda>t. tk_ID t = i) now ts)"
      using False by (auto simp: spend_where_def)
    ultimately show ?thesis by simp
  qed
qed (simp add: spend_where_def)

lemma spent_kept:
  assumes "tok_moves ts us" and "\<exists>t\<in>set ts. tk_ID t = o' \<and> tk_Spent t \<noteq> None"
  shows "\<exists>t\<in>set us. tk_ID t = o' \<and> tk_Spent t \<noteq> None"
  using tok_moves_spent [OF assms(1)] assms(2) by fastforce

lemma session_inv_other:
  assumes "session_inv es d" and "tok_moves (ac_refresh d) (ac_refresh d')" and "rotated_from fs = []"
    and "\<And>h. length (filter (active h) (ac_refresh d')) \<le> length (filter (active h) (ac_refresh d)) + mints h fs"
  shows "session_inv (es @ fs) d'"
proof -
  have "length (filter (active h) (ac_refresh d')) \<le> mints h (es @ fs)" for h
    using assms(1,4) unfolding session_inv_def mints_append by (meson add_le_mono order_refl order_trans)
  then show ?thesis using assms(1,3) tok_moves_keys [OF assms(2)] spent_kept [OF assms(2)] by (simp add: session_inv_def)
qed

lemma session_inv_step:
  assumes "session_inv es d" and "acct_step d fs d'"
  shows "session_inv (es @ fs) d'"
proof (cases "\<exists>h old i. fs = [Rotated h old i]")
  case True
  then obtain h old i where fs: "fs = [Rotated h old i]" by blast
  from assms(2) obtain hash now expires where r: "RotateRefreshToken old i h hash now expires d = (None, d')"
    "\<forall>t\<in>set (ac_refresh d). tk_ID t = old \<longrightarrow> tk_Human t = h" unfolding fs by (cases rule: acct_step.cases) auto
  let ?us = "snd (spend_where (\<lambda>t. tk_ID t = old) now (ac_refresh d))"
  note s = rotate_success [OF r(1)]
  have mv: "tok_moves (ac_refresh d) (ac_refresh d')" using refresh.step_moves [OF assms(2)] .
  have d': "ac_refresh d' = ?us @ [new_token i h hash expires]" using s by simp
  have "length (filter (active x) (ac_refresh d')) \<le> length (filter (active x) (ac_refresh d))" for x
  proof (cases "x = h")
    case True
    then show ?thesis using active_spend_one [OF conjunct1 [OF s] r(2)] unfolding d' by simp
  next
    case False
    then show ?thesis using active_spend_le [of x _ now "ac_refresh d"] unfolding d' by (simp add: active_def new_token_def)
  qed
  then have cnt: "length (filter (active x) (ac_refresh d')) \<le> mints x (es @ fs)" for x
    using assms(1) unfolding session_inv_def mints_append by (meson le_add1 order_trans)
  obtain t where t: "t \<in> set (ac_refresh d)" "tk_ID t = old" "tk_Spent t = None"
    using s by (auto simp: spend_where_def list_ex_iff)
  have "keys_ok (ac_refresh d)" using assms(1) by (simp add: session_inv_def)
  then have "inj_on tk_ID (set (ac_refresh d))" by (simp add: keys_ok_def distinct_map)
  then have "old \<notin> set (rotated_from es)" using assms(1) t by (fastforce simp: session_inv_def inj_on_def)
  moreover have "\<exists>u\<in>set (ac_refresh d'). tk_ID u = old \<and> tk_Spent u \<noteq> None"
    unfolding d' using t by (intro bexI [of _ "spend now t"]) (auto simp: spend_where_def spend_def)
  ultimately show ?thesis
    using assms(1) cnt tok_moves_keys [OF mv] spent_kept [OF mv] by (simp add: session_inv_def fs)
next
  case False
  have mv: "tok_moves (ac_refresh d) (ac_refresh d')" using refresh.step_moves [OF assms(2)] .
  have ro: "rotated_from fs = []" using assms(2) False by (cases rule: acct_step.cases) auto
  have "length (filter (active h) (ac_refresh d')) \<le> length (filter (active h) (ac_refresh d)) + mints h fs" for h
    using assms(2) False
  proof (cases rule: acct_step.cases)
    case (totp i human now step)
    then show ?thesis using complete_None [OF totp(2)] complete_tables(1) by (metis le_add1)
  qed (auto simp: quiet_defs complete_tables Let_def active_spend_le mints_def active_def new_token_def dest!: step_success
      split: prod.split bool.split option.split)
  then show ?thesis by (rule session_inv_other [OF assms(1) mv ro])
qed

text \<open>
  (C29) Rotation never multiplies sessions. From empty tables, in any interleaving of requests, an account has at most as
  many live refresh tokens as it signed in, and no refresh token is exchanged twice, however many concurrent requests
  present it.
\<close>

theorem refresh_token_single_use:
  assumes "acct_init d0" and "acct_run d0 es d"
  shows "length (filter (active h) (ac_refresh d)) \<le> mints h es \<and> distinct (rotated_from es)"
proof -
  have "session_inv es d" using assms(2,1)
  proof (induction rule: acct_run.induct)
    case (start d)
    then show ?case by (simp add: session_inv_def acct_init_def keys_ok_def)
  next
    case (more d es d1 fs d2)
    then show ?case using session_inv_step by blast
  qed
  then show ?thesis by (simp add: session_inv_def)
qed

section \<open>The second factor\<close>

text \<open>The TOTP steps accepted for an account since its secret was activated.\<close>

definition seg_steps :: "string \<Rightarrow> acct_event list \<Rightarrow> int list" where
  "seg_steps h es = foldl (\<lambda>a e. case e of Stepped h' s \<Rightarrow> if h' = h then a @ [s] else a | Activated h' \<Rightarrow> if h' = h then [] else a | _ \<Rightarrow> a) [] es"

lemma seg_steps_snoc [simp]: "seg_steps h [] = []" "seg_steps h (es @ [Minted x i]) = seg_steps h es" "seg_steps h (es @ [Rotated x i j]) = seg_steps h es"
  "seg_steps h (es @ [Accepted i]) = seg_steps h es" "seg_steps h (es @ [Activated x]) = (if x = h then [] else seg_steps h es)"
  "seg_steps h (es @ [Stepped x s]) = (if x = h then seg_steps h es @ [s] else seg_steps h es)"
  by (simp_all add: seg_steps_def)

definition enabled_row :: "acct_db \<Rightarrow> string \<Rightarrow> int option \<Rightarrow> bool" where
  "enabled_row d h l \<longleftrightarrow> (\<exists>x\<in>set (ac_humans d). hu_ID x = h \<and> hu_MFA x \<and> hu_LastStep x = l)"

lemma enabled_update:
  assumes "\<And>x. x \<in> set (ac_humans d) \<Longrightarrow> hu_ID (f x) = hu_ID x \<and> (hu_MFA (f x) \<longrightarrow> hu_MFA x \<and> hu_LastStep (f x) = hu_LastStep x)"
    and "\<exists>x\<in>set (map (\<lambda>h. if w h then f h else h) (ac_humans d)). hu_ID x = h \<and> hu_MFA x \<and> hu_LastStep x = l"
  shows "enabled_row d h l"
  using assms unfolding enabled_row_def by (auto split: if_splits)

lemma enabled_insert: "enabled_row (snd (insert_human y d)) h l \<Longrightarrow> \<not> hu_MFA y \<Longrightarrow> enabled_row d h l"
  by (auto simp: enabled_row_def insert_human_def split: if_splits)

lemma new_human_mfa [simp]: "\<not> hu_MFA (new_human U i n e p)"
  by (simp add: new_human_def)

lemma resolve_enabled: "enabled_row (snd (ResolveOAuthHuman U i p u e n d)) h l \<Longrightarrow> enabled_row d h l"
  by (auto simp: ResolveOAuthHuman_def insert_human_def enabled_row_def Let_def split: option.splits if_splits)

lemma complete_backup_humans: "ac_humans (snd (CompleteMFAChallenge i human now (Inr hash) d)) = ac_humans d"
  by (auto simp: CompleteMFAChallenge_def consume_factor_def split: prod.splits bool.splits)

lemma touch_enabled: "enabled_row (TouchHumanLogin i at d) h l \<Longrightarrow> enabled_row d h l"
  unfolding TouchHumanLogin_def enabled_row_def update_humans_simps by (rule enabled_update [unfolded enabled_row_def]) auto

lemma enabled_step:
  assumes "acct_step d fs d'" and "enabled_row d' h l" and "\<And>x s. fs \<noteq> [Stepped x s]" and "\<And>x. fs \<noteq> [Activated x]"
  shows "enabled_row d h l"
  using assms(1)
proof (cases rule: acct_step.cases)
  case (human U i name email hash)
  then show ?thesis using assms(2) enabled_insert by simp
next
  case (touch i at)
  then show ?thesis using assms(2) touch_enabled by simp
next
  case (login i human at hash expires k)
  then have "enabled_row (TouchHumanLogin human at d) h l" using assms(2) login_success by (fastforce simp: enabled_row_def)
  then show ?thesis by (rule touch_enabled)
next
  case (reset i human hash now)
  then show ?thesis using assms(2) by (auto simp: reset_db RevokeAllRefreshTokensForHuman_def enabled_row_def split: if_splits)
next
  case (enroll human sealed codes)
  then show ?thesis using assms(2) by (auto simp: SetPendingMFA_def Let_def enabled_row_def split: if_splits)
next
  case (disable human)
  then show ?thesis using assms(2) by (auto simp: db_DisableMFA_def enabled_row_def split: if_splits)
next
  case (resolve U i provider user email name)
  then show ?thesis using assms(2) resolve_enabled by simp
next
  case (verify i human now)
  then show ?thesis using assms(2) by (auto simp: db_VerifyEmail_def enabled_row_def split: if_splits prod.splits bool.splits)
next
  case (signup U enforce newID i org name email hash now h')
  then have "enabled_row (snd (insert_human (new_human U newID name email hash)
      (d\<lparr>ac_invites := snd (spend_where (\<lambda>t. tk_ID t = i \<and> tk_Expires t > now) now (ac_invites d))\<rparr>))) h l"
    using assms(2) signup_success [OF signup(2)] by (simp add: enabled_row_def)
  from enabled_insert [OF this] show ?thesis by (simp add: enabled_row_def)
qed (use assms(2-4) in \<open>auto simp: quiet_defs complete_backup_humans enabled_row_def Let_def dest!: mint_success rotate_success accept_success
      split: prod.splits bool.splits option.splits if_splits\<close>)

lemma consume_step:
  assumes "consume_factor human now (Inl step) d = (True, d')"
  shows "\<exists>x\<in>set (ac_humans d). hu_ID x = human \<and> hu_MFA x \<and> step_newer step x"
    "ac_humans d' = map (\<lambda>x. if hu_ID x = human \<and> hu_MFA x \<and> step_newer step x then x\<lparr>hu_LastStep := Some step\<rparr> else x) (ac_humans d)"
  using assms by (auto simp: consume_factor_def Let_def list_ex_iff)

lemma totp_accept:
  assumes "CompleteMFAChallenge i human now (Inl step) d = (None, d')"
  shows "\<exists>l. enabled_row d human l \<and> (\<forall>k. l = Some k \<longrightarrow> k < step)"
    "enabled_row d' h l \<Longrightarrow> (h = human \<and> l = Some step) \<or> (enabled_row d h l \<and> (h = human \<longrightarrow> (\<exists>k. l = Some k \<and> step \<le> k)))"
proof -
  obtain cs where c: "consume_factor human now (Inl step) (d\<lparr>ac_challenges := cs\<rparr>) = (True, d')" using complete_success [OF assms] by blast
  show "\<exists>l. enabled_row d human l \<and> (\<forall>k. l = Some k \<longrightarrow> k < step)"
    using consume_step(1) [OF c] unfolding enabled_row_def step_newer_def by (auto split: option.splits)
  assume "enabled_row d' h l"
  then obtain x where x: "x \<in> set (ac_humans d)" and
    y: "hu_ID (if hu_ID x = human \<and> hu_MFA x \<and> step_newer step x then x\<lparr>hu_LastStep := Some step\<rparr> else x) = h"
      "hu_MFA (if hu_ID x = human \<and> hu_MFA x \<and> step_newer step x then x\<lparr>hu_LastStep := Some step\<rparr> else x)"
      "hu_LastStep (if hu_ID x = human \<and> hu_MFA x \<and> step_newer step x then x\<lparr>hu_LastStep := Some step\<rparr> else x) = l"
    unfolding enabled_row_def consume_step(2) [OF c] by (auto simp del: if_split)
  show "(h = human \<and> l = Some step) \<or> (enabled_row d h l \<and> (h = human \<longrightarrow> (\<exists>k. l = Some k \<and> step \<le> k)))"
  proof (cases "hu_ID x = human \<and> hu_MFA x \<and> step_newer step x")
    case True
    then show ?thesis using y by simp
  next
    case False
    then have f: "hu_ID x = h" "hu_MFA x" "hu_LastStep x = l" using y [unfolded if_not_P [OF False]] by blast+
    then have "h = human \<longrightarrow> (\<exists>k. l = Some k \<and> step \<le> k)" using False by (auto simp: step_newer_def split: option.splits)
    then show ?thesis using x f by (auto simp: enabled_row_def)
  qed
qed

definition totp_inv :: "acct_event list \<Rightarrow> acct_db \<Rightarrow> bool" where
  "totp_inv es d \<longleftrightarrow> (\<forall>h l. enabled_row d h l \<longrightarrow> (\<forall>s\<in>set (seg_steps h es). \<exists>k. l = Some k \<and> s \<le> k))
     \<and> (\<forall>xs h s ys. es = xs @ Stepped h s # ys \<longrightarrow> (\<forall>s'\<in>set (seg_steps h xs). s' < s))"

lemma splits_snoc:
  assumes "\<forall>xs h s ys. es = xs @ Stepped h s # ys \<longrightarrow> Q xs h s" and "\<And>h s. f = Stepped h s \<Longrightarrow> Q es h s"
  shows "\<forall>xs h s ys. es @ [f] = xs @ Stepped h s # ys \<longrightarrow> Q xs h s"
proof (intro allI impI)
  fix xs h s ys assume eq: "es @ [f] = xs @ Stepped h s # ys"
  show "Q xs h s"
  proof (cases ys rule: rev_cases)
    case Nil
    then show ?thesis using eq assms(2) by simp
  next
    case (snoc zs z)
    then show ?thesis using eq assms(1) by simp
  qed
qed

lemma totp_inv_step:
  assumes "totp_inv es d" and "acct_step d fs d'"
  shows "totp_inv (es @ fs) d'"
proof -
  consider x s where "fs = [Stepped x s]" | x where "fs = [Activated x]" | "\<And>x s. fs \<noteq> [Stepped x s]" "\<And>x. fs \<noteq> [Activated x]" by blast
  then show ?thesis
  proof cases
    case 1
    from assms(2) obtain i now where c: "CompleteMFAChallenge i x now (Inl s) d = (None, d')" unfolding 1 by (cases rule: acct_step.cases) auto
    obtain l where l: "enabled_row d x l" "\<forall>k. l = Some k \<longrightarrow> k < s" using totp_accept(1) [OF c] by blast
    have lt: "s' < s" if mem: "s' \<in> set (seg_steps x es)" for s'
    proof -
      obtain k where "l = Some k" "s' \<le> k" using assms(1) l(1) mem unfolding totp_inv_def by blast
      then show ?thesis using l(2) by simp
    qed
    have "\<exists>k. m = Some k \<and> r \<le> k" if "enabled_row d' h m" "r \<in> set (seg_steps h (es @ [Stepped x s]))" for h m r
      using totp_accept(2) [OF c that(1)] that(2) assms(1) lt by (fastforce simp: totp_inv_def split: if_splits)
    moreover have "\<forall>xs h r ys. es @ [Stepped x s] = xs @ Stepped h r # ys \<longrightarrow> (\<forall>s'\<in>set (seg_steps h xs). s' < r)"
      by (rule splits_snoc) (use assms(1) lt in \<open>auto simp: totp_inv_def\<close>)
    ultimately show ?thesis unfolding totp_inv_def 1 by blast
  next
    case 2
    from assms(2) obtain pending step where a: "ActivateMFA x pending step d = (None, d')" unfolding 2 by (cases rule: acct_step.cases) auto
    have "enabled_row d h m" if "enabled_row d' h m" "h \<noteq> x" for h m
      using activate_success [OF a] that by (auto simp: enabled_row_def split: if_splits)
    moreover have "\<forall>xs h r ys. es @ [Activated x] = xs @ Stepped h r # ys \<longrightarrow> (\<forall>s'\<in>set (seg_steps h xs). s' < r)"
      by (rule splits_snoc) (use assms(1) in \<open>auto simp: totp_inv_def\<close>)
    moreover have "seg_steps x (es @ [Activated x]) = []" "h \<noteq> x \<Longrightarrow> seg_steps h (es @ [Activated x]) = seg_steps h es" for h by simp_all
    ultimately show ?thesis using assms(1) unfolding totp_inv_def 2 by (metis empty_iff list.set(1))
  next
    case 3
    have fs: "fs = [] \<or> (\<exists>x i. fs = [Minted x i]) \<or> (\<exists>x i j. fs = [Rotated x i j]) \<or> (\<exists>i. fs = [Accepted i])"
      using assms(2) 3 by (cases rule: acct_step.cases) auto
    then have seg: "seg_steps h (es @ fs) = seg_steps h es" for h by auto
    have "\<forall>xs h r ys. es @ fs = xs @ Stepped h r # ys \<longrightarrow> (\<forall>s'\<in>set (seg_steps h xs). s' < r)"
    proof (cases "fs = []")
      case True
      then show ?thesis using assms(1) by (simp add: totp_inv_def)
    next
      case False
      then obtain f where f: "fs = [f]" "\<And>h s. f \<noteq> Stepped h s" using fs by blast
      show ?thesis unfolding f(1) by (rule splits_snoc) (use assms(1) f(2) in \<open>auto simp: totp_inv_def\<close>)
    qed
    then show ?thesis using assms(1) enabled_step [OF assms(2) _ 3] unfolding totp_inv_def seg by blast
  qed
qed

text \<open>
  (C30) A TOTP code works once. In any interleaving of requests, each step that completes a sign-in is newer than every step
  accepted since the secret was activated, so a code that was used, or that is older than one used, is refused even
  when requests race.
\<close>

theorem totp_step_never_reused:
  assumes "acct_init d0" and "acct_run d0 (xs @ Stepped h s # ys) d"
  shows "\<forall>s'\<in>set (seg_steps h xs). s' < s"
proof -
  have "totp_inv es d" if "acct_run d0 es d" for es d
    using that assms(1)
  proof (induction rule: acct_run.induct)
    case (start d)
    then show ?case by (simp add: totp_inv_def acct_init_def enabled_row_def)
  next
    case (more d es d1 fs d2)
    then show ?case using totp_inv_step by blast
  qed
  then show ?thesis using assms(2) unfolding totp_inv_def by blast
qed

section \<open>Password reset\<close>

lemma init_keys: "acct_init d \<Longrightarrow> keys_ok (ac_refresh d) \<and> keys_ok (ac_resets d) \<and> keys_ok (ac_invites d)"
  by (simp add: acct_init_def keys_ok_def)

lemma spent_rows:
  assumes "t \<in> set ts"
  shows "\<exists>u\<in>set (snd (spend_where w now ts)). tk_ID u = tk_ID t \<and> (w t \<longrightarrow> tk_Spent u \<noteq> None)"
  using assms by (intro bexI [of _ "if w t \<and> tk_Spent t = None then spend now t else t"]) (auto simp: spend_where_def spend_def)

lemma reset_success:
  assumes "db_ResetPassword i h hash now d = (None, d1)"
  shows "fst (spend_where (\<lambda>t. tk_ID t = i) now (ac_resets d))"
    "ac_resets d1 = snd (spend_where (\<lambda>t. tk_ID t = i) now (ac_resets d))"
    "ac_refresh d1 = snd (spend_where (\<lambda>t. tk_Human t = h) now (ac_refresh d))"
  using assms by (auto simp: db_ResetPassword_def RevokeAllRefreshTokensForHuman_def split: prod.splits bool.splits)

text \<open>
  A password reset ends every session. After a successful reset, whatever requests follow in whatever order, no
  refresh token the account had can be exchanged again, and the reset token cannot be used again.
\<close>

theorem reset_ends_sessions:
  assumes "acct_init d0" and "acct_run d0 es d" and "db_ResetPassword i h hash now d = (None, d1)" and "acct_run d1 fs d2"
    and "t \<in> set (ac_refresh d)" and "tk_Human t = h"
  shows "fst (RotateRefreshToken (tk_ID t) j k hash' now' expires d2) = Some AErrRotationLost
    \<and> fst (db_ResetPassword i k hash' now' d2) = Some AErrConsumed"
proof -
  have k: "keys_ok (ac_refresh d)" "keys_ok (ac_resets d)" using refresh.run_keys resets.run_keys init_keys assms(1,2) by blast+
  note s = reset_success [OF assms(3)]
  have k1: "keys_ok (ac_refresh d1)" "keys_ok (ac_resets d1)"
    unfolding s(2,3) using k tok_moves_keys tok_moves_spend by blast+
  obtain u where u: "u \<in> set (ac_refresh d1)" "tk_ID u = tk_ID t" "tk_Spent u \<noteq> None"
    unfolding s(3) using spent_rows [OF assms(5), of "\<lambda>t. tk_Human t = h" now] assms(6) by auto
  obtain r where "r \<in> set (ac_resets d)" "tk_ID r = i" using s(1) by (auto simp: spend_where_def list_ex_iff)
  then obtain v where v: "v \<in> set (ac_resets d1)" "tk_ID v = i" "tk_Spent v \<noteq> None"
    unfolding s(2) using spent_rows [of r "ac_resets d" "\<lambda>t. tk_ID t = i" now] by auto
  have "\<not> fst (spend_where (\<lambda>x. tk_ID x = tk_ID t) now' (ac_refresh d2))"
    using refresh.spent_never_again [OF assms(4) u(1,3) k1(1), of "\<lambda>_. True"] u(2) by simp
  moreover have "\<not> fst (spend_where (\<lambda>x. tk_ID x = i) now' (ac_resets d2))"
    using resets.spent_never_again [OF assms(4) v(1,3) k1(2), of "\<lambda>_. True"] v(2) by simp
  ultimately show ?thesis
    by (auto simp: RotateRefreshToken_def RevokeRefreshToken_def db_ResetPassword_def split: prod.splits bool.splits)
qed

section \<open>Invitations\<close>

definition joined_by :: "acct_event list \<Rightarrow> string list" where
  "joined_by es = List.map_filter (\<lambda>e. case e of Accepted i \<Rightarrow> Some i | _ \<Rightarrow> None) es"

lemma accepted_simps [simp]: "joined_by (es @ fs) = joined_by es @ joined_by fs" "joined_by [] = []" "joined_by [Accepted i] = [i]" "joined_by [Minted h i] = []"
  "joined_by [Rotated h i j] = []" "joined_by [Stepped h s] = []" "joined_by [Activated h] = []"
  by (simp_all add: joined_by_def map_filter_def)

definition invite_inv :: "acct_event list \<Rightarrow> acct_db \<Rightarrow> bool" where
  "invite_inv es d \<longleftrightarrow> keys_ok (ac_invites d) \<and> distinct (joined_by es) \<and>
     (\<forall>i\<in>set (joined_by es). \<exists>t\<in>set (ac_invites d). tk_ID t = i \<and> tk_Spent t \<noteq> None)"

lemma accepted_step:
  assumes "acct_step d fs d'" and "fs = [Accepted i]"
  shows "\<exists>t now. t \<in> set (ac_invites d) \<and> tk_ID t = i \<and> tk_Spent t = None \<and>
    ac_invites d' = snd (spend_where (\<lambda>t. tk_ID t = i \<and> tk_Expires t > now) now (ac_invites d)) \<and> tk_Expires t > now"
  using assms
proof (cases rule: acct_step.cases)
  case (accept enforce j org human now)
  then show ?thesis using assms(2) accept_success [OF accept(2)] by (fastforce simp: spend_where_def list_ex_iff)
next
  case (signup U enforce newID j org name email hash now h)
  then show ?thesis using assms(2) signup_success [OF signup(2)] by (fastforce simp: spend_where_def list_ex_iff)
qed auto

lemma invite_inv_step:
  assumes "invite_inv es d" and "acct_step d fs d'"
  shows "invite_inv (es @ fs) d'"
proof -
  note mv = invites.step_moves [OF assms(2)]
  have old: "\<forall>i\<in>set (joined_by es). \<exists>t\<in>set (ac_invites d'). tk_ID t = i \<and> tk_Spent t \<noteq> None"
    using assms(1) spent_kept [OF mv] by (simp add: invite_inv_def)
  have k: "keys_ok (ac_invites d')" using assms(1) tok_moves_keys [OF mv] by (simp add: invite_inv_def)
  show ?thesis
  proof (cases "\<exists>i. fs = [Accepted i]")
    case True
    then obtain i where i: "fs = [Accepted i]" by blast
    obtain t now where t: "t \<in> set (ac_invites d)" "tk_ID t = i" "tk_Spent t = None" "tk_Expires t > now"
      "ac_invites d' = snd (spend_where (\<lambda>t. tk_ID t = i \<and> tk_Expires t > now) now (ac_invites d))"
      using accepted_step [OF assms(2) i] by blast
    have "inj_on tk_ID (set (ac_invites d))" using assms(1) by (simp add: invite_inv_def keys_ok_def distinct_map)
    then have "i \<notin> set (joined_by es)" using assms(1) t(1-3) by (fastforce simp: invite_inv_def inj_on_def)
    moreover have "\<exists>u\<in>set (ac_invites d'). tk_ID u = i \<and> tk_Spent u \<noteq> None"
      unfolding t(5) using spent_rows [OF t(1), of "\<lambda>t. tk_ID t = i \<and> tk_Expires t > now" now] t(2,4) by auto
    ultimately show ?thesis using assms(1) old k by (simp add: invite_inv_def i)
  next
    case False
    have "joined_by fs = []" using assms(2) False by (cases rule: acct_step.cases) auto
    then show ?thesis using assms(1) old k by (simp add: invite_inv_def)
  qed
qed

lemma members_add: "length (tenant_members org (ac_bill (add_member org h r d))) \<le> Suc (length (tenant_members org (ac_bill d)))"
  by (simp add: add_member_def tenant_members_def)

lemma cap_room:
  assumes "lockMemberCap True org h b = None"
  shows "\<exists>t. find_tenant b org = Some t \<and> (h \<in> set (tenant_members org b) \<or> Within (int (length (tenant_members org b))) (pl_Members (PlanFor (tn_Plan t))))"
  using assms by (auto simp: lockMemberCap_def limit_check_def enforcedPlan_def Within_def split: option.splits if_splits sum.splits)

text \<open>
  An invitation admits one member and no more than the plan allows. No invitation is accepted twice, however many
  requests present it, and an acceptance that adds a member leaves the organization within the member cap of its
  plan when plans are enforced.
\<close>

theorem invitation_admits_one:
  assumes "acct_init d0" and "acct_run d0 es d"
  shows "distinct (joined_by es) \<and>
    (AcceptOrgInvitationForExistingHuman True i org h now d = (None, d') \<longrightarrow> h \<notin> set (tenant_members org (ac_bill d)) \<longrightarrow>
       (\<exists>t. find_tenant (ac_bill d) org = Some t \<and>
          (pl_Members (PlanFor (tn_Plan t)) = Unlimited \<or> int (length (tenant_members org (ac_bill d'))) \<le> pl_Members (PlanFor (tn_Plan t)))))"
proof -
  have "invite_inv es d" using assms(2,1)
  proof (induction rule: acct_run.induct)
    case (start d)
    then show ?case by (simp add: invite_inv_def acct_init_def keys_ok_def)
  next
    case (more d es d1 fs d2)
    then show ?case using invite_inv_step by blast
  qed
  then have "distinct (joined_by es)" by (simp add: invite_inv_def)
  moreover have "\<exists>t. find_tenant (ac_bill d) org = Some t \<and>
      (pl_Members (PlanFor (tn_Plan t)) = Unlimited \<or> int (length (tenant_members org (ac_bill d'))) \<le> pl_Members (PlanFor (tn_Plan t)))"
    if acc: "AcceptOrgInvitationForExistingHuman True i org h now d = (None, d')" and new: "h \<notin> set (tenant_members org (ac_bill d))"
  proof -
    note a = accept_success [OF acc]
    obtain t where t: "find_tenant (ac_bill d) org = Some t" "Within (int (length (tenant_members org (ac_bill d)))) (pl_Members (PlanFor (tn_Plan t)))"
      using cap_room [of org h "ac_bill d"] a new by auto
    have "length (tenant_members org (ac_bill d')) \<le> Suc (length (tenant_members org (ac_bill d)))"
      using a members_add [of org h "''member''" "d\<lparr>ac_invites := snd (spend_where (\<lambda>t. tk_ID t = i \<and> tk_Expires t > now) now (ac_invites d))\<rparr>"] by simp
    then show ?thesis using t by (auto simp: Within_def)
  qed
  ultimately show ?thesis by blast
qed

section \<open>Challenges\<close>

definition challenge_inv :: "acct_db \<Rightarrow> bool" where
  "challenge_inv d \<longleftrightarrow> keys_ok (ac_challenges d) \<and> (\<forall>c\<in>set (ac_challenges d). ch_Failed c \<ge> MFAChallengeMaxAttempts \<longrightarrow> tk_Spent c \<noteq> None)"

definition sound_edit :: "(challenge \<Rightarrow> challenge) \<Rightarrow> bool" where
  "sound_edit f \<longleftrightarrow> (\<forall>c. (ch_Failed c \<ge> MFAChallengeMaxAttempts \<longrightarrow> tk_Spent c \<noteq> None) \<longrightarrow>
     ch_Failed (f c) \<ge> MFAChallengeMaxAttempts \<longrightarrow> tk_Spent (f c) \<noteq> None)"

lemma challenge_inv_edit:
  assumes "challenge_inv d" and "keeps f" and "sound_edit f" and "ac_challenges d' = map f (ac_challenges d)"
  shows "challenge_inv d'"
proof -
  have "keys_ok (ac_challenges d')" using assms(1) tok_moves_keys [OF tok_moves.edit [OF tok_moves.stay assms(2)]] unfolding assms(4) by (simp add: challenge_inv_def)
  then show ?thesis using assms(1,3) unfolding challenge_inv_def assms(4) by (auto simp: sound_edit_def)
qed

lemma keeps_fail: "keeps (\<lambda>c. if tk_ID c = i then fail_challenge n now c else c)"
  by (auto simp: keeps_def fail_challenge_def)

lemma sound_fail: "sound_edit (\<lambda>c. if tk_ID c = i then fail_challenge MFAChallengeMaxAttempts now c else c)"
  by (simp add: sound_edit_def fail_challenge_def)

lemma sound_spend: "sound_edit (\<lambda>c. if w c \<and> tk_Spent c = None then spend now c else c)"
  by (simp add: sound_edit_def spend_def)

lemma complete_challenges:
  "\<exists>w. ac_challenges (snd (CompleteMFAChallenge i h now f d)) = ac_challenges d \<or>
     ac_challenges (snd (CompleteMFAChallenge i h now f d)) = map (\<lambda>c. if w c \<and> tk_Spent c = None then spend now c else c) (ac_challenges d)"
proof (cases "fst (CompleteMFAChallenge i h now f d)")
  case None
  then obtain cs where s: "spend_where (\<lambda>c. tk_ID c = i \<and> tk_Human c = h \<and> tk_Expires c > now) now (ac_challenges d) = (True, cs)"
    and c: "consume_factor h now f (d\<lparr>ac_challenges := cs\<rparr>) = (True, snd (CompleteMFAChallenge i h now f d))"
    using complete_success [of i h now f d "snd (CompleteMFAChallenge i h now f d)"] by (auto simp: prod_eq_iff)
  have "ac_challenges (snd (CompleteMFAChallenge i h now f d)) = cs"
    using consume_factor_tables(5) [of h now f "d\<lparr>ac_challenges := cs\<rparr>"] c by simp
  then have "ac_challenges (snd (CompleteMFAChallenge i h now f d)) = map (\<lambda>c. if (tk_ID c = i \<and> tk_Human c = h \<and> tk_Expires c > now) \<and> tk_Spent c = None then spend now c else c) (ac_challenges d)"
    using s unfolding spend_where_def by simp
  then show ?thesis by (intro exI disjI2)
next
  case (Some e)
  then show ?thesis using complete_db [of i h now f d] by simp
qed

lemma challenge_inv_same: "challenge_inv d \<Longrightarrow> ac_challenges d' = ac_challenges d \<Longrightarrow> challenge_inv d'"
  by (simp add: challenge_inv_def)

lemma challenge_inv_complete: "challenge_inv d \<Longrightarrow> challenge_inv (snd (CompleteMFAChallenge i h now f d))"
proof -
  assume a: "challenge_inv d"
  obtain w where "ac_challenges (snd (CompleteMFAChallenge i h now f d)) = ac_challenges d \<or>
     ac_challenges (snd (CompleteMFAChallenge i h now f d)) = map (\<lambda>c. if w c \<and> tk_Spent c = None then spend now c else c) (ac_challenges d)"
    using complete_challenges by blast
  then show ?thesis by (elim disjE) (rule challenge_inv_same [OF a], assumption, rule challenge_inv_edit [OF a keeps_spend sound_spend], assumption)
qed

lemma challenge_inv_step:
  assumes "acct_step d fs d'" and "challenge_inv d"
  shows "challenge_inv d'"
  using assms(1)
proof (cases rule: acct_step.cases)
  case (disable human)
  then show ?thesis using assms(2) by (auto simp: db_DisableMFA_def challenge_inv_def keys_ok_def distinct_map_filter)
next
  case (challenge i human hash expires)
  have "ac_challenges d' = ac_challenges d \<or> (\<exists>t. \<not> token_clash t (ac_challenges d) \<and> ac_challenges d' = ac_challenges d @ [t] \<and> ch_Failed t = 0)"
    unfolding challenge by (auto simp: CreateMFAChallenge_def Let_def)
  then show ?thesis
  proof
    assume "ac_challenges d' = ac_challenges d"
    then show ?thesis using challenge_inv_same assms(2) by blast
  next
    assume "\<exists>t. \<not> token_clash t (ac_challenges d) \<and> ac_challenges d' = ac_challenges d @ [t] \<and> ch_Failed t = 0"
    then obtain t where t: "\<not> token_clash t (ac_challenges d)" "ac_challenges d' = ac_challenges d @ [t]" "ch_Failed t = 0" by blast
    have "keys_ok (ac_challenges d')" using assms(2) tok_moves_keys [OF tok_moves_add [OF t(1)]] unfolding t(2) by (simp add: challenge_inv_def)
    then show ?thesis using assms(2) t(2,3) by (auto simp: challenge_inv_def MFAChallengeMaxAttempts_def)
  qed
next
  case (guess i now)
  show ?thesis unfolding guess by (rule challenge_inv_edit [OF assms(2) keeps_fail [of i _ now] sound_fail]) (simp add: RecordMFAChallengeFailure_def)
next
  case (totp i human now step)
  show ?thesis using challenge_inv_complete [OF assms(2)] complete_None [OF totp(2)] by metis
next
  case (backup i human now hash)
  show ?thesis unfolding backup using challenge_inv_complete [OF assms(2)] .
qed (auto simp: quiet_defs Let_def dest!: step_success intro: challenge_inv_same [OF assms(2)] split: prod.split bool.split option.split)

lemma challenge_inv_run: "acct_run d es d' \<Longrightarrow> challenge_inv d \<Longrightarrow> challenge_inv d'"
  by (induction rule: acct_run.induct) (auto intro: challenge_inv_step)

lemma challenge_inv_init: "acct_init d \<Longrightarrow> challenge_inv d"
  by (simp add: acct_init_def challenge_inv_def keys_ok_def)

section \<open>An example\<close>

text \<open>Two accounts; the first signs in, rotates, enrols a second factor and uses it twice, invites the second account, and resets its password.\<close>

definition acct_demo0 :: acct_db where
  "acct_demo0 = \<lparr>ac_humans = [], ac_refresh = [], ac_resets = [], ac_challenges = [], ac_backup = [], ac_verify = [], ac_invites = [],
     ac_states = [], ac_identities = [], ac_bill = \<lparr>bd_tenants = [fresh_tenant ''o'' ''Org''], bd_attempts = [], bd_payments = [], bd_members = [], bd_humans = Map.empty\<rparr>\<rparr>"

definition acct_demo1 :: acct_db where
  "acct_demo1 = snd (CreateHuman plain_unicode ''g'' ''Gus'' ''g@b'' ''p'' (snd (CreateHuman plain_unicode ''h'' ''Hal'' ''h@b'' ''p'' acct_demo0)))"

definition acct_demo2 :: acct_db where
  "acct_demo2 = snd (CreateRefreshToken ''t1'' ''h'' ''x1'' 90 acct_demo1)"

definition acct_demo3 :: acct_db where
  "acct_demo3 = snd (RotateRefreshToken ''t1'' ''t2'' ''h'' ''x2'' 5 90 acct_demo2)"

definition acct_demo4 :: acct_db where
  "acct_demo4 = snd (ActivateMFA ''h'' ''c'' 6 (snd (SetPendingMFA ''h'' (''c'', ''n'') [(''b1'', ''y1'')] acct_demo3)))"

definition acct_demo5 :: acct_db where
  "acct_demo5 = snd (CompleteMFAChallenge ''k1'' ''h'' 10 (Inl 7) (snd (CreateMFAChallenge ''k1'' ''h'' ''z1'' 50 acct_demo4)))"

definition acct_demo6 :: acct_db where
  "acct_demo6 = snd (CompleteMFAChallenge ''k2'' ''h'' 20 (Inl 8) (snd (CreateMFAChallenge ''k2'' ''h'' ''z2'' 50 acct_demo5)))"

definition acct_demo7 :: acct_db where
  "acct_demo7 = snd (CreatePasswordResetToken ''r1'' ''h'' ''w1'' 70 (snd (CreateOrgInvitation plain_unicode ''i1'' ''o'' ''h'' ''g@b'' ''v1'' 80 30 acct_demo6)))"

definition acct_demo8 :: acct_db where
  "acct_demo8 = snd (AcceptOrgInvitationForExistingHuman True ''i1'' ''o'' ''g'' 40 acct_demo7)"

definition acct_demo9 :: acct_db where
  "acct_demo9 = snd (db_ResetPassword ''r1'' ''h'' ''q'' 60 acct_demo8)"

text \<open>The states on the way in explicit form, for evaluation.\<close>

definition demo_human :: "string \<Rightarrow> string \<Rightarrow> string \<Rightarrow> string \<Rightarrow> human" where
  "demo_human i n e x = \<lparr>hu_ID = i, hu_Name = n, hu_Normalized = e, hu_Email = x, hu_Password = ''p'', hu_Role = ''user'', hu_LastLogin = None,
     hu_MFA = False, hu_Secret = None, hu_Pending = None, hu_LastStep = None, hu_VerifiedAt = None\<rparr>"

lemma demo_schema: "schema_name ''Hal''" "schema_name ''Gus''" "schema_email ''h@b''" "schema_email ''g@b''"
  "normalizeEmail plain_unicode ''h@b'' = ''h@b''" "normalizeEmail plain_unicode ''g@b'' = ''g@b''"
  by (simp_all add: schema_name_def schema_email_def normalizeEmail_def ToLower_def TrimSpace_printable concat_runes_ascii lower_byte_def is_upper_def ascii_def ascii_space_def)

lemma demo_cap: "Within 0 (pl_Members (PlanFor ''free''))"
  by code_simp

lemmas acct_eval = acct_demo0_def demo_human_def CreateHuman_def insert_human_def new_human_def RotateRefreshToken_def RevokeRefreshToken_def CreateRefreshToken_def
  GetHuman_def spend_where_def spend_def token_clash_def new_token_def ActivateMFA_def SetPendingMFA_def update_humans_def CompleteMFAChallenge_def CreateMFAChallenge_def
  consume_factor_def step_newer_def CreateOrgInvitation_def CreatePasswordResetToken_def consume_invite_def AcceptOrgInvitationForExistingHuman_def add_member_def
  tenant_members_def find_tenant_def fresh_tenant_def RevokeAllRefreshTokensForHuman_def db_ResetPassword_def lockMemberCap_def limit_check_def enforcedPlan_def Let_def

lemma acct_demo1_code:
  "acct_demo1 = acct_demo0\<lparr>ac_humans := [demo_human ''h'' ''Hal'' ''h@b'' ''h@b'', demo_human ''g'' ''Gus'' ''g@b'' ''g@b'']\<rparr>"
  by (simp add: acct_demo1_def acct_eval demo_schema)

lemma acct_demo3_code:
  "acct_demo3 = acct_demo1\<lparr>ac_refresh := [spend 5 (new_token ''t1'' ''h'' ''x1'' 90), new_token ''t2'' ''h'' ''x2'' 90]\<rparr>"
  by (simp add: acct_demo3_def acct_demo2_def acct_demo1_code acct_eval)

lemma acct_demo4_code:
  "acct_demo4 = acct_demo3\<lparr>ac_humans := [(demo_human ''h'' ''Hal'' ''h@b'' ''h@b'')\<lparr>hu_MFA := True, hu_Secret := Some (''c'', ''n''), hu_LastStep := Some 6\<rparr>,
     demo_human ''g'' ''Gus'' ''g@b'' ''g@b''], ac_backup := [new_token ''b1'' ''h'' ''y1'' 0]\<rparr>"
  by (simp add: acct_demo4_def acct_demo3_code acct_demo1_code acct_eval)

lemma acct_demo6_code:
  "acct_demo6 = acct_demo4\<lparr>ac_humans := [(demo_human ''h'' ''Hal'' ''h@b'' ''h@b'')\<lparr>hu_MFA := True, hu_Secret := Some (''c'', ''n''), hu_LastStep := Some 8\<rparr>,
     demo_human ''g'' ''Gus'' ''g@b'' ''g@b''], ac_challenges := [spend 10 \<lparr>tk_ID = ''k1'', tk_Human = ''h'', tk_Hash = ''z1'', tk_Expires = 50, tk_Spent = None, ch_Failed = 0\<rparr>,
     spend 20 \<lparr>tk_ID = ''k2'', tk_Human = ''h'', tk_Hash = ''z2'', tk_Expires = 50, tk_Spent = None, ch_Failed = 0\<rparr>]\<rparr>"
  by (simp add: acct_demo6_def acct_demo5_def acct_demo4_code acct_demo3_code acct_demo1_code acct_eval)

lemmas acct_demo_states = acct_demo6_code acct_demo4_code acct_demo3_code acct_demo1_code

lemma run_two: "acct_run d es d1 \<Longrightarrow> acct_step d1 [] d2 \<Longrightarrow> acct_run d es d2"
  using acct_run.more by fastforce

lemma fst_None: "fst p = None \<Longrightarrow> p = (None, snd p)"
  by (cases p) simp

lemma acct_demo_init: "acct_init acct_demo0"
  by (simp add: acct_init_def acct_demo0_def)

lemma acct_demo_run1: "acct_run acct_demo0 [] acct_demo1"
  unfolding acct_demo1_def by (rule run_two [OF run_two [OF acct_run.start acct_step.human] acct_step.human])

lemma acct_demo_run3: "acct_run acct_demo0 [Minted ''h'' ''t1'', Rotated ''h'' ''t1'' ''t2''] acct_demo3"
proof -
  have m: "CreateRefreshToken ''t1'' ''h'' ''x1'' 90 acct_demo1 = (None, acct_demo2)"
    unfolding acct_demo2_def by (rule fst_None) (simp add: acct_demo1_code acct_eval)
  have "RotateRefreshToken ''t1'' ''t2'' ''h'' ''x2'' 5 90 acct_demo2 = (None, acct_demo3)"
    unfolding acct_demo3_def by (rule fst_None) (simp add: acct_demo2_def acct_demo1_code acct_eval)
  moreover have "\<forall>t\<in>set (ac_refresh acct_demo2). tk_ID t = ''t1'' \<longrightarrow> tk_Human t = ''h''" by (simp add: acct_demo2_def acct_demo1_code acct_eval)
  ultimately show ?thesis using acct_run.more [OF acct_run.more [OF acct_demo_run1 acct_step.mint [OF m]] acct_step.rotate] by simp
qed

lemma acct_demo_run6:
  "acct_run acct_demo0 ([Minted ''h'' ''t1'', Rotated ''h'' ''t1'' ''t2'', Activated ''h'', Stepped ''h'' 7] @ Stepped ''h'' 8 # []) acct_demo6"
proof -
  have a: "ActivateMFA ''h'' ''c'' 6 (snd (SetPendingMFA ''h'' (''c'', ''n'') [(''b1'', ''y1'')] acct_demo3)) = (None, acct_demo4)"
    unfolding acct_demo4_def by (rule fst_None) (simp add: acct_demo_states acct_eval)
  have b: "CompleteMFAChallenge ''k1'' ''h'' 10 (Inl 7) (snd (CreateMFAChallenge ''k1'' ''h'' ''z1'' 50 acct_demo4)) = (None, acct_demo5)"
    unfolding acct_demo5_def by (rule fst_None) (simp add: acct_demo_states acct_eval)
  have c: "CompleteMFAChallenge ''k2'' ''h'' 20 (Inl 8) (snd (CreateMFAChallenge ''k2'' ''h'' ''z2'' 50 acct_demo5)) = (None, acct_demo6)"
    unfolding acct_demo6_def by (rule fst_None) (simp add: acct_demo5_def acct_demo_states acct_eval)
  note r4 = acct_run.more [OF run_two [OF acct_demo_run3 acct_step.enroll] acct_step.activate [OF a]]
  note r5 = acct_run.more [OF run_two [OF r4 acct_step.challenge] acct_step.totp [OF b]]
  show ?thesis using acct_run.more [OF run_two [OF r5 acct_step.challenge] acct_step.totp [OF c]] by simp
qed

lemma acct_demo_accept: "AcceptOrgInvitationForExistingHuman True ''i1'' ''o'' ''g'' 40 acct_demo7 = (None, acct_demo8)"
  unfolding acct_demo8_def acct_demo7_def by (rule fst_None) (simp add: acct_demo_states acct_eval demo_schema demo_cap)

lemma acct_demo_reset: "db_ResetPassword ''r1'' ''h'' ''q'' 60 acct_demo8 = (None, acct_demo9)"
  unfolding acct_demo9_def by (rule fst_None) (simp add: acct_demo8_def acct_demo7_def acct_demo_states acct_eval demo_schema demo_cap)

lemma acct_demo_run7: "\<exists>es. acct_run acct_demo0 es acct_demo7"
  unfolding acct_demo7_def using run_two [OF run_two [OF acct_demo_run6 acct_step.invite] acct_step.forgot] by blast

lemma acct_demo_run8: "\<exists>es. acct_run acct_demo0 es acct_demo8"
  using acct_demo_run7 acct_run.more [OF _ acct_step.accept [OF acct_demo_accept]] by blast

theorem refresh_token_single_use_witness:
  "acct_run acct_demo0 [Minted ''h'' ''t1'', Rotated ''h'' ''t1'' ''t2''] acct_demo3 \<and>
   length (filter (active ''h'') (ac_refresh acct_demo3)) \<le> mints ''h'' [Minted ''h'' ''t1'', Rotated ''h'' ''t1'' ''t2''] \<and>
   distinct (rotated_from [Minted ''h'' ''t1'', Rotated ''h'' ''t1'' ''t2''])"
  using refresh_token_single_use [OF acct_demo_init acct_demo_run3, of "''h''"] acct_demo_run3 by simp

theorem totp_step_never_reused_witness:
  "list_all (\<lambda>s'. s' < 8) (seg_steps ''h'' [Minted ''h'' ''t1'', Rotated ''h'' ''t1'' ''t2'', Activated ''h'', Stepped ''h'' 7])"
  using totp_step_never_reused [OF acct_demo_init acct_demo_run6] by (simp add: list_all_iff)

theorem reset_ends_sessions_witness:
  "fst (RotateRefreshToken ''t2'' ''t3'' ''h'' ''x3'' 61 90 acct_demo9) = Some AErrRotationLost \<and> fst (db_ResetPassword ''r1'' ''h'' ''x3'' 61 acct_demo9) = Some AErrConsumed"
proof -
  obtain es where r: "acct_run acct_demo0 es acct_demo8" using acct_demo_run8 by blast
  have "list_ex (\<lambda>t. tk_ID t = ''t2'' \<and> tk_Human t = ''h'') (ac_refresh acct_demo8)" by (simp add: acct_demo8_def acct_demo7_def acct_demo_states acct_eval demo_schema demo_cap)
  then obtain t where t: "t \<in> set (ac_refresh acct_demo8)" "tk_ID t = ''t2''" "tk_Human t = ''h''" by (auto simp: list_ex_iff)
  show ?thesis using reset_ends_sessions [OF acct_demo_init r acct_demo_reset acct_run.start t(1,3), of "''t3''" "''h''" "''x3''" 61 90] t(2) by simp
qed

theorem invitation_admits_one_witness:
  "\<exists>t. find_tenant (ac_bill acct_demo7) ''o'' = Some t \<and> (pl_Members (PlanFor (tn_Plan t)) = Unlimited \<or>
     int (length (tenant_members ''o'' (ac_bill acct_demo8))) \<le> pl_Members (PlanFor (tn_Plan t)))"
proof -
  obtain es where r: "acct_run acct_demo0 es acct_demo7" using acct_demo_run7 by blast
  have "''g'' \<notin> set (tenant_members ''o'' (ac_bill acct_demo7))" by (simp add: acct_demo7_def acct_demo_states acct_eval demo_schema)
  then show ?thesis using invitation_admits_one [OF acct_demo_init r, of "''i1''" "''o''" "''g''" 40 acct_demo8] acct_demo_accept by blast
qed

end
