(* ===== verification/Auth_Tokens.thy ===== *)
theory Auth_Tokens
  imports Base64 Net_IP
begin

text \<open>
  Access tokens and one-time codes (\<^verbatim>\<open>internal/humanauth/jwt.go\<close>, \<^verbatim>\<open>totp.go\<close>). HMAC-SHA1, HMAC-SHA256 and the
  JSON form of the claims are parameters; the encoding, the order of the checks, the 32-bit arithmetic of RFC 4226 and the
  window of RFC 6238 are those of the code. The theorems: a code is the six digits RFC 4226 prescribes and is accepted
  within one step of the clock only; a token is accepted exactly when its signature is the MAC of its own text, and a
  signed token gives its claims back until it expires.
\<close>

unbundle bit_operations_syntax

definition Unix :: "gotime \<Rightarrow> int" where
  "Unix t = t div 1000000000"

section \<open>One-time codes\<close>

definition totpPeriod :: int where "totpPeriod = 30"

definition totpDigits :: nat where "totpDigits = 6"

definition totpSkew :: int where "totpSkew = 1"

definition be64 :: "64 word \<Rightarrow> string" where
  "be64 w = map (\<lambda>i. char_of (unat (drop_bit (8 * i) w AND 255))) (rev [0..<8])"

definition be32 :: "string \<Rightarrow> 32 word" where
  "be32 bs = foldl (\<lambda>a b. a * 256 + of_nat (byte b)) 0 bs"

primrec mod_loop :: "nat \<Rightarrow> 32 word" where
  "mod_loop 0 = 1"
| "mod_loop (Suc n) = mod_loop n * 10"

definition zero_pad :: "nat \<Rightarrow> string \<Rightarrow> string" where
  "zero_pad n s = replicate (n - length s) (CHR ''0'') @ s"

text \<open>A MAC too short for the slice is a panic: \<open>None\<close>.\<close>

definition hotp :: "(string \<Rightarrow> string \<Rightarrow> string) \<Rightarrow> string \<Rightarrow> 64 word \<Rightarrow> nat \<Rightarrow> string option" where
  "hotp hmac key counter digits =
     (let mac = hmac key (be64 counter)
      in if mac = [] then None
         else let off = unat (of_nat (byte (last mac)) AND (0x0f :: 8 word))
              in if length mac < off + 4 then None
                 else let code = be32 (take 4 (drop off mac)) AND 0x7fffffff
                      in Some (zero_pad digits (nat_dec (unat (code mod mod_loop digits)))))"

definition totpStep :: "gotime \<Rightarrow> int" where
  "totpStep t = (if Unix t \<ge> 0 then Unix t div totpPeriod else - (- Unix t div totpPeriod))"

definition verifyTOTP :: "(string \<Rightarrow> string \<Rightarrow> string) \<Rightarrow> string \<Rightarrow> string \<Rightarrow> gotime \<Rightarrow> int option" where
  "verifyTOTP hmac key code now =
     (if length code \<noteq> totpDigits then None
      else find (\<lambda>s. 0 \<le> s \<and> hotp hmac key (word_of_int s) totpDigits = Some code) (map (\<lambda>d. totpStep now + d) [- totpSkew .. totpSkew]))"

section \<open>Access tokens\<close>

definition url_char :: "char \<Rightarrow> char" where
  "url_char c = (if c = CHR ''+'' then CHR ''-'' else if c = CHR ''/'' then CHR ''_'' else c)"

definition std_char :: "char \<Rightarrow> char" where
  "std_char c = (if c = CHR ''-'' then CHR ''+'' else if c = CHR ''_'' then CHR ''/'' else c)"

definition jwt_b64 :: "string \<Rightarrow> string" where
  "jwt_b64 s = map url_char (takeWhile (\<lambda>c. c \<noteq> CHR ''='') (b64 s))"

text \<open>The decoder of the unpadded URL alphabet skips CR and LF and ignores unused trailing bits.\<close>

definition jwt_b64Decode :: "string \<Rightarrow> string option" where
  "jwt_b64Decode s =
     (let t = filter (\<lambda>c. c \<noteq> CHR 0x0D \<and> c \<noteq> CHR 0x0A) s
      in if list_ex (\<lambda>c. c = CHR ''+'' \<or> c = CHR ''/'' \<or> c = CHR ''='') t then None
         else b64_decode (map std_char t @ replicate ((4 - length t mod 4) mod 4) (CHR ''='')))"

record claims =
  cl_HumanID :: string
  cl_Role :: string
  cl_Iat :: int
  cl_Exp :: int

text \<open>\<^verbatim>\<open>encoding/json\<close> on the two shapes a token carries: the algorithm of a header, the claims.\<close>

record jwt_json =
  jj_alg :: "string \<Rightarrow> string option"
  jj_dec :: "string \<Rightarrow> claims option"
  jj_enc :: "claims \<Rightarrow> string"

definition jwtHeader :: string where
  "jwtHeader = ''{'' @ [CHR 0x22] @ ''alg'' @ [CHR 0x22] @ '':'' @ [CHR 0x22] @ ''HS256'' @ [CHR 0x22] @ '','' @ [CHR 0x22] @ ''typ'' @ [CHR 0x22] @ '':'' @
     [CHR 0x22] @ ''JWT'' @ [CHR 0x22] @ ''}''"

definition signJWT :: "(string \<Rightarrow> string \<Rightarrow> string) \<Rightarrow> jwt_json \<Rightarrow> string \<Rightarrow> claims \<Rightarrow> string" where
  "signJWT hmac J secret claims =
     (let unsigned = jwt_b64 jwtHeader @ ''.'' @ jwt_b64 (jj_enc J claims)
      in unsigned @ ''.'' @ jwt_b64 (hmac secret unsigned))"

definition verifyJWT :: "(string \<Rightarrow> string \<Rightarrow> string) \<Rightarrow> jwt_json \<Rightarrow> string \<Rightarrow> string \<Rightarrow> gotime \<Rightarrow> claims option" where
  "verifyJWT hmac J secret token now =
     (case split_byte (CHR ''.'') token of
        [h, p, s] \<Rightarrow>
          (case jwt_b64Decode s of
             None \<Rightarrow> None
           | Some want \<Rightarrow>
               if hmac secret (h @ ''.'' @ p) \<noteq> want then None
               else case jwt_b64Decode h of
                      None \<Rightarrow> None
                    | Some header \<Rightarrow>
                        if jj_alg J header \<noteq> Some ''HS256'' then None
                        else case jwt_b64Decode p of
                               None \<Rightarrow> None
                             | Some payload \<Rightarrow>
                                 (case jj_dec J payload of
                                    None \<Rightarrow> None
                                  | Some c \<Rightarrow> if Unix now \<ge> cl_Exp c then None else Some c))
      | _ \<Rightarrow> None)"

section \<open>Codes are those of RFC 4226 and RFC 6238\<close>

lemma mod_loop_six: "mod_loop totpDigits = 1000000"
  by (simp add: totpDigits_def eval_nat_numeral)

lemma off_nibble: "unat (of_nat (byte c) AND (0x0f :: 8 word)) = byte c mod 16"
proof -
  have "(of_nat (byte c) :: 8 word) AND 0x0f = take_bit 4 (of_nat (byte c))" by (simp add: take_bit_eq_mask mask_eq_exp_minus_1)
  then show ?thesis by (simp add: unsigned_take_bit_eq take_bit_eq_mod unsigned_of_nat unat_mod)
qed

lemma code31: "unat ((w :: 32 word) AND 0x7fffffff) = unat w mod 2 ^ 31"
proof -
  have "w AND 0x7fffffff = take_bit 31 w" by (simp add: take_bit_eq_mask mask_eq_exp_minus_1)
  then show ?thesis by (simp add: unsigned_take_bit_eq take_bit_eq_mod unat_mod)
qed

lemma be32_value:
  assumes "length bs = 4"
  shows "unat (be32 bs) = foldl (\<lambda>a b. a * 256 + byte b) 0 bs"
proof -
  have g: "be32 bs = of_nat (foldl (\<lambda>a b. a * 256 + byte b) 0 bs)"
    unfolding be32_def by (rule sym, induction bs rule: rev_induct) simp_all
  obtain a b c d where bs: "bs = [a, b, c, d]" using assms by (auto simp: eval_nat_numeral length_Suc_conv)
  have "foldl (\<lambda>a b. a * 256 + byte b) 0 bs < 4294967296"
  proof -
    have "byte a \<le> 255" "byte b \<le> 255" "byte c \<le> 255" "byte d \<le> 255"
      using byte_less [of a] byte_less [of b] byte_less [of c] byte_less [of d] by linarith+
    then show ?thesis unfolding bs by simp
  qed
  then show ?thesis unfolding g by (simp add: unsigned_of_nat take_bit_eq_mod)
qed

lemma dec_val_zeros: "dec_val (replicate n (CHR ''0'') @ s) = dec_val s"
proof (induction s rule: rev_induct)
  case Nil
  show ?case by (induction n) (simp_all add: dec_val_def)
next
  case (snoc c s)
  then show ?case by (simp add: dec_val_snoc flip: append_assoc)
qed

lemma nat_dec_length: "n < 10 ^ k \<Longrightarrow> 0 < k \<Longrightarrow> length (nat_dec n) \<le> k"
proof (induction k arbitrary: n)
  case (Suc k)
  show ?case
  proof (cases "n < 10")
    case True
    then show ?thesis by (simp add: nat_dec_small)
  next
    case False
    then have "k \<noteq> 0" using Suc.prems(1) by (cases k) auto
    moreover have "n div 10 < 10 ^ k" using Suc.prems(1) by (simp add: less_mult_imp_div_less)
    ultimately show ?thesis using Suc.IH False by (simp add: nat_dec_step)
  qed
qed simp

definition rfc4226 :: "string \<Rightarrow> nat" where
  "rfc4226 mac = foldl (\<lambda>a b. a * 256 + byte b) 0 (take 4 (drop (byte (last mac) mod 16) mac)) mod 2 ^ 31 mod 10 ^ 6"

lemma hotp_value:
  assumes "length (hmac key (be64 counter)) = 20"
  shows "hotp hmac key counter totpDigits = Some (zero_pad 6 (nat_dec (rfc4226 (hmac key (be64 counter)))))"
proof -
  let ?m = "hmac key (be64 counter)"
  have o: "byte (last ?m) mod 16 + 4 \<le> length ?m" using assms mod_less_divisor [of 16 "byte (last ?m)"] by simp
  then have four: "length (take 4 (drop (byte (last ?m) mod 16) ?m)) = 4" by simp
  have "?m \<noteq> []" using assms by auto
  then show ?thesis
    using o unfolding hotp_def Let_def off_nibble mod_loop_six
    by (simp add: unat_mod code31 be32_value [OF four] rfc4226_def totpDigits_def)
qed

text \<open>
  (C31) A one-time code is the one RFC 4226 prescribes. With a 20-byte MAC the slice and the 32-bit arithmetic never
  leave their range, and the result is six decimal digits that denote the 31-bit number at the offset the last nibble
  gives, modulo a million.
\<close>

theorem hotp_rfc4226:
  assumes "length (hmac key (be64 counter)) = 20"
  shows "\<exists>c. hotp hmac key counter totpDigits = Some c \<and> length c = 6 \<and> list_all is_digit c \<and> dec_val c = rfc4226 (hmac key (be64 counter))"
proof -
  let ?n = "rfc4226 (hmac key (be64 counter))"
  have "length (nat_dec ?n) \<le> 6" by (rule nat_dec_length) (simp_all add: rfc4226_def)
  moreover have "list_all is_digit (zero_pad 6 (nat_dec ?n))" using nat_dec_digits by (auto simp: zero_pad_def list_all_iff is_digit_def)
  ultimately show ?thesis using hotp_value [of hmac key counter, OF assms] by (auto simp: zero_pad_def dec_val_zeros)
qed

theorem hotp_rfc4226_witness:
  "\<exists>c. hotp (\<lambda>_ _. replicate 19 (CHR ''A'') @ [CHR ''Z'']) ''k'' 1 totpDigits = Some c \<and> length c = 6 \<and> list_all is_digit c \<and>
     dec_val c = rfc4226 (replicate 19 (CHR ''A'') @ [CHR ''Z''])"
  using hotp_rfc4226 [of "\<lambda>_ _. replicate 19 (CHR ''A'') @ [CHR ''Z'']" "''k''" 1] by simp

lemma find_window:
  fixes P :: "int \<Rightarrow> bool"
  assumes "\<And>r. P r \<Longrightarrow> 0 \<le> r"
  shows "find P [c - 1, c, c + 1] = Some s \<longleftrightarrow> P s \<and> \<bar>s - c\<bar> \<le> 1 \<and> (\<forall>r\<in>{max 0 (c - 1)..<s}. \<not> P r)"
proof -
  have f: "find P [c - 1, c, c + 1] = Some s \<longleftrightarrow> (P (c - 1) \<and> s = c - 1) \<or> (\<not> P (c - 1) \<and> P c \<and> s = c) \<or> (\<not> P (c - 1) \<and> \<not> P c \<and> P (c + 1) \<and> s = c + 1)"
    by auto
  have m: "r \<in> {max 0 (c - 1)..<s}" if "P r" "c - 1 \<le> r" "r < s" for r s using that assms [of r] by simp
  consider "s = c - 1" | "s = c" | "s = c + 1" | "\<not> \<bar>s - c\<bar> \<le> 1" by linarith
  then show ?thesis
  proof cases
    case 2
    have "(\<forall>r\<in>{max 0 (c - 1)..<c}. \<not> P r) \<longleftrightarrow> \<not> P (c - 1)"
    proof
      show "\<not> P (c - 1)" if "\<forall>r\<in>{max 0 (c - 1)..<c}. \<not> P r" using that m [of "c - 1" c] by fastforce
      show "\<forall>r\<in>{max 0 (c - 1)..<c}. \<not> P r" if "\<not> P (c - 1)"
      proof
        fix r assume "r \<in> {max 0 (c - 1)..<c}"
        then have "r = c - 1" by auto
        then show "\<not> P r" using that by simp
      qed
    qed
    then have e: "(\<forall>r\<in>{max 0 (c - 1)..<c}. \<not> P r) = (\<not> P (c - 1))" .
    show ?thesis unfolding f 2 e by auto
  next
    case 3
    have "(\<forall>r\<in>{max 0 (c - 1)..<c + 1}. \<not> P r) \<longleftrightarrow> \<not> P (c - 1) \<and> \<not> P c"
    proof
      show "\<not> P (c - 1) \<and> \<not> P c" if "\<forall>r\<in>{max 0 (c - 1)..<c + 1}. \<not> P r" using that m [of "c - 1" "c + 1"] m [of c "c + 1"] by fastforce
      show "\<forall>r\<in>{max 0 (c - 1)..<c + 1}. \<not> P r" if "\<not> P (c - 1) \<and> \<not> P c"
      proof
        fix r assume "r \<in> {max 0 (c - 1)..<c + 1}"
        then have "r = c - 1 \<or> r = c" by auto
        then show "\<not> P r" using that by auto
      qed
    qed
    then have e: "(\<forall>r\<in>{max 0 (c - 1)..<c + 1}. \<not> P r) = (\<not> P (c - 1) \<and> \<not> P c)" .
    show ?thesis unfolding f 3 e by auto
  qed (auto simp: f)
qed

text \<open>
  A code is accepted within one step of the clock only. \<open>verifyTOTP\<close> answers the first step of the window around now,
  never a negative one, whose code is the given text, and answers nothing when the window has none.
\<close>

theorem verifyTOTP_window:
  "(verifyTOTP hmac key code now = Some s \<longleftrightarrow>
      length code = 6 \<and> 0 \<le> s \<and> \<bar>s - totpStep now\<bar> \<le> 1 \<and> hotp hmac key (word_of_int s) totpDigits = Some code \<and>
      (\<forall>r\<in>{max 0 (totpStep now - 1)..<s}. hotp hmac key (word_of_int r) totpDigits \<noteq> Some code))"
proof -
  have u: "[- totpSkew .. totpSkew] = [- 1, 0, 1]" by (simp add: totpSkew_def upto.simps)
  let ?P = "\<lambda>s. 0 \<le> s \<and> hotp hmac key (word_of_int s) totpDigits = Some code"
  have "find ?P [totpStep now - 1, totpStep now, totpStep now + 1] = Some s \<longleftrightarrow>
      ?P s \<and> \<bar>s - totpStep now\<bar> \<le> 1 \<and> (\<forall>r\<in>{max 0 (totpStep now - 1)..<s}. \<not> ?P r)"
    by (rule find_window) blast
  moreover have "(\<forall>r\<in>{max 0 (totpStep now - 1)..<s}. \<not> ?P r) \<longleftrightarrow> (\<forall>r\<in>{max 0 (totpStep now - 1)..<s}. hotp hmac key (word_of_int r) totpDigits \<noteq> Some code)"
    by auto
  ultimately show ?thesis unfolding verifyTOTP_def u by (simp add: totpDigits_def) blast
qed

theorem verifyTOTP_window_witness:
  "verifyTOTP (\<lambda>_ m. replicate 19 (CHR 0x00) @ [last m]) ''k'' ''000000'' 30000000000 = Some 0 \<and>
   length ''000000'' = 6 \<and> hotp (\<lambda>_ m. replicate 19 (CHR 0x00) @ [last m]) ''k'' (word_of_int 0) totpDigits = Some ''000000''"
proof -
  have "verifyTOTP (\<lambda>_ m. replicate 19 (CHR 0x00) @ [last m]) ''k'' ''000000'' 30000000000 = Some 0" by code_simp
  then show ?thesis using verifyTOTP_window [of "\<lambda>_ m. replicate 19 (CHR 0x00) @ [last m]" "''k''" "''000000''" 30000000000 0] by blast
qed

section \<open>Tokens\<close>

definition b64_ok :: "char \<Rightarrow> bool" where
  "b64_ok c \<longleftrightarrow> b64_val c \<noteq> None"

lemma b64_ok_char [simp]: "n < 64 \<Longrightarrow> b64_ok (b64_char n)"
  by (simp add: b64_ok_def b64_val_char)

lemma b64_shape: "\<exists>t k. b64 s = t @ replicate k (CHR ''='') \<and> k < 3 \<and> list_all b64_ok t"
proof (induction s rule: b64.induct)
  case (2 a)
  have "b64 [a] = [b64_char (byte a div 4), b64_char (byte a mod 4 * 16)] @ replicate 2 (CHR ''='')" by (simp add: numeral_2_eq_2)
  moreover have "list_all b64_ok [b64_char (byte a div 4), b64_char (byte a mod 4 * 16)]" by (simp add: b64_groups)
  ultimately show ?case by (intro exI conjI) (assumption, simp, assumption)
next
  case (3 a b)
  have "b64 [a, b] = [b64_char (byte a div 4), b64_char (byte a mod 4 * 16 + byte b div 16), b64_char (byte b mod 16 * 4)] @ replicate 1 (CHR ''='')" by simp
  moreover have "list_all b64_ok [b64_char (byte a div 4), b64_char (byte a mod 4 * 16 + byte b div 16), b64_char (byte b mod 16 * 4)]" by (simp add: b64_groups)
  ultimately show ?case by (intro exI conjI) (assumption, simp, assumption)
next
  case (4 a b c s)
  then obtain t k where t: "b64 s = t @ replicate k (CHR ''='')" "k < 3" "list_all b64_ok t" by blast
  let ?t = "b64_char (byte a div 4) # b64_char (byte a mod 4 * 16 + byte b div 16) # b64_char (byte b mod 16 * 4 + byte c div 64) # b64_char (byte c mod 64) # t"
  have "b64 (a # b # c # s) = ?t @ replicate k (CHR ''='')" "list_all b64_ok ?t" using t by (simp_all add: b64_groups)
  then show ?case using t(2) by blast
next
  case 1
  show ?case by (intro exI [of _ "[]"] exI [of _ 0]) simp
qed

lemma b64_alphabet:
  assumes "b64_ok c"
  shows "std_char (url_char c) = c" "url_char c \<notin> {CHR ''+'', CHR ''/'', CHR ''='', CHR ''.'', CHR 0x0D, CHR 0x0A}"
proof -
  have "c \<notin> {CHR ''-'', CHR ''_'', CHR ''='', CHR ''.'', CHR 0x0D, CHR 0x0A}"
    using assms by (auto simp: b64_ok_def b64_val_def go_str)
  then show "std_char (url_char c) = c" "url_char c \<notin> {CHR ''+'', CHR ''/'', CHR ''='', CHR ''.'', CHR 0x0D, CHR 0x0A}"
    by (auto simp: std_char_def url_char_def)
qed

lemma pad_length: "(l + k) mod 4 = 0 \<Longrightarrow> k < 3 \<Longrightarrow> (4 - l mod 4) mod 4 = (k :: nat)"
proof -
  assume a: "(l + k) mod 4 = 0" "k < 3"
  have m: "(l mod 4 + k) mod 4 = 0" using a(1) by (simp add: mod_add_left_eq)
  have "l mod 4 < 4" by simp
  then have "l mod 4 = 0 \<or> l mod 4 = 1 \<or> l mod 4 = 2 \<or> l mod 4 = 3" by linarith
  moreover have "k = 0 \<or> k = 1 \<or> k = 2" using a(2) by linarith
  ultimately show ?thesis using m by (elim disjE) simp_all
qed

lemma jwt_b64_shape:
  "\<exists>t k. b64 s = t @ replicate k (CHR ''='') \<and> k < 3 \<and> jwt_b64 s = map url_char t \<and> map std_char (map url_char t) = t \<and>
     list_all (\<lambda>c. c \<notin> {CHR ''+'', CHR ''/'', CHR ''='', CHR ''.'', CHR 0x0D, CHR 0x0A}) (map url_char t)"
proof -
  obtain t k where t: "b64 s = t @ replicate k (CHR ''='')" "k < 3" "list_all b64_ok t" using b64_shape by blast
  have "\<forall>c\<in>set t. c \<noteq> CHR ''=''" using t(3) by (auto simp: list_all_iff b64_ok_def b64_val_def go_str)
  then have "takeWhile (\<lambda>c. c \<noteq> CHR ''='') (b64 s) = t" unfolding t(1) by (simp add: takeWhile_append2 takeWhile_eq_Nil_iff)
  moreover have "map std_char (map url_char t) = t" using t(3) b64_alphabet(1) by (auto simp: list_all_iff intro!: map_idI)
  moreover have "list_all (\<lambda>c. c \<notin> {CHR ''+'', CHR ''/'', CHR ''='', CHR ''.'', CHR 0x0D, CHR 0x0A}) (map url_char t)"
    using t(3) b64_alphabet(2) by (fastforce simp: list_all_iff)
  ultimately show ?thesis using t(1,2) unfolding jwt_b64_def by blast
qed

lemma jwt_b64_roundtrip: "jwt_b64Decode (jwt_b64 s) = Some s"
proof -
  obtain t k where t: "b64 s = t @ replicate k (CHR ''='')" "k < 3" "jwt_b64 s = map url_char t" "map std_char (map url_char t) = t"
    "list_all (\<lambda>c. c \<notin> {CHR ''+'', CHR ''/'', CHR ''='', CHR ''.'', CHR 0x0D, CHR 0x0A}) (map url_char t)" using jwt_b64_shape by blast
  have "(length t + k) mod 4 = 0" using b64_length [of s] unfolding t(1) by simp
  then have k: "(4 - length t mod 4) mod 4 = k" by (rule pad_length [OF _ t(2)])
  have f: "filter (\<lambda>c. c \<noteq> CHR 0x0D \<and> c \<noteq> CHR 0x0A) (map url_char t) = map url_char t" using t(5) by (auto simp: list_all_iff filter_id_conv)
  have n: "\<not> list_ex (\<lambda>c. c = CHR ''+'' \<or> c = CHR ''/'' \<or> c = CHR ''='') (map url_char t)" using t(5) by (auto simp: list_all_iff list_ex_iff)
  show ?thesis unfolding jwt_b64Decode_def Let_def t(3) f if_not_P [OF n] t(4) length_map k t(1) [symmetric] by (rule b64_roundtrip)
qed

lemma jwt_b64_no_dot: "CHR ''.'' \<notin> set (jwt_b64 s)"
proof -
  obtain t where "jwt_b64 s = map url_char t" "list_all (\<lambda>c. c \<notin> {CHR ''+'', CHR ''/'', CHR ''='', CHR ''.'', CHR 0x0D, CHR 0x0A}) (map url_char t)"
    using jwt_b64_shape by blast
  then show ?thesis unfolding list_all_iff by (metis insertCI)
qed

lemma jwt_split: "CHR ''.'' \<notin> set h \<Longrightarrow> CHR ''.'' \<notin> set p \<Longrightarrow> CHR ''.'' \<notin> set s \<Longrightarrow> split_byte (CHR ''.'') (h @ ''.'' @ p @ ''.'' @ s) = [h, p, s]"
  using split_join [of "CHR ''.''" "[h, p, s]"] by simp

text \<open>
  (C32) An access token is what the server signed. A signed token gives its claims back until the second its expiry
  names and nothing from then on; and any token that is accepted ends in the MAC of the text before it, names
  HS256 as its algorithm, and carries the claims in its payload.
\<close>

theorem jwt_authentic:
  assumes "jj_alg J jwtHeader = Some ''HS256''" and "jj_dec J (jj_enc J c) = Some c"
  shows "verifyJWT hmac J secret (signJWT hmac J secret c) now = (if Unix now < cl_Exp c then Some c else None)
    \<and> (verifyJWT hmac J secret token now = Some c' \<longrightarrow>
        (\<exists>h p s header payload. token = h @ ''.'' @ p @ ''.'' @ s \<and> jwt_b64Decode s = Some (hmac secret (h @ ''.'' @ p)) \<and>
           jwt_b64Decode h = Some header \<and> jj_alg J header = Some ''HS256'' \<and> jwt_b64Decode p = Some payload \<and> jj_dec J payload = Some c' \<and> Unix now < cl_Exp c'))"
proof -
  let ?u = "jwt_b64 jwtHeader @ ''.'' @ jwt_b64 (jj_enc J c)"
  have "split_byte (CHR ''.'') (signJWT hmac J secret c) = [jwt_b64 jwtHeader, jwt_b64 (jj_enc J c), jwt_b64 (hmac secret ?u)]"
    unfolding signJWT_def Let_def using jwt_split [OF jwt_b64_no_dot jwt_b64_no_dot jwt_b64_no_dot] by simp
  then have "verifyJWT hmac J secret (signJWT hmac J secret c) now = (if Unix now < cl_Exp c then Some c else None)"
    unfolding verifyJWT_def by (simp add: jwt_b64_roundtrip assms)
  moreover have "\<exists>h p s header payload. token = h @ ''.'' @ p @ ''.'' @ s \<and> jwt_b64Decode s = Some (hmac secret (h @ ''.'' @ p)) \<and>
           jwt_b64Decode h = Some header \<and> jj_alg J header = Some ''HS256'' \<and> jwt_b64Decode p = Some payload \<and> jj_dec J payload = Some c' \<and> Unix now < cl_Exp c'"
    if "verifyJWT hmac J secret token now = Some c'"
  proof -
    from that obtain h p s where sp: "split_byte (CHR ''.'') token = [h, p, s]"
      by (auto simp: verifyJWT_def split: list.splits)
    have "token = h @ ''.'' @ p @ ''.'' @ s" using join_split_byte [of "CHR ''.''" token] unfolding sp by simp
    moreover from that have "\<exists>header payload. jwt_b64Decode s = Some (hmac secret (h @ ''.'' @ p)) \<and> jwt_b64Decode h = Some header \<and>
        jj_alg J header = Some ''HS256'' \<and> jwt_b64Decode p = Some payload \<and> jj_dec J payload = Some c' \<and> Unix now < cl_Exp c'"
      unfolding verifyJWT_def sp by (auto split: option.splits if_splits)
    ultimately show ?thesis by blast
  qed
  ultimately show ?thesis by blast
qed

definition jwt_demo :: jwt_json where
  "jwt_demo = \<lparr>jj_alg = (\<lambda>_. Some ''HS256''), jj_dec = (\<lambda>s. Some \<lparr>cl_HumanID = s, cl_Role = ''user'', cl_Iat = 0, cl_Exp = 9\<rparr>), jj_enc = cl_HumanID\<rparr>"

theorem jwt_authentic_witness:
  "verifyJWT (\<lambda>k m. k @ m) jwt_demo ''k'' (signJWT (\<lambda>k m. k @ m) jwt_demo ''k'' \<lparr>cl_HumanID = ''h'', cl_Role = ''user'', cl_Iat = 0, cl_Exp = 9\<rparr>) 0 =
     Some \<lparr>cl_HumanID = ''h'', cl_Role = ''user'', cl_Iat = 0, cl_Exp = 9\<rparr>"
  using jwt_authentic [of jwt_demo "\<lparr>cl_HumanID = ''h'', cl_Role = ''user'', cl_Iat = 0, cl_Exp = 9\<rparr>" "\<lambda>k m. k @ m" "''k''" 0]
  by (simp add: jwt_demo_def Unix_def)

end
