(* ===== verification/Human_Auth.thy ===== *)
theory Human_Auth
  imports Accounts Auth_Tokens
begin

text \<open>
  The service of human accounts (\<^verbatim>\<open>internal/humanauth\<close>: \<^verbatim>\<open>service.go\<close>, \<^verbatim>\<open>mfa.go\<close>, \<^verbatim>\<open>email_verification.go\<close>, \<^verbatim>\<open>oauth.go\<close>) over the
  transactions of Accounts and the tokens of Auth_Tokens. What a call draws from outside is in its environment: the
  readings of the clock and the random values in the order they are taken, bcrypt, SHA-256, the box of MFA secrets, the
  mailer and the provider's answers. A refused or failed call answers an error; failures of the database connection, which roll
  back, are left out, and so are the wording of mails, avatars and the text form of an enrolment (base32, URI). The theorems:
  each call is a run of transactions, so the results of Accounts hold for it; a session needs every factor the account
  has; guesses of a second factor are bounded; OAuth never enters an account that has a password.
\<close>

section \<open>Environment\<close>

record oauth_user =
  ou_ID :: string
  ou_Email :: string
  ou_Name :: string

record google_user =
  gg_Sub :: string
  gg_Email :: string
  gg_Verified :: bool
  gg_Name :: string

record github_user =
  gh_ID :: int
  gh_Login :: string
  gh_Name :: string

text \<open>A provider's answers; \<open>None\<close> is a failed or unreadable one.\<close>

record provider_net =
  pn_token :: "string \<Rightarrow> (string \<times> string) option" \<comment> \<open>access token and error of an exchange\<close>
  pn_google :: "string \<Rightarrow> google_user option"
  pn_github :: "string \<Rightarrow> github_user option"
  pn_emails :: "string \<Rightarrow> (string \<times> bool \<times> bool) list option" \<comment> \<open>address, primary, verified\<close>

record auth_env =
  ae_U :: unicode
  ae_sha :: "string \<Rightarrow> string"
  ae_check :: "string \<Rightarrow> string \<Rightarrow> bool"
  ae_gen :: "string \<Rightarrow> string option"
  ae_hmac1 :: "string \<Rightarrow> string \<Rightarrow> string"
  ae_hmac256 :: "string \<Rightarrow> string \<Rightarrow> string"
  ae_json :: jwt_json
  ae_secret :: string
  ae_seal :: "string \<Rightarrow> string \<Rightarrow> string \<times> string"
  ae_open :: "(string \<times> string \<Rightarrow> string \<Rightarrow> string option) option" \<comment> \<open>\<open>None\<close>: no box is configured\<close>
  ae_mailer :: "(string \<times> string \<Rightarrow> bool) option" \<comment> \<open>recipient and link\<close>
  ae_base :: string
  ae_oauth :: "string \<Rightarrow> provider_net option"
  ae_enforce :: bool
  ae_now :: "nat \<Rightarrow> gotime"
  ae_clock :: gotime \<comment> \<open>the database's\<close>
  ae_raw :: "nat \<Rightarrow> string"
  ae_id :: "nat \<Rightarrow> string"
  ae_key :: string
  ae_codes :: "(string \<times> string) list" \<comment> \<open>row and text of each backup code\<close>

datatype auth_error =
    HErrInput | HErrHash | HErrInvalidCredentials | HErrEmailTaken | HErrRefreshTokenInvalid | HErrPasswordResetTokenInvalid
  | HErrOrgInvitationInvalid | HErrOrgInvitationEmailMismatch | HErrNotOrgOwner | HErrEmailVerificationTokenInvalid
  | HErrMFANotConfigured | HErrMFAAlreadyEnabled | HErrMFANotPending | HErrMFACodeInvalid | HErrMFAChallengeInvalid | HErrMFARequired string gotime
  | HErrSecret | HErrNoMailer | HErrNoBaseURL | HErrSend | HErrOAuthProviderNotConfigured | HErrOAuthStateInvalid | HErrOAuthProvider
  | HErrOAuthAccountRequiresPasswordLogin | HErrLimit limit_error | HErrDB acct_error

record login_session =
  ss_Human :: human
  ss_AccessToken :: string
  ss_RefreshToken :: string

definition AccessTokenTTL :: duration where "AccessTokenTTL = 15 * minute"
definition RefreshTokenTTL :: duration where "RefreshTokenTTL = 30 * 24 * hour"
definition PasswordResetTokenTTL :: duration where "PasswordResetTokenTTL = 5 * minute"
definition OrgInvitationTTL :: duration where "OrgInvitationTTL = 5 * hour"
definition EmailVerificationTokenTTL :: duration where "EmailVerificationTokenTTL = 15 * minute"
definition MFAChallengeTTL :: duration where "MFAChallengeTTL = 5 * minute"
definition OAuthStateTTL :: duration where "OAuthStateTTL = 10 * minute"

section \<open>Sessions\<close>

text \<open>The argument \<open>k\<close> of a step counts the values drawn before it.\<close>

definition issueAccessToken :: "auth_env \<Rightarrow> nat \<Rightarrow> human \<Rightarrow> string" where
  "issueAccessToken E k h =
     signJWT (ae_hmac256 E) (ae_json E) (ae_secret E)
       \<lparr>cl_HumanID = hu_ID h, cl_Role = hu_Role h, cl_Iat = Unix (ae_now E k), cl_Exp = Unix (ae_now E k + AccessTokenTTL)\<rparr>"

definition issueRefreshToken :: "auth_env \<Rightarrow> nat \<Rightarrow> string \<Rightarrow> acct_db \<Rightarrow> (auth_error + string) \<times> acct_db" where
  "issueRefreshToken E k human d =
     (case CreateRefreshToken (ae_id E k) human (ae_sha E (ae_raw E k)) (ae_now E k + RefreshTokenTTL) d of
        (Some e, _) \<Rightarrow> (Inl (HErrDB e), d)
      | (None, d1) \<Rightarrow> (Inr (ae_raw E k), d1))"

definition mintSession :: "auth_env \<Rightarrow> nat \<Rightarrow> human \<Rightarrow> acct_db \<Rightarrow> (auth_error + login_session) \<times> acct_db" where
  "mintSession E k h d =
     (let access = issueAccessToken E k h
      in case issueRefreshToken E (Suc k) (hu_ID h) d of
           (Inl e, d1) \<Rightarrow> (Inl e, d1)
         | (Inr raw, d1) \<Rightarrow> (Inr \<lparr>ss_Human = h, ss_AccessToken = access, ss_RefreshToken = raw\<rparr>, d1))"

definition completeLogin :: "auth_env \<Rightarrow> nat \<Rightarrow> human \<Rightarrow> acct_db \<Rightarrow> (auth_error + login_session) \<times> acct_db" where
  "completeLogin E k h d =
     (let access = issueAccessToken E k h; raw = ae_raw E k; loginAt = ae_now E (Suc k)
      in case TouchLoginAndCreateRefreshToken (ae_id E k) (hu_ID h) loginAt (ae_sha E raw) (loginAt + RefreshTokenTTL) d of
           (Inl e, _) \<Rightarrow> (Inl (HErrDB e), d)
         | (Inr at, d1) \<Rightarrow> (Inr \<lparr>ss_Human = h\<lparr>hu_LastLogin := Some at\<rparr>, ss_AccessToken = access, ss_RefreshToken = raw\<rparr>, d1))"

definition newMFAChallenge :: "auth_env \<Rightarrow> nat \<Rightarrow> human \<Rightarrow> acct_db \<Rightarrow> auth_error \<times> acct_db" where
  "newMFAChallenge E k h d =
     (let raw = ae_raw E k; exp = ae_now E k + MFAChallengeTTL
      in case CreateMFAChallenge (ae_id E k) (hu_ID h) (ae_sha E raw) exp d of
           (Some e, _) \<Rightarrow> (HErrDB e, d)
         | (None, d1) \<Rightarrow> (HErrMFARequired raw exp, d1))"

definition enter :: "auth_env \<Rightarrow> nat \<Rightarrow> human \<Rightarrow> acct_db \<Rightarrow> (auth_error + login_session) \<times> acct_db" where
  "enter E k h d =
     (if hu_MFA h then (case newMFAChallenge E k h d of (e, d1) \<Rightarrow> (Inl e, d1)) else completeLogin E k h d)"

definition sendVerificationEmail :: "auth_env \<Rightarrow> nat \<Rightarrow> human \<Rightarrow> acct_db \<Rightarrow> auth_error option \<times> acct_db" where
  "sendVerificationEmail E k h d =
     (case ae_mailer E of
        None \<Rightarrow> (Some HErrNoMailer, d)
      | Some send \<Rightarrow>
          if ae_base E = [] then (Some HErrNoBaseURL, d)
          else let raw = ae_raw E k
               in case CreateEmailVerificationToken (ae_id E k) (hu_ID h) (ae_sha E raw) (ae_now E k + EmailVerificationTokenTTL) (ae_clock E) d of
                    (Inl AErrAlreadyVerified, _) \<Rightarrow> (None, d)
                  | (Inl e, _) \<Rightarrow> (Some (HErrDB e), d)
                  | (Inr t, d1) \<Rightarrow>
                      if \<not> send (hu_Email h, ae_base E @ ''/verify-email?token='' @ raw) then (Some HErrSend, d1)
                      else (None, SupersedeOtherEmailVerificationTokens (hu_ID h) (tk_ID t) (dt_CreatedAt t) (ae_now E (Suc k)) d1))"

definition SignUp :: "auth_env \<Rightarrow> string \<Rightarrow> string \<Rightarrow> string \<Rightarrow> acct_db \<Rightarrow> (auth_error + login_session) \<times> acct_db" where
  "SignUp E name email password d =
     (let name = TrimSpace name; email = TrimSpace email
      in if name = [] \<or> email = [] \<or> length password < 8 then (Inl HErrInput, d)
         else case ae_gen E password of
                None \<Rightarrow> (Inl HErrHash, d)
              | Some hash \<Rightarrow>
                  (case CreateHuman (ae_U E) (ae_id E 0) name email hash d of
                     (Inl AErrConflict, _) \<Rightarrow> (Inl HErrEmailTaken, d)
                   | (Inl e, _) \<Rightarrow> (Inl (HErrDB e), d)
                   | (Inr h, d1) \<Rightarrow> mintSession E 3 h (snd (sendVerificationEmail E 1 h d1))))"

definition Login :: "auth_env \<Rightarrow> string \<Rightarrow> string \<Rightarrow> acct_db \<Rightarrow> (auth_error + login_session) \<times> acct_db" where
  "Login E email password d =
     (case GetHumanByEmail (ae_U E) email d of
        None \<Rightarrow> (Inl HErrInvalidCredentials, d)
      | Some h \<Rightarrow> if \<not> ae_check E (hu_Password h) password then (Inl HErrInvalidCredentials, d) else enter E 0 h d)"

definition Refresh :: "auth_env \<Rightarrow> string \<Rightarrow> acct_db \<Rightarrow> (auth_error + login_session) \<times> acct_db" where
  "Refresh E raw d =
     (case token_by_hash (ae_sha E raw) (ac_refresh d) of
        None \<Rightarrow> (Inl HErrRefreshTokenInvalid, d)
      | Some t \<Rightarrow>
          let now = ae_now E 0
          in if tk_Spent t \<noteq> None then (Inl HErrRefreshTokenInvalid, RevokeAllRefreshTokensForHuman (tk_Human t) now d)
             else if \<not> tk_Expires t > now then (Inl HErrRefreshTokenInvalid, d)
             else case GetHuman (tk_Human t) d of
                    None \<Rightarrow> (Inl (HErrDB AErrNotFound), d)
                  | Some h \<Rightarrow>
                      (case RotateRefreshToken (tk_ID t) (ae_id E 1) (hu_ID h) (ae_sha E (ae_raw E 1)) now (now + RefreshTokenTTL) d of
                         (Some AErrRotationLost, _) \<Rightarrow> (Inl HErrRefreshTokenInvalid, d)
                       | (Some e, _) \<Rightarrow> (Inl (HErrDB e), d)
                       | (None, d1) \<Rightarrow> (Inr \<lparr>ss_Human = h, ss_AccessToken = issueAccessToken E 1 h, ss_RefreshToken = ae_raw E 1\<rparr>, d1)))"

definition Logout :: "auth_env \<Rightarrow> string \<Rightarrow> acct_db \<Rightarrow> acct_db" where
  "Logout E raw d =
     (case token_by_hash (ae_sha E raw) (ac_refresh d) of
        None \<Rightarrow> d
      | Some t \<Rightarrow> snd (RevokeRefreshToken (tk_ID t) (ae_now E 0) d))"

section \<open>Passwords and addresses\<close>

definition ForgotPassword :: "auth_env \<Rightarrow> string \<Rightarrow> acct_db \<Rightarrow> auth_error option \<times> acct_db" where
  "ForgotPassword E email d =
     (case GetHumanByEmail (ae_U E) email d of
        None \<Rightarrow> (None, d)
      | Some h \<Rightarrow>
          (case CreatePasswordResetToken (ae_id E 0) (hu_ID h) (ae_sha E (ae_raw E 0)) (ae_now E 0 + PasswordResetTokenTTL) d of
             (Some e, _) \<Rightarrow> (Some (HErrDB e), d)
           | (None, d1) \<Rightarrow>
               (case ae_mailer E of
                  None \<Rightarrow> (Some HErrNoMailer, d1)
                | Some send \<Rightarrow>
                    if ae_base E = [] then (Some HErrNoBaseURL, d1)
                    else if \<not> send (hu_Email h, ae_base E @ ''/reset-password?token='' @ ae_raw E 0) then (Some HErrSend, d1)
                    else (None, d1))))"

definition ResetPassword :: "auth_env \<Rightarrow> string \<Rightarrow> string \<Rightarrow> acct_db \<Rightarrow> auth_error option \<times> acct_db" where
  "ResetPassword E raw password d =
     (if length password < 8 then (Some HErrInput, d)
      else case token_by_hash (ae_sha E raw) (ac_resets d) of
             None \<Rightarrow> (Some HErrPasswordResetTokenInvalid, d)
           | Some t \<Rightarrow>
               let now = ae_now E 0
               in if tk_Spent t \<noteq> None \<or> \<not> tk_Expires t > now then (Some HErrPasswordResetTokenInvalid, d)
                  else case ae_gen E password of
                         None \<Rightarrow> (Some HErrHash, d)
                       | Some hash \<Rightarrow>
                           (case db_ResetPassword (tk_ID t) (tk_Human t) hash now d of
                              (Some AErrConsumed, _) \<Rightarrow> (Some HErrPasswordResetTokenInvalid, d)
                            | (Some e, _) \<Rightarrow> (Some (HErrDB e), d)
                            | (None, d1) \<Rightarrow> (None, d1)))"

text \<open>An access token is checked against the clock of the process, not that of the service.\<close>

definition VerifyAccessToken :: "auth_env \<Rightarrow> gotime \<Rightarrow> string \<Rightarrow> claims option" where
  "VerifyAccessToken E wall token = verifyJWT (ae_hmac256 E) (ae_json E) (ae_secret E) token wall"

definition ResendVerification :: "auth_env \<Rightarrow> string \<Rightarrow> acct_db \<Rightarrow> auth_error option \<times> acct_db" where
  "ResendVerification E email d =
     (case GetHumanByEmail (ae_U E) email d of
        None \<Rightarrow> (None, d)
      | Some h \<Rightarrow> if hu_VerifiedAt h \<noteq> None then (None, d) else sendVerificationEmail E 0 h d)"

definition VerifyEmail :: "auth_env \<Rightarrow> string \<Rightarrow> acct_db \<Rightarrow> auth_error option \<times> acct_db" where
  "VerifyEmail E raw d =
     (case token_by_hash (ae_sha E raw) (ac_verify d) of
        None \<Rightarrow> (Some HErrEmailVerificationTokenInvalid, d)
      | Some t \<Rightarrow>
          let now = ae_now E 0
          in if tk_Spent t \<noteq> None \<or> \<not> tk_Expires t > now then (Some HErrEmailVerificationTokenInvalid, d)
             else case db_VerifyEmail (tk_ID t) (tk_Human t) now d of
                    (Some AErrConsumed, _) \<Rightarrow> (Some HErrEmailVerificationTokenInvalid, d)
                  | (Some e, _) \<Rightarrow> (Some (HErrDB e), d)
                  | (None, d1) \<Rightarrow> (None, d1))"

section \<open>Organizations\<close>

definition ha_CreateOrganization :: "auth_env \<Rightarrow> string \<Rightarrow> string \<Rightarrow> acct_db \<Rightarrow> auth_error option \<times> acct_db" where
  "ha_CreateOrganization E human name d =
     (let name = TrimSpace name
      in if name = [] then (Some HErrInput, d)
         else case CreateOrganization (ae_id E 0) human name d of
                (Some e, _) \<Rightarrow> (Some (HErrDB e), d)
              | (None, d1) \<Rightarrow> (None, d1))"

definition InviteToOrganization :: "auth_env \<Rightarrow> string \<Rightarrow> string \<Rightarrow> string \<Rightarrow> acct_db \<Rightarrow> auth_error option \<times> acct_db" where
  "InviteToOrganization E inviter org email d =
     (let email = TrimSpace email
      in if email = [] then (Some HErrInput, d)
         else if \<not> IsTenantOwner org inviter (ac_bill d) then (Some HErrNotOrgOwner, d)
         else case CheckMemberLimit (ae_enforce E) org (ac_bill d) of
                Some e \<Rightarrow> (Some (HErrLimit e), d)
              | None \<Rightarrow>
                  if find_tenant (ac_bill d) org = None \<or> GetHuman inviter d = None then (Some (HErrDB AErrNotFound), d)
                  else case ae_mailer E of
                         None \<Rightarrow> (Some HErrNoMailer, d)
                       | Some send \<Rightarrow>
                           if ae_base E = [] then (Some HErrNoBaseURL, d)
                           else case CreateOrgInvitation (ae_U E) (ae_id E 0) org inviter email (ae_sha E (ae_raw E 0)) (ae_now E 0 + OrgInvitationTTL) (ae_clock E) d of
                                  (Inl e, _) \<Rightarrow> (Some (HErrDB e), d)
                                | (Inr oi, d1) \<Rightarrow>
                                    if \<not> send (email, ae_base E @ ''/accept-invite?token='' @ ae_raw E 0) then (Some HErrSend, d1)
                                    else (None, SupersedeOtherPendingOrgInvitations (ae_U E) org email (tk_ID oi) (oi_CreatedAt oi) (ae_now E 1) d1))"

definition accept_existing :: "auth_env \<Rightarrow> invitation \<Rightarrow> string \<Rightarrow> acct_db \<Rightarrow> (auth_error + login_session option) \<times> acct_db" where
  "accept_existing E oi existing d =
     (case GetHuman existing d of
        None \<Rightarrow> (Inl (HErrDB AErrNotFound), d)
      | Some h \<Rightarrow>
          if normalizeEmail (ae_U E) (hu_Email h) \<noteq> oi_Normalized oi then (Inl HErrOrgInvitationEmailMismatch, d)
          else case AcceptOrgInvitationForExistingHuman (ae_enforce E) (tk_ID oi) (oi_Tenant oi) existing (ae_now E 0) d of
                 (None, d1) \<Rightarrow> (Inr None, d1)
               | (Some e, _) \<Rightarrow> (Inl (if e = AErrConsumed then HErrOrgInvitationInvalid else HErrDB e), d))"

definition accept_signup :: "auth_env \<Rightarrow> invitation \<Rightarrow> string \<Rightarrow> string \<Rightarrow> acct_db \<Rightarrow> (auth_error + login_session option) \<times> acct_db" where
  "accept_signup E oi signupName signupPassword d =
     (let name = TrimSpace signupName
      in if name = [] \<or> length signupPassword < 8 then (Inl HErrInput, d)
         else case ae_gen E signupPassword of
                None \<Rightarrow> (Inl HErrHash, d)
              | Some hash \<Rightarrow>
                  (case AcceptOrgInvitationWithSignup (ae_U E) (ae_enforce E) (ae_id E 1) (tk_ID oi) (oi_Tenant oi) name (oi_RawEmail oi) hash (ae_now E 0) d of
                     (Inr h, d1) \<Rightarrow> apfst (map_sum id Some) (mintSession E 2 h d1)
                   | (Inl e, _) \<Rightarrow> (Inl (if e = AErrConsumed then HErrOrgInvitationInvalid else if e = AErrConflict then HErrEmailTaken else HErrDB e), d)))"

definition AcceptOrgInvitation ::
  "auth_env \<Rightarrow> string \<Rightarrow> string \<Rightarrow> string \<Rightarrow> string \<Rightarrow> acct_db \<Rightarrow> (auth_error + login_session option) \<times> acct_db" where
  "AcceptOrgInvitation E raw existing signupName signupPassword d =
     (case token_by_hash (ae_sha E raw) (ac_invites d) of
        None \<Rightarrow> (Inl HErrOrgInvitationInvalid, d)
      | Some oi \<Rightarrow>
          if tk_Spent oi \<noteq> None \<or> \<not> tk_Expires oi > ae_now E 0 then (Inl HErrOrgInvitationInvalid, d)
          else if find_tenant (ac_bill d) (oi_Tenant oi) = None then (Inl (HErrDB AErrNotFound), d)
          else if existing \<noteq> [] then accept_existing E oi existing d
          else accept_signup E oi signupName signupPassword d)"

section \<open>The second factor\<close>

definition mfaAD :: "string \<Rightarrow> string" where "mfaAD human = ''mfa:'' @ human"

definition normalizeBackupCode :: "auth_env \<Rightarrow> string \<Rightarrow> string" where
  "normalizeBackupCode E c = concat (filter (\<lambda>r. r \<noteq> ''-'' \<and> r \<noteq> '' '') (runes (ToLower (ae_U E) (TrimSpace c))))"

definition EnrollMFA :: "auth_env \<Rightarrow> string \<Rightarrow> acct_db \<Rightarrow> (auth_error + string \<times> string list) \<times> acct_db" where
  "EnrollMFA E human d =
     (if ae_open E = None then (Inl HErrMFANotConfigured, d)
      else case GetHuman human d of
             None \<Rightarrow> (Inl (HErrDB AErrNotFound), d)
           | Some h \<Rightarrow>
               if hu_MFA h then (Inl HErrMFAAlreadyEnabled, d)
               else case SetPendingMFA human (ae_seal E (ae_key E) (mfaAD human)) (map (\<lambda>(i, c). (i, ae_sha E (normalizeBackupCode E c))) (ae_codes E)) d of
                      (Some AErrConflict, _) \<Rightarrow> (Inl HErrMFAAlreadyEnabled, d)
                    | (Some e, _) \<Rightarrow> (Inl (HErrDB e), d)
                    | (None, d1) \<Rightarrow> (Inr (ae_key E, map snd (ae_codes E)), d1))"

definition ConfirmMFA :: "auth_env \<Rightarrow> string \<Rightarrow> string \<Rightarrow> acct_db \<Rightarrow> auth_error option \<times> acct_db" where
  "ConfirmMFA E human code d =
     (case ae_open E of
        None \<Rightarrow> (Some HErrMFANotConfigured, d)
      | Some box \<Rightarrow>
          (case GetHuman human d of
             None \<Rightarrow> (Some (HErrDB AErrNotFound), d)
           | Some m \<Rightarrow>
               if hu_MFA m then (Some HErrMFAAlreadyEnabled, d)
               else case hu_Pending m of
                      None \<Rightarrow> (Some HErrMFANotPending, d)
                    | Some sealed \<Rightarrow>
                        (case box sealed (mfaAD human) of
                           None \<Rightarrow> (Some HErrSecret, d)
                         | Some key \<Rightarrow>
                             (case verifyTOTP (ae_hmac1 E) key (TrimSpace code) (ae_now E 0) of
                                None \<Rightarrow> (Some HErrMFACodeInvalid, d)
                              | Some step \<Rightarrow>
                                  (case ActivateMFA human (fst sealed) step d of
                                     (Some AErrConsumed, _) \<Rightarrow> (Some HErrMFANotPending, d)
                                   | (Some e, _) \<Rightarrow> (Some (HErrDB e), d)
                                   | (None, d1) \<Rightarrow> (None, d1))))))"

definition DisableMFA :: "auth_env \<Rightarrow> string \<Rightarrow> string \<Rightarrow> acct_db \<Rightarrow> auth_error option \<times> acct_db" where
  "DisableMFA E human password d =
     (case GetHuman human d of
        None \<Rightarrow> (Some (HErrDB AErrNotFound), d)
      | Some h \<Rightarrow> if \<not> ae_check E (hu_Password h) password then (Some HErrInvalidCredentials, d) else (None, db_DisableMFA human d))"

definition mfa_fail :: "auth_env \<Rightarrow> challenge \<Rightarrow> acct_db \<Rightarrow> (auth_error + login_session) \<times> acct_db" where
  "mfa_fail E c d = (Inl HErrMFAChallengeInvalid, RecordMFAChallengeFailure (tk_ID c) MFAChallengeMaxAttempts (ae_now E 0) d)"

text \<open>The factor a text stands for: an error, a failed guess (\<open>Inr None\<close>), or a TOTP step or backup code to consume.\<close>

definition read_factor :: "auth_env \<Rightarrow> challenge \<Rightarrow> string \<Rightarrow> acct_db \<Rightarrow> auth_error + (int + string) option" where
  "read_factor E c code d =
     (let code = TrimSpace code
      in if length code = totpDigits then
           (case ae_open E of
              None \<Rightarrow> Inl HErrMFANotConfigured
            | Some box \<Rightarrow>
                (case GetHuman (tk_Human c) d of
                   None \<Rightarrow> Inl (HErrDB AErrNotFound)
                 | Some m \<Rightarrow>
                     if \<not> hu_MFA m then Inl HErrMFAChallengeInvalid
                     else case hu_Secret m of
                            None \<Rightarrow> Inl HErrMFAChallengeInvalid
                          | Some sealed \<Rightarrow>
                              (case box sealed (mfaAD (tk_Human c)) of
                                 None \<Rightarrow> Inl HErrSecret
                               | Some key \<Rightarrow> Inr (map_option Inl (verifyTOTP (ae_hmac1 E) key code (ae_now E 0))))))
         else let n = normalizeBackupCode E code in if length n \<noteq> 16 then Inr None else Inr (Some (Inr (ae_sha E n))))"

definition VerifyMFA :: "auth_env \<Rightarrow> string \<Rightarrow> string \<Rightarrow> acct_db \<Rightarrow> (auth_error + login_session) \<times> acct_db" where
  "VerifyMFA E raw code d =
     (case token_by_hash (ae_sha E raw) (ac_challenges d) of
        None \<Rightarrow> (Inl HErrMFAChallengeInvalid, d)
      | Some c \<Rightarrow>
          let now = ae_now E 0
          in if tk_Spent c \<noteq> None \<or> \<not> tk_Expires c > now then (Inl HErrMFAChallengeInvalid, d)
             else case read_factor E c code d of
                    Inl e \<Rightarrow> (Inl e, d)
                  | Inr None \<Rightarrow> mfa_fail E c d
                  | Inr (Some factor) \<Rightarrow>
                      (case CompleteMFAChallenge (tk_ID c) (tk_Human c) now factor d of
                         (Some AErrConsumed, _) \<Rightarrow> mfa_fail E c d
                       | (Some e, _) \<Rightarrow> (Inl (HErrDB e), d)
                       | (None, d1) \<Rightarrow>
                           (case GetHuman (tk_Human c) d1 of
                              None \<Rightarrow> (Inl (HErrDB AErrNotFound), d1)
                            | Some h \<Rightarrow> completeLogin E 1 h d1)))"

section \<open>OAuth\<close>

definition StartOAuth :: "auth_env \<Rightarrow> string \<Rightarrow> acct_db \<Rightarrow> (auth_error + string) \<times> acct_db" where
  "StartOAuth E provider d =
     (if ae_oauth E provider = None then (Inl HErrOAuthProviderNotConfigured, d)
      else case CreateOAuthState (ae_sha E (ae_raw E 0)) provider (ae_now E 0 + OAuthStateTTL) d of
             (Some e, _) \<Rightarrow> (Inl (HErrDB e), d)
           | (None, d1) \<Rightarrow> (Inr (ae_raw E 0), d1))"

definition exchange :: "provider_net \<Rightarrow> string \<Rightarrow> string option" where
  "exchange p code = (case pn_token p code of None \<Rightarrow> None | Some (token, err) \<Rightarrow> if err \<noteq> [] \<or> token = [] then None else Some token)"

definition verified_primary :: "(string \<times> bool \<times> bool) list \<Rightarrow> string" where
  "verified_primary emails = foldl (\<lambda>a (e, primary, verified). if primary \<and> verified then e else a) [] emails"

definition fetchUser :: "provider_net \<Rightarrow> string \<Rightarrow> string \<Rightarrow> oauth_user option" where
  "fetchUser p provider token =
     (if provider = ''google'' then
        (case pn_google p token of
           None \<Rightarrow> None
         | Some g \<Rightarrow>
             if gg_Sub g = [] \<or> gg_Email g = [] \<or> \<not> gg_Verified g then None
             else Some \<lparr>ou_ID = gg_Sub g, ou_Email = gg_Email g, ou_Name = gg_Name g\<rparr>)
      else case pn_github p token of
             None \<Rightarrow> None
           | Some gh \<Rightarrow>
               (case pn_emails p token of
                  None \<Rightarrow> None
                | Some emails \<Rightarrow>
                    if gh_ID gh = 0 \<or> verified_primary emails = [] then None
                    else Some \<lparr>ou_ID = int_dec (gh_ID gh), ou_Email = verified_primary emails, ou_Name = (if gh_Name gh = [] then gh_Login gh else gh_Name gh)\<rparr>))"

definition oauth_name :: "oauth_user \<Rightarrow> string" where
  "oauth_name u =
     (let name = TrimSpace (ou_Name u); name = (if name = [] then takeWhile (\<lambda>c. c \<noteq> CHR ''@'') (ou_Email u) else name)
      in if length (runes name) > 200 then concat (take 200 (runes name)) else name)"

definition CompleteOAuth :: "auth_env \<Rightarrow> string \<Rightarrow> string \<Rightarrow> string \<Rightarrow> acct_db \<Rightarrow> (auth_error + login_session) \<times> acct_db" where
  "CompleteOAuth E provider code state d =
     (case ae_oauth E provider of
        None \<Rightarrow> (Inl HErrOAuthProviderNotConfigured, d)
      | Some p \<Rightarrow>
          if state = [] then (Inl HErrOAuthStateInvalid, d)
          else case ConsumeOAuthState (ae_sha E state) provider (ae_now E 0) d of
                 (False, d1) \<Rightarrow> (Inl HErrOAuthStateInvalid, d1)
               | (True, d1) \<Rightarrow>
                   if code = [] then (Inl HErrOAuthProvider, d1)
                   else case exchange p code of
                          None \<Rightarrow> (Inl HErrOAuthProvider, d1)
                        | Some token \<Rightarrow>
                            (case fetchUser p provider token of
                               None \<Rightarrow> (Inl HErrOAuthProvider, d1)
                             | Some u \<Rightarrow>
                                 (case ResolveOAuthHuman (ae_U E) (ae_id E 0) provider (ou_ID u) (ou_Email u) (oauth_name u) d1 of
                                    (Inl AErrPasswordLogin, _) \<Rightarrow> (Inl HErrOAuthAccountRequiresPasswordLogin, d1)
                                  | (Inl e, _) \<Rightarrow> (Inl (HErrDB e), d1)
                                  | (Inr (h, _), d2) \<Rightarrow> enter E 1 h d2)))"

section \<open>Calls are runs of transactions\<close>

datatype auth_call =
    CSignUp string string string | CLogin string string | CRefresh string | CLogout string | CForgotPassword string | CResetPassword string string
  | CResendVerification string | CVerifyEmail string | CCreateOrganization string string | CInvite string string string
  | CAcceptInvitation string string string string | CEnrollMFA string | CConfirmMFA string string | CDisableMFA string string
  | CVerifyMFA string string | CStartOAuth string | CCompleteOAuth string string string

fun serve_auth :: "auth_env \<Rightarrow> auth_call \<Rightarrow> acct_db \<Rightarrow> acct_db" where
  "serve_auth E (CSignUp n e p) d = snd (SignUp E n e p d)"
| "serve_auth E (CLogin e p) d = snd (Login E e p d)"
| "serve_auth E (CRefresh r) d = snd (Refresh E r d)"
| "serve_auth E (CLogout r) d = Logout E r d"
| "serve_auth E (CForgotPassword e) d = snd (ForgotPassword E e d)"
| "serve_auth E (CResetPassword r p) d = snd (ResetPassword E r p d)"
| "serve_auth E (CResendVerification e) d = snd (ResendVerification E e d)"
| "serve_auth E (CVerifyEmail r) d = snd (VerifyEmail E r d)"
| "serve_auth E (CCreateOrganization h n) d = snd (ha_CreateOrganization E h n d)"
| "serve_auth E (CInvite h t e) d = snd (InviteToOrganization E h t e d)"
| "serve_auth E (CAcceptInvitation r h n p) d = snd (AcceptOrgInvitation E r h n p d)"
| "serve_auth E (CEnrollMFA h) d = snd (EnrollMFA E h d)"
| "serve_auth E (CConfirmMFA h c) d = snd (ConfirmMFA E h c d)"
| "serve_auth E (CDisableMFA h p) d = snd (DisableMFA E h p d)"
| "serve_auth E (CVerifyMFA r c) d = snd (VerifyMFA E r c d)"
| "serve_auth E (CStartOAuth p) d = snd (StartOAuth E p d)"
| "serve_auth E (CCompleteOAuth p c s) d = snd (CompleteOAuth E p c s d)"

definition reach :: "acct_db \<Rightarrow> acct_db \<Rightarrow> bool" where
  "reach d d' \<longleftrightarrow> (\<exists>es. acct_run d es d')"

named_theorems reach_intros

lemma reach_refl [reach_intros]: "reach d d"
  unfolding reach_def using acct_run.start by blast

lemma reach_step: "acct_step d es d' \<Longrightarrow> reach d d'"
  unfolding reach_def using acct_run.more [OF acct_run.start] by blast

lemma run_append: "acct_run d1 fs d2 \<Longrightarrow> acct_run d es d1 \<Longrightarrow> \<exists>gs. acct_run d gs d2"
  by (induction rule: acct_run.induct) (blast intro: acct_run.more)+

lemma reach_trans: "reach d d1 \<Longrightarrow> reach d1 d2 \<Longrightarrow> reach d d2"
  unfolding reach_def using run_append by blast

lemmas reach_steps [reach_intros] = acct_step.intros [THEN reach_step]

lemma reach_quiet:
  "CreateHuman U i name email hash d = (r1, d') \<Longrightarrow> reach d d'" "CreatePasswordResetToken i h hash ex d = (r2, d') \<Longrightarrow> reach d d'"
  "db_ResetPassword i h hash now d = (r2, d') \<Longrightarrow> reach d d'" "SetPendingMFA h sealed codes d = (r2, d') \<Longrightarrow> reach d d'"
  "CreateMFAChallenge i h hash ex d = (r2, d') \<Longrightarrow> reach d d'" "CreateOAuthState hash p ex d = (r2, d') \<Longrightarrow> reach d d'"
  "ConsumeOAuthState hash p now d = (b, d') \<Longrightarrow> reach d d'" "ResolveOAuthHuman U i p u e n d = (r3, d') \<Longrightarrow> reach d d'"
  "CreateEmailVerificationToken i h hash ex clock d = (r4, d') \<Longrightarrow> reach d d'" "db_VerifyEmail i h now d = (r2, d') \<Longrightarrow> reach d d'"
  "CreateOrgInvitation U i t h e hash ex clock d = (r5, d') \<Longrightarrow> reach d d'" "CreateOrganization i h n d = (r2, d') \<Longrightarrow> reach d d'"
  by (metis reach_steps snd_conv)+

lemma mint_reach: "reach d (snd (mintSession E k h d))"
  unfolding mintSession_def issueRefreshToken_def Let_def by (auto intro: reach_intros split: prod.split option.split)

lemma completeLogin_reach: "reach d (snd (completeLogin E k h d))"
  unfolding completeLogin_def Let_def by (auto intro: reach_intros split: prod.split sum.split)

lemma enter_reach: "reach d (snd (enter E k h d))"
  unfolding enter_def newMFAChallenge_def Let_def by (auto intro: reach_intros reach_quiet completeLogin_reach split: prod.split option.split)

lemma reach_supersede: "reach d d1 \<Longrightarrow> reach d (SupersedeOtherEmailVerificationTokens h i x y d1)"
  by (rule reach_trans [OF _ reach_step [OF acct_step.supersede]])

lemma reach_supersede_invites: "reach d d1 \<Longrightarrow> reach d (SupersedeOtherPendingOrgInvitations U t e i x y d1)"
  by (rule reach_trans [OF _ reach_step [OF acct_step.supersede_invites]])

lemma sendVerification_reach: "reach d (snd (sendVerificationEmail E k h d))"
  unfolding sendVerificationEmail_def Let_def
  by (auto intro: reach_refl reach_quiet reach_supersede split: prod.split sum.split option.split acct_error.split)

lemma complete_reach: "CompleteMFAChallenge i h now f d = (None, d') \<Longrightarrow> reach d d'"
  by (cases f) (auto intro: reach_steps, metis reach_steps(16) snd_conv)

lemma rotate_reach:
  assumes "keys_ok (ac_refresh d)" and "token_by_hash hash (ac_refresh d) = Some t" and "GetHuman (tk_Human t) d = Some h"
    and "RotateRefreshToken (tk_ID t) i (hu_ID h) hash' now ex d = (None, d')"
  shows "reach d d'"
proof (rule reach_step, rule acct_step.rotate)
  show "RotateRefreshToken (tk_ID t) i (hu_ID h) hash' now ex d = (None, d')" by fact
  have "t \<in> set (ac_refresh d)" using assms(2) by (auto simp: token_by_hash_def find_Some_iff)
  moreover have "hu_ID h = tk_Human t" using assms(3) by (auto simp: GetHuman_def find_Some_iff)
  moreover have "inj_on tk_ID (set (ac_refresh d))" using assms(1) by (simp add: keys_ok_def distinct_map)
  ultimately show "\<forall>u\<in>set (ac_refresh d). tk_ID u = tk_ID t \<longrightarrow> tk_Human u = hu_ID h" by (auto simp: inj_on_def)
qed

lemma signup_reach: "reach d (snd (SignUp E n e p d))"
proof -
  have m: "CreateHuman U i x y hash d = (r, d1) \<Longrightarrow> reach d (snd (mintSession E k h (snd (sendVerificationEmail E j h d1))))" for U i x y hash r d1 h k j
    using reach_trans [OF reach_trans [OF reach_quiet(1) sendVerification_reach] mint_reach] .
  show ?thesis unfolding SignUp_def Let_def
    by (auto intro: reach_refl m split: prod.split sum.split option.split acct_error.split)
qed

lemma refresh_reach: "keys_ok (ac_refresh d) \<Longrightarrow> reach d (snd (Refresh E r d))"
  unfolding Refresh_def Let_def
  by (auto intro: reach_refl reach_steps(7) rotate_reach split: prod.split sum.split option.split acct_error.split)

lemma invite_reach: "reach d (snd (InviteToOrganization E h t e d))"
  unfolding InviteToOrganization_def Let_def
  by (auto intro: reach_refl reach_quiet reach_supersede_invites split: prod.split sum.split option.split)

lemma accept_existing_reach: "reach d (snd (accept_existing E oi h d))"
  unfolding accept_existing_def by (auto intro: reach_refl reach_step [OF acct_step.accept] split: prod.split option.split)

lemma accept_signup_reach: "reach d (snd (accept_signup E oi n p d))"
proof -
  have m: "AcceptOrgInvitationWithSignup U en i j t x e hash now d = (Inr y, d1) \<Longrightarrow> reach d (snd (mintSession E k y d1))" for U en i j t x e hash now y d1 k
    using reach_trans [OF reach_step [OF acct_step.signup] mint_reach] .
  show ?thesis unfolding accept_signup_def Let_def by (auto intro: reach_refl m split: prod.split sum.split option.split)
qed

lemma accept_reach: "reach d (snd (AcceptOrgInvitation E r h n p d))"
  unfolding AcceptOrgInvitation_def by (auto intro: reach_refl accept_existing_reach accept_signup_reach split: option.split)

lemma verifyMFA_reach: "reach d (snd (VerifyMFA E r c d))"
proof -
  have f: "reach d (snd (mfa_fail E ch d))" for ch by (simp add: mfa_fail_def reach_step [OF acct_step.guess])
  have l: "CompleteMFAChallenge i h now x d = (None, d1) \<Longrightarrow> reach d (snd (completeLogin E k y d1))" for i h now x d1 k y
    by (rule reach_trans [OF complete_reach completeLogin_reach])
  show ?thesis unfolding VerifyMFA_def Let_def
    by (auto intro: reach_refl f l complete_reach split: prod.split sum.split option.split acct_error.split)
qed

lemma oauth_reach: "reach d (snd (CompleteOAuth E p c s d))"
proof -
  have "ConsumeOAuthState a b x d = (True, d1) \<Longrightarrow> ResolveOAuthHuman U i b' u e n d1 = (Inr y, d2) \<Longrightarrow> reach d (snd (enter E k h d2))" for a b x d1 U i b' u e n y d2 k h
    by (rule reach_trans [OF reach_trans [OF reach_quiet(7) reach_quiet(8)] enter_reach])
  then show ?thesis unfolding CompleteOAuth_def Let_def
    by (auto intro: reach_refl reach_quiet(7) split: prod.split sum.split option.split bool.split acct_error.split)
qed

lemma serve_reach:
  assumes "keys_ok (ac_refresh d)"
  shows "reach d (serve_auth E c d)"
proof (cases c)
  case (CLogin e p)
  then show ?thesis by (auto simp: Login_def intro: reach_refl enter_reach split: option.split)
next
  case (CLogout r)
  then show ?thesis by (auto simp: Logout_def intro: reach_refl reach_step [OF acct_step.revoke] split: option.split)
next
  case (CForgotPassword e)
  then show ?thesis by (auto simp: ForgotPassword_def intro: reach_refl reach_quiet split: option.split prod.split)
next
  case (CResetPassword r p)
  then show ?thesis by (auto simp: ResetPassword_def Let_def intro: reach_refl reach_quiet split: option.split prod.split acct_error.split)
next
  case (CVerifyEmail r)
  then show ?thesis by (auto simp: VerifyEmail_def Let_def intro: reach_refl reach_quiet split: option.split prod.split acct_error.split)
next
  case (CResendVerification e)
  then show ?thesis by (auto simp: ResendVerification_def intro: reach_refl sendVerification_reach split: option.split)
next
  case (CCreateOrganization h n)
  then show ?thesis by (auto simp: ha_CreateOrganization_def Let_def intro: reach_refl reach_quiet split: option.split prod.split)
next
  case (CEnrollMFA h)
  then show ?thesis by (auto simp: EnrollMFA_def Let_def intro: reach_refl reach_quiet split: option.split prod.split acct_error.split)
next
  case (CConfirmMFA h x)
  then show ?thesis by (auto simp: ConfirmMFA_def intro: reach_refl reach_step [OF acct_step.activate] split: option.split prod.split acct_error.split)
next
  case (CDisableMFA h p)
  then show ?thesis by (auto simp: DisableMFA_def intro: reach_refl reach_step [OF acct_step.disable] split: option.split)
next
  case (CStartOAuth p)
  then show ?thesis by (auto simp: StartOAuth_def intro: reach_refl reach_quiet split: option.split prod.split)
qed (simp_all add: signup_reach refresh_reach assms invite_reach accept_reach verifyMFA_reach oauth_reach)


section \<open>Factors\<close>

lemma GetHuman_some: "GetHuman i d = Some h \<Longrightarrow> h \<in> set (ac_humans d) \<and> hu_ID h = i"
  by (auto simp: GetHuman_def find_Some_iff)

lemma token_some: "token_by_hash x ts = Some t \<Longrightarrow> t \<in> set ts \<and> tk_Hash t = x"
  by (auto simp: token_by_hash_def find_Some_iff)

lemma completeLogin_some: "completeLogin E k h d = (Inr s, d') \<Longrightarrow> hu_ID (ss_Human s) = hu_ID h \<and> hu_MFA (ss_Human s) = hu_MFA h"
  by (auto simp: completeLogin_def Let_def split: prod.splits sum.splits)

lemma completeLogin_challenges: "ac_challenges (snd (completeLogin E k h d)) = ac_challenges d"
  by (auto simp: completeLogin_def Let_def dest!: login_success split: prod.split sum.split)

lemma enter_some: "enter E k h d = (Inr s, d') \<Longrightarrow> \<not> hu_MFA h \<and> hu_ID (ss_Human s) = hu_ID h"
  using completeLogin_some by (auto simp: enter_def split: if_splits prod.splits)

definition totp_proof :: "auth_env \<Rightarrow> challenge \<Rightarrow> string \<Rightarrow> acct_db \<Rightarrow> bool" where
  "totp_proof E c code d \<longleftrightarrow> (\<exists>h\<in>set (ac_humans d). \<exists>box sealed key step. hu_ID h = tk_Human c \<and> hu_MFA h \<and> hu_Secret h = Some sealed \<and> ae_open E = Some box \<and>
     box sealed (mfaAD (tk_Human c)) = Some key \<and> verifyTOTP (ae_hmac1 E) key (TrimSpace code) (ae_now E 0) = Some step \<and>
     (\<exists>x\<in>set (ac_humans d). hu_ID x = tk_Human c \<and> hu_MFA x \<and> step_newer step x))"

definition backup_proof :: "auth_env \<Rightarrow> challenge \<Rightarrow> string \<Rightarrow> acct_db \<Rightarrow> bool" where
  "backup_proof E c code d \<longleftrightarrow> (\<exists>b\<in>set (ac_backup d). tk_Human b = tk_Human c \<and> tk_Spent b = None \<and> tk_Hash b = ae_sha E (normalizeBackupCode E (TrimSpace code)))"

lemma complete_backup:
  assumes "CompleteMFAChallenge i human now (Inr x) d = (None, d')"
  shows "\<exists>b\<in>set (ac_backup d). tk_Human b = human \<and> tk_Spent b = None \<and> tk_Hash b = x"
proof -
  obtain cs where "consume_factor human now (Inr x) (d\<lparr>ac_challenges := cs\<rparr>) = (True, d')" using complete_success [OF assms] by blast
  then show ?thesis by (auto simp: consume_factor_def spend_where_def list_ex_iff)
qed

lemma complete_totp:
  assumes "CompleteMFAChallenge i human now (Inl step) d = (None, d')"
  shows "\<exists>x\<in>set (ac_humans d). hu_ID x = human \<and> hu_MFA x \<and> step_newer step x"
proof -
  obtain cs where "consume_factor human now (Inl step) (d\<lparr>ac_challenges := cs\<rparr>) = (True, d')" using complete_success [OF assms] by blast
  from consume_step(1) [OF this] show ?thesis by simp
qed

lemma read_factor_totp:
  assumes "read_factor E c code d = Inr (Some (Inl step))"
  shows "\<exists>h box sealed key. h \<in> set (ac_humans d) \<and> hu_ID h = tk_Human c \<and> hu_MFA h \<and> hu_Secret h = Some sealed \<and> ae_open E = Some box \<and>
     box sealed (mfaAD (tk_Human c)) = Some key \<and> verifyTOTP (ae_hmac1 E) key (TrimSpace code) (ae_now E 0) = Some step"
  using assms by (auto simp: read_factor_def Let_def split: if_splits option.splits dest!: GetHuman_some)

lemma read_factor_backup: "read_factor E c code d = Inr (Some (Inr x)) \<Longrightarrow> x = ae_sha E (normalizeBackupCode E (TrimSpace code))"
  by (auto simp: read_factor_def Let_def split: if_splits option.splits)

lemma verify_session:
  assumes "VerifyMFA E raw code d = (Inr s, d')"
  shows "\<exists>c factor d1 h. token_by_hash (ae_sha E raw) (ac_challenges d) = Some c \<and> tk_Spent c = None \<and> tk_Expires c > ae_now E 0 \<and>
     read_factor E c code d = Inr (Some factor) \<and> CompleteMFAChallenge (tk_ID c) (tk_Human c) (ae_now E 0) factor d = (None, d1) \<and>
     GetHuman (tk_Human c) d1 = Some h \<and> completeLogin E 1 h d1 = (Inr s, d')"
  using assms by (auto simp: VerifyMFA_def mfa_fail_def Let_def split: option.splits if_splits sum.splits prod.splits acct_error.splits)


section \<open>Guesses\<close>

lemma token_unique:
  assumes "keys_ok ts" and "t \<in> set ts" and "tk_Hash t = x"
  shows "token_by_hash x ts = Some t"
proof -
  obtain u where u: "token_by_hash x ts = Some u" using assms(2,3) by (cases "token_by_hash x ts") (auto simp: token_by_hash_def find_None_iff)
  have "inj_on tk_Hash (set ts)" using assms(1) by (simp add: keys_ok_def distinct_map)
  then show ?thesis using u token_some [OF u] assms(2,3) by (auto simp: inj_on_def)
qed

lemma fail_counted:
  assumes "c \<in> set (ac_challenges d)"
  shows "\<exists>c'\<in>set (ac_challenges (snd (mfa_fail E c d))). tk_ID c' = tk_ID c \<and> ch_Failed c' = Suc (ch_Failed c)"
  using assms by (intro bexI [of _ "fail_challenge MFAChallengeMaxAttempts (ae_now E 0) c"])
    (auto simp: mfa_fail_def RecordMFAChallengeFailure_def fail_challenge_def intro: image_eqI [of _ _ c])

lemma complete_spends:
  assumes "CompleteMFAChallenge (tk_ID c) (tk_Human c) now f d = (None, d1)" and "c \<in> set (ac_challenges d)" and "tk_Expires c > now"
  shows "\<exists>c'\<in>set (ac_challenges d1). tk_ID c' = tk_ID c \<and> tk_Spent c' \<noteq> None"
proof -
  let ?w = "\<lambda>x. tk_ID x = tk_ID c \<and> tk_Human x = tk_Human c \<and> tk_Expires x > now"
  obtain cs where cs: "spend_where ?w now (ac_challenges d) = (True, cs)"
    "consume_factor (tk_Human c) now f (d\<lparr>ac_challenges := cs\<rparr>) = (True, d1)" using complete_success [OF assms(1)] by blast
  have "ac_challenges d1 = cs" using consume_factor_tables(5) [of "tk_Human c" now f "d\<lparr>ac_challenges := cs\<rparr>"] cs(2) by simp
  then show ?thesis using spent_rows [OF assms(2), of ?w now] cs(1) assms(3) by auto
qed

text \<open>
  Guesses at a second factor are bounded. In every reachable state, a text offered against an open challenge and
  compared with a factor either uses the challenge up or raises its count of failures, and a challenge with five failures
  refuses every text.
\<close>

theorem mfa_guess_budget:
  assumes "acct_init d0" and "acct_run d0 es d" and "c \<in> set (ac_challenges d)" and "tk_Hash c = ae_sha E raw"
  shows "(MFAChallengeMaxAttempts \<le> ch_Failed c \<longrightarrow> VerifyMFA E raw code d = (Inl HErrMFAChallengeInvalid, d)) \<and>
    (tk_Spent c = None \<longrightarrow> tk_Expires c > ae_now E 0 \<longrightarrow> read_factor E c code d = Inr r \<longrightarrow>
      (\<exists>c'\<in>set (ac_challenges (snd (VerifyMFA E raw code d))). tk_ID c' = tk_ID c \<and> (tk_Spent c' \<noteq> None \<or> ch_Failed c' = Suc (ch_Failed c))))"
proof -
  have ci: "challenge_inv d" using challenge_inv_run [OF assms(2) challenge_inv_init [OF assms(1)]] .
  then have t: "token_by_hash (ae_sha E raw) (ac_challenges d) = Some c" using token_unique assms(3,4) by (auto simp: challenge_inv_def)
  have "VerifyMFA E raw code d = (Inl HErrMFAChallengeInvalid, d)" if "MFAChallengeMaxAttempts \<le> ch_Failed c"
  proof -
    have "tk_Spent c \<noteq> None" using ci assms(3) that by (simp add: challenge_inv_def)
    then show ?thesis unfolding VerifyMFA_def t by simp
  qed
  moreover have "\<exists>c'\<in>set (ac_challenges (snd (VerifyMFA E raw code d))). tk_ID c' = tk_ID c \<and> (tk_Spent c' \<noteq> None \<or> ch_Failed c' = Suc (ch_Failed c))"
    if o: "tk_Spent c = None" "tk_Expires c > ae_now E 0" "read_factor E c code d = Inr r"
  proof (cases "\<exists>f d1. r = Some f \<and> CompleteMFAChallenge (tk_ID c) (tk_Human c) (ae_now E 0) f d = (None, d1)")
    case True
    then obtain f d1 where f: "r = Some f" "CompleteMFAChallenge (tk_ID c) (tk_Human c) (ae_now E 0) f d = (None, d1)" by blast
    then have "ac_challenges (snd (VerifyMFA E raw code d)) = ac_challenges d1"
      unfolding VerifyMFA_def t using o by (simp add: completeLogin_challenges split: option.split)
    then show ?thesis using complete_spends [OF f(2) assms(3) o(2)] by auto
  next
    case False
    have e: "fst (CompleteMFAChallenge i h now f d) \<in> {None, Some AErrConsumed}" for i h now f
      by (auto simp: CompleteMFAChallenge_def split: prod.splits bool.splits)
    have "VerifyMFA E raw code d = mfa_fail E c d"
    proof (cases r)
      case None
      then show ?thesis unfolding VerifyMFA_def t using o by simp
    next
      case (Some f)
      obtain x d1 where x: "CompleteMFAChallenge (tk_ID c) (tk_Human c) (ae_now E 0) f d = (x, d1)" by fastforce
      then have "x = Some AErrConsumed" using e [of "tk_ID c" "tk_Human c" "ae_now E 0" f] False Some by auto
      then show ?thesis unfolding VerifyMFA_def t using o x Some by simp
    qed
    then show ?thesis using fail_counted [OF assms(3), of E] by auto
  qed
  ultimately show ?thesis by blast
qed

section \<open>OAuth\<close>

lemma verified_primary_in: "verified_primary es \<noteq> [] \<Longrightarrow> (verified_primary es, True, True) \<in> set es"
  unfolding verified_primary_def by (induction es rule: rev_induct) (auto split: if_splits)

definition provider_verified :: "provider_net \<Rightarrow> string \<Rightarrow> string \<Rightarrow> string \<Rightarrow> bool" where
  "provider_verified p provider token email \<longleftrightarrow>
     (if provider = ''google'' then (\<exists>g. pn_google p token = Some g \<and> gg_Verified g \<and> gg_Email g = email)
      else (\<exists>es. pn_emails p token = Some es \<and> (email, True, True) \<in> set es))"

lemma fetchUser_verified: "fetchUser p provider token = Some u \<Longrightarrow> ou_Email u \<noteq> [] \<and> provider_verified p provider token (ou_Email u)"
  by (auto simp: fetchUser_def provider_verified_def verified_primary_in split: if_splits option.splits)

lemma resolve_owner:
  assumes "ResolveOAuthHuman U i p u e n d = (Inr (h, new), d')"
  shows "map_of (ac_identities d') (p, u) = Some (hu_ID h) \<and>
    (map_of (ac_identities d) (p, u) = Some (hu_ID h)
     \<or> (h \<in> set (ac_humans d) \<and> hu_Normalized h = normalizeEmail U e \<and> hu_Password h = unusablePasswordHash)
     \<or> (GetHumanByEmail U e d = None \<and> GetHuman (hu_ID h) d = None))"
proof (cases "map_of (ac_identities d) (p, u)")
  case None
  show ?thesis
  proof (cases "GetHumanByEmail U e d")
    case nobody: None
    then have "fst (insert_human (new_human U i n e unusablePasswordHash) d) = None" "h = new_human U i n e unusablePasswordHash"
      "d' = (snd (insert_human h d))\<lparr>ac_identities := ((p, u), i) # ac_identities (snd (insert_human h d))\<rparr>"
      using assms None by (auto simp: ResolveOAuthHuman_def Let_def split: prod.splits option.splits)
    moreover from this(1,2) have "GetHuman i d = None" by (auto simp: insert_human_def GetHuman_def find_None_iff list_ex_iff new_human_def split: if_splits)
    ultimately show ?thesis using nobody by (auto simp: new_human_def)
  next
    case (Some x)
    then have "hu_Password x = unusablePasswordHash" "h = x" "d' = d\<lparr>ac_identities := ((p, u), hu_ID x) # ac_identities d\<rparr>"
      using assms None by (auto simp: ResolveOAuthHuman_def split: if_splits)
    then show ?thesis using Some by (auto simp: GetHumanByEmail_def find_Some_iff)
  qed
next
  case (Some j)
  then have "GetHuman j d = Some h" "d' = d" using assms by (auto simp: ResolveOAuthHuman_def split: option.splits)
  then show ?thesis using Some GetHuman_some [of j d h] by simp
qed

lemma consume_state:
  assumes "ConsumeOAuthState x p now d = (True, d1)"
  shows "\<exists>ex>now. (x, p, ex) \<in> set (ac_states d)" "ac_humans d1 = ac_humans d" "ac_identities d1 = ac_identities d"
    "\<forall>y\<in>set (ac_states d1). fst y \<noteq> x \<or> fst (snd y) \<noteq> p"
proof -
  have "filter (\<lambda>(h, q, e). h = x \<and> q = p \<and> e > now) (ac_states d) \<noteq> []" using assms by (auto simp: ConsumeOAuthState_def Let_def)
  then show "\<exists>ex>now. (x, p, ex) \<in> set (ac_states d)" by (auto simp: filter_empty_conv)
  show "ac_humans d1 = ac_humans d" "ac_identities d1 = ac_identities d" "\<forall>y\<in>set (ac_states d1). fst y \<noteq> x \<or> fst (snd y) \<noteq> p"
    using assms by (auto simp: ConsumeOAuthState_def Let_def)
qed

text \<open>
  (C35) Signing in through a provider never takes over an account with a password. A session comes only from an unexpired
  state that was handed out for that provider, an address the provider itself has verified, and an account without a second
  factor that was linked to that provider identity before, or has that address and no password, or did not exist.
\<close>

theorem oauth_never_takes_over:
  assumes "CompleteOAuth E provider code state d = (Inr s, d')"
  shows "\<exists>p token u. ae_oauth E provider = Some p \<and> exchange p code = Some token \<and> fetchUser p provider token = Some u \<and>
    provider_verified p provider token (ou_Email u) \<and> (\<exists>ex > ae_now E 0. (ae_sha E state, provider, ex) \<in> set (ac_states d)) \<and>
    (map_of (ac_identities d) (provider, ou_ID u) = Some (hu_ID (ss_Human s))
     \<or> (\<exists>h\<in>set (ac_humans d). hu_ID h = hu_ID (ss_Human s) \<and> hu_Normalized h = normalizeEmail (ae_U E) (ou_Email u) \<and> hu_Password h = unusablePasswordHash \<and> \<not> hu_MFA h)
     \<or> (GetHumanByEmail (ae_U E) (ou_Email u) d = None \<and> GetHuman (hu_ID (ss_Human s)) d = None))"
proof -
  obtain p d1 token u h new d2 where o: "ae_oauth E provider = Some p" "ConsumeOAuthState (ae_sha E state) provider (ae_now E 0) d = (True, d1)"
    "exchange p code = Some token" "fetchUser p provider token = Some u"
    "ResolveOAuthHuman (ae_U E) (ae_id E 0) provider (ou_ID u) (ou_Email u) (oauth_name u) d1 = (Inr (h, new), d2)" "enter E 1 h d2 = (Inr s, d')"
    using assms by (auto simp: CompleteOAuth_def split: option.splits if_splits prod.splits bool.splits sum.splits acct_error.splits)
  note c = consume_state [OF o(2)]
  have g: "GetHumanByEmail U e d1 = GetHumanByEmail U e d" "GetHuman i d1 = GetHuman i d" for U e i
    using c(2) by (simp_all add: GetHumanByEmail_def GetHuman_def)
  show ?thesis using o(1,3,4) c(1) fetchUser_verified [OF o(4)] resolve_owner [OF o(5)] enter_some [OF o(6)] unfolding g c(2,3) by metis
qed

section \<open>What a reset leaves\<close>

text \<open>
  A password reset does not touch open challenges: a challenge that was issued on the old password is completed after
  the reset exactly as before it.
\<close>

theorem reset_keeps_challenges:
  assumes "db_ResetPassword i h hash now d = (None, d1)"
  shows "ac_challenges d1 = ac_challenges d \<and> read_factor E c code d1 = read_factor E c code d \<and>
    fst (CompleteMFAChallenge j k now' f d1) = fst (CompleteMFAChallenge j k now' f d)"
proof -
  let ?g = "\<lambda>x. if hu_ID x = h then x\<lparr>hu_Password := hash\<rparr> else x"
  have d1: "ac_humans d1 = map ?g (ac_humans d)" "ac_challenges d1 = ac_challenges d" "ac_backup d1 = ac_backup d"
    using assms by (auto simp: db_ResetPassword_def RevokeAllRefreshTokensForHuman_def split: prod.splits bool.splits)
  have "find (\<lambda>y. hu_ID y = x) (map ?g hs) = map_option ?g (find (\<lambda>y. hu_ID y = x) hs)" for x hs by (induction hs) auto
  then have "GetHuman x d1 = map_option ?g (GetHuman x d)" for x unfolding GetHuman_def d1(1) .
  then have "read_factor E c code d1 = read_factor E c code d"
    by (auto simp: read_factor_def Let_def split: option.split)
  moreover have "list_ex (\<lambda>x. hu_ID x = k \<and> hu_MFA x \<and> step_newer st x) (map ?g hs) = list_ex (\<lambda>x. hu_ID x = k \<and> hu_MFA x \<and> step_newer st x) hs" for st hs
    by (induction hs) (auto simp: step_newer_def)
  then have "fst (consume_factor k now' f (d1\<lparr>ac_challenges := cs\<rparr>)) = fst (consume_factor k now' f (d\<lparr>ac_challenges := cs\<rparr>))" for cs
    using d1(1,3) by (simp add: consume_factor_def Let_def split: sum.split prod.split)
  then have "fst (CompleteMFAChallenge j k now' f d1) = fst (CompleteMFAChallenge j k now' f d)"
    using d1(2) by (auto simp: CompleteMFAChallenge_def split: prod.split bool.split) (metis fst_conv)+
  ultimately show ?thesis using d1(2) by blast
qed

section \<open>Examples\<close>

definition auth_demo :: auth_env where
  "auth_demo = \<lparr>ae_U = plain_unicode, ae_sha = (\<lambda>s. if s = ''0123456789abcdef'' then ''y1'' else s), ae_check = (=), ae_gen = Some, ae_hmac1 = (\<lambda>k m. replicate 20 (last m)),
     ae_hmac256 = (\<lambda>k m. k), ae_json = jwt_demo, ae_secret = ''s'', ae_seal = Pair, ae_open = Some (\<lambda>x _. Some (fst x)), ae_mailer = None, ae_base = [],
     ae_oauth = (\<lambda>_. Some \<lparr>pn_token = (\<lambda>c. Some (c, [])), pn_google = (\<lambda>_. Some \<lparr>gg_Sub = ''7'', gg_Email = ''n@b'', gg_Verified = True, gg_Name = ''Nan''\<rparr>),
        pn_github = (\<lambda>_. None), pn_emails = (\<lambda>_. None)\<rparr>),
     ae_enforce = True, ae_now = (\<lambda>_. 10), ae_clock = 10, ae_raw = (\<lambda>n. replicate (Suc n) (CHR ''R'')), ae_id = (\<lambda>n. replicate (Suc n) (CHR ''I'')), ae_key = ''k'', ae_codes = []\<rparr>"

definition auth_demo_db :: acct_db where
  "auth_demo_db = snd (CreateMFAChallenge ''k1'' ''h'' ''z1'' 50 acct_demo4)"

lemma auth_demo_run: "\<exists>es. acct_run acct_demo0 es auth_demo_db"
proof -
  have "ActivateMFA ''h'' ''c'' 6 (snd (SetPendingMFA ''h'' (''c'', ''n'') [(''b1'', ''y1'')] acct_demo3)) = (None, acct_demo4)"
    unfolding acct_demo4_def by (rule fst_None) (simp add: acct_demo_states acct_eval)
  then show ?thesis unfolding auth_demo_db_def
    using run_two [OF acct_run.more [OF run_two [OF acct_demo_run3 acct_step.enroll] acct_step.activate] acct_step.challenge] by blast
qed

lemma auth_demo_values: "ae_now auth_demo n = 10" "ae_sha auth_demo ''z1'' = ''z1''" "ae_sha auth_demo ''RR'' = ''RR''" "ae_id auth_demo (Suc 0) = ''II''" "ae_raw auth_demo (Suc 0) = ''RR''"
  by (simp_all add: auth_demo_def)

lemma auth_demo_session: "\<not> isl (fst (VerifyMFA auth_demo ''z1'' ''0123-4567-89ab-cdef'' auth_demo_db))"
proof -
  have n: "normalizeBackupCode auth_demo (TrimSpace ''0123-4567-89ab-cdef'') = ''0123456789abcdef'' \<and> length (TrimSpace ''0123-4567-89ab-cdef'') = 19"
    by (simp add: normalizeBackupCode_def auth_demo_def ToLower_def TrimSpace_printable plain_unicode_def concat_runes_ascii lower_byte_def is_upper_def ascii_def)
  then have r: "read_factor auth_demo c ''0123-4567-89ab-cdef'' d = Inr (Some (Inr ''y1''))" for c d
    by (simp add: read_factor_def totpDigits_def Let_def) (simp add: auth_demo_def)
  show ?thesis
    by (simp add: VerifyMFA_def r auth_demo_values auth_demo_db_def acct_demo_states acct_eval token_by_hash_def completeLogin_def TouchLoginAndCreateRefreshToken_def TouchHumanLogin_def)
qed


theorem mfa_guess_budget_witness:
  "\<exists>c'\<in>set (ac_challenges (snd (VerifyMFA auth_demo ''z1'' ''guess'' auth_demo_db))). tk_ID c' = ''k1'' \<and> (tk_Spent c' \<noteq> None \<or> ch_Failed c' = 1)"
proof -
  let ?c = "\<lparr>tk_ID = ''k1'', tk_Human = ''h'', tk_Hash = ''z1'', tk_Expires = 50, tk_Spent = None, ch_Failed = 0\<rparr>"
  obtain es where r: "acct_run acct_demo0 es auth_demo_db" using auth_demo_run by blast
  have c: "?c \<in> set (ac_challenges auth_demo_db)" by (simp add: auth_demo_db_def acct_demo_states acct_eval)
  have h: "tk_Hash ?c = ae_sha auth_demo ''z1''" by (simp add: auth_demo_def)
  have "normalizeBackupCode auth_demo ''guess'' = ''guess'' \<and> TrimSpace ''guess'' = ''guess''"
    by (simp add: normalizeBackupCode_def auth_demo_def ToLower_def TrimSpace_printable plain_unicode_def concat_runes_ascii lower_byte_def is_upper_def ascii_def)
  then have "read_factor auth_demo ?c ''guess'' auth_demo_db = Inr None" by (simp add: read_factor_def totpDigits_def Let_def)
  then show ?thesis using mfa_guess_budget [OF acct_demo_init r c h, of "''guess''" None] by (simp add: auth_demo_def)
qed


definition oauth_demo_db :: acct_db where
  "oauth_demo_db = snd (CreateOAuthState ''st'' ''google'' 60 acct_demo1)"

lemma oauth_demo_session: "\<not> isl (fst (CompleteOAuth auth_demo ''google'' ''co'' ''st'' oauth_demo_db))"
proof -
  have n: "oauth_name \<lparr>ou_ID = ''7'', ou_Email = ''n@b'', ou_Name = ''Nan''\<rparr> = ''Nan'' \<and> schema_name ''Nan'' \<and> normalizeEmail plain_unicode ''n@b'' = ''n@b'' \<and> schema_email ''n@b''"
    by (simp add: oauth_name_def schema_name_def schema_email_def normalizeEmail_def ToLower_def TrimSpace_printable concat_runes_ascii lower_byte_def is_upper_def ascii_def ascii_space_def)
  then show ?thesis
    by (simp add: CompleteOAuth_def auth_demo_def oauth_demo_db_def acct_demo1_code acct_eval CreateOAuthState_def ConsumeOAuthState_def exchange_def fetchUser_def
        ResolveOAuthHuman_def GetHumanByEmail_def enter_def completeLogin_def TouchLoginAndCreateRefreshToken_def TouchHumanLogin_def)
qed

theorem oauth_never_takes_over_witness:
  "\<exists>p token (u :: oauth_user). exchange p ''co'' = Some token \<and> provider_verified p ''google'' token (ou_Email u) \<and> (\<exists>ex>10. (''st'', ''google'', ex) \<in> set (ac_states oauth_demo_db))"
proof -
  obtain s where "CompleteOAuth auth_demo ''google'' ''co'' ''st'' oauth_demo_db = (Inr s, snd (CompleteOAuth auth_demo ''google'' ''co'' ''st'' oauth_demo_db))"
    using oauth_demo_session by (metis isl_def prod.collapse sum.collapse(2))
  note e = oauth_never_takes_over [OF this]
  have n: "ae_now auth_demo 0 = 10" "ae_sha auth_demo ''st'' = ''st''" by (simp_all add: auth_demo_def)
  from e show ?thesis unfolding n
  proof (elim exE conjE)
    fix p token and u :: oauth_user and ex
    assume "exchange p ''co'' = Some token" "provider_verified p ''google'' token (ou_Email u)" "10 < ex" "(''st'', ''google'', ex) \<in> set (ac_states oauth_demo_db)"
    then show ?thesis by (intro exI conjI)
  qed
qed

end
