(* ===== verification/API_Keys.thy ===== *)
theory API_Keys
  imports Billing_API Webhook Auth_Tokens
begin

text \<open>
  API keys (\<^verbatim>\<open>internal/auth/apikey.go\<close>, \<^verbatim>\<open>service.go\<close>, \<^verbatim>\<open>internal/database/api_keys.go\<close>), the middleware and the routes that
  use them (\<^verbatim>\<open>internal/api/authmiddleware.go\<close>, \<^verbatim>\<open>apikeys_handler.go\<close>), and the signed tokens of \<^verbatim>\<open>internal/tracking/token.go\<close>. SHA-256, HMAC, JSON and
  the random bytes are parameters; whether a statement reaches the database is given where the code tells the cases
  apart. The theorems: the text of a key and its parts determine each other, authentication succeeds exactly for
  a live key with the right secret, a dead key stays dead under any interleaving, a route touches only keys of its own
  organization.
\<close>

section \<open>Keys\<close>

definition keyPrefix :: string where "keyPrefix = ''mx''"
definition keyIDBytes :: nat where "keyIDBytes = 16"
definition secretBytes :: nat where "secretBytes = 32"
definition keyIDHexLen :: nat where "keyIDHexLen = keyIDBytes * 2"
definition secretHexLen :: nat where "secretHexLen = secretBytes * 2"
definition maxRawKeyLen :: nat where "maxRawKeyLen = 8 + keyIDHexLen + secretHexLen"

definition ValidScopes :: "string list" where
  "ValidScopes =
     [''emails:send'', ''emails:read'', ''domains:read'', ''domains:write'', ''webhooks:read'', ''webhooks:write'', ''suppressions:read'', ''suppressions:write'',
      ''templates:read'', ''templates:write'', ''contacts:read'', ''contacts:write'', ''audiences:read'', ''audiences:write'', ''broadcasts:read'', ''broadcasts:write'',
      ''analytics:read'']"

definition ValidScope :: "string \<Rightarrow> bool" where
  "ValidScope s = list_ex (\<lambda>v. v = s) ValidScopes"

text \<open>SHA-256 and HMAC-SHA256.\<close>

record key_hash =
  kh_sha :: "string \<Rightarrow> string"
  kh_hmac :: "string \<Rightarrow> string \<Rightarrow> string"

definition ak_Hash :: "key_hash \<Rightarrow> string \<Rightarrow> string \<Rightarrow> string" where
  "ak_Hash H secret pepper = (if pepper = [] then hex_bytes (kh_sha H secret) else hex_bytes (kh_hmac H pepper secret))"

definition ak_Verify :: "key_hash \<Rightarrow> string \<Rightarrow> string \<Rightarrow> string \<Rightarrow> bool" where
  "ak_Verify H secret kept pepper \<longleftrightarrow> ak_Hash H secret pepper = kept"

record generated =
  gn_Raw :: string
  gn_KeyID :: string
  gn_SecretHash :: string

text \<open>The random bytes of identifier and secret are arguments.\<close>

definition ak_Generate :: "key_hash \<Rightarrow> string \<Rightarrow> string \<Rightarrow> string \<Rightarrow> generated" where
  "ak_Generate H pepper idBytes secBytes =
     (let keyID = hex_bytes idBytes; secret = hex_bytes secBytes
      in \<lparr>gn_Raw = keyPrefix @ ''_'' @ keyID @ ''_'' @ secret, gn_KeyID = keyID, gn_SecretHash = ak_Hash H secret pepper\<rparr>)"

definition isHex :: "string \<Rightarrow> bool" where
  "isHex s = list_all (\<lambda>c. (48 \<le> byte c \<and> byte c \<le> 57) \<or> (97 \<le> byte c \<and> byte c \<le> 102)) s"

definition ak_Parse :: "string \<Rightarrow> (string \<times> string) option" where
  "ak_Parse raw =
     (if raw = [] \<or> length raw > maxRawKeyLen then None
      else case split_byte (CHR ''_'') raw of
             [p, keyID, secret] \<Rightarrow>
               if p \<noteq> keyPrefix then None
               else if length keyID \<noteq> keyIDHexLen \<or> length secret \<noteq> secretHexLen then None
               else if \<not> isHex keyID \<or> \<not> isHex secret then None
               else Some (keyID, secret)
           | _ \<Rightarrow> None)"

section \<open>Rows\<close>

record apikey =
  ak_ID :: string
  ak_Tenant :: string
  ak_Name :: string
  ak_KeyID :: string
  ak_SecretHash :: string
  ak_Scopes :: "string list"
  ak_LastUsedAt :: "gotime option"
  ak_ExpiresAt :: "gotime option"
  ak_RevokedAt :: "gotime option"
  ak_ReplacedBy :: "string option"

record newAPIKey =
  nk_Tenant :: string
  nk_Name :: string
  nk_KeyID :: string
  nk_SecretHash :: string
  nk_Scopes :: "string list"
  nk_ExpiresAt :: "gotime option"

text \<open>Rows in the order of their creation, and the tenants they may refer to.\<close>

record key_db =
  kd_keys :: "apikey list"
  kd_tenants :: "string list"

definition nk_validate :: "newAPIKey \<Rightarrow> bool" where
  "nk_validate n \<longleftrightarrow> nk_Tenant n \<noteq> [] \<and> nk_Name n \<noteq> [] \<and> nk_KeyID n \<noteq> [] \<and> nk_SecretHash n \<noteq> [] \<and> nk_Scopes n \<noteq> []"

definition key_row :: "string \<Rightarrow> newAPIKey \<Rightarrow> apikey" where
  "key_row i n = \<lparr>ak_ID = i, ak_Tenant = nk_Tenant n, ak_Name = nk_Name n, ak_KeyID = nk_KeyID n, ak_SecretHash = nk_SecretHash n, ak_Scopes = nk_Scopes n,
     ak_LastUsedAt = None, ak_ExpiresAt = nk_ExpiresAt n, ak_RevokedAt = None, ak_ReplacedBy = None\<rparr>"

text \<open>A row with a taken identifier or an unknown tenant is a conflict; the check on the scopes is another error.\<close>

definition row_refused :: "apikey \<Rightarrow> key_db \<Rightarrow> bool" where
  "row_refused k d \<longleftrightarrow> list_ex (\<lambda>x. ak_ID x = ak_ID k \<or> ak_KeyID x = ak_KeyID k) (kd_keys d) \<or> ak_Tenant k \<notin> set (kd_tenants d)"

definition InsertAPIKey :: "string \<Rightarrow> newAPIKey \<Rightarrow> key_db \<Rightarrow> (db_error + apikey) \<times> key_db" where
  "InsertAPIKey i n d =
     (if \<not> nk_validate n \<or> \<not> list_all ValidScope (nk_Scopes n) then (Inl DbInvalid, d)
      else if row_refused (key_row i n) d then (Inl DbErrConflict, d)
      else (Inr (key_row i n), d\<lparr>kd_keys := kd_keys d @ [key_row i n]\<rparr>))"

definition GetAPIKeyByKeyID :: "string \<Rightarrow> key_db \<Rightarrow> apikey option" where
  "GetAPIKeyByKeyID keyID d = find (\<lambda>k. ak_KeyID k = keyID) (kd_keys d)"

definition ListAPIKeysForTenant :: "string \<Rightarrow> key_db \<Rightarrow> apikey list" where
  "ListAPIKeysForTenant tenant d = rev (filter (\<lambda>k. ak_Tenant k = tenant) (kd_keys d))"

definition update_keys :: "(apikey \<Rightarrow> bool) \<Rightarrow> (apikey \<Rightarrow> apikey) \<Rightarrow> key_db \<Rightarrow> key_db" where
  "update_keys w f d = d\<lparr>kd_keys := map (\<lambda>k. if w k then f k else k) (kd_keys d)\<rparr>"

definition TouchAPIKeyLastUsed :: "string \<Rightarrow> gotime \<Rightarrow> key_db \<Rightarrow> key_db" where
  "TouchAPIKeyLastUsed i at d = update_keys (\<lambda>k. ak_ID k = i) (\<lambda>k. k\<lparr>ak_LastUsedAt := Some at\<rparr>) d"

definition RevokeAPIKey :: "string \<Rightarrow> gotime \<Rightarrow> key_db \<Rightarrow> db_error option \<times> key_db" where
  "RevokeAPIKey i clock d =
     (if \<not> list_ex (\<lambda>k. ak_ID k = i \<and> ak_RevokedAt k = None) (kd_keys d) then (Some DbErrNotFound, d)
      else (None, update_keys (\<lambda>k. ak_ID k = i \<and> ak_RevokedAt k = None) (\<lambda>k. k\<lparr>ak_RevokedAt := Some clock\<rparr>) d))"

definition expired_at :: "gotime \<Rightarrow> apikey \<Rightarrow> bool" where
  "expired_at now k \<longleftrightarrow> (case ak_ExpiresAt k of None \<Rightarrow> False | Some e \<Rightarrow> \<not> e > now)"

definition RotateAPIKey :: "string \<Rightarrow> string \<Rightarrow> newAPIKey \<Rightarrow> gotime \<Rightarrow> gotime \<Rightarrow> key_db \<Rightarrow> (db_error + apikey) \<times> key_db" where
  "RotateAPIKey newID oldID n now retireAt d =
     (if \<not> nk_validate n then (Inl DbInvalid, d)
      else case find (\<lambda>k. ak_ID k = oldID) (kd_keys d) of
             None \<Rightarrow> (Inl DbErrNotFound, d)
           | Some old \<Rightarrow>
               if ak_ReplacedBy old \<noteq> None \<or> ak_RevokedAt old \<noteq> None then (Inl DbErrConflict, d)
               else if expired_at now old then (Inl DbErrConflict, d)
               else if \<not> list_all ValidScope (nk_Scopes n) then (Inl DbInvalid, d)
               else if row_refused (key_row newID n) d then (Inl DbErrConflict, d)
               else (Inr (key_row newID n),
                     update_keys (\<lambda>k. ak_ID k = oldID) (\<lambda>k. k\<lparr>ak_ExpiresAt := Some retireAt, ak_ReplacedBy := Some newID\<rparr>)
                       (d\<lparr>kd_keys := kd_keys d @ [key_row newID n]\<rparr>)))"

section \<open>Service\<close>

datatype apikey_error = KErrUnknownKey | KErrWrongSecret | KErrRevoked | KErrExpired | KErrUnavailable | KErrScopes | KErrDB db_error

definition touchThreshold :: duration where "touchThreshold = 5 * minute"

text \<open>The loop over the scopes of a request: the first one that is unknown or was seen before.\<close>

fun scopeLoop :: "string list \<Rightarrow> string list \<Rightarrow> string option" where
  "scopeLoop seen [] = None"
| "scopeLoop seen (s # ss) =
     (if \<not> ValidScope s then Some (''unknown scope: '' @ s)
      else if s \<in> set seen then Some (''duplicate scope: '' @ s)
      else scopeLoop (s # seen) ss)"

definition validateScopes :: "string list \<Rightarrow> bool" where
  "validateScopes scopes \<longleftrightarrow> scopes \<noteq> [] \<and> scopeLoop [] scopes = None"

record key_service =
  ks_hash :: key_hash
  ks_pepper :: string
  ks_now :: gotime
  ks_clock :: gotime \<comment> \<open>the database's\<close>
  ks_id :: string
  ks_idBytes :: string
  ks_secBytes :: string
  ks_getFails :: bool \<comment> \<open>the lookup of a key does not reach the database\<close>
  ks_touchFails :: bool
  ks_dashNow :: gotime \<comment> \<open>the clock of the routes\<close>

definition service_gen :: "key_service \<Rightarrow> generated" where
  "service_gen S = ak_Generate (ks_hash S) (ks_pepper S) (ks_idBytes S) (ks_secBytes S)"

definition ak_Create :: "key_service \<Rightarrow> string \<Rightarrow> string \<Rightarrow> string list \<Rightarrow> duration option \<Rightarrow> key_db \<Rightarrow> (apikey_error + generated \<times> apikey) \<times> key_db" where
  "ak_Create S tenant name scopes ttl d =
     (if \<not> validateScopes scopes then (Inl KErrScopes, d)
      else let gen = service_gen S
           in case InsertAPIKey (ks_id S) \<lparr>nk_Tenant = tenant, nk_Name = name, nk_KeyID = gn_KeyID gen, nk_SecretHash = gn_SecretHash gen, nk_Scopes = scopes,
                  nk_ExpiresAt = map_option (\<lambda>t. ks_now S + t) ttl\<rparr> d of
                (Inl e, d1) \<Rightarrow> (Inl (KErrDB e), d1)
              | (Inr k, d1) \<Rightarrow> (Inr (gen, k), d1))"

definition Authenticate :: "key_service \<Rightarrow> string \<Rightarrow> key_db \<Rightarrow> (apikey_error + apikey) \<times> key_db" where
  "Authenticate S raw d =
     (case ak_Parse raw of
        None \<Rightarrow> (Inl KErrUnknownKey, d)
      | Some (keyID, secret) \<Rightarrow>
          if ks_getFails S then (Inl KErrUnavailable, d)
          else case GetAPIKeyByKeyID keyID d of
                 None \<Rightarrow> (Inl KErrUnknownKey, d)
               | Some k \<Rightarrow>
                   let now = ks_now S
                   in if \<not> ak_Verify (ks_hash S) secret (ak_SecretHash k) (ks_pepper S) then (Inl KErrWrongSecret, d)
                      else if ak_RevokedAt k \<noteq> None then (Inl KErrRevoked, d)
                      else if expired_at now k then (Inl KErrExpired, d)
                      else if (case ak_LastUsedAt k of None \<Rightarrow> True | Some l \<Rightarrow> time_Sub now l > touchThreshold) \<and> \<not> ks_touchFails S
                      then (Inr (k\<lparr>ak_LastUsedAt := Some now\<rparr>), TouchAPIKeyLastUsed (ak_ID k) now d)
                      else (Inr k, d))"

definition ak_Revoke :: "key_service \<Rightarrow> string \<Rightarrow> key_db \<Rightarrow> apikey_error option \<times> key_db" where
  "ak_Revoke S keyID d =
     (case GetAPIKeyByKeyID keyID d of
        None \<Rightarrow> (Some (KErrDB DbErrNotFound), d)
      | Some k \<Rightarrow> (case RevokeAPIKey (ak_ID k) (ks_clock S) d of (e, d1) \<Rightarrow> (map_option KErrDB e, d1)))"

definition ak_Rotate :: "key_service \<Rightarrow> string \<Rightarrow> duration \<Rightarrow> key_db \<Rightarrow> (apikey_error + generated \<times> apikey) \<times> key_db" where
  "ak_Rotate S keyID grace d =
     (case GetAPIKeyByKeyID keyID d of
        None \<Rightarrow> (Inl (KErrDB DbErrNotFound), d)
      | Some old \<Rightarrow>
          let now = ks_now S
          in if ak_RevokedAt old \<noteq> None then (Inl KErrRevoked, d)
             else if expired_at now old then (Inl KErrExpired, d)
             else let gen = service_gen S
                  in case RotateAPIKey (ks_id S) (ak_ID old) \<lparr>nk_Tenant = ak_Tenant old, nk_Name = ak_Name old, nk_KeyID = gn_KeyID gen, nk_SecretHash = gn_SecretHash gen,
                         nk_Scopes = ak_Scopes old, nk_ExpiresAt = ak_ExpiresAt old\<rparr> now (now + grace) d of
                       (Inl e, d1) \<Rightarrow> (Inl (KErrDB e), d1)
                     | (Inr k, d1) \<Rightarrow> (Inr (gen, k), d1))"

section \<open>Requests\<close>

definition maxCredentialLen :: nat where "maxCredentialLen = 512"

definition extractBearerToken :: "string list \<Rightarrow> string option" where
  "extractBearerToken values =
     (case values of
        [v] \<Rightarrow>
          if length v \<le> length ''Bearer '' \<or> \<not> HasPrefix v ''Bearer '' then None
          else let token = TrimSpace (drop (length ''Bearer '') v) in if token = [] \<or> length token > maxCredentialLen then None else Some token
      | _ \<Rightarrow> None)"

text \<open>What a request may do: the tenant, the scopes and the row of its key.\<close>

definition authenticateMiddleware :: "key_service \<Rightarrow> string list \<Rightarrow> key_db \<Rightarrow> ('a response + string \<times> string list \<times> string) \<times> key_db" where
  "authenticateMiddleware S values d =
     (case extractBearerToken values of
        None \<Rightarrow> (Inl (api_fail ErrAuthentication ''invalid_api_key'' ''missing or malformed Authorization header''), d)
      | Some raw \<Rightarrow>
          (case Authenticate S raw d of
             (Inl KErrUnavailable, d1) \<Rightarrow> (Inl (api_fail ErrTemporarilyUnavailable ''authentication_unavailable'' ''authentication is temporarily unavailable''), d1)
           | (Inl _, d1) \<Rightarrow> (Inl (api_fail ErrAuthentication ''invalid_api_key'' ''invalid API key''), d1)
           | (Inr k, d1) \<Rightarrow> (Inr (ak_Tenant k, ak_Scopes k, ak_ID k), d1)))"

definition requireScope :: "string \<Rightarrow> string list \<Rightarrow> 'a response option" where
  "requireScope scope scopes =
     (if \<not> list_ex (\<lambda>s. s = scope) scopes then Some (api_fail ErrForbidden ''insufficient_scope'' ''this API key does not have the required scope'') else None)"

text \<open>
  The routes of an organization's keys. The caller is the human of the access token, if any; membership and ownership are
  those of the billing tables. A response carries the public part of a key, with times not yet printed, and, once, its text.
\<close>

definition orgAccess :: "string option \<Rightarrow> string \<Rightarrow> bool \<Rightarrow> bill_db \<Rightarrow> 'a response option" where
  "orgAccess human org ownerOnly b =
     (case human of
        None \<Rightarrow> Some (api_fail ErrAuthentication ''invalid_access_token'' ''missing or invalid access token'')
      | Some h \<Rightarrow>
          if \<not> IsTenantMember org h b then Some (api_fail ErrNotFoundType ''organization_not_found'' ''organization not found'')
          else if ownerOnly \<and> \<not> IsTenantOwner org h b then Some (api_fail ErrForbidden ''not_org_owner'' ''only an organization owner can do this'')
          else None)"

record apiKeyResource =
  kr_ID :: string
  kr_Name :: string
  kr_Scopes :: "string list"
  kr_Status :: string
  kr_LastUsedAt :: "gotime option"
  kr_ExpiresAt :: "gotime option"
  kr_RevokedAt :: "gotime option"

definition toAPIKeyResource :: "apikey \<Rightarrow> gotime \<Rightarrow> apiKeyResource" where
  "toAPIKeyResource k now = \<lparr>kr_ID = ak_KeyID k, kr_Name = ak_Name k, kr_Scopes = ak_Scopes k,
     kr_Status = (if ak_RevokedAt k \<noteq> None then ''revoked'' else if expired_at now k then ''expired'' else ''active''),
     kr_LastUsedAt = ak_LastUsedAt k, kr_ExpiresAt = ak_ExpiresAt k, kr_RevokedAt = ak_RevokedAt k\<rparr>"

type_synonym key_answer = "(apiKeyResource \<times> string option) list" \<comment> \<open>the public part, and the text\<close>

definition maxAPIKeyNameLen :: nat where "maxAPIKeyNameLen = 200"

definition keys_handleCreate ::
  "key_service \<Rightarrow> bill_db \<Rightarrow> string option \<Rightarrow> string \<Rightarrow> bool \<Rightarrow> (string \<times> string list) option \<Rightarrow> key_db \<Rightarrow> key_answer response \<times> key_db" where
  "keys_handleCreate S b human org json body d =
     (case orgAccess human org True b of
        Some r \<Rightarrow> (r, d)
      | None \<Rightarrow>
          if \<not> json then (api_fail ErrUnsupportedMediaType ''unsupported_media_type'' ''Content-Type must be application/json'', d)
          else case body of
                 None \<Rightarrow> (api_fail ErrInvalidRequest ''invalid_json'' ''request body is not valid JSON'', d)
               | Some (rawName, scopes) \<Rightarrow>
                   let name = TrimSpace rawName
                   in if name = [] \<or> length name > maxAPIKeyNameLen then (api_fail ErrValidation ''invalid_name'' ''name must be 1-200 characters'', d)
                      else if scopes = [] then (api_fail ErrValidation ''invalid_scopes'' ''at least one scope is required'', d)
                      else if scopeLoop [] scopes \<noteq> None then (api_fail ErrValidation ''invalid_scopes'' (the (scopeLoop [] scopes)), d)
                      else case ak_Create S org name scopes None d of
                             (Inl _, d1) \<Rightarrow> (api_fail ErrInternal ''internal_error'' ''failed to create api key'', d1)
                           | (Inr (gen, k), d1) \<Rightarrow> (writeJSON 201 [(toAPIKeyResource k (ks_dashNow S), Some (gn_Raw gen))], d1))"

definition keys_handleList :: "key_service \<Rightarrow> bill_db \<Rightarrow> string option \<Rightarrow> string \<Rightarrow> key_db \<Rightarrow> key_answer response" where
  "keys_handleList S b human org d =
     (case orgAccess human org False b of
        Some r \<Rightarrow> r
      | None \<Rightarrow> writeJSON 200 (map (\<lambda>k. (toAPIKeyResource k (ks_dashNow S), None)) (ListAPIKeysForTenant org d)))"

definition orgKey :: "string \<Rightarrow> string \<Rightarrow> key_db \<Rightarrow> 'a response + apikey" where
  "orgKey org keyID d =
     (case GetAPIKeyByKeyID keyID d of
        None \<Rightarrow> Inl (api_fail ErrNotFoundType ''api_key_not_found'' ''api key not found'')
      | Some k \<Rightarrow> if ak_Tenant k \<noteq> org then Inl (api_fail ErrNotFoundType ''api_key_not_found'' ''api key not found'') else Inr k)"

definition keys_handleRotate :: "key_service \<Rightarrow> bill_db \<Rightarrow> string option \<Rightarrow> string \<Rightarrow> string \<Rightarrow> key_db \<Rightarrow> key_answer response \<times> key_db" where
  "keys_handleRotate S b human org keyID d =
     (let dead = api_fail ErrConflictType ''api_key_not_active'' ''only an active api key can be rotated; create a new one instead''
      in case orgAccess human org True b of
           Some r \<Rightarrow> (r, d)
         | None \<Rightarrow>
             (case orgKey org keyID d of
                Inl r \<Rightarrow> (r, d)
              | Inr k \<Rightarrow>
                  if ak_RevokedAt k \<noteq> None \<or> expired_at (ks_dashNow S) k then (dead, d)
                  else case ak_Rotate S (ak_KeyID k) 0 d of
                         (Inl e, d1) \<Rightarrow>
                           (if e \<in> {KErrDB DbErrConflict, KErrDB DbErrNotFound, KErrRevoked, KErrExpired} then dead
                            else api_fail ErrInternal ''internal_error'' ''failed to rotate api key'', d1)
                       | (Inr (gen, new), d1) \<Rightarrow> (writeJSON 200 [(toAPIKeyResource new (ks_dashNow S), Some (gn_Raw gen))], d1)))"

definition keys_handleRevoke :: "key_service \<Rightarrow> bill_db \<Rightarrow> string option \<Rightarrow> string \<Rightarrow> string \<Rightarrow> key_db \<Rightarrow> key_answer response \<times> key_db" where
  "keys_handleRevoke S b human org keyID d =
     (case orgAccess human org True b of
        Some r \<Rightarrow> (r, d)
      | None \<Rightarrow>
          (case orgKey org keyID d of
             Inl r \<Rightarrow> (r, d)
           | Inr k \<Rightarrow>
               (case ak_Revoke S (ak_KeyID k) d of
                  (None, d1) \<Rightarrow> (writeJSON 204 [], d1)
                | (Some e, d1) \<Rightarrow>
                    (if e = KErrDB DbErrNotFound then api_fail ErrNotFoundType ''api_key_not_found'' ''api key not found or already revoked''
                     else api_fail ErrInternal ''internal_error'' ''failed to revoke api key'', d1))))"

section \<open>Tracking tokens\<close>

record track_payload =
  tp_Tenant :: string
  tp_Message :: string
  tp_Recipient :: string
  tp_URL :: string

definition track_Sign :: "(string \<Rightarrow> string \<Rightarrow> string) \<Rightarrow> (track_payload \<Rightarrow> string) \<Rightarrow> string \<Rightarrow> track_payload \<Rightarrow> string" where
  "track_Sign hmac marshal secret p = (let enc = jwt_b64 (marshal p) in enc @ ''.'' @ jwt_b64 (hmac secret enc))"

definition track_Verify :: "(string \<Rightarrow> string \<Rightarrow> string) \<Rightarrow> (string \<Rightarrow> track_payload option) \<Rightarrow> string \<Rightarrow> string \<Rightarrow> track_payload option" where
  "track_Verify hmac unmarshal secret token =
     (case IndexByte token (CHR ''.'') of
        None \<Rightarrow> None
      | Some i \<Rightarrow>
          let enc = take i token; sig = drop (Suc i) token
          in if enc = [] \<or> sig = [] then None
             else if sig \<noteq> jwt_b64 (hmac secret enc) then None
             else case jwt_b64Decode enc of
                    None \<Rightarrow> None
                  | Some body \<Rightarrow>
                      (case unmarshal body of
                         None \<Rightarrow> None
                       | Some p \<Rightarrow> if tp_Tenant p = [] \<or> tp_Message p = [] then None else Some p))"

section \<open>The text of a key\<close>

lemma hex_char_isHex: "n < 16 \<Longrightarrow> isHex [hex_char n]"
  by (auto simp: isHex_def hex_char_def)

lemma hex_bytes_isHex: "isHex (hex_bytes s)"
proof (induction s)
  case (Cons c s)
  have "byte c div 16 < 16" by (rule less_mult_imp_div_less) simp
  then show ?case using Cons hex_char_isHex [of "byte c div 16"] hex_char_isHex [of "byte c mod 16"] by (simp add: hex_bytes_def isHex_def)
qed (simp add: hex_bytes_def isHex_def)

lemma hex_bytes_length: "length (hex_bytes s) = 2 * length s"
  by (induction s) (simp_all add: hex_bytes_def)

lemma isHex_no_sep: "isHex s \<Longrightarrow> CHR ''_'' \<notin> set s"
  by (auto simp: isHex_def list_all_iff)

lemma key_split: "CHR ''_'' \<notin> set k \<Longrightarrow> CHR ''_'' \<notin> set s \<Longrightarrow> split_byte (CHR ''_'') (keyPrefix @ ''_'' @ k @ ''_'' @ s) = [keyPrefix, k, s]"
  using split_join [of "CHR ''_''" "[keyPrefix, k, s]"] by (simp add: keyPrefix_def)

lemma Parse_iff:
  "ak_Parse raw = Some (k, s) \<longleftrightarrow> raw = keyPrefix @ ''_'' @ k @ ''_'' @ s \<and> length k = 32 \<and> length s = 64 \<and> isHex k \<and> isHex s"
proof
  assume p: "ak_Parse raw = Some (k, s)"
  then have sp: "split_byte (CHR ''_'') raw = [keyPrefix, k, s]" and r: "length k = keyIDHexLen" "length s = secretHexLen" "isHex k" "isHex s"
    by (auto simp: ak_Parse_def split: if_splits list.splits)
  have "raw = keyPrefix @ ''_'' @ k @ ''_'' @ s" using join_split_byte [of "CHR ''_''" raw] unfolding sp by simp
  then show "raw = keyPrefix @ ''_'' @ k @ ''_'' @ s \<and> length k = 32 \<and> length s = 64 \<and> isHex k \<and> isHex s"
    using r by (simp add: keyIDHexLen_def secretHexLen_def keyIDBytes_def secretBytes_def)
next
  assume a: "raw = keyPrefix @ ''_'' @ k @ ''_'' @ s \<and> length k = 32 \<and> length s = 64 \<and> isHex k \<and> isHex s"
  then have sp: "split_byte (CHR ''_'') raw = [keyPrefix, k, s]" using key_split isHex_no_sep by blast
  have "raw \<noteq> []" "length raw \<le> maxRawKeyLen" using a by (auto simp: keyPrefix_def maxRawKeyLen_def keyIDHexLen_def secretHexLen_def keyIDBytes_def secretBytes_def)
  then show "ak_Parse raw = Some (k, s)" unfolding ak_Parse_def sp using a
    by (simp add: keyIDHexLen_def secretHexLen_def keyIDBytes_def secretBytes_def)
qed

text \<open>
  The text of a key and its parts determine each other: parsing accepts exactly the prefix, 32 and 64 lower-case hexadecimal
  digits joined by underscores, and a generated key parses to its identifier and a secret its stored hash verifies.
\<close>

theorem key_text_roundtrip:
  assumes "length idBytes = keyIDBytes" and "length secBytes = secretBytes"
  shows "\<exists>secret. ak_Parse (gn_Raw (ak_Generate H pepper idBytes secBytes)) = Some (gn_KeyID (ak_Generate H pepper idBytes secBytes), secret) \<and>
      ak_Verify H secret (gn_SecretHash (ak_Generate H pepper idBytes secBytes)) pepper
    \<and> (\<forall>raw k s. ak_Parse raw = Some (k, s) \<longleftrightarrow> raw = keyPrefix @ ''_'' @ k @ ''_'' @ s \<and> length k = 32 \<and> length s = 64 \<and> isHex k \<and> isHex s)"
proof (intro exI conjI allI)
  have "length (hex_bytes idBytes) = 32" "length (hex_bytes secBytes) = 64" using assms by (simp_all add: hex_bytes_length keyIDBytes_def secretBytes_def)
  then show "ak_Parse (gn_Raw (ak_Generate H pepper idBytes secBytes)) = Some (gn_KeyID (ak_Generate H pepper idBytes secBytes), hex_bytes secBytes)"
    using hex_bytes_isHex by (simp add: Parse_iff ak_Generate_def Let_def)
  show "ak_Verify H (hex_bytes secBytes) (gn_SecretHash (ak_Generate H pepper idBytes secBytes)) pepper" by (simp add: ak_Verify_def ak_Generate_def Let_def)
qed (rule Parse_iff)

theorem key_text_roundtrip_witness:
  "\<exists>secret. ak_Parse (gn_Raw (ak_Generate \<lparr>kh_sha = id, kh_hmac = (\<lambda>p s. s)\<rparr> [] (replicate 16 (CHR ''a'')) (replicate 32 (CHR ''b'')))) =
     Some (gn_KeyID (ak_Generate \<lparr>kh_sha = id, kh_hmac = (\<lambda>p s. s)\<rparr> [] (replicate 16 (CHR ''a'')) (replicate 32 (CHR ''b''))), secret)"
  using key_text_roundtrip [of "replicate 16 (CHR ''a'')" "replicate 32 (CHR ''b'')" "\<lparr>kh_sha = id, kh_hmac = (\<lambda>p s. s)\<rparr>" "[]"] by (auto simp: keyIDBytes_def secretBytes_def)

section \<open>Life and death of keys\<close>

text \<open>The transactions of any number of processes, with the clock reading a rotation is made at.\<close>

inductive key_step :: "key_db \<Rightarrow> gotime option \<Rightarrow> key_db \<Rightarrow> bool" where
  insert: "key_step d None (snd (InsertAPIKey i n d))"
| touch: "key_step d None (TouchAPIKeyLastUsed i at d)"
| revoke: "key_step d None (snd (RevokeAPIKey i clock d))"
| rotate: "key_step d (Some now) (snd (RotateAPIKey i old n now retireAt d))"

inductive key_run :: "key_db \<Rightarrow> gotime list \<Rightarrow> key_db \<Rightarrow> bool" where
  start: "key_run d [] d"
| more: "key_run d ts d1 \<Longrightarrow> key_step d1 t d2 \<Longrightarrow> key_run d (ts @ (case t of None \<Rightarrow> [] | Some x \<Rightarrow> [x])) d2"

definition key_unique :: "key_db \<Rightarrow> bool" where
  "key_unique d \<longleftrightarrow> distinct (map ak_ID (kd_keys d)) \<and> distinct (map ak_KeyID (kd_keys d))"

definition dead :: "gotime \<Rightarrow> apikey \<Rightarrow> bool" where
  "dead T k \<longleftrightarrow> ak_RevokedAt k \<noteq> None \<or> expired_at T k"

text \<open>What a row keeps: its identity for ever, and death at \<open>T\<close> as long as rotations are made at \<open>T\<close> or later.\<close>

definition row_kept :: "gotime \<Rightarrow> apikey \<Rightarrow> apikey \<Rightarrow> bool" where
  "row_kept T k k' \<longleftrightarrow> ak_ID k' = ak_ID k \<and> ak_KeyID k' = ak_KeyID k \<and> ak_Tenant k' = ak_Tenant k \<and> ak_SecretHash k' = ak_SecretHash k \<and> ak_Scopes k' = ak_Scopes k \<and>
     (ak_RevokedAt k \<noteq> None \<longrightarrow> ak_RevokedAt k' = ak_RevokedAt k) \<and> (ak_ReplacedBy k \<noteq> None \<longrightarrow> ak_ReplacedBy k' = ak_ReplacedBy k) \<and> (dead T k \<longrightarrow> dead T k')"

lemma row_kept_refl: "row_kept T k k"
  by (simp add: row_kept_def)

lemma row_kept_trans: "row_kept T k k1 \<Longrightarrow> row_kept T k1 k2 \<Longrightarrow> row_kept T k k2"
  by (auto simp: row_kept_def)

lemma find_unique: "distinct (map f ks) \<Longrightarrow> k \<in> set ks \<Longrightarrow> find (\<lambda>x. f x = f k) ks = Some k"
proof -
  assume a: "distinct (map f ks)" "k \<in> set ks"
  then obtain x where x: "find (\<lambda>x. f x = f k) ks = Some x" by (cases "find (\<lambda>x. f x = f k) ks") (auto simp: find_None_iff)
  then have "x \<in> set ks" "f x = f k" by (auto simp: find_Some_iff)
  then show ?thesis using a x by (auto simp: distinct_map inj_on_def)
qed

lemma update_unique: "(\<And>k. ak_ID (f k) = ak_ID k \<and> ak_KeyID (f k) = ak_KeyID k) \<Longrightarrow> key_unique d \<Longrightarrow> key_unique (update_keys w f d)"
proof -
  assume f: "\<And>k. ak_ID (f k) = ak_ID k \<and> ak_KeyID (f k) = ak_KeyID k" and "key_unique d"
  moreover have "map ak_ID (map (\<lambda>k. if w k then f k else k) ks) = map ak_ID ks" "map ak_KeyID (map (\<lambda>k. if w k then f k else k) ks) = map ak_KeyID ks" for ks using f by auto
  ultimately show ?thesis by (simp add: key_unique_def update_keys_def del: map_map)
qed

lemma insert_unique: "\<not> row_refused k d \<Longrightarrow> key_unique d \<Longrightarrow> key_unique (d\<lparr>kd_keys := kd_keys d @ [k]\<rparr>)"
  by (auto simp: key_unique_def row_refused_def list_ex_iff)

lemma rotate_cases:
  "snd (RotateAPIKey i old n now at d) = d \<or>
   (\<exists>k. find (\<lambda>k. ak_ID k = old) (kd_keys d) = Some k \<and> \<not> dead now k \<and> ak_ReplacedBy k = None \<and> \<not> row_refused (key_row i n) d \<and>
      snd (RotateAPIKey i old n now at d) = update_keys (\<lambda>k. ak_ID k = old) (\<lambda>k. k\<lparr>ak_ExpiresAt := Some at, ak_ReplacedBy := Some i\<rparr>)
        (d\<lparr>kd_keys := kd_keys d @ [key_row i n]\<rparr>))"
  by (auto simp: RotateAPIKey_def dead_def split: option.splits)

lemma step_unique: "key_step d t d' \<Longrightarrow> key_unique d \<Longrightarrow> key_unique d'"
proof (induction rule: key_step.induct)
  case (rotate d now i old n at)
  then show ?case using rotate_cases [of i old n now at d] by (auto intro!: update_unique insert_unique)
qed (auto simp: InsertAPIKey_def TouchAPIKeyLastUsed_def RevokeAPIKey_def intro!: update_unique insert_unique)

lemma update_kept:
  assumes "k \<in> set (kd_keys d)" and "w k \<Longrightarrow> row_kept T k (f k)"
  shows "\<exists>k'\<in>set (kd_keys (update_keys w f d)). row_kept T k k'"
  using assms row_kept_refl by (intro bexI [of _ "if w k then f k else k"]) (auto simp: update_keys_def)

lemma step_kept:
  assumes "key_step d t d'" and "key_unique d" and "k \<in> set (kd_keys d)" and "\<And>x. t = Some x \<Longrightarrow> T \<le> x"
  shows "\<exists>k'\<in>set (kd_keys d'). row_kept T k k'"
  using assms(1)
proof (cases rule: key_step.cases)
  case (insert i n)
  then show ?thesis using assms(3) row_kept_refl by (auto simp: InsertAPIKey_def)
next
  case (touch i at)
  then show ?thesis using update_kept [OF assms(3)] unfolding TouchAPIKeyLastUsed_def touch by (auto simp: row_kept_def dead_def expired_at_def)
next
  case (revoke i clock)
  then show ?thesis using assms(3) row_kept_refl [of T k] update_kept [OF assms(3), of "\<lambda>k. ak_ID k = i \<and> ak_RevokedAt k = None" T "\<lambda>k. k\<lparr>ak_RevokedAt := Some clock\<rparr>"]
    by (auto simp: RevokeAPIKey_def row_kept_def dead_def)
next
  case (rotate now i old n at)
  show ?thesis
  proof (cases "d' = d")
    case True
    then show ?thesis using assms(3) row_kept_refl by blast
  next
    case False
    then obtain o' where o': "find (\<lambda>k. ak_ID k = old) (kd_keys d) = Some o'" "\<not> dead now o'" "ak_ReplacedBy o' = None"
      "d' = update_keys (\<lambda>k. ak_ID k = old) (\<lambda>k. k\<lparr>ak_ExpiresAt := Some at, ak_ReplacedBy := Some i\<rparr>) (d\<lparr>kd_keys := kd_keys d @ [key_row i n]\<rparr>)"
      using rotate_cases [of i old n now at d] rotate by metis
    have "\<not> dead T k \<and> ak_RevokedAt k = None \<and> ak_ReplacedBy k = None" if "ak_ID k = old"
    proof -
      have "k = o'" using find_unique [of ak_ID "kd_keys d" k] assms(2,3) that o'(1) by (simp add: key_unique_def)
      moreover have "T \<le> now" using assms(4) rotate by blast
      ultimately show ?thesis using o'(2,3) by (auto simp: dead_def expired_at_def split: option.splits)
    qed
    then show ?thesis unfolding o'(4) using assms(3) by (intro update_kept) (auto simp: row_kept_def)
  qed
qed

lemma run_kept:
  assumes "key_run d ts d'" and "key_unique d" and "k \<in> set (kd_keys d)" and "\<forall>x\<in>set ts. T \<le> x"
  shows "key_unique d' \<and> (\<exists>k'\<in>set (kd_keys d'). row_kept T k k')"
  using assms
proof (induction rule: key_run.induct)
  case (more d ts d1 t d2)
  then obtain k1 where k1: "k1 \<in> set (kd_keys d1)" "row_kept T k k1" "key_unique d1" by auto
  have "\<exists>k'\<in>set (kd_keys d2). row_kept T k1 k'" by (rule step_kept [OF more.hyps(2) k1(3,1)]) (use more.prems(3) in auto)
  then show ?case using row_kept_trans [OF k1(2)] step_unique [OF more.hyps(2) k1(3)] by blast
qed (auto intro: row_kept_refl)

section \<open>Authentication\<close>

lemma Authenticate_success:
  "(\<exists>r. fst (Authenticate S raw d) = Inr r \<and> ak_Tenant r = t \<and> ak_Scopes r = scopes) \<longleftrightarrow>
   (\<not> ks_getFails S \<and> (\<exists>id secret k. ak_Parse raw = Some (id, secret) \<and> GetAPIKeyByKeyID id d = Some k \<and>
      ak_Verify (ks_hash S) secret (ak_SecretHash k) (ks_pepper S) \<and> \<not> dead (ks_now S) k \<and> ak_Tenant k = t \<and> ak_Scopes k = scopes))"
  by (auto simp: Authenticate_def Let_def dead_def split: option.splits prod.splits)

text \<open>
  (C36) Authentication is exact and death is final. A text authenticates for a tenant and scopes exactly when the database answers and
  has a row for its identifier with those, whose hash the secret verifies, that is neither revoked nor expired. And a key
  that is revoked, or was expired at \<open>T\<close>, authenticates never again from \<open>T\<close> on, whatever is inserted, used, revoked or
  rotated at \<open>T\<close> or later, in any order.
\<close>

theorem key_authentication:
  assumes "key_unique d" and "k \<in> set (kd_keys d)" and "dead T k" and "key_run d ts d'" and "\<forall>x\<in>set ts. T \<le> x" and "T \<le> ks_now S"
    and "ak_Parse raw = Some (ak_KeyID k, secret)"
  shows "(\<exists>e. fst (Authenticate S raw d') = Inl e)
    \<and> ((\<exists>r. fst (Authenticate S raw' d') = Inr r \<and> ak_Tenant r = t \<and> ak_Scopes r = scopes) \<longleftrightarrow>
        (\<not> ks_getFails S \<and> (\<exists>id secret k. ak_Parse raw' = Some (id, secret) \<and> GetAPIKeyByKeyID id d' = Some k \<and>
           ak_Verify (ks_hash S) secret (ak_SecretHash k) (ks_pepper S) \<and> \<not> dead (ks_now S) k \<and> ak_Tenant k = t \<and> ak_Scopes k = scopes)))"
proof
  obtain k' where k': "k' \<in> set (kd_keys d')" "row_kept T k k'" and u: "key_unique d'" using run_kept [OF assms(4,1,2,5)] by blast
  have g: "GetAPIKeyByKeyID (ak_KeyID k) d' = Some k'"
    using find_unique [of ak_KeyID "kd_keys d'" k'] u k' by (simp add: key_unique_def GetAPIKeyByKeyID_def row_kept_def)
  have "dead T k'" using k'(2) assms(3) by (simp add: row_kept_def)
  then have "dead (ks_now S) k'" using assms(6) by (auto simp: dead_def expired_at_def split: option.splits)
  then have "\<nexists>r. fst (Authenticate S raw d') = Inr r" using Authenticate_success [of S raw d'] assms(7) g by (metis Pair_inject option.inject)
  then show "\<exists>e. fst (Authenticate S raw d') = Inl e" by (cases "fst (Authenticate S raw d')") auto
qed (rule Authenticate_success)

text \<open>
  A rotation with a grace period replaces the expiry of the old key: an old key that was to expire within
  the grace period is alive beyond its expiry.
\<close>

theorem rotation_outlives_expiry:
  assumes "key_unique d" and "k \<in> set (kd_keys d)" and "RotateAPIKey newID (ak_ID k) n now (now + grace) d = (Inr c, d')"
    and "ak_ExpiresAt k = Some e" and "e \<le> t" and "t < now + grace"
  shows "dead t k \<and> (\<exists>k'\<in>set (kd_keys d'). ak_KeyID k' = ak_KeyID k \<and> ak_SecretHash k' = ak_SecretHash k \<and> \<not> dead t k')"
proof -
  have f: "find (\<lambda>x. ak_ID x = ak_ID k) (kd_keys d) = Some k" using find_unique [of ak_ID "kd_keys d" k] assms(1,2) by (simp add: key_unique_def)
  have r: "ak_RevokedAt k = None"
    and d': "d' = update_keys (\<lambda>x. ak_ID x = ak_ID k) (\<lambda>x. x\<lparr>ak_ExpiresAt := Some (now + grace), ak_ReplacedBy := Some newID\<rparr>) (d\<lparr>kd_keys := kd_keys d @ [key_row newID n]\<rparr>)"
    using assms(3) f by (auto simp: RotateAPIKey_def split: if_splits)
  have "k\<lparr>ak_ExpiresAt := Some (now + grace), ak_ReplacedBy := Some newID\<rparr> \<in> set (kd_keys d')"
    unfolding d' update_keys_def using assms(2) by (auto intro!: image_eqI [of _ _ k])
  moreover have "\<not> dead t (k\<lparr>ak_ExpiresAt := Some (now + grace), ak_ReplacedBy := Some newID\<rparr>)" using r assms(6) by (simp add: dead_def expired_at_def)
  ultimately show ?thesis using assms(4,5) by (intro conjI bexI) (auto simp: dead_def expired_at_def)
qed

section \<open>Routes\<close>

definition others :: "string \<Rightarrow> key_db \<Rightarrow> apikey list" where
  "others org d = filter (\<lambda>k. ak_Tenant k \<noteq> org) (kd_keys d)"

lemma update_others:
  assumes "\<And>k. k \<in> set (kd_keys d) \<Longrightarrow> w k \<Longrightarrow> ak_Tenant k = org" and "\<And>k. ak_Tenant (f k) = ak_Tenant k"
  shows "others org (update_keys w f d) = others org d"
proof -
  have "filter (\<lambda>k. ak_Tenant k \<noteq> org) (map (\<lambda>k. if w k then f k else k) ks) = filter (\<lambda>k. ak_Tenant k \<noteq> org) ks" if "\<And>k. k \<in> set ks \<Longrightarrow> w k \<Longrightarrow> ak_Tenant k = org" for ks
    using that assms(2) by (induction ks) auto
  then show ?thesis using assms(1) by (simp add: others_def update_keys_def)
qed

lemma orgKey_some: "orgKey org keyID d = Inr k \<Longrightarrow> k \<in> set (kd_keys d) \<and> ak_KeyID k = keyID \<and> ak_Tenant k = org"
  by (auto simp: orgKey_def GetAPIKeyByKeyID_def find_Some_iff split: option.splits if_splits)

lemma same_key: "key_unique d \<Longrightarrow> k \<in> set (kd_keys d) \<Longrightarrow> GetAPIKeyByKeyID (ak_KeyID k) d = Some k"
  using find_unique [of ak_KeyID "kd_keys d" k] by (simp add: key_unique_def GetAPIKeyByKeyID_def)

lemma same_row_id: "key_unique d \<Longrightarrow> k \<in> set (kd_keys d) \<Longrightarrow> x \<in> set (kd_keys d) \<Longrightarrow> ak_ID x = ak_ID k \<Longrightarrow> x = k"
  by (auto simp: key_unique_def distinct_map inj_on_def)

lemma create_others: "others org (snd (ak_Create S org name scopes ttl d)) = others org d"
  by (auto simp: ak_Create_def InsertAPIKey_def others_def key_row_def Let_def split: sum.split)

lemma revoke_others:
  assumes "key_unique d" and "k \<in> set (kd_keys d)" and "ak_Tenant k = org"
  shows "others org (snd (ak_Revoke S (ak_KeyID k) d)) = others org d"
proof -
  have "others org (snd (RevokeAPIKey (ak_ID k) clock d)) = others org d" for clock
    using same_row_id [OF assms(1,2)] assms(3) by (auto simp: RevokeAPIKey_def intro!: update_others)
  then show ?thesis by (simp add: ak_Revoke_def same_key [OF assms(1,2)] split: prod.split) (metis snd_conv)
qed

lemma rotate_others:
  assumes "key_unique d" and "k \<in> set (kd_keys d)" and "ak_Tenant k = org"
  shows "others org (snd (ak_Rotate S (ak_KeyID k) g d)) = others org d"
proof -
  have "others org (snd (RotateAPIKey i (ak_ID k) n now at d)) = others org d" if n: "nk_Tenant n = org" for i n now at
  proof (cases "snd (RotateAPIKey i (ak_ID k) n now at d) = d")
    case False
    let ?d = "d\<lparr>kd_keys := kd_keys d @ [key_row i n]\<rparr>"
    have r: "snd (RotateAPIKey i (ak_ID k) n now at d) = update_keys (\<lambda>x. ak_ID x = ak_ID k) (\<lambda>x. x\<lparr>ak_ExpiresAt := Some at, ak_ReplacedBy := Some i\<rparr>) ?d"
      using rotate_cases [of i "ak_ID k" n now at d] False by blast
    have "others org (snd (RotateAPIKey i (ak_ID k) n now at d)) = others org ?d"
      unfolding r by (rule update_others) (use same_row_id [OF assms(1,2)] assms(3) n in \<open>auto simp: key_row_def\<close>)
    also have "\<dots> = others org d" using n by (simp add: others_def key_row_def)
    finally show ?thesis .
  qed simp
  then show ?thesis using assms(3) by (auto simp: ak_Rotate_def same_key [OF assms(1,2)] Let_def split: prod.split sum.split) (metis snd_conv newAPIKey.select_convs(1))+
qed

lemma orgAccess_owner: "orgAccess human org True b = None \<Longrightarrow> \<exists>h. human = Some h \<and> IsTenantOwner org h b"
  by (auto simp: orgAccess_def split: option.splits if_splits)

text \<open>
  (C37) An organization's routes touch only its own keys. Creating, rotating and revoking a key leave the keys of
  every other tenant as they are, change something only for an owner of the organization, and listing shows keys
  of the organization only.
\<close>

theorem key_routes_isolated:
  assumes "key_unique d" and "d' \<in> {snd (keys_handleCreate S b human org json body d), snd (keys_handleRotate S b human org keyID d), snd (keys_handleRevoke S b human org keyID d)}"
  shows "others org d' = others org d \<and> (d' \<noteq> d \<longrightarrow> (\<exists>h. human = Some h \<and> IsTenantOwner org h b))
    \<and> (\<forall>r. keys_handleList S b human org d = writeJSON 200 r \<longrightarrow> (\<forall>x\<in>set r. \<exists>k\<in>set (kd_keys d). ak_Tenant k = org \<and> x = (toAPIKeyResource k (ks_dashNow S), None)))"
proof (intro conjI)
  have own: "\<exists>h. human = Some h \<and> IsTenantOwner org h b" if "orgAccess human org True b = (None :: key_answer response option)" using orgAccess_owner [OF that] .
  show "others org d' = others org d"
  proof (cases "orgAccess human org True b :: key_answer response option")
    case None
    have "others org (snd (keys_handleCreate S b human org json body d)) = others org d"
      using create_others [of org S _ _ None d] None by (auto simp: keys_handleCreate_def Let_def split: option.split prod.split sum.split) (metis snd_conv)+
    moreover have "others org (snd (keys_handleRotate S b human org keyID d)) = others org d"
    proof (cases "orgKey org keyID d :: key_answer response + apikey")
      case (Inr k)
      show ?thesis using rotate_others [OF assms(1), of k org S 0] orgKey_some [OF Inr] None Inr
        by (auto simp: keys_handleRotate_def Let_def split: prod.split sum.split)
    qed (simp add: keys_handleRotate_def None)
    moreover have "others org (snd (keys_handleRevoke S b human org keyID d)) = others org d"
    proof (cases "orgKey org keyID d :: key_answer response + apikey")
      case (Inr k)
      show ?thesis using revoke_others [OF assms(1), of k org S] orgKey_some [OF Inr] None Inr
        by (auto simp: keys_handleRevoke_def split: prod.split option.split)
    qed (simp add: keys_handleRevoke_def None)
    ultimately show ?thesis using assms(2) by auto
  next
    case (Some r)
    then show ?thesis using assms(2) by (auto simp: keys_handleCreate_def keys_handleRotate_def keys_handleRevoke_def)
  qed
  show "d' \<noteq> d \<longrightarrow> (\<exists>h. human = Some h \<and> IsTenantOwner org h b)"
    using own assms(2) by (cases "orgAccess human org True b :: key_answer response option") (auto simp: keys_handleCreate_def keys_handleRotate_def keys_handleRevoke_def)
  show "\<forall>r. keys_handleList S b human org d = writeJSON 200 r \<longrightarrow> (\<forall>x\<in>set r. \<exists>k\<in>set (kd_keys d). ak_Tenant k = org \<and> x = (toAPIKeyResource k (ks_dashNow S), None))"
  proof (cases "orgAccess human org False b :: key_answer response option")
    case None
    then show ?thesis by (auto simp: keys_handleList_def writeJSON_def ListAPIKeysForTenant_def)
  next
    case (Some r)
    then have "rp_Status r \<noteq> 200" by (auto simp: orgAccess_def split: option.splits if_splits)
    then show ?thesis using Some by (auto simp: keys_handleList_def)
  qed
qed

section \<open>Tracking\<close>

text \<open>
  A tracking token gives its payload back, and a token that verifies was made from its own first part with
  the secret; nothing else is accepted, not even another encoding of the same signature.
\<close>

theorem tracking_roundtrip:
  assumes "unmarshal (marshal p) = Some p" and "marshal p \<noteq> []" and "tp_Tenant p \<noteq> []" and "tp_Message p \<noteq> []" and "hmac secret (jwt_b64 (marshal p)) \<noteq> []"
  shows "track_Verify hmac unmarshal secret (track_Sign hmac marshal secret p) = Some p \<and>
    (track_Verify hmac unmarshal secret token = Some q \<longrightarrow> (\<exists>enc body. token = enc @ ''.'' @ jwt_b64 (hmac secret enc) \<and> jwt_b64Decode enc = Some body \<and> unmarshal body = Some q))"
proof
  have ne: "jwt_b64 x \<noteq> []" if "x \<noteq> []" for x using jwt_b64_roundtrip [of x] jwt_b64_roundtrip [of "[]"] that by (metis jwt_b64_def b64.simps(1) list.simps(8) option.inject takeWhile.simps(1))
  have i: "IndexByte (jwt_b64 (marshal p) @ CHR ''.'' # y) (CHR ''.'') = Some (length (jwt_b64 (marshal p)))" for y
    using IndexByte_append(1) [OF jwt_b64_no_dot [of "marshal p"]] by simp
  show "track_Verify hmac unmarshal secret (track_Sign hmac marshal secret p) = Some p"
    using assms ne [OF assms(2)] ne [OF assms(5)] by (simp add: track_Verify_def track_Sign_def Let_def i jwt_b64_roundtrip)
  show "track_Verify hmac unmarshal secret token = Some q \<longrightarrow> (\<exists>enc body. token = enc @ ''.'' @ jwt_b64 (hmac secret enc) \<and> jwt_b64Decode enc = Some body \<and> unmarshal body = Some q)"
  proof
    assume "track_Verify hmac unmarshal secret token = Some q"
    then obtain i body where v: "IndexByte token (CHR ''.'') = Some i" "drop (Suc i) token = jwt_b64 (hmac secret (take i token))" "jwt_b64Decode (take i token) = Some body" "unmarshal body = Some q"
      by (auto simp: track_Verify_def Let_def split: option.splits if_splits)
    have "i < length token" "token ! i = CHR ''.''" using IndexByte_Some [OF v(1)] by blast+
    then have "token = take i token @ ''.'' @ drop (Suc i) token" using id_take_nth_drop [of i token] by simp
    then show "\<exists>enc body. token = enc @ ''.'' @ jwt_b64 (hmac secret enc) \<and> jwt_b64Decode enc = Some body \<and> unmarshal body = Some q" using v by metis
  qed
qed

section \<open>Witnesses\<close>

definition sample_key :: apikey where
  "sample_key = \<lparr>ak_ID = ''1'', ak_Tenant = ''t'', ak_Name = ''n'', ak_KeyID = replicate 32 (CHR ''a''), ak_SecretHash = ''h'', ak_Scopes = [''emails:send''],
     ak_LastUsedAt = None, ak_ExpiresAt = Some 5, ak_RevokedAt = None, ak_ReplacedBy = None\<rparr>"

definition sample_db :: key_db where
  "sample_db = \<lparr>kd_keys = [sample_key], kd_tenants = [''t'']\<rparr>"

definition sample_service :: key_service where
  "sample_service = \<lparr>ks_hash = \<lparr>kh_sha = (\<lambda>s. s), kh_hmac = (\<lambda>p s. s)\<rparr>, ks_pepper = [], ks_now = 9, ks_clock = 9, ks_id = ''2'', ks_idBytes = replicate 16 (CHR ''c''), ks_secBytes = replicate 32 (CHR ''d''),
     ks_getFails = False, ks_touchFails = False, ks_dashNow = 9\<rparr>"

lemma sample_unique: "key_unique sample_db"
  by (simp add: key_unique_def sample_db_def)

definition sample_rotation :: newAPIKey where
  "sample_rotation = \<lparr>nk_Tenant = ''t'', nk_Name = ''n'', nk_KeyID = ''k'', nk_SecretHash = ''h'', nk_Scopes = [''emails:send''], nk_ExpiresAt = None\<rparr>"

theorem key_authentication_witness:
  "\<exists>e. fst (Authenticate sample_service (keyPrefix @ ''_'' @ replicate 32 (CHR ''a'') @ ''_'' @ replicate 64 (CHR ''b'')) (snd (RotateAPIKey ''2'' ''1'' sample_rotation 6 9 sample_db))) = Inl e"
proof -
  have run: "key_run sample_db [6] (snd (RotateAPIKey ''2'' ''1'' sample_rotation 6 9 sample_db))" using key_run.more [OF key_run.start key_step.rotate [of sample_db 6]] by simp
  have p: "ak_Parse (keyPrefix @ ''_'' @ replicate 32 (CHR ''a'') @ ''_'' @ replicate 64 (CHR ''b'')) = Some (ak_KeyID sample_key, replicate 64 (CHR ''b''))"
    by (simp only: Parse_iff) (simp add: sample_key_def isHex_def list_all_iff)
  show ?thesis using key_authentication [OF sample_unique _ _ run _ _ p, of 6 sample_service] by (simp add: sample_db_def sample_key_def dead_def expired_at_def sample_service_def)
qed

theorem rotation_outlives_expiry_witness:
  "dead 7 (sample_key\<lparr>ak_ExpiresAt := Some 5\<rparr>) \<and> (\<exists>k'\<in>set (kd_keys (snd (RotateAPIKey ''2'' ''1'' sample_rotation 3 (3 + 9) sample_db))). ak_KeyID k' = ak_KeyID sample_key \<and> \<not> dead 7 k')"
proof -
  have r: "RotateAPIKey ''2'' (ak_ID sample_key) sample_rotation 3 (3 + 9) sample_db = (Inr (key_row ''2'' sample_rotation), snd (RotateAPIKey ''2'' ''1'' sample_rotation 3 (3 + 9) sample_db))"
    by (simp add: RotateAPIKey_def sample_db_def sample_key_def sample_rotation_def nk_validate_def expired_at_def ValidScope_def ValidScopes_def row_refused_def key_row_def) (auto dest!: arg_cong [of _ _ length])
  show ?thesis using rotation_outlives_expiry [OF sample_unique _ r, of 5 7] by (auto simp: sample_db_def sample_key_def)
qed

theorem key_routes_isolated_witness:
  "others ''u'' (snd (keys_handleRevoke sample_service \<lparr>bd_tenants = [], bd_attempts = [], bd_payments = [], bd_members = [(''u'', ''h'', ''owner'')], bd_humans = Map.empty\<rparr> (Some ''h'') ''u'' (ak_KeyID sample_key) sample_db)) = others ''u'' sample_db"
  using key_routes_isolated [OF sample_unique, of _ sample_service "\<lparr>bd_tenants = [], bd_attempts = [], bd_payments = [], bd_members = [(''u'', ''h'', ''owner'')], bd_humans = Map.empty\<rparr>" "Some ''h''" "''u''" True None "ak_KeyID sample_key"] by blast

theorem tracking_roundtrip_witness:
  "track_Verify (\<lambda>k s. ''m'') (\<lambda>s. Some \<lparr>tp_Tenant = ''t'', tp_Message = s, tp_Recipient = [], tp_URL = []\<rparr>) ''k''
     (track_Sign (\<lambda>k s. ''m'') tp_Message ''k'' \<lparr>tp_Tenant = ''t'', tp_Message = ''x'', tp_Recipient = [], tp_URL = []\<rparr>) = Some \<lparr>tp_Tenant = ''t'', tp_Message = ''x'', tp_Recipient = [], tp_URL = []\<rparr>"
  using tracking_roundtrip [of "\<lambda>s. Some \<lparr>tp_Tenant = ''t'', tp_Message = s, tp_Recipient = [], tp_URL = []\<rparr>" tp_Message "\<lparr>tp_Tenant = ''t'', tp_Message = ''x'', tp_Recipient = [], tp_URL = []\<rparr>" "\<lambda>k s. ''m''" "''k''" "[]"] by simp

end
