(* ===== verification/DMARC.thy ===== *)
theory DMARC
  imports SPF "HOL-Library.Sublist"
begin

text \<open>
  The DMARC readiness of \<^verbatim>\<open>internal/dmarc\<close>: the bounded record parser (\<^verbatim>\<open>record.go\<close>), the tree walk of RFC 9989 with the policy and the
  Organizational Domain it yields (\<^verbatim>\<open>treewalk.go\<close>), alignment (\<^verbatim>\<open>align.go\<close>), the assessment (\<^verbatim>\<open>readiness.go\<close>) and the service
  (\<^verbatim>\<open>service.go\<close>). The tables for letter case outside ASCII and \<^verbatim>\<open>mail.ParseAddress\<close>, which gives the address of a
  report destination, are parameters; the resolver is a function from names to answers, under which the table of walks that a
  verification keeps only spares queries. The theorems: the walk selects what the RFC says within eight queries, aligned names
  share their Organizational Domain label by label, readiness is sound, and the recommended record works.
\<close>

section \<open>Records\<close>

definition dm_MaxRecordBytes :: nat where "dm_MaxRecordBytes = 2048"
definition dm_MaxTags :: nat where "dm_MaxTags = 32"
definition dm_MaxTagValue :: nat where "dm_MaxTagValue = 1024"
definition dm_MaxReportURIs :: nat where "dm_MaxReportURIs = 16"
definition dm_MaxTXTRecords :: nat where "dm_MaxTXTRecords = 64"

datatype dm_policy = PolicyNone | PolicyQuarantine | PolicyReject

datatype dm_mode = Relaxed | Strict

datatype dm_psd = PsdY | PsdN | PsdU

datatype dm_reason =
    DmTooLong | DmBadEncoding | DmBadVersion | DmBadTag | DmTooManyTags | DmTagTooLong | DmDuplicateTag | DmBadPolicy | DmBadAlignment
  | DmBadValue | DmMissingPolicy | DmTooManyURIs | DmNoActiveKey | DmSPFNotVerified | DmRelayReturnPath | DmSPFUnavailable | DmNotChecked
  | DmDNS | DmTooManyTXT | DmMultiple

datatype dm_warning =
    WarnDeprecatedTag | WarnIgnoredReportURI | WarnPolicyFromRUA | WarnMonitoringOnly | WarnTesting | WarnFailureReporting
  | WarnExternalReportDest | WarnRelayAlters | WarnConflictDiscarded

record dm_record =
  dr_Policy :: "dm_policy option"
  dr_SubPolicy :: "dm_policy option"
  dr_NonExist :: "dm_policy option"
  dr_Adkim :: dm_mode
  dr_Aspf :: dm_mode
  dr_Testing :: bool
  dr_PSD :: dm_psd
  dr_RUAHosts :: "string list"
  dr_RUFCount :: nat
  dr_Warnings :: "dm_warning list"

definition knownTags :: "string list" where
  "knownTags = [''v'', ''p'', ''sp'', ''np'', ''adkim'', ''aspf'', ''t'', ''psd'', ''rua'', ''ruf'', ''fo'', ''pct'', ''rf'', ''ri'']"

definition isWSP :: "char \<Rightarrow> bool" where
  "isWSP c \<longleftrightarrow> c = CHR '' '' \<or> c = CHR 0x09"

definition trimWSP :: "string \<Rightarrow> string" where
  "trimWSP s = rev (dropWhile isWSP (rev (dropWhile isWSP s)))"

definition IsDMARC :: "unicode \<Rightarrow> string \<Rightarrow> bool" where
  "IsDMARC U text =
     (case Cut (fst (Cut text '';'')) ''='' of (name, val, ok) \<Rightarrow> ok \<and> EqualFold U (trimWSP name) ''v'' \<and> EqualFold U (trimWSP val) ''DMARC1'')"

definition toPolicy :: "string \<Rightarrow> dm_policy option" where
  "toPolicy s =
     (if s = ''none'' then Some PolicyNone else if s = ''quarantine'' then Some PolicyQuarantine else if s = ''reject'' then Some PolicyReject else None)"

definition appendOnce :: "'a list \<Rightarrow> 'a \<Rightarrow> 'a list" where
  "appendOnce ws w = (if w \<in> set ws then ws else ws @ [w])"

definition warn :: "dm_warning \<Rightarrow> dm_record \<Rightarrow> dm_record" where
  "warn w r = r\<lparr>dr_Warnings := appendOnce (dr_Warnings r) w\<rparr>"

text \<open>The host of one report destination, if it is usable.\<close>

definition report_host :: "unicode \<Rightarrow> (string \<Rightarrow> string option) \<Rightarrow> string \<Rightarrow> string option" where
  "report_host U parse_address e =
     (if length e < 8 \<or> \<not> EqualFold U (take 7 e) ''mailto:'' then None
      else let addr = fst (Cut (drop 7 e) ''!'')
           in if length addr > 254 then None
              else case parse_address addr of
                     None \<Rightarrow> None
                   | Some a \<Rightarrow>
                       (case LastIndexByte a (CHR ''@'') of
                          None \<Rightarrow> None
                        | Some at \<Rightarrow> if at = 0 \<or> Suc at = length a then None else Some (ToLower U (drop (Suc at) a))))"

fun uri_loop :: "unicode \<Rightarrow> (string \<Rightarrow> string option) \<Rightarrow> string list \<Rightarrow> dm_record \<Rightarrow> string list \<times> dm_record" where
  "uri_loop U pa [] r = ([], r)"
| "uri_loop U pa (e # es) r =
     (case report_host U pa (trimWSP e) of
        None \<Rightarrow> uri_loop U pa es (warn WarnIgnoredReportURI r)
      | Some h \<Rightarrow> (case uri_loop U pa es r of (hs, r') \<Rightarrow> (h # hs, r')))"

definition reportURIs :: "unicode \<Rightarrow> (string \<Rightarrow> string option) \<Rightarrow> string \<Rightarrow> dm_record \<Rightarrow> dm_reason + string list \<times> dm_record" where
  "reportURIs U pa list r =
     (let entries = split_byte (CHR '','') list
      in if length entries > dm_MaxReportURIs then Inl DmTooManyURIs else Inr (uri_loop U pa entries r))"

text \<open>The switch over a known tag. The destinations of \<^verbatim>\<open>rua\<close> are read after the last tag.\<close>

definition dm_tag ::
  "unicode \<Rightarrow> (string \<Rightarrow> string option) \<Rightarrow> string \<Rightarrow> string \<Rightarrow> dm_record \<Rightarrow> string option \<Rightarrow> dm_reason + dm_record \<times> string option" where
  "dm_tag U pa name val r rua =
     (let lv = ToLower U val
      in if name = ''p'' \<or> name = ''sp'' \<or> name = ''np'' then
           (case toPolicy lv of
              None \<Rightarrow> Inl DmBadPolicy
            | Some pol \<Rightarrow>
                Inr (if name = ''p'' then r\<lparr>dr_Policy := Some pol\<rparr> else if name = ''sp'' then r\<lparr>dr_SubPolicy := Some pol\<rparr> else r\<lparr>dr_NonExist := Some pol\<rparr>, rua))
         else if name = ''adkim'' \<or> name = ''aspf'' then
           (if lv \<noteq> ''r'' \<and> lv \<noteq> ''s'' then Inl DmBadAlignment
            else let m = (if lv = ''s'' then Strict else Relaxed)
                 in Inr (if name = ''adkim'' then r\<lparr>dr_Adkim := m\<rparr> else r\<lparr>dr_Aspf := m\<rparr>, rua))
         else if name = ''t'' then
           (if lv \<noteq> ''y'' \<and> lv \<noteq> ''n'' then Inl DmBadValue else Inr (r\<lparr>dr_Testing := lv = ''y''\<rparr>, rua))
         else if name = ''psd'' then
           (if lv \<noteq> ''y'' \<and> lv \<noteq> ''n'' \<and> lv \<noteq> ''u'' then Inl DmBadValue
            else Inr (r\<lparr>dr_PSD := (if lv = ''y'' then PsdY else if lv = ''n'' then PsdN else PsdU)\<rparr>, rua))
         else if name = ''rua'' then Inr (r, Some val)
         else if name = ''ruf'' then
           (case reportURIs U pa val r of Inl e \<Rightarrow> Inl e | Inr (hs, r') \<Rightarrow> Inr (r'\<lparr>dr_RUFCount := length hs\<rparr>, rua))
         else if name = ''pct'' \<or> name = ''rf'' \<or> name = ''ri'' then Inr (warn WarnDeprecatedTag r, rua)
         else Inr (r, rua))"

record dm_parse =
  ps_n :: nat
  ps_seen :: "string list"
  ps_rec :: dm_record
  ps_rua :: "string option"

text \<open>One pass of the loop over the parts.\<close>

definition dm_part :: "unicode \<Rightarrow> (string \<Rightarrow> string option) \<Rightarrow> string \<Rightarrow> dm_parse \<Rightarrow> dm_reason + dm_parse" where
  "dm_part U pa part0 s =
     (let part = trimWSP part0
      in if part = [] then Inr s
         else if Suc (ps_n s) > dm_MaxTags then Inl DmTooManyTags
         else (case Cut part ''='' of
             (name0, val0, ok) \<Rightarrow>
               let n = Suc (ps_n s); name = ToLower U (trimWSP name0); val = trimWSP val0
               in if \<not> ok \<or> name = [] \<or> length name > 32 then Inl DmBadTag
                  else if length val > dm_MaxTagValue then Inl DmTagTooLong
                  else if n = 1 \<and> (name \<noteq> ''v'' \<or> \<not> EqualFold U val ''DMARC1'') then Inl DmBadVersion
                  else if name \<notin> set knownTags then Inr (s\<lparr>ps_n := n\<rparr>)
                  else if name \<in> set (ps_seen s) then Inl DmDuplicateTag
                  else (case dm_tag U pa name val (ps_rec s) (ps_rua s) of
                          Inl e \<Rightarrow> Inl e
                        | Inr (r, rua) \<Rightarrow> Inr \<lparr>ps_n = n, ps_seen = name # ps_seen s, ps_rec = r, ps_rua = rua\<rparr>)))"

fun dm_parts :: "unicode \<Rightarrow> (string \<Rightarrow> string option) \<Rightarrow> string list \<Rightarrow> dm_parse \<Rightarrow> dm_reason + dm_parse" where
  "dm_parts U pa [] s = Inr s"
| "dm_parts U pa (p # ps) s = (case dm_part U pa p s of Inl e \<Rightarrow> Inl e | Inr s' \<Rightarrow> dm_parts U pa ps s')"

definition dm_start :: dm_parse where
  "dm_start = \<lparr>ps_n = 0, ps_seen = [],
     ps_rec = \<lparr>dr_Policy = None, dr_SubPolicy = None, dr_NonExist = None, dr_Adkim = Relaxed, dr_Aspf = Relaxed, dr_Testing = False, dr_PSD = PsdU,
       dr_RUAHosts = [], dr_RUFCount = 0, dr_Warnings = []\<rparr>, ps_rua = None\<rparr>"

text \<open>What follows the loop: the destinations, the default policy and the last warning.\<close>

definition dm_finish :: "unicode \<Rightarrow> (string \<Rightarrow> string option) \<Rightarrow> dm_parse \<Rightarrow> dm_reason + dm_record" where
  "dm_finish U pa s =
     (if ps_n s = 0 \<or> ''v'' \<notin> set (ps_seen s) then Inl DmBadVersion
      else case (case ps_rua s of
                   None \<Rightarrow> Inr (ps_rec s)
                 | Some rua \<Rightarrow> (case reportURIs U pa rua (ps_rec s) of Inl e \<Rightarrow> Inl e | Inr (hs, r) \<Rightarrow> Inr (r\<lparr>dr_RUAHosts := hs\<rparr>))) of
             Inl e \<Rightarrow> Inl e
           | Inr r \<Rightarrow>
               (let late = (\<lambda>r. if dr_RUFCount r > 0 then warn WarnFailureReporting r else r)
                in if dr_Policy r = None then
                     (if dr_RUAHosts r = [] then Inl DmMissingPolicy else Inr (late (warn WarnPolicyFromRUA (r\<lparr>dr_Policy := Some PolicyNone\<rparr>))))
                   else Inr (late r)))"

definition dm_Parse :: "unicode \<Rightarrow> (string \<Rightarrow> string option) \<Rightarrow> string \<Rightarrow> dm_reason + dm_record" where
  "dm_Parse U pa text =
     (if length text > dm_MaxRecordBytes then Inl DmTooLong
      else if list_ex (\<lambda>c. byte c < 0x20 \<and> c \<noteq> CHR 0x09 \<or> byte c \<ge> 0x7f) text then Inl DmBadEncoding
      else case dm_parts U pa (split_byte (CHR '';'') text) dm_start of Inl e \<Rightarrow> Inl e | Inr s \<Rightarrow> dm_finish U pa s)"

section \<open>Alignment\<close>

definition label_ok :: "string \<Rightarrow> bool" where
  "label_ok l \<longleftrightarrow> \<not> (l = [] \<or> length l > 63 \<or> l ! 0 = CHR ''-'' \<or> l ! (length l - 1) = CHR ''-'' \<or> HasPrefix l ''xn--'') \<and>
     list_all (\<lambda>c. is_lower c \<or> is_digit c \<or> c = CHR ''-'') l"

definition canonical :: "unicode \<Rightarrow> string \<Rightarrow> string option" where
  "canonical U d0 =
     (let d = ToLower U (TrimSuffix (TrimSpace d0) ''.'')
      in if d = [] \<or> length d > 253 \<or> is_IP d then None
         else if list_all label_ok (split_byte (CHR ''.'') d) then Some d else None)"

text \<open>The outcome: whether the names are aligned, and whether that is known.\<close>

definition Aligned :: "unicode \<Rightarrow> string \<Rightarrow> string \<Rightarrow> dm_mode \<Rightarrow> (string \<Rightarrow> string option) option \<Rightarrow> bool \<times> bool" where
  "Aligned U fromDomain authenticated mode org =
     (case (canonical U fromDomain, canonical U authenticated) of
        (Some from, Some i) \<Rightarrow>
          if from = i then (True, True)
          else if mode = Strict then (False, True)
          else (case org of
                  None \<Rightarrow> (False, False)
                | Some org \<Rightarrow> (case (org from, org i) of (Some f, Some oi) \<Rightarrow> (f = oi, True) | _ \<Rightarrow> (False, False)))
      | _ \<Rightarrow> (False, True))"

section \<open>Tree walk\<close>

datatype entry_kind = KindNone | KindMultiple | KindRecord

record dm_entry =
  de_name :: string
  de_kind :: entry_kind
  de_raw :: string
  de_rec :: "dm_record option"
  de_invalid :: "dm_reason option"
  de_psd :: dm_psd

datatype dm_source = SourceDomain | SourceOrg | SourcePSD

record policyRecord =
  pr_name :: string
  pr_source :: dm_source
  pr_raw :: string
  pr_rec :: "dm_record option"
  pr_invalid :: "dm_reason option"

record walkResult =
  wr_start :: string
  wr_org :: string
  wr_queries :: nat
  wr_policy :: "policyRecord option"
  wr_conflicts :: "string list"

abbreviation labels :: "string \<Rightarrow> string list" where
  "labels \<equiv> split_byte (CHR ''.'')"

definition targets :: "string \<Rightarrow> string list" where
  "targets domain =
     (let ls = labels domain; x = length ls
      in if x = 1 then [domain]
         else domain # map (\<lambda>n. join_with ''.'' (drop (x - n) ls)) (rev [1..<Suc (if x \<ge> 8 then 7 else x - 1)]))"

definition labelCount :: "string \<Rightarrow> nat" where
  "labelCount name = length (filter (\<lambda>c. c = CHR ''.'') name) + 1"

fun psd_loop :: "unicode \<Rightarrow> string list \<Rightarrow> dm_psd" where
  "psd_loop U [] = PsdU"
| "psd_loop U (part # ps) =
     (case Cut part ''='' of
        (name, val, ok) \<Rightarrow>
          if ok \<and> EqualFold U (trimWSP name) ''psd''
          then let v = ToLower U (trimWSP val) in if v = ''y'' then PsdY else if v = ''n'' then PsdN else PsdU
          else psd_loop U ps)"

definition scanPSD :: "unicode \<Rightarrow> string \<Rightarrow> dm_psd" where
  "scanPSD U text = (if length text > dm_MaxRecordBytes then PsdU else psd_loop U (split_byte (CHR '';'') text))"

definition dm_entry_at :: "string \<Rightarrow> entry_kind \<Rightarrow> dm_entry" where
  "dm_entry_at name kind = \<lparr>de_name = name, de_kind = kind, de_raw = [], de_rec = None, de_invalid = None, de_psd = PsdU\<rparr>"

definition dm_classify :: "unicode \<Rightarrow> (string \<Rightarrow> string option) \<Rightarrow> string \<Rightarrow> string list \<Rightarrow> dm_entry" where
  "dm_classify U pa name records =
     (if length records > dm_MaxTXTRecords then (dm_entry_at name KindRecord)\<lparr>de_invalid := Some DmTooManyTXT\<rparr>
      else case filter (IsDMARC U) records of
             [] \<Rightarrow> dm_entry_at name KindNone
           | [raw] \<Rightarrow>
               (case dm_Parse U pa raw of
                  Inl e \<Rightarrow> (dm_entry_at name KindRecord)\<lparr>de_raw := raw, de_invalid := Some e, de_psd := scanPSD U raw\<rparr>
                | Inr r \<Rightarrow> (dm_entry_at name KindRecord)\<lparr>de_raw := raw, de_rec := Some r, de_psd := dr_PSD r\<rparr>)
           | _ \<Rightarrow> dm_entry_at name KindMultiple)"

definition dmarcLabel :: string where "dmarcLabel = ''_dmarc.''"

text \<open>The loop over the names; \<open>None\<close> is a failed lookup, which ends the walk with an error.\<close>

fun walk_loop :: "unicode \<Rightarrow> (string \<Rightarrow> string option) \<Rightarrow> (string \<Rightarrow> txt_answer) \<Rightarrow> string list \<Rightarrow> dm_entry list option" where
  "walk_loop U pa lookup [] = Some []"
| "walk_loop U pa lookup (name # ns) =
     (case lookup (dmarcLabel @ name) of
        TxtFailed \<Rightarrow> None
      | TxtNotFound \<Rightarrow> map_option ((#) (dm_entry_at name KindNone)) (walk_loop U pa lookup ns)
      | TxtRecords records \<Rightarrow>
          (let e = dm_classify U pa name records
           in if de_kind e = KindRecord \<and> (de_psd e = PsdY \<or> de_psd e = PsdN) then Some [e]
              else map_option ((#) e) (walk_loop U pa lookup ns)))"

definition oneLabelBelow :: "string \<Rightarrow> string \<Rightarrow> string" where
  "oneLabelBelow start ancestor =
     (let ls = labels start; k = labelCount ancestor + 1
      in if k > length ls then start else join_with ''.'' (drop (length ls - k) ls))"

definition dm_mk :: "dm_entry \<Rightarrow> dm_source \<Rightarrow> policyRecord" where
  "dm_mk e src = \<lparr>pr_name = de_name e, pr_source = src, pr_raw = de_raw e, pr_rec = de_rec e, pr_invalid = de_invalid e\<rparr>"

definition find_record :: "string \<Rightarrow> dm_entry list \<Rightarrow> dm_entry option" where
  "find_record name es = find (\<lambda>e. de_name e = name \<and> de_kind e = KindRecord) es"

definition pickPolicy :: "string \<Rightarrow> string \<Rightarrow> dm_entry list \<Rightarrow> policyRecord option" where
  "pickPolicy start org es =
     (case find_record start es of
        Some e \<Rightarrow> Some (dm_mk e SourceDomain)
      | None \<Rightarrow>
          (case (if org \<noteq> start then find_record org es else None) of
             Some e \<Rightarrow> Some (dm_mk e SourceOrg)
           | None \<Rightarrow> map_option (\<lambda>e. dm_mk e SourcePSD) (find (\<lambda>e. de_kind e = KindRecord \<and> de_psd e = PsdY \<and> de_name e \<noteq> start) es)))"

text \<open>The loop of \<^verbatim>\<open>resolve\<close>: the domain once it is set, and the last record.\<close>

fun org_loop :: "string \<Rightarrow> dm_entry list \<Rightarrow> string option \<Rightarrow> dm_entry option \<Rightarrow> string option \<times> dm_entry option" where
  "org_loop start [] org prev = (org, prev)"
| "org_loop start (e # es) org prev =
     (if de_kind e \<noteq> KindRecord then org_loop start es org prev
      else if org \<noteq> None then org_loop start es org (Some e)
      else org_loop start es
             (if de_psd e = PsdN then Some (de_name e) else if de_psd e = PsdY \<and> de_name e \<noteq> start then Some (oneLabelBelow start (de_name e)) else None) (Some e))"

definition dm_resolve :: "string \<Rightarrow> dm_entry list \<Rightarrow> walkResult" where
  "dm_resolve start es =
     (let org = (case org_loop start es None None of (Some d, _) \<Rightarrow> d | (None, Some e) \<Rightarrow> de_name e | (None, None) \<Rightarrow> start)
      in \<lparr>wr_start = start, wr_org = org, wr_queries = length es, wr_policy = pickPolicy start org es,
          wr_conflicts = map de_name (filter (\<lambda>e. de_kind e = KindMultiple) es)\<rparr>)"

definition treeWalk :: "unicode \<Rightarrow> (string \<Rightarrow> string option) \<Rightarrow> (string \<Rightarrow> txt_answer) \<Rightarrow> string \<Rightarrow> walkResult option" where
  "treeWalk U pa lookup start = map_option (dm_resolve start) (walk_loop U pa lookup (targets start))"

section \<open>Readiness\<close>

datatype dm_status = DmUnchecked | DmNotConfigured | DmMonitoring | DmEnforcing | DmConflict | DmInvalid | DmTempError

datatype dm_readiness = ReadinessUnchecked | ReadinessReady | ReadinessDNSAction | ReadinessAuthIncomp | ReadinessUnknown

datatype path_status = PathReady | PathNotConfigured | PathNotAligned | PathUnknown

record dm_path =
  pt_Identity :: string
  pt_Aligned :: bool
  pt_Mode :: dm_mode
  pt_Status :: path_status
  pt_Reason :: "dm_reason option"

datatype dm_action = DmCreate string string | DmNone | DmMergeRecords | DmFixRecord | DmRetryLater

record dnsFinding =
  fd_status :: dm_status
  fd_reason :: "dm_reason option"
  fd_org :: string
  fd_name :: string
  fd_source :: "dm_source option"
  fd_raw :: string
  fd_rec :: "dm_record option"
  fd_conflicts :: "string list"

record dm_DNSResult =
  dn_Status :: dm_status
  dn_Reason :: "dm_reason option"
  dn_Source :: "dm_source option"
  dn_RecordName :: string
  dn_Policy :: "dm_policy option"
  dn_SubdomainPolicy :: "dm_policy option"
  dn_Effective :: "dm_policy option"
  dn_Testing :: bool
  dn_ReportURIs :: nat
  dn_Published :: string

record dm_Result =
  dm_Domain :: string
  dm_OrgDomain :: string
  dm_Mode :: string
  dm_Checked :: bool
  dm_DNS :: dm_DNSResult
  dm_DKIM :: dm_path
  dm_SPF :: dm_path
  dm_Readiness :: dm_readiness
  dm_Expected :: dm_action
  dm_Warnings :: "dm_warning list"

definition no_finding :: "dm_status \<Rightarrow> dm_reason option \<Rightarrow> dnsFinding" where
  "no_finding st reason = \<lparr>fd_status = st, fd_reason = reason, fd_org = [], fd_name = [], fd_source = None, fd_raw = [], fd_rec = None, fd_conflicts = []\<rparr>"

definition findingFrom :: "walkResult \<Rightarrow> dnsFinding" where
  "findingFrom w =
     (let f = (no_finding DmNotConfigured None)\<lparr>fd_org := wr_org w, fd_conflicts := wr_conflicts w\<rparr>;
          authorHit = list_ex (\<lambda>c. c = wr_start w) (wr_conflicts w)
      in if authorHit \<or> (wr_policy w = None \<and> wr_conflicts w \<noteq> [])
         then f\<lparr>fd_status := DmConflict, fd_reason := Some DmMultiple, fd_name := hd (wr_conflicts w)\<rparr>
         else case wr_policy w of
                None \<Rightarrow> f
              | Some p \<Rightarrow>
                  if pr_invalid p \<noteq> None
                  then f\<lparr>fd_status := DmInvalid, fd_reason := pr_invalid p, fd_name := pr_name p, fd_source := Some (pr_source p)\<rparr>
                  else f\<lparr>fd_status := DmMonitoring, fd_name := pr_name p, fd_source := Some (pr_source p), fd_raw := pr_raw p, fd_rec := pr_rec p\<rparr>)"

record dm_input =
  di_from :: string
  di_checked :: bool
  di_dkimActive :: bool
  di_dkimDomain :: string
  di_dkimErr :: bool
  di_spfMode :: string
  di_spfStatus :: string
  di_spfErr :: bool
  di_spfIdentity :: string

definition withinOrg :: "unicode \<Rightarrow> string \<Rightarrow> string \<Rightarrow> bool" where
  "withinOrg U host org =
     (case canonical U host of
        None \<Rightarrow> False
      | Some h \<Rightarrow>
          if org = [] then False
          else let hl = labels h; ol = labels org
               in if length hl < length ol then False else list_all (\<lambda>i. hl ! (length hl - length ol + i) = ol ! i) [0..<length ol])"

definition recordName :: "string \<Rightarrow> string" where
  "recordName name = (if name = [] then [] else dmarcLabel @ name)"

definition recommendedValue :: string where "recommendedValue = ''v=DMARC1; p=none''"

definition dm_expected :: "string \<Rightarrow> dm_status \<Rightarrow> dm_action" where
  "dm_expected from st =
     (case st of
        DmNotConfigured \<Rightarrow> DmCreate (dmarcLabel @ from) recommendedValue
      | DmUnchecked \<Rightarrow> DmCreate (dmarcLabel @ from) recommendedValue
      | DmMonitoring \<Rightarrow> DmNone
      | DmEnforcing \<Rightarrow> DmNone
      | DmConflict \<Rightarrow> DmMergeRecords
      | DmInvalid \<Rightarrow> DmFixRecord
      | DmTempError \<Rightarrow> DmRetryLater)"

text \<open>The two paths; \<open>align\<close> relates the From domain to an identity.\<close>

definition dkim_path :: "dm_input \<Rightarrow> (string \<Rightarrow> string \<Rightarrow> dm_mode \<Rightarrow> bool \<times> bool) \<Rightarrow> dm_mode \<Rightarrow> dm_path" where
  "dkim_path i align adkim =
     (let ident = (if di_dkimActive i \<and> di_dkimDomain i \<noteq> [] then di_dkimDomain i else di_from i)
      in case align (di_from i) ident adkim of
           (aligned, known) \<Rightarrow>
             (let mk = (\<lambda>st reason. \<lparr>pt_Identity = ident, pt_Aligned = aligned, pt_Mode = adkim, pt_Status = st, pt_Reason = reason\<rparr>)
              in if di_dkimErr i then mk PathUnknown (Some DmNotChecked)
                 else if \<not> known then mk PathUnknown (Some DmDNS)
                 else if \<not> aligned then mk PathNotAligned None
                 else if \<not> di_dkimActive i then mk PathNotConfigured (Some DmNoActiveKey)
                 else mk PathReady None))"

definition spf_path :: "dm_input \<Rightarrow> (string \<Rightarrow> string \<Rightarrow> dm_mode \<Rightarrow> bool \<times> bool) \<Rightarrow> dm_mode \<Rightarrow> dm_path" where
  "spf_path i align aspf =
     (let ident = (if di_spfIdentity i = [] then di_from i else di_spfIdentity i)
      in case align (di_from i) ident aspf of
           (aligned, known) \<Rightarrow>
             (let mk = (\<lambda>st reason. \<lparr>pt_Identity = ident, pt_Aligned = aligned, pt_Mode = aspf, pt_Status = st, pt_Reason = reason\<rparr>)
              in if di_spfErr i then mk PathUnknown (Some DmSPFUnavailable)
                 else if di_spfMode i = ''relay'' then (mk PathUnknown (Some DmRelayReturnPath))\<lparr>pt_Identity := [], pt_Aligned := False\<rparr>
                 else if \<not> known then mk PathUnknown (Some DmDNS)
                 else if \<not> aligned then mk PathNotAligned None
                 else if \<not> di_checked i then mk PathUnknown (Some DmNotChecked)
                 else if di_spfStatus i = ''verified'' then mk PathReady None
                 else if di_spfStatus i \<in> {''temporary_error'', ''sending_infrastructure_unknown'', ''''} then mk PathUnknown (Some DmSPFUnavailable)
                 else mk PathNotConfigured (Some DmSPFNotVerified)))"

definition readiness :: "dm_status \<Rightarrow> dm_path \<Rightarrow> dm_path \<Rightarrow> dm_readiness" where
  "readiness st dk sp =
     (if st = DmUnchecked then ReadinessUnchecked
      else if st = DmTempError then ReadinessUnknown
      else if st \<in> {DmNotConfigured, DmInvalid, DmConflict} then ReadinessDNSAction
      else if pt_Status dk = PathReady \<or> pt_Status sp = PathReady then ReadinessReady
      else if pt_Status dk = PathUnknown \<or> pt_Status sp = PathUnknown then ReadinessUnknown
      else ReadinessAuthIncomp)"

text \<open>What a usable record adds: the published policy and the warnings.\<close>

definition dns_result :: "dnsFinding \<Rightarrow> dm_DNSResult" where
  "dns_result f =
     (let base = \<lparr>dn_Status = fd_status f, dn_Reason = fd_reason f, dn_Source = fd_source f, dn_RecordName = recordName (fd_name f), dn_Policy = None,
            dn_SubdomainPolicy = None, dn_Effective = None, dn_Testing = False, dn_ReportURIs = 0, dn_Published = []\<rparr>
      in case (fd_status f, fd_rec f) of
           (DmMonitoring, Some r) \<Rightarrow>
             (let eff = (if fd_source f \<noteq> Some SourceDomain \<and> dr_SubPolicy r \<noteq> None then dr_SubPolicy r else dr_Policy r)
              in base\<lparr>dn_Status := (if eff \<noteq> Some PolicyNone then DmEnforcing else DmMonitoring), dn_Policy := dr_Policy r, dn_SubdomainPolicy := dr_SubPolicy r,
                   dn_Effective := eff, dn_Testing := dr_Testing r, dn_ReportURIs := length (dr_RUAHosts r), dn_Published := fd_raw f\<rparr>)
         | _ \<Rightarrow> base)"

definition dns_warnings :: "unicode \<Rightarrow> dnsFinding \<Rightarrow> dm_warning list" where
  "dns_warnings U f =
     (case (fd_status f, fd_rec f) of
        (DmMonitoring, Some r) \<Rightarrow>
          (let w1 = (if dn_Effective (dns_result f) = Some PolicyNone then appendOnce (dr_Warnings r) WarnMonitoringOnly else dr_Warnings r);
               w2 = (if dr_Testing r then appendOnce w1 WarnTesting else w1);
               w3 = (if fd_conflicts f \<noteq> [] then appendOnce w2 WarnConflictDiscarded else w2)
           in fold (\<lambda>h w. if withinOrg U h (fd_org f) then w else appendOnce w WarnExternalReportDest) (dr_RUAHosts r) w3)
      | _ \<Rightarrow> [])"

definition dm_modes :: "dnsFinding \<Rightarrow> dm_mode \<times> dm_mode" where
  "dm_modes f = (case (fd_status f, fd_rec f) of (DmMonitoring, Some r) \<Rightarrow> (dr_Adkim r, dr_Aspf r) | _ \<Rightarrow> (Relaxed, Relaxed))"

definition dm_assess :: "unicode \<Rightarrow> dm_input \<Rightarrow> (string \<Rightarrow> string \<Rightarrow> dm_mode \<Rightarrow> bool \<times> bool) \<Rightarrow> dnsFinding \<Rightarrow> dm_Result" where
  "dm_assess U i align f =
     (let d = dns_result f; dk = dkim_path i align (fst (dm_modes f)); sp = spf_path i align (snd (dm_modes f)); w = dns_warnings U f
      in \<lparr>dm_Domain = di_from i, dm_OrgDomain = fd_org f, dm_Mode = di_spfMode i, dm_Checked = (fd_status f \<noteq> DmUnchecked), dm_DNS = d, dm_DKIM = dk, dm_SPF = sp,
          dm_Readiness = readiness (dn_Status d) dk sp, dm_Expected = dm_expected (di_from i) (dn_Status d),
          dm_Warnings = (if di_spfMode i = ''relay'' \<and> pt_Status dk = PathReady then appendOnce w WarnRelayAlters else w)\<rparr>)"

section \<open>Service\<close>

text \<open>
  What the service is told: the facts of DKIM (signing domain and whether a key is active) and SPF (mode, and status if it is checked),
  each absent, failed or given, the resolver, whether a slot was free, and whether the request was cancelled at each place that looks.
\<close>

datatype 'a fact = FactAbsent | FactFailed | Fact 'a

record dm_env =
  en_dkim :: "(string \<times> bool) fact"
  en_dkimCancelled :: bool
  en_spf :: "bool \<Rightarrow> (string \<times> string) fact"
  en_spfCancelled :: bool
  en_slot :: bool
  en_lookup :: "string \<Rightarrow> txt_answer"
  en_walkCancelled :: bool

datatype dm_error = DmStoreError | DmErrDomainNotVerified | DmErrBusy | DmCancelled | DmBadStoredName

definition dm_inputs :: "dm_env \<Rightarrow> string \<Rightarrow> bool \<Rightarrow> dm_error + dm_input" where
  "dm_inputs E name check =
     (let i = \<lparr>di_from = name, di_checked = check, di_dkimActive = False, di_dkimDomain = [], di_dkimErr = False, di_spfMode = [], di_spfStatus = [], di_spfErr = False, di_spfIdentity = name\<rparr>
      in if en_dkim E = FactFailed \<and> en_dkimCancelled E then Inl DmCancelled
         else let j = (case en_dkim E of FactAbsent \<Rightarrow> i | FactFailed \<Rightarrow> i\<lparr>di_dkimErr := True\<rparr> | Fact (d, active) \<Rightarrow> i\<lparr>di_dkimActive := active, di_dkimDomain := d\<rparr>)
              in (case en_spf E check of
                    FactAbsent \<Rightarrow> Inr (j\<lparr>di_spfErr := True\<rparr>)
                  | FactFailed \<Rightarrow> if en_spfCancelled E then Inl DmCancelled else Inr (j\<lparr>di_spfErr := True\<rparr>)
                  | Fact (mode, st) \<Rightarrow> Inr (j\<lparr>di_spfMode := mode, di_spfStatus := st\<rparr>)))"

definition dm_Describe :: "unicode \<Rightarrow> dm_env \<Rightarrow> owned_domain option \<Rightarrow> dm_error + dm_Result" where
  "dm_Describe U E owned =
     (case owned of
        None \<Rightarrow> Inl DmStoreError
      | Some d \<Rightarrow>
          (case dm_inputs E (od_Name d) False of
             Inl e \<Rightarrow> Inl e
           | Inr i \<Rightarrow> Inr ((dm_assess U i (\<lambda>f x m. Aligned U f x m None) (no_finding DmUnchecked None))\<lparr>dm_Readiness := ReadinessUnchecked\<rparr>)))"

definition orgOf :: "unicode \<Rightarrow> (string \<Rightarrow> string option) \<Rightarrow> (string \<Rightarrow> txt_answer) \<Rightarrow> string \<Rightarrow> string option" where
  "orgOf U pa lookup d = map_option wr_org (treeWalk U pa lookup d)"

text \<open>The result comes with what the observer was told.\<close>

definition dm_Verify ::
  "unicode \<Rightarrow> (string \<Rightarrow> string option) \<Rightarrow> dm_env \<Rightarrow> owned_domain option \<Rightarrow> (dm_error + dm_Result) \<times> (dm_status \<times> dm_readiness) list" where
  "dm_Verify U pa E owned =
     (case owned of
        None \<Rightarrow> (Inl DmStoreError, [])
      | Some d \<Rightarrow>
          if \<not> od_Verified d then (Inl DmErrDomainNotVerified, [])
          else (case dm_inputs E (od_Name d) True of
             Inl e \<Rightarrow> (Inl e, [])
           | Inr i \<Rightarrow>
               if \<not> en_slot E then (Inl DmErrBusy, [])
               else (case canonical U (od_Name d) of
                  None \<Rightarrow> (Inl DmBadStoredName, [])
                | Some from \<Rightarrow>
                    (let walk = treeWalk U pa (en_lookup E) from
                     in if walk = None \<and> en_walkCancelled E then (Inl DmCancelled, [])
                        else let found = (case walk of None \<Rightarrow> no_finding DmTempError (Some DmDNS) | Some w \<Rightarrow> findingFrom w);
                                 res = dm_assess U i (\<lambda>f x m. Aligned U f x m (Some (orgOf U pa (en_lookup E)))) found
                             in (Inr res, [(dn_Status (dm_DNS res), dm_Readiness res)])))))"

section \<open>Names and labels\<close>

lemma labelCount_labels: "labelCount s = length (labels s)"
proof (induction s)
  case (Cons c s)
  obtain w ws where "labels s = w # ws" by (cases "labels s") auto
  with Cons show ?case by (auto simp: labelCount_def)
qed (simp add: labelCount_def)

lemma labels_join_drop: "k < length (labels d) \<Longrightarrow> labels (join_with ''.'' (drop k (labels d))) = drop k (labels d)"
  by (rule split_join) (auto simp: list_all_iff dest!: in_set_dropD split_byte_no_sep)

lemma join_labels: "join_with ''.'' (labels d) = d"
  using join_split_byte [of "CHR ''.''" d] by simp

lemma targets_alt:
  "targets d = d # map (\<lambda>n. join_with ''.'' (drop (length (labels d) - n) (labels d))) (rev [1..<Suc (if length (labels d) \<ge> 8 then 7 else length (labels d) - 1)])"
  by (auto simp: targets_def Let_def)

lemma targets_length: "length (targets d) \<le> 8"
  by (auto simp: targets_alt simp del: upt_Suc)

lemma target_labels: "t \<in> set (targets d) \<Longrightarrow> \<exists>k < length (labels d). labels t = drop k (labels d)"
proof -
  assume "t \<in> set (targets d)"
  then consider "t = d" | n where "0 < n" "n < length (labels d)" "t = join_with ''.'' (drop (length (labels d) - n) (labels d))"
  proof -
    assume m: "t \<in> set (targets d)" and c: "t = d \<Longrightarrow> thesis" "\<And>n. 0 < n \<Longrightarrow> n < length (labels d) \<Longrightarrow> t = join_with ''.'' (drop (length (labels d) - n) (labels d)) \<Longrightarrow> thesis"
    have "1 \<le> length (labels d)" by (simp add: Suc_le_eq)
    with m have "t = d \<or> (\<exists>n. 0 < n \<and> n < length (labels d) \<and> t = join_with ''.'' (drop (length (labels d) - n) (labels d)))"
      by (auto simp: targets_alt Suc_le_eq simp del: upt_Suc split: if_splits intro: order_less_le_trans)
    then show thesis using c by blast
  qed
  then show ?thesis
  proof cases
    case 1
    then show ?thesis by (intro exI [of _ 0]) auto
  next
    case (2 n)
    then show ?thesis using labels_join_drop [of "length (labels d) - n" d] by (intro exI [of _ "length (labels d) - n"]) auto
  qed
qed

lemma targets_decreasing: "sorted_wrt (\<lambda>a b. labelCount b < labelCount a) (targets d)"
proof -
  let ?x = "length (labels d)"
  let ?m = "if ?x \<ge> 8 then 7 else ?x - 1"
  have lc: "labelCount (join_with ''.'' (drop (?x - n) (labels d))) = n" if "n \<in> set [1..<Suc ?m]" for n
    using that labels_join_drop [of "?x - n" d] by (auto simp: labelCount_labels simp del: upt_Suc split: if_splits)
  have "sorted_wrt (\<lambda>a b. labelCount (join_with ''.'' (drop (?x - b) (labels d))) < labelCount (join_with ''.'' (drop (?x - a) (labels d)))) (rev [1..<Suc ?m])"
    unfolding sorted_wrt_rev by (rule sorted_wrt_mono_rel [of _ "(<)"]) (auto simp: lc simp del: upt_Suc)
  moreover have "n < ?x" if "n \<in> set [1..<Suc ?m]" for n using that by (auto simp del: upt_Suc split: if_splits)
  ultimately show ?thesis unfolding targets_alt sorted_wrt_map sorted_wrt.simps
    using lc labelCount_labels [of d] by (auto simp del: upt_Suc)
qed

section \<open>The walk\<close>

definition stops :: "dm_entry \<Rightarrow> bool" where
  "stops e \<longleftrightarrow> de_kind e = KindRecord \<and> (de_psd e = PsdY \<or> de_psd e = PsdN)"

lemma classify_name [simp]: "de_name (dm_classify U pa name rs) = name" "de_name (dm_entry_at name k) = name" "de_kind (dm_entry_at name k) = k"
  by (auto simp: dm_classify_def dm_entry_at_def split: list.splits sum.splits)

lemma entry_at_stops [simp]: "\<not> stops (dm_entry_at name KindNone)"
  by (simp add: stops_def)

lemma walk_names:
  "walk_loop U pa lookup ns = Some es \<Longrightarrow> prefix (map de_name es) ns \<and> (map de_name es = ns \<or> (es \<noteq> [] \<and> stops (last es))) \<and> (\<forall>e\<in>set (butlast es). \<not> stops e)"
proof (induction ns arbitrary: es)
  case (Cons name ns)
  show ?case
  proof (cases "lookup (dmarcLabel @ name)")
    case (TxtRecords rs)
    then show ?thesis using Cons by (auto simp: Let_def stops_def split: if_splits)
  qed (use Cons in \<open>auto split: if_splits\<close>)
qed simp

lemma walk_total: "(\<And>n. lookup n \<noteq> TxtFailed) \<Longrightarrow> \<exists>es. walk_loop U pa lookup ns = Some es"
proof (induction ns)
  case (Cons name ns)
  then show ?case by (cases "lookup (dmarcLabel @ name)") (auto simp: Let_def)
qed simp

text \<open>The Organizational Domain as section 4.10.2 of RFC 9989 defines it over the records a walk retrieved.\<close>

definition rfc_org :: "string \<Rightarrow> dm_entry list \<Rightarrow> string" where
  "rfc_org start es =
     (let rs = filter (\<lambda>e. de_kind e = KindRecord) es
      in case find (\<lambda>e. de_psd e = PsdN) rs of
           Some e \<Rightarrow> de_name e
         | None \<Rightarrow>
             (case find (\<lambda>e. de_psd e = PsdY \<and> de_name e \<noteq> start) rs of
                Some e \<Rightarrow> join_with ''.'' (drop (length (labels start) - Suc (length (labels (de_name e)))) (labels start))
              | None \<Rightarrow> if rs = [] then start else de_name (arg_min_list (\<lambda>e. length (labels (de_name e))) rs)))"

lemma arg_min_last: "sorted_wrt (\<lambda>a b. f b < f a) xs \<Longrightarrow> xs \<noteq> [] \<Longrightarrow> arg_min_list f xs = last xs" for f :: "'a \<Rightarrow> nat"
proof (induction f xs rule: arg_min_list.induct)
  case (2 f x y zs)
  have "f (last (y # zs)) < f x" using 2(2) by (metis last_in_set list.distinct(1) sorted_wrt.simps(2))
  then show ?case using 2 by (auto simp: Let_def)
qed auto

lemma below_join: "oneLabelBelow start a = join_with ''.'' (drop (length (labels start) - Suc (length (labels a))) (labels start))"
  by (auto simp: oneLabelBelow_def Let_def labelCount_labels join_labels)

lemma org_loop_append: "org_loop start (es @ fs) org prev = (case org_loop start es org prev of (o', p') \<Rightarrow> org_loop start fs o' p')"
  by (induction start es org prev rule: org_loop.induct) auto

lemma org_loop_plain:
  "\<forall>e\<in>set es. \<not> stops e \<Longrightarrow>
   org_loop start es None prev = (None, if filter (\<lambda>e. de_kind e = KindRecord) es = [] then prev else Some (last (filter (\<lambda>e. de_kind e = KindRecord) es)))"
proof (induction es arbitrary: prev)
  case (Cons e es)
  then have "de_kind e = KindRecord \<Longrightarrow> de_psd e = PsdU" by (cases "de_psd e") (auto simp: stops_def)
  then show ?case using Cons by auto
qed simp

lemma plain_find: "\<forall>e\<in>set es. \<not> stops e \<Longrightarrow> x \<noteq> PsdU \<Longrightarrow> find (\<lambda>e. de_psd e = x \<and> P e) (filter (\<lambda>e. de_kind e = KindRecord) es) = None"
  by (cases x) (auto simp: find_None_iff stops_def)

lemma find_append: "find P (xs @ ys) = (case find P xs of None \<Rightarrow> find P ys | Some x \<Rightarrow> Some x)"
  by (induction xs) auto

lemma resolve_org:
  assumes "\<forall>e\<in>set (butlast es). \<not> stops e" and "sorted_wrt (\<lambda>a b. length (labels (de_name b)) < length (labels (de_name a))) es"
  shows "wr_org (dm_resolve start es) = rfc_org start es"
proof (cases es rule: rev_cases)
  case (snoc bs e)
  let ?rs = "filter (\<lambda>e. de_kind e = KindRecord)"
  have plain: "\<forall>e\<in>set bs. \<not> stops e" using assms(1) snoc by simp
  have sw: "sorted_wrt (\<lambda>a b. length (labels (de_name b)) < length (labels (de_name a))) (?rs es)" using assms(2) by (rule sorted_wrt_filter)
  have min: "?rs es \<noteq> [] \<Longrightarrow> arg_min_list (\<lambda>e. length (labels (de_name e))) (?rs es) = last (?rs es)" using arg_min_last [OF sw] .
  have n: "find (\<lambda>e. de_psd e = PsdN) (?rs bs) = None" using plain_find [OF plain, of PsdN "\<lambda>_. True"] by simp
  have y: "find (\<lambda>e. de_psd e = PsdY \<and> de_name e \<noteq> start) (?rs bs) = None" using plain_find [OF plain] by simp
  show ?thesis
  proof (cases "de_kind e = KindRecord")
    case True
    then show ?thesis using min
      by (cases "de_psd e") (auto simp: dm_resolve_def rfc_org_def Let_def snoc org_loop_append org_loop_plain [OF plain] find_append n y below_join)
  next
    case False
    then show ?thesis using min by (auto simp: dm_resolve_def rfc_org_def Let_def snoc org_loop_append org_loop_plain [OF plain] n y)
  qed
qed (simp add: dm_resolve_def rfc_org_def)

lemma prefix_sorted: "prefix xs ys \<Longrightarrow> sorted_wrt R ys \<Longrightarrow> sorted_wrt R xs"
  by (auto simp: prefix_def sorted_wrt_append)

lemma walk_sorted:
  assumes "walk_loop U pa lookup (targets start) = Some es"
  shows "sorted_wrt (\<lambda>a b. length (labels (de_name b)) < length (labels (de_name a))) es"
  using prefix_sorted [OF _ targets_decreasing [of start], of "map de_name es"] walk_names [OF assms] by (simp add: sorted_wrt_map labelCount_labels)

text \<open>
  (C38) The walk selects what RFC 9989 prescribes. It asks for at most eight names, the domain and its ancestors from the longest to the shortest;
  it ends early only at a record that states whether it is a public suffix; and the Organizational Domain is the one section
  4.10.2 defines over the records found.
\<close>

theorem treeWalk_rfc:
  assumes "treeWalk U pa lookup start = Some w"
  shows "\<exists>es. walk_loop U pa lookup (targets start) = Some es \<and> prefix (map de_name es) (targets start) \<and> length es \<le> 8 \<and> wr_queries w = length es
    \<and> (map de_name es = targets start \<or> (es \<noteq> [] \<and> stops (last es))) \<and> wr_org w = rfc_org start es
    \<and> (\<forall>e\<in>set es. \<exists>k < length (labels start). labels (de_name e) = drop k (labels start))"
proof -
  obtain es where es: "walk_loop U pa lookup (targets start) = Some es" "w = dm_resolve start es" using assms by (auto simp: treeWalk_def)
  have p: "prefix (map de_name es) (targets start)" using walk_names [OF es(1)] by blast
  then have "length es \<le> 8" using targets_length [of start] prefix_length_le [OF p] by simp
  moreover have "\<exists>k < length (labels start). labels (de_name e) = drop k (labels start)" if "e \<in> set es" for e
    using target_labels [of "de_name e" start] set_mono_prefix [OF p] that by auto
  moreover have "wr_queries w = length es" unfolding es(2) by (simp add: dm_resolve_def Let_def)
  ultimately show ?thesis using es resolve_org [OF _ walk_sorted [OF es(1)]] walk_names [OF es(1)] p by blast
qed

section \<open>Aligned names\<close>

lemma walk_org_labels:
  assumes "treeWalk U pa lookup d = Some w"
  shows "\<exists>k < length (labels d). labels (wr_org w) = drop k (labels d)"
proof -
  obtain es where es: "walk_loop U pa lookup (targets d) = Some es" "w = dm_resolve d es" using assms by (auto simp: treeWalk_def)
  let ?rs = "filter (\<lambda>e. de_kind e = KindRecord) es"
  have p: "prefix (map de_name es) (targets d)" using walk_names [OF es(1)] by blast
  have nm: "\<exists>k < length (labels d). labels (de_name e) = drop k (labels d)" if "e \<in> set ?rs" for e
    using target_labels [of "de_name e" d] set_mono_prefix [OF p] that by auto
  have "wr_org w = rfc_org d es" unfolding es(2) using resolve_org [OF _ walk_sorted [OF es(1)]] walk_names [OF es(1)] by blast
  moreover have "wr_org w = d \<or> (\<exists>e\<in>set ?rs. wr_org w = de_name e) \<or> (\<exists>k < length (labels d). wr_org w = join_with ''.'' (drop k (labels d)))"
  proof -
    have f: "e \<in> set ?rs" if "find P ?rs = Some e" for P e using that by (auto simp: find_Some_iff simp del: set_filter)
    have b: "length (labels d) - Suc k < length (labels d)" for k by (cases "labels d") auto
    show ?thesis unfolding calculation rfc_org_def Let_def using arg_min_list_in [of ?rs] by (auto split: option.splits simp del: set_filter dest!: f intro: b)
  qed
  moreover have "\<exists>k < length (labels d). labels d = drop k (labels d)" by (intro exI [of _ 0]) auto
  ultimately show ?thesis using nm labels_join_drop by metis
qed

text \<open>
  (C39) Alignment never crosses a boundary. Names that are aligned are valid names; in strict mode they are equal, and in relaxed mode equal or
  with one Organizational Domain whose labels end both names. Neither a common string suffix nor a failed lookup aligns names.
\<close>

theorem aligned_within_org:
  assumes "Aligned U a b mode (Some (orgOf U pa lookup)) = (True, known)"
  shows "known \<and> (\<exists>f i. canonical U a = Some f \<and> canonical U b = Some i \<and> (f = i \<or> (mode = Relaxed \<and>
    (\<exists>org. orgOf U pa lookup f = Some org \<and> orgOf U pa lookup i = Some org \<and> suffix (labels org) (labels f) \<and> suffix (labels org) (labels i)))))"
proof -
  have ends: "suffix (labels org) (labels d)" if "orgOf U pa lookup d = Some org" for d org
    using that walk_org_labels [of U pa lookup d] by (auto simp: orgOf_def) (metis suffix_drop)
  obtain f i where c: "canonical U a = Some f" "canonical U b = Some i" using assms by (auto simp: Aligned_def split: option.splits)
  show ?thesis
  proof (cases "f = i")
    case False
    then obtain org where "mode = Relaxed" "orgOf U pa lookup f = Some org" "orgOf U pa lookup i = Some org" "known"
      using assms c by (cases mode) (auto simp: Aligned_def split: option.splits if_splits)
    then show ?thesis using c ends by blast
  qed (use assms c in \<open>auto simp: Aligned_def\<close>)
qed

section \<open>Readiness\<close>

lemma verify_cases:
  assumes "dm_Verify U pa E (Some d) = (Inr res, obs)"
  obtains i frm where "od_Verified d" "dm_inputs E (od_Name d) True = Inr i" "canonical U (od_Name d) = Some frm" "obs = [(dn_Status (dm_DNS res), dm_Readiness res)]"
    "res = dm_assess U i (\<lambda>f x m. Aligned U f x m (Some (orgOf U pa (en_lookup E))))
       (case treeWalk U pa (en_lookup E) frm of None \<Rightarrow> no_finding DmTempError (Some DmDNS) | Some w \<Rightarrow> findingFrom w)"
  using assms by (auto simp: dm_Verify_def Let_def split: if_splits sum.splits option.splits)

lemma inputs_facts:
  assumes "dm_inputs E name check = Inr i"
  shows "di_from i = name" "di_checked i = check" "di_spfIdentity i = name"
    "di_dkimActive i \<and> \<not> di_dkimErr i \<longleftrightarrow> (\<exists>x. en_dkim E = Fact (x, True))" "en_dkim E = Fact (x, y) \<Longrightarrow> di_dkimDomain i = x"
    "\<not> di_spfErr i \<longleftrightarrow> en_spf E check = Fact (di_spfMode i, di_spfStatus i)"
    "en_spf E check = Fact (m, st) \<Longrightarrow> \<not> di_spfErr i \<and> di_spfMode i = m \<and> di_spfStatus i = st"
  using assms by (auto simp: dm_inputs_def Let_def split: if_splits fact.splits prod.splits)

lemma self_aligned: "canonical U a = Some f \<Longrightarrow> Aligned U a a mode org = (True, True)"
  by (simp add: Aligned_def)

lemma Aligned_fst: "fst (Aligned U a b mode org) \<Longrightarrow> snd (Aligned U a b mode org)"
  by (auto simp: Aligned_def split: option.splits if_splits)

text \<open>The record that governs a domain after a walk: one that is valid, with no discarded set at the domain itself.\<close>

definition governed :: "walkResult \<Rightarrow> dm_record \<Rightarrow> bool" where
  "governed w r \<longleftrightarrow> wr_start w \<notin> set (wr_conflicts w) \<and> (\<exists>p. wr_policy w = Some p \<and> pr_invalid p = None \<and> pr_rec p = Some r)"

lemma classify_rec: "de_kind (dm_classify U pa name rs) = KindRecord \<Longrightarrow> de_invalid (dm_classify U pa name rs) = None \<longleftrightarrow> de_rec (dm_classify U pa name rs) \<noteq> None"
  by (auto simp: dm_classify_def dm_entry_at_def split: list.splits sum.splits if_splits)

lemma walk_rec: "walk_loop U pa lookup ns = Some es \<Longrightarrow> e \<in> set es \<Longrightarrow> de_kind e = KindRecord \<Longrightarrow> de_invalid e = None \<longleftrightarrow> de_rec e \<noteq> None"
proof (induction ns arbitrary: es)
  case (Cons name ns)
  then show ?case using classify_rec [of U pa name] by (cases "lookup (dmarcLabel @ name)") (auto simp: Let_def split: if_splits)
qed simp

lemma pick_in: "pickPolicy start org es = Some p \<Longrightarrow> \<exists>e\<in>set es. de_kind e = KindRecord \<and> pr_invalid p = de_invalid e \<and> pr_rec p = de_rec e \<and> pr_name p = de_name e"
  by (auto simp: pickPolicy_def find_record_def dm_mk_def find_Some_iff split: option.splits if_splits)

lemma finding_monitoring:
  assumes "treeWalk U pa lookup start = Some w"
  shows "fd_status (findingFrom w) = DmMonitoring \<longleftrightarrow> (\<exists>r. governed w r)" and "governed w r \<Longrightarrow> fd_rec (findingFrom w) = Some r"
    and "fd_status (findingFrom w) \<in> {DmMonitoring, DmInvalid, DmConflict, DmNotConfigured}"
proof -
  obtain es where es: "walk_loop U pa lookup (targets start) = Some es" "w = dm_resolve start es" using assms by (auto simp: treeWalk_def)
  have "pr_invalid p = None \<longleftrightarrow> pr_rec p \<noteq> None" if "wr_policy w = Some p" for p
    using that pick_in walk_rec [OF es(1)] unfolding es(2) by (fastforce simp: dm_resolve_def Let_def)
  then show "fd_status (findingFrom w) = DmMonitoring \<longleftrightarrow> (\<exists>r. governed w r)" "governed w r \<Longrightarrow> fd_rec (findingFrom w) = Some r"
    by (auto simp: findingFrom_def governed_def no_finding_def Let_def list_ex_iff split: option.splits)
  show "fd_status (findingFrom w) \<in> {DmMonitoring, DmInvalid, DmConflict, DmNotConfigured}"
    by (auto simp: findingFrom_def no_finding_def Let_def split: option.splits)
qed

lemma dns_status:
  "dn_Status (dns_result f) \<in> {DmMonitoring, DmEnforcing} \<longleftrightarrow> fd_status f = DmMonitoring \<or> fd_status f = DmEnforcing"
  by (auto simp: dns_result_def Let_def split: dm_status.splits option.splits)

lemma readiness_ready:
  "readiness st dk sp = ReadinessReady \<longleftrightarrow> st \<in> {DmMonitoring, DmEnforcing} \<and> (pt_Status dk = PathReady \<or> pt_Status sp = PathReady)"
  by (cases st) (auto simp: readiness_def)

lemma status_if: "pt_Status (if c then x else y) = PathReady \<longleftrightarrow> (if c then pt_Status x = PathReady else pt_Status y = PathReady)"
  by simp

lemma dkim_ready: "pt_Status (dkim_path i align m) = PathReady \<longleftrightarrow>
    \<not> di_dkimErr i \<and> di_dkimActive i \<and> align (di_from i) (if di_dkimDomain i \<noteq> [] then di_dkimDomain i else di_from i) m = (True, True)"
proof -
  obtain a k where al: "align (di_from i) (if di_dkimActive i \<and> di_dkimDomain i \<noteq> [] then di_dkimDomain i else di_from i) m = (a, k)" by fastforce
  show ?thesis unfolding dkim_path_def Let_def al prod.case status_if dm_path.select_convs using al
    by (cases "di_dkimErr i"; cases "di_dkimActive i"; cases a; cases k) simp_all
qed

lemma spf_ready: "pt_Status (spf_path i align m) = PathReady \<longleftrightarrow>
    \<not> di_spfErr i \<and> di_spfMode i \<noteq> ''relay'' \<and> di_checked i \<and> di_spfStatus i = ''verified'' \<and> align (di_from i) (if di_spfIdentity i = [] then di_from i else di_spfIdentity i) m = (True, True)"
proof -
  obtain a k where al: "align (di_from i) (if di_spfIdentity i = [] then di_from i else di_spfIdentity i) m = (a, k)" by fastforce
  show ?thesis unfolding spf_path_def Let_def al prod.case status_if dm_path.select_convs dm_path.update_convs
    by (cases a; cases k) (simp_all only: path_status.distinct simp_thms if_False if_True prod.inject if_bool_eq_conj, blast)
qed

text \<open>
  A verification reports ready exactly when the walk found a valid record that governs the domain and there is a path that can pass: an active
  DKIM key whose domain is aligned in the mode of that record, or a verified SPF record without a relay in between.
\<close>

theorem ready_iff:
  assumes "dm_Verify U pa E (Some d) = (Inr res, obs)"
  shows "dm_Readiness res = ReadinessReady \<longleftrightarrow>
    (\<exists>frm w r. canonical U (od_Name d) = Some frm \<and> treeWalk U pa (en_lookup E) frm = Some w \<and> governed w r \<and>
       ((\<exists>s. en_dkim E = Fact (s, True) \<and> fst (Aligned U (od_Name d) (if s \<noteq> [] then s else od_Name d) (dr_Adkim r) (Some (orgOf U pa (en_lookup E))))) \<or>
        (\<exists>m. en_spf E True = Fact (m, ''verified'') \<and> m \<noteq> ''relay'')))"
proof -
  obtain i frm where v: "dm_inputs E (od_Name d) True = Inr i" "canonical U (od_Name d) = Some frm"
    and res: "res = dm_assess U i (\<lambda>f x m. Aligned U f x m (Some (orgOf U pa (en_lookup E))))
       (case treeWalk U pa (en_lookup E) frm of None \<Rightarrow> no_finding DmTempError (Some DmDNS) | Some w \<Rightarrow> findingFrom w)"
    using verify_cases [OF assms] by metis
  note i = inputs_facts [OF v(1)]
  have al: "Aligned U a b m org = (True, True) \<longleftrightarrow> fst (Aligned U a b m org)" for a b m org using Aligned_fst [of U a b m org] by (cases "Aligned U a b m org") auto
  show ?thesis
  proof (cases "treeWalk U pa (en_lookup E) frm")
    case None
    then show ?thesis using v(2) unfolding res by (simp add: dm_assess_def Let_def readiness_ready dns_result_def no_finding_def)
  next
    case (Some w)
    note m = finding_monitoring [OF Some]
    have st: "dn_Status (dns_result (findingFrom w)) \<in> {DmMonitoring, DmEnforcing} \<longleftrightarrow> (\<exists>r. governed w r)" using m(1,3) dns_status by auto
    have md: "dm_modes (findingFrom w) = (dr_Adkim r, dr_Aspf r)" if "governed w r" for r using that m(1,2) by (auto simp: dm_modes_def)
    have dk: "pt_Status (dkim_path i (\<lambda>f x m. Aligned U f x m (Some (orgOf U pa (en_lookup E)))) k) = PathReady \<longleftrightarrow>
        (\<exists>s. en_dkim E = Fact (s, True) \<and> fst (Aligned U (od_Name d) (if s \<noteq> [] then s else od_Name d) k (Some (orgOf U pa (en_lookup E)))))" for k
      unfolding dkim_ready al using i(1,4,5) by auto
    have sp: "pt_Status (spf_path i (\<lambda>f x m. Aligned U f x m (Some (orgOf U pa (en_lookup E)))) k) = PathReady \<longleftrightarrow> (\<exists>m. en_spf E True = Fact (m, ''verified'') \<and> m \<noteq> ''relay'')" for k
      unfolding spf_ready using i(1,2,3,6,7) self_aligned [OF v(2)] by (cases "di_spfErr i") auto
    have "dm_Readiness res = ReadinessReady \<longleftrightarrow> (\<exists>r. governed w r) \<and>
        (pt_Status (dkim_path i (\<lambda>f x m. Aligned U f x m (Some (orgOf U pa (en_lookup E)))) (fst (dm_modes (findingFrom w)))) = PathReady \<or>
         pt_Status (spf_path i (\<lambda>f x m. Aligned U f x m (Some (orgOf U pa (en_lookup E)))) (snd (dm_modes (findingFrom w)))) = PathReady)"
      unfolding res Some by (simp add: dm_assess_def Let_def readiness_ready st [simplified])
    then have rd: "dm_Readiness res = ReadinessReady \<longleftrightarrow> (\<exists>r. governed w r) \<and>
        ((\<exists>s. en_dkim E = Fact (s, True) \<and> fst (Aligned U (od_Name d) (if s \<noteq> [] then s else od_Name d) (fst (dm_modes (findingFrom w))) (Some (orgOf U pa (en_lookup E))))) \<or>
         (\<exists>m. en_spf E True = Fact (m, ''verified'') \<and> m \<noteq> ''relay''))" unfolding dk sp .
    show ?thesis
    proof (cases "\<exists>r. governed w r")
      case True
      then obtain r where g: "governed w r" by blast
      have u: "governed w r' \<longleftrightarrow> r' = r" for r' using g m(2) [OF g] m(2) [of r'] by auto
      show ?thesis unfolding rd u md [OF g] using Some v(2) u by simp
    qed (use rd Some v(2) in simp)
  qed
qed

section \<open>Records the parser accepts\<close>

lemma appendOnce_distinct: "distinct ws \<Longrightarrow> distinct (appendOnce ws w)"
  by (simp add: appendOnce_def)

definition rec_ok :: "dm_record \<Rightarrow> bool" where
  "rec_ok r \<longleftrightarrow> distinct (dr_Warnings r) \<and> length (dr_RUAHosts r) \<le> dm_MaxReportURIs \<and> dr_RUFCount r \<le> dm_MaxReportURIs"

lemma warn_ok: "rec_ok r \<Longrightarrow> rec_ok (warn w r)"
  by (simp add: rec_ok_def warn_def appendOnce_distinct)

lemma warn_fields [simp]: "dr_Policy (warn w r) = dr_Policy r" "dr_RUAHosts (warn w r) = dr_RUAHosts r" "dr_RUFCount (warn w r) = dr_RUFCount r" "dr_Warnings (warn w r) = appendOnce (dr_Warnings r) w"
  by (simp_all add: warn_def)

lemma uri_loop_ok: "uri_loop U pa es r = (hs, r') \<Longrightarrow> rec_ok r \<Longrightarrow> length hs \<le> length es \<and> rec_ok r' \<and> dr_Policy r' = dr_Policy r"
proof (induction es arbitrary: r hs)
  case (Cons e es)
  show ?case
  proof (cases "report_host U pa (trimWSP e)")
    case None
    then show ?thesis using Cons.IH [of "warn WarnIgnoredReportURI r" hs] Cons.prems warn_ok by simp
  next
    case (Some h)
    then obtain hs' where "hs = h # hs'" "uri_loop U pa es r = (hs', r')" using Cons.prems by (auto split: prod.splits)
    then show ?thesis using Cons.IH [of r hs'] Cons.prems by simp
  qed
qed simp

lemma reportURIs_ok: "reportURIs U pa x r = Inr (hs, r') \<Longrightarrow> rec_ok r \<Longrightarrow> length hs \<le> dm_MaxReportURIs \<and> rec_ok r' \<and> dr_Policy r' = dr_Policy r"
proof -
  assume a: "reportURIs U pa x r = Inr (hs, r')" "rec_ok r"
  then have "uri_loop U pa (split_byte (CHR '','') x) r = (hs, r')" "length (split_byte (CHR '','') x) \<le> dm_MaxReportURIs"
    by (simp_all add: reportURIs_def Let_def split: if_splits)
  then show ?thesis using uri_loop_ok a(2) by fastforce
qed

text \<open>What holds of the value of a computation that does not fail.\<close>

definition good :: "('b \<Rightarrow> bool) \<Rightarrow> 'a + 'b \<Rightarrow> bool" where
  "good P x \<longleftrightarrow> (case x of Inl _ \<Rightarrow> True | Inr y \<Rightarrow> P y)"

lemma good_if: "(c \<Longrightarrow> good P a) \<Longrightarrow> (\<not> c \<Longrightarrow> good P b) \<Longrightarrow> good P (if c then a else b)"
  by simp

lemma good_Inl: "good P (Inl e)"
  by (simp add: good_def)

lemma good_Inr: "P y \<Longrightarrow> good P (Inr y)"
  by (simp add: good_def)

lemma good_option: "good P a \<Longrightarrow> (\<And>y. good P (f y)) \<Longrightarrow> good P (case x of None \<Rightarrow> a | Some y \<Rightarrow> f y)"
  by (cases x) auto

lemma good_sum: "good Q x \<Longrightarrow> (\<And>y. Q y \<Longrightarrow> good P (f y)) \<Longrightarrow> good P (case x of Inl e \<Rightarrow> Inl e | Inr y \<Rightarrow> f y)"
  by (cases x) (auto simp: good_def)

lemma good_prod: "(\<And>a b. x = (a, b) \<Longrightarrow> good P (f a b)) \<Longrightarrow> good P (case x of (a, b) \<Rightarrow> f a b)"
  by (cases x) auto

lemma rec_ok_fields [simp]:
  "rec_ok (r\<lparr>dr_Policy := x\<rparr>) = rec_ok r" "rec_ok (r\<lparr>dr_SubPolicy := x\<rparr>) = rec_ok r" "rec_ok (r\<lparr>dr_NonExist := x\<rparr>) = rec_ok r"
  "rec_ok (r\<lparr>dr_Adkim := m\<rparr>) = rec_ok r" "rec_ok (r\<lparr>dr_Aspf := m\<rparr>) = rec_ok r" "rec_ok (r\<lparr>dr_Testing := t\<rparr>) = rec_ok r" "rec_ok (r\<lparr>dr_PSD := z\<rparr>) = rec_ok r"
  by (simp_all add: rec_ok_def)

lemmas good_intros = good_if good_Inl good_option good_prod

lemma reportURIs_good: "rec_ok r \<Longrightarrow> good (\<lambda>(hs, r'). length hs \<le> dm_MaxReportURIs \<and> rec_ok r' \<and> dr_Policy r' = dr_Policy r) (reportURIs U pa x r)"
  using reportURIs_ok [of U pa x r] by (cases "reportURIs U pa x r") (auto simp: good_def)

lemma tag_good: "rec_ok r \<Longrightarrow> good (\<lambda>(r', _). rec_ok r') (dm_tag U pa name val r rua)"
  unfolding dm_tag_def Let_def
  by (intro good_intros good_sum [OF reportURIs_good] good_Inr) (simp_all add: warn_ok, simp add: rec_ok_def split: prod.splits)

lemma part_good: "rec_ok (ps_rec s) \<Longrightarrow> good (\<lambda>s'. rec_ok (ps_rec s')) (dm_part U pa p s)"
  unfolding dm_part_def Let_def
  by (intro good_intros good_sum [OF tag_good] good_Inr) (simp_all split: prod.splits)

lemma parts_ok: "dm_parts U pa ps s = Inr s' \<Longrightarrow> rec_ok (ps_rec s) \<Longrightarrow> rec_ok (ps_rec s')"
proof (induction U pa ps s rule: dm_parts.induct)
  case (2 U pa p ps s)
  then show ?case using part_good [of s U pa p] by (auto simp: good_def split: sum.splits)
qed simp

lemma finish_good: "rec_ok (ps_rec s) \<Longrightarrow> good (\<lambda>r. rec_ok r \<and> dr_Policy r \<noteq> None) (dm_finish U pa s)"
  unfolding dm_finish_def Let_def
  by (intro good_intros good_sum [of rec_ok] good_sum [OF reportURIs_good] good_Inr) (auto simp: warn_ok rec_ok_def appendOnce_distinct split: prod.splits)

text \<open>
  Every record the parser accepts states a policy, counts at most 16 destinations of each kind, repeats no warning, and came from a text
  of at most 2048 printable bytes.
\<close>

theorem parse_record_ok:
  assumes "dm_Parse U pa text = Inr r"
  shows "dr_Policy r \<noteq> None \<and> distinct (dr_Warnings r) \<and> length (dr_RUAHosts r) \<le> 16 \<and> dr_RUFCount r \<le> 16 \<and> length text \<le> 2048 \<and>
    list_all (\<lambda>c. 0x20 \<le> byte c \<and> byte c < 0x7f \<or> c = CHR 0x09) text"
proof -
  obtain s where s: "dm_parts U pa (split_byte (CHR '';'') text) dm_start = Inr s" "dm_finish U pa s = Inr r"
    and t: "length text \<le> 2048" "\<not> list_ex (\<lambda>c. byte c < 0x20 \<and> c \<noteq> CHR 0x09 \<or> byte c \<ge> 0x7f) text"
    using assms by (auto simp: dm_Parse_def dm_MaxRecordBytes_def split: if_splits sum.splits)
  have "rec_ok (ps_rec s)" using parts_ok [OF s(1)] by (simp add: dm_start_def rec_ok_def)
  then have "rec_ok r" "dr_Policy r \<noteq> None" using finish_good [of s U pa] s(2) by (simp_all add: good_def)
  moreover have "list_all (\<lambda>c. 0x20 \<le> byte c \<and> byte c < 0x7f \<or> c = CHR 0x09) text" using t(2) by (auto simp: list_ex_iff list_all_iff not_less not_le)
  ultimately show ?thesis using t(1) by (simp add: rec_ok_def dm_MaxReportURIs_def)
qed

section \<open>The advice\<close>

lemma advice_IsDMARC: "IsDMARC U recommendedValue"
  by (simp add: IsDMARC_def recommendedValue_def HasPrefix_def trimWSP_def isWSP_def EqualFold_def ascii_def lower_byte_def is_upper_def)

lemma advice_parse: "dm_Parse U pa recommendedValue = Inr ((ps_rec dm_start)\<lparr>dr_Policy := Some PolicyNone\<rparr>)"
proof -
  have sp: "split_byte (CHR '';'') recommendedValue = [''v=DMARC1'', '' p=none'']" by (simp add: recommendedValue_def)
  have a: "dm_part U pa ''v=DMARC1'' dm_start = Inr (dm_start\<lparr>ps_n := 1, ps_seen := [''v'']\<rparr>)"
    by (simp add: dm_part_def dm_tag_def HasPrefix_def trimWSP_def isWSP_def EqualFold_def ToLower_def ascii_def lower_byte_def is_upper_def dm_MaxTags_def dm_MaxTagValue_def knownTags_def dm_start_def Let_def)
  have b: "dm_part U pa '' p=none'' (dm_start\<lparr>ps_n := 1, ps_seen := [''v'']\<rparr>) = Inr (dm_start\<lparr>ps_n := 2, ps_seen := [''p'', ''v''], ps_rec := (ps_rec dm_start)\<lparr>dr_Policy := Some PolicyNone\<rparr>\<rparr>)"
    by (simp add: dm_part_def dm_tag_def toPolicy_def HasPrefix_def trimWSP_def isWSP_def EqualFold_def ToLower_def ascii_def lower_byte_def is_upper_def dm_MaxTags_def dm_MaxTagValue_def knownTags_def dm_start_def Let_def)
  have c: "length recommendedValue \<le> dm_MaxRecordBytes" "\<not> list_ex (\<lambda>c. byte c < 0x20 \<and> c \<noteq> CHR 0x09 \<or> byte c \<ge> 0x7f) recommendedValue"
    by (simp_all add: recommendedValue_def dm_MaxRecordBytes_def)
  show ?thesis using c by (simp add: dm_Parse_def sp a b [unfolded One_nat_def]) (simp add: dm_finish_def dm_start_def)
qed

lemma advice_entry: "dm_classify U pa name [recommendedValue] = (dm_entry_at name KindRecord)\<lparr>de_raw := recommendedValue, de_rec := Some ((ps_rec dm_start)\<lparr>dr_Policy := Some PolicyNone\<rparr>)\<rparr>"
  by (simp add: dm_classify_def advice_IsDMARC advice_parse dm_MaxTXTRecords_def dm_start_def dm_entry_at_def)

text \<open>
  The advice works. Once a domain publishes the record that the description told it to create, a verification whose lookups do not fail reports the
  monitoring policy of that record and nothing more to do for DNS, whatever the ancestors of the domain publish.
\<close>

theorem dmarc_advice_works:
  assumes "dm_Describe U E0 (Some d) = Inr r0" and "dm_Expected r0 = DmCreate name value"
    and "en_lookup E name = TxtRecords [value]" and "\<And>n. en_lookup E n \<noteq> TxtFailed"
    and "canonical U (od_Name d) = Some (od_Name d)" and "dm_Verify U pa E (Some d) = (Inr res, obs)"
  shows "dn_Status (dm_DNS res) = DmMonitoring \<and> dn_Effective (dm_DNS res) = Some PolicyNone \<and> dn_Published (dm_DNS res) = value \<and>
    dm_Expected res = DmNone \<and> dm_Readiness res \<noteq> ReadinessDNSAction"
proof -
  let ?n = "od_Name d" and ?r = "(ps_rec dm_start)\<lparr>dr_Policy := Some PolicyNone\<rparr>"
  obtain i0 where "dm_inputs E0 ?n False = Inr i0" "r0 = (dm_assess U i0 (\<lambda>f x m. Aligned U f x m None) (no_finding DmUnchecked None))\<lparr>dm_Readiness := ReadinessUnchecked\<rparr>"
    using assms(1) by (auto simp: dm_Describe_def split: sum.splits)
  then have nv: "name = dmarcLabel @ ?n" "value = recommendedValue"
    using assms(2) inputs_facts(1) [of E0 ?n False i0] by (auto simp: dm_assess_def Let_def dns_result_def no_finding_def dm_expected_def)
  obtain i where res: "res = dm_assess U i (\<lambda>f x m. Aligned U f x m (Some (orgOf U pa (en_lookup E))))
      (case treeWalk U pa (en_lookup E) ?n of None \<Rightarrow> no_finding DmTempError (Some DmDNS) | Some w \<Rightarrow> findingFrom w)"
    using verify_cases [OF assms(6)] assms(5) by (metis option.inject)
  obtain es where es: "walk_loop U pa (en_lookup E) (targets ?n) = Some es" using walk_total [of "en_lookup E"] assms(4) by blast
  let ?e = "dm_classify U pa ?n [recommendedValue]"
  obtain es' where e: "es = ?e # es'"
    using es assms(3) unfolding nv targets_alt by (auto simp: Let_def split: if_splits)
  have nm: "\<forall>x\<in>set es'. de_name x \<noteq> ?n" using walk_sorted [OF es] e by auto
  have k: "de_kind ?e = KindRecord" "de_invalid ?e = None" "de_rec ?e = Some ?r" "de_raw ?e = recommendedValue" by (simp_all add: advice_entry dm_entry_at_def)
  have f: "findingFrom (dm_resolve ?n es) = (no_finding DmMonitoring None)\<lparr>fd_org := wr_org (dm_resolve ?n es), fd_conflicts := wr_conflicts (dm_resolve ?n es),
      fd_name := ?n, fd_source := Some SourceDomain, fd_raw := recommendedValue, fd_rec := Some ?r\<rparr>"
    using nm k by (auto simp: findingFrom_def dm_resolve_def Let_def pickPolicy_def find_record_def dm_mk_def no_finding_def list_ex_iff e)
  have w: "treeWalk U pa (en_lookup E) ?n = Some (dm_resolve ?n es)" using es by (simp add: treeWalk_def)
  show ?thesis unfolding res w nv by (simp add: f dm_assess_def Let_def dns_result_def no_finding_def dm_expected_def readiness_def dm_start_def)
qed

section \<open>Witnesses\<close>

definition demo_lookup :: "string \<Rightarrow> txt_answer" where
  "demo_lookup n = TxtRecords [recommendedValue]"

lemma demo_targets: "targets [c, CHR ''.'', CHR ''b''] = [[c, CHR ''.'', CHR ''b''], ''b'']" if "c \<noteq> CHR ''.''"
  using that by (simp add: targets_def Let_def)

lemma demo_walk:
  assumes "c \<noteq> CHR ''.''"
  shows "\<exists>w. treeWalk U Some demo_lookup [c, CHR ''.'', CHR ''b''] = Some w \<and> wr_org w = ''b''"
  using assms by (simp add: treeWalk_def demo_targets demo_lookup_def advice_entry dm_entry_at_def dm_start_def dm_resolve_def Let_def)

theorem treeWalk_rfc_witness:
  "\<exists>w es. treeWalk plain_unicode Some demo_lookup ''a.b'' = Some w \<and> wr_org w = ''b'' \<and> wr_queries w = length es \<and> length es \<le> 8 \<and> wr_org w = rfc_org ''a.b'' es"
proof -
  obtain w where w: "treeWalk plain_unicode Some demo_lookup ''a.b'' = Some w" "wr_org w = ''b''" using demo_walk [of "CHR ''a''"] by auto
  show ?thesis using treeWalk_rfc [OF w(1)] w by blast
qed

lemma demo_canonical: "canonical plain_unicode ''x.b'' = Some ''x.b''" "canonical plain_unicode ''y.b'' = Some ''y.b''"
  by code_simp+

theorem aligned_within_org_witness:
  "\<exists>org. orgOf plain_unicode Some demo_lookup ''x.b'' = Some org \<and> orgOf plain_unicode Some demo_lookup ''y.b'' = Some org \<and> suffix (labels org) (labels ''x.b'')"
proof -
  have "orgOf plain_unicode Some demo_lookup ''x.b'' = Some ''b''" "orgOf plain_unicode Some demo_lookup ''y.b'' = Some ''b''"
    using demo_walk [of "CHR ''x''" plain_unicode] demo_walk [of "CHR ''y''" plain_unicode] by (auto simp: orgOf_def)
  then have a: "Aligned plain_unicode ''x.b'' ''y.b'' Relaxed (Some (orgOf plain_unicode Some demo_lookup)) = (True, True)"
    by (simp add: Aligned_def demo_canonical)
  show ?thesis using aligned_within_org [OF a] by (auto simp: demo_canonical)
qed

end
