(* ===== verification/Spec2Isabelle.thy ===== *)
theory Spec2Isabelle
  imports Memory_Queue Redis_Queue DNS SMTP_Server Worker Rate_Limit SPF Durable_Delivery Webhook_Store Human_Auth API_Keys DMARC
begin

text \<open>
  \<^bold>\<open>A verification development for MailX\<close>

  MailX is a mail transfer service in Go. A message enters through the SMTP server (\<^verbatim>\<open>internal/smtp\<close>) or
  the HTTP API, is stored, and becomes a job of a queue (\<^verbatim>\<open>internal/queue\<close>, in memory or in Redis). A pool of
  workers (\<^verbatim>\<open>internal/worker\<close>) claims due jobs under a lease, checks suppressions (\<^verbatim>\<open>internal/suppression\<close>) and
  permits (\<^verbatim>\<open>internal/ratelimit\<close>), and lets the retry coordinator (\<^verbatim>\<open>internal/retry\<close>) make one delivery
  operation: the engine (\<^verbatim>\<open>internal/delivery\<close>) finds hosts by DNS (\<^verbatim>\<open>internal/dns\<close>) or uses a relay, and
  the transfer service (\<^verbatim>\<open>internal/transfer\<close>) runs the SMTP client against one host after the other. The outcome is
  written to the durable store before the job is acknowledged, and a terminal failure produces a
  notification (\<^verbatim>\<open>internal/bounce\<close>). Beside this path, \<^verbatim>\<open>internal/spf\<close> tells a tenant which SPF record
  to publish.

  \<^bold>\<open>Theories\<close>

  \<^item> \<^verbatim>\<open>Prelude\<close>: Go strings as byte lists with the library functions the sources call, instants and 64-bit
    durations, reachability with the locale \<open>invariant_system\<close>. \<^verbatim>\<open>Calendar\<close>: civil dates, the RFC 1123 layout, runes and
    decimal numerals. \<^verbatim>\<open>Net_IP\<close>: addresses and prefixes as \<^verbatim>\<open>net/netip\<close> has them, with the round trip of the
    textual form. \<^verbatim>\<open>Base64\<close>: the standard encoding.
  \<^item> \<^verbatim>\<open>Queue_Contract\<close>: jobs (\<^verbatim>\<open>job.go\<close>), the errors and the interface of \<^verbatim>\<open>queue.go\<close> as the locale the two
    implementations interpret. \<^verbatim>\<open>Binary_Heap\<close> and \<^verbatim>\<open>Memory_Queue\<close>: \<^verbatim>\<open>memory.go\<close> on \<^verbatim>\<open>container/heap\<close>. \<^verbatim>\<open>Redis_Queue\<close>:
    the Lua scripts and calls of \<^verbatim>\<open>redis.go\<close>, \<^verbatim>\<open>redis_keys.go\<close>, \<^verbatim>\<open>redis_scripts.go\<close> over an explicit key space.
    Shown: invariants of all reachable states, which job a claim returns and when, that no job is lost, fencing
    of stale owners, recovery of expired leases, disjoint namespaces.
  \<^item> \<^verbatim>\<open>DNS\<close>: \<^verbatim>\<open>resolver.go\<close>, \<^verbatim>\<open>mx.go\<close>, \<^verbatim>\<open>errors.go\<close> over a parameter for the resolver library. Shown: what a
    successful MX lookup guarantees.
  \<^item> \<^verbatim>\<open>SMTP_Data\<close>: dot stuffing of the client and the server's data reader. Shown: the round trip and that no
    client bytes smuggle a line. \<^verbatim>\<open>SMTP_Server\<close>: the session of \<^verbatim>\<open>server.go\<close>, \<^verbatim>\<open>reply.go\<close>, \<^verbatim>\<open>config.go\<close>. Shown: the sink only
    gets complete transactions and acceptance follows it.
  \<^item> \<^verbatim>\<open>SMTP_Client\<close>: \<^verbatim>\<open>client.go\<close> and its siblings against an arbitrary peer. Shown: success means acceptance, no plaintext
    with credentials or required TLS, one command per write.
  \<^item> \<^verbatim>\<open>Delivery\<close>: \<^verbatim>\<open>transfer.go\<close> and the engine. Shown: result and error agree, no second contact after a
    transaction, routing, permanence of failures. \<^verbatim>\<open>Retry\<close>: backoff, jitter, limit and coordinator. Shown: bounds, the lifecycle,
    no duplicate acceptance.
  \<^item> \<^verbatim>\<open>Suppression\<close>, \<^verbatim>\<open>Bounce\<close>, \<^verbatim>\<open>Worker\<close>: keys of suppressed addresses, notifications and their status codes, and a
    worker's run on one claim as a trace of effects. Shown: canonical keys, the status round trip and that a
    notification carries no injected line, durability before settlement, the gates before SMTP, at most one
    settlement, balanced permits.
  \<^item> \<^verbatim>\<open>Durable_Store\<close>: the tables of accepted messages (\<^verbatim>\<open>database/messages.go\<close>, \<^verbatim>\<open>outcomes.go\<close>, \<^verbatim>\<open>outbox.go\<close>,
    \<^verbatim>\<open>suppressions.go\<close>), idempotency keys, the dispatcher and the choice of a pool member. Shown: the tables agree after
    every sequence of transactions, a key admits one message, batches are fair between tenants, nothing is lost
    between outbox and queue. \<^verbatim>\<open>Durable_Delivery\<close>: the outcome store the workers use, over these tables. Shown: a restart between
    two operations cannot be observed, what is persisted is loaded again.
  \<^item> \<^verbatim>\<open>Webhook\<close> and \<^verbatim>\<open>Webhook_Store\<close>: target policy, signature, client and payload of \<^verbatim>\<open>internal/webhook\<close>, and its tables.
    Shown: only public addresses are contacted, what a signature verifies, a delivery per event and subscription that
    is never lost and completed only by the holder of its lease.
  \<^item> \<^verbatim>\<open>Billing\<close>: plans, payments and automatic renewal (\<^verbatim>\<open>internal/billing\<close>, \<^verbatim>\<open>database/plans.go\<close>, \<^verbatim>\<open>database/renewal.go\<close>,
    \<^verbatim>\<open>api/billing_renewal.go\<close>). Shown: a period is charged once and after notice, a payment counts once, a pass is a run
    of the transactions. \<^verbatim>\<open>API_Core\<close> and \<^verbatim>\<open>Billing_API\<close>: the error form of the HTTP API and the billing routes. Shown: what
    a payment webhook can change.
  \<^item> \<^verbatim>\<open>Accounts\<close>: the tables of human accounts (\<^verbatim>\<open>database/humans.go\<close>, \<^verbatim>\<open>human_mfa.go\<close>, \<^verbatim>\<open>email_verification.go\<close>,
    \<^verbatim>\<open>org_invitations.go\<close>) and the locale of tables of single-use tokens. \<^verbatim>\<open>Auth_Tokens\<close>: \<^verbatim>\<open>humanauth/jwt.go\<close> and \<^verbatim>\<open>totp.go\<close>. \<^verbatim>\<open>Human_Auth\<close>: the
    service of \<^verbatim>\<open>internal/humanauth\<close>. Shown: refresh tokens and TOTP steps are used once under any interleaving, a reset
    ends every session, codes are those of RFC 4226, tokens are authentic, calls are runs of the transactions, a session needs
    every factor, guesses are bounded, OAuth takes over no account.
  \<^item> \<^verbatim>\<open>API_Keys\<close>: \<^verbatim>\<open>internal/auth\<close>, \<^verbatim>\<open>database/api_keys.go\<close>, the middleware and routes of \<^verbatim>\<open>api/authmiddleware.go\<close> and
    \<^verbatim>\<open>apikeys_handler.go\<close>, and \<^verbatim>\<open>tracking/token.go\<close>. Shown: the text of a key and its parts determine each other, authentication is
    exact, a dead key stays dead under any interleaving, routes touch only keys of their organization, tracking tokens
    are authentic.
  \<^item> \<^verbatim>\<open>Rate_Limit\<close>: both Redis scripts. Shown: the rate bound, exact retry hints, the bound on holders.
  \<^item> \<^verbatim>\<open>SPF\<close>: parser, assessment and advice. Shown: what verified means, and that the advised record is verified once
    published.
  \<^item> \<^verbatim>\<open>DMARC\<close>: \<^verbatim>\<open>internal/dmarc\<close>. Shown: the tree walk selects what RFC 9989 prescribes within eight queries, aligned names
    share their Organizational Domain label by label, when a domain is ready, that the advised record works, and what the
    parser accepts.

  \<^bold>\<open>How the code is modelled\<close>

  Structs are records, enumerations are datatypes, errors are values of a sum or option type, loops are
  recursive functions with a termination proof; there is no fuel except the batch limits of the code
  itself. A context is the boolean or error it reports where the code looks at it. The network is a peer
  given by its answers; the theorems hold for every peer. Concurrency is the interleaving of whole calls
  for the in-memory queue, whose calls hold one mutex, and of whole scripts for Redis, which runs a script without
  interruption. A worker's run is a function of a record of everything it is told by its collaborators and
  returns the list of its effects in order. Letter case outside ASCII, the DNS library, the message parser the
  server calls and the random source are parameters. Lua and Redis numbers are exact; the rounding that the scripts
  write out is kept.

  \<^bold>\<open>Not modelled\<close>

  The HTTP API but for billing and keys, the tables of the services not named above (contacts, broadcasts, templates, feedback), DKIM,
  BIMI, storage and process wiring: request decoding and text rendering over libraries, or I/O. Goroutine
  scheduling inside a call, sockets and time-outs appear only as the answers they lead to.
\<close>

section \<open>Client and server agree\<close>

lemma split_nul3_credentials:
  assumes "CHR 0x00 \<notin> set a" and "CHR 0x00 \<notin> set b"
  shows "split_nul3 (a @ CHR 0x00 # b @ CHR 0x00 # c) = Some (a, b, c)"
  using IndexByte_append(1) [OF assms(1)] IndexByte_append(1) [OF assms(2)] by (simp add: split_nul3_def)

lemma plain_payload_text: "list_all (\<lambda>c. 0x21 \<le> byte c \<and> byte c \<le> 0x7e) (plain_payload c)" "plain_payload c \<noteq> []"
proof -
  show "list_all (\<lambda>c. 0x21 \<le> byte c \<and> byte c \<le> 0x7e) (plain_payload c)"
    using b64_printable by (force simp: plain_payload_def list_all_iff)
  have "length (plain_payload c) > 0" by (simp add: plain_payload_def b64_length)
  then show "plain_payload c \<noteq> []" by simp
qed

lemma clean_command_read:
  assumes "clean_line l" and "length l + 2 \<le> limit"
  shows "readCommand limit (l @ crlf @ rest) = CommandLine l rest"
proof -
  have "LF \<notin> set (l @ [CR])" using assms(1) by (simp add: clean_line_def CR_def LF_def)
  from ReadSlice_line [OF this, of limit rest] have "ReadSlice limit (l @ crlf @ rest) = Slice (l @ crlf) rest"
    using assms(2) by (auto simp: crlf_def)
  then show ?thesis
    using assms by (simp add: readCommand_def hasValidCRLF_def crlf_def clean_line_def nth_append)
qed

lemma auth_line_split:
  "cmd_split (''AUTH PLAIN '' @ plain_payload c) = (''AUTH'', ''PLAIN '' @ plain_payload c, True, True)"
proof -
  have "isASCIICommandText (''AUTH PLAIN '' @ plain_payload c)"
    using plain_payload_text(1) [of c] by (auto simp: isASCIICommandText_def list_all_iff)
  then show ?thesis by (simp add: cmd_split_def Let_def upper_byte_def is_lower_def)
qed

lemma auth_line_clean: "clean_line (''AUTH PLAIN '' @ plain_payload c)"
  using b64_clean command_words_clean clean_line_append unfolding plain_payload_def by blast

lemma auth_reply_payload:
  assumes "cred_Validate c"
  shows "auth_reply U cfg (''PLAIN '' @ plain_payload c) s =
    (case sc_Authenticator cfg of
       None \<Rightarrow> (s, enhancedReply 535 statusInvalidCommand ''Authentication not available'')
     | Some check \<Rightarrow>
         (case check (cr_Username c) (cr_Password c) of
            None \<Rightarrow> (s, enhancedReply 535 statusInvalidCommand ''Authentication credentials invalid'')
          | Some tenant \<Rightarrow> (s\<lparr>se_Authenticated := True, se_TenantID := tenant\<rparr>,
              enhancedReply 235 statusOtherSuccess ''Authentication successful'')))"
proof -
  have nul: "CHR 0x00 \<notin> set (cr_Username c)"
    using assms by (auto simp: cred_Validate_def cred_field_ok_def ContainsAny_def list_ex_iff)
  have "split_nul3 (CHR 0x00 # cr_Username c @ CHR 0x00 # cr_Password c) = Some ([], cr_Username c, cr_Password c)"
    using split_nul3_credentials [of "[]", OF _ nul] by simp
  moreover have "EqualFold U ''PLAIN'' ''PLAIN''" by (simp add: EqualFold_def ascii_def)
  moreover have "cut_space (''PLAIN '' @ plain_payload c) = (''PLAIN'', plain_payload c)" by (simp add: cut_space_def)
  moreover have "b64_decode (plain_payload c) = Some (CHR 0x00 # cr_Username c @ CHR 0x00 # cr_Password c)"
    by (simp add: plain_payload_def b64_roundtrip)
  ultimately show ?thesis using plain_payload_text(2) [of c] by (simp add: auth_reply_def)
qed

text \<open>
  The AUTH PLAIN exchange of the two ends of MailX: the line a client writes for valid credentials, read by a
  server whose command limit it fits, is one AUTH command, and the authenticator is asked for exactly
  the client's user name and password; the session becomes authenticated exactly when it accepts them.
\<close>

theorem auth_plain_agreement:
  assumes "cred_Validate c" and "length (''AUTH PLAIN '' @ plain_payload c) + 2 \<le> limit"
  shows "readCommand limit ((''AUTH PLAIN '' @ plain_payload c) @ crlf @ rest) = CommandLine (''AUTH PLAIN '' @ plain_payload c) rest \<and>
    (\<exists>arg. cmd_split (''AUTH PLAIN '' @ plain_payload c) = (''AUTH'', arg, True, True) \<and>
       do_command U cfg ''AUTH'' arg True s =
         (case Option.bind (sc_Authenticator cfg) (\<lambda>check. check (cr_Username c) (cr_Password c)) of
            None \<Rightarrow> (s, Answer (enhancedReply 535 statusInvalidCommand
              (if sc_Authenticator cfg = None then ''Authentication not available'' else ''Authentication credentials invalid'')))
          | Some tenant \<Rightarrow> (s\<lparr>se_Authenticated := True, se_TenantID := tenant\<rparr>,
              Answer (enhancedReply 235 statusOtherSuccess ''Authentication successful''))))"
proof (intro conjI exI)
  show "readCommand limit ((''AUTH PLAIN '' @ plain_payload c) @ crlf @ rest) = CommandLine (''AUTH PLAIN '' @ plain_payload c) rest"
    by (rule clean_command_read [OF auth_line_clean assms(2)])
  show "cmd_split (''AUTH PLAIN '' @ plain_payload c) = (''AUTH'', ''PLAIN '' @ plain_payload c, True, True)"
    by (rule auth_line_split)
  have d: "do_command U cfg ''AUTH'' arg True s = map_prod id Answer (auth_reply U cfg arg s)" for arg
    by (simp add: do_command_def)
  show "do_command U cfg ''AUTH'' (''PLAIN '' @ plain_payload c) True s =
         (case Option.bind (sc_Authenticator cfg) (\<lambda>check. check (cr_Username c) (cr_Password c)) of
            None \<Rightarrow> (s, Answer (enhancedReply 535 statusInvalidCommand
              (if sc_Authenticator cfg = None then ''Authentication not available'' else ''Authentication credentials invalid'')))
          | Some tenant \<Rightarrow> (s\<lparr>se_Authenticated := True, se_TenantID := tenant\<rparr>,
              Answer (enhancedReply 235 statusOtherSuccess ''Authentication successful'')))"
    unfolding d auth_reply_payload [OF assms(1)] by (cases "sc_Authenticator cfg") (auto split: option.splits)
qed

definition auth_demo_config :: smtpConfig where
  "auth_demo_config = DefaultConfig\<lparr>sc_Authenticator := Some (\<lambda>u p. if u = ''ann'' \<and> p = ''secret'' then Some ''t1'' else None)\<rparr>"

theorem auth_plain_agreement_witness:
  "\<exists>arg. cmd_split (''AUTH PLAIN '' @ plain_payload \<lparr>cr_Username = ''ann'', cr_Password = ''secret''\<rparr>) = (''AUTH'', arg, True, True) \<and>
     se_TenantID (fst (do_command plain_unicode auth_demo_config ''AUTH'' arg True srv_demo_session)) = ''t1''"
proof -
  let ?c = "\<lparr>cr_Username = ''ann'', cr_Password = ''secret''\<rparr>"
  have "cred_Validate ?c" by code_simp
  moreover have "length (''AUTH PLAIN '' @ plain_payload ?c) + 2 \<le> 100" by code_simp
  ultimately show ?thesis
    using auth_plain_agreement [of ?c 100 "[]" plain_unicode auth_demo_config srv_demo_session]
    by (auto simp: auth_demo_config_def)
qed

lemma path_ok_sendable:
  assumes "path_ok p" and "p = ''<>'' \<longrightarrow> allow"
  shows "validateEnvelopePath p allow"
proof -
  obtain mbox where p: "p = CHR ''<'' # mbox @ ''>''" "isASCIICommandText mbox" using assms(1) unfolding path_ok_def by blast
  have "c \<noteq> CHR 0x0D \<and> c \<noteq> CHR 0x0A \<and> c \<noteq> CHR 0x00" if "c \<in> set p" for c
  proof -
    have "0x20 \<le> byte c" using that p by (auto simp: isASCIICommandText_def list_all_iff)
    then show ?thesis by auto
  qed
  then have "\<not> ContainsAny p [CHR 0x0D, CHR 0x0A, CHR 0x00]" by (auto simp: ContainsAny_def list_ex_iff)
  moreover have "HasPrefix p ''<''" "HasSuffix p ''>''" by (simp_all add: p(1) HasPrefix_def HasSuffix_def)
  ultimately show ?thesis using assms(2) unfolding validateEnvelopePath_def by blast
qed

text \<open>
  (C40) What the SMTP server accepts, the SMTP client can send on: the envelope of every message handed to the
  sink passes the client's own validation, so a relayed message is never refused as invalid input before
  a host is contacted.
\<close>

theorem accepted_envelope_sendable:
  assumes "0 \<le> sc_MaxRecipients (ev_config E)" "0 \<le> sc_MaxMessageSize (ev_config E)"
    and "SinkCall s m ok \<in> set (serve E sid input)"
  shows "envelope_ok (se_Envelope s)"
  using serve_sink_ok [OF assms] path_ok_sendable
  by (auto simp: sink_ok_def srv_inv_def envelope_ok_def list_all_iff)

theorem accepted_envelope_sendable_witness: "envelope_ok \<lparr>env_MailFrom = ''<a@b>'', env_Recipients = [''<c@d>'']\<rparr>"
proof -
  have "SinkCall srv_demo_session (''hi'' @ crlf) True \<in> set (serve srv_demo_env ''id'' srv_demo_input)"
    unfolding srv_demo_run by simp
  then show ?thesis
    using accepted_envelope_sendable [of srv_demo_env srv_demo_session "''hi'' @ crlf" True "''id''" srv_demo_input]
    by (simp add: srv_demo_env_def srv_demo_session_def DefaultConfig_def DefaultMaxRecipients_def DefaultMaxMessageSize_def)
qed

end
